(* ===== verification/Prelude.thy ===== *)
theory Prelude
  imports Main "HOL-Library.Word" "HOL-Library.Monad_Syntax" "HOL-Library.Code_Target_Numeral"
begin

unbundle bit_operations_syntax

text \<open>
  Shared vocabulary of the development: machine types, the kernel-panic monad, checked
  array access, the counting loops of the C sources, little-endian encoding, and the generic
  lemmas on them that the component theories use.

  A kernel function that can stop the machine (a failed \<^verbatim>\<open>ASSERT\<close>, a
  \<^verbatim>\<open>PANIC\<close>, \<^verbatim>\<open>NOT_REACHED\<close>) or that reads or writes outside an object
  returns an \<open>option\<close>: \<open>None\<close> is the stopped (or undefined) machine, \<open>Some\<close> a normal return.
\<close>

section \<open>Machine types\<close>

type_synonym byte = "8 word"
type_synonym u16 = "16 word"
type_synonym u32 = "32 word"
type_synonym u64 = "64 word"

text \<open>\<open>size_t\<close> values are naturals; sums of them wrap at \<open>2 ^ 32\<close>, written out by \<open>sz\<close>.\<close>

abbreviation SIZE_MAX :: nat where
  "SIZE_MAX \<equiv> 2 ^ 32 - 1"

definition sz :: "nat \<Rightarrow> nat" where
  "sz n = n mod 2 ^ 32"

text \<open>Signed 32-bit values are integers; \<open>i32\<close> wraps a result into the range.\<close>

definition i32 :: "int \<Rightarrow> int" where
  "i32 x = (x + 2 ^ 31) mod 2 ^ 32 - 2 ^ 31"

abbreviation INT_MAX :: int where
  "INT_MAX \<equiv> 2 ^ 31 - 1"

text \<open>C's signed division truncates towards zero.\<close>

definition cdiv :: "int \<Rightarrow> int \<Rightarrow> int" where
  "cdiv a b = sgn a * sgn b * (\<bar>a\<bar> div \<bar>b\<bar>)"

definition cmod :: "int \<Rightarrow> int \<Rightarrow> int" where
  "cmod a b = a - b * cdiv a b"

text \<open>The rounding macros of \<^verbatim>\<open>lib/round.h\<close>, on arguments whose sums do not wrap.\<close>

definition DIV_ROUND_UP :: "nat \<Rightarrow> nat \<Rightarrow> nat" where
  "DIV_ROUND_UP x step = (x + step - 1) div step"

definition ROUND_UP :: "nat \<Rightarrow> nat \<Rightarrow> nat" where
  "ROUND_UP x step = (x + step - 1) div step * step"

definition ROUND_DOWN :: "nat \<Rightarrow> nat \<Rightarrow> nat" where
  "ROUND_DOWN x step = x div step * step"

lemma sz_id [simp]: "n < 2 ^ 32 \<Longrightarrow> sz n = n"
  by (simp add: sz_def)

lemma sz_less [simp]: "sz n < 2 ^ 32"
  by (simp add: sz_def)

lemma i32_id: "- (2 ^ 31) \<le> x \<Longrightarrow> x < 2 ^ 31 \<Longrightarrow> i32 x = x"
  by (simp add: i32_def)

lemma i32_range: "- (2 ^ 31) \<le> i32 x \<and> i32 x < 2 ^ 31"
  by (simp add: i32_def)

lemma cdiv_nonneg: "0 \<le> a \<Longrightarrow> 0 < b \<Longrightarrow> cdiv a b = a div b"
  by (cases "a = 0") (simp_all add: cdiv_def sgn_if)

lemma cmod_nonneg: "0 \<le> a \<Longrightarrow> 0 < b \<Longrightarrow> cmod a b = a mod b"
  by (simp add: cmod_def cdiv_nonneg minus_mult_div_eq_mod)

lemma DIV_ROUND_UP_bounds:
  assumes "0 < step"
  shows "x \<le> DIV_ROUND_UP x step * step"
    and "DIV_ROUND_UP x step * step < x + step"
proof -
  let ?y = "x + step - 1"
  have eq: "?y = ?y div step * step + ?y mod step" by simp
  have m: "?y mod step < step" using assms by simp
  show "x \<le> DIV_ROUND_UP x step * step"
    using eq m assms unfolding DIV_ROUND_UP_def by linarith
  show "DIV_ROUND_UP x step * step < x + step"
    using eq assms unfolding DIV_ROUND_UP_def by linarith
qed

lemma DIV_ROUND_UP_le_iff:
  "0 < step \<Longrightarrow> DIV_ROUND_UP x step \<le> n \<longleftrightarrow> x \<le> n * step"
proof
  assume s: "0 < step" and "DIV_ROUND_UP x step \<le> n"
  then have "DIV_ROUND_UP x step * step \<le> n * step" by simp
  with DIV_ROUND_UP_bounds(1) [OF s, of x] show "x \<le> n * step" by linarith
next
  assume s: "0 < step" and "x \<le> n * step"
  with DIV_ROUND_UP_bounds(2) [OF s, of x]
  have "DIV_ROUND_UP x step * step < Suc n * step" by simp
  then show "DIV_ROUND_UP x step \<le> n" using s by (simp only: mult_less_cancel2 less_Suc_eq_le)
qed

section \<open>Assertions and checked array access\<close>

definition kassert :: "bool \<Rightarrow> unit option" where
  "kassert b = (if b then Some () else None)"

lemma kassert_bind [simp]: "Option.bind (kassert b) f = (if b then f () else None)"
  by (simp add: kassert_def)

definition arr_get :: "'a list \<Rightarrow> nat \<Rightarrow> 'a option" where
  "arr_get xs i = (if i < length xs then Some (xs ! i) else None)"

definition arr_set :: "'a list \<Rightarrow> nat \<Rightarrow> 'a \<Rightarrow> 'a list option" where
  "arr_set xs i x = (if i < length xs then Some (xs[i := x]) else None)"

lemma arr_get_Some [simp]: "i < length xs \<Longrightarrow> arr_get xs i = Some (xs ! i)"
  by (simp add: arr_get_def)

lemma arr_get_eq_Some: "arr_get xs i = Some x \<longleftrightarrow> i < length xs \<and> xs ! i = x"
  by (auto simp: arr_get_def)

lemma arr_set_Some [simp]: "i < length xs \<Longrightarrow> arr_set xs i x = Some (xs[i := x])"
  by (simp add: arr_set_def)

lemma arr_set_eq_Some: "arr_set xs i x = Some ys \<longleftrightarrow> i < length xs \<and> ys = xs[i := x]"
  by (auto simp: arr_set_def)

lemma panicI: "(\<And>t. x \<noteq> Some t) \<Longrightarrow> x = None"
  by (cases x) auto

lemmas option_bind_splits = Option.bind_splits

section \<open>Counting loops\<close>

text \<open>
  \<open>for_loop i n body s\<close> is the C loop \<^verbatim>\<open>for (; i < n; i++) body\<close> over the loop state \<open>s\<close>;
  a panic in the body ends it.
\<close>

function for_loop :: "nat \<Rightarrow> nat \<Rightarrow> (nat \<Rightarrow> 's \<Rightarrow> 's option) \<Rightarrow> 's \<Rightarrow> 's option" where
  "for_loop i n body s =
     (if i < n then Option.bind (body i s) (for_loop (Suc i) n body) else Some s)"
  by pat_completeness auto
termination
  by (relation "measure (\<lambda>(i, n, body, s). n - i)") auto

declare for_loop.simps [simp del]

lemma for_loop_done [simp]: "n \<le> i \<Longrightarrow> for_loop i n body s = Some s"
  by (simp add: for_loop.simps [of i n])

lemma for_loop_step:
  "i < n \<Longrightarrow> for_loop i n body s = Option.bind (body i s) (for_loop (Suc i) n body)"
  by (simp add: for_loop.simps [of i n])

text \<open>The loop rule: an invariant that every iteration keeps holds at the end, and the loop returns.\<close>

lemma for_loop_rule:
  assumes "I i s" and "i \<le> n"
    and "\<And>k t. i \<le> k \<Longrightarrow> k < n \<Longrightarrow> I k t \<Longrightarrow> \<exists>t'. body k t = Some t' \<and> I (Suc k) t'"
  shows "\<exists>t. for_loop i n body s = Some t \<and> I n t"
  using assms
proof (induction "n - i" arbitrary: i s)
  case 0
  then show ?case by simp
next
  case (Suc d)
  then have lt: "i < n" by simp
  with Suc.prems obtain t where t: "body i s = Some t" "I (Suc i) t" by blast
  have "\<exists>u. for_loop (Suc i) n body t = Some u \<and> I n u"
  proof (rule Suc.hyps(1))
    show "d = n - Suc i" using Suc.hyps(2) by simp
    show "I (Suc i) t" by (rule t(2))
    show "Suc i \<le> n" using lt by simp
    show "\<And>k t. Suc i \<le> k \<Longrightarrow> k < n \<Longrightarrow> I k t \<Longrightarrow> \<exists>t'. body k t = Some t' \<and> I (Suc k) t'"
      using Suc.prems(3) by simp
  qed
  with t lt show ?case by (simp add: for_loop_step)
qed

text \<open>The partial rule, for facts about a loop that is known to have returned.\<close>

lemma for_loop_partial_rule:
  assumes "for_loop i n body s = Some t" and "I i s" and "i \<le> n"
    and "\<And>k u u'. i \<le> k \<Longrightarrow> k < n \<Longrightarrow> I k u \<Longrightarrow> body k u = Some u' \<Longrightarrow> I (Suc k) u'"
  shows "I n t"
  using assms
proof (induction "n - i" arbitrary: i s)
  case 0
  then show ?case by simp
next
  case (Suc d)
  then have lt: "i < n" by simp
  with Suc.prems(1) obtain u where u: "body i s = Some u"
    and rest: "for_loop (Suc i) n body u = Some t"
    by (auto simp: for_loop_step split: option_bind_splits)
  have "I (Suc i) u" using Suc.prems(2,4) u lt by blast
  then show ?case
    using Suc.hyps(1) [of "Suc i" u] Suc.hyps(2) rest Suc.prems(4) lt by simp
qed

lemma for_loop_panic:
  assumes "i \<le> k" and "k < n" and "\<And>t. body k t = None"
  shows "for_loop i n body s = None"
  using assms
proof (induction "n - i" arbitrary: i s)
  case 0
  then show ?case by simp
next
  case (Suc d)
  then have lt: "i < n" by simp
  show ?case
  proof (cases "i = k")
    case True
    with lt Suc.prems(3) show ?thesis by (simp add: for_loop_step)
  next
    case False
    with Suc.prems(1) have "Suc i \<le> k" by simp
    with Suc have "\<And>s. for_loop (Suc i) n body s = None" by simp
    with lt show ?thesis by (simp add: for_loop_step split: option_bind_splits)
  qed
qed

text \<open>
  \<open>find_loop i n p\<close> is the search loop \<^verbatim>\<open>for (; i < n; i++) if (p (i)) return i;\<close>: the first
  index at which the (possibly panicking) test succeeds, or \<open>None\<close> inside the result.
\<close>

function find_loop :: "nat \<Rightarrow> nat \<Rightarrow> (nat \<Rightarrow> bool option) \<Rightarrow> nat option option" where
  "find_loop i n p =
     (if i < n
      then Option.bind (p i) (\<lambda>r. if r then Some (Some i) else find_loop (Suc i) n p)
      else Some None)"
  by pat_completeness auto
termination
  by (relation "measure (\<lambda>(i, n, p). n - i)") auto

declare find_loop.simps [simp del]

lemma find_loop_done [simp]: "n \<le> i \<Longrightarrow> find_loop i n p = Some None"
  by (simp add: find_loop.simps [of i n])

lemma find_loop_total:
  assumes "\<And>k. i \<le> k \<Longrightarrow> k < n \<Longrightarrow> p k = Some (q k)"
  shows "\<exists>r. find_loop i n p = Some r
    \<and> (case r of None \<Rightarrow> (\<forall>k. i \<le> k \<and> k < n \<longrightarrow> \<not> q k)
         | Some k \<Rightarrow> i \<le> k \<and> k < n \<and> q k \<and> (\<forall>j. i \<le> j \<and> j < k \<longrightarrow> \<not> q j))"
  using assms
proof (induction "n - i" arbitrary: i)
  case 0
  then show ?case by (auto intro: exI [of _ None])
next
  case (Suc d)
  then have lt: "i < n" by simp
  have step: "find_loop i n p = (if q i then Some (Some i) else find_loop (Suc i) n p)"
    using lt Suc.prems [of i] by (simp add: find_loop.simps [of i n])
  show ?case
  proof (cases "q i")
    case True
    with step lt show ?thesis by (auto intro: exI [of _ "Some i"])
  next
    case False
    have "\<exists>r. find_loop (Suc i) n p = Some r
      \<and> (case r of None \<Rightarrow> (\<forall>k. Suc i \<le> k \<and> k < n \<longrightarrow> \<not> q k)
         | Some k \<Rightarrow> Suc i \<le> k \<and> k < n \<and> q k \<and> (\<forall>j. Suc i \<le> j \<and> j < k \<longrightarrow> \<not> q j))"
      using Suc.hyps Suc.prems by simp
    then obtain r where r: "find_loop (Suc i) n p = Some r"
      and c: "case r of None \<Rightarrow> (\<forall>k. Suc i \<le> k \<and> k < n \<longrightarrow> \<not> q k)
         | Some k \<Rightarrow> Suc i \<le> k \<and> k < n \<and> q k \<and> (\<forall>j. Suc i \<le> j \<and> j < k \<longrightarrow> \<not> q j)"
      by blast
    have "case r of None \<Rightarrow> (\<forall>k. i \<le> k \<and> k < n \<longrightarrow> \<not> q k)
         | Some k \<Rightarrow> i \<le> k \<and> k < n \<and> q k \<and> (\<forall>j. i \<le> j \<and> j < k \<longrightarrow> \<not> q j)"
      using c False by (auto split: option.splits simp: Suc_le_eq) (metis le_neq_implies_less)+
    with step r False show ?thesis by simp
  qed
qed

text \<open>Searching an array with a test that cannot fail.\<close>

lemma find_loop_array:
  assumes "n \<le> length xs"
  shows "\<exists>r. find_loop 0 n (\<lambda>i. Option.bind (arr_get xs i) (\<lambda>e. Some (P e))) = Some r
    \<and> (case r of None \<Rightarrow> \<forall>k < n. \<not> P (xs ! k) | Some k \<Rightarrow> k < n \<and> P (xs ! k) \<and> (\<forall>j < k. \<not> P (xs ! j)))"
proof -
  let ?p = "\<lambda>i. Option.bind (arr_get xs i) (\<lambda>e. Some (P e))"
  have "?p k = Some (P (xs ! k))" if "0 \<le> k" "k < n" for k
    using that assms by simp
  from find_loop_total [of 0 n ?p "\<lambda>k. P (xs ! k)", OF this] show ?thesis
    by (simp only: le0 simp_thms)
qed

section \<open>Little-endian encoding\<close>

text \<open>A 32-bit value in memory, least significant byte first (x86).\<close>

definition le32 :: "u32 \<Rightarrow> byte list" where
  "le32 w = [ucast w, ucast (drop_bit 8 w), ucast (drop_bit 16 w), ucast (drop_bit 24 w)]"

definition un_le32 :: "byte list \<Rightarrow> u32" where
  "un_le32 bs = ucast (bs ! 0) OR push_bit 8 (ucast (bs ! 1))
     OR push_bit 16 (ucast (bs ! 2)) OR push_bit 24 (ucast (bs ! 3))"

lemma length_le32 [simp]: "length (le32 w) = 4"
  by (simp add: le32_def)

lemma un_le32_le32 [simp]: "un_le32 (le32 w @ bs) = w"
proof (rule bit_word_eqI)
  fix n :: nat
  assume "n < LENGTH(32)"
  then show "bit (un_le32 (le32 w @ bs)) n \<longleftrightarrow> bit w n"
    by (cases "n < 8"; cases "n < 16"; cases "n < 24")
      (auto simp: un_le32_def le32_def bit_or_iff bit_push_bit_iff bit_ucast_iff bit_drop_bit_eq)
qed

section \<open>The contract of a first-in first-out queue\<close>

text \<open>
  \<open>rep s xs\<close>: the state \<open>s\<close> holds the elements \<open>xs\<close>, oldest first; \<open>room xs e\<close>: such a queue can take
  \<open>e\<close>.  The kernel's linked lists and its interrupt queues both promise these laws.
\<close>

fun push_all :: "('s \<Rightarrow> 'a \<Rightarrow> 's option) \<Rightarrow> 's \<Rightarrow> 'a list \<Rightarrow> 's option" where
  "push_all push s [] = Some s"
| "push_all push s (e # es) = Option.bind (push s e) (\<lambda>s'. push_all push s' es)"

fun pop_n :: "('s \<Rightarrow> ('a \<times> 's) option) \<Rightarrow> nat \<Rightarrow> 's \<Rightarrow> ('a list \<times> 's) option" where
  "pop_n pop 0 s = Some ([], s)"
| "pop_n pop (Suc n) s = Option.bind (pop s) (\<lambda>(x, s'). map_option (map_prod (Cons x) id) (pop_n pop n s'))"

fun rooms :: "('a list \<Rightarrow> 'a \<Rightarrow> bool) \<Rightarrow> 'a list \<Rightarrow> 'a list \<Rightarrow> bool" where
  "rooms room xs [] = True"
| "rooms room xs (e # es) = (room xs e \<and> rooms room (xs @ [e]) es)"

locale fifo =
  fixes rep :: "'s \<Rightarrow> 'a list \<Rightarrow> bool"
    and room :: "'a list \<Rightarrow> 'a \<Rightarrow> bool"
    and push :: "'s \<Rightarrow> 'a \<Rightarrow> 's option"
    and pop :: "'s \<Rightarrow> ('a \<times> 's) option"
  assumes push_law: "rep s xs \<Longrightarrow> room xs e \<Longrightarrow> \<exists>s'. push s e = Some s' \<and> rep s' (xs @ [e])"
    and pop_law: "rep s (x # xs) \<Longrightarrow> \<exists>s'. pop s = Some (x, s') \<and> rep s' xs"
begin

lemma push_all_rep:
  "rep s xs \<Longrightarrow> rooms room xs es \<Longrightarrow> \<exists>s'. push_all push s es = Some s' \<and> rep s' (xs @ es)"
proof (induction es arbitrary: s xs)
  case (Cons e es)
  with push_law [of s xs e] obtain s1 where "push s e = Some s1" "rep s1 (xs @ [e])" by auto
  with Cons.IH [of s1 "xs @ [e]"] Cons.prems(2) show ?case by auto
qed simp

lemma pop_n_rep: "rep s (xs @ ys) \<Longrightarrow> \<exists>s'. pop_n pop (length xs) s = Some (xs, s') \<and> rep s' ys"
proof (induction xs arbitrary: s)
  case (Cons x xs)
  with pop_law [of s x "xs @ ys"] obtain s1 where "pop s = Some (x, s1)" "rep s1 (xs @ ys)" by auto
  with Cons.IH [of s1] show ?case by auto
qed simp

text \<open>What was pushed comes out in the same order, after what was there before.\<close>

lemma push_pop_order:
  assumes "rep s xs" and "rooms room xs es"
  shows "\<exists>s' s''. push_all push s es = Some s' \<and> pop_n pop (length xs + length es) s' = Some (xs @ es, s'')
    \<and> rep s'' []"
proof -
  from push_all_rep [OF assms] obtain s' where "push_all push s es = Some s'" "rep s' ((xs @ es) @ [])" by auto
  with pop_n_rep [of s' "xs @ es" "[]"] show ?thesis by auto
qed

end

end
