(* ===== verification/Vaddr.thy ===== *)
theory Vaddr
  imports Prelude
begin

text \<open>
  Virtual addresses and x86 page-table entries: \<^verbatim>\<open>threads/vaddr.h\<close>, \<^verbatim>\<open>threads/pte.h\<close>.
  A pointer or \<^verbatim>\<open>uintptr_t\<close> is a 32-bit word, so every sum below wraps as it does on the machine.
\<close>

type_synonym vaddr = u32

section \<open>vaddr.h\<close>

definition BITMASK :: "nat \<Rightarrow> nat \<Rightarrow> u32" where
  "BITMASK SHIFT CNT = push_bit SHIFT (push_bit CNT 1 - 1)"

definition PGBITS :: nat where
  "PGBITS = 12"

definition PGSIZE :: u32 where
  "PGSIZE = push_bit PGBITS 1"

definition PGMASK :: u32 where
  "PGMASK = BITMASK 0 PGBITS"

definition pg_ofs :: "vaddr \<Rightarrow> u32" where
  "pg_ofs va = va AND PGMASK"

definition pg_no :: "vaddr \<Rightarrow> u32" where
  "pg_no va = drop_bit PGBITS va"

definition pg_round_up :: "vaddr \<Rightarrow> vaddr" where
  "pg_round_up va = (va + PGSIZE - 1) AND NOT PGMASK"

definition pg_round_down :: "vaddr \<Rightarrow> vaddr" where
  "pg_round_down va = va AND NOT PGMASK"

definition PHYS_BASE :: vaddr where
  "PHYS_BASE = 0xc0000000"

definition is_user_vaddr :: "vaddr \<Rightarrow> bool" where
  "is_user_vaddr va \<longleftrightarrow> va < PHYS_BASE"

definition is_kernel_vaddr :: "vaddr \<Rightarrow> bool" where
  "is_kernel_vaddr va \<longleftrightarrow> PHYS_BASE \<le> va"

definition ptov :: "u32 \<Rightarrow> vaddr option" where
  "ptov paddr = do { kassert (paddr < PHYS_BASE); Some (paddr + PHYS_BASE) }"

definition vtop :: "vaddr \<Rightarrow> u32 option" where
  "vtop va = do { kassert (is_kernel_vaddr va); Some (va - PHYS_BASE) }"

section \<open>pte.h\<close>

definition PTBITS :: nat where
  "PTBITS = 10"

definition PTMASK :: u32 where
  "PTMASK = BITMASK PGBITS PTBITS"

definition PDSHIFT :: nat where
  "PDSHIFT = PGBITS + PTBITS"

definition pt_no :: "vaddr \<Rightarrow> u32" where
  "pt_no va = drop_bit PGBITS (va AND PTMASK)"

definition pd_no :: "vaddr \<Rightarrow> u32" where
  "pd_no va = drop_bit PDSHIFT va"

definition PTE_FLAGS :: u32 where "PTE_FLAGS = 0x00000fff"
definition PTE_ADDR :: u32 where "PTE_ADDR = 0xfffff000"
definition PTE_P :: u32 where "PTE_P = 0x1"
definition PTE_W :: u32 where "PTE_W = 0x2"
definition PTE_U :: u32 where "PTE_U = 0x4"
definition PTE_A :: u32 where "PTE_A = 0x20"
definition PTE_D :: u32 where "PTE_D = 0x40"

lemmas pte_flag_defs = PTE_FLAGS_def PTE_ADDR_def PTE_P_def PTE_W_def PTE_U_def PTE_A_def PTE_D_def

definition pde_create :: "vaddr \<Rightarrow> u32 option" where
  "pde_create pt = do { kassert (pg_ofs pt = 0); p \<leftarrow> vtop pt; Some (p OR PTE_U OR PTE_P OR PTE_W) }"

definition pde_get_pt :: "u32 \<Rightarrow> vaddr option" where
  "pde_get_pt pde = do { kassert (pde AND PTE_P \<noteq> 0); ptov (pde AND PTE_ADDR) }"

definition pte_create_kernel :: "vaddr \<Rightarrow> bool \<Rightarrow> u32 option" where
  "pte_create_kernel page writable = do {
     kassert (pg_ofs page = 0);
     p \<leftarrow> vtop page;
     Some (p OR PTE_P OR (if writable then PTE_W else 0)) }"

definition pte_create_user :: "vaddr \<Rightarrow> bool \<Rightarrow> u32 option" where
  "pte_create_user page writable = do { e \<leftarrow> pte_create_kernel page writable; Some (e OR PTE_U) }"

definition pte_get_page :: "u32 \<Rightarrow> vaddr option" where
  "pte_get_page pte = ptov (pte AND PTE_ADDR)"

section \<open>Masks as bit positions\<close>

lemma PGMASK_mask: "PGMASK = mask 12"
  by (simp add: PGMASK_def BITMASK_def PGBITS_def mask_eq_exp_minus_1)

lemma PGSIZE_eq: "PGSIZE = 4096"
  by (simp add: PGSIZE_def PGBITS_def)

lemma PTE_ADDR_mask: "PTE_ADDR = NOT (mask 12)"
  by (simp add: PTE_ADDR_def mask_eq_exp_minus_1)

lemma PTMASK_mask: "PTMASK = push_bit 12 (mask 10)"
  by (simp add: PTMASK_def BITMASK_def PGBITS_def PTBITS_def mask_eq_exp_minus_1)

lemma bit_PTE_P: "bit PTE_P n \<longleftrightarrow> n = 0"
  by (simp add: PTE_P_def bit_1_iff)

lemma bit_PTE_W: "bit PTE_W n \<longleftrightarrow> n = 1"
  using bit_exp_iff [where 'a = "32 word", of 1 n] by (auto simp: PTE_W_def)

lemma bit_PTE_U: "bit PTE_U n \<longleftrightarrow> n = 2"
  using bit_exp_iff [where 'a = "32 word", of 2 n] by (auto simp: PTE_U_def)

lemmas bit_pte_flags = bit_PTE_P bit_PTE_W bit_PTE_U

lemma pg_ofs_0_iff: "pg_ofs va = 0 \<longleftrightarrow> (\<forall>n < 12. \<not> bit va n)"
proof
  assume "pg_ofs va = 0"
  then have a: "\<not> bit (va AND mask 12) n" for n by (simp add: pg_ofs_def PGMASK_mask)
  show "\<forall>n < 12. \<not> bit va n"
  proof (intro allI impI)
    fix n :: nat
    assume "n < 12"
    with a [of n] show "\<not> bit va n" by (simp add: bit_and_iff bit_mask_iff)
  qed
next
  assume "\<forall>n < 12. \<not> bit va n"
  then show "pg_ofs va = 0"
    by (auto simp: pg_ofs_def PGMASK_mask bit_eq_iff bit_and_iff bit_mask_iff)
qed

lemma pg_ofs_mod: "unat (pg_ofs va) = unat va mod 4096"
  by (simp add: pg_ofs_def PGMASK_mask flip: take_bit_eq_mask)
     (simp add: take_bit_eq_mod unat_mod)

lemma pg_round_down_plus_ofs: "pg_round_down va + pg_ofs va = va"
  unfolding pg_round_down_def pg_ofs_def PGMASK_mask
  by (subst disjunctive_add) (auto simp: bit_eq_iff bit_and_iff bit_or_iff bit_not_iff)

lemma pg_no_div: "unat (pg_no va) = unat va div 4096"
  by (simp add: pg_no_def PGBITS_def drop_bit_eq_div unat_div)

lemma unat_pg_round_down: "unat (pg_round_down va) = unat va - unat va mod 4096"
proof -
  have "pg_round_down va = va - pg_ofs va"
    using pg_round_down_plus_ofs [of va] by (metis add_diff_cancel_right')
  moreover have "pg_ofs va \<le> va"
    by (simp add: word_le_nat_alt pg_ofs_mod)
  ultimately show ?thesis by (simp add: unat_sub pg_ofs_mod)
qed

lemma pg_round_up_eq: "pg_round_up va = pg_round_down (va + 4095)"
  by (simp add: pg_round_up_def pg_round_down_def PGSIZE_eq add.commute)

lemma unat_pg_round_up:
  assumes "va \<le> 0xfffff000"
  shows "unat (pg_round_up va) = (unat va + 4095) div 4096 * 4096"
proof -
  have le: "unat va \<le> 0xfffff000"
    using assms by (simp add: word_le_nat_alt)
  then have "unat (va + 4095) = unat va + 4095"
    by (simp add: unat_add_lem [THEN iffD1])
  then show ?thesis
    by (simp add: pg_round_up_eq unat_pg_round_down minus_mod_eq_div_mult)
qed

lemma pd_no_div: "unat (pd_no va) = unat va div 2 ^ 22"
  by (simp add: pd_no_def PDSHIFT_def PGBITS_def PTBITS_def drop_bit_eq_div unat_div)

lemma pt_no_eq: "pt_no va = take_bit 10 (drop_bit 12 va)"
  by (auto simp: pt_no_def PGBITS_def PTMASK_mask bit_eq_iff bit_and_iff bit_push_bit_iff
      bit_drop_bit_eq bit_take_bit_iff bit_mask_iff)

lemma pt_no_div_mod: "unat (pt_no va) = unat va div 4096 mod 1024"
  by (simp add: pt_no_eq take_bit_eq_mod drop_bit_eq_div unat_div unat_mod)

section \<open>Properties of the address arithmetic\<close>

text \<open>Rounding an address down gives a page boundary at or below it and less than a page away.\<close>

theorem pg_round_down_correct:
  "pg_ofs (pg_round_down va) = 0 \<and> pg_round_down va \<le> va \<and> va - pg_round_down va < PGSIZE"
proof -
  have "unat va - unat va mod 4096 = 4096 * (unat va div 4096)"
    by (simp add: minus_mod_eq_mult_div)
  then have "unat (pg_ofs (pg_round_down va)) = 0"
    by (simp only: pg_ofs_mod unat_pg_round_down mod_mult_self1_is_0)
  then have "pg_ofs (pg_round_down va) = 0"
    by (simp add: unat_eq_0)
  moreover have "va - pg_round_down va = pg_ofs va"
    using pg_round_down_plus_ofs [of va] by (metis add_diff_cancel_left')
  ultimately show ?thesis
    by (simp add: word_le_nat_alt word_less_nat_alt unat_pg_round_down pg_ofs_mod PGSIZE_eq)
qed

text \<open>Rounding up gives the least page boundary at or above the address, as long as one exists.\<close>

theorem pg_round_up_least:
  assumes "va \<le> 0xfffff000"
  shows "pg_ofs (pg_round_up va) = 0 \<and> va \<le> pg_round_up va
    \<and> (\<forall>b. pg_ofs b = 0 \<and> va \<le> b \<longrightarrow> pg_round_up va \<le> b)"
proof -
  let ?u = "(unat va + 4095) div 4096 * 4096"
  have u: "unat (pg_round_up va) = ?u" by (rule unat_pg_round_up [OF assms])
  have "unat (pg_ofs (pg_round_up va)) = 0"
    by (simp only: pg_ofs_mod u) simp
  then have aligned: "pg_ofs (pg_round_up va) = 0" by (simp add: unat_eq_0)
  have ge: "va \<le> pg_round_up va" 
    unfolding word_le_nat_alt u using div_mod_decomp [of "unat va + 4095" 4096]
      mod_less_divisor [of 4096 "unat va + 4095"] by linarith
  have least: "pg_round_up va \<le> b" if "pg_ofs b = 0" "va \<le> b" for b
  proof -
    have "unat b mod 4096 = 0" using that(1) pg_ofs_mod [of b] by simp
    then obtain k where k: "unat b = 4096 * k" by blast
    have "unat va \<le> unat b" using that(2) by (simp add: word_le_nat_alt)
    then have "(unat va + 4095) div 4096 \<le> k" unfolding k
      using div_mod_decomp [of "unat va + 4095" 4096] by linarith
    then show ?thesis unfolding word_le_nat_alt u k by simp
  qed
  from aligned ge least show ?thesis by blast
qed

theorem pg_round_up_least_witness:
  "(0x08048123 :: vaddr) \<le> 0xfffff000 \<and> pg_ofs (pg_round_up 0x08048123) = 0"
  using pg_round_up_least [of "0x08048123"] by simp

text \<open>
  The page-directory index, the page-table index and the page offset are in range, and together
  determine the address.
\<close>

theorem vaddr_split_unique:
  "pd_no va < 1024 \<and> pt_no va < 1024 \<and> pg_ofs va < PGSIZE
   \<and> (pd_no va = pd_no vb \<and> pt_no va = pt_no vb \<and> pg_ofs va = pg_ofs vb \<longleftrightarrow> va = vb)"
proof -
  have eq: "unat v = unat (pd_no v) * 2 ^ 22 + unat (pt_no v) * 4096 + unat (pg_ofs v)" for v
  proof -
    have gen: "x = q * 2 ^ 22 + r * 4096 + m" if "x = a * 4096 + m" "a = q * 1024 + r"
      for x a q r m :: nat using that by simp
    have "unat v div 2 ^ 22 = unat v div 4096 div 1024" by (simp flip: div_mult2_eq)
    then show ?thesis
      unfolding pd_no_div pt_no_div_mod pg_ofs_mod
      by (simp only:) (rule gen [of _ "unat v div 4096"], simp_all only: div_mult_mod_eq)
  qed
  have "va = vb" if "pd_no va = pd_no vb" "pt_no va = pt_no vb" "pg_ofs va = pg_ofs vb"
    using eq [of va] eq [of vb] that by (simp add: word_unat_eq_iff)
  moreover have "unat va < 2 ^ 32" using unsigned_less [of va] by simp
  then have "unat va div 2 ^ 22 < 1024" by simp
  ultimately show ?thesis
    by (auto simp: word_less_nat_alt pd_no_div pt_no_div_mod pg_ofs_mod PGSIZE_eq)
qed

lemma ptov_kernel:
  assumes "is_kernel_vaddr va"
  shows "ptov (va - PHYS_BASE) = Some va"
proof -
  have "unat va < 2 ^ 32" using unsigned_less [of va] by simp
  with assms have "va - PHYS_BASE < PHYS_BASE"
    by (simp add: is_kernel_vaddr_def PHYS_BASE_def word_less_nat_alt unat_sub)
  then show ?thesis by (simp add: ptov_def)
qed

lemma ptov_window:
  assumes "paddr < 0x40000000"
  shows "ptov paddr = Some (paddr + PHYS_BASE)" and "is_kernel_vaddr (paddr + PHYS_BASE)"
proof -
  have p: "unat paddr < 0x40000000" using assms by (simp add: word_less_nat_alt)
  then have "unat (paddr + PHYS_BASE) = unat paddr + 0xc0000000"
    by (simp add: PHYS_BASE_def unat_add_lem [THEN iffD1])
  with p show "ptov paddr = Some (paddr + PHYS_BASE)" "is_kernel_vaddr (paddr + PHYS_BASE)"
    by (simp_all add: ptov_def is_kernel_vaddr_def PHYS_BASE_def word_le_nat_alt word_less_nat_alt)
qed

text \<open>
  C38. The kernel's window on physical memory is consistent: a physical address of the window goes to
  a kernel address and back to itself, a kernel address goes to physical and back to itself, both
  without stopping the kernel; a user address has no physical translation by \<open>vtop\<close>.
\<close>

theorem ptov_vtop_inverse:
  "(is_kernel_vaddr va \<longrightarrow> Option.bind (vtop va) ptov = Some va)
   \<and> (paddr < 0x40000000 \<longrightarrow> Option.bind (ptov paddr) vtop = Some paddr)
   \<and> (is_user_vaddr va \<longrightarrow> vtop va = None)"
  by (auto simp: vtop_def ptov_kernel ptov_window)
     (auto simp: is_kernel_vaddr_def is_user_vaddr_def)

theorem ptov_vtop_inverse_witness:
  "Option.bind (vtop 0xc0101000) ptov = Some 0xc0101000 \<and> Option.bind (ptov 0x1000) vtop = Some 0x1000
   \<and> vtop 0x1000 = None"
  using ptov_vtop_inverse [of "0xc0101000" "0x1000"] ptov_vtop_inverse [of "0x1000" "0x1000"]
  by (simp add: is_kernel_vaddr_def is_user_vaddr_def PHYS_BASE_def)

lemma vtop_aligned:
  assumes "is_kernel_vaddr page" and "pg_ofs page = 0"
  shows "n < 12 \<Longrightarrow> \<not> bit (page - PHYS_BASE) n"
proof -
  have "PHYS_BASE \<le> page" using assms(1) by (simp add: is_kernel_vaddr_def)
  then have d: "unat (page - PHYS_BASE) = unat page - 4096 * 0xc0000"
    by (simp add: PHYS_BASE_def unat_sub)
  moreover have "unat page mod 4096 = 0" using assms(2) pg_ofs_mod [of page] by simp
  then obtain k where "unat page = 4096 * k" by blast
  ultimately have "unat (page - PHYS_BASE) = 4096 * (k - 0xc0000)"
    by (simp only: diff_mult_distrib2)
  then have "unat (pg_ofs (page - PHYS_BASE)) = 0"
    by (simp only: pg_ofs_mod mod_mult_self1_is_0)
  then show "n < 12 \<Longrightarrow> \<not> bit (page - PHYS_BASE) n"
    by (simp add: unat_eq_0 pg_ofs_0_iff)
qed

lemma PTE_ADDR_strip:
  assumes "\<And>n. n < 12 \<Longrightarrow> \<not> bit p n" and "\<And>n. bit f n \<Longrightarrow> n < 12"
  shows "(p OR f) AND PTE_ADDR = p"
  using assms by (auto simp: bit_eq_iff PTE_ADDR_mask bit_and_iff bit_or_iff bit_not_iff bit_mask_iff)

lemma flag_test:
  assumes "\<And>n. bit f n \<longleftrightarrow> n = k"
  shows "e AND f \<noteq> (0 :: u32) \<longleftrightarrow> bit e k"
proof
  assume "e AND f \<noteq> 0"
  then obtain n where "bit (e AND f) n" using bit_eq_iff [of "e AND f" 0] by auto
  then show "bit e k" using assms by (auto simp: bit_and_iff)
next
  assume "bit e k"
  then have "bit (e AND f) k" using assms by (simp add: bit_and_iff)
  then show "e AND f \<noteq> 0" by auto
qed

lemma pte_create_user_eq:
  assumes "is_kernel_vaddr page" and "pg_ofs page = 0"
  shows "pte_create_user page writable =
    Some ((page - PHYS_BASE) OR (PTE_P OR (if writable then PTE_W else 0) OR PTE_U))"
  using assms by (simp add: pte_create_user_def pte_create_kernel_def vtop_def or.assoc)

text \<open>
  A page-table entry made for a page-aligned kernel page is present and user-accessible, is
  writable exactly when asked, and gives the page back; a page-directory entry gives its table back.
\<close>

theorem pte_create_correct:
  assumes "is_kernel_vaddr page" and "pg_ofs page = 0"
  shows "\<exists>e. pte_create_user page writable = Some e \<and> pte_get_page e = Some page
      \<and> e AND PTE_P \<noteq> 0 \<and> e AND PTE_U \<noteq> 0 \<and> (e AND PTE_W \<noteq> 0) = writable
      \<and> Option.bind (pde_create page) pde_get_pt = Some page"
proof -
  let ?f = "PTE_P OR (if writable then PTE_W else 0) OR PTE_U"
  let ?g = "PTE_U OR PTE_P OR PTE_W"
  note low = vtop_aligned [OF assms]
  have "bit ?f n \<Longrightarrow> n < 12" "bit ?g n \<Longrightarrow> n < 12" for n
    by (auto simp: bit_or_iff bit_pte_flags split: if_splits)
  with low have strip: "((page - PHYS_BASE) OR ?f) AND PTE_ADDR = page - PHYS_BASE"
      "((page - PHYS_BASE) OR ?g) AND PTE_ADDR = page - PHYS_BASE"
    by (blast intro: PTE_ADDR_strip)+
  have flags: "((page - PHYS_BASE) OR ?f) AND PTE_P \<noteq> 0" "((page - PHYS_BASE) OR ?f) AND PTE_U \<noteq> 0"
      "(((page - PHYS_BASE) OR ?f) AND PTE_W \<noteq> 0) = writable" "((page - PHYS_BASE) OR ?g) AND PTE_P \<noteq> 0"
    using low [of 1] by (simp_all add: flag_test [OF bit_PTE_P] flag_test [OF bit_PTE_U]
        flag_test [OF bit_PTE_W] bit_or_iff bit_pte_flags)
  have "Option.bind (pde_create page) pde_get_pt = Some page"
    using assms flags(4) by (simp add: pde_create_def vtop_def pde_get_pt_def or.assoc strip(2) ptov_kernel)
  with flags strip show ?thesis
    by (simp add: pte_create_user_eq [OF assms] pte_get_page_def ptov_kernel [OF assms(1)])
qed

theorem pte_create_correct_witness:
  "\<exists>e. pte_create_user 0xc0105000 True = Some e \<and> pte_get_page e = Some 0xc0105000 \<and> e AND PTE_W \<noteq> 0"
proof -
  have "is_kernel_vaddr 0xc0105000" "pg_ofs 0xc0105000 = 0"
    by (simp_all add: is_kernel_vaddr_def PHYS_BASE_def pg_ofs_def PGMASK_def BITMASK_def PGBITS_def)
  from pte_create_correct [OF this, of True] show ?thesis by blast
qed

end
