(* ===== verification/Bitmap.thy ===== *)
theory Bitmap
  imports Prelude
begin

text \<open>
  \<^verbatim>\<open>lib/kernel/bitmap.c\<close>: an array of bits packed into 32-bit elements.  The model keeps the
  packing; \<open>bm_abs\<close> reads it as a list of booleans, and every operation is shown to act on that list
  as its comment says.  The locale \<open>bit_allocator\<close> is the contract that the page allocator, the free
  map and the swap table rely on; it is interpreted on the operations of this theory.
\<close>

section \<open>The structure and its operations\<close>

definition ELEM_BITS :: nat where
  "ELEM_BITS = 32"

record bitmap =
  bit_cnt :: nat
  bits :: "u32 list"

definition elem_idx :: "nat \<Rightarrow> nat" where
  "elem_idx bit_idx = bit_idx div ELEM_BITS"

definition bit_mask :: "nat \<Rightarrow> u32" where
  "bit_mask bit_idx = push_bit (bit_idx mod ELEM_BITS) 1"

definition elem_cnt :: "nat \<Rightarrow> nat" where
  "elem_cnt n = sz (n + ELEM_BITS - 1) div ELEM_BITS"

definition byte_cnt :: "nat \<Rightarrow> nat" where
  "byte_cnt n = 4 * elem_cnt n"

definition last_mask :: "bitmap \<Rightarrow> u32" where
  "last_mask b = (let last_bits = bit_cnt b mod ELEM_BITS in
     if last_bits \<noteq> 0 then push_bit last_bits 1 - 1 else - 1)"

definition bitmap_size :: "bitmap \<Rightarrow> nat" where
  "bitmap_size b = bit_cnt b"

text \<open>The three single-instruction updates; an element outside the array is undefined.\<close>

definition bitmap_mark :: "bitmap \<Rightarrow> nat \<Rightarrow> bitmap option" where
  "bitmap_mark b bit_idx = do {
     e \<leftarrow> arr_get (bits b) (elem_idx bit_idx);
     es \<leftarrow> arr_set (bits b) (elem_idx bit_idx) (e OR bit_mask bit_idx);
     Some (b\<lparr>bits := es\<rparr>) }"

definition bitmap_reset :: "bitmap \<Rightarrow> nat \<Rightarrow> bitmap option" where
  "bitmap_reset b bit_idx = do {
     e \<leftarrow> arr_get (bits b) (elem_idx bit_idx);
     es \<leftarrow> arr_set (bits b) (elem_idx bit_idx) (e AND NOT (bit_mask bit_idx));
     Some (b\<lparr>bits := es\<rparr>) }"

definition bitmap_flip :: "bitmap \<Rightarrow> nat \<Rightarrow> bitmap option" where
  "bitmap_flip b bit_idx = do {
     e \<leftarrow> arr_get (bits b) (elem_idx bit_idx);
     es \<leftarrow> arr_set (bits b) (elem_idx bit_idx) (e XOR bit_mask bit_idx);
     Some (b\<lparr>bits := es\<rparr>) }"

definition bitmap_set :: "bitmap \<Rightarrow> nat \<Rightarrow> bool \<Rightarrow> bitmap option" where
  "bitmap_set b idx v = do {
     kassert (idx < bit_cnt b);
     if v then bitmap_mark b idx else bitmap_reset b idx }"

definition bitmap_test :: "bitmap \<Rightarrow> nat \<Rightarrow> bool option" where
  "bitmap_test b idx = do {
     kassert (idx < bit_cnt b);
     e \<leftarrow> arr_get (bits b) (elem_idx idx);
     Some (e AND bit_mask idx \<noteq> 0) }"

definition bitmap_set_multiple :: "bitmap \<Rightarrow> nat \<Rightarrow> nat \<Rightarrow> bool \<Rightarrow> bitmap option" where
  "bitmap_set_multiple b start cnt v = do {
     kassert (start \<le> bit_cnt b);
     kassert (sz (start + cnt) \<le> bit_cnt b);
     for_loop 0 cnt (\<lambda>i b. bitmap_set b (sz (start + i)) v) b }"

definition bitmap_set_all :: "bitmap \<Rightarrow> bool \<Rightarrow> bitmap option" where
  "bitmap_set_all b v = bitmap_set_multiple b 0 (bitmap_size b) v"

definition bitmap_count :: "bitmap \<Rightarrow> nat \<Rightarrow> nat \<Rightarrow> bool \<Rightarrow> nat option" where
  "bitmap_count b start cnt v = do {
     kassert (start \<le> bit_cnt b);
     kassert (sz (start + cnt) \<le> bit_cnt b);
     for_loop 0 cnt
       (\<lambda>i value_cnt. do {
          t \<leftarrow> bitmap_test b (sz (start + i));
          Some (if t = v then sz (value_cnt + 1) else value_cnt) }) 0 }"

definition bitmap_contains :: "bitmap \<Rightarrow> nat \<Rightarrow> nat \<Rightarrow> bool \<Rightarrow> bool option" where
  "bitmap_contains b start cnt v = do {
     kassert (start \<le> bit_cnt b);
     kassert (sz (start + cnt) \<le> bit_cnt b);
     r \<leftarrow> find_loop 0 cnt (\<lambda>i. do { t \<leftarrow> bitmap_test b (sz (start + i)); Some (t = v) });
     Some (r \<noteq> None) }"

definition bitmap_any :: "bitmap \<Rightarrow> nat \<Rightarrow> nat \<Rightarrow> bool option" where
  "bitmap_any b start cnt = bitmap_contains b start cnt True"

definition bitmap_none :: "bitmap \<Rightarrow> nat \<Rightarrow> nat \<Rightarrow> bool option" where
  "bitmap_none b start cnt = map_option Not (bitmap_contains b start cnt True)"

definition bitmap_all :: "bitmap \<Rightarrow> nat \<Rightarrow> nat \<Rightarrow> bool option" where
  "bitmap_all b start cnt = map_option Not (bitmap_contains b start cnt False)"

definition BITMAP_ERROR :: nat where
  "BITMAP_ERROR = SIZE_MAX"

definition bitmap_scan :: "bitmap \<Rightarrow> nat \<Rightarrow> nat \<Rightarrow> bool \<Rightarrow> nat option" where
  "bitmap_scan b start cnt v = do {
     kassert (start \<le> bit_cnt b);
     if cnt \<le> bit_cnt b then do {
       let last = bit_cnt b - cnt;
       r \<leftarrow> find_loop start (last + 1) (\<lambda>i. map_option Not (bitmap_contains b i cnt (\<not> v)));
       Some (case r of Some i \<Rightarrow> i | None \<Rightarrow> BITMAP_ERROR) }
     else Some BITMAP_ERROR }"

definition bitmap_scan_and_flip :: "bitmap \<Rightarrow> nat \<Rightarrow> nat \<Rightarrow> bool \<Rightarrow> (nat \<times> bitmap) option" where
  "bitmap_scan_and_flip b start cnt v = do {
     idx \<leftarrow> bitmap_scan b start cnt v;
     if idx \<noteq> BITMAP_ERROR
     then do { b' \<leftarrow> bitmap_set_multiple b idx cnt (\<not> v); Some (idx, b') }
     else Some (idx, b) }"

text \<open>
  Creation.  What \<^verbatim>\<open>malloc\<close> gives is an argument: whether the header could be allocated, and the
  uninitialised elements of the second block (\<open>None\<close> for a null pointer).  The result is \<open>None\<close>
  inside for a null return.
\<close>

definition bitmap_create :: "bool \<Rightarrow> u32 list option \<Rightarrow> nat \<Rightarrow> bitmap option option" where
  "bitmap_create hdr_ok blk n =
     (if hdr_ok
      then case blk of
          Some es \<Rightarrow> map_option Some (bitmap_set_all \<lparr>bit_cnt = n, bits = es\<rparr> False)
        | None \<Rightarrow>
            if n = 0 then map_option Some (bitmap_set_all \<lparr>bit_cnt = n, bits = []\<rparr> False)
            else Some None
      else Some None)"

definition bitmap_buf_size :: "nat \<Rightarrow> nat" where
  "bitmap_buf_size n = sz (8 + byte_cnt n)"

definition bitmap_create_in_buf :: "nat \<Rightarrow> u32 list \<Rightarrow> nat \<Rightarrow> bitmap option" where
  "bitmap_create_in_buf n block block_size = do {
     kassert (block_size \<ge> bitmap_buf_size n);
     bitmap_set_all \<lparr>bit_cnt = n, bits = block\<rparr> False }"

definition bitmap_file_size :: "bitmap \<Rightarrow> nat" where
  "bitmap_file_size b = byte_cnt (bit_cnt b)"

section \<open>Well-formed bitmaps and their abstraction\<close>

text \<open>
  A bitmap is well formed when its element array has the length its bit count needs and the count is
  small enough for \<open>elem_cnt\<close> not to wrap.  \<open>bm_bit\<close> reads one bit, \<open>bm_abs\<close> all of them.
\<close>

definition bm_wf :: "bitmap \<Rightarrow> bool" where
  "bm_wf b \<longleftrightarrow> bit_cnt b + 31 < 2 ^ 32 \<and> length (bits b) = elem_cnt (bit_cnt b)"

definition bm_bit :: "bitmap \<Rightarrow> nat \<Rightarrow> bool" where
  "bm_bit b i = bit (bits b ! (i div 32)) (i mod 32)"

definition bm_abs :: "bitmap \<Rightarrow> bool list" where
  "bm_abs b = map (bm_bit b) [0..<bit_cnt b]"

text \<open>\<open>bm_becomes b b' f\<close>: \<open>b'\<close> is a well-formed bitmap of the size of \<open>b\<close> whose bits are \<open>f\<close>.\<close>

definition bm_becomes :: "bitmap \<Rightarrow> bitmap \<Rightarrow> (nat \<Rightarrow> bool) \<Rightarrow> bool" where
  "bm_becomes b b' f \<longleftrightarrow> bm_wf b' \<and> bit_cnt b' = bit_cnt b \<and> (\<forall>j. bm_bit b' j = f j)"

lemma length_bm_abs [simp]: "length (bm_abs b) = bit_cnt b"
  by (simp add: bm_abs_def)

lemma nth_bm_abs [simp]: "i < bit_cnt b \<Longrightarrow> bm_abs b ! i = bm_bit b i"
  by (simp add: bm_abs_def)

lemma elem_cnt_DIV_ROUND_UP: "n + 31 < 2 ^ 32 \<Longrightarrow> elem_cnt n = DIV_ROUND_UP n 32"
  by (simp add: elem_cnt_def ELEM_BITS_def DIV_ROUND_UP_def)

lemma elem_idx_in_range:
  assumes "bm_wf b" and "i < bit_cnt b"
  shows "elem_idx i < length (bits b)"
proof -
  have "bit_cnt b \<le> elem_cnt (bit_cnt b) * 32"
    using assms(1) DIV_ROUND_UP_bounds(1) [of 32 "bit_cnt b"]
    by (simp add: bm_wf_def elem_cnt_DIV_ROUND_UP)
  with assms have "i < length (bits b) * 32" by (simp add: bm_wf_def)
  then show ?thesis by (simp add: elem_idx_def ELEM_BITS_def less_mult_imp_div_less)
qed

lemma bit_bit_mask: "bit (bit_mask i) n \<longleftrightarrow> n = i mod 32"
  by (auto simp: bit_mask_def ELEM_BITS_def bit_exp_iff)

lemma and_bit_mask: "e AND bit_mask i \<noteq> 0 \<longleftrightarrow> bit e (i mod 32)"
proof -
  have "bit_mask i = push_bit (i mod 32) 1" by (simp add: bit_mask_def ELEM_BITS_def)
  then show ?thesis by (simp add: push_bit_eq_mult and_exp_eq_0_iff_not_bit)
qed

lemma same_bit_iff: "(i :: nat) = j \<longleftrightarrow> i div 32 = j div 32 \<and> i mod 32 = j mod 32"
  by (metis div_mod_decomp)

lemma bitmap_update_becomes:
  assumes wf: "bm_wf b" and i: "i < bit_cnt b"
    and e: "\<And>n. n < 32 \<Longrightarrow> bit e n = (if n = i mod 32 then v else bit (bits b ! elem_idx i) n)"
  shows "bm_becomes b (b\<lparr>bits := (bits b)[elem_idx i := e]\<rparr>) (\<lambda>j. if j = i then v else bm_bit b j)"
proof -
  note r = elem_idx_in_range [OF wf i]
  have "bm_bit (b\<lparr>bits := (bits b)[elem_idx i := e]\<rparr>) j = (if j = i then v else bm_bit b j)" for j
  proof (cases "j div 32 = i div 32")
    case True
    with r e [of "j mod 32"] same_bit_iff [of j i] show ?thesis
      by (auto simp: bm_bit_def elem_idx_def ELEM_BITS_def)
  next
    case False
    then show ?thesis by (auto simp: bm_bit_def elem_idx_def ELEM_BITS_def)
  qed
  with wf show ?thesis by (simp add: bm_becomes_def bm_wf_def)
qed

lemma bitmap_set_becomes:
  assumes "bm_wf b" and "i < bit_cnt b"
  shows "\<exists>b'. bitmap_set b i v = Some b' \<and> bm_becomes b b' (\<lambda>j. if j = i then v else bm_bit b j)"
proof -
  let ?e = "if v then bits b ! elem_idx i OR bit_mask i else bits b ! elem_idx i AND NOT (bit_mask i)"
  have "bitmap_set b i v = Some (b\<lparr>bits := (bits b)[elem_idx i := ?e]\<rparr>)"
    using assms(2) elem_idx_in_range [OF assms]
    by (simp add: bitmap_set_def bitmap_mark_def bitmap_reset_def)
  moreover have "bit ?e n = (if n = i mod 32 then v else bit (bits b ! elem_idx i) n)" if "n < 32" for n
    using that by (simp add: bit_or_iff bit_and_iff bit_not_iff bit_bit_mask)
  ultimately show ?thesis using bitmap_update_becomes [OF assms, of ?e v] by blast
qed

lemma bitmap_flip_becomes:
  assumes "bm_wf b" and "i < bit_cnt b"
  shows "\<exists>b'. bitmap_flip b i = Some b' \<and> bm_becomes b b' (\<lambda>j. if j = i then \<not> bm_bit b i else bm_bit b j)"
  using assms elem_idx_in_range [OF assms]
    bitmap_update_becomes [OF assms, of "bits b ! elem_idx i XOR bit_mask i" "\<not> bm_bit b i"]
  by (simp add: bitmap_flip_def bit_xor_iff bit_bit_mask bm_bit_def elem_idx_def ELEM_BITS_def)

lemma bitmap_set_panics [simp]: "bit_cnt b \<le> i \<Longrightarrow> bitmap_set b i v = None"
  by (simp add: bitmap_set_def)

lemma bitmap_test_bit [simp]:
  assumes "bm_wf b" and "i < bit_cnt b"
  shows "bitmap_test b i = Some (bm_bit b i)"
  using assms elem_idx_in_range [OF assms]
  by (simp add: bitmap_test_def and_bit_mask) (simp add: bm_bit_def elem_idx_def ELEM_BITS_def)

lemma bitmap_test_panics [simp]: "bit_cnt b \<le> i \<Longrightarrow> bitmap_test b i = None"
  by (simp add: bitmap_test_def)

lemma bitmap_set_multiple_becomes:
  assumes wf: "bm_wf b" and le: "start + cnt \<le> bit_cnt b"
  shows "\<exists>b'. bitmap_set_multiple b start cnt v = Some b'
    \<and> bm_becomes b b' (\<lambda>j. if start \<le> j \<and> j < start + cnt then v else bm_bit b j)"
proof -
  have small: "bit_cnt b < 2 ^ 32" using wf by (simp add: bm_wf_def)
  let ?I = "\<lambda>k b'. bm_becomes b b' (\<lambda>j. if start \<le> j \<and> j < start + k then v else bm_bit b j)"
  have "\<exists>b'. for_loop 0 cnt (\<lambda>i b. bitmap_set b (sz (start + i)) v) b = Some b' \<and> ?I cnt b'"
  proof (rule for_loop_rule)
    show "?I 0 b" using wf by (auto simp: bm_becomes_def)
    fix k t
    assume k: "k < cnt" and I: "?I k t"
    then have t: "bm_wf t" "start + k < bit_cnt t" using le by (auto simp: bm_becomes_def)
    from bitmap_set_becomes [OF this, of v] obtain t' where t': "bitmap_set t (start + k) v = Some t'"
      and b': "bm_becomes t t' (\<lambda>j. if j = start + k then v else bm_bit t j)" by blast
    have "?I (Suc k) t'" using b' I by (auto simp: bm_becomes_def less_Suc_eq)
    moreover have "sz (start + k) = start + k" using k le small by simp
    ultimately show "\<exists>t'. bitmap_set t (sz (start + k)) v = Some t' \<and> ?I (Suc k) t'"
      using t' by simp
  qed simp
  with le small show ?thesis by (simp add: bitmap_set_multiple_def)
qed

lemma bitmap_contains_eq:
  assumes wf: "bm_wf b" and le: "start + cnt \<le> bit_cnt b"
  shows "bitmap_contains b start cnt v = Some (\<exists>j. start \<le> j \<and> j < start + cnt \<and> bm_bit b j = v)"
proof -
  have small: "bit_cnt b < 2 ^ 32" using wf by (simp add: bm_wf_def)
  let ?p = "\<lambda>i. do { t \<leftarrow> bitmap_test b (sz (start + i)); Some (t = v) }"
  have "?p k = Some (bm_bit b (start + k) = v)" if "0 \<le> k" "k < cnt" for k
    using that wf le small by simp
  from find_loop_total [of 0 cnt ?p "\<lambda>k. bm_bit b (start + k) = v", OF this]
  obtain r where r: "find_loop 0 cnt ?p = Some r"
    and c: "case r of None \<Rightarrow> (\<forall>k. 0 \<le> k \<and> k < cnt \<longrightarrow> bm_bit b (start + k) \<noteq> v)
      | Some k \<Rightarrow> 0 \<le> k \<and> k < cnt \<and> bm_bit b (start + k) = v
          \<and> (\<forall>j. 0 \<le> j \<and> j < k \<longrightarrow> bm_bit b (start + j) \<noteq> v)" by blast
  have "(r \<noteq> None) = (\<exists>j. start \<le> j \<and> j < start + cnt \<and> bm_bit b j = v)"
  proof (cases r)
    case None
    have "bm_bit b j \<noteq> v" if "start \<le> j" "j < start + cnt" for j
      using c None that by (auto dest!: spec [of _ "j - start"])
    with None show ?thesis by blast
  next
    case (Some k)
    with c show ?thesis by (auto intro!: exI [of _ "start + k"])
  qed
  with r le small show ?thesis by (simp add: bitmap_contains_def)
qed

lemma bitmap_count_eq:
  assumes wf: "bm_wf b" and le: "start + cnt \<le> bit_cnt b"
  shows "bitmap_count b start cnt v = Some (card {j. start \<le> j \<and> j < start + cnt \<and> bm_bit b j = v})"
proof -
  have small: "bit_cnt b < 2 ^ 32" using wf by (simp add: bm_wf_def)
  let ?S = "\<lambda>k. {j. start \<le> j \<and> j < start + k \<and> bm_bit b j = v}"
  have card_le: "card (?S k) \<le> k" for k
    using card_mono [of "{start..<start + k}" "?S k"] by (simp add: subset_eq)
  have S_Suc: "?S (Suc k) = (if bm_bit b (start + k) = v then insert (start + k) (?S k) else ?S k)" for k
    by (auto simp: less_Suc_eq)
  let ?body = "\<lambda>i value_cnt. do {
      t \<leftarrow> bitmap_test b (sz (start + i)); Some (if t = v then sz (value_cnt + 1) else value_cnt) }"
  have "\<exists>n. for_loop 0 cnt ?body 0 = Some n \<and> n = card (?S cnt)"
  proof (rule for_loop_rule)
    show "0 = card (?S 0)" by (auto simp: card_eq_0_iff)
    fix k t
    assume k: "k < cnt" and t: "t = card (?S k)"
    have fin: "finite (?S k)" by simp
    have "card (?S (Suc k)) = (if bm_bit b (start + k) = v then t + 1 else t)"
      unfolding S_Suc t using fin by simp
    moreover have "t + 1 < 2 ^ 32" using card_le [of k] t k le small by simp
    ultimately show "\<exists>t'. ?body k t = Some t' \<and> t' = card (?S (Suc k))"
      using k le small wf by simp
  qed simp
  with le small show ?thesis by (simp add: bitmap_count_def)
qed

text \<open>\<open>bm_run b i n v\<close>: the \<open>n\<close> bits from \<open>i\<close> on are inside the bitmap and all have value \<open>v\<close>.\<close>

definition bm_run :: "bitmap \<Rightarrow> nat \<Rightarrow> nat \<Rightarrow> bool \<Rightarrow> bool" where
  "bm_run b i n v \<longleftrightarrow> i + n \<le> bit_cnt b \<and> (\<forall>j. i \<le> j \<and> j < i + n \<longrightarrow> bm_bit b j = v)"

lemma bm_wf_below_error: "bm_wf b \<Longrightarrow> i \<le> bit_cnt b \<Longrightarrow> i \<noteq> BITMAP_ERROR"
  by (simp add: bm_wf_def BITMAP_ERROR_def)

lemma bitmap_scan_first:
  assumes wf: "bm_wf b" and st: "start \<le> bit_cnt b"
  shows "\<exists>i. bitmap_scan b start cnt v = Some i
    \<and> (if i = BITMAP_ERROR then \<forall>k \<ge> start. \<not> bm_run b k cnt v
       else start \<le> i \<and> bm_run b i cnt v \<and> (\<forall>k. start \<le> k \<and> k < i \<longrightarrow> \<not> bm_run b k cnt v))"
proof (cases "cnt \<le> bit_cnt b")
  case False
  then show ?thesis using st by (simp add: bitmap_scan_def bm_run_def)
next
  case True
  let ?last = "bit_cnt b - cnt"
  let ?p = "\<lambda>i. map_option Not (bitmap_contains b i cnt (\<not> v))"
  have p: "?p k = Some (bm_run b k cnt v)" if "start \<le> k" "k < ?last + 1" for k
    using that True bitmap_contains_eq [OF wf, of k cnt "\<not> v"] by (auto simp: bm_run_def)
  from find_loop_total [of start "?last + 1" ?p "\<lambda>k. bm_run b k cnt v", OF p]
  obtain r where r: "find_loop start (?last + 1) ?p = Some r"
    and c: "case r of None \<Rightarrow> (\<forall>k. start \<le> k \<and> k < ?last + 1 \<longrightarrow> \<not> bm_run b k cnt v)
       | Some k \<Rightarrow> start \<le> k \<and> k < ?last + 1 \<and> bm_run b k cnt v
           \<and> (\<forall>j. start \<le> j \<and> j < k \<longrightarrow> \<not> bm_run b j cnt v)" by blast
  have scan: "bitmap_scan b start cnt v = Some (case r of Some i \<Rightarrow> i | None \<Rightarrow> BITMAP_ERROR)"
    using st True r by (simp add: bitmap_scan_def)
  show ?thesis
  proof (cases r)
    case None
    have "\<not> bm_run b k cnt v" if "start \<le> k" for k
      using c None that True by (cases "k < ?last + 1") (auto simp: bm_run_def)
    with scan None show ?thesis by simp
  next
    case (Some k)
    with c have "k \<le> bit_cnt b" by (simp add: bm_run_def)
    with wf have "k \<noteq> BITMAP_ERROR" by (rule bm_wf_below_error)
    with scan Some c show ?thesis by simp
  qed
qed

lemma bitmap_scan_and_flip_first:
  assumes wf: "bm_wf b" and st: "start \<le> bit_cnt b"
  shows "\<exists>i b'. bitmap_scan_and_flip b start cnt v = Some (i, b')
    \<and> (if i = BITMAP_ERROR then b' = b \<and> (\<forall>k \<ge> start. \<not> bm_run b k cnt v)
       else start \<le> i \<and> bm_run b i cnt v \<and> (\<forall>k. start \<le> k \<and> k < i \<longrightarrow> \<not> bm_run b k cnt v)
         \<and> bm_becomes b b' (\<lambda>j. if i \<le> j \<and> j < i + cnt then \<not> v else bm_bit b j))"
proof -
  from bitmap_scan_first [OF assms, of cnt v] obtain i where i: "bitmap_scan b start cnt v = Some i"
    and c: "if i = BITMAP_ERROR then \<forall>k \<ge> start. \<not> bm_run b k cnt v
       else start \<le> i \<and> bm_run b i cnt v \<and> (\<forall>k. start \<le> k \<and> k < i \<longrightarrow> \<not> bm_run b k cnt v)" by blast
  show ?thesis
  proof (cases "i = BITMAP_ERROR")
    case True
    with i c show ?thesis by (simp add: bitmap_scan_and_flip_def)
  next
    case False
    with c have "i + cnt \<le> bit_cnt b" by (simp add: bm_run_def)
    from bitmap_set_multiple_becomes [OF wf this, of "\<not> v"]
    obtain b' where b': "bitmap_set_multiple b i cnt (\<not> v) = Some b'"
      and "bm_becomes b b' (\<lambda>j. if i \<le> j \<and> j < i + cnt then \<not> v else bm_bit b j)" by blast
    with c False show ?thesis
      by (intro exI [of _ i] exI [of _ b'] conjI) (simp_all add: bitmap_scan_and_flip_def i)
  qed
qed

section \<open>The allocator contract\<close>

text \<open>
  What the clients of a bitmap that records used slots rely on: \<open>alloc\<close> takes the first free run of
  \<open>n\<close> slots or reports \<open>err\<close> and changes nothing, \<open>release\<close> frees a run.
\<close>

locale bit_allocator =
  fixes wf :: "'b \<Rightarrow> bool"
    and slots :: "'b \<Rightarrow> nat"
    and used :: "'b \<Rightarrow> nat \<Rightarrow> bool"
    and alloc :: "'b \<Rightarrow> nat \<Rightarrow> (nat \<times> 'b) option"
    and release :: "'b \<Rightarrow> nat \<Rightarrow> nat \<Rightarrow> 'b option"
    and err :: nat
  assumes alloc_law: "wf b \<Longrightarrow> \<exists>i b'. alloc b n = Some (i, b')
      \<and> (if i = err then b' = b \<and> (\<forall>k. k + n \<le> slots b \<longrightarrow> (\<exists>j. k \<le> j \<and> j < k + n \<and> used b j))
         else wf b' \<and> slots b' = slots b \<and> i + n \<le> slots b
           \<and> (\<forall>j. i \<le> j \<and> j < i + n \<longrightarrow> \<not> used b j)
           \<and> (\<forall>j. used b' j \<longleftrightarrow> i \<le> j \<and> j < i + n \<or> used b j))"
    and release_law: "wf b \<Longrightarrow> i + n \<le> slots b \<Longrightarrow> \<exists>b'. release b i n = Some b'
      \<and> wf b' \<and> slots b' = slots b \<and> (\<forall>j. used b' j \<longleftrightarrow> \<not> (i \<le> j \<and> j < i + n) \<and> used b j)"
begin

definition free_slots :: "'b \<Rightarrow> nat set" where
  "free_slots b = {j. j < slots b \<and> \<not> used b j}"

lemma finite_free_slots [simp]: "finite (free_slots b)"
  by (simp add: free_slots_def)

lemma alloc_returns:
  assumes "wf b"
  obtains i b' where "alloc b n = Some (i, b')" and "wf b'" and "slots b' = slots b"
  using alloc_law [OF assms, of n] assms by (auto split: if_splits)

lemma alloc_takes_free:
  assumes "wf b" and "alloc b n = Some (i, b')" and "i \<noteq> err"
  shows "{i..<i + n} \<subseteq> free_slots b" and "free_slots b' = free_slots b - {i..<i + n}"
  using alloc_law [OF assms(1), of n] assms(2,3) by (auto simp: free_slots_def)

lemma alloc_free_count:
  assumes "wf b" and "alloc b n = Some (i, b')" and "i \<noteq> err"
  shows "card (free_slots b') + n = card (free_slots b)"
proof -
  note t = alloc_takes_free [OF assms]
  have "card {i..<i + n} \<le> card (free_slots b)" by (rule card_mono) (simp_all add: t)
  then show ?thesis using t by (simp add: card_Diff_subset)
qed

lemma alloc_fails_only_when_full:
  assumes "wf b" and "alloc b n = Some (err, b')" and "k + n \<le> slots b"
  shows "\<not> {k..<k + n} \<subseteq> free_slots b"
proof -
  from alloc_law [OF assms(1), of n] assms(2)
  have "\<exists>j. k \<le> j \<and> j < k + n \<and> used b j" using assms(3) by auto
  then show ?thesis by (auto simp: free_slots_def)
qed

lemma alloc_disjoint:
  assumes "wf b" and a: "alloc b n = Some (i, b')" "i \<noteq> err"
    and b: "alloc b' m = Some (k, b'')" "k \<noteq> err"
  shows "{i..<i + n} \<inter> {k..<k + m} = {}"
proof -
  have "wf b'" using alloc_law [OF assms(1), of n] a by auto
  from alloc_takes_free(1) [OF this b] alloc_takes_free(2) [OF assms(1) a] show ?thesis by blast
qed

lemma release_frees:
  assumes "wf b" and "release b i n = Some b'" and "i + n \<le> slots b"
  shows "free_slots b' = free_slots b \<union> {i..<i + n}"
proof -
  from release_law [OF assms(1,3)] assms(2)
  have u: "slots b' = slots b" "\<And>j. used b' j \<longleftrightarrow> \<not> (i \<le> j \<and> j < i + n) \<and> used b j" by auto
  show ?thesis using assms(3) by (auto simp: free_slots_def u)
qed

lemma alloc_release:
  assumes "wf b" and "alloc b n = Some (i, b')" and "i \<noteq> err"
  shows "\<exists>b''. release b' i n = Some b'' \<and> wf b'' \<and> free_slots b'' = free_slots b"
proof -
  have w: "wf b'" "i + n \<le> slots b'" using alloc_law [OF assms(1), of n] assms(2,3) by auto
  from release_law [OF this] obtain b'' where r: "release b' i n = Some b''" and w': "wf b''" by blast
  from release_frees [OF w(1) r w(2)] alloc_takes_free [OF assms] r w' show ?thesis by auto
qed

end

definition bitmap_alloc :: "bitmap \<Rightarrow> nat \<Rightarrow> (nat \<times> bitmap) option" where
  "bitmap_alloc b n = bitmap_scan_and_flip b 0 n False"

definition bitmap_release :: "bitmap \<Rightarrow> nat \<Rightarrow> nat \<Rightarrow> bitmap option" where
  "bitmap_release b i n = bitmap_set_multiple b i n False"

interpretation bm: bit_allocator bm_wf bit_cnt bm_bit bitmap_alloc bitmap_release BITMAP_ERROR
proof unfold_locales
  fix b n
  assume "bm_wf b"
  from bitmap_scan_and_flip_first [OF this, of 0 n False, folded bitmap_alloc_def]
  obtain i b' where ib: "bitmap_alloc b n = Some (i, b')"
    and c: "if i = BITMAP_ERROR then b' = b \<and> (\<forall>k \<ge> 0. \<not> bm_run b k n False)
       else 0 \<le> i \<and> bm_run b i n False \<and> (\<forall>k. 0 \<le> k \<and> k < i \<longrightarrow> \<not> bm_run b k n False)
         \<and> bm_becomes b b' (\<lambda>j. if i \<le> j \<and> j < i + n then \<not> False else bm_bit b j)"
    by blast
  show "\<exists>i b'. bitmap_alloc b n = Some (i, b')
      \<and> (if i = BITMAP_ERROR
         then b' = b \<and> (\<forall>k. k + n \<le> bit_cnt b \<longrightarrow> (\<exists>j. k \<le> j \<and> j < k + n \<and> bm_bit b j))
         else bm_wf b' \<and> bit_cnt b' = bit_cnt b \<and> i + n \<le> bit_cnt b
           \<and> (\<forall>j. i \<le> j \<and> j < i + n \<longrightarrow> \<not> bm_bit b j)
           \<and> (\<forall>j. bm_bit b' j \<longleftrightarrow> i \<le> j \<and> j < i + n \<or> bm_bit b j))"
  proof (cases "i = BITMAP_ERROR")
    case True
    with c have "b' = b" "\<And>k. k + n \<le> bit_cnt b \<Longrightarrow> \<exists>j. k \<le> j \<and> j < k + n \<and> bm_bit b j"
      by (auto simp: bm_run_def)
    with ib True show ?thesis by simp
  next
    case False
    with c have "bm_run b i n False"
      and "bm_becomes b b' (\<lambda>j. if i \<le> j \<and> j < i + n then True else bm_bit b j)"
      by (simp_all only: if_False simp_thms)
    with ib False show ?thesis by (simp add: bm_run_def bm_becomes_def) blast
  qed
next
  fix b i n
  assume "bm_wf b" "i + n \<le> bit_cnt b"
  from bitmap_set_multiple_becomes [OF this, of False, folded bitmap_release_def]
  show "\<exists>b'. bitmap_release b i n = Some b' \<and> bm_wf b' \<and> bit_cnt b' = bit_cnt b
      \<and> (\<forall>j. bm_bit b' j \<longleftrightarrow> \<not> (i \<le> j \<and> j < i + n) \<and> bm_bit b j)"
    by (auto simp: bm_becomes_def)
qed

section \<open>Properties\<close>

lemma bm_abs_range:
  assumes "bm_becomes b b' (\<lambda>j. if start \<le> j \<and> j < start + cnt then v else bm_bit b j)"
    and "start + cnt \<le> bit_cnt b"
  shows "bm_abs b' = take start (bm_abs b) @ replicate cnt v @ drop (start + cnt) (bm_abs b)"
proof (rule nth_equalityI)
  show "length (bm_abs b') = length (take start (bm_abs b) @ replicate cnt v @ drop (start + cnt) (bm_abs b))"
    using assms by (simp add: bm_becomes_def)
  fix i
  assume "i < length (bm_abs b')"
  then have i: "i < bit_cnt b" "i < bit_cnt b'" using assms(1) by (simp_all add: bm_becomes_def)
  have "i < start \<or> start \<le> i \<and> i < start + cnt \<or> start + cnt \<le> i" by linarith
  then show "bm_abs b' ! i = (take start (bm_abs b) @ replicate cnt v @ drop (start + cnt) (bm_abs b)) ! i"
    using assms i by (auto simp: bm_becomes_def nth_append)
qed

text \<open>
  C40. Setting a range of bits replaces exactly that range of the bit list and keeps the bitmap well
  formed; a range that does not fit stops the kernel, also when \<open>start + cnt\<close> wraps around.
\<close>

theorem bitmap_set_multiple_correct:
  assumes "bm_wf b" and "cnt < 2 ^ 32"
  shows "if start + cnt \<le> bit_cnt b
    then \<exists>b'. bitmap_set_multiple b start cnt v = Some b' \<and> bm_wf b'
      \<and> bm_abs b' = take start (bm_abs b) @ replicate cnt v @ drop (start + cnt) (bm_abs b)
    else bitmap_set_multiple b start cnt v = None"
proof (cases "start + cnt \<le> bit_cnt b")
  case True
  from bitmap_set_multiple_becomes [OF assms(1) True, of v] bm_abs_range [OF _ True] True
  show ?thesis by (auto simp: bm_becomes_def)
next
  case False
  let ?body = "\<lambda>i b. bitmap_set b (sz (start + i)) v"
  have small: "bit_cnt b < 2 ^ 32" using assms(1) by (simp add: bm_wf_def)
  have "for_loop 0 cnt ?body b \<noteq> Some t" if st: "start \<le> bit_cnt b" for t
  proof
    assume r: "for_loop 0 cnt ?body b = Some t"
    let ?I = "\<lambda>k t. bit_cnt t = bit_cnt b \<and> k \<le> bit_cnt b - start"
    have "?I cnt t"
    proof (rule for_loop_partial_rule [where I = ?I, OF r])
      fix k u u'
      assume I: "?I k u" and u': "?body k u = Some u'"
      then have "start + k \<noteq> bit_cnt b" using small by (auto simp: bitmap_set_def)
      with I u' st show "?I (Suc k) u'"
        by (auto simp: bitmap_set_def bitmap_mark_def bitmap_reset_def split: if_splits option_bind_splits)
    qed simp_all
    with False st show False by linarith
  qed
  then have "start \<le> bit_cnt b \<Longrightarrow> for_loop 0 cnt ?body b = None" by (rule panicI)
  then show ?thesis using False by (simp add: bitmap_set_multiple_def)
qed

theorem bitmap_set_multiple_correct_witness:
  "bm_wf \<lparr>bit_cnt = 40, bits = [0, 0]\<rparr>
   \<and> bitmap_set_multiple \<lparr>bit_cnt = 40, bits = [0, 0]\<rparr> 30 11 True = None"
proof -
  have "bm_wf \<lparr>bit_cnt = 40, bits = [0, 0]\<rparr>" by (simp add: bm_wf_def elem_cnt_def ELEM_BITS_def)
  with bitmap_set_multiple_correct [OF this, of 11 30 True] show ?thesis by simp
qed

text \<open>
  C38. Scanning for a run of equal bits and flipping it is first fit: the index returned is the least
  one at or after \<open>start\<close> with such a run, the run and nothing else is flipped; when there is no such
  run the error value is returned and the bitmap is unchanged.
\<close>

theorem bitmap_scan_and_flip_correct:
  assumes "bm_wf b" and "start \<le> bit_cnt b"
  shows "\<exists>i b'. bitmap_scan_and_flip b start cnt v = Some (i, b')
    \<and> (if i = BITMAP_ERROR then b' = b \<and> (\<forall>k \<ge> start. \<not> bm_run b k cnt v)
       else start \<le> i \<and> bm_run b i cnt v \<and> (\<forall>k. start \<le> k \<and> k < i \<longrightarrow> \<not> bm_run b k cnt v)
         \<and> bm_wf b' \<and> bm_run b' i cnt (\<not> v)
         \<and> (\<forall>j. j < i \<or> i + cnt \<le> j \<longrightarrow> bm_bit b' j = bm_bit b j))"
proof -
  from bitmap_scan_and_flip_first [OF assms, of cnt v] obtain i b'
    where e: "bitmap_scan_and_flip b start cnt v = Some (i, b')"
    and c: "if i = BITMAP_ERROR then b' = b \<and> (\<forall>k \<ge> start. \<not> bm_run b k cnt v)
       else start \<le> i \<and> bm_run b i cnt v \<and> (\<forall>k. start \<le> k \<and> k < i \<longrightarrow> \<not> bm_run b k cnt v)
         \<and> bm_becomes b b' (\<lambda>j. if i \<le> j \<and> j < i + cnt then \<not> v else bm_bit b j)" by blast
  show ?thesis
  proof (cases "i = BITMAP_ERROR")
    case False
    with c have "bm_wf b'" "bm_run b' i cnt (\<not> v)" "\<forall>j. j < i \<or> i + cnt \<le> j \<longrightarrow> bm_bit b' j = bm_bit b j"
      by (simp_all add: bm_becomes_def bm_run_def)
    with c e False show ?thesis by simp
  qed (use c e in simp)
qed

theorem bitmap_scan_and_flip_correct_witness:
  "\<exists>i b'. bitmap_scan_and_flip \<lparr>bit_cnt = 40, bits = [0xF7FFFFFF, 3]\<rparr> 5 2 False = Some (i, b')
     \<and> (i = BITMAP_ERROR \<or> 5 \<le> i)"
proof -
  have "bm_wf \<lparr>bit_cnt = 40, bits = [0xF7FFFFFF, 3]\<rparr>" by (simp add: bm_wf_def elem_cnt_def ELEM_BITS_def)
  from bitmap_scan_and_flip_correct [OF this, of 5 2 False] show ?thesis
    by (auto split: if_splits)
qed

text \<open>
  A run handed out by the bitmap was free, is marked used, lowers the number of free slots by
  its length, and giving it back restores the free slots.
\<close>

theorem bitmap_alloc_release:
  assumes "bm_wf b" and "bitmap_scan_and_flip b 0 n False = Some (i, b')" and "i \<noteq> BITMAP_ERROR"
  shows "(\<forall>j. i \<le> j \<and> j < i + n \<longrightarrow> \<not> bm_bit b j \<and> bm_bit b' j)
    \<and> card {j. j < bit_cnt b' \<and> \<not> bm_bit b' j} + n = card {j. j < bit_cnt b \<and> \<not> bm_bit b j}
    \<and> (\<exists>b''. bitmap_set_multiple b' i n False = Some b''
         \<and> {j. j < bit_cnt b'' \<and> \<not> bm_bit b'' j} = {j. j < bit_cnt b \<and> \<not> bm_bit b j})"
proof -
  have a: "bitmap_alloc b n = Some (i, b')" using assms(2) by (simp add: bitmap_alloc_def)
  have "\<forall>j. i \<le> j \<and> j < i + n \<longrightarrow> \<not> bm_bit b j \<and> bm_bit b' j"
    using bm.alloc_law [OF assms(1), of n] a assms(3) by auto
  moreover have "\<exists>b''. bitmap_release b' i n = Some b'' \<and> bm.free_slots b'' = bm.free_slots b"
    using bm.alloc_release [OF assms(1) a assms(3)] by blast
  ultimately show ?thesis using bm.alloc_free_count [OF assms(1) a assms(3)]
    by (simp add: bm.free_slots_def bitmap_release_def)
qed

theorem bitmap_alloc_release_witness:
  "\<exists>b''. bitmap_set_multiple \<lparr>bit_cnt = 3, bits = [7]\<rparr> 1 2 False = Some b''
     \<and> {j. j < bit_cnt b'' \<and> \<not> bm_bit b'' j} = {j. j < 3 \<and> \<not> bm_bit \<lparr>bit_cnt = 3, bits = [1]\<rparr> j}"
proof -
  let ?b = "\<lparr>bit_cnt = 3, bits = [1]\<rparr>"
  have wf: "bm_wf ?b" by (simp add: bm_wf_def elem_cnt_def ELEM_BITS_def)
  have "bitmap_scan_and_flip ?b 0 2 False = Some (1, \<lparr>bit_cnt = 3, bits = [7]\<rparr>)"
    by code_simp
  from bitmap_alloc_release [OF wf this] show ?thesis by (simp add: BITMAP_ERROR_def)
qed

text \<open>
  C36. Counting returns the number of bits with the given value in the range, and testing the range
  with \<open>bitmap_any\<close>, \<open>bitmap_none\<close> and \<open>bitmap_all\<close> agrees with it.
\<close>

theorem bitmap_count_correct:
  assumes "bm_wf b" and "start + cnt \<le> bit_cnt b"
  shows "bitmap_count b start cnt v = Some (card {j. start \<le> j \<and> j < start + cnt \<and> bm_bit b j = v})
    \<and> bitmap_any b start cnt = Some (\<exists>j. start \<le> j \<and> j < start + cnt \<and> bm_bit b j)
    \<and> bitmap_none b start cnt = Some (\<forall>j. start \<le> j \<and> j < start + cnt \<longrightarrow> \<not> bm_bit b j)
    \<and> bitmap_all b start cnt = Some (\<forall>j. start \<le> j \<and> j < start + cnt \<longrightarrow> bm_bit b j)"
  using assms by (simp add: bitmap_count_eq bitmap_contains_eq bitmap_any_def bitmap_none_def bitmap_all_def)
    blast

theorem bitmap_count_correct_witness:
  "bitmap_count \<lparr>bit_cnt = 40, bits = [0xF0000000, 3]\<rparr> 30 4 True
     = Some (card {j. 30 \<le> j \<and> j < 34 \<and> bm_bit \<lparr>bit_cnt = 40, bits = [0xF0000000, 3]\<rparr> j})"
proof -
  have "bm_wf \<lparr>bit_cnt = 40, bits = [0xF0000000, 3]\<rparr>" by (simp add: bm_wf_def elem_cnt_def ELEM_BITS_def)
  from bitmap_count_correct [OF this, of 30 4 True] show ?thesis by simp
qed

text \<open>
  A bitmap made over a fresh block of the size asked for is well formed and has all bits clear,
  whatever the block held; without memory for a non-empty bitmap, creation returns a null pointer.
\<close>

theorem bitmap_create_correct:
  assumes "n + 31 < 2 ^ 32" and "length es = elem_cnt n"
  shows "(\<exists>b. bitmap_create True (Some es) n = Some (Some b) \<and> bm_wf b \<and> bm_abs b = replicate n False)
    \<and> bitmap_create False blk n = Some None
    \<and> (0 < n \<longrightarrow> bitmap_create True None n = Some None)"
proof -
  let ?b = "\<lparr>bit_cnt = n, bits = es\<rparr>"
  have wf: "bm_wf ?b" and le: "0 + n \<le> bit_cnt ?b" using assms by (simp_all add: bm_wf_def)
  from bitmap_set_multiple_becomes [OF wf le, of False] obtain b'
    where b': "bitmap_set_multiple ?b 0 n False = Some b'"
    and bec: "bm_becomes ?b b' (\<lambda>j. if 0 \<le> j \<and> j < 0 + n then False else bm_bit ?b j)" by blast
  have "bm_abs b' = replicate n False" using bm_abs_range [OF bec le] by simp
  with b' bec show ?thesis
    by (simp add: bitmap_create_def bitmap_set_all_def bitmap_size_def bm_becomes_def)
qed

theorem bitmap_create_correct_witness:
  "\<exists>b. bitmap_create True (Some [5, 6]) 33 = Some (Some b) \<and> bm_abs b = replicate 33 False"
  using bitmap_create_correct [of 33 "[5, 6]" None] by (auto simp: elem_cnt_def ELEM_BITS_def)

lemma bm_run_0: "start \<le> bit_cnt b \<Longrightarrow> bm_run b start 0 v"
  by (auto simp add: bm_run_def)

text \<open>
  Asking for zero bits returns the start index itself and changes nothing; the function's comment
  promises 0.
\<close>

theorem bitmap_scan_and_flip_zero:
  assumes "bm_wf b" and "start \<le> bit_cnt b"
  shows "bitmap_scan_and_flip b start 0 v = Some (start, b)"
proof -
  from bitmap_scan_first [OF assms, of 0 v] obtain i where i: "bitmap_scan b start 0 v = Some i"
    and c: "if i = BITMAP_ERROR then \<forall>k \<ge> start. \<not> bm_run b k 0 v
       else start \<le> i \<and> bm_run b i 0 v \<and> (\<forall>k. start \<le> k \<and> k < i \<longrightarrow> \<not> bm_run b k 0 v)" by blast
  have "i = start" "i \<noteq> BITMAP_ERROR" using c bm_run_0 [OF assms(2), of v]
    by (auto split: if_splits)
  with i assms(2) assms(1) show ?thesis
    by (simp add: bitmap_scan_and_flip_def bitmap_set_multiple_def bm_wf_def)
qed

theorem bitmap_scan_and_flip_zero_witness:
  "bitmap_scan_and_flip \<lparr>bit_cnt = 40, bits = [0, 0]\<rparr> 7 0 False = Some (7, \<lparr>bit_cnt = 40, bits = [0, 0]\<rparr>)"
  using bitmap_scan_and_flip_zero [of "\<lparr>bit_cnt = 40, bits = [0, 0]\<rparr>" 7 False]
  by (simp add: bm_wf_def elem_cnt_def ELEM_BITS_def)

end
