(* ===== verification/Klist.thy ===== *)
theory Klist
  imports Prelude "HOL-Library.Multiset"
begin

text \<open>
  \<^verbatim>\<open>lib/kernel/list.c\<close>: the intrusive doubly linked list, at the level of pointers.  A list element
  is an address, \<open>0\<close> is the null pointer, and the heap gives the two pointers stored at each address.
  \<open>is_list h l xs\<close> says that the \<^verbatim>\<open>struct list\<close> at \<open>l\<close> holds the elements \<open>xs\<close>; every operation
  of the file is shown to act on \<open>xs\<close> as the corresponding operation on lists.  The other components
  keep their kernel lists as Isabelle lists on the strength of these theorems.

  Loops that follow pointers need not end on a corrupt heap; they are \<open>partial_function\<close>s, and the
  theorems show that they return.
\<close>

section \<open>Elements and heap\<close>

type_synonym addr = nat

abbreviation NULL :: addr where
  "NULL \<equiv> 0"

record heap =
  prev_of :: "addr \<Rightarrow> addr"
  next_of :: "addr \<Rightarrow> addr"

text \<open>Loads and stores through an element pointer; a null pointer faults.\<close>

definition get_prev :: "heap \<Rightarrow> addr \<Rightarrow> addr option" where
  "get_prev h e = (if e = NULL then None else Some (prev_of h e))"

definition get_next :: "heap \<Rightarrow> addr \<Rightarrow> addr option" where
  "get_next h e = (if e = NULL then None else Some (next_of h e))"

definition set_prev :: "addr \<Rightarrow> addr \<Rightarrow> heap \<Rightarrow> heap option" where
  "set_prev e x h = (if e = NULL then None else Some (h\<lparr>prev_of := (prev_of h)(e := x)\<rparr>))"

definition set_next :: "addr \<Rightarrow> addr \<Rightarrow> heap \<Rightarrow> heap option" where
  "set_next e x h = (if e = NULL then None else Some (h\<lparr>next_of := (next_of h)(e := x)\<rparr>))"

text \<open>A \<^verbatim>\<open>struct list\<close> at \<open>l\<close> is its head element at \<open>l\<close> followed by its tail element.\<close>

definition head_elem :: "addr \<Rightarrow> addr" where
  "head_elem l = l"

definition tail_elem :: "addr \<Rightarrow> addr" where
  "tail_elem l = l + 8"

section \<open>Operations\<close>

definition is_head :: "heap \<Rightarrow> addr \<Rightarrow> bool" where
  "is_head h e \<longleftrightarrow> e \<noteq> NULL \<and> prev_of h e = NULL \<and> next_of h e \<noteq> NULL"

definition is_interior :: "heap \<Rightarrow> addr \<Rightarrow> bool" where
  "is_interior h e \<longleftrightarrow> e \<noteq> NULL \<and> prev_of h e \<noteq> NULL \<and> next_of h e \<noteq> NULL"

definition is_tail :: "heap \<Rightarrow> addr \<Rightarrow> bool" where
  "is_tail h e \<longleftrightarrow> e \<noteq> NULL \<and> prev_of h e \<noteq> NULL \<and> next_of h e = NULL"

definition list_init :: "heap \<Rightarrow> addr \<Rightarrow> heap option" where
  "list_init h l = do {
     kassert (l \<noteq> NULL);
     h \<leftarrow> set_prev (head_elem l) NULL h;
     h \<leftarrow> set_next (head_elem l) (tail_elem l) h;
     h \<leftarrow> set_prev (tail_elem l) (head_elem l) h;
     set_next (tail_elem l) NULL h }"

definition list_begin :: "heap \<Rightarrow> addr \<Rightarrow> addr option" where
  "list_begin h l = do { kassert (l \<noteq> NULL); get_next h (head_elem l) }"

definition list_next :: "heap \<Rightarrow> addr \<Rightarrow> addr option" where
  "list_next h e = do { kassert (is_head h e \<or> is_interior h e); get_next h e }"

definition list_end :: "addr \<Rightarrow> addr option" where
  "list_end l = do { kassert (l \<noteq> NULL); Some (tail_elem l) }"

definition list_rbegin :: "heap \<Rightarrow> addr \<Rightarrow> addr option" where
  "list_rbegin h l = do { kassert (l \<noteq> NULL); get_prev h (tail_elem l) }"

definition list_prev :: "heap \<Rightarrow> addr \<Rightarrow> addr option" where
  "list_prev h e = do { kassert (is_interior h e \<or> is_tail h e); get_prev h e }"

definition list_rend :: "addr \<Rightarrow> addr option" where
  "list_rend l = do { kassert (l \<noteq> NULL); Some (head_elem l) }"

definition list_head :: "addr \<Rightarrow> addr option" where
  "list_head l = do { kassert (l \<noteq> NULL); Some (head_elem l) }"

definition list_tail :: "addr \<Rightarrow> addr option" where
  "list_tail l = do { kassert (l \<noteq> NULL); Some (tail_elem l) }"

definition list_insert :: "heap \<Rightarrow> addr \<Rightarrow> addr \<Rightarrow> heap option" where
  "list_insert h before e = do {
     kassert (is_interior h before \<or> is_tail h before);
     kassert (e \<noteq> NULL);
     h \<leftarrow> set_prev e (prev_of h before) h;
     h \<leftarrow> set_next e before h;
     h \<leftarrow> set_next (prev_of h before) e h;
     set_prev before e h }"

definition list_splice :: "heap \<Rightarrow> addr \<Rightarrow> addr \<Rightarrow> addr \<Rightarrow> heap option" where
  "list_splice h before first lst = do {
     kassert (is_interior h before \<or> is_tail h before);
     if first = lst then Some h
     else do {
       lst \<leftarrow> list_prev h lst;
       kassert (is_interior h first);
       kassert (is_interior h lst);
       h \<leftarrow> set_next (prev_of h first) (next_of h lst) h;
       h \<leftarrow> set_prev (next_of h lst) (prev_of h first) h;
       h \<leftarrow> set_prev first (prev_of h before) h;
       h \<leftarrow> set_next lst before h;
       h \<leftarrow> set_next (prev_of h before) first h;
       set_prev before lst h } }"

definition list_push_front :: "heap \<Rightarrow> addr \<Rightarrow> addr \<Rightarrow> heap option" where
  "list_push_front h l e = do { b \<leftarrow> list_begin h l; list_insert h b e }"

definition list_push_back :: "heap \<Rightarrow> addr \<Rightarrow> addr \<Rightarrow> heap option" where
  "list_push_back h l e = do { b \<leftarrow> list_end l; list_insert h b e }"

definition list_remove :: "heap \<Rightarrow> addr \<Rightarrow> (addr \<times> heap) option" where
  "list_remove h e = do {
     kassert (is_interior h e);
     h \<leftarrow> set_next (prev_of h e) (next_of h e) h;
     h \<leftarrow> set_prev (next_of h e) (prev_of h e) h;
     r \<leftarrow> get_next h e;
     Some (r, h) }"

definition list_empty :: "heap \<Rightarrow> addr \<Rightarrow> bool option" where
  "list_empty h l = do { b \<leftarrow> list_begin h l; e \<leftarrow> list_end l; Some (b = e) }"

definition list_front :: "heap \<Rightarrow> addr \<Rightarrow> addr option" where
  "list_front h l = do { em \<leftarrow> list_empty h l; kassert (\<not> em); get_next h (head_elem l) }"

definition list_back :: "heap \<Rightarrow> addr \<Rightarrow> addr option" where
  "list_back h l = do { em \<leftarrow> list_empty h l; kassert (\<not> em); get_prev h (tail_elem l) }"

definition list_pop_front :: "heap \<Rightarrow> addr \<Rightarrow> (addr \<times> heap) option" where
  "list_pop_front h l = do { f \<leftarrow> list_front h l; (_, h) \<leftarrow> list_remove h f; Some (f, h) }"

definition list_pop_back :: "heap \<Rightarrow> addr \<Rightarrow> (addr \<times> heap) option" where
  "list_pop_back h l = do { b \<leftarrow> list_back h l; (_, h) \<leftarrow> list_remove h b; Some (b, h) }"

partial_function (option) list_size_loop :: "heap \<Rightarrow> addr \<Rightarrow> addr \<Rightarrow> nat \<Rightarrow> nat option" where
  "list_size_loop h e en cnt =
     (if e \<noteq> en then do { n \<leftarrow> list_next h e; list_size_loop h n en (sz (cnt + 1)) } else Some cnt)"

definition list_size :: "heap \<Rightarrow> addr \<Rightarrow> nat option" where
  "list_size h l = do { b \<leftarrow> list_begin h l; e \<leftarrow> list_end l; list_size_loop h b e 0 }"

text \<open>Swapping the two pointers of an element, and the reversal loop.\<close>

definition swap_links :: "heap \<Rightarrow> addr \<Rightarrow> heap option" where
  "swap_links h e = do {
     p \<leftarrow> get_prev h e; n \<leftarrow> get_next h e;
     h \<leftarrow> set_prev e n h; set_next e p h }"

partial_function (option) list_reverse_loop :: "heap \<Rightarrow> addr \<Rightarrow> addr \<Rightarrow> heap option" where
  "list_reverse_loop h e en =
     (if e \<noteq> en then do { h \<leftarrow> swap_links h e; p \<leftarrow> get_prev h e; list_reverse_loop h p en } else Some h)"

definition list_reverse :: "heap \<Rightarrow> addr \<Rightarrow> heap option" where
  "list_reverse h l = do {
     em \<leftarrow> list_empty h l;
     if \<not> em then do {
       b \<leftarrow> list_begin h l; en \<leftarrow> list_end l;
       h \<leftarrow> list_reverse_loop h b en;
       hn \<leftarrow> get_next h (head_elem l); tp \<leftarrow> get_prev h (tail_elem l);
       h \<leftarrow> set_next (head_elem l) tp h; h \<leftarrow> set_prev (tail_elem l) hn h;
       f \<leftarrow> get_next h (head_elem l); b \<leftarrow> get_prev h (tail_elem l);
       fp \<leftarrow> get_prev h f; bn \<leftarrow> get_next h b;
       h \<leftarrow> set_prev f bn h; set_next b fp h }
     else Some h }"

text \<open>
  The ordering functions.  The comparison callback with its auxiliary data is a parameter \<open>lt\<close> on
  element addresses.
\<close>

partial_function (option) is_sorted_loop :: "heap \<Rightarrow> addr \<Rightarrow> addr \<Rightarrow> (addr \<Rightarrow> addr \<Rightarrow> bool) \<Rightarrow> bool option" where
  "is_sorted_loop h a b lt = do {
     a \<leftarrow> list_next h a;
     if a \<noteq> b then do {
       p \<leftarrow> list_prev h a;
       if lt a p then Some False else is_sorted_loop h a b lt }
     else Some True }"

definition is_sorted :: "heap \<Rightarrow> addr \<Rightarrow> addr \<Rightarrow> (addr \<Rightarrow> addr \<Rightarrow> bool) \<Rightarrow> bool option" where
  "is_sorted h a b lt = (if a \<noteq> b then is_sorted_loop h a b lt else Some True)"

partial_function (option) find_end_of_run_loop :: "heap \<Rightarrow> addr \<Rightarrow> addr \<Rightarrow> (addr \<Rightarrow> addr \<Rightarrow> bool) \<Rightarrow> addr option" where
  "find_end_of_run_loop h a b lt = do {
     a \<leftarrow> list_next h a;
     if a \<noteq> b then do {
       p \<leftarrow> list_prev h a;
       if \<not> lt a p then find_end_of_run_loop h a b lt else Some a }
     else Some a }"

definition find_end_of_run :: "heap \<Rightarrow> addr \<Rightarrow> addr \<Rightarrow> (addr \<Rightarrow> addr \<Rightarrow> bool) \<Rightarrow> addr option" where
  "find_end_of_run h a b lt = do {
     kassert (a \<noteq> NULL);
     kassert (b \<noteq> NULL);
     kassert (a \<noteq> b);
     find_end_of_run_loop h a b lt }"

partial_function (option) inplace_merge_loop ::
    "heap \<Rightarrow> addr \<Rightarrow> addr \<Rightarrow> addr \<Rightarrow> (addr \<Rightarrow> addr \<Rightarrow> bool) \<Rightarrow> heap option" where
  "inplace_merge_loop h a0 a1b0 b1 lt =
     (if a0 \<noteq> a1b0 \<and> a1b0 \<noteq> b1 then
        if \<not> lt a1b0 a0 then do {
          a0 \<leftarrow> list_next h a0;
          inplace_merge_loop h a0 a1b0 b1 lt }
        else do {
          a1b0 \<leftarrow> list_next h a1b0;
          p \<leftarrow> list_prev h a1b0;
          h \<leftarrow> list_splice h a0 p a1b0;
          inplace_merge_loop h a0 a1b0 b1 lt }
      else Some h)"

definition inplace_merge :: "heap \<Rightarrow> addr \<Rightarrow> addr \<Rightarrow> addr \<Rightarrow> (addr \<Rightarrow> addr \<Rightarrow> bool) \<Rightarrow> heap option" where
  "inplace_merge h a0 a1b0 b1 lt = do {
     kassert (a0 \<noteq> NULL);
     kassert (a1b0 \<noteq> NULL);
     kassert (b1 \<noteq> NULL);
     s1 \<leftarrow> is_sorted h a0 a1b0 lt; kassert s1;
     s2 \<leftarrow> is_sorted h a1b0 b1 lt; kassert s2;
     inplace_merge_loop h a0 a1b0 b1 lt }"

text \<open>One pass of the sort over the list: the number of runs it put out, and the heap.\<close>

partial_function (option) list_sort_pass ::
    "heap \<Rightarrow> addr \<Rightarrow> addr \<Rightarrow> nat \<Rightarrow> (addr \<Rightarrow> addr \<Rightarrow> bool) \<Rightarrow> (nat \<times> heap) option" where
  "list_sort_pass h a0 en cnt lt =
     (if a0 \<noteq> en then do {
        let cnt = sz (cnt + 1);
        a1b0 \<leftarrow> find_end_of_run h a0 en lt;
        if a1b0 = en then Some (cnt, h)
        else do {
          b1 \<leftarrow> find_end_of_run h a1b0 en lt;
          h \<leftarrow> inplace_merge h a0 a1b0 b1 lt;
          list_sort_pass h b1 en cnt lt } }
      else Some (cnt, h))"

partial_function (option) list_sort_loop :: "heap \<Rightarrow> addr \<Rightarrow> (addr \<Rightarrow> addr \<Rightarrow> bool) \<Rightarrow> heap option" where
  "list_sort_loop h l lt = do {
     a0 \<leftarrow> list_begin h l;
     en \<leftarrow> list_end l;
     (cnt, h) \<leftarrow> list_sort_pass h a0 en 0 lt;
     if cnt > 1 then list_sort_loop h l lt else Some h }"

definition list_sort :: "heap \<Rightarrow> addr \<Rightarrow> (addr \<Rightarrow> addr \<Rightarrow> bool) \<Rightarrow> heap option" where
  "list_sort h l lt = do {
     kassert (l \<noteq> NULL);
     h \<leftarrow> list_sort_loop h l lt;
     b \<leftarrow> list_begin h l; en \<leftarrow> list_end l;
     s \<leftarrow> is_sorted h b en lt; kassert s;
     Some h }"

partial_function (option) insert_ordered_loop ::
    "heap \<Rightarrow> addr \<Rightarrow> addr \<Rightarrow> addr \<Rightarrow> (addr \<Rightarrow> addr \<Rightarrow> bool) \<Rightarrow> addr option" where
  "insert_ordered_loop h e en elem lt =
     (if e \<noteq> en then
        if lt elem e then Some e
        else do { n \<leftarrow> list_next h e; insert_ordered_loop h n en elem lt }
      else Some e)"

definition list_insert_ordered :: "heap \<Rightarrow> addr \<Rightarrow> addr \<Rightarrow> (addr \<Rightarrow> addr \<Rightarrow> bool) \<Rightarrow> heap option" where
  "list_insert_ordered h l elem lt = do {
     kassert (l \<noteq> NULL);
     kassert (elem \<noteq> NULL);
     b \<leftarrow> list_begin h l; en \<leftarrow> list_end l;
     e \<leftarrow> insert_ordered_loop h b en elem lt;
     list_insert h e elem }"

partial_function (option) list_unique_loop ::
    "heap \<Rightarrow> addr \<Rightarrow> addr \<Rightarrow> addr \<Rightarrow> (addr \<Rightarrow> addr \<Rightarrow> bool) \<Rightarrow> heap option" where
  "list_unique_loop h elem en duplicates lt = do {
     nxt \<leftarrow> list_next h elem;
     if nxt \<noteq> en then
       if \<not> lt elem nxt \<and> \<not> lt nxt elem then do {
         (_, h) \<leftarrow> list_remove h nxt;
         h \<leftarrow> (if duplicates \<noteq> NULL then list_push_back h duplicates nxt else Some h);
         list_unique_loop h elem en duplicates lt }
       else list_unique_loop h nxt en duplicates lt
     else Some h }"

definition list_unique :: "heap \<Rightarrow> addr \<Rightarrow> addr \<Rightarrow> (addr \<Rightarrow> addr \<Rightarrow> bool) \<Rightarrow> heap option" where
  "list_unique h l duplicates lt = do {
     kassert (l \<noteq> NULL);
     em \<leftarrow> list_empty h l;
     if em then Some h
     else do {
       b \<leftarrow> list_begin h l; en \<leftarrow> list_end l;
       list_unique_loop h b en duplicates lt } }"

partial_function (option) list_max_loop ::
    "heap \<Rightarrow> addr \<Rightarrow> addr \<Rightarrow> addr \<Rightarrow> (addr \<Rightarrow> addr \<Rightarrow> bool) \<Rightarrow> addr option" where
  "list_max_loop h e en m lt =
     (if e \<noteq> en then do {
        n \<leftarrow> list_next h e;
        list_max_loop h n en (if lt m e then e else m) lt }
      else Some m)"

definition list_max :: "heap \<Rightarrow> addr \<Rightarrow> (addr \<Rightarrow> addr \<Rightarrow> bool) \<Rightarrow> addr option" where
  "list_max h l lt = do {
     m \<leftarrow> list_begin h l; en \<leftarrow> list_end l;
     if m \<noteq> en then do { e \<leftarrow> list_next h m; list_max_loop h e en m lt } else Some m }"

partial_function (option) list_min_loop ::
    "heap \<Rightarrow> addr \<Rightarrow> addr \<Rightarrow> addr \<Rightarrow> (addr \<Rightarrow> addr \<Rightarrow> bool) \<Rightarrow> addr option" where
  "list_min_loop h e en m lt =
     (if e \<noteq> en then do {
        n \<leftarrow> list_next h e;
        list_min_loop h n en (if lt e m then e else m) lt }
      else Some m)"

definition list_min :: "heap \<Rightarrow> addr \<Rightarrow> (addr \<Rightarrow> addr \<Rightarrow> bool) \<Rightarrow> addr option" where
  "list_min h l lt = do {
     m \<leftarrow> list_begin h l; en \<leftarrow> list_end l;
     if m \<noteq> en then do { e \<leftarrow> list_next h m; list_min_loop h e en m lt } else Some m }"

section \<open>Chains of elements\<close>

text \<open>Consecutive elements of a chain point to each other.\<close>

fun chain :: "heap \<Rightarrow> addr list \<Rightarrow> bool" where
  "chain h [] = True"
| "chain h [x] = True"
| "chain h (x # y # zs) = (next_of h x = y \<and> prev_of h y = x \<and> chain h (y # zs))"

lemma chain_split: "chain h (xs @ y # ys) \<longleftrightarrow> chain h (xs @ [y]) \<and> chain h (y # ys)"
  by (induction xs rule: induct_list012) auto

lemma chain_split2:
  "chain h (xs @ x # y # ys) \<longleftrightarrow> chain h (xs @ [x]) \<and> next_of h x = y \<and> prev_of h y = x \<and> chain h (y # ys)"
  by (subst chain_split) simp

lemma chain_cong:
  "(\<And>a. a \<in> set (butlast zs) \<Longrightarrow> next_of h' a = next_of h a) \<Longrightarrow>
   (\<And>a. a \<in> set (tl zs) \<Longrightarrow> prev_of h' a = prev_of h a) \<Longrightarrow> chain h' zs = chain h zs"
  by (induction zs rule: induct_list012) auto

lemma chain_cong_snoc:
  assumes "chain h (xs @ [x])"
    and "\<And>a. a \<in> set xs \<Longrightarrow> next_of h' a = next_of h a \<and> prev_of h' a = prev_of h a"
    and "xs \<noteq> [] \<Longrightarrow> prev_of h' x = prev_of h x"
  shows "chain h' (xs @ [x])"
proof -
  have "set (tl (xs @ [x])) \<subseteq> (if xs = [] then {} else insert x (set xs))"
    by (cases xs) auto
  then have "chain h' (xs @ [x]) = chain h (xs @ [x])"
    using assms(2,3) by (intro chain_cong) (auto split: if_splits)
  with assms(1) show ?thesis by simp
qed

lemma chain_cong_Cons:
  assumes "chain h (x # xs)"
    and "\<And>a. a \<in> set xs \<Longrightarrow> next_of h' a = next_of h a \<and> prev_of h' a = prev_of h a"
    and "xs \<noteq> [] \<Longrightarrow> next_of h' x = next_of h x"
  shows "chain h' (x # xs)"
proof -
  have "set (butlast (x # xs)) \<subseteq> (if xs = [] then {} else insert x (set xs))"
    by (auto dest: in_set_butlastD)
  then have "chain h' (x # xs) = chain h (x # xs)"
    using assms(2,3) by (intro chain_cong) (auto split: if_splits)
  with assms(1) show ?thesis by simp
qed

text \<open>A whole doubly linked list, with its two sentinels.\<close>

definition dll :: "heap \<Rightarrow> addr list \<Rightarrow> bool" where
  "dll h zs \<longleftrightarrow> zs \<noteq> [] \<and> distinct zs \<and> NULL \<notin> set zs \<and> chain h zs
     \<and> prev_of h (hd zs) = NULL \<and> next_of h (last zs) = NULL"

definition is_list :: "heap \<Rightarrow> addr \<Rightarrow> addr list \<Rightarrow> bool" where
  "is_list h l xs \<longleftrightarrow> dll h (head_elem l # xs @ [tail_elem l])"

text \<open>\<open>same_outside h h' S\<close>: an operation left every element outside \<open>S\<close> alone.\<close>

definition same_outside :: "heap \<Rightarrow> heap \<Rightarrow> addr set \<Rightarrow> bool" where
  "same_outside h h' S \<longleftrightarrow> (\<forall>a. a \<notin> S \<longrightarrow> prev_of h' a = prev_of h a \<and> next_of h' a = next_of h a)"

definition cells :: "addr \<Rightarrow> addr list \<Rightarrow> addr set" where
  "cells l xs = insert (head_elem l) (insert (tail_elem l) (set xs))"

text \<open>The element at which a suffix \<open>ys\<close> of the list begins: its first element or the tail.\<close>

definition pos :: "addr \<Rightarrow> addr list \<Rightarrow> addr" where
  "pos l ys = hd (ys @ [tail_elem l])"

lemma pos_simps [simp]: "pos l [] = tail_elem l" "pos l (y # ys) = y"
  by (simp_all add: pos_def)

lemma set_cells: "set (head_elem l # xs @ [tail_elem l]) = cells l xs"
  by (auto simp: cells_def)

lemma same_outside_refl [simp]: "same_outside h h S"
  by (simp add: same_outside_def)

lemma same_outside_trans:
  "same_outside h h' S \<Longrightarrow> same_outside h' h'' T \<Longrightarrow> S \<subseteq> U \<Longrightarrow> T \<subseteq> U \<Longrightarrow> same_outside h h'' U"
  unfolding same_outside_def subset_eq by metis

lemma same_outside_mono: "same_outside h h' S \<Longrightarrow> S \<subseteq> T \<Longrightarrow> same_outside h h' T"
  unfolding same_outside_def by blast

lemma is_list_outside:
  assumes "is_list h l xs" and "same_outside h h' S" and "S \<inter> cells l xs = {}"
  shows "is_list h' l xs"
proof -
  let ?zs = "head_elem l # xs @ [tail_elem l]"
  have same: "prev_of h' a = prev_of h a" "next_of h' a = next_of h a" if "a \<in> set ?zs" for a
    using assms(2,3) that by (auto simp: same_outside_def cells_def)
  have "chain h' ?zs = chain h ?zs"
    by (rule chain_cong) (auto intro!: same dest: in_set_butlastD simp del: butlast.simps)
  then show ?thesis using assms(1) same by (auto simp: is_list_def dll_def)
qed

lemma get_nonnull [simp]:
  "e \<noteq> NULL \<Longrightarrow> get_prev h e = Some (prev_of h e)"
  "e \<noteq> NULL \<Longrightarrow> get_next h e = Some (next_of h e)"
  "e \<noteq> NULL \<Longrightarrow> set_prev e x h = Some (h\<lparr>prev_of := (prev_of h)(e := x)\<rparr>)"
  "e \<noteq> NULL \<Longrightarrow> set_next e x h = Some (h\<lparr>next_of := (next_of h)(e := x)\<rparr>)"
  by (simp_all add: get_prev_def get_next_def set_prev_def set_next_def)

text \<open>Looking around in a doubly linked list.\<close>

lemma dll_around:
  assumes "dll h (P @ p # b # R)"
  shows "p \<noteq> NULL" and "b \<noteq> NULL" and "next_of h p = b" and "prev_of h b = p" and "p \<noteq> b"
    and "is_head h p \<or> is_interior h p" and "is_interior h b \<or> is_tail h b"
    and "chain h (P @ [p])" and "chain h (b # R)"
proof -
  have ch: "chain h (P @ [p])" "next_of h p = b" "prev_of h b = p" "chain h (b # R)"
    and nn: "p \<noteq> NULL" "b \<noteq> NULL" "p \<noteq> b"
    using assms by (auto simp: dll_def chain_split2)
  then show "p \<noteq> NULL" "b \<noteq> NULL" "next_of h p = b" "prev_of h b = p" "p \<noteq> b"
    "chain h (P @ [p])" "chain h (b # R)" by simp_all
  show "is_head h p \<or> is_interior h p"
    using ch nn by (auto simp: is_head_def is_interior_def)
  show "is_interior h b \<or> is_tail h b"
    using ch nn by (auto simp: is_tail_def is_interior_def)
qed

lemma dll_interior:
  assumes "dll h (P @ x # R)" and "P \<noteq> []" and "R \<noteq> []"
  shows "is_interior h x"
proof -
  obtain P' p where P: "P = P' @ [p]" using assms(2) by (cases P rule: rev_cases) auto
  obtain r R' where R: "R = r # R'" using assms(3) by (cases R) auto
  from dll_around [of h P' p x R] dll_around [of h P x r R'] assms(1) show ?thesis
    by (simp add: P R is_interior_def)
qed

lemma dll_insert:
  assumes d: "dll h (P @ p # b # R)" and e: "e \<noteq> NULL" "e \<notin> set (P @ p # b # R)"
  shows "\<exists>h'. list_insert h b e = Some h' \<and> dll h' (P @ p # e # b # R) \<and> same_outside h h' {p, e, b}"
proof -
  note a = dll_around [OF d]
  let ?h = "h\<lparr>prev_of := (prev_of h)(e := p, b := e), next_of := (next_of h)(e := b, p := e)\<rparr>"
  have dist: "distinct (P @ p # b # R)" using d by (simp add: dll_def)
  have ins: "list_insert h b e = Some ?h"
    using a e by (auto simp: list_insert_def fun_upd_twist)
  have 1: "chain ?h (P @ [p])"
    by (rule chain_cong_snoc [OF a(8)]) (use dist e in auto)
  have 2: "chain ?h (b # R)"
    by (rule chain_cong_Cons [OF a(9)]) (use dist e in auto)
  have 3: "chain ?h (P @ p # e # b # R)"
    using 1 2 dist e by (simp add: chain_split2 [of _ P p e])
  have h1: "prev_of ?h (hd (P @ p # e # b # R)) = NULL"
    using d e by (cases P) (auto simp: dll_def)
  have h2: "next_of ?h (last (P @ p # e # b # R)) = NULL"
  proof -
    have "last (b # R) \<noteq> p" "last (b # R) \<noteq> e"
      using dist e last_in_set [of "b # R"] by (metis append_Cons distinct.simps(2) distinct_append
          in_set_conv_decomp list.distinct(1) list.set_intros(2) set_append Un_iff)+
    then show ?thesis using d by (simp add: dll_def)
  qed
  have "dll ?h (P @ p # e # b # R)"
    unfolding dll_def using 3 h1 h2 dist e d by (auto simp: dll_def)
  moreover have "same_outside h ?h {p, e, b}" by (auto simp: same_outside_def)
  ultimately show ?thesis using ins by blast
qed

lemma dll_remove:
  assumes d: "dll h (P @ p # e # n # R)"
  shows "\<exists>h'. list_remove h e = Some (n, h') \<and> dll h' (P @ p # n # R) \<and> same_outside h h' {p, n}"
proof -
  note a = dll_around [OF d]
  have d': "dll h ((P @ [p]) @ e # n # R)" using d by simp
  note b = dll_around [OF d']
  let ?h = "h\<lparr>prev_of := (prev_of h)(n := p), next_of := (next_of h)(p := n)\<rparr>"
  have dist: "distinct (P @ p # e # n # R)" using d by (simp add: dll_def)
  have int: "is_interior h e" using dll_interior [of h "P @ [p]" e "n # R"] d by simp
  have rem: "list_remove h e = Some (n, ?h)"
    using a b int dist by (simp add: list_remove_def)
  have 1: "chain ?h (P @ [p])"
    by (rule chain_cong_snoc [OF a(8)]) (use dist in auto)
  have 2: "chain ?h (n # R)"
    by (rule chain_cong_Cons [OF b(9)]) (use dist in auto)
  have 3: "chain ?h (P @ p # n # R)"
    using 1 2 by (simp add: chain_split2)
  have h1: "prev_of ?h (hd (P @ p # n # R)) = NULL"
    using d by (cases P) (auto simp: dll_def)
  have "p \<notin> set (n # R)" using dist by simp
  then have h2: "next_of ?h (last (P @ p # n # R)) = NULL"
    using d last_in_set [of "n # R"] by (auto simp: dll_def)
  have "dll ?h (P @ p # n # R)"
    unfolding dll_def using 3 h1 h2 dist d by (auto simp: dll_def)
  moreover have "same_outside h ?h {p, n}" by (auto simp: same_outside_def)
  ultimately show ?thesis using rem by blast
qed

text \<open>Joining chains, and when a change of the heap leaves a segment alone.\<close>

lemma chain_join:
  assumes "xs \<noteq> []" and "ys \<noteq> []"
  shows "chain h (xs @ ys) \<longleftrightarrow>
    chain h xs \<and> chain h ys \<and> next_of h (last xs) = hd ys \<and> prev_of h (hd ys) = last xs"
  using assms by (cases xs rule: rev_cases; cases ys) (auto simp: chain_split2)

lemma chain_join4:
  assumes "A \<noteq> []" and "B \<noteq> []" and "M \<noteq> []" and "C \<noteq> []"
  shows "chain h (A @ B @ M @ C) \<longleftrightarrow> chain h A \<and> chain h B \<and> chain h M \<and> chain h C
    \<and> next_of h (last A) = hd B \<and> prev_of h (hd B) = last A
    \<and> next_of h (last B) = hd M \<and> prev_of h (hd M) = last B
    \<and> next_of h (last M) = hd C \<and> prev_of h (hd C) = last M"
  using assms by (simp add: chain_join) blast

lemma chain_segment:
  assumes "chain h zs" and "distinct zs"
    and "\<And>a. a \<in> set zs \<Longrightarrow> a \<noteq> last zs \<Longrightarrow> next_of h' a = next_of h a"
    and "\<And>a. a \<in> set zs \<Longrightarrow> a \<noteq> hd zs \<Longrightarrow> prev_of h' a = prev_of h a"
  shows "chain h' zs"
proof -
  have "a \<in> set zs \<and> a \<noteq> last zs" if "a \<in> set (butlast zs)" for a
    using that assms(2) by (cases zs rule: rev_cases) auto
  moreover have "a \<in> set zs \<and> a \<noteq> hd zs" if "a \<in> set (tl zs)" for a
    using that assms(2) by (cases zs) auto
  ultimately have "chain h' zs = chain h zs"
    using assms(3,4) by (intro chain_cong) blast+
  with assms(1) show ?thesis by simp
qed

text \<open>Moving a segment towards the front of its list.\<close>

lemma list_splice_eq:
  assumes "is_interior h b \<or> is_tail h b" and "is_interior h c \<or> is_tail h c"
    and "is_interior h m1" and "is_interior h mk"
    and "prev_of h c = mk" and "next_of h mk = c" and "prev_of h m1 = q" and "prev_of h b = p"
    and "p \<noteq> NULL" and "q \<noteq> NULL" and "c \<noteq> NULL" and "m1 \<noteq> c" and "b \<noteq> c" and "m1 \<noteq> b" and "mk \<noteq> q"
    and "mk \<noteq> p" and "q \<noteq> p"
  shows "list_splice h b m1 c = Some (h\<lparr>prev_of := (prev_of h)(c := q, m1 := p, b := mk),
              next_of := (next_of h)(q := c, mk := b, p := m1)\<rparr>)"
proof -
  have "b \<noteq> NULL" "m1 \<noteq> NULL" "mk \<noteq> NULL" using assms(1,3,4) by (auto simp: is_interior_def is_tail_def)
  moreover have "list_prev h c = Some mk" using assms(2,5,11) by (simp add: list_prev_def)
  ultimately show ?thesis using assms by (simp add: list_splice_def)
qed

lemma dll_splice:
  assumes d: "dll h ((P @ [p]) @ (b # B) @ M @ c # C)" and M: "M \<noteq> []"
  shows "\<exists>h'. list_splice h b (hd M) c = Some h' \<and> dll h' ((P @ [p]) @ M @ (b # B) @ c # C)
    \<and> same_outside h h' (set ([p] @ (b # B) @ M @ [c]))"
proof -
  define m1 mk q where "m1 = hd M" and "mk = last M" and "q = last (b # B)"
  have dist: "distinct ((P @ [p]) @ (b # B) @ M @ c # C)" using d by (simp add: dll_def)
  have ch: "chain h (P @ [p])" "chain h (b # B)" "chain h M" "chain h (c # C)"
    and ptr: "next_of h p = b" "prev_of h b = p" "next_of h q = m1" "prev_of h m1 = q"
      "next_of h mk = c" "prev_of h c = mk"
    using d M chain_join4 [of "P @ [p]" "b # B" M "c # C" h]
    unfolding dll_def m1_def mk_def q_def by simp_all
  have mem: "m1 \<in> set M" "mk \<in> set M" "q \<in> set (b # B)" "b \<in> set (b # B)" "p \<in> set (P @ [p])" "c \<in> set (c # C)"
    using M last_in_set [of "b # B"] by (auto simp: m1_def mk_def q_def)
  have disj: "set (P @ [p]) \<inter> set (b # B) = {}" "set (P @ [p]) \<inter> set M = {}"
      "set (P @ [p]) \<inter> set (c # C) = {}" "set (b # B) \<inter> set M = {}"
      "set (b # B) \<inter> set (c # C) = {}" "set M \<inter> set (c # C) = {}"
    using dist by auto
  have dists: "distinct (P @ [p])" "distinct (b # B)" "distinct M" "distinct (c # C)" using dist by auto
  have nn: "p \<noteq> NULL" "q \<noteq> NULL" "c \<noteq> NULL"
    using d mem unfolding dll_def by auto
  have neq: "m1 \<noteq> c" "b \<noteq> c" "m1 \<noteq> b" "mk \<noteq> q" "mk \<noteq> p" "q \<noteq> p"
    using disj mem by (blast dest: equalityD1)+
  let ?h = "h\<lparr>prev_of := (prev_of h)(c := q, m1 := p, b := mk),
              next_of := (next_of h)(q := c, mk := b, p := m1)\<rparr>"
  obtain M1 where M1: "M = m1 # M1" using M unfolding m1_def by (cases M) auto
  obtain M2 where M2: "M = M2 @ [mk]" using M unfolding mk_def by (cases M rule: rev_cases) auto
  have i1: "is_interior h m1"
    using d dll_interior [of h "(P @ [p]) @ (b # B)" m1 "M1 @ c # C"] by (subst (asm) M1) simp
  have ik: "is_interior h mk"
    using d dll_interior [of h "(P @ [p]) @ (b # B) @ M2" mk "c # C"] by (subst (asm) M2) simp
  have ib: "is_interior h b \<or> is_tail h b"
    using d dll_around(7) [of h P p b "B @ M @ c # C"] by simp
  have ic: "is_interior h c \<or> is_tail h c"
    using d dll_around(7) [of h "(P @ [p]) @ (b # B) @ M2" mk c C] by (subst (asm) M2) simp
  have spl: "list_splice h b m1 c = Some ?h"
    by (rule list_splice_eq [OF ib ic i1 ik ptr(6,5,4,2) nn neq])
  have 1: "chain ?h (P @ [p])"
  proof (rule chain_segment [OF ch(1) dists(1)])
    fix a assume a: "a \<in> set (P @ [p])"
    then have "a \<noteq> q" "a \<noteq> mk" "a \<noteq> c" "a \<noteq> m1" "a \<noteq> b" using disj mem by blast+
    then show "a \<noteq> last (P @ [p]) \<Longrightarrow> next_of ?h a = next_of h a" "prev_of ?h a = prev_of h a" by simp_all
  qed
  have 2: "chain ?h (b # B)"
  proof (rule chain_segment [OF ch(2) dists(2)])
    fix a assume a: "a \<in> set (b # B)"
    then have "a \<noteq> p" "a \<noteq> mk" "a \<noteq> c" "a \<noteq> m1" using disj mem by blast+
    then show "a \<noteq> last (b # B) \<Longrightarrow> next_of ?h a = next_of h a"
      "a \<noteq> hd (b # B) \<Longrightarrow> prev_of ?h a = prev_of h a" by (simp_all add: q_def)
  qed
  have 3: "chain ?h M"
  proof (rule chain_segment [OF ch(3) dists(3)])
    fix a assume a: "a \<in> set M"
    then have "a \<noteq> p" "a \<noteq> q" "a \<noteq> c" "a \<noteq> b" using disj mem by blast+
    then show "a \<noteq> last M \<Longrightarrow> next_of ?h a = next_of h a"
      "a \<noteq> hd M \<Longrightarrow> prev_of ?h a = prev_of h a" by (simp_all add: m1_def mk_def)
  qed
  have 4: "chain ?h (c # C)"
  proof (rule chain_segment [OF ch(4) dists(4)])
    fix a assume a: "a \<in> set (c # C)"
    then have "a \<noteq> p" "a \<noteq> q" "a \<noteq> mk" "a \<noteq> m1" "a \<noteq> b" using disj mem by blast+
    then show "next_of ?h a = next_of h a" "a \<noteq> hd (c # C) \<Longrightarrow> prev_of ?h a = prev_of h a" by simp_all
  qed
  have ch': "chain ?h ((P @ [p]) @ M @ (b # B) @ c # C)"
    using 1 2 3 4 M neq chain_join4 [of "P @ [p]" M "b # B" "c # C" ?h]
    by (simp add: q_def m1_def mk_def)
  have "hd (P @ [p]) \<in> set (P @ [p])" by (cases P) auto
  then have "hd (P @ [p]) \<noteq> c" "hd (P @ [p]) \<noteq> m1" "hd (P @ [p]) \<noteq> b" using disj mem by blast+
  then have first: "prev_of ?h (hd ((P @ [p]) @ M @ (b # B) @ c # C)) = NULL"
    using d by (cases P) (auto simp: dll_def)
  have "last (c # C) \<in> set (c # C)" by simp
  then have "last (c # C) \<noteq> p" "last (c # C) \<noteq> q" "last (c # C) \<noteq> mk" using disj mem by blast+
  moreover have "next_of h (last (c # C)) = NULL" using d by (simp add: dll_def)
  ultimately have lst: "next_of ?h (last ((P @ [p]) @ M @ (b # B) @ c # C)) = NULL"
    by simp
  have "distinct ((P @ [p]) @ M @ (b # B) @ c # C)"
    and "NULL \<notin> set ((P @ [p]) @ M @ (b # B) @ c # C)" using d by (auto simp: dll_def)
  with ch' first lst have "dll ?h ((P @ [p]) @ M @ (b # B) @ c # C)" unfolding dll_def by blast
  moreover have "same_outside h ?h (set ([p] @ (b # B) @ M @ [c]))"
    using mem by (auto simp: same_outside_def)
  ultimately show ?thesis using spl unfolding m1_def by blast
qed

section \<open>The operations on a list\<close>

lemma is_list_nonnull: "is_list h l xs \<Longrightarrow> l \<noteq> NULL"
  by (auto simp: is_list_def dll_def head_elem_def)

lemma is_list_distinct: "is_list h l xs \<Longrightarrow> distinct xs \<and> NULL \<notin> set xs \<and> head_elem l \<notin> set xs \<and> tail_elem l \<notin> set xs"
  by (auto simp: is_list_def dll_def)

lemma head_tail_neq [simp]: "head_elem l \<noteq> tail_elem l" "tail_elem l \<noteq> head_elem l"
  by (simp_all add: head_elem_def tail_elem_def)

lemma head_tail_nonnull [simp]: "l \<noteq> NULL \<Longrightarrow> head_elem l \<noteq> NULL" "tail_elem l \<noteq> NULL"
  by (simp_all add: head_elem_def tail_elem_def)

lemma head_snoc:
  obtains P p where "head_elem l # as = P @ [p]"
  by (cases "head_elem l # as" rule: rev_cases) auto

lemma pos_tail:
  obtains R where "bs @ [tail_elem l] = pos l bs # R"
  by (cases bs) auto

lemma list_init_is_list:
  assumes "l \<noteq> NULL"
  shows "\<exists>h'. list_init h l = Some h' \<and> is_list h' l [] \<and> same_outside h h' (cells l [])"
  using assms by (auto simp: list_init_def is_list_def dll_def same_outside_def cells_def)

lemma list_begin_is_list [simp]:
  assumes "is_list h l xs"
  shows "list_begin h l = Some (pos l xs)"
  using assms is_list_nonnull [OF assms]
  by (cases xs) (auto simp: is_list_def dll_def list_begin_def)

lemma list_end_is_list: "is_list h l xs \<Longrightarrow> list_end l = Some (tail_elem l)"
  using is_list_nonnull [of h l xs] by (simp add: list_end_def)

lemma list_rbegin_is_list:
  assumes "is_list h l xs"
  shows "list_rbegin h l = Some (last (head_elem l # xs))"
proof -
  obtain P p where P: "head_elem l # xs = P @ [p]" by (rule head_snoc)
  have "dll h (P @ p # tail_elem l # [])" using assms P unfolding is_list_def by (metis append.assoc append_Cons append_Nil)
  from dll_around(4) [OF this] show ?thesis
    using is_list_nonnull [OF assms] by (simp add: list_rbegin_def P del: last.simps)
qed

lemma list_next_is_list:
  assumes "is_list h l (as @ y # ys)"
  shows "list_next h y = Some (pos l ys)"
proof -
  obtain R where R: "ys @ [tail_elem l] = pos l ys # R" by (rule pos_tail)
  have "dll h ((head_elem l # as) @ y # pos l ys # R)" using assms R by (simp add: is_list_def)
  from dll_around [OF this] show ?thesis by (simp add: list_next_def)
qed

lemma list_prev_is_list:
  assumes "is_list h l (as @ bs)"
  shows "list_prev h (pos l bs) = Some (last (head_elem l # as))"
proof -
  obtain P p where P: "head_elem l # as = P @ [p]" by (rule head_snoc)
  obtain R where R: "bs @ [tail_elem l] = pos l bs # R" by (rule pos_tail)
  have "dll h (P @ p # pos l bs # R)" using assms P R unfolding is_list_def by (metis append.assoc append_Cons append_Nil)
  from dll_around [OF this] show ?thesis by (simp add: list_prev_def P del: last.simps)
qed

lemma not_tail: "is_list h l (as @ y # ys) \<Longrightarrow> y \<noteq> tail_elem l"
  using is_list_distinct [of h l "as @ y # ys"] by auto

lemma list_insert_is_list:
  assumes l: "is_list h l (as @ bs)" and e: "e \<noteq> NULL" "e \<notin> cells l (as @ bs)"
  shows "\<exists>h'. list_insert h (pos l bs) e = Some h' \<and> is_list h' l (as @ e # bs)
    \<and> same_outside h h' (insert e (cells l (as @ bs)))"
proof -
  obtain P p where P: "head_elem l # as = P @ [p]" by (rule head_snoc)
  obtain R where R: "bs @ [tail_elem l] = pos l bs # R" by (rule pos_tail)
  have full: "head_elem l # (as @ xs @ bs) @ [tail_elem l] = P @ p # xs @ pos l bs # R" for xs
    using arg_cong2 [OF P R, of "\<lambda>a b. a @ xs @ b"] by simp
  have d: "dll h (P @ p # pos l bs # R)" using l full [of "[]"] by (simp add: is_list_def)
  have cells: "set (P @ p # pos l bs # R) = cells l (as @ bs)"
    using full [of "[]"] set_cells [of l "as @ bs"] by simp
  from dll_insert [OF d e(1)] e(2) cells obtain h' where h': "list_insert h (pos l bs) e = Some h'"
    and d': "dll h' (P @ p # e # pos l bs # R)" and s: "same_outside h h' {p, e, pos l bs}" by auto
  have "is_list h' l (as @ e # bs)" using d' full [of "[e]"] by (simp add: is_list_def)
  moreover have "same_outside h h' (insert e (cells l (as @ bs)))"
    by (rule same_outside_mono [OF s]) (use cells in auto)
  ultimately show ?thesis using h' by blast
qed

lemma list_remove_is_list:
  assumes l: "is_list h l (as @ e # bs)"
  shows "\<exists>h'. list_remove h e = Some (pos l bs, h') \<and> is_list h' l (as @ bs)
    \<and> same_outside h h' (cells l (as @ bs))"
proof -
  obtain P p where P: "head_elem l # as = P @ [p]" by (rule head_snoc)
  obtain R where R: "bs @ [tail_elem l] = pos l bs # R" by (rule pos_tail)
  have full: "head_elem l # (as @ xs @ bs) @ [tail_elem l] = P @ p # xs @ pos l bs # R" for xs
    using arg_cong2 [OF P R, of "\<lambda>a b. a @ xs @ b"] by simp
  have d: "dll h (P @ p # e # pos l bs # R)" using l full [of "[e]"] by (simp add: is_list_def)
  have cells: "set (P @ p # pos l bs # R) = cells l (as @ bs)"
    using full [of "[]"] set_cells [of l "as @ bs"] by simp
  from dll_remove [OF d] obtain h' where h': "list_remove h e = Some (pos l bs, h')"
    and d': "dll h' (P @ p # pos l bs # R)" and s: "same_outside h h' {p, pos l bs}" by auto
  have "is_list h' l (as @ bs)" using d' full [of "[]"] by (simp add: is_list_def)
  moreover have "same_outside h h' (cells l (as @ bs))"
    by (rule same_outside_mono [OF s]) (use cells in auto)
  ultimately show ?thesis using h' by blast
qed

lemma list_splice_is_list:
  assumes l: "is_list h l (as @ (b # bs) @ ms @ cs)" and m: "ms \<noteq> []"
  shows "\<exists>h'. list_splice h b (hd ms) (pos l cs) = Some h' \<and> is_list h' l (as @ ms @ (b # bs) @ cs)
    \<and> same_outside h h' (cells l (as @ (b # bs) @ ms @ cs))"
proof -
  obtain P p where P: "head_elem l # as = P @ [p]" by (rule head_snoc)
  obtain R where R: "cs @ [tail_elem l] = pos l cs # R" by (rule pos_tail)
  have full: "head_elem l # (as @ xs @ cs) @ [tail_elem l] = (P @ [p]) @ xs @ pos l cs # R" for xs
    using arg_cong2 [OF P R, of "\<lambda>a b. a @ xs @ b"] by simp
  have d: "dll h ((P @ [p]) @ (b # bs) @ ms @ pos l cs # R)"
    using l full [of "(b # bs) @ ms"] by (simp add: is_list_def)
  from dll_splice [OF d m] obtain h' where h': "list_splice h b (hd ms) (pos l cs) = Some h'"
    and d': "dll h' ((P @ [p]) @ ms @ (b # bs) @ pos l cs # R)"
    and s: "same_outside h h' (set ([p] @ (b # bs) @ ms @ [pos l cs]))" by auto
  have "is_list h' l (as @ ms @ (b # bs) @ cs)"
    using d' full [of "ms @ (b # bs)"] by (simp add: is_list_def)
  moreover have "set ([p] @ (b # bs) @ ms @ [pos l cs]) \<subseteq> cells l (as @ (b # bs) @ ms @ cs)"
    using full [of "(b # bs) @ ms"] set_cells [of l "as @ (b # bs) @ ms @ cs"] by auto
  then have "same_outside h h' (cells l (as @ (b # bs) @ ms @ cs))"
    by (rule same_outside_mono [OF s])
  ultimately show ?thesis using h' by blast
qed

lemma cells_append_simps [simp]:
  "e \<in> cells l (as @ bs) \<longleftrightarrow> e = head_elem l \<or> e = tail_elem l \<or> e \<in> set as \<or> e \<in> set bs"
  by (auto simp: cells_def)

lemma list_push_back_is_list:
  assumes l: "is_list h l xs" and e: "e \<noteq> NULL" "e \<notin> cells l xs"
  shows "\<exists>h'. list_push_back h l e = Some h' \<and> is_list h' l (xs @ [e])
    \<and> same_outside h h' (insert e (cells l xs))"
  using list_insert_is_list [of h l xs "[]" e] assms
  by (simp add: list_push_back_def list_end_is_list [OF l])

lemma list_push_front_is_list:
  assumes l: "is_list h l xs" and e: "e \<noteq> NULL" "e \<notin> cells l xs"
  shows "\<exists>h'. list_push_front h l e = Some h' \<and> is_list h' l (e # xs)
    \<and> same_outside h h' (insert e (cells l xs))"
  using list_insert_is_list [of h l "[]" xs e] assms
  by (simp add: list_push_front_def)

lemma list_empty_is_list:
  assumes l: "is_list h l xs"
  shows "list_empty h l = Some (xs = [])"
  using l not_tail [of h l "[]"] by (cases xs) (auto simp: list_empty_def list_end_is_list [OF l])

lemma list_front_is_list:
  assumes l: "is_list h l xs"
  shows "list_front h l = (if xs = [] then None else Some (hd xs))"
  using list_begin_is_list [OF l] is_list_nonnull [OF l]
  by (cases xs) (auto simp: list_front_def list_empty_is_list [OF l] list_begin_def)

lemma list_back_is_list:
  assumes l: "is_list h l xs"
  shows "list_back h l = (if xs = [] then None else Some (last xs))"
  using list_rbegin_is_list [OF l] is_list_nonnull [OF l]
  by (auto simp: list_back_def list_empty_is_list [OF l] list_rbegin_def)

lemma list_pop_front_is_list:
  assumes "is_list h l (x # xs)"
  shows "\<exists>h'. list_pop_front h l = Some (x, h') \<and> is_list h' l xs \<and> same_outside h h' (cells l xs)"
  using list_remove_is_list [of h l "[]" x xs] assms
  by (auto simp: list_pop_front_def list_front_is_list [OF assms])

lemma list_pop_back_is_list:
  assumes "is_list h l (xs @ [x])"
  shows "\<exists>h'. list_pop_back h l = Some (x, h') \<and> is_list h' l xs \<and> same_outside h h' (cells l xs)"
  using list_remove_is_list [of h l xs x "[]"] assms
  by (auto simp: list_pop_back_def list_back_is_list [OF assms])

lemma list_size_loop_is_list:
  "is_list h l (as @ ys) \<Longrightarrow> cnt + length ys < 2 ^ 32 \<Longrightarrow>
   list_size_loop h (pos l ys) (tail_elem l) cnt = Some (cnt + length ys)"
proof (induction ys arbitrary: as cnt)
  case Nil
  then show ?case by (simp add: list_size_loop.simps)
next
  case (Cons y ys)
  have "list_size_loop h (pos l ys) (tail_elem l) (cnt + 1) = Some (cnt + 1 + length ys)"
    using Cons.IH [of "as @ [y]" "cnt + 1"] Cons.prems by simp
  then show ?case
    using Cons.prems list_next_is_list [OF Cons.prems(1)] not_tail [OF Cons.prems(1)]
    by (subst list_size_loop.simps) simp
qed

lemma list_size_is_list:
  assumes "is_list h l xs" and "length xs < 2 ^ 32"
  shows "list_size h l = Some (length xs)"
  using list_size_loop_is_list [of h l "[]" xs 0] assms
  by (simp add: list_size_def list_end_is_list [OF assms(1)])

text \<open>Reversal: the loop swaps the two pointers of every interior element.\<close>

definition swapped :: "heap \<Rightarrow> addr set \<Rightarrow> heap" where
  "swapped h S = h\<lparr>prev_of := (\<lambda>a. if a \<in> S then next_of h a else prev_of h a),
                   next_of := (\<lambda>a. if a \<in> S then prev_of h a else next_of h a)\<rparr>"

lemma list_reverse_loop_chain:
  "chain h (ys @ [t]) \<Longrightarrow> distinct ys \<Longrightarrow> t \<notin> set ys \<Longrightarrow> NULL \<notin> set ys \<Longrightarrow>
   list_reverse_loop h (hd (ys @ [t])) t = Some (swapped h (set ys))"
proof (induction ys arbitrary: h)
  case Nil
  then show ?case by (simp add: list_reverse_loop.simps swapped_def)
next
  case (Cons y ys)
  let ?h = "h\<lparr>prev_of := (prev_of h)(y := next_of h y), next_of := (next_of h)(y := prev_of h y)\<rparr>"
  have nxt: "next_of h y = hd (ys @ [t])" and ch: "chain h (ys @ [t])"
    using Cons.prems(1) by (cases ys; simp)+
  have "chain ?h (ys @ [t])"
    by (rule chain_segment [OF ch]) (use Cons.prems in auto)
  then have "list_reverse_loop ?h (hd (ys @ [t])) t = Some (swapped ?h (set ys))"
    using Cons.IH Cons.prems by simp
  moreover have "swapped ?h (set ys) = swapped h (set (y # ys))"
    using Cons.prems(2) by (auto simp: swapped_def fun_eq_iff)
  ultimately show ?case
    using Cons.prems by (subst list_reverse_loop.simps) (simp add: swap_links_def nxt)
qed

lemma chain_rev_swapped: "chain h zs \<Longrightarrow> set zs \<subseteq> S \<Longrightarrow> chain (swapped h S) (rev zs)"
proof (induction zs rule: induct_list012)
  case (3 x y zs)
  then have "chain (swapped h S) (rev zs @ [y])" by simp
  then show ?case using 3 by (simp add: chain_split2 swapped_def)
qed simp_all

lemma chain_join3:
  assumes "M \<noteq> []"
  shows "chain h (a # M @ [c]) \<longleftrightarrow> chain h M \<and> next_of h a = hd M \<and> prev_of h (hd M) = a
    \<and> next_of h (last M) = c \<and> prev_of h c = last M"
  using chain_join [of "[a]" "M @ [c]" h] chain_join [of M "[c]" h] assms by auto

lemma list_reverse_is_list:
  assumes l: "is_list h l xs"
  shows "\<exists>h'. list_reverse h l = Some h' \<and> is_list h' l (rev xs) \<and> same_outside h h' (cells l xs)"
proof (cases "xs = []")
  case True
  then show ?thesis using l by (auto simp: list_reverse_def list_empty_is_list [OF l])
next
  case False
  let ?hd = "head_elem l" and ?tl = "tail_elem l"
  define f b where "f = hd xs" and "b = last xs"
  have d: "chain h (?hd # xs @ [?tl])" "distinct xs" "NULL \<notin> set xs" "?hd \<notin> set xs" "?tl \<notin> set xs"
    and ends: "prev_of h ?hd = NULL" "next_of h ?tl = NULL"
    using l by (auto simp: is_list_def dll_def)
  have c: "chain h xs" "next_of h ?hd = f" "prev_of h f = ?hd" "next_of h b = ?tl" "prev_of h ?tl = b"
    using d(1) chain_join3 [OF False, of h ?hd ?tl] by (simp_all add: f_def b_def)
  have fb: "f \<in> set xs" "b \<in> set xs" using False by (simp_all add: f_def b_def)
  have "f \<noteq> NULL" "b \<noteq> NULL" using fb d(3) by metis+
  then have nn: "f \<noteq> NULL" "b \<noteq> NULL" "?hd \<noteq> NULL" "?tl \<noteq> NULL" "f \<noteq> ?tl" "b \<noteq> ?hd" "f \<noteq> ?hd" "b \<noteq> ?tl"
    using fb d is_list_nonnull [OF l] by auto
  let ?s = "swapped h (set xs)"
  have "chain h (xs @ [?tl])" using d(1) by (cases xs) simp_all
  then have loop: "list_reverse_loop h f ?tl = Some ?s"
    using list_reverse_loop_chain [of h xs ?tl] d False by (simp add: f_def)
  let ?h = "?s\<lparr>prev_of := (prev_of ?s)(?tl := f, b := ?hd), next_of := (next_of ?s)(?hd := b, f := ?tl)\<rparr>"
  have s: "next_of ?s ?hd = f" "prev_of ?s ?tl = b" "prev_of ?s b = ?tl" "next_of ?s f = ?hd"
    using c d fb by (auto simp: swapped_def)
  have p: "pos l xs = f" using False by (cases xs) (simp_all add: f_def)
  have rev: "list_reverse h l = Some ?h"
    using loop s nn is_list_nonnull [OF l] False
    by (simp add: list_reverse_def list_empty_is_list [OF l] list_begin_is_list [OF l] list_end_is_list [OF l] p)
  have "chain ?s (rev xs)" using chain_rev_swapped [OF c(1)] by simp
  then have "chain ?h (rev xs)"
    by (rule chain_segment) (use d False in \<open>auto simp: f_def b_def hd_rev last_rev\<close>)
  then have "chain ?h (?hd # rev xs @ [?tl])"
    using chain_join3 [of "rev xs" ?h ?hd ?tl] False nn by (simp add: hd_rev last_rev flip: f_def b_def)
  moreover have "prev_of ?h ?hd = NULL" "next_of ?h ?tl = NULL"
    using ends nn d by (auto simp: swapped_def)
  ultimately have "is_list ?h l (rev xs)"
    using l by (simp add: is_list_def dll_def)
  moreover have "same_outside h ?h (cells l xs)"
    using fb by (auto simp: same_outside_def swapped_def cells_def)
  ultimately show ?thesis using rev by blast
qed

section \<open>Kernel lists are queues\<close>

definition list_room :: "addr \<Rightarrow> addr list \<Rightarrow> addr \<Rightarrow> bool" where
  "list_room l xs e \<longleftrightarrow> e \<noteq> NULL \<and> e \<notin> cells l xs"

interpretation kl: fifo "\<lambda>h. is_list h l" "list_room l" "\<lambda>h. list_push_back h l" "\<lambda>h. list_pop_front h l"
proof unfold_locales
  show "\<exists>h'. list_push_back h l e = Some h' \<and> is_list h' l (xs @ [e])"
    if "is_list h l xs" "list_room l xs e" for h xs e
    using list_push_back_is_list [OF that(1), of e] that(2) by (auto simp: list_room_def)
  show "\<exists>h'. list_pop_front h l = Some (x, h') \<and> is_list h' l xs" if "is_list h l (x # xs)" for h x xs
    using list_pop_front_is_list [OF that] by blast
qed

lemma rooms_distinct:
  "rooms (list_room l) xs es \<longleftrightarrow> distinct es \<and> NULL \<notin> set es \<and> cells l xs \<inter> set es = {}"
  by (induction es arbitrary: xs) (auto simp: list_room_def cells_def)

section \<open>Properties\<close>

text \<open>
  C18. Inserting an element that is in no list before any position of a well-formed list succeeds,
  puts it exactly there, and touches no element outside the list; taking it out again gives the old
  list and returns its successor.
\<close>

theorem list_insert_remove_correct:
  assumes "is_list h l (as @ bs)" and "e \<noteq> NULL" and "e \<notin> cells l (as @ bs)"
  shows "\<exists>h' h''. list_insert h (pos l bs) e = Some h' \<and> is_list h' l (as @ e # bs)
    \<and> same_outside h h' (insert e (cells l (as @ bs)))
    \<and> list_remove h' e = Some (pos l bs, h'') \<and> is_list h'' l (as @ bs)"
  using list_insert_is_list [OF assms] list_remove_is_list [of _ l as e bs] by blast

lemma two_lists:
  obtains h where "is_list h 100 [16, 32]" and "is_list h 200 [48]"
proof -
  obtain h0 where h0: "is_list h0 100 []" using list_init_is_list [of 100 undefined] by auto
  obtain h1 where h1: "is_list h1 100 [16]"
    using list_push_back_is_list [OF h0, of 16] by (auto simp: cells_def head_elem_def tail_elem_def)
  obtain h2 where h2: "is_list h2 100 [16, 32]"
    using list_push_back_is_list [OF h1, of 32] by (auto simp: cells_def head_elem_def tail_elem_def)
  obtain h3 where h3: "is_list h3 200 []" and s3: "same_outside h2 h3 (cells 200 [])"
    using list_init_is_list [of 200 h2] by auto
  obtain h4 where h4: "is_list h4 200 [48]" and s4: "same_outside h3 h4 (insert 48 (cells 200 []))"
    using list_push_back_is_list [OF h3, of 48] by (auto simp: cells_def head_elem_def tail_elem_def)
  have "is_list h3 100 [16, 32]"
    by (rule is_list_outside [OF h2 s3]) (simp add: cells_def head_elem_def tail_elem_def)
  from is_list_outside [OF this s4] have "is_list h4 100 [16, 32]"
    by (simp add: cells_def head_elem_def tail_elem_def)
  with h4 show ?thesis by (rule that [rotated])
qed

theorem list_insert_remove_correct_witness:
  "\<exists>h h' h''. is_list h 100 [16, 32] \<and> list_insert h 32 64 = Some h' \<and> is_list h' 100 [16, 64, 32]
     \<and> list_remove h' 64 = Some (32, h'')"
proof -
  obtain h where h: "is_list h 100 [16, 32]" by (rule two_lists)
  with list_insert_remove_correct [of h 100 "[16]" "[32]" 64] show ?thesis
    by (auto simp: cells_def head_elem_def tail_elem_def)
qed

text \<open>
  C21. A kernel list is a first-in first-out queue: after pushing distinct fresh elements at the back,
  popping from the front returns the old elements and then the new ones in order.
\<close>

theorem list_fifo:
  assumes "is_list h l xs" and "distinct es" and "NULL \<notin> set es" and "cells l xs \<inter> set es = {}"
  shows "\<exists>h' h''. push_all (\<lambda>h. list_push_back h l) h es = Some h'
    \<and> pop_n (\<lambda>h. list_pop_front h l) (length xs + length es) h' = Some (xs @ es, h'') \<and> is_list h'' l []"
  using kl.push_pop_order [OF assms(1)] assms(2-4) by (simp add: rooms_distinct)

theorem list_fifo_witness:
  "\<exists>h h' h''. push_all (\<lambda>h. list_push_back h 100) h [64, 96] = Some h'
     \<and> pop_n (\<lambda>h. list_pop_front h 100) 4 h' = Some ([16, 32, 64, 96], h'')"
proof -
  obtain h where h: "is_list h 100 [16, 32]" by (rule two_lists)
  have four: "length [16, 32 :: addr] + length [64, 96 :: addr] = 4"
    and app: "[16, 32] @ [64, 96] = [16, 32, 64, 96 :: addr]" by simp_all
  have "distinct [64, 96 :: addr]" "NULL \<notin> set [64, 96]" "cells 100 [16, 32] \<inter> set [64, 96] = {}"
    by (simp_all add: cells_def head_elem_def tail_elem_def)
  from list_fifo [OF h this, unfolded four app] show ?thesis by blast
qed

text \<open>Reversing a list in place reverses its elements and touches nothing else.\<close>

theorem list_reverse_correct:
  assumes "is_list h l xs"
  shows "\<exists>h'. list_reverse h l = Some h' \<and> is_list h' l (rev xs) \<and> same_outside h h' (cells l xs)"
  using list_reverse_is_list [OF assms] .

theorem list_reverse_correct_witness:
  "\<exists>h h'. is_list h 100 [16, 32] \<and> list_reverse h 100 = Some h' \<and> is_list h' 100 [32, 16]"
proof -
  obtain h where h: "is_list h 100 [16, 32]" by (rule two_lists)
  with list_reverse_correct [OF h] show ?thesis by auto
qed

lemma is_list_next_unique:
  "chain h (ps @ [p]) \<Longrightarrow> chain h (qs @ [q]) \<Longrightarrow> hd (ps @ [p]) = hd (qs @ [q]) \<Longrightarrow>
   length ps \<le> length qs \<Longrightarrow> take (Suc (length ps)) (qs @ [q]) = ps @ [p]"
proof (induction ps arbitrary: qs)
  case Nil
  then show ?case by (cases qs) auto
next
  case (Cons x ps)
  then obtain y qs' where qs: "qs = y # qs'" by (cases qs) auto
  have "hd (ps @ [p]) = hd (qs' @ [q])"
    using Cons.prems qs by (cases ps; cases qs') auto
  moreover have "chain h (ps @ [p])" "chain h (qs' @ [q])"
    using Cons.prems qs by (cases ps; cases qs'; simp)+
  ultimately show ?case using Cons.IH [of qs'] Cons.prems qs by simp
qed

lemma not_list_after_steal:
  assumes pre: "chain h (P @ [p])" "hd (P @ [p]) = head_elem l" "tail_elem l \<notin> set (P @ [p])"
    and steal: "next_of h p = e" "prev_of h e \<noteq> p"
  shows "\<not> is_list h l zs"
proof
  assume "is_list h l zs"
  then have ch: "chain h ((head_elem l # zs) @ [tail_elem l])" by (simp add: is_list_def dll_def)
  show False
  proof (cases "length P \<le> length (head_elem l # zs)")
    case True
    let ?f = "(head_elem l # zs) @ [tail_elem l]"
    have t: "take (Suc (length P)) ?f = P @ [p]"
      using is_list_next_unique [OF pre(1) ch _ True] pre(2) by simp
    then obtain rest where f: "?f = P @ p # rest"
      using append_take_drop_id [of "Suc (length P)" ?f] by (metis append.assoc append_Cons append_Nil)
    show False
    proof (cases rest)
      case Nil
      then have "tail_elem l \<in> set (P @ [p])" using f by (metis in_set_conv_decomp)
      with pre(3) show False by contradiction
    next
      case (Cons y r)
      then have "next_of h p = y" "prev_of h y = p" using ch f by (simp_all add: chain_split2)
      with steal show False by simp
    qed
  next
    case False
    then have "take (Suc (length (head_elem l # zs))) (P @ [p]) = (head_elem l # zs) @ [tail_elem l]"
      using is_list_next_unique [OF ch pre(1)] pre(2) by simp
    then have "tail_elem l \<in> set (P @ [p])"
      by (metis in_set_takeD in_set_conv_decomp)
    with pre(3) show False by contradiction
  qed
qed

text \<open>
  An element must not be in two lists: pushing an element of one list onto another succeeds
  silently, and afterwards the first is not a well-formed list any more, whatever elements one
  ascribes to it.
\<close>

theorem list_double_membership:
  assumes l1: "is_list h l1 (as @ e # bs)" and l2: "is_list h l2 ys"
    and dis: "cells l1 (as @ e # bs) \<inter> cells l2 ys = {}"
  shows "\<exists>h'. list_push_back h l2 e = Some h' \<and> (\<forall>zs. \<not> is_list h' l1 zs)"
proof -
  have e: "e \<noteq> NULL" "e \<notin> cells l2 ys" "e \<noteq> head_elem l1" "e \<notin> set as"
    using is_list_distinct [OF l1] dis by (auto simp: cells_def)
  from list_push_back_is_list [OF l2 e(1,2)] obtain h' where h': "list_push_back h l2 e = Some h'"
    and l2': "is_list h' l2 (ys @ [e])" and s: "same_outside h h' (insert e (cells l2 ys))" by blast
  obtain P p where P: "head_elem l1 # as = P @ [p]" by (rule head_snoc)
  have keep: "next_of h' a = next_of h a \<and> prev_of h' a = prev_of h a" if "a \<in> set (P @ [p])" for a
    using s that dis e(3,4) unfolding P [symmetric] by (auto simp: same_outside_def cells_def)
  obtain R where "head_elem l1 # (as @ e # bs) @ [tail_elem l1] = P @ p # e # R"
    using P by (metis append.assoc append_Cons append_Nil)
  then have d: "dll h (P @ p # e # R)" using l1 by (simp add: is_list_def)
  from dll_around [OF d] have a: "next_of h p = e" "chain h (P @ [p])" by simp_all
  have "last (head_elem l2 # ys) \<in> cells l2 ys" by (auto simp: cells_def)
  moreover have "p \<in> cells l1 (as @ e # bs)" using P by (metis cells_append_simps in_set_conv_decomp set_ConsD)
  ultimately have "last (head_elem l2 # ys) \<noteq> p" using dis by blast
  moreover have "prev_of h' e = last (head_elem l2 # ys)"
    using list_prev_is_list [of h' l2 ys "[e]"] l2' e(1) by (auto simp: list_prev_def split: if_splits)
  ultimately have ne: "prev_of h' e \<noteq> p" by simp
  have ch': "chain h' (P @ [p])" by (rule chain_cong_snoc [OF a(2)]) (use keep in auto)
  have ends: "hd (P @ [p]) = head_elem l1" "tail_elem l1 \<notin> set (P @ [p])"
    using is_list_distinct [OF l1] unfolding P [symmetric] by auto
  have "next_of h' p = e" using keep [of p] a(1) by simp
  from not_list_after_steal [OF ch' ends this ne] h' show ?thesis by blast
qed

theorem list_double_membership_witness:
  "\<exists>h h'. is_list h 100 [16, 32] \<and> list_push_back h 200 16 = Some h' \<and> \<not> is_list h' 100 [16, 32]"
proof -
  obtain h where h: "is_list h 100 [16, 32]" "is_list h 200 [48]" by (rule two_lists)
  with list_double_membership [of h 100 "[]" 16 "[32]" 200 "[48]"] show ?thesis
    by (auto simp: cells_def head_elem_def tail_elem_def)
qed

end
