(* ===== verification/Klist_Sort.thy ===== *)
theory Klist_Sort
  imports Klist
begin

text \<open>
  Correctness of the ordering functions of \<^verbatim>\<open>lib/kernel/list.c\<close> (the definitions are in \<open>Klist\<close>):
  the natural merge sort in place, ordered insertion, duplicate removal, maximum and minimum.  Each
  pointer loop is first shown to compute a function on the list of elements, and the function is then
  shown to have the property the comment promises.
\<close>

section \<open>Functions on the list of elements\<close>

text \<open>The first maximal nondecreasing run of a list, and the rest.\<close>

fun split_run :: "(addr \<Rightarrow> addr \<Rightarrow> bool) \<Rightarrow> addr list \<Rightarrow> addr list \<times> addr list" where
  "split_run lt [] = ([], [])"
| "split_run lt [x] = ([x], [])"
| "split_run lt (x # y # ys) =
     (if lt y x then ([x], y # ys) else (let (r, s) = split_run lt (y # ys) in (x # r, s)))"

fun lmerge :: "(addr \<Rightarrow> addr \<Rightarrow> bool) \<Rightarrow> addr list \<Rightarrow> addr list \<Rightarrow> addr list" where
  "lmerge lt [] ys = ys"
| "lmerge lt xs [] = xs"
| "lmerge lt (x # xs) (y # ys) =
     (if \<not> lt y x then x # lmerge lt xs (y # ys) else y # lmerge lt (x # xs) ys)"

text \<open>The number of maximal runs.\<close>

fun runs :: "(addr \<Rightarrow> addr \<Rightarrow> bool) \<Rightarrow> addr list \<Rightarrow> nat" where
  "runs lt [] = 0"
| "runs lt [x] = 1"
| "runs lt (x # y # ys) = (if lt y x then 1 else 0) + runs lt (y # ys)"

abbreviation ordered :: "(addr \<Rightarrow> addr \<Rightarrow> bool) \<Rightarrow> addr list \<Rightarrow> bool" where
  "ordered lt \<equiv> successively (\<lambda>a b. \<not> lt b a)"

lemma split_run_append: "split_run lt xs = (r, s) \<Longrightarrow> xs = r @ s"
  by (induction lt xs arbitrary: r rule: split_run.induct) (auto split: if_splits prod.splits)

lemma split_run_nonempty: "split_run lt (x # xs) = (r, s) \<Longrightarrow> \<exists>r'. r = x # r'"
  by (cases xs) (auto split: if_splits prod.splits)

lemma split_run_ordered: "split_run lt xs = (r, s) \<Longrightarrow> ordered lt r"
proof (induction lt xs arbitrary: r rule: split_run.induct)
  case (3 lt x y ys)
  show ?case
  proof (cases "lt y x")
    case False
    with "3.prems" obtain r' where r': "split_run lt (y # ys) = (r', s)" "r = x # r'"
      by (auto split: prod.splits)
    with "3.IH" False split_run_nonempty [OF r'(1)] show ?thesis by fastforce
  qed (use "3.prems" in auto)
qed auto

lemma split_run_runs: "xs \<noteq> [] \<Longrightarrow> split_run lt xs = (r, s) \<Longrightarrow> runs lt xs = Suc (runs lt s)"
  by (induction lt xs arbitrary: r rule: split_run.induct) (auto split: if_splits prod.splits)

lemma split_run_shorter: "split_run lt (x # xs) = (r, s) \<Longrightarrow> length s \<le> length xs"
  using split_run_append [of lt "x # xs" r s] split_run_nonempty [of lt x xs r s] by fastforce

lemma runs_append: "runs lt (xs @ ys) \<le> runs lt xs + runs lt ys"
proof (induction lt xs rule: runs.induct)
  case (2 lt x)
  then show ?case by (cases ys) auto
qed auto

lemma ordered_runs: "ordered lt xs \<longleftrightarrow> runs lt xs \<le> 1"
proof (induction lt xs rule: runs.induct)
  case (3 lt x y ys)
  have "0 < runs lt (y # ys)" by (induction ys arbitrary: y) auto
  with 3 show ?case by auto
qed auto

lemma mset_lmerge [simp]: "mset (lmerge lt xs ys) = mset xs + mset ys"
  by (induction lt xs ys rule: lmerge.induct) auto

lemma length_lmerge [simp]: "length (lmerge lt xs ys) = length xs + length ys"
  by (induction lt xs ys rule: lmerge.induct) auto

text \<open>One pass of the sort: merge the runs two by two; the number of runs put out.\<close>

function sort_pass :: "(addr \<Rightarrow> addr \<Rightarrow> bool) \<Rightarrow> addr list \<Rightarrow> nat \<times> addr list" where
  "sort_pass lt [] = (0, [])"
| "sort_pass lt (x # xs) =
     (let (r1, rest) = split_run lt (x # xs) in
      if rest = [] then (1, x # xs)
      else let (r2, rest2) = split_run lt rest; (n, zs) = sort_pass lt rest2
           in (Suc n, lmerge lt r1 r2 @ zs))"
  by pat_completeness auto
termination
proof (relation "measure (\<lambda>(lt, xs). length xs)", simp)
  fix lt x xs p r1 rest q r2 rest2
  assume "p = split_run lt (x # xs)" "(r1, rest) = p" "rest \<noteq> []" "q = split_run lt rest" "(r2, rest2) = q"
  then have "length rest \<le> length xs" "length rest2 \<le> length rest"
    using split_run_shorter [of lt x xs r1 rest] split_run_append [of lt rest r2 rest2] by auto
  then show "((lt, rest2), lt, x # xs) \<in> measure (\<lambda>(lt, xs). length xs)" by simp
qed

text \<open>A comparison callback that orders the elements: a strict weak order.\<close>

definition strict_weak :: "(addr \<Rightarrow> addr \<Rightarrow> bool) \<Rightarrow> bool" where
  "strict_weak lt \<longleftrightarrow> (\<forall>a b. lt a b \<longrightarrow> \<not> lt b a) \<and> (\<forall>a b c. lt a c \<longrightarrow> lt a b \<or> lt b c)"

lemma strict_weak_le_trans: "strict_weak lt \<Longrightarrow> \<not> lt y x \<Longrightarrow> \<not> lt z y \<Longrightarrow> \<not> lt z x"
  unfolding strict_weak_def by meson

lemma strict_weak_asym: "strict_weak lt \<Longrightarrow> lt x y \<Longrightarrow> \<not> lt y x"
  unfolding strict_weak_def by blast

lemma strict_weak_le_less: "strict_weak lt \<Longrightarrow> \<not> lt y x \<Longrightarrow> lt y z \<Longrightarrow> lt x z"
  unfolding strict_weak_def by blast

lemma strict_weak_trans: "strict_weak lt \<Longrightarrow> transp (\<lambda>a b. \<not> lt b a)"
  by (rule transpI) (rule strict_weak_le_trans)

lemma ordered_sorted_wrt: "strict_weak lt \<Longrightarrow> ordered lt xs \<longleftrightarrow> sorted_wrt (\<lambda>a b. \<not> lt b a) xs"
  using strict_weak_trans [of lt] by (metis successively_conv_sorted_wrt)

lemma set_lmerge [simp]: "set (lmerge lt as bs) = set as \<union> set bs"
  by (metis mset_lmerge set_mset_mset set_mset_union)

lemma sorted_lmerge:
  "strict_weak lt \<Longrightarrow> sorted_wrt (\<lambda>a b. \<not> lt b a) xs \<Longrightarrow> sorted_wrt (\<lambda>a b. \<not> lt b a) ys \<Longrightarrow>
    sorted_wrt (\<lambda>a b. \<not> lt b a) (lmerge lt xs ys)"
proof (induction lt xs ys rule: lmerge.induct)
  case (3 lt x xs y ys)
  note le = strict_weak_le_trans [OF "3.prems"(1)]
  show ?case
  proof (cases "lt y x")
    case False
    then have "\<not> lt z x" if "z \<in> set ys" for z
      using le [OF False, of z] "3.prems"(3) that by simp
    with False 3 show ?thesis by auto
  next
    case True
    then have xy: "\<not> lt x y" by (rule strict_weak_asym [OF "3.prems"(1)])
    then have "\<not> lt z y" if "z \<in> set xs" for z
      using le [OF xy, of z] "3.prems"(2) that by simp
    with True xy 3 show ?thesis by auto
  qed
qed auto

lemma sort_pass_mset: "sort_pass lt xs = (n, zs) \<Longrightarrow> mset zs = mset xs"
proof (induction lt xs arbitrary: n zs rule: sort_pass.induct)
  case (2 lt x xs)
  obtain r1 rest where 1: "split_run lt (x # xs) = (r1, rest)" by fastforce
  show ?case
  proof (cases "rest = []")
    case True
    with 1 "2.prems" show ?thesis by simp
  next
    case False
    obtain r2 rest2 where 2: "split_run lt rest = (r2, rest2)" by fastforce
    obtain m ws where 3: "sort_pass lt rest2 = (m, ws)" by fastforce
    have "mset ws = mset rest2" using "2.IH" [OF _ _ False] 1 2 3 by simp
    moreover have "x # xs = r1 @ r2 @ rest2" using split_run_append 1 2 by blast
    then have "mset (x # xs) = mset r1 + mset r2 + mset rest2" by simp
    ultimately show ?thesis using "2.prems" 1 2 3 False by auto
  qed
qed simp

text \<open>The output runs are fewer than the input runs, and each is in order.\<close>

lemma sort_pass_count: "sort_pass lt xs = (n, zs) \<Longrightarrow> 2 * n \<le> runs lt xs + 1"
proof (induction lt xs arbitrary: n zs rule: sort_pass.induct)
  case (2 lt x xs)
  obtain r1 rest where 1: "split_run lt (x # xs) = (r1, rest)" by fastforce
  have c1: "runs lt (x # xs) = Suc (runs lt rest)" using split_run_runs [of "x # xs"] 1 by blast
  show ?case
  proof (cases "rest = []")
    case True
    with 1 "2.prems" c1 show ?thesis by auto
  next
    case False
    obtain r2 rest2 where 2: "split_run lt rest = (r2, rest2)" by fastforce
    obtain m ws where 3: "sort_pass lt rest2 = (m, ws)" by fastforce
    have "2 * m \<le> runs lt rest2 + 1" using "2.IH" [OF _ _ False] 1 2 3 by simp
    then show ?thesis using "2.prems" 1 2 3 False c1 split_run_runs [OF False 2] by simp
  qed
qed simp

lemma sort_pass_runs:
  "strict_weak lt \<Longrightarrow> sort_pass lt xs = (n, zs) \<Longrightarrow> runs lt zs \<le> n"
proof (induction lt xs arbitrary: n zs rule: sort_pass.induct)
  case (2 lt x xs)
  obtain r1 rest where 1: "split_run lt (x # xs) = (r1, rest)" by fastforce
  show ?case
  proof (cases "rest = []")
    case True
    with 1 "2.prems" split_run_runs [of "x # xs" lt r1 rest] show ?thesis by auto
  next
    case False
    obtain r2 rest2 where 2: "split_run lt rest = (r2, rest2)" by fastforce
    obtain m ws where 3: "sort_pass lt rest2 = (m, ws)" by fastforce
    have "runs lt ws \<le> m" using "2.IH" [OF _ _ False] "2.prems"(1) 1 2 3 by simp
    moreover have "sorted_wrt (\<lambda>a b. \<not> lt b a) (lmerge lt r1 r2)"
      using split_run_ordered [OF 1] split_run_ordered [OF 2] "2.prems"(1)
      by (simp add: sorted_lmerge ordered_sorted_wrt)
    then have "runs lt (lmerge lt r1 r2) \<le> 1"
      using "2.prems"(1) by (metis ordered_runs ordered_sorted_wrt)
    ultimately show ?thesis
      using "2.prems" 1 2 3 False runs_append [of lt "lmerge lt r1 r2" ws] by simp
  qed
qed simp

section \<open>The pointer loops compute these functions\<close>

lemma pos_eq_iff:
  assumes "is_list h l (ps @ xs @ qs)"
  shows "pos l (xs @ qs) = pos l qs \<longleftrightarrow> xs = []"
  using is_list_distinct [OF assms] by (cases xs; cases qs) auto

lemma pos_nonnull:
  assumes "is_list h l (ps @ xs)"
  shows "pos l xs \<noteq> NULL"
  using is_list_distinct [OF assms] by (cases xs) (auto simp: tail_elem_def)

lemma is_sorted_loop_is_list:
  "is_list h l (ps @ x # xs @ qs) \<Longrightarrow> is_sorted_loop h x (pos l qs) lt = Some (ordered lt (x # xs))"
proof (induction xs arbitrary: ps x)
  case Nil
  from list_next_is_list [of h l ps x qs] Nil show ?case
    by (subst is_sorted_loop.simps) simp
next
  case (Cons y ys)
  have l: "is_list h l ((ps @ [x]) @ (y # ys) @ qs)" using Cons.prems by simp
  from list_next_is_list [of h l ps x "y # ys @ qs"] Cons.prems
  have n: "list_next h x = Some y" by simp
  from list_prev_is_list [OF l] have p: "list_prev h y = Some x" by simp
  from pos_eq_iff [OF l] have ne: "y \<noteq> pos l qs" by simp
  have IH: "is_sorted_loop h y (pos l qs) lt = Some (ordered lt (y # ys))"
    using Cons.IH [of "ps @ [x]" y] Cons.prems by simp
  show ?case using n p ne IH by (subst is_sorted_loop.simps) simp
qed

lemma is_sorted_is_list:
  assumes "is_list h l (ps @ xs @ qs)"
  shows "is_sorted h (pos l (xs @ qs)) (pos l qs) lt = Some (ordered lt xs)"
  using assms pos_eq_iff [OF assms] is_sorted_loop_is_list [of h l ps "hd xs" "tl xs" qs lt]
  by (cases xs) (auto simp: is_sorted_def)

lemma find_end_of_run_loop_is_list:
  "is_list h l (ps @ x # xs) \<Longrightarrow> split_run lt (x # xs) = (r, s) \<Longrightarrow>
   find_end_of_run_loop h x (tail_elem l) lt = Some (pos l s)"
proof (induction xs arbitrary: ps x r)
  case Nil
  then show ?case using list_next_is_list [of h l ps x "[]"]
    by (subst find_end_of_run_loop.simps) simp
next
  case (Cons y ys)
  have l: "is_list h l ((ps @ [x]) @ y # ys)" using Cons.prems by simp
  from list_next_is_list [of h l ps x "y # ys"] Cons.prems have n: "list_next h x = Some y" by simp
  from list_prev_is_list [OF l] have p: "list_prev h y = Some x" by simp
  have IH: "\<not> lt y x \<Longrightarrow> find_end_of_run_loop h y (tail_elem l) lt = Some (pos l s)"
    using Cons.IH [OF l] Cons.prems(2) by (auto split: prod.splits)
  show ?case using n p not_tail [OF l] IH Cons.prems(2)
    by (subst find_end_of_run_loop.simps) auto
qed

lemma find_end_of_run_is_list:
  assumes "is_list h l (ps @ xs)" and "xs \<noteq> []" and "split_run lt xs = (r, s)"
  shows "find_end_of_run h (pos l xs) (tail_elem l) lt = Some (pos l s)"
proof -
  obtain x ys where xs: "xs = x # ys" using assms(2) by (cases xs) auto
  from assms xs have "x \<noteq> tail_elem l" "x \<noteq> NULL"
    using not_tail [of h l ps x ys] pos_nonnull [OF assms(1)] by auto
  then show ?thesis using find_end_of_run_loop_is_list [of h l ps x ys lt r s] assms xs
    by (simp add: find_end_of_run_def)
qed

lemma inplace_merge_loop_is_list:
  "is_list h l (ps @ as @ bs @ qs) \<Longrightarrow>
   \<exists>h'. inplace_merge_loop h (pos l (as @ bs @ qs)) (pos l (bs @ qs)) (pos l qs) lt = Some h'
     \<and> is_list h' l (ps @ lmerge lt as bs @ qs) \<and> same_outside h h' (cells l (ps @ as @ bs @ qs))"
proof (induction lt as bs arbitrary: h ps rule: lmerge.induct)
  case (1 lt ys)
  then show ?case by (subst inplace_merge_loop.simps) simp
next
  case (2 lt v va)
  then show ?case by (subst inplace_merge_loop.simps) simp
next
  case (3 lt x xs y ys)
  have l: "is_list h l (ps @ (x # xs) @ (y # ys) @ qs)" by (rule "3.prems")
  have ne: "x \<noteq> y" "y \<noteq> pos l qs"
    using is_list_distinct [OF l] pos_eq_iff [of h l "ps @ x # xs" "y # ys" qs] l by auto
  show ?case
  proof (cases "lt y x")
    case False
    have nx: "list_next h x = Some (pos l (xs @ (y # ys) @ qs))"
      using list_next_is_list [of h l ps x "xs @ (y # ys) @ qs"] l by simp
    have l': "is_list h l ((ps @ [x]) @ xs @ (y # ys) @ qs)" using l by simp
    from "3.IH"(1) [OF False l'] ne False nx show ?thesis
      by (subst inplace_merge_loop.simps) simp
  next
    case True
    have ny: "list_next h y = Some (pos l (ys @ qs))"
      using list_next_is_list [of h l "ps @ x # xs" y "ys @ qs"] l by simp
    have py: "list_prev h (pos l (ys @ qs)) = Some y"
      using list_prev_is_list [of h l "ps @ x # xs @ [y]" "ys @ qs"] l by simp
    have l': "is_list h l (ps @ (x # xs) @ [y] @ ys @ qs)" using l by simp
    from list_splice_is_list [OF l'] obtain h1 where h1: "list_splice h x y (pos l (ys @ qs)) = Some h1"
      and l1: "is_list h1 l ((ps @ [y]) @ (x # xs) @ ys @ qs)"
      and s1: "same_outside h h1 (cells l (ps @ (x # xs) @ [y] @ ys @ qs))" by auto
    from "3.IH"(2) [OF _ l1] True obtain h' where
      h': "inplace_merge_loop h1 x (pos l (ys @ qs)) (pos l qs) lt = Some h'"
      and l2: "is_list h' l ((ps @ [y]) @ lmerge lt (x # xs) ys @ qs)"
      and s2: "same_outside h1 h' (cells l ((ps @ [y]) @ (x # xs) @ ys @ qs))" by auto
    have "same_outside h h' (cells l (ps @ (x # xs) @ (y # ys) @ qs))"
      by (rule same_outside_trans [OF s1 s2]) (auto simp: cells_def)
    with h1 h' l2 ny py ne True show ?thesis
      by (subst inplace_merge_loop.simps) simp
  qed
qed

lemma inplace_merge_is_list:
  assumes "is_list h l (ps @ as @ bs @ qs)" and "ordered lt as" and "ordered lt bs"
  shows "\<exists>h'. inplace_merge h (pos l (as @ bs @ qs)) (pos l (bs @ qs)) (pos l qs) lt = Some h'
     \<and> is_list h' l (ps @ lmerge lt as bs @ qs) \<and> same_outside h h' (cells l (ps @ as @ bs @ qs))"
proof -
  have "is_sorted h (pos l (as @ bs @ qs)) (pos l (bs @ qs)) lt = Some True"
    using is_sorted_is_list [of h l ps as "bs @ qs" lt] assms by simp
  moreover have "is_sorted h (pos l (bs @ qs)) (pos l qs) lt = Some True"
    using is_sorted_is_list [of h l "ps @ as" bs qs lt] assms by simp
  moreover have "pos l (as @ bs @ qs) \<noteq> NULL" "pos l (bs @ qs) \<noteq> NULL" "pos l qs \<noteq> NULL"
    using pos_nonnull [of h l ps "as @ bs @ qs"] pos_nonnull [of h l "ps @ as" "bs @ qs"]
      pos_nonnull [of h l "ps @ as @ bs" qs] assms(1) by simp_all
  ultimately show ?thesis using inplace_merge_loop_is_list [OF assms(1)]
    by (simp add: inplace_merge_def)
qed

lemma list_sort_pass_is_list:
  "is_list h l (ps @ xs) \<Longrightarrow> cnt + length xs < 2 ^ 32 \<Longrightarrow> sort_pass lt xs = (n, zs) \<Longrightarrow>
   \<exists>h'. list_sort_pass h (pos l xs) (tail_elem l) cnt lt = Some (cnt + n, h')
     \<and> is_list h' l (ps @ zs) \<and> same_outside h h' (cells l (ps @ xs))"
proof (induction lt xs arbitrary: h ps cnt n zs rule: sort_pass.induct)
  case (1 lt)
  then show ?case by (subst list_sort_pass.simps) simp
next
  case (2 lt x xs)
  obtain r1 rest where 1: "split_run lt (x # xs) = (r1, rest)" by fastforce
  note l = "2.prems"(1)
  have cnt: "sz (cnt + 1) = cnt + 1" using "2.prems"(2) by simp
  have f1: "find_end_of_run h x (tail_elem l) lt = Some (pos l rest)"
    using find_end_of_run_is_list [OF l _ 1] by simp
  show ?case
  proof (cases "rest = []")
    case True
    with 1 "2.prems" f1 cnt not_tail [OF l] show ?thesis
      by (subst list_sort_pass.simps) auto
  next
    case False
    obtain r2 rest2 where 2: "split_run lt rest = (r2, rest2)" by fastforce
    obtain m ws where 3: "sort_pass lt rest2 = (m, ws)" by fastforce
    have xs: "x # xs = r1 @ r2 @ rest2" and rest: "rest = r2 @ rest2"
      using split_run_append 1 2 by blast+
    have l1: "is_list h l (ps @ r1 @ r2 @ rest2)" using l xs by simp
    have f2: "find_end_of_run h (pos l rest) (tail_elem l) lt = Some (pos l rest2)"
      using find_end_of_run_is_list [of h l "ps @ r1" rest lt r2 rest2] l1 False 2 rest by simp
    have px: "x = pos l (r1 @ r2 @ rest2)" by (simp flip: xs)
    have ne: "pos l rest \<noteq> tail_elem l"
      using pos_eq_iff [of h l "ps @ r1" rest "[]"] l1 rest False by simp
    from inplace_merge_is_list [OF l1 split_run_ordered [OF 1] split_run_ordered [OF 2]]
    obtain h1 where h1: "inplace_merge h x (pos l rest) (pos l rest2) lt = Some h1"
      and l2: "is_list h1 l ((ps @ lmerge lt r1 r2) @ rest2)"
      and s1: "same_outside h h1 (cells l (ps @ r1 @ r2 @ rest2))" by (auto simp: rest simp flip: px)
    have "cnt + 1 + length rest2 < 2 ^ 32"
      using "2.prems"(2) arg_cong [OF xs, of length] split_run_nonempty [OF 1] by auto
    from "2.IH" [OF 1 [symmetric] _ False 2 [symmetric] _ l2 this 3]
    obtain h' where h': "list_sort_pass h1 (pos l rest2) (tail_elem l) (cnt + 1) lt = Some (cnt + 1 + m, h')"
      and l3: "is_list h' l ((ps @ lmerge lt r1 r2) @ ws)"
      and s2: "same_outside h1 h' (cells l ((ps @ lmerge lt r1 r2) @ rest2))" by auto
    have "same_outside h h' (cells l (ps @ x # xs))"
      unfolding xs by (rule same_outside_trans [OF s1 s2]) (auto simp: cells_def)
    moreover have "n = Suc m" "zs = lmerge lt r1 r2 @ ws" using "2.prems"(3) 1 2 3 False by auto
    ultimately show ?thesis using f1 f2 ne h1 h' l3 cnt not_tail [OF l]
      by (subst list_sort_pass.simps) (auto simp: Let_def)
  qed
qed

lemma cells_mset: "mset zs = mset xs \<Longrightarrow> cells l zs = cells l xs"
  unfolding cells_def by (metis mset_eq_setD)

text \<open>The outer loop ends because every pass at least halves the number of runs.\<close>

lemma list_sort_loop_is_list:
  assumes sw: "strict_weak lt"
  shows "is_list h l xs \<Longrightarrow> length xs < 2 ^ 32 \<Longrightarrow>
    \<exists>h' zs. list_sort_loop h l lt = Some h' \<and> is_list h' l zs \<and> mset zs = mset xs \<and> ordered lt zs
      \<and> same_outside h h' (cells l xs)"
proof (induction "runs lt xs" arbitrary: xs h rule: less_induct)
  case less
  obtain n zs where p: "sort_pass lt xs = (n, zs)" by fastforce
  note l = less.prems(1)
  from list_sort_pass_is_list [of h l "[]" xs 0 lt n zs] less.prems p
  obtain h1 where h1: "list_sort_pass h (pos l xs) (tail_elem l) 0 lt = Some (n, h1)"
    and l1: "is_list h1 l zs" and s1: "same_outside h h1 (cells l xs)" by auto
  have m: "mset zs = mset xs" by (rule sort_pass_mset [OF p])
  have r: "runs lt zs \<le> n" by (rule sort_pass_runs [OF sw p])
  have unfold: "list_sort_loop h l lt = (if n > 1 then list_sort_loop h1 l lt else Some h1)"
    using h1 by (subst list_sort_loop.simps)
      (simp add: list_begin_is_list [OF l] list_end_is_list [OF l])
  show ?case
  proof (cases "n > 1")
    case False
    then show ?thesis using unfold l1 m s1 r by (auto simp: ordered_runs)
  next
    case True
    then have "runs lt zs < runs lt xs" using sort_pass_count [OF p] r by linarith
    moreover have "length zs < 2 ^ 32" using less.prems(2) m by (metis mset_eq_length)
    ultimately obtain h' ws where "list_sort_loop h1 l lt = Some h'" "is_list h' l ws" "mset ws = mset zs"
      "ordered lt ws" "same_outside h1 h' (cells l zs)" using less.hyps [of zs h1] l1 by blast
    then show ?thesis using unfold True m same_outside_trans [OF s1, of h' "cells l zs" "cells l xs"]
      cells_mset [OF m] by auto
  qed
qed

lemma list_sort_is_list:
  assumes "strict_weak lt" and "is_list h l xs" and "length xs < 2 ^ 32"
  shows "\<exists>h' zs. list_sort h l lt = Some h' \<and> is_list h' l zs \<and> mset zs = mset xs \<and> ordered lt zs
      \<and> same_outside h h' (cells l xs)"
proof -
  from list_sort_loop_is_list [OF assms] obtain h' zs where h': "list_sort_loop h l lt = Some h'"
    and l': "is_list h' l zs" and rest: "mset zs = mset xs" "ordered lt zs" "same_outside h h' (cells l xs)"
    by blast
  have "is_sorted h' (pos l zs) (tail_elem l) lt = Some True"
    using is_sorted_is_list [of h' l "[]" zs "[]" lt] l' rest(2) by simp
  then show ?thesis using h' l' rest is_list_nonnull [OF assms(2)]
    by (auto simp: list_sort_def list_begin_is_list [OF l'] list_end_is_list [OF l'])
qed

section \<open>Ordered insertion, duplicates, maximum and minimum\<close>

lemma insert_ordered_loop_is_list:
  "is_list h l (ps @ xs) \<Longrightarrow>
   insert_ordered_loop h (pos l xs) (tail_elem l) e lt = Some (pos l (dropWhile (\<lambda>x. \<not> lt e x) xs))"
proof (induction xs arbitrary: ps)
  case Nil
  then show ?case by (simp add: insert_ordered_loop.simps)
next
  case (Cons x xs)
  have "insert_ordered_loop h (pos l xs) (tail_elem l) e lt = Some (pos l (dropWhile (\<lambda>x. \<not> lt e x) xs))"
    using Cons.IH [of "ps @ [x]"] Cons.prems by simp
  then show ?case using list_next_is_list [OF Cons.prems] not_tail [OF Cons.prems]
    by (subst insert_ordered_loop.simps) simp
qed

lemma list_insert_ordered_is_list:
  assumes l: "is_list h l xs" and e: "e \<noteq> NULL" "e \<notin> cells l xs"
  shows "\<exists>h'. list_insert_ordered h l e lt = Some h'
    \<and> is_list h' l (takeWhile (\<lambda>x. \<not> lt e x) xs @ e # dropWhile (\<lambda>x. \<not> lt e x) xs)
    \<and> same_outside h h' (insert e (cells l xs))"
proof -
  let ?t = "takeWhile (\<lambda>x. \<not> lt e x) xs" and ?d = "dropWhile (\<lambda>x. \<not> lt e x) xs"
  have "is_list h l (?t @ ?d)" "e \<notin> cells l (?t @ ?d)" using assms by simp_all
  from list_insert_is_list [OF this(1) e(1) this(2)]
  show ?thesis using insert_ordered_loop_is_list [of h l "[]" xs e lt] l e is_list_nonnull [OF l]
    by (simp add: list_insert_ordered_def list_begin_is_list [OF l] list_end_is_list [OF l])
qed

lemma ordered_insert:
  assumes sw: "strict_weak lt" and o: "ordered lt xs"
  shows "ordered lt (takeWhile (\<lambda>x. \<not> lt e x) xs @ e # dropWhile (\<lambda>x. \<not> lt e x) xs)"
  using o unfolding ordered_sorted_wrt [OF sw]
proof (induction xs)
  case (Cons x xs)
  show ?case
  proof (cases "lt e x")
    case True
    then have ex: "\<not> lt x e" by (rule strict_weak_asym [OF sw])
    then have "\<not> lt z e" if "z \<in> set xs" for z
      using strict_weak_le_trans [OF sw ex, of z] Cons.prems that by simp
    with True ex Cons.prems show ?thesis by auto
  next
    case False
    let ?r = "takeWhile (\<lambda>x. \<not> lt e x) xs @ e # dropWhile (\<lambda>x. \<not> lt e x) xs"
    have "set (takeWhile (\<lambda>x. \<not> lt e x) xs) \<union> set (dropWhile (\<lambda>x. \<not> lt e x) xs) = set xs"
      by (simp flip: set_append)
    then have "set ?r = insert e (set xs)" by simp
    moreover have "sorted_wrt (\<lambda>a b. \<not> lt b a) ?r" using Cons by simp
    ultimately have "sorted_wrt (\<lambda>a b. \<not> lt b a) (x # ?r)"
      using False Cons.prems by (simp only: sorted_wrt.simps) blast
    then show ?thesis using False by simp
  qed
qed simp

text \<open>Duplicate removal on lists: the elements kept, and those removed, in order.\<close>

fun uniq :: "(addr \<Rightarrow> addr \<Rightarrow> bool) \<Rightarrow> addr \<Rightarrow> addr list \<Rightarrow> addr list \<times> addr list" where
  "uniq lt x [] = ([x], [])"
| "uniq lt x (y # ys) =
     (if \<not> lt x y \<and> \<not> lt y x then (let (k, d) = uniq lt x ys in (k, y # d))
      else (let (k, d) = uniq lt y ys in (x # k, d)))"

text \<open>The list of duplicates, when one is passed.\<close>

definition dup_list :: "heap \<Rightarrow> addr \<Rightarrow> addr list \<Rightarrow> bool" where
  "dup_list h dl ds \<longleftrightarrow> dl = NULL \<or> is_list h dl ds"

lemma list_unique_loop_is_list:
  "is_list h l (ps @ x # xs) \<Longrightarrow> dup_list h dl ds \<Longrightarrow>
   (dl \<noteq> NULL \<Longrightarrow> cells l (ps @ x # xs) \<inter> cells dl ds = {}) \<Longrightarrow> uniq lt x xs = (k, d) \<Longrightarrow>
   \<exists>h'. list_unique_loop h x (tail_elem l) dl lt = Some h' \<and> is_list h' l (ps @ k) \<and> dup_list h' dl (ds @ d)"
proof (induction lt x xs arbitrary: h ps ds k d rule: uniq.induct)
  case (1 lt x)
  then show ?case using list_next_is_list [of h l ps x "[]"]
    by (subst list_unique_loop.simps) simp
next
  case (2 lt x y ys)
  note l = "2.prems"(1)
  have l': "is_list h l ((ps @ [x]) @ y # ys)" using l by simp
  have n: "list_next h x = Some y" using list_next_is_list [OF l] by simp
  show ?case
  proof (cases "\<not> lt x y \<and> \<not> lt y x")
    case False
    then obtain k' where k': "uniq lt y ys = (k', d)" "k = x # k'"
      using "2.prems"(4) by (auto split: prod.splits if_splits)
    from "2.IH"(2) [OF False l' "2.prems"(2) _ k'(1)] "2.prems"(3) n not_tail [OF l'] False k'(2)
    show ?thesis by (subst list_unique_loop.simps) auto
  next
    case True
    then obtain d' where d': "uniq lt x ys = (k, d')" "d = y # d'"
      using "2.prems"(4) by (auto split: prod.splits)
    from list_remove_is_list [OF l'] obtain h1 where h1: "list_remove h y = Some (pos l ys, h1)"
      and l1: "is_list h1 l (ps @ x # ys)" and s1: "same_outside h h1 (cells l (ps @ x # ys))" by auto
    have y: "y \<noteq> NULL" "y \<notin> cells l (ps @ x # ys)"
      using is_list_distinct [OF l'] by (auto simp: cells_def)
    show ?thesis
    proof (cases "dl = NULL")
      case True
      with "2.IH"(1) [OF \<open>\<not> lt x y \<and> \<not> lt y x\<close> l1, of ds k d'] d' h1 n not_tail [OF l']
        \<open>\<not> lt x y \<and> \<not> lt y x\<close>
      show ?thesis by (subst list_unique_loop.simps) (auto simp: dup_list_def)
    next
      case False
      have dis: "cells l (ps @ x # y # ys) \<inter> cells dl ds = {}" by (rule "2.prems"(3) [OF False])
      then have dis': "cells l (ps @ x # ys) \<inter> cells dl ds = {}" and yd: "y \<notin> cells dl ds"
        by (auto simp: cells_def)
      have "is_list h dl ds" using "2.prems"(2) False by (simp add: dup_list_def)
      from is_list_outside [OF this s1 dis'] have d1: "is_list h1 dl ds" .
      from list_push_back_is_list [OF d1 y(1) yd] obtain h2 where
        h2: "list_push_back h1 dl y = Some h2" and d2: "is_list h2 dl (ds @ [y])"
        and s2: "same_outside h1 h2 (insert y (cells dl ds))" by auto
      have l2: "is_list h2 l (ps @ x # ys)"
        by (rule is_list_outside [OF l1 s2]) (use y dis' in auto)
      have "cells l (ps @ x # ys) \<inter> cells dl (ds @ [y]) = {}"
        using dis' y(2) by (auto simp: cells_def)
      from "2.IH"(1) [OF \<open>\<not> lt x y \<and> \<not> lt y x\<close> l2, of "ds @ [y]" k d'] this d2 d' h1 h2 n
        not_tail [OF l'] \<open>\<not> lt x y \<and> \<not> lt y x\<close> False
      show ?thesis by (subst list_unique_loop.simps) (auto simp: dup_list_def)
    qed
  qed
qed

lemma uniq_mset: "uniq lt x xs = (k, d) \<Longrightarrow> mset k + mset d = add_mset x (mset xs)"
proof (induction lt x xs arbitrary: k d rule: uniq.induct)
  case (2 lt x y ys)
  then show ?case by (auto split: if_splits prod.splits simp: union_mset_add_mset_right)
qed simp

lemma uniq_Cons: "uniq lt x xs = (k, d) \<Longrightarrow> \<exists>k'. k = x # k'"
  by (induction lt x xs arbitrary: d rule: uniq.induct) (auto split: if_splits prod.splits)

lemma uniq_successively:
  "uniq lt x xs = (k, d) \<Longrightarrow> successively (\<lambda>a b. lt a b \<or> lt b a) k"
proof (induction lt x xs arbitrary: k d rule: uniq.induct)
  case (2 lt x y ys)
  show ?case
  proof (cases "\<not> lt x y \<and> \<not> lt y x")
    case True
    with 2 show ?thesis by (auto split: prod.splits)
  next
    case False
    obtain k1 d1 where u: "uniq lt y ys = (k1, d1)" by fastforce
    with False "2.IH"(2) [OF False u] "2.prems" uniq_Cons [OF u] show ?thesis by auto
  qed
qed simp

lemma list_max_loop_is_list:
  "is_list h l (ps @ xs) \<Longrightarrow>
   list_max_loop h (pos l xs) (tail_elem l) m lt = Some (foldl (\<lambda>m e. if lt m e then e else m) m xs)"
proof (induction xs arbitrary: ps m)
  case Nil
  then show ?case by (simp add: list_max_loop.simps)
next
  case (Cons x xs)
  have "list_max_loop h (pos l xs) (tail_elem l) m lt = Some (foldl (\<lambda>m e. if lt m e then e else m) m xs)" for m
    using Cons.IH [of "ps @ [x]"] Cons.prems by simp
  then show ?case using list_next_is_list [OF Cons.prems] not_tail [OF Cons.prems]
    by (subst list_max_loop.simps) simp
qed

lemma list_min_loop_is_list:
  "is_list h l (ps @ xs) \<Longrightarrow>
   list_min_loop h (pos l xs) (tail_elem l) m lt = Some (foldl (\<lambda>m e. if lt e m then e else m) m xs)"
proof (induction xs arbitrary: ps m)
  case Nil
  then show ?case by (simp add: list_min_loop.simps)
next
  case (Cons x xs)
  have "list_min_loop h (pos l xs) (tail_elem l) m lt = Some (foldl (\<lambda>m e. if lt e m then e else m) m xs)" for m
    using Cons.IH [of "ps @ [x]"] Cons.prems by simp
  then show ?case using list_next_is_list [OF Cons.prems] not_tail [OF Cons.prems]
    by (subst list_min_loop.simps) simp
qed

text \<open>The fold picks an element that no element beats, and that beats all before it.\<close>

lemma fold_best:
  assumes sw: "strict_weak lt"
  shows "\<exists>as bs. m # xs = as @ foldl (\<lambda>m e. if lt m e then e else m) m xs # bs
    \<and> (\<forall>a \<in> set as. lt a (foldl (\<lambda>m e. if lt m e then e else m) m xs))
    \<and> (\<forall>b \<in> set bs. \<not> lt (foldl (\<lambda>m e. if lt m e then e else m) m xs) b)"
proof (induction xs rule: rev_induct)
  case (snoc x xs)
  let ?m = "foldl (\<lambda>m e. if lt m e then e else m) m xs"
  from snoc obtain as bs where s: "m # xs = as @ ?m # bs" "\<forall>a \<in> set as. lt a ?m" "\<forall>b \<in> set bs. \<not> lt ?m b"
    by blast
  show ?case
  proof (cases "lt ?m x")
    case False
    with s show ?thesis by (intro exI [of _ as] exI [of _ "bs @ [x]"]) auto
  next
    case True
    have "lt a x" if "a \<in> set (as @ ?m # bs)" for a
    proof -
      have "a = ?m \<or> \<not> lt ?m a" using that s(2,3) strict_weak_asym [OF sw] by auto
      then show ?thesis using strict_weak_le_less [OF sw _ True] True by auto
    qed
    then show ?thesis using True s(1) by (intro exI [of _ "m # xs"] exI [of _ "[]"]) auto
  qed
qed (intro exI [of _ "[]"], simp)

section \<open>Properties\<close>

text \<open>
  C14. The in-place natural merge sort returns: for every comparison that is a strict weak order the
  sort stops, none of its assertions fails, and it leaves a well-formed list with the same elements
  in nondecreasing order, having touched nothing outside the list.
\<close>

theorem list_sort_correct:
  assumes "strict_weak lt" and "is_list h l xs" and "length xs < 2 ^ 32"
  shows "\<exists>h' zs. list_sort h l lt = Some h' \<and> is_list h' l zs \<and> mset zs = mset xs
    \<and> sorted_wrt (\<lambda>a b. \<not> lt b a) zs \<and> same_outside h h' (cells l xs)"
  using list_sort_is_list [OF assms] ordered_sorted_wrt [OF assms(1)] by blast

lemma strict_weak_less: "strict_weak (<)"
  by (auto simp: strict_weak_def)

theorem list_sort_correct_witness:
  "\<exists>h h' zs. is_list h 100 [16, 32] \<and> list_sort h 100 (\<lambda>a b. b < a) = Some h' \<and> is_list h' 100 zs
     \<and> mset zs = {#16, 32#} \<and> sorted_wrt (\<lambda>a b. \<not> a < b) zs"
proof -
  have "strict_weak (\<lambda>a b. b < a)" by (auto simp: strict_weak_def)
  moreover obtain h where h: "is_list h 100 [16, 32]" by (rule two_lists)
  ultimately show ?thesis using list_sort_correct [of "\<lambda>a b. b < a" h 100 "[16, 32]"] by auto
qed

text \<open>
  Ordered insertion into a sorted list puts the element after all elements it is not less than,
  keeps the list sorted and the other elements in their order.
\<close>

theorem list_insert_ordered_correct:
  assumes "strict_weak lt" and "is_list h l xs" and "sorted_wrt (\<lambda>a b. \<not> lt b a) xs"
    and "e \<noteq> NULL" and "e \<notin> cells l xs"
  shows "\<exists>h' as bs. list_insert_ordered h l e lt = Some h' \<and> xs = as @ bs \<and> is_list h' l (as @ e # bs)
    \<and> sorted_wrt (\<lambda>a b. \<not> lt b a) (as @ e # bs) \<and> (\<forall>a \<in> set as. \<not> lt e a) \<and> (bs \<noteq> [] \<longrightarrow> lt e (hd bs))
    \<and> same_outside h h' (insert e (cells l xs))"
proof -
  let ?a = "takeWhile (\<lambda>x. \<not> lt e x) xs" and ?b = "dropWhile (\<lambda>x. \<not> lt e x) xs"
  from list_insert_ordered_is_list [OF assms(2,4,5), of lt] obtain h' where
    "list_insert_ordered h l e lt = Some h'" "is_list h' l (?a @ e # ?b)"
    "same_outside h h' (insert e (cells l xs))" by blast
  moreover have "sorted_wrt (\<lambda>a b. \<not> lt b a) (?a @ e # ?b)"
    using ordered_insert [OF assms(1), of xs e] assms(3) unfolding ordered_sorted_wrt [OF assms(1)] .
  moreover have "\<forall>a \<in> set ?a. \<not> lt e a" using set_takeWhileD [of _ "\<lambda>x. \<not> lt e x" xs] by blast
  moreover have "?b \<noteq> [] \<longrightarrow> lt e (hd ?b)" using hd_dropWhile by blast
  ultimately show ?thesis
    by (intro exI [of _ h'] exI [of _ ?a] exI [of _ ?b]) simp
qed

theorem list_insert_ordered_correct_witness:
  "\<exists>h h' as bs. list_insert_ordered h 100 24 (<) = Some h' \<and> [16, 32] = as @ bs \<and> is_list h' 100 (as @ 24 # bs)"
proof -
  obtain h where h: "is_list h 100 [16, 32]" by (rule two_lists)
  with list_insert_ordered_correct [OF strict_weak_less h, of 24] show ?thesis
    by (auto simp: cells_def head_elem_def tail_elem_def)
qed

text \<open>
  Removing duplicates leaves a list with no two equal neighbours; the elements removed are exactly
  the missing ones, and they are appended to the list of duplicates when one is given.
\<close>

theorem list_unique_correct:
  assumes "is_list h l xs" and "is_list h dl ds" and "cells l xs \<inter> cells dl ds = {}"
  shows "\<exists>h' k d. list_unique h l dl lt = Some h' \<and> is_list h' l k \<and> is_list h' dl (ds @ d)
    \<and> mset k + mset d = mset xs \<and> successively (\<lambda>a b. lt a b \<or> lt b a) k"
proof (cases xs)
  case Nil
  then show ?thesis using assms is_list_nonnull [OF assms(1)]
    by (intro exI [of _ h] exI [of _ "[]"]) (simp add: list_unique_def list_empty_is_list [OF assms(1)])
next
  case (Cons x ys)
  obtain k d where u: "uniq lt x ys = (k, d)" by fastforce
  have "is_list h l ([] @ x # ys)" "dup_list h dl ds" using assms Cons by (simp_all add: dup_list_def)
  from list_unique_loop_is_list [OF this _ u] assms(3) Cons obtain h' where
    "list_unique_loop h x (tail_elem l) dl lt = Some h'" "is_list h' l k" "dup_list h' dl (ds @ d)" by auto
  then show ?thesis
    using uniq_mset [OF u] uniq_successively [OF u] is_list_nonnull [OF assms(1)] is_list_nonnull [OF assms(2)] Cons
    by (intro exI [of _ h'] exI [of _ k] exI [of _ d])
      (simp add: list_unique_def list_empty_is_list [OF assms(1)] list_begin_is_list [OF assms(1)]
        list_end_is_list [OF assms(1)] dup_list_def)
qed

theorem list_unique_correct_witness:
  "\<exists>h h' k d. list_unique h 100 200 (\<lambda>a b. a div 64 < b div 64) = Some h' \<and> is_list h' 100 k
     \<and> is_list h' 200 ([48] @ d) \<and> mset k + mset d = {#16, 32#}"
proof -
  obtain h where h: "is_list h 100 [16, 32]" "is_list h 200 [48]" by (rule two_lists)
  have "cells 100 [16, 32] \<inter> cells 200 [48] = {}" by (simp add: cells_def head_elem_def tail_elem_def)
  from list_unique_correct [OF h this, of "\<lambda>a b. a div 64 < b div 64"] show ?thesis by auto
qed

text \<open>
  The maximum of a non-empty list is the first of its largest elements, the minimum the first of
  its smallest ones; on an empty list both return the tail.
\<close>

theorem list_max_min_correct:
  assumes "strict_weak lt" and "is_list h l xs"
  shows "if xs = [] then list_max h l lt = Some (tail_elem l) \<and> list_min h l lt = Some (tail_elem l)
    else (\<exists>m as bs. list_max h l lt = Some m \<and> xs = as @ m # bs \<and> (\<forall>a \<in> set as. lt a m) \<and> (\<forall>b \<in> set bs. \<not> lt m b))
      \<and> (\<exists>m as bs. list_min h l lt = Some m \<and> xs = as @ m # bs \<and> (\<forall>a \<in> set as. lt m a) \<and> (\<forall>b \<in> set bs. \<not> lt b m))"
proof (cases xs)
  case Nil
  then show ?thesis using assms
    by (simp add: list_max_def list_min_def list_begin_is_list [OF assms(2)] list_end_is_list [OF assms(2)])
next
  case (Cons x ys)
  have l: "is_list h l ([] @ x # ys)" using assms(2) Cons by simp
  have mx: "list_max h l lt = Some (foldl (\<lambda>m e. if lt m e then e else m) x ys)"
    and mn: "list_min h l lt = Some (foldl (\<lambda>m e. if lt e m then e else m) x ys)"
    using list_max_loop_is_list [of h l "[x]" ys x lt] list_min_loop_is_list [of h l "[x]" ys x lt]
      list_next_is_list [OF l] not_tail [OF l] assms(2) Cons
    by (simp_all add: list_max_def list_min_def list_begin_is_list [OF assms(2)] list_end_is_list [OF assms(2)])
  have "strict_weak (\<lambda>a b. lt b a)" using assms(1) unfolding strict_weak_def by blast
  from fold_best [OF this, of x ys] fold_best [OF assms(1), of x ys] mx mn Cons show ?thesis
    by simp
qed

theorem list_max_min_correct_witness:
  "\<exists>h m as bs. list_max h 100 (<) = Some m \<and> [16, 32] = as @ m # bs \<and> (\<forall>b \<in> set bs. \<not> m < b)"
proof -
  obtain h where h: "is_list h 100 [16, 32]" by (rule two_lists)
  with list_max_min_correct [OF strict_weak_less h] show ?thesis by auto
qed

end
