(* ===== verification/Hash.thy ===== *)
theory Hash
  imports Prelude "HOL-Library.Multiset"
begin

text \<open>
  \<^verbatim>\<open>lib/kernel/hash.c\<close>: the chained hash table.  An element is a value of the type \<open>'e\<close> (the
  address of the embedded \<^verbatim>\<open>struct hash_elem\<close>, with what the two callbacks read through it), a
  bucket is the list of its elements, the callbacks with their auxiliary data are fields of the table.
  Sizes are 32-bit words.  A null pointer result is an inner \<open>None\<close>.

  The locale \<open>keyed_set\<close> is the contract the page table, the swap table and the frame table rely on:
  a set with at most one element per key.
\<close>

section \<open>The structure and its operations\<close>

record 'e hash =
  h_elem_cnt :: u32
  h_bucket_cnt :: u32
  h_buckets :: "'e list list"
  h_hash :: "'e \<Rightarrow> u32"
  h_less :: "'e \<Rightarrow> 'e \<Rightarrow> bool"

definition find_bucket :: "'e hash \<Rightarrow> 'e \<Rightarrow> nat" where
  "find_bucket h e = unat (h_hash h e AND (h_bucket_cnt h - 1))"

primrec find_elem :: "'e hash \<Rightarrow> 'e list \<Rightarrow> 'e \<Rightarrow> 'e option" where
  "find_elem h [] e = None"
| "find_elem h (hi # is) e =
     (if \<not> h_less h hi e \<and> \<not> h_less h e hi then Some hi else find_elem h is e)"

definition turn_off_least_1bit :: "u32 \<Rightarrow> u32" where
  "turn_off_least_1bit x = x AND (x - 1)"

definition is_power_of_2 :: "u32 \<Rightarrow> bool" where
  "is_power_of_2 x \<longleftrightarrow> x \<noteq> 0 \<and> turn_off_least_1bit x = 0"

definition BEST_ELEMS_PER_BUCKET :: u32 where
  "BEST_ELEMS_PER_BUCKET = 2"

text \<open>The rounding loop of \<^verbatim>\<open>rehash\<close>; it would not end on 0.\<close>

partial_function (option) bucket_cnt_loop :: "u32 \<Rightarrow> u32 option" where
  "bucket_cnt_loop n = (if \<not> is_power_of_2 n then bucket_cnt_loop (turn_off_least_1bit n) else Some n)"

text \<open>Moving the elements of one old bucket, front to back, to the front of their new buckets.\<close>

fun move_elems :: "'e hash \<Rightarrow> 'e list \<Rightarrow> 'e list list \<Rightarrow> 'e list list option" where
  "move_elems h [] nb = Some nb"
| "move_elems h (e # es) nb = do {
     b \<leftarrow> arr_get nb (find_bucket h e);
     nb \<leftarrow> arr_set nb (find_bucket h e) (e # b);
     move_elems h es nb }"

fun move_buckets :: "'e hash \<Rightarrow> 'e list list \<Rightarrow> 'e list list \<Rightarrow> 'e list list option" where
  "move_buckets h [] nb = Some nb"
| "move_buckets h (ob # obs) nb = do { nb \<leftarrow> move_elems h ob nb; move_buckets h obs nb }"

text \<open>\<open>mem\<close> says whether \<^verbatim>\<open>malloc\<close> of the new bucket array succeeds.\<close>

definition rehash :: "bool \<Rightarrow> 'e hash \<Rightarrow> 'e hash option" where
  "rehash mem h = do {
     let n = h_elem_cnt h div BEST_ELEMS_PER_BUCKET;
     let n = (if n < 4 then 4 else n);
     n \<leftarrow> bucket_cnt_loop n;
     if n = h_bucket_cnt h then Some h
     else if \<not> mem then Some h
     else do {
       let h' = h\<lparr>h_bucket_cnt := n\<rparr>;
       bs \<leftarrow> move_buckets h' (h_buckets h) (replicate (unat n) []);
       Some (h'\<lparr>h_buckets := bs\<rparr>) } }"

definition insert_elem :: "'e hash \<Rightarrow> nat \<Rightarrow> 'e \<Rightarrow> 'e hash option" where
  "insert_elem h bucket e = do {
     b \<leftarrow> arr_get (h_buckets h) bucket;
     bs \<leftarrow> arr_set (h_buckets h) bucket (e # b);
     Some (h\<lparr>h_elem_cnt := h_elem_cnt h + 1, h_buckets := bs\<rparr>) }"

text \<open>\<^verbatim>\<open>list_remove\<close> unlinks the element from the bucket that holds it.\<close>

definition remove_elem :: "'e hash \<Rightarrow> 'e \<Rightarrow> 'e hash" where
  "remove_elem h e =
     h\<lparr>h_elem_cnt := h_elem_cnt h - 1, h_buckets := map (removeAll e) (h_buckets h)\<rparr>"

text \<open>\<open>destructor\<close> acts on a state \<open>'s\<close>; \<open>None\<close> is the null function pointer.\<close>

definition hash_clear :: "'e hash \<Rightarrow> ('e \<Rightarrow> 's \<Rightarrow> 's) option \<Rightarrow> 's \<Rightarrow> 'e hash \<times> 's" where
  "hash_clear h destructor s =
     (h\<lparr>h_elem_cnt := 0, h_buckets := map (\<lambda>_. []) (h_buckets h)\<rparr>,
      case destructor of None \<Rightarrow> s | Some d \<Rightarrow> fold (\<lambda>b s. fold d b s) (h_buckets h) s)"

definition hash_init :: "bool \<Rightarrow> ('e \<Rightarrow> u32) \<Rightarrow> ('e \<Rightarrow> 'e \<Rightarrow> bool) \<Rightarrow> 'e hash option" where
  "hash_init mem hf lf =
     (if mem
      then Some (fst (hash_clear \<lparr>h_elem_cnt = 0, h_bucket_cnt = 4, h_buckets = replicate 4 [],
                                  h_hash = hf, h_less = lf\<rparr> None ()))
      else None)"

definition hash_find :: "'e hash \<Rightarrow> 'e \<Rightarrow> 'e option option" where
  "hash_find h e = do { b \<leftarrow> arr_get (h_buckets h) (find_bucket h e); Some (find_elem h b e) }"

definition hash_insert :: "bool \<Rightarrow> 'e hash \<Rightarrow> 'e \<Rightarrow> ('e option \<times> 'e hash) option" where
  "hash_insert mem h new = do {
     let bucket = find_bucket h new;
     b \<leftarrow> arr_get (h_buckets h) bucket;
     let old = find_elem h b new;
     h \<leftarrow> (if old = None then insert_elem h bucket new else Some h);
     h \<leftarrow> rehash mem h;
     Some (old, h) }"

definition hash_replace :: "bool \<Rightarrow> 'e hash \<Rightarrow> 'e \<Rightarrow> ('e option \<times> 'e hash) option" where
  "hash_replace mem h new = do {
     let bucket = find_bucket h new;
     b \<leftarrow> arr_get (h_buckets h) bucket;
     let old = find_elem h b new;
     let h = (case old of Some o' \<Rightarrow> remove_elem h o' | None \<Rightarrow> h);
     h \<leftarrow> insert_elem h bucket new;
     h \<leftarrow> rehash mem h;
     Some (old, h) }"

definition hash_delete :: "bool \<Rightarrow> 'e hash \<Rightarrow> 'e \<Rightarrow> ('e option \<times> 'e hash) option" where
  "hash_delete mem h e = do {
     b \<leftarrow> arr_get (h_buckets h) (find_bucket h e);
     case find_elem h b e of
       Some found \<Rightarrow> do { h \<leftarrow> rehash mem (remove_elem h found); Some (Some found, h) }
     | None \<Rightarrow> Some (None, h) }"

definition hash_apply :: "'e hash \<Rightarrow> ('e \<Rightarrow> 's \<Rightarrow> 's) \<Rightarrow> 's \<Rightarrow> 's" where
  "hash_apply h action s = fold (\<lambda>b s. fold action b s) (h_buckets h) s"

definition hash_size :: "'e hash \<Rightarrow> u32" where
  "hash_size h = h_elem_cnt h"

definition hash_empty :: "'e hash \<Rightarrow> bool" where
  "hash_empty h \<longleftrightarrow> h_elem_cnt h = 0"

text \<open>
  The iterator: the current bucket, the elements of that bucket after the current one, and the
  current element (\<open>None\<close> at the list head and at the end of the table).
\<close>

record 'e hash_iterator =
  it_bucket :: nat
  it_rest :: "'e list"
  it_elem :: "'e option"

definition hash_first :: "'e hash \<Rightarrow> 'e hash_iterator option" where
  "hash_first h = do {
     b \<leftarrow> arr_get (h_buckets h) 0;
     Some \<lparr>it_bucket = 0, it_rest = b, it_elem = None\<rparr> }"

text \<open>Past the end of the table the current element is null and advancing it again faults.\<close>

function hash_next :: "'e hash \<Rightarrow> 'e hash_iterator \<Rightarrow> 'e hash_iterator option" where
  "hash_next h i =
     (if it_bucket i < unat (h_bucket_cnt h)
      then case it_rest i of
          x # xs \<Rightarrow> Some (i\<lparr>it_rest := xs, it_elem := Some x\<rparr>)
        | [] \<Rightarrow>
            if Suc (it_bucket i) \<ge> unat (h_bucket_cnt h)
            then Some (i\<lparr>it_bucket := Suc (it_bucket i), it_elem := None\<rparr>)
            else Option.bind (arr_get (h_buckets h) (Suc (it_bucket i)))
              (\<lambda>b. hash_next h (i\<lparr>it_bucket := Suc (it_bucket i), it_rest := b\<rparr>))
      else None)"
  by pat_completeness auto
termination
  by (relation "measure (\<lambda>(h, i). unat (h_bucket_cnt h) - it_bucket i)") auto

declare hash_next.simps [simp del]

definition hash_cur :: "'e hash_iterator \<Rightarrow> 'e option" where
  "hash_cur i = it_elem i"

text \<open>Fowler-Noll-Vo hashing.\<close>

definition FNV_32_PRIME :: u32 where
  "FNV_32_PRIME = 16777619"

definition FNV_32_BASIS :: u32 where
  "FNV_32_BASIS = 2166136261"

definition fnv_step :: "byte \<Rightarrow> u32 \<Rightarrow> u32" where
  "fnv_step b hash = (hash * FNV_32_PRIME) XOR ucast b"

definition hash_bytes :: "byte list \<Rightarrow> nat \<Rightarrow> u32 option" where
  "hash_bytes buf sze = do {
     kassert (sze \<le> length buf);
     Some (fold fnv_step (take sze buf) FNV_32_BASIS) }"

text \<open>A C string is the memory from its first byte on; a string without terminator is undefined.\<close>

fun hash_string_loop :: "byte list \<Rightarrow> u32 \<Rightarrow> u32 option" where
  "hash_string_loop [] hash = None"
| "hash_string_loop (c # cs) hash = (if c \<noteq> 0 then hash_string_loop cs (fnv_step c hash) else Some hash)"

definition hash_string :: "byte list \<Rightarrow> u32 option" where
  "hash_string s = hash_string_loop s FNV_32_BASIS"

definition hash_int :: "u32 \<Rightarrow> u32 option" where
  "hash_int i = hash_bytes (le32 i) 4"

section \<open>The table as a set with one element per key\<close>

definition h_eq :: "'e hash \<Rightarrow> 'e \<Rightarrow> 'e \<Rightarrow> bool" where
  "h_eq h a b \<longleftrightarrow> \<not> h_less h a b \<and> \<not> h_less h b a"

definition hset :: "'e hash \<Rightarrow> 'e set" where
  "hset h = set (concat (h_buckets h))"

text \<open>What the callbacks must satisfy: incomparability is an equivalence that the hash respects.\<close>

definition hash_funs_ok :: "'e hash \<Rightarrow> bool" where
  "hash_funs_ok h \<longleftrightarrow> equivp (h_eq h) \<and> (\<forall>a b. h_eq h a b \<longrightarrow> h_hash h a = h_hash h b)"

text \<open>Every element is in its bucket, no two elements have the same key, and the count is right.\<close>

definition buckets_ok :: "'e hash \<Rightarrow> bool" where
  "buckets_ok h \<longleftrightarrow> h_bucket_cnt h \<noteq> 0 \<and> length (h_buckets h) = unat (h_bucket_cnt h)
     \<and> (\<forall>i < length (h_buckets h). \<forall>e \<in> set (h_buckets h ! i). find_bucket h e = i)"

definition hash_wf :: "'e hash \<Rightarrow> bool" where
  "hash_wf h \<longleftrightarrow> hash_funs_ok h \<and> buckets_ok h \<and> distinct (concat (h_buckets h))
     \<and> (\<forall>a \<in> hset h. \<forall>b \<in> hset h. h_eq h a b \<longrightarrow> a = b)
     \<and> h_elem_cnt h = of_nat (length (concat (h_buckets h)))"

lemma h_eq_refl: "hash_funs_ok h \<Longrightarrow> h_eq h a a"
  by (simp add: hash_funs_ok_def equivp_reflp)

lemma h_eq_sym: "hash_funs_ok h \<Longrightarrow> h_eq h a b \<Longrightarrow> h_eq h b a"
  by (simp add: h_eq_def)

lemma h_eq_trans: "hash_funs_ok h \<Longrightarrow> h_eq h a b \<Longrightarrow> h_eq h b c \<Longrightarrow> h_eq h a c"
  unfolding hash_funs_ok_def by (meson equivp_transp)

lemma find_bucket_cong: "hash_funs_ok h \<Longrightarrow> h_eq h a b \<Longrightarrow> find_bucket h a = find_bucket h b"
  by (auto simp: hash_funs_ok_def find_bucket_def)

lemma find_bucket_less:
  assumes "h_bucket_cnt h \<noteq> 0"
  shows "find_bucket h e < unat (h_bucket_cnt h)"
proof -
  have "unat (h_hash h e AND (h_bucket_cnt h - 1)) \<le> unat (h_bucket_cnt h - 1)"
    using word_and_le1 [of "h_hash h e" "h_bucket_cnt h - 1"] by (simp add: word_le_nat_alt)
  moreover have "unat (h_bucket_cnt h - 1) = unat (h_bucket_cnt h) - 1" by (rule unat_minus_one [OF assms])
  moreover have "0 < unat (h_bucket_cnt h)" using assms by (simp add: unat_gt_0)
  ultimately show ?thesis unfolding find_bucket_def by linarith
qed

lemma find_bucket_update [simp]:
  "find_bucket (h\<lparr>h_buckets := bs\<rparr>) e = find_bucket h e"
  "find_bucket (h\<lparr>h_elem_cnt := n\<rparr>) e = find_bucket h e"
  by (simp_all add: find_bucket_def)

lemma find_elem_None: "find_elem h b e = None \<longleftrightarrow> (\<forall>x \<in> set b. \<not> h_eq h x e)"
  by (induction b) (auto simp: h_eq_def)

lemma find_elem_Some: "find_elem h b e = Some x \<Longrightarrow> x \<in> set b \<and> h_eq h x e"
  by (induction b) (auto simp: h_eq_def split: if_splits)

lemma in_bucket:
  assumes "buckets_ok h"
  shows "x \<in> hset h \<longleftrightarrow> x \<in> set (h_buckets h ! find_bucket h x)"
proof
  assume "x \<in> hset h"
  then obtain i where "i < length (h_buckets h)" "x \<in> set (h_buckets h ! i)"
    by (auto simp: hset_def) (metis in_set_conv_nth)
  with assms show "x \<in> set (h_buckets h ! find_bucket h x)" by (auto simp: buckets_ok_def)
next
  assume x: "x \<in> set (h_buckets h ! find_bucket h x)"
  have "h_buckets h ! find_bucket h x \<in> set (h_buckets h)"
    using assms find_bucket_less [of h x] by (simp add: buckets_ok_def)
  with x show "x \<in> hset h" by (auto simp: hset_def)
qed

lemma hash_lookup:
  assumes "hash_wf h"
  shows "\<exists>b. arr_get (h_buckets h) (find_bucket h e) = Some b
    \<and> (case find_elem h b e of None \<Rightarrow> \<forall>x \<in> hset h. \<not> h_eq h x e | Some x \<Rightarrow> x \<in> hset h \<and> h_eq h x e)"
proof -
  have ok: "buckets_ok h" "hash_funs_ok h" using assms by (simp_all add: hash_wf_def)
  let ?b = "h_buckets h ! find_bucket h e"
  have get: "arr_get (h_buckets h) (find_bucket h e) = Some ?b"
    using ok find_bucket_less [of h e] by (simp add: buckets_ok_def)
  have same: "find_bucket h x = find_bucket h e" if "h_eq h x e" for x
    using find_bucket_cong [OF ok(2) that] .
  have "\<not> h_eq h x e" if "find_elem h ?b e = None" "x \<in> hset h" for x
    using that in_bucket [OF ok(1), of x] same [of x] by (auto simp: find_elem_None)
  moreover have "x \<in> hset h \<and> h_eq h x e" if "find_elem h ?b e = Some x" for x
    using find_elem_Some [OF that] in_bucket [OF ok(1), of x] same [of x] by auto
  ultimately show ?thesis using get by (auto split: option.splits)
qed

section \<open>Resizing keeps the contents\<close>

definition placed :: "'e hash \<Rightarrow> 'e list list \<Rightarrow> bool" where
  "placed h nb \<longleftrightarrow> (\<forall>i < length nb. \<forall>e \<in> set (nb ! i). find_bucket h e = i)"

lemma mset_concat_update:
  "i < length xss \<Longrightarrow> mset (concat (xss[i := ys])) + mset (xss ! i) = mset ys + mset (concat xss)"
  by (induction xss arbitrary: i) (auto split: nat.splits)

lemma turn_off_smaller: "x \<noteq> 0 \<Longrightarrow> unat (turn_off_least_1bit x) < unat x"
proof -
  assume x: "x \<noteq> 0"
  have "unat (x AND (x - 1)) \<le> unat (x - 1)"
    using word_and_le1 [of x "x - 1"] by (simp add: word_le_nat_alt)
  moreover have "unat (x - 1) = unat x - 1" by (rule unat_minus_one [OF x])
  moreover have "0 < unat x" using x by (simp add: unat_gt_0)
  ultimately show ?thesis unfolding turn_off_least_1bit_def by linarith
qed

lemma bucket_cnt_loop_returns:
  "n \<noteq> 0 \<Longrightarrow> \<exists>m. bucket_cnt_loop n = Some m \<and> is_power_of_2 m"
proof (induction "unat n" arbitrary: n rule: less_induct)
  case less
  show ?case
  proof (cases "is_power_of_2 n")
    case True
    then show ?thesis by (subst bucket_cnt_loop.simps) simp
  next
    case False
    then have "turn_off_least_1bit n \<noteq> 0" using less.prems by (simp add: is_power_of_2_def)
    from less.hyps [OF turn_off_smaller [OF less.prems] this] False show ?thesis
      by (subst bucket_cnt_loop.simps) simp
  qed
qed

lemma move_elems_ok:
  assumes "h_bucket_cnt h \<noteq> 0"
  shows "length nb = unat (h_bucket_cnt h) \<Longrightarrow> placed h nb \<Longrightarrow>
    \<exists>nb'. move_elems h es nb = Some nb' \<and> length nb' = length nb \<and> placed h nb'
      \<and> mset (concat nb') = mset es + mset (concat nb)"
proof (induction es arbitrary: nb)
  case (Cons e es)
  let ?i = "find_bucket h e"
  let ?nb = "nb[?i := e # nb ! ?i]"
  have i: "?i < length nb" using find_bucket_less [OF assms] Cons.prems by simp
  have "placed h ?nb" using Cons.prems(2) i by (auto simp: placed_def nth_list_update)
  with Cons.IH [of ?nb] Cons.prems(1) obtain nb' where "move_elems h es ?nb = Some nb'"
    "length nb' = length nb" "placed h nb'" "mset (concat nb') = mset es + mset (concat ?nb)" by auto
  moreover have "mset (concat ?nb) = add_mset e (mset (concat nb))"
    using mset_concat_update [OF i, of "e # nb ! ?i"] by simp
  ultimately show ?case using i by simp
qed simp

lemma move_buckets_ok:
  assumes "h_bucket_cnt h \<noteq> 0"
  shows "length nb = unat (h_bucket_cnt h) \<Longrightarrow> placed h nb \<Longrightarrow>
    \<exists>nb'. move_buckets h obs nb = Some nb' \<and> length nb' = length nb \<and> placed h nb'
      \<and> mset (concat nb') = mset (concat obs) + mset (concat nb)"
proof (induction obs arbitrary: nb)
  case (Cons ob obs)
  from move_elems_ok [OF assms Cons.prems, of ob] obtain nb1 where "move_elems h ob nb = Some nb1"
    "length nb1 = length nb" "placed h nb1" "mset (concat nb1) = mset ob + mset (concat nb)" by blast
  with Cons.IH [of nb1] Cons.prems(1) show ?case by (auto simp: ac_simps)
qed simp

text \<open>\<open>same_table h h'\<close>: the two tables hold the same elements and use the same callbacks.\<close>

definition same_table :: "'e hash \<Rightarrow> 'e hash \<Rightarrow> bool" where
  "same_table h h' \<longleftrightarrow> mset (concat (h_buckets h')) = mset (concat (h_buckets h))
     \<and> h_elem_cnt h' = h_elem_cnt h \<and> h_hash h' = h_hash h \<and> h_less h' = h_less h"

lemma rehash_ok:
  assumes "buckets_ok h"
  shows "\<exists>h'. rehash mem h = Some h' \<and> buckets_ok h' \<and> same_table h h'"
proof -
  let ?n = "if h_elem_cnt h div BEST_ELEMS_PER_BUCKET < 4 then 4 else h_elem_cnt h div BEST_ELEMS_PER_BUCKET"
  have "?n \<noteq> 0" by (auto simp: word_greater_zero_iff)
  from bucket_cnt_loop_returns [OF this] obtain m where m: "bucket_cnt_loop ?n = Some m" "is_power_of_2 m"
    by blast
  show ?thesis
  proof (cases "m = h_bucket_cnt h \<or> \<not> mem")
    case True
    with m assms show ?thesis by (auto simp: rehash_def same_table_def Let_def)
  next
    case False
    let ?h = "h\<lparr>h_bucket_cnt := m\<rparr>"
    have m0: "h_bucket_cnt ?h \<noteq> 0" using m(2) by (simp add: is_power_of_2_def)
    have "placed ?h (replicate (unat m) [])" by (simp add: placed_def)
    from move_buckets_ok [OF m0 _ this, of "h_buckets h"] obtain nb
      where "move_buckets ?h (h_buckets h) (replicate (unat m) []) = Some nb"
      "length nb = unat m" "placed ?h nb" "mset (concat nb) = mset (concat (h_buckets h))" by auto
    with m m0 False show ?thesis
      by (auto simp: rehash_def Let_def buckets_ok_def same_table_def placed_def)
  qed
qed

lemma hash_wf_same_table:
  assumes "hash_wf h" and "buckets_ok h'" and "same_table h h'"
  shows "hash_wf h' \<and> hset h' = hset h \<and> h_eq h' = h_eq h"
proof -
  have e: "h_eq h' = h_eq h" using assms(3) by (auto simp: h_eq_def same_table_def fun_eq_iff)
  have m: "mset (concat (h_buckets h')) = mset (concat (h_buckets h))"
    using assms(3) by (simp add: same_table_def)
  have s: "hset h' = hset h" unfolding hset_def by (rule mset_eq_setD [OF m])
  have "distinct (concat (h_buckets h'))" "length (concat (h_buckets h')) = length (concat (h_buckets h))"
    using mset_eq_imp_distinct_iff [OF m] mset_eq_length [OF m] assms(1) by (simp_all add: hash_wf_def)
  with assms e s show ?thesis
    by (auto simp: hash_wf_def hash_funs_ok_def same_table_def)
qed

section \<open>The operations\<close>

lemma insert_elem_ok:
  assumes wf: "hash_wf h" and new: "\<forall>x \<in> hset h. \<not> h_eq h x e"
    and room: "length (concat (h_buckets h)) + 1 < 2 ^ 32"
  shows "\<exists>h'. insert_elem h (find_bucket h e) e = Some h' \<and> hash_wf h' \<and> hset h' = insert e (hset h)
    \<and> h_eq h' = h_eq h"
proof -
  have ok: "buckets_ok h" "hash_funs_ok h" using wf by (simp_all add: hash_wf_def)
  let ?i = "find_bucket h e"
  let ?bs = "(h_buckets h)[?i := e # h_buckets h ! ?i]"
  let ?h = "h\<lparr>h_elem_cnt := h_elem_cnt h + 1, h_buckets := ?bs\<rparr>"
  have i: "?i < length (h_buckets h)" using find_bucket_less [of h e] ok by (simp add: buckets_ok_def)
  have ins: "insert_elem h ?i e = Some ?h" using i by (simp add: insert_elem_def)
  have m: "mset (concat ?bs) = add_mset e (mset (concat (h_buckets h)))"
    using mset_concat_update [OF i, of "e # h_buckets h ! ?i"] by simp
  have s: "hset ?h = insert e (hset h)"
    using arg_cong [OF m, of set_mset] by (simp add: hset_def)
  have e: "h_eq ?h = h_eq h" by (simp add: h_eq_def fun_eq_iff)
  have "e \<notin> hset h" using new h_eq_refl [OF ok(2), of e] by auto
  then have d: "distinct (concat ?bs)"
    using wf mset_eq_imp_distinct_iff [of "concat ?bs" "e # concat (h_buckets h)"] m
    by (simp add: hash_wf_def hset_def)
  have len: "length (concat ?bs) = Suc (length (concat (h_buckets h)))"
    using mset_eq_length [of "concat ?bs" "e # concat (h_buckets h)"] m by simp
  have "buckets_ok ?h" using ok(1) i by (auto simp: buckets_ok_def nth_list_update)
  moreover have "hash_funs_ok ?h" using ok(2) e by (simp add: hash_funs_ok_def)
  moreover have "\<forall>a \<in> hset ?h. \<forall>b \<in> hset ?h. h_eq ?h a b \<longrightarrow> a = b"
    using wf new h_eq_sym [OF ok(2)] unfolding s e by (auto simp: hash_wf_def)
  moreover have "h_elem_cnt ?h = of_nat (length (concat ?bs))"
    using wf unfolding len by (simp add: hash_wf_def)
  ultimately have "hash_wf ?h" using d by (simp add: hash_wf_def)
  with ins s e show ?thesis by blast
qed

lemma concat_removeAll: "concat (map (removeAll e) bs) = removeAll e (concat bs)"
  by (induction bs) simp_all

lemma remove_elem_ok:
  assumes wf: "hash_wf h" and x: "x \<in> hset h"
  shows "hash_wf (remove_elem h x) \<and> hset (remove_elem h x) = hset h - {x} \<and> h_eq (remove_elem h x) = h_eq h
    \<and> find_bucket (remove_elem h x) = find_bucket h
    \<and> Suc (length (concat (h_buckets (remove_elem h x)))) = length (concat (h_buckets h))"
proof -
  let ?h = "remove_elem h x"
  have c: "concat (h_buckets ?h) = removeAll x (concat (h_buckets h))"
    by (simp add: remove_elem_def concat_removeAll)
  have d: "distinct (concat (h_buckets h))" using wf by (simp add: hash_wf_def)
  have len: "Suc (length (removeAll x (concat (h_buckets h)))) = length (concat (h_buckets h))"
  proof -
    have in_L: "x \<in> set (concat (h_buckets h))" using x by (simp add: hset_def)
    then have "length (removeAll x (concat (h_buckets h))) = length (concat (h_buckets h)) - 1"
      using distinct_remove1_removeAll [OF d, of x] length_remove1 [of x "concat (h_buckets h)"] by simp
    then show ?thesis using length_pos_if_in_set [OF in_L] by linarith
  qed
  have s: "hset ?h = hset h - {x}" unfolding hset_def c by simp
  have e: "h_eq ?h = h_eq h" by (simp add: h_eq_def fun_eq_iff remove_elem_def)
  have f: "find_bucket ?h = find_bucket h" by (simp add: fun_eq_iff find_bucket_def remove_elem_def)
  have "buckets_ok ?h" using wf f by (auto simp: hash_wf_def buckets_ok_def remove_elem_def)
  moreover have "hash_funs_ok ?h" using wf e by (simp add: hash_wf_def hash_funs_ok_def remove_elem_def)
  moreover have "h_elem_cnt ?h = of_nat (length (concat (h_buckets ?h)))"
  proof -
    have "h_elem_cnt h = of_nat (Suc (length (removeAll x (concat (h_buckets h)))))"
      using wf len by (simp add: hash_wf_def)
    then show ?thesis unfolding c by (simp add: remove_elem_def)
  qed
  moreover have "distinct (concat (h_buckets ?h))" unfolding c using d by (rule distinct_removeAll)
  moreover have "\<forall>a \<in> hset ?h. \<forall>b \<in> hset ?h. h_eq ?h a b \<longrightarrow> a = b"
    using wf unfolding s e by (simp add: hash_wf_def)
  ultimately have "hash_wf ?h" by (simp add: hash_wf_def)
  then show ?thesis using s e f len c by simp
qed

lemma hash_find_ok:
  assumes "hash_wf h"
  shows "\<exists>r. hash_find h e = Some r
    \<and> (case r of None \<Rightarrow> \<forall>x \<in> hset h. \<not> h_eq h x e | Some x \<Rightarrow> x \<in> hset h \<and> h_eq h x e)"
  using hash_lookup [OF assms, of e] by (auto simp: hash_find_def)

lemma hash_insert_ok:
  assumes wf: "hash_wf h" and room: "length (concat (h_buckets h)) + 1 < 2 ^ 32"
  shows "\<exists>r h'. hash_insert mem h e = Some (r, h') \<and> hash_wf h' \<and> h_eq h' = h_eq h
    \<and> (case r of None \<Rightarrow> (\<forall>x \<in> hset h. \<not> h_eq h x e) \<and> hset h' = insert e (hset h)
       | Some x \<Rightarrow> x \<in> hset h \<and> h_eq h x e \<and> hset h' = hset h)"
proof -
  from hash_lookup [OF wf, of e] obtain b where b: "arr_get (h_buckets h) (find_bucket h e) = Some b"
    and c: "case find_elem h b e of None \<Rightarrow> \<forall>x \<in> hset h. \<not> h_eq h x e | Some x \<Rightarrow> x \<in> hset h \<and> h_eq h x e"
    by blast
  show ?thesis
  proof (cases "find_elem h b e")
    case None
    with c have n: "\<forall>x \<in> hset h. \<not> h_eq h x e" by simp
    from insert_elem_ok [OF wf n room] obtain h1 where h1: "insert_elem h (find_bucket h e) e = Some h1"
      "hash_wf h1" "hset h1 = insert e (hset h)" "h_eq h1 = h_eq h" by blast
    from rehash_ok [of h1 mem] h1(2) obtain h' where h': "rehash mem h1 = Some h'" "buckets_ok h'" "same_table h1 h'"
      by (auto simp: hash_wf_def)
    from hash_wf_same_table [OF h1(2) h'(2,3)] b None n h1 h'(1) show ?thesis
      by (simp add: hash_insert_def)
  next
    case (Some x)
    from rehash_ok [of h mem] wf obtain h' where h': "rehash mem h = Some h'" "buckets_ok h'" "same_table h h'"
      by (auto simp: hash_wf_def)
    from hash_wf_same_table [OF wf h'(2,3)] b Some c h'(1) show ?thesis
      by (simp add: hash_insert_def)
  qed
qed

lemma hash_delete_ok:
  assumes wf: "hash_wf h"
  shows "\<exists>r h'. hash_delete mem h e = Some (r, h') \<and> hash_wf h' \<and> h_eq h' = h_eq h
    \<and> (case r of None \<Rightarrow> (\<forall>x \<in> hset h. \<not> h_eq h x e) \<and> h' = h
       | Some x \<Rightarrow> x \<in> hset h \<and> h_eq h x e \<and> hset h' = hset h - {x})"
proof -
  from hash_lookup [OF wf, of e] obtain b where b: "arr_get (h_buckets h) (find_bucket h e) = Some b"
    and c: "case find_elem h b e of None \<Rightarrow> \<forall>x \<in> hset h. \<not> h_eq h x e | Some x \<Rightarrow> x \<in> hset h \<and> h_eq h x e"
    by blast
  show ?thesis
  proof (cases "find_elem h b e")
    case None
    with b c wf show ?thesis by (simp add: hash_delete_def)
  next
    case (Some x)
    with c have x: "x \<in> hset h" by simp
    note r = remove_elem_ok [OF wf x]
    from rehash_ok [of "remove_elem h x" mem] r obtain h' where
      h': "rehash mem (remove_elem h x) = Some h'" "buckets_ok h'" "same_table (remove_elem h x) h'"
      by (auto simp: hash_wf_def)
    have wf1: "hash_wf (remove_elem h x)" using r by simp
    from hash_wf_same_table [OF wf1 h'(2,3)] b Some c h'(1) r show ?thesis
      by (simp add: hash_delete_def)
  qed
qed

lemma hash_replace_ok:
  assumes wf: "hash_wf h" and room: "length (concat (h_buckets h)) + 1 < 2 ^ 32"
  shows "\<exists>r h'. hash_replace mem h e = Some (r, h') \<and> hash_wf h' \<and> h_eq h' = h_eq h
    \<and> (case r of None \<Rightarrow> (\<forall>x \<in> hset h. \<not> h_eq h x e) \<and> hset h' = insert e (hset h)
       | Some x \<Rightarrow> x \<in> hset h \<and> h_eq h x e \<and> hset h' = insert e (hset h - {x}))"
proof -
  from hash_lookup [OF wf, of e] obtain b where b: "arr_get (h_buckets h) (find_bucket h e) = Some b"
    and c: "case find_elem h b e of None \<Rightarrow> \<forall>x \<in> hset h. \<not> h_eq h x e | Some x \<Rightarrow> x \<in> hset h \<and> h_eq h x e"
    by blast
  have finish: ?thesis
    if h0: "hash_wf h0" "h_eq h0 = h_eq h" "find_bucket h0 e = find_bucket h e"
      "length (concat (h_buckets h0)) + 1 < 2 ^ 32" "\<forall>x \<in> hset h0. \<not> h_eq h0 x e"
      and eq: "(case find_elem h b e of Some o' \<Rightarrow> remove_elem h o' | None \<Rightarrow> h) = h0"
      and set: "hset h0 = (case find_elem h b e of None \<Rightarrow> hset h | Some x \<Rightarrow> hset h - {x})" for h0
  proof -
    from insert_elem_ok [OF h0(1,5,4)] h0(3) obtain h1 where h1: "insert_elem h0 (find_bucket h e) e = Some h1"
      "hash_wf h1" "hset h1 = insert e (hset h0)" "h_eq h1 = h_eq h0" by auto
    from rehash_ok [of h1 mem] h1(2) obtain h' where h': "rehash mem h1 = Some h'" "buckets_ok h'" "same_table h1 h'"
      by (auto simp: hash_wf_def)
    from hash_wf_same_table [OF h1(2) h'(2,3)] b c h1 h'(1) h0(2) set show ?thesis
      by (simp add: hash_replace_def eq split: option.splits)
  qed
  show ?thesis
  proof (cases "find_elem h b e")
    case None
    show ?thesis by (rule finish [of h]) (use None c wf room in simp_all)
  next
    case (Some x)
    with c have x: "x \<in> hset h" "h_eq h x e" by simp_all
    have f: "hash_funs_ok h" using wf by (simp add: hash_wf_def)
    note r = remove_elem_ok [OF wf x(1)]
    have "\<forall>y \<in> hset h - {x}. \<not> h_eq h y e"
    proof
      fix y assume y: "y \<in> hset h - {x}"
      show "\<not> h_eq h y e"
      proof
        assume "h_eq h y e"
        then have "h_eq h y x" using h_eq_trans [OF f] h_eq_sym [OF f x(2)] by blast
        then show False using wf x(1) y by (auto simp: hash_wf_def)
      qed
    qed
    then show ?thesis by (intro finish [of "remove_elem h x"]) (use Some r room in simp_all)
  qed
qed

lemma hash_init_ok:
  assumes "hash_init mem hf lf = Some h" and "equivp (\<lambda>a b. \<not> lf a b \<and> \<not> lf b a)"
    and "\<And>a b. \<not> lf a b \<Longrightarrow> \<not> lf b a \<Longrightarrow> hf a = hf b"
  shows "hash_wf h \<and> hset h = {}"
proof -
  have h: "h = \<lparr>h_elem_cnt = 0, h_bucket_cnt = 4, h_buckets = replicate 4 [], h_hash = hf, h_less = lf\<rparr>"
    using assms(1) by (simp add: hash_init_def hash_clear_def map_replicate_const split: if_splits)
  have "h_eq h = (\<lambda>a b. \<not> lf a b \<and> \<not> lf b a)" by (simp add: h h_eq_def fun_eq_iff)
  then have "hash_funs_ok h" using assms(2,3) by (simp add: hash_funs_ok_def h)
  then show ?thesis by (simp add: hash_wf_def buckets_ok_def hset_def h)
qed

section \<open>The contract of a set with one element per key\<close>

locale keyed_set =
  fixes wf :: "'t \<Rightarrow> bool"
    and room :: "'t \<Rightarrow> bool"
    and elems :: "'t \<Rightarrow> 'e set"
    and eqk :: "'t \<Rightarrow> 'e \<Rightarrow> 'e \<Rightarrow> bool"
    and find :: "'t \<Rightarrow> 'e \<Rightarrow> 'e option option"
    and ins :: "'t \<Rightarrow> 'e \<Rightarrow> ('e option \<times> 't) option"
    and del :: "'t \<Rightarrow> 'e \<Rightarrow> ('e option \<times> 't) option"
  assumes eqk_equiv: "wf t \<Longrightarrow> equivp (eqk t)"
    and one_per_key: "wf t \<Longrightarrow> a \<in> elems t \<Longrightarrow> b \<in> elems t \<Longrightarrow> eqk t a b \<Longrightarrow> a = b"
    and find_law: "wf t \<Longrightarrow> \<exists>r. find t e = Some r
      \<and> (case r of None \<Rightarrow> \<forall>x \<in> elems t. \<not> eqk t x e | Some x \<Rightarrow> x \<in> elems t \<and> eqk t x e)"
    and ins_law: "wf t \<Longrightarrow> room t \<Longrightarrow> \<exists>r t'. ins t e = Some (r, t') \<and> wf t' \<and> eqk t' = eqk t
      \<and> (case r of None \<Rightarrow> (\<forall>x \<in> elems t. \<not> eqk t x e) \<and> elems t' = insert e (elems t)
         | Some x \<Rightarrow> x \<in> elems t \<and> eqk t x e \<and> elems t' = elems t)"
    and del_law: "wf t \<Longrightarrow> \<exists>r t'. del t e = Some (r, t') \<and> wf t' \<and> eqk t' = eqk t
      \<and> (case r of None \<Rightarrow> (\<forall>x \<in> elems t. \<not> eqk t x e) \<and> t' = t
         | Some x \<Rightarrow> x \<in> elems t \<and> eqk t x e \<and> elems t' = elems t - {x})"
begin

lemma find_None_iff: "wf t \<Longrightarrow> find t e = Some None \<longleftrightarrow> (\<forall>x \<in> elems t. \<not> eqk t x e)"
proof -
  assume "wf t"
  from find_law [OF this, of e] obtain r where "find t e = Some r"
    "case r of None \<Rightarrow> \<forall>x \<in> elems t. \<not> eqk t x e | Some x \<Rightarrow> x \<in> elems t \<and> eqk t x e" by blast
  then show ?thesis by (cases r) auto
qed

lemma find_Some_iff: "wf t \<Longrightarrow> find t e = Some (Some x) \<longleftrightarrow> x \<in> elems t \<and> eqk t x e"
proof
  assume w: "wf t" and "x \<in> elems t \<and> eqk t x e"
  then have "find t e \<noteq> Some None" using find_None_iff [OF w] by auto
  moreover from find_law [OF w, of e] obtain r where "find t e = Some r"
    "case r of None \<Rightarrow> \<forall>x \<in> elems t. \<not> eqk t x e | Some x \<Rightarrow> x \<in> elems t \<and> eqk t x e" by blast
  ultimately obtain y where y: "find t e = Some (Some y)" "y \<in> elems t" "eqk t y e" by (cases r) auto
  moreover have "eqk t y x" using y \<open>x \<in> elems t \<and> eqk t x e\<close> eqk_equiv [OF w]
    by (meson equivp_symp equivp_transp)
  ultimately show "find t e = Some (Some x)" using one_per_key [OF w, of y x] \<open>x \<in> elems t \<and> eqk t x e\<close> by simp
next
  assume "wf t" "find t e = Some (Some x)"
  then show "x \<in> elems t \<and> eqk t x e" using find_law [of t e] by fastforce
qed

lemma find_cong:
  assumes "wf t" and "wf t'" and "eqk t' = eqk t"
    and same: "\<And>x. eqk t x k \<Longrightarrow> x \<in> elems t' \<longleftrightarrow> x \<in> elems t"
  shows "find t' k = find t k"
proof -
  from find_law [OF assms(1), of k] obtain r where r: "find t k = Some r" by blast
  show ?thesis
  proof (cases r)
    case None
    with r have "\<forall>x \<in> elems t. \<not> eqk t x k" using find_None_iff [OF assms(1)] by simp
    then have "\<forall>x \<in> elems t'. \<not> eqk t' x k" using same assms(3) by auto
    then show ?thesis using r None find_None_iff [OF assms(2)] by simp
  next
    case (Some x)
    with r have "x \<in> elems t \<and> eqk t x k" using find_Some_iff [OF assms(1)] by simp
    then have "x \<in> elems t' \<and> eqk t' x k" using same assms(3) by simp
    then show ?thesis using r Some find_Some_iff [OF assms(2)] by simp
  qed
qed

lemma find_after_insert:
  assumes "wf t" and "room t" and "find t e = Some None"
  shows "\<exists>t'. ins t e = Some (None, t') \<and> wf t' \<and> find t' e = Some (Some e)
    \<and> (\<forall>k. \<not> eqk t e k \<longrightarrow> find t' k = find t k)"
proof -
  have none: "\<forall>x \<in> elems t. \<not> eqk t x e" using assms find_None_iff by blast
  from ins_law [OF assms(1,2), of e] obtain r t' where r: "ins t e = Some (r, t')" "wf t'" "eqk t' = eqk t"
    and c: "case r of None \<Rightarrow> (\<forall>x \<in> elems t. \<not> eqk t x e) \<and> elems t' = insert e (elems t)
         | Some x \<Rightarrow> x \<in> elems t \<and> eqk t x e \<and> elems t' = elems t" by blast
  from none c have "r = None" by (cases r) auto
  with r c have t': "ins t e = Some (None, t')" "wf t'" "eqk t' = eqk t" "elems t' = insert e (elems t)"
    by simp_all
  have "eqk t e e" using eqk_equiv [OF assms(1)] by (simp add: equivp_reflp)
  with t' have "find t' e = Some (Some e)" by (simp add: find_Some_iff)
  moreover have "find t' k = find t k" if "\<not> eqk t e k" for k
    using find_cong [OF assms(1) t'(2,3), of k] that t'(4) by auto
  ultimately show ?thesis using t' by blast
qed

lemma find_after_delete:
  assumes "wf t" and "find t e = Some (Some x)"
  shows "\<exists>t'. del t e = Some (Some x, t') \<and> wf t' \<and> find t' e = Some None
    \<and> (\<forall>k. \<not> eqk t e k \<longrightarrow> find t' k = find t k)"
proof -
  from assms find_Some_iff have x: "x \<in> elems t" "eqk t x e" by auto
  from del_law [OF assms(1), of e] obtain r t' where r: "del t e = Some (r, t')" "wf t'" "eqk t' = eqk t"
    and c: "case r of None \<Rightarrow> (\<forall>x \<in> elems t. \<not> eqk t x e) \<and> t' = t
         | Some x \<Rightarrow> x \<in> elems t \<and> eqk t x e \<and> elems t' = elems t - {x}" by blast
  from x c obtain y where "r = Some y" by (cases r) auto
  with r c have t': "del t e = Some (Some y, t')" "wf t'" "eqk t' = eqk t"
    "elems t' = elems t - {y}" "y \<in> elems t" "eqk t y e" by simp_all
  have "find t e = Some (Some y)" using find_Some_iff [OF assms(1)] t'(5,6) by blast
  with assms(2) have y: "y = x" by simp
  have "\<forall>z \<in> elems t'. \<not> eqk t' z e"
  proof
    fix z assume z: "z \<in> elems t'"
    show "\<not> eqk t' z e"
    proof
      assume "eqk t' z e"
      then have "find t e = Some (Some z)" using z t'(3,4) find_Some_iff [OF assms(1), of e z] by simp
      with assms(2) y z t'(4) show False by simp
    qed
  qed
  then have "find t' e = Some None" using find_None_iff [OF t'(2)] by blast
  moreover have "find t' k = find t k" if "\<not> eqk t e k" for k
  proof (rule find_cong [OF assms(1) t'(2,3)])
    fix z assume z: "eqk t z k"
    have "z \<noteq> x" using that z x(2) eqk_equiv [OF assms(1)] by (meson equivp_symp equivp_transp)
    then show "z \<in> elems t' \<longleftrightarrow> z \<in> elems t" using t'(4) y by simp
  qed
  ultimately show ?thesis using t' y by blast
qed

end

definition hash_room :: "'e hash \<Rightarrow> bool" where
  "hash_room h \<longleftrightarrow> length (concat (h_buckets h)) + 1 < 2 ^ 32"

interpretation ht: keyed_set hash_wf hash_room hset h_eq hash_find "hash_insert mem" "hash_delete mem"
proof unfold_locales
  fix t :: "'e hash" and e
  assume wf: "hash_wf t"
  then show "equivp (h_eq t)" by (simp add: hash_wf_def hash_funs_ok_def)
  show "a = b" if "a \<in> hset t" "b \<in> hset t" "h_eq t a b" for a b
    using wf that by (auto simp: hash_wf_def)
  show "\<exists>r. hash_find t e = Some r
      \<and> (case r of None \<Rightarrow> \<forall>x \<in> hset t. \<not> h_eq t x e | Some x \<Rightarrow> x \<in> hset t \<and> h_eq t x e)"
    by (rule hash_find_ok [OF wf])
  show "\<exists>r t'. hash_insert mem t e = Some (r, t') \<and> hash_wf t' \<and> h_eq t' = h_eq t
      \<and> (case r of None \<Rightarrow> (\<forall>x \<in> hset t. \<not> h_eq t x e) \<and> hset t' = insert e (hset t)
         | Some x \<Rightarrow> x \<in> hset t \<and> h_eq t x e \<and> hset t' = hset t)" if "hash_room t"
    using that by (intro hash_insert_ok [OF wf]) (simp add: hash_room_def)
  show "\<exists>r t'. hash_delete mem t e = Some (r, t') \<and> hash_wf t' \<and> h_eq t' = h_eq t
      \<and> (case r of None \<Rightarrow> (\<forall>x \<in> hset t. \<not> h_eq t x e) \<and> t' = t
         | Some x \<Rightarrow> x \<in> hset t \<and> h_eq t x e \<and> hset t' = hset t - {x})"
    by (rule hash_delete_ok [OF wf])
qed

section \<open>Iteration\<close>

text \<open>The elements an iterator has still to visit.\<close>

definition it_left :: "'e hash \<Rightarrow> 'e hash_iterator \<Rightarrow> 'e list" where
  "it_left h i = it_rest i @ concat (drop (Suc (it_bucket i)) (h_buckets h))"

lemma hash_next_step:
  assumes "length (h_buckets h) = unat (h_bucket_cnt h)"
  shows "it_bucket i < unat (h_bucket_cnt h) \<Longrightarrow>
    \<exists>i'. hash_next h i = Some i' \<and> (case it_left h i of
        [] \<Rightarrow> it_elem i' = None
      | x # xs \<Rightarrow> it_elem i' = Some x \<and> it_left h i' = xs \<and> it_bucket i' < unat (h_bucket_cnt h))"
proof (induction "unat (h_bucket_cnt h) - it_bucket i" arbitrary: i)
  case 0
  then show ?case by simp
next
  case (Suc d)
  show ?case
  proof (cases "it_rest i")
    case (Cons x xs)
    with Suc.prems show ?thesis by (simp add: hash_next.simps [of h i] it_left_def)
  next
    case Nil
    show ?thesis
    proof (cases "Suc (it_bucket i) \<ge> unat (h_bucket_cnt h)")
      case True
      with Nil Suc.prems assms show ?thesis by (simp add: hash_next.simps [of h i] it_left_def)
    next
      case False
      let ?i = "i\<lparr>it_bucket := Suc (it_bucket i), it_rest := h_buckets h ! Suc (it_bucket i)\<rparr>"
      have "hash_next h i = hash_next h ?i"
        using Nil False Suc.prems assms by (simp add: hash_next.simps [of h i])
      moreover have "it_left h ?i = it_left h i"
        using Nil False assms Cons_nth_drop_Suc [of "Suc (it_bucket i)" "h_buckets h"]
        by (simp add: it_left_def) (metis concat.simps(2))
      moreover have "d = unat (h_bucket_cnt h) - it_bucket ?i" "it_bucket ?i < unat (h_bucket_cnt h)"
        using Suc.hyps(2) False by simp_all
      ultimately show ?thesis using Suc.hyps(1) [of ?i] by simp
    qed
  qed
qed

text \<open>The iteration idiom of the header: call \<open>hash_next\<close> until it returns null, at most \<open>n\<close> times.\<close>

fun hash_walk :: "'e hash \<Rightarrow> nat \<Rightarrow> 'e hash_iterator \<Rightarrow> 'e list option" where
  "hash_walk h 0 i = None"
| "hash_walk h (Suc n) i = do {
     i \<leftarrow> hash_next h i;
     case it_elem i of None \<Rightarrow> Some [] | Some x \<Rightarrow> map_option (Cons x) (hash_walk h n i) }"

lemma hash_walk_left:
  assumes "length (h_buckets h) = unat (h_bucket_cnt h)"
  shows "it_bucket i < unat (h_bucket_cnt h) \<Longrightarrow> length (it_left h i) < n \<Longrightarrow>
    hash_walk h n i = Some (it_left h i)"
proof (induction n arbitrary: i)
  case (Suc n)
  from hash_next_step [OF assms Suc.prems(1)] obtain i' where i': "hash_next h i = Some i'"
    and c: "case it_left h i of [] \<Rightarrow> it_elem i' = None
      | x # xs \<Rightarrow> it_elem i' = Some x \<and> it_left h i' = xs \<and> it_bucket i' < unat (h_bucket_cnt h)" by blast
  show ?case
  proof (cases "it_left h i")
    case Nil
    with c i' show ?thesis by simp
  next
    case (Cons x xs)
    with c Suc.prems(2) Suc.IH [of i'] i' show ?thesis by simp
  qed
qed simp

section \<open>Properties\<close>

text \<open>
  C25. Inserting an element whose key is absent succeeds whether or not memory for a resize is
  available: afterwards the element is found under its key and every other key is found as before.
\<close>

theorem hash_insert_lookup:
  assumes "hash_wf h" and "hash_room h" and "hash_find h e = Some None"
  shows "\<exists>h'. hash_insert mem h e = Some (None, h') \<and> hash_wf h' \<and> hash_find h' e = Some (Some e)
    \<and> (\<forall>k. \<not> h_eq h e k \<longrightarrow> hash_find h' k = hash_find h k)"
  using ht.find_after_insert [OF assms] .

definition nat_table :: "nat hash" where
  "nat_table = \<lparr>h_elem_cnt = 0, h_bucket_cnt = 4, h_buckets = replicate 4 [],
                h_hash = of_nat, h_less = (<)\<rparr>"

lemma nat_table_ok: "hash_wf nat_table" "hset nat_table = {}" "hash_room nat_table"
    "hash_find nat_table e = Some None"
proof -
  have i: "hash_init True of_nat (<) = Some nat_table"
    by (simp add: hash_init_def hash_clear_def nat_table_def map_replicate_const)
  have eq: "equivp (\<lambda>a b :: nat. \<not> a < b \<and> \<not> b < a)"
    by (rule equivpI) (auto intro!: reflpI sympI transpI)
  have wf: "hash_wf nat_table \<and> hset nat_table = {}"
    by (rule hash_init_ok [OF i eq]) (simp add: not_less)
  then show "hash_wf nat_table" "hset nat_table = {}" by simp_all
  show "hash_room nat_table" by (simp add: hash_room_def nat_table_def)
  show "hash_find nat_table e = Some None" using ht.find_None_iff [of nat_table e] wf by simp
qed

theorem hash_insert_lookup_witness:
  "\<exists>h'. hash_insert False nat_table 7 = Some (None, h') \<and> hash_find h' 7 = Some (Some 7)
     \<and> hash_find h' 3 = Some None"
proof -
  from hash_insert_lookup [OF nat_table_ok(1,3) nat_table_ok(4) [of 7], of False]
  obtain h' where "hash_insert False nat_table 7 = Some (None, h')" "hash_find h' 7 = Some (Some 7)"
    "\<forall>k. \<not> h_eq nat_table 7 k \<longrightarrow> hash_find h' k = hash_find nat_table k" by blast
  then show ?thesis using nat_table_ok(4) [of 3] by (auto simp: h_eq_def nat_table_def)
qed

text \<open>
  C27. Deleting a key that is present returns its element; afterwards the key is absent and every
  other key is found as before.  Deleting an absent key changes nothing.
\<close>

theorem hash_delete_lookup:
  assumes "hash_wf h"
  shows "(hash_find h e = Some (Some x) \<longrightarrow>
      (\<exists>h'. hash_delete mem h e = Some (Some x, h') \<and> hash_wf h' \<and> hash_find h' e = Some None
        \<and> (\<forall>k. \<not> h_eq h e k \<longrightarrow> hash_find h' k = hash_find h k)))
    \<and> (hash_find h e = Some None \<longrightarrow> hash_delete mem h e = Some (None, h))"
proof (intro conjI impI)
  assume "hash_find h e = Some (Some x)"
  then show "\<exists>h'. hash_delete mem h e = Some (Some x, h') \<and> hash_wf h' \<and> hash_find h' e = Some None
        \<and> (\<forall>k. \<not> h_eq h e k \<longrightarrow> hash_find h' k = hash_find h k)"
    by (rule ht.find_after_delete [OF assms])
next
  assume "hash_find h e = Some None"
  then show "hash_delete mem h e = Some (None, h)"
    by (auto simp: hash_find_def hash_delete_def split: option_bind_splits)
qed

theorem hash_delete_lookup_witness:
  "hash_wf nat_table \<and> hash_delete True nat_table 5 = Some (None, nat_table)"
  using hash_delete_lookup [OF nat_table_ok(1), of 5 0 True] nat_table_ok(1) nat_table_ok(4) [of 5] by simp

text \<open>
  Replacing puts the new element in the table in place of the element with the same key, if any,
  which is returned; the table stays well formed.
\<close>

theorem hash_replace_correct:
  assumes "hash_wf h" and "hash_room h"
  shows "\<exists>r h'. hash_replace mem h e = Some (r, h') \<and> hash_find h e = Some r \<and> hash_wf h'
    \<and> hash_find h' e = Some (Some e) \<and> hset h' = insert e (hset h - set_option r)"
proof -
  from hash_replace_ok [OF assms(1), of mem e] assms(2) obtain r h' where
    h': "hash_replace mem h e = Some (r, h')" "hash_wf h'" "h_eq h' = h_eq h"
    and c: "case r of None \<Rightarrow> (\<forall>x \<in> hset h. \<not> h_eq h x e) \<and> hset h' = insert e (hset h)
       | Some x \<Rightarrow> x \<in> hset h \<and> h_eq h x e \<and> hset h' = insert e (hset h - {x})"
    by (auto simp: hash_room_def)
  have "hash_find h e = Some r"
    using c ht.find_None_iff [OF assms(1)] ht.find_Some_iff [OF assms(1)] by (cases r) auto
  moreover have "hset h' = insert e (hset h - set_option r)" using c by (cases r) auto
  moreover have "h_eq h' e e" using h'(2) h_eq_refl by (auto simp: hash_wf_def)
  ultimately show ?thesis using h' ht.find_Some_iff [OF h'(2)] by auto
qed

theorem hash_replace_correct_witness:
  "\<exists>h'. hash_replace True nat_table 9 = Some (None, h') \<and> hset h' = {9}"
  using hash_replace_correct [OF nat_table_ok(1,3), of True 9] nat_table_ok(2) nat_table_ok(4) [of 9] by auto

text \<open>
  Walking the table with the iterator ends and visits every element exactly once.
\<close>

theorem hash_iteration_complete:
  assumes "hash_wf h" and "length (concat (h_buckets h)) < n"
  shows "\<exists>i es. hash_first h = Some i \<and> hash_walk h n i = Some es \<and> set es = hset h \<and> distinct es
    \<and> of_nat (length es) = hash_size h"
proof -
  have ok: "length (h_buckets h) = unat (h_bucket_cnt h)" "0 < unat (h_bucket_cnt h)"
    using assms(1) by (auto simp: hash_wf_def buckets_ok_def unat_gt_0)
  let ?i = "\<lparr>it_bucket = 0, it_rest = h_buckets h ! 0, it_elem = None\<rparr>"
  have left: "it_left h ?i = concat (h_buckets h)"
    using ok Cons_nth_drop_Suc [of 0 "h_buckets h"] by (simp add: it_left_def) (metis concat.simps(2))
  have "hash_walk h n ?i = Some (concat (h_buckets h))"
    using hash_walk_left [OF ok(1), of ?i n] ok(2) left assms(2) by simp
  moreover have "hash_first h = Some ?i" using ok by (simp add: hash_first_def)
  ultimately show ?thesis using assms(1) by (simp add: hash_wf_def hset_def hash_size_def)
qed

theorem hash_iteration_complete_witness:
  "\<exists>i. hash_first nat_table = Some i \<and> hash_walk nat_table 1 i = Some []"
  using hash_iteration_complete [OF nat_table_ok(1), of 1] nat_table_ok(2)
  by (auto simp: nat_table_def)

end
