(* ===== verification/Disk.thy ===== *)
theory Disk
  imports Prelude
begin

text \<open>
  \<^verbatim>\<open>devices/disk.c\<close>: reading and writing sectors of an ATA disk.  The medium is a function from sector
  numbers to sector contents; the driver selects a sector by writing its number to the registers of
  the device, and the device transfers the sector that its registers address (28-bit LBA mode).  The
  controller is taken to answer: the time-outs and the interrupt handshake are not modelled.

  The locale \<open>block_store\<close> is the contract of a store of 512-byte sectors; it is interpreted on the raw
  disk here and on the buffer cache in \<open>Cache\<close>.
\<close>

section \<open>Disks\<close>

type_synonym disk_sector_t = u32

definition DISK_SECTOR_SIZE :: nat where
  "DISK_SECTOR_SIZE = 512"

record disk =
  dev_no :: nat
  is_ata :: bool
  capacity :: disk_sector_t
  read_cnt :: int
  write_cnt :: int
  medium :: "disk_sector_t \<Rightarrow> byte list"

text \<open>\<^verbatim>\<open>disk_get\<close> on the table of channels, each with two devices; \<open>None\<close> inside is a null pointer.\<close>

definition CHANNEL_CNT :: int where
  "CHANNEL_CNT = 2"

definition disk_get :: "disk list list \<Rightarrow> int \<Rightarrow> int \<Rightarrow> disk option option" where
  "disk_get channels chan_no dev = do {
     kassert (dev = 0 \<or> dev = 1);
     if chan_no < CHANNEL_CNT then do {
       devs \<leftarrow> arr_get channels (nat chan_no);
       d \<leftarrow> arr_get devs (nat dev);
       Some (if is_ata d then Some d else None) }
     else Some None }"

definition disk_size :: "disk \<Rightarrow> disk_sector_t" where
  "disk_size d = capacity d"

section \<open>Selecting a sector\<close>

definition DEV_MBS :: byte where "DEV_MBS = 0xa0"
definition DEV_LBA :: byte where "DEV_LBA = 0x40"
definition DEV_DEV :: byte where "DEV_DEV = 0x10"

record ata_regs =
  r_nsect :: byte
  r_lbal :: byte
  r_lbam :: byte
  r_lbah :: byte
  r_device :: byte

definition select_sector :: "disk \<Rightarrow> disk_sector_t \<Rightarrow> ata_regs option" where
  "select_sector d sec_no = do {
     kassert (sec_no < capacity d);
     kassert (sec_no < push_bit 28 1);
     Some \<lparr>r_nsect = 1, r_lbal = ucast sec_no, r_lbam = ucast (drop_bit 8 sec_no),
           r_lbah = ucast (drop_bit 16 sec_no),
           r_device = DEV_MBS OR DEV_LBA OR (if dev_no d = 1 then DEV_DEV else 0) OR ucast (drop_bit 24 sec_no)\<rparr> }"

text \<open>The sector and the device that the registers address.\<close>

definition LBA_27_24 :: byte where "LBA_27_24 = 0x0f"

definition ata_lba :: "ata_regs \<Rightarrow> disk_sector_t" where
  "ata_lba r = ucast (r_lbal r) OR push_bit 8 (ucast (r_lbam r)) OR push_bit 16 (ucast (r_lbah r))
     OR push_bit 24 (ucast (r_device r AND LBA_27_24))"

definition ata_slave :: "ata_regs \<Rightarrow> bool" where
  "ata_slave r \<longleftrightarrow> bit (r_device r) 4"

definition disk_read :: "disk \<Rightarrow> disk_sector_t \<Rightarrow> (byte list \<times> disk) option" where
  "disk_read d sec_no = do {
     r \<leftarrow> select_sector d sec_no;
     Some (medium d (ata_lba r), d\<lparr>read_cnt := read_cnt d + 1\<rparr>) }"

definition disk_write :: "disk \<Rightarrow> disk_sector_t \<Rightarrow> byte list \<Rightarrow> disk option" where
  "disk_write d sec_no buffer = do {
     r \<leftarrow> select_sector d sec_no;
     kassert (length buffer = DISK_SECTOR_SIZE);
     Some (d\<lparr>medium := (medium d)(ata_lba r := buffer), write_cnt := write_cnt d + 1\<rparr>) }"

text \<open>The capacity reported by IDENTIFY DEVICE: words 60 and 61 of the response.\<close>

definition identify_capacity :: "u16 list \<Rightarrow> disk_sector_t option" where
  "identify_capacity ident = do {
     lo \<leftarrow> arr_get ident 60;
     hi \<leftarrow> arr_get ident 61;
     Some (ucast lo OR push_bit 16 (ucast hi)) }"

section \<open>The registers address the sector asked for\<close>

lemma bit_sector_high:
  assumes "s < (push_bit 28 1 :: u32)" and "28 \<le> n"
  shows "\<not> bit s n"
proof -
  have "unat s < 2 ^ 28" using assms(1) by (simp add: word_less_nat_alt)
  also have "(2 :: nat) ^ 28 \<le> 2 ^ n" using assms(2) by (rule power_increasing) simp
  finally have "unat s < 2 ^ n" .
  then have "\<not> bit (unat s) n" by (simp add: bit_iff_odd)
  then show ?thesis by (simp add: bit_unsigned_iff)
qed

lemma bit_LBA_27_24: "bit LBA_27_24 n \<longleftrightarrow> n < 4"
proof -
  have e: "LBA_27_24 = mask 4" by (simp add: LBA_27_24_def mask_eq_exp_minus_1)
  show ?thesis unfolding e bit_mask_iff by auto
qed

lemma bit_dev_consts_low:
  "n < 4 \<Longrightarrow> \<not> bit DEV_MBS n" "n < 4 \<Longrightarrow> \<not> bit DEV_LBA n" "n < 4 \<Longrightarrow> \<not> bit DEV_DEV n"
proof -
  have e: "DEV_MBS = push_bit 4 10" "DEV_LBA = push_bit 4 4" "DEV_DEV = push_bit 4 1"
    by (simp_all add: DEV_MBS_def DEV_LBA_def DEV_DEV_def)
  show "n < 4 \<Longrightarrow> \<not> bit DEV_MBS n" unfolding e bit_push_bit_iff by simp
  show "n < 4 \<Longrightarrow> \<not> bit DEV_LBA n" unfolding e bit_push_bit_iff by simp
  show "n < 4 \<Longrightarrow> \<not> bit DEV_DEV n" unfolding e bit_push_bit_iff by simp
qed

lemma ata_lba_select:
  assumes "select_sector d s = Some r"
  shows "ata_lba r = s"
proof -
  have s: "s < push_bit 28 1" using assms by (auto simp: select_sector_def split: if_splits)
  have r: "r_lbal r = ucast s" "r_lbam r = ucast (drop_bit 8 s)" "r_lbah r = ucast (drop_bit 16 s)"
    "r_device r = DEV_MBS OR DEV_LBA OR (if dev_no d = 1 then DEV_DEV else 0) OR ucast (drop_bit 24 s)"
    using assms by (auto simp: select_sector_def split: if_splits)
  show ?thesis
  proof (rule bit_word_eqI)
    fix n :: nat
    assume n: "n < LENGTH(32)"
    have low: "bit (r_device r AND LBA_27_24) m \<longleftrightarrow> m < 4 \<and> bit s (24 + m)" for m
      by (auto simp: r(4) bit_and_iff bit_or_iff bit_LBA_27_24 bit_dev_consts_low bit_ucast_iff bit_drop_bit_eq)
    have b: "bit (ata_lba r) n \<longleftrightarrow> n < 8 \<and> bit s n \<or> 8 \<le> n \<and> n - 8 < 8 \<and> bit s n
        \<or> 16 \<le> n \<and> n - 16 < 8 \<and> bit s n \<or> 24 \<le> n \<and> n - 24 < 4 \<and> bit s n"
      using n by (auto simp: ata_lba_def r(1-3) low bit_or_iff bit_push_bit_iff bit_ucast_iff bit_drop_bit_eq)
    show "bit (ata_lba r) n \<longleftrightarrow> bit s n"
      using bit_sector_high [OF s, of n] unfolding b by (cases "n < 28") auto
  qed
qed

lemma select_sector_eq_Some:
  "select_sector d s = Some r \<Longrightarrow> s < capacity d \<and> s < push_bit 28 1"
  by (auto simp: select_sector_def split: if_splits)

text \<open>A sector number that the driver accepts.\<close>

definition valid_sector :: "disk \<Rightarrow> disk_sector_t \<Rightarrow> bool" where
  "valid_sector d s \<longleftrightarrow> s < capacity d \<and> s < push_bit 28 1"

lemma disk_read_valid:
  assumes "valid_sector d s"
  shows "disk_read d s = Some (medium d s, d\<lparr>read_cnt := read_cnt d + 1\<rparr>)"
proof -
  from assms obtain r where r: "select_sector d s = Some r"
    by (simp add: select_sector_def valid_sector_def)
  then show ?thesis using ata_lba_select [OF r] by (simp add: disk_read_def)
qed

lemma disk_write_valid:
  assumes "valid_sector d s" and "length buf = DISK_SECTOR_SIZE"
  shows "disk_write d s buf = Some (d\<lparr>medium := (medium d)(s := buf), write_cnt := write_cnt d + 1\<rparr>)"
proof -
  from assms obtain r where r: "select_sector d s = Some r"
    by (simp add: select_sector_def valid_sector_def)
  then show ?thesis using ata_lba_select [OF r] assms(2) by (simp add: disk_write_def)
qed

lemma disk_read_invalid: "\<not> valid_sector d s \<Longrightarrow> disk_read d s = None"
  by (auto simp: disk_read_def select_sector_def valid_sector_def)

lemma disk_write_invalid: "\<not> valid_sector d s \<Longrightarrow> disk_write d s buf = None"
  by (auto simp: disk_write_def select_sector_def valid_sector_def)

lemma valid_sector_update [simp]:
  "valid_sector (d\<lparr>medium := m\<rparr>) s = valid_sector d s"
  "valid_sector (d\<lparr>read_cnt := n\<rparr>) s = valid_sector d s"
  "valid_sector (d\<lparr>write_cnt := n\<rparr>) s = valid_sector d s"
  by (simp_all add: valid_sector_def)

section \<open>The contract of a store of sectors\<close>

datatype sector_op = Read_Op disk_sector_t | Write_Op disk_sector_t "byte list"

text \<open>Running a sequence of operations: the data the reads return, and the final state.\<close>

fun run_ops :: "('s \<Rightarrow> disk_sector_t \<Rightarrow> (byte list \<times> 's) option) \<Rightarrow>
    ('s \<Rightarrow> disk_sector_t \<Rightarrow> byte list \<Rightarrow> 's option) \<Rightarrow> sector_op list \<Rightarrow> 's \<Rightarrow> (byte list list \<times> 's) option" where
  "run_ops rd wr [] st = Some ([], st)"
| "run_ops rd wr (Read_Op s # ops) st = do {
     (b, st) \<leftarrow> rd st s;
     (bs, st) \<leftarrow> run_ops rd wr ops st;
     Some (b # bs, st) }"
| "run_ops rd wr (Write_Op s b # ops) st = do { st \<leftarrow> wr st s b; run_ops rd wr ops st }"

text \<open>The same sequence on an ideal store, a function from sectors to contents.\<close>

fun ideal_ops :: "sector_op list \<Rightarrow> (disk_sector_t \<Rightarrow> byte list) \<Rightarrow> byte list list \<times> (disk_sector_t \<Rightarrow> byte list)" where
  "ideal_ops [] m = ([], m)"
| "ideal_ops (Read_Op s # ops) m = (let (bs, m') = ideal_ops ops m in (m s # bs, m'))"
| "ideal_ops (Write_Op s b # ops) m = ideal_ops ops (m(s := b))"

fun op_ok :: "(disk_sector_t \<Rightarrow> bool) \<Rightarrow> sector_op \<Rightarrow> bool" where
  "op_ok v (Read_Op s) = v s"
| "op_ok v (Write_Op s b) = (v s \<and> length b = DISK_SECTOR_SIZE)"

locale block_store =
  fixes inv :: "'s \<Rightarrow> bool"
    and valid :: "'s \<Rightarrow> disk_sector_t \<Rightarrow> bool"
    and content :: "'s \<Rightarrow> disk_sector_t \<Rightarrow> byte list"
    and rd :: "'s \<Rightarrow> disk_sector_t \<Rightarrow> (byte list \<times> 's) option"
    and wr :: "'s \<Rightarrow> disk_sector_t \<Rightarrow> byte list \<Rightarrow> 's option"
  assumes content_length: "inv st \<Longrightarrow> valid st s \<Longrightarrow> length (content st s) = DISK_SECTOR_SIZE"
    and rd_law: "inv st \<Longrightarrow> valid st s \<Longrightarrow>
      \<exists>st'. rd st s = Some (content st s, st') \<and> inv st' \<and> valid st' = valid st \<and> content st' = content st"
    and wr_law: "inv st \<Longrightarrow> valid st s \<Longrightarrow> length b = DISK_SECTOR_SIZE \<Longrightarrow>
      \<exists>st'. wr st s b = Some st' \<and> inv st' \<and> valid st' = valid st \<and> content st' = (content st)(s := b)"
    and rd_invalid: "inv st \<Longrightarrow> \<not> valid st s \<Longrightarrow> rd st s = None"
    and wr_invalid: "inv st \<Longrightarrow> \<not> valid st s \<Longrightarrow> wr st s b = None"
begin

text \<open>Any sequence of operations behaves as on the ideal store.\<close>

lemma run_ops_ideal:
  "inv st \<Longrightarrow> list_all (op_ok (valid st)) ops \<Longrightarrow>
   \<exists>st'. run_ops rd wr ops st = Some (fst (ideal_ops ops (content st)), st') \<and> inv st'
     \<and> valid st' = valid st \<and> content st' = snd (ideal_ops ops (content st))"
proof (induction ops arbitrary: st)
  case (Cons op ops)
  show ?case
  proof (cases op)
    case (Read_Op s)
    with Cons.prems rd_law [of st s] obtain st1 where "rd st s = Some (content st s, st1)" "inv st1"
      "valid st1 = valid st" "content st1 = content st" by auto
    with Cons.IH [of st1] Cons.prems(2) Read_Op show ?thesis by (auto simp: split_beta)
  next
    case (Write_Op s b)
    with Cons.prems wr_law [of st s b] obtain st1 where st1: "wr st s b = Some st1" "inv st1"
      "valid st1 = valid st" and c: "content st1 = (content st)(s := b)" by auto
    from Cons.IH [of st1] Cons.prems(2) st1
    have "\<exists>st'. run_ops rd wr ops st1 = Some (fst (ideal_ops ops (content st1)), st') \<and> inv st'
      \<and> valid st' = valid st \<and> content st' = snd (ideal_ops ops (content st1))" by simp
    with st1 Write_Op show ?thesis unfolding c by simp
  qed
qed simp

end

definition disk_inv :: "disk \<Rightarrow> bool" where
  "disk_inv d \<longleftrightarrow> (\<forall>s. valid_sector d s \<longrightarrow> length (medium d s) = DISK_SECTOR_SIZE)"

interpretation raw: block_store disk_inv valid_sector medium disk_read disk_write
proof unfold_locales
  fix st s b
  assume inv: "disk_inv st"
  show "length (medium st s) = DISK_SECTOR_SIZE" if "valid_sector st s"
    using inv that by (simp add: disk_inv_def)
  show "\<exists>st'. disk_read st s = Some (medium st s, st') \<and> disk_inv st'
      \<and> valid_sector st' = valid_sector st \<and> medium st' = medium st" if "valid_sector st s"
    using inv that by (auto simp: disk_read_valid disk_inv_def fun_eq_iff)
  show "\<exists>st'. disk_write st s b = Some st' \<and> disk_inv st'
      \<and> valid_sector st' = valid_sector st \<and> medium st' = (medium st)(s := b)"
    if "valid_sector st s" "length b = DISK_SECTOR_SIZE"
    using inv that by (auto simp: disk_write_valid disk_inv_def fun_eq_iff)
  show "disk_read st s = None" if "\<not> valid_sector st s" using that by (rule disk_read_invalid)
  show "disk_write st s b = None" if "\<not> valid_sector st s" using that by (rule disk_write_invalid)
qed

section \<open>Properties\<close>

text \<open>
  Selecting a sector writes registers that address exactly that sector and that device; a sector
  outside the disk or above the 28-bit limit stops the kernel.
\<close>

theorem select_sector_addresses:
  "case select_sector d s of
     Some r \<Rightarrow> ata_lba r = s \<and> (ata_slave r \<longleftrightarrow> dev_no d = 1)
   | None \<Rightarrow> s \<ge> capacity d \<or> s \<ge> push_bit 28 1"
proof (cases "select_sector d s")
  case None
  then show ?thesis by (auto simp: select_sector_def not_less split: if_splits)
next
  case (Some r)
  have s: "s < push_bit 28 1" using select_sector_eq_Some [OF Some] by simp
  have "r_device r = DEV_MBS OR DEV_LBA OR (if dev_no d = 1 then DEV_DEV else 0) OR ucast (drop_bit 24 s)"
    using Some by (auto simp: select_sector_def split: if_splits)
  moreover have "\<not> bit DEV_MBS 4" "\<not> bit DEV_LBA 4" "bit DEV_DEV 4"
    by (simp_all add: DEV_MBS_def DEV_LBA_def DEV_DEV_def bit_iff_odd)
  moreover have "\<not> bit s 28" by (rule bit_sector_high [OF s]) simp
  ultimately have "ata_slave r \<longleftrightarrow> dev_no d = 1"
    by (simp add: ata_slave_def bit_or_iff bit_ucast_iff bit_drop_bit_eq)
  with Some ata_lba_select [OF Some] show ?thesis by simp
qed

end
