(* ===== verification/Cache.thy ===== *)
theory Cache
  imports Disk
begin

text \<open>
  \<^verbatim>\<open>filesys/cache.c\<close>: the write-back buffer cache of 64 sectors in front of the file-system disk.
  The state has the array of entries, the binary semaphore that every operation takes (a blocked
  \<^verbatim>\<open>sema_down\<close> of the only running thread is a deadlock, \<open>None\<close>), the disk, the globals of the
  read-ahead, the tick count and the name of the running thread, both of which the code reads.

  \<open>view\<close> is what the cache and the disk together store; every operation is shown to act on it as on a
  plain store of sectors, which is an interpretation of \<open>block_store\<close>.
\<close>

section \<open>The state\<close>

record BCE =
  bce_dirty :: bool
  bce_used :: bool
  bce_sec :: disk_sector_t
  bce_buf :: "byte list"
  bce_time :: int

record cache_state =
  buffer_cache :: "BCE list"
  cache_sema :: nat
  fs_disk :: disk
  read_ahead_buffer :: "byte list"
  read_ahead_sec :: disk_sector_t
  read_ahead_flag :: int
  now_ticks :: int
  client :: string

definition CACHE_SIZE :: nat where
  "CACHE_SIZE = 64"

text \<open>The two semaphore operations, for a single running thread.\<close>

definition cache_down :: "cache_state \<Rightarrow> cache_state option" where
  "cache_down st = (if cache_sema st = 0 then None else Some (st\<lparr>cache_sema := cache_sema st - 1\<rparr>))"

definition cache_up :: "cache_state \<Rightarrow> cache_state" where
  "cache_up st = st\<lparr>cache_sema := cache_sema st + 1\<rparr>"

definition upd_entry :: "nat \<Rightarrow> (BCE \<Rightarrow> BCE) \<Rightarrow> cache_state \<Rightarrow> cache_state option" where
  "upd_entry i f st = do {
     e \<leftarrow> arr_get (buffer_cache st) i;
     bc \<leftarrow> arr_set (buffer_cache st) i (f e);
     Some (st\<lparr>buffer_cache := bc\<rparr>) }"

section \<open>Operations\<close>

definition buffer_cache_init :: "cache_state \<Rightarrow> cache_state option" where
  "buffer_cache_init st = do {
     let st = st\<lparr>cache_sema := 1\<rparr>;
     st \<leftarrow> cache_down st;
     let st = st\<lparr>read_ahead_buffer := replicate DISK_SECTOR_SIZE 0\<rparr>;
     st \<leftarrow> for_loop 0 CACHE_SIZE
       (\<lambda>i st. upd_entry i (\<lambda>e. e\<lparr>bce_used := False, bce_dirty := False, bce_time := 0\<rparr>) st) st;
     Some (cache_up st) }"

definition buffer_cache_flush :: "nat \<Rightarrow> cache_state \<Rightarrow> cache_state option" where
  "buffer_cache_flush index st = do {
     kassert (index \<le> 63);
     e \<leftarrow> arr_get (buffer_cache st) index;
     kassert (bce_used e);
     if bce_dirty e then do {
       d \<leftarrow> disk_write (fs_disk st) (bce_sec e) (bce_buf e);
       upd_entry index (\<lambda>e. e\<lparr>bce_dirty := False\<rparr>) (st\<lparr>fs_disk := d\<rparr>) }
     else Some st }"

definition buffer_cache_lru_eviction :: "cache_state \<Rightarrow> (nat \<times> cache_state) option" where
  "buffer_cache_lru_eviction st = do {
     r \<leftarrow> find_loop 0 CACHE_SIZE (\<lambda>i. do { e \<leftarrow> arr_get (buffer_cache st) i; Some (\<not> bce_used e) });
     case r of
       Some i \<Rightarrow> Some (i, st)
     | None \<Rightarrow> do {
         lru \<leftarrow> for_loop 0 CACHE_SIZE
           (\<lambda>i lru. do {
              a \<leftarrow> arr_get (buffer_cache st) lru;
              b \<leftarrow> arr_get (buffer_cache st) i;
              Some (if bce_time a > bce_time b then i else lru) }) 0;
         e \<leftarrow> arr_get (buffer_cache st) lru;
         st \<leftarrow> (if bce_dirty e then buffer_cache_flush lru st else Some st);
         Some (lru, st) } }"

definition buffer_cache_flush_all :: "cache_state \<Rightarrow> cache_state option" where
  "buffer_cache_flush_all st = do {
     st \<leftarrow> cache_down st;
     st \<leftarrow> for_loop 0 CACHE_SIZE
       (\<lambda>i st. do {
          e \<leftarrow> arr_get (buffer_cache st) i;
          if bce_dirty e then buffer_cache_flush i st else Some st }) st;
     Some (cache_up st) }"

text \<open>The index of the entry of a sector; \<open>None\<close> inside is the result -1.\<close>

definition buffer_cache_find :: "disk_sector_t \<Rightarrow> cache_state \<Rightarrow> nat option option" where
  "buffer_cache_find sector st =
     find_loop 0 CACHE_SIZE
       (\<lambda>i. do { e \<leftarrow> arr_get (buffer_cache st) i; Some (bce_sec e = sector \<and> bce_used e) })"

text \<open>The lines that \<^verbatim>\<open>buffer_cache_write\<close> and \<^verbatim>\<open>buffer_cache_read\<close> share: find or load the sector.\<close>

definition buffer_cache_get :: "disk_sector_t \<Rightarrow> cache_state \<Rightarrow> (nat \<times> cache_state) option" where
  "buffer_cache_get sector st = do {
     r \<leftarrow> buffer_cache_find sector st;
     case r of
       Some i \<Rightarrow> Some (i, st)
     | None \<Rightarrow> do {
         (evict_idx, st) \<leftarrow> buffer_cache_lru_eviction st;
         st \<leftarrow> upd_entry evict_idx (\<lambda>e. e\<lparr>bce_used := True, bce_dirty := False, bce_sec := sector\<rparr>) st;
         (b, d) \<leftarrow> disk_read (fs_disk st) sector;
         st \<leftarrow> upd_entry evict_idx (\<lambda>e. e\<lparr>bce_buf := b\<rparr>) (st\<lparr>fs_disk := d\<rparr>);
         Some (evict_idx, st) } }"

definition buffer_cache_write :: "cache_state \<Rightarrow> disk_sector_t \<Rightarrow> byte list \<Rightarrow> cache_state option" where
  "buffer_cache_write st sector buf = do {
     st \<leftarrow> cache_down st;
     (idx, st) \<leftarrow> buffer_cache_get sector st;
     st \<leftarrow> upd_entry idx (\<lambda>e. e\<lparr>bce_dirty := True, bce_time := now_ticks st\<rparr>) st;
     kassert (DISK_SECTOR_SIZE \<le> length buf);
     st \<leftarrow> upd_entry idx (\<lambda>e. e\<lparr>bce_buf := take DISK_SECTOR_SIZE buf\<rparr>) st;
     Some (cache_up st) }"

definition read_ahead :: "disk_sector_t \<Rightarrow> cache_state \<Rightarrow> cache_state option" where
  "read_ahead sector st = do {
     let st = st\<lparr>read_ahead_sec := sector + 1\<rparr>;
     (b, d) \<leftarrow> disk_read (fs_disk st) sector;
     Some (st\<lparr>fs_disk := d, read_ahead_buffer := b, read_ahead_flag := 2\<rparr>) }"

definition buffer_cache_read :: "cache_state \<Rightarrow> disk_sector_t \<Rightarrow> (byte list \<times> cache_state) option" where
  "buffer_cache_read st sector = do {
     st \<leftarrow> cache_down st;
     (idx, st) \<leftarrow> buffer_cache_get sector st;
     e \<leftarrow> arr_get (buffer_cache st) idx;
     let buf = bce_buf e;
     let st = cache_up st;
     st \<leftarrow> (if client st \<noteq> ''child-qsort'' then read_ahead sector st else Some st);
     Some (buf, st) }"

text \<open>
  The read-ahead thread.  Its inner loop tests \<^verbatim>\<open>read_ahead_flag = 1\<close>, an assignment: the test sets
  the flag and its value is the value assigned.  \<open>read_ahead_install\<close> is the part after the inner loop.
\<close>

definition read_ahead_test :: "cache_state \<Rightarrow> bool \<times> cache_state" where
  "read_ahead_test st = (let v = 1 in (v \<noteq> (0 :: int), st\<lparr>read_ahead_flag := v\<rparr>))"

definition read_ahead_install :: "cache_state \<Rightarrow> cache_state option" where
  "read_ahead_install st = do {
     let sector = read_ahead_sec st;
     r \<leftarrow> buffer_cache_find sector st;
     st \<leftarrow> (case r of
         Some _ \<Rightarrow> Some st
       | None \<Rightarrow> do {
           (i, st) \<leftarrow> buffer_cache_lru_eviction st;
           upd_entry i (\<lambda>e. e\<lparr>bce_used := True, bce_dirty := False, bce_sec := sector,
                             bce_buf := read_ahead_buffer st\<rparr>) st });
     Some (st\<lparr>read_ahead_flag := 1\<rparr>) }"

text \<open>
  \<open>read_ahead_func n st\<close>: the state after the thread has evaluated its loop test \<open>n\<close> times; other
  threads run when it yields, which \<open>others\<close> stands for.
\<close>

fun read_ahead_func :: "(nat \<Rightarrow> cache_state \<Rightarrow> cache_state) \<Rightarrow> nat \<Rightarrow> cache_state \<Rightarrow> cache_state option" where
  "read_ahead_func others 0 st = Some st"
| "read_ahead_func others (Suc n) st =
     (let (go_on, st) = read_ahead_test st in
      if go_on then read_ahead_func others n (others n st)
      else do { st \<leftarrow> read_ahead_install st; read_ahead_func others n st })"

text \<open>One round of the flushing thread; \<open>n\<close> rounds, with the other threads running in between.\<close>

fun periodic_flush_all :: "(nat \<Rightarrow> cache_state \<Rightarrow> cache_state) \<Rightarrow> nat \<Rightarrow> cache_state \<Rightarrow> cache_state option" where
  "periodic_flush_all others 0 st = Some st"
| "periodic_flush_all others (Suc n) st = do {
     st \<leftarrow> buffer_cache_flush_all st;
     periodic_flush_all others n (others n st) }"

section \<open>What the cache stores\<close>

definition holds_sector :: "disk_sector_t \<Rightarrow> BCE \<Rightarrow> bool" where
  "holds_sector s e \<longleftrightarrow> bce_used e \<and> bce_sec e = s"

definition view :: "cache_state \<Rightarrow> disk_sector_t \<Rightarrow> byte list" where
  "view st s = (case List.find (holds_sector s) (buffer_cache st) of
     Some e \<Rightarrow> bce_buf e | None \<Rightarrow> medium (fs_disk st) s)"

text \<open>
  The invariant: no sector has two entries, a clean entry agrees with the disk, only used entries are
  dirty, every entry in use is for a sector of the disk.
\<close>

definition entry_ok :: "disk \<Rightarrow> BCE \<Rightarrow> bool" where
  "entry_ok d e \<longleftrightarrow> length (bce_buf e) = DISK_SECTOR_SIZE \<and> (bce_dirty e \<longrightarrow> bce_used e)
     \<and> (bce_used e \<longrightarrow> valid_sector d (bce_sec e))
     \<and> (bce_used e \<and> \<not> bce_dirty e \<longrightarrow> bce_buf e = medium d (bce_sec e))"

definition no_double :: "BCE list \<Rightarrow> bool" where
  "no_double bc \<longleftrightarrow> (\<forall>i < length bc. \<forall>j < length bc.
     bce_used (bc ! i) \<and> bce_used (bc ! j) \<and> bce_sec (bc ! i) = bce_sec (bc ! j) \<longrightarrow> i = j)"

definition cache_ok :: "cache_state \<Rightarrow> bool" where
  "cache_ok st \<longleftrightarrow> length (buffer_cache st) = CACHE_SIZE \<and> (\<forall>i < CACHE_SIZE. entry_ok (fs_disk st) (buffer_cache st ! i))
     \<and> no_double (buffer_cache st) \<and> disk_inv (fs_disk st)"

definition cache_inv :: "cache_state \<Rightarrow> bool" where
  "cache_inv st \<longleftrightarrow> cache_ok st \<and> cache_sema st = 1"

definition cache_valid :: "cache_state \<Rightarrow> disk_sector_t \<Rightarrow> bool" where
  "cache_valid st = valid_sector (fs_disk st)"

lemma view_hit:
  assumes "no_double (buffer_cache st)" and "i < length (buffer_cache st)"
    and "holds_sector s (buffer_cache st ! i)"
  shows "view st s = bce_buf (buffer_cache st ! i)"
proof -
  have "List.find (holds_sector s) (buffer_cache st) \<noteq> None"
    using assms(2,3) nth_mem [of i "buffer_cache st"] by (auto simp: find_None_iff simp del: nth_mem)
  then obtain e where e: "List.find (holds_sector s) (buffer_cache st) = Some e" by auto
  then obtain j where "j < length (buffer_cache st)" "holds_sector s (buffer_cache st ! j)" "e = buffer_cache st ! j"
    by (auto simp: find_Some_iff)
  with assms have "e = buffer_cache st ! i" by (auto simp: no_double_def holds_sector_def)
  with e show ?thesis by (simp add: view_def)
qed

lemma view_miss:
  assumes "\<And>i. i < length (buffer_cache st) \<Longrightarrow> \<not> holds_sector s (buffer_cache st ! i)"
  shows "view st s = medium (fs_disk st) s"
proof -
  have "List.find (holds_sector s) (buffer_cache st) = None"
    using assms by (auto simp: find_None_iff in_set_conv_nth)
  then show ?thesis by (simp add: view_def)
qed

lemma view_cases [consumes 1, case_names hit miss]:
  assumes "no_double (buffer_cache st)"
  obtains (hit) i where "i < length (buffer_cache st)" "holds_sector s (buffer_cache st ! i)"
      "view st s = bce_buf (buffer_cache st ! i)"
  | (miss) "\<And>i. i < length (buffer_cache st) \<Longrightarrow> \<not> holds_sector s (buffer_cache st ! i)"
      "view st s = medium (fs_disk st) s"
  using view_hit [OF assms] view_miss by blast

lemma no_doubleD:
  "no_double bc \<Longrightarrow> i < length bc \<Longrightarrow> j < length bc \<Longrightarrow> bce_used (bc ! i) \<Longrightarrow> bce_used (bc ! j) \<Longrightarrow>
   bce_sec (bc ! i) = bce_sec (bc ! j) \<Longrightarrow> i = j"
  by (simp add: no_double_def)

lemma no_double_update:
  assumes "no_double bc" and "i < length bc"
    and other: "\<And>j. j < length bc \<Longrightarrow> j \<noteq> i \<Longrightarrow> \<not> holds_sector (bce_sec e) (bc ! j)"
  shows "no_double (bc[i := e])"
  unfolding no_double_def
proof (intro allI impI)
  fix a b
  assume ab: "a < length (bc[i := e])" "b < length (bc[i := e])"
    and c: "bce_used (bc[i := e] ! a) \<and> bce_used (bc[i := e] ! b) \<and> bce_sec (bc[i := e] ! a) = bce_sec (bc[i := e] ! b)"
  show "a = b"
  proof (cases "a = i \<or> b = i")
    case True
    then show ?thesis using ab c other [of a] other [of b] assms(2)
      by (cases "a = i"; cases "b = i") (auto simp: holds_sector_def)
  next
    case False
    then show ?thesis using ab c no_doubleD [OF assms(1), of a b] by simp
  qed
qed

text \<open>Replacing a clean entry by an entry for \<open>s\<close>, which no other entry holds.\<close>

lemma replace_entry:
  assumes ok: "cache_ok st" and i: "i < CACHE_SIZE" and clean: "\<not> bce_dirty (buffer_cache st ! i)"
    and other: "\<And>j. j < CACHE_SIZE \<Longrightarrow> j \<noteq> i \<Longrightarrow> \<not> holds_sector s (buffer_cache st ! j)"
    and e: "entry_ok (fs_disk st) e" "holds_sector s e"
    and st': "buffer_cache st' = (buffer_cache st)[i := e]" "medium (fs_disk st') = medium (fs_disk st)"
      "capacity (fs_disk st') = capacity (fs_disk st)"
  shows "cache_ok st' \<and> view st' = (view st)(s := bce_buf e)"
proof -
  have len: "length (buffer_cache st) = CACHE_SIZE" using ok by (simp add: cache_ok_def)
  have val: "valid_sector (fs_disk st') = valid_sector (fs_disk st)"
    using st'(3) by (simp add: valid_sector_def fun_eq_iff)
  have eok: "entry_ok (fs_disk st') = entry_ok (fs_disk st)"
    using st'(2) val by (simp add: entry_ok_def fun_eq_iff)
  have nd: "no_double (buffer_cache st)" using ok by (simp add: cache_ok_def)
  have nd': "no_double (buffer_cache st')"
    unfolding st'(1) by (rule no_double_update [OF nd]) (use i len other e(2) in \<open>auto simp: holds_sector_def\<close>)
  have ok': "cache_ok st'"
    using ok i e(1) nd' len val eok st' by (auto simp: cache_ok_def nth_list_update disk_inv_def)
  have "view st' t = ((view st)(s := bce_buf e)) t" for t
  proof (cases "t = s")
    case True
    then show ?thesis using view_hit [OF nd', of i s] i e(2) len st'(1) by simp
  next
    case False
    show ?thesis using nd'
    proof (cases rule: view_cases [where s = t])
      case (hit j)
      then have "j \<noteq> i" using False e(2) len st'(1) i by (auto simp: holds_sector_def)
      then show ?thesis using hit view_hit [OF nd, of j t] False len st'(1) by simp
    next
      case miss
      have "view st t = medium (fs_disk st) t" using nd
      proof (cases rule: view_cases [where s = t])
        case (hit j)
        then have "j = i" using miss(1) [of j] len st'(1) by (cases "j = i") auto
        then show ?thesis using hit clean ok i by (auto simp: cache_ok_def entry_ok_def holds_sector_def)
      qed
      then show ?thesis using miss(2) False st'(2) by simp
    qed
  qed
  then show ?thesis using ok' by (simp add: fun_eq_iff)
qed

text \<open>Fields that the inner operations leave alone.\<close>

definition same_rest :: "cache_state \<Rightarrow> cache_state \<Rightarrow> bool" where
  "same_rest st st' \<longleftrightarrow> cache_sema st' = cache_sema st \<and> client st' = client st \<and> now_ticks st' = now_ticks st
     \<and> valid_sector (fs_disk st') = valid_sector (fs_disk st)"

lemma buffer_cache_flush_ok:
  assumes ok: "cache_ok st" and i: "i < CACHE_SIZE" and u: "bce_used (buffer_cache st ! i)"
  shows "\<exists>st'. buffer_cache_flush i st = Some st' \<and> cache_ok st' \<and> view st' = view st \<and> same_rest st st'
    \<and> buffer_cache st' = (buffer_cache st)[i := (buffer_cache st ! i)\<lparr>bce_dirty := False\<rparr>]
    \<and> (\<forall>s. medium (fs_disk st') s = (if holds_sector s (buffer_cache st ! i) then bce_buf (buffer_cache st ! i)
          else medium (fs_disk st) s))"
proof -
  let ?e = "buffer_cache st ! i" and ?d = "fs_disk st"
  have len: "length (buffer_cache st) = CACHE_SIZE" using ok by (simp add: cache_ok_def)
  have eok: "entry_ok ?d ?e" using ok i by (simp add: cache_ok_def)
  have idx: "i \<le> 63" using i by (simp add: CACHE_SIZE_def)
  have nd: "no_double (buffer_cache st)" using ok by (simp add: cache_ok_def)
  show ?thesis
  proof (cases "bce_dirty ?e")
    case False
    then have "?e\<lparr>bce_dirty := False\<rparr> = ?e" by (cases ?e) simp
    then have "(buffer_cache st)[i := ?e\<lparr>bce_dirty := False\<rparr>] = buffer_cache st" by simp
    moreover have "bce_buf ?e = medium ?d (bce_sec ?e)" using eok False u by (simp add: entry_ok_def)
    ultimately show ?thesis using False u idx len i ok
      by (auto simp: buffer_cache_flush_def same_rest_def holds_sector_def)
  next
    case True
    let ?d' = "?d\<lparr>medium := (medium ?d)(bce_sec ?e := bce_buf ?e), write_cnt := write_cnt ?d + 1\<rparr>"
    let ?st = "st\<lparr>fs_disk := ?d', buffer_cache := (buffer_cache st)[i := ?e\<lparr>bce_dirty := False\<rparr>]\<rparr>"
    have "disk_write ?d (bce_sec ?e) (bce_buf ?e) = Some ?d'"
      using eok u by (simp add: disk_write_valid entry_ok_def)
    then have run: "buffer_cache_flush i st = Some ?st"
      using True u idx len i by (simp add: buffer_cache_flush_def upd_entry_def)
    have other: "j = i" if "j < CACHE_SIZE" "bce_used (buffer_cache st ! j)"
      "bce_sec (buffer_cache st ! j) = bce_sec ?e" for j
      using no_doubleD [OF nd, of j i] that u i len by simp
    have "no_double ((buffer_cache st)[i := ?e\<lparr>bce_dirty := False\<rparr>])"
      by (rule no_double_update [OF nd]) (use i len other in \<open>auto simp: holds_sector_def\<close>)
    then have nd': "no_double (buffer_cache ?st)" by simp
    have "entry_ok ?d' (buffer_cache ?st ! j)" if j: "j < CACHE_SIZE" for j
    proof (cases "j = i")
      case True
      then show ?thesis using eok u i len by (auto simp: entry_ok_def)
    next
      case False
      have "entry_ok ?d (buffer_cache st ! j)" using ok j by (simp add: cache_ok_def)
      then show ?thesis using False other [OF j] by (auto simp: entry_ok_def)
    qed
    moreover have "disk_inv ?d'" using ok eok u by (auto simp: cache_ok_def disk_inv_def entry_ok_def)
    ultimately have ok': "cache_ok ?st" using nd' len by (simp add: cache_ok_def)
    have "view ?st s = view st s" for s using nd
    proof (cases rule: view_cases [where s = s])
      case (hit j)
      then show ?thesis using view_hit [OF nd', of j s] i len
        by (cases "j = i") (auto simp: holds_sector_def)
    next
      case miss
      then have "\<not> holds_sector s (buffer_cache ?st ! j)" if "j < CACHE_SIZE" for j
        using that i len by (auto simp: holds_sector_def nth_list_update)
      then have "view ?st s = medium ?d' s" using view_miss [of ?st s] len by simp
      moreover have "s \<noteq> bce_sec ?e" using miss(1) [of i] i u len by (auto simp: holds_sector_def)
      ultimately show ?thesis using miss(2) by simp
    qed
    then have "view ?st = view st" by (simp add: fun_eq_iff)
    moreover have "same_rest st ?st" by (simp add: same_rest_def fun_eq_iff)
    moreover have "\<forall>s. medium (fs_disk ?st) s = (if holds_sector s ?e then bce_buf ?e else medium ?d s)"
      using u by (auto simp: holds_sector_def)
    ultimately show ?thesis using run ok' by (intro exI [of _ ?st]) simp
  qed
qed

lemma same_rest_refl [simp]: "same_rest st st"
  by (simp add: same_rest_def)

lemma same_rest_trans: "same_rest a b \<Longrightarrow> same_rest b c \<Longrightarrow> same_rest a c"
  by (simp add: same_rest_def)

definition same_sectors :: "cache_state \<Rightarrow> cache_state \<Rightarrow> bool" where
  "same_sectors st st' \<longleftrightarrow> (\<forall>j < CACHE_SIZE. \<forall>s.
     holds_sector s (buffer_cache st' ! j) = holds_sector s (buffer_cache st ! j))"

lemma cache_ok_length: "cache_ok st \<Longrightarrow> length (buffer_cache st) = CACHE_SIZE"
  by (simp add: cache_ok_def)

lemma cache_ok_entry: "cache_ok st \<Longrightarrow> i < CACHE_SIZE \<Longrightarrow> entry_ok (fs_disk st) (buffer_cache st ! i)"
  by (simp add: cache_ok_def)

lemma cache_ok_no_double: "cache_ok st \<Longrightarrow> no_double (buffer_cache st)"
  by (simp add: cache_ok_def)

text \<open>The selection loop ends at an entry with the least access time.\<close>

lemma lru_loop_least:
  assumes "length bc = CACHE_SIZE"
  shows "\<exists>lru. for_loop 0 CACHE_SIZE
      (\<lambda>i lru. do { a \<leftarrow> arr_get bc lru; b \<leftarrow> arr_get bc i; Some (if bce_time a > bce_time b then i else lru) }) 0
      = Some lru \<and> (lru < CACHE_SIZE \<and> (\<forall>j < CACHE_SIZE. bce_time (bc ! lru) \<le> bce_time (bc ! j)))"
proof (rule for_loop_rule [where I = "\<lambda>k lru. lru < CACHE_SIZE \<and> (\<forall>j < k. bce_time (bc ! lru) \<le> bce_time (bc ! j))"])
  show "0 < CACHE_SIZE \<and> (\<forall>j < 0. bce_time (bc ! 0) \<le> bce_time (bc ! j))" by (simp add: CACHE_SIZE_def)
  fix k lru
  assume "k < CACHE_SIZE" and "lru < CACHE_SIZE \<and> (\<forall>j < k. bce_time (bc ! lru) \<le> bce_time (bc ! j))"
  then show "\<exists>t'. do { a \<leftarrow> arr_get bc lru; b \<leftarrow> arr_get bc k; Some (if bce_time a > bce_time b then k else lru) } = Some t'
      \<and> (t' < CACHE_SIZE \<and> (\<forall>j < Suc k. bce_time (bc ! t') \<le> bce_time (bc ! j)))"
    using assms by (auto simp: less_Suc_eq)
qed simp

lemma first_unused:
  assumes "length bc = CACHE_SIZE"
  shows "\<exists>r. find_loop 0 CACHE_SIZE (\<lambda>i. do { e \<leftarrow> arr_get bc i; Some (\<not> bce_used e) }) = Some r
    \<and> (case r of None \<Rightarrow> \<forall>j < CACHE_SIZE. bce_used (bc ! j) | Some i \<Rightarrow> i < CACHE_SIZE \<and> \<not> bce_used (bc ! i))"
proof -
  from find_loop_array [of CACHE_SIZE bc "\<lambda>e. \<not> bce_used e"] assms obtain r where
    "find_loop 0 CACHE_SIZE (\<lambda>i. do { e \<leftarrow> arr_get bc i; Some (\<not> bce_used e) }) = Some r"
    "case r of None \<Rightarrow> \<forall>k < CACHE_SIZE. \<not> \<not> bce_used (bc ! k)
     | Some k \<Rightarrow> k < CACHE_SIZE \<and> \<not> bce_used (bc ! k) \<and> (\<forall>j < k. \<not> \<not> bce_used (bc ! j))" by auto
  then show ?thesis by (cases r) auto
qed

lemma buffer_cache_lru_eviction_ok:
  assumes ok: "cache_ok st"
  shows "\<exists>i st'. buffer_cache_lru_eviction st = Some (i, st') \<and> i < CACHE_SIZE \<and> cache_ok st' \<and> view st' = view st
    \<and> same_rest st st' \<and> same_sectors st st' \<and> \<not> bce_dirty (buffer_cache st' ! i)
    \<and> (bce_used (buffer_cache st ! i) \<longrightarrow>
        (\<forall>j < CACHE_SIZE. bce_used (buffer_cache st ! j) \<and> bce_time (buffer_cache st ! i) \<le> bce_time (buffer_cache st ! j)))"
proof -
  note len = cache_ok_length [OF ok]
  from first_unused [OF len] obtain r where
    r: "find_loop 0 CACHE_SIZE (\<lambda>i. do { e \<leftarrow> arr_get (buffer_cache st) i; Some (\<not> bce_used e) }) = Some r"
    and c: "case r of None \<Rightarrow> \<forall>j < CACHE_SIZE. bce_used (buffer_cache st ! j)
      | Some i \<Rightarrow> i < CACHE_SIZE \<and> \<not> bce_used (buffer_cache st ! i)" by blast
  show ?thesis
  proof (cases r)
    case (Some i)
    with c have i: "i < CACHE_SIZE" "\<not> bce_used (buffer_cache st ! i)" by simp_all
    have "\<not> bce_dirty (buffer_cache st ! i)" using cache_ok_entry [OF ok i(1)] i(2) by (auto simp: entry_ok_def)
    with Some r i ok show ?thesis
      by (intro exI [of _ i] exI [of _ st]) (simp add: buffer_cache_lru_eviction_def same_sectors_def)
  next
    case None
    with c have u: "bce_used (buffer_cache st ! j)" if "j < CACHE_SIZE" for j using that by simp
    from lru_loop_least [OF len] obtain i where
      i: "for_loop 0 CACHE_SIZE (\<lambda>i lru. do { a \<leftarrow> arr_get (buffer_cache st) lru; b \<leftarrow> arr_get (buffer_cache st) i;
        Some (if bce_time a > bce_time b then i else lru) }) 0 = Some i"
      "i < CACHE_SIZE" "\<forall>j < CACHE_SIZE. bce_time (buffer_cache st ! i) \<le> bce_time (buffer_cache st ! j)" by blast
    from buffer_cache_flush_ok [OF ok i(2) u [OF i(2)]] obtain st' where
      st': "buffer_cache_flush i st = Some st'" "cache_ok st'" "view st' = view st" "same_rest st st'"
      "buffer_cache st' = (buffer_cache st)[i := (buffer_cache st ! i)\<lparr>bce_dirty := False\<rparr>]" by blast
    have ss: "same_sectors st st'"
      using len i(2) by (auto simp: same_sectors_def st'(5) holds_sector_def nth_list_update)
    show ?thesis
    proof (cases "bce_dirty (buffer_cache st ! i)")
      case True
      with None r i st' ss len u show ?thesis
        by (intro exI [of _ i] exI [of _ st']) (simp add: buffer_cache_lru_eviction_def)
    next
      case False
      with None r i len ok u show ?thesis
        by (intro exI [of _ i] exI [of _ st]) (simp add: buffer_cache_lru_eviction_def same_sectors_def)
    qed
  qed
qed

lemma buffer_cache_find_ok:
  assumes ok: "cache_ok st"
  shows "\<exists>r. buffer_cache_find s st = Some r
    \<and> (case r of None \<Rightarrow> \<forall>j < CACHE_SIZE. \<not> holds_sector s (buffer_cache st ! j)
       | Some i \<Rightarrow> i < CACHE_SIZE \<and> holds_sector s (buffer_cache st ! i))"
proof -
  have "(\<lambda>e. bce_sec e = s \<and> bce_used e) = holds_sector s" by (auto simp: holds_sector_def fun_eq_iff)
  then have "buffer_cache_find s st
      = find_loop 0 CACHE_SIZE (\<lambda>i. do { e \<leftarrow> arr_get (buffer_cache st) i; Some (holds_sector s e) })"
    by (simp add: buffer_cache_find_def fun_eq_iff)
  with find_loop_array [of CACHE_SIZE "buffer_cache st" "holds_sector s"] cache_ok_length [OF ok]
  obtain r where "buffer_cache_find s st = Some r"
    "case r of None \<Rightarrow> \<forall>k < CACHE_SIZE. \<not> holds_sector s (buffer_cache st ! k)
     | Some k \<Rightarrow> k < CACHE_SIZE \<and> holds_sector s (buffer_cache st ! k) \<and> (\<forall>j < k. \<not> holds_sector s (buffer_cache st ! j))"
    by auto
  then show ?thesis by (cases r) auto
qed

lemma buffer_cache_get_ok:
  assumes ok: "cache_ok st" and s: "valid_sector (fs_disk st) s"
  shows "\<exists>i st'. buffer_cache_get s st = Some (i, st') \<and> i < CACHE_SIZE \<and> cache_ok st' \<and> view st' = view st
    \<and> same_rest st st' \<and> holds_sector s (buffer_cache st' ! i)"
proof -
  from buffer_cache_find_ok [OF ok, of s] obtain r where r: "buffer_cache_find s st = Some r"
    and c: "case r of None \<Rightarrow> \<forall>j < CACHE_SIZE. \<not> holds_sector s (buffer_cache st ! j)
       | Some i \<Rightarrow> i < CACHE_SIZE \<and> holds_sector s (buffer_cache st ! i)" by blast
  show ?thesis
  proof (cases r)
    case (Some i)
    with r c ok show ?thesis by (intro exI [of _ i] exI [of _ st]) (simp add: buffer_cache_get_def)
  next
    case None
    from buffer_cache_lru_eviction_ok [OF ok] obtain i st1 where
      e: "buffer_cache_lru_eviction st = Some (i, st1)" "i < CACHE_SIZE" "cache_ok st1" "view st1 = view st"
      "same_rest st st1" "same_sectors st st1" "\<not> bce_dirty (buffer_cache st1 ! i)" by blast
    have none: "\<not> holds_sector s (buffer_cache st1 ! j)" if "j < CACHE_SIZE" for j
      using c None e(6) that by (simp add: same_sectors_def)
    have s1: "valid_sector (fs_disk st1) s" using s e(5) by (simp add: same_rest_def)
    note len = cache_ok_length [OF e(3)]
    let ?b = "medium (fs_disk st1) s"
    let ?e = "(buffer_cache st1 ! i)\<lparr>bce_used := True, bce_dirty := False, bce_sec := s, bce_buf := ?b\<rparr>"
    let ?st = "st1\<lparr>buffer_cache := (buffer_cache st1)[i := ?e],
                   fs_disk := (fs_disk st1)\<lparr>read_cnt := read_cnt (fs_disk st1) + 1\<rparr>\<rparr>"
    have run: "buffer_cache_get s st = Some (i, ?st)"
      using r None e(1,2) len s1 by (simp add: buffer_cache_get_def upd_entry_def disk_read_valid)
    have "entry_ok (fs_disk st1) ?e"
      using s1 e(3) by (simp add: entry_ok_def cache_ok_def disk_inv_def)
    moreover have "holds_sector s ?e" by (simp add: holds_sector_def)
    ultimately have fin: "cache_ok ?st \<and> view ?st = (view st1)(s := bce_buf ?e)"
      using none by (intro replace_entry [OF e(3,2,7)]) simp_all
    have "view st1 s = ?b" using view_miss [of st1 s] none len by simp
    then have "view ?st = view st" using fin e(4) by (simp add: fun_eq_iff)
    moreover have "same_rest st ?st" using e(5) by (simp add: same_rest_def fun_eq_iff)
    moreover have "holds_sector s (buffer_cache ?st ! i)" using e(2) len by (simp add: holds_sector_def)
    ultimately show ?thesis using run fin e(2) by blast
  qed
qed

section \<open>The cache is a store of sectors\<close>

lemma cache_down_ok: "cache_inv st \<Longrightarrow> cache_down st = Some (st\<lparr>cache_sema := 0\<rparr>)"
  by (simp add: cache_inv_def cache_down_def)

lemma cache_ok_update [simp]:
  "cache_ok (st\<lparr>cache_sema := n\<rparr>) = cache_ok st"
  "cache_ok (st\<lparr>read_ahead_sec := x\<rparr>) = cache_ok st"
  "cache_ok (st\<lparr>read_ahead_buffer := b\<rparr>) = cache_ok st"
  "cache_ok (st\<lparr>read_ahead_flag := f\<rparr>) = cache_ok st"
  by (simp_all add: cache_ok_def)

lemma view_cong:
  "buffer_cache st' = buffer_cache st \<Longrightarrow> medium (fs_disk st') = medium (fs_disk st) \<Longrightarrow> view st' = view st"
  by (auto simp: view_def fun_eq_iff split: option.split)

lemma view_update [simp]:
  "view (st\<lparr>cache_sema := n\<rparr>) = view st"
  "view (st\<lparr>read_ahead_sec := x\<rparr>) = view st"
  "view (st\<lparr>read_ahead_buffer := b\<rparr>) = view st"
  "view (st\<lparr>read_ahead_flag := f\<rparr>) = view st"
  "view (st\<lparr>fs_disk := (fs_disk st)\<lparr>read_cnt := m\<rparr>\<rparr>) = view st"
  by (rule view_cong; simp)+

lemma cache_ok_read_cnt [simp]: "cache_ok (st\<lparr>fs_disk := (fs_disk st)\<lparr>read_cnt := m\<rparr>\<rparr>) = cache_ok st"
  by (simp add: cache_ok_def entry_ok_def disk_inv_def)

lemma read_ahead_ok:
  assumes "cache_ok st" and "valid_sector (fs_disk st) s"
  shows "\<exists>st'. read_ahead s st = Some st' \<and> cache_ok st' \<and> view st' = view st \<and> same_rest st st'"
proof -
  let ?st = "st\<lparr>read_ahead_sec := s + 1, fs_disk := (fs_disk st)\<lparr>read_cnt := read_cnt (fs_disk st) + 1\<rparr>,
    read_ahead_buffer := medium (fs_disk st) s, read_ahead_flag := 2\<rparr>"
  have "read_ahead s st = Some ?st" using assms(2) by (simp add: read_ahead_def disk_read_valid)
  moreover have "cache_ok ?st" using assms(1) by (simp add: cache_ok_def entry_ok_def disk_inv_def)
  moreover have "view ?st = view st" by (rule view_cong) simp_all
  moreover have "same_rest st ?st" by (simp add: same_rest_def fun_eq_iff)
  ultimately show ?thesis by blast
qed

lemma buffer_cache_read_ok:
  assumes inv: "cache_inv st" and s: "cache_valid st s"
  shows "\<exists>st'. buffer_cache_read st s = Some (view st s, st') \<and> cache_inv st'
    \<and> cache_valid st' = cache_valid st \<and> view st' = view st"
proof -
  let ?st = "st\<lparr>cache_sema := 0\<rparr>"
  have ok: "cache_ok ?st" and s0: "valid_sector (fs_disk ?st) s"
    using inv s by (simp_all add: cache_inv_def cache_valid_def)
  from buffer_cache_get_ok [OF ok s0] obtain i st1 where
    g: "buffer_cache_get s ?st = Some (i, st1)" "i < CACHE_SIZE" "cache_ok st1" "view st1 = view st"
    "same_rest ?st st1" "holds_sector s (buffer_cache st1 ! i)" by auto
  note len = cache_ok_length [OF g(3)]
  have buf: "bce_buf (buffer_cache st1 ! i) = view st s"
    using view_hit [OF cache_ok_no_double [OF g(3)], of i s] g(2,4,6) len by simp
  let ?st2 = "st1\<lparr>cache_sema := 1\<rparr>"
  have up: "cache_up st1 = ?st2" using g(5) by (simp add: cache_up_def same_rest_def)
  have s2: "valid_sector (fs_disk ?st2) s" using s0 g(5) by (simp add: same_rest_def)
  have rest: "cache_valid ?st2 = cache_valid st" using g(5) by (simp add: cache_valid_def same_rest_def)
  show ?thesis
  proof (cases "client st = ''child-qsort''")
    case True
    then have "client ?st2 = ''child-qsort''" using g(5) by (simp add: same_rest_def)
    then show ?thesis using g buf up rest len
      by (intro exI [of _ ?st2]) (simp add: buffer_cache_read_def cache_down_ok [OF inv] cache_inv_def)
  next
    case False
    then have "client ?st2 \<noteq> ''child-qsort''" using g(5) by (simp add: same_rest_def)
    moreover from read_ahead_ok [OF _ s2] g(3) obtain st3 where
      "read_ahead s ?st2 = Some st3" "cache_ok st3" "view st3 = view st1" "same_rest ?st2 st3" by auto
    ultimately show ?thesis using g buf up rest len
      by (intro exI [of _ st3])
        (simp add: buffer_cache_read_def cache_down_ok [OF inv] cache_inv_def same_rest_def cache_valid_def)
  qed
qed

lemma upd_entry_eq:
  "i < length (buffer_cache st) \<Longrightarrow>
   upd_entry i f st = Some (st\<lparr>buffer_cache := (buffer_cache st)[i := f (buffer_cache st ! i)]\<rparr>)"
  by (simp add: upd_entry_def)

lemma dirty_entry:
  assumes ok: "cache_ok st" and i: "i < CACHE_SIZE" and h: "holds_sector s (buffer_cache st ! i)"
    and e: "length (bce_buf e) = DISK_SECTOR_SIZE" "bce_dirty e" "holds_sector s e"
  shows "cache_ok (st\<lparr>buffer_cache := (buffer_cache st)[i := e]\<rparr>)
    \<and> view (st\<lparr>buffer_cache := (buffer_cache st)[i := e]\<rparr>) = (view st)(s := bce_buf e)"
proof -
  note len = cache_ok_length [OF ok] and nd = cache_ok_no_double [OF ok]
  let ?st = "st\<lparr>buffer_cache := (buffer_cache st)[i := e]\<rparr>"
  have other: "\<not> holds_sector s (buffer_cache st ! j)" if "j < CACHE_SIZE" "j \<noteq> i" for j
    using no_doubleD [OF nd, of i j] that h i len by (auto simp: holds_sector_def)
  have sec: "bce_sec e = s" "bce_used e" using e(3) by (simp_all add: holds_sector_def)
  have "no_double ((buffer_cache st)[i := e])"
    by (rule no_double_update [OF nd]) (use i len other sec in auto)
  then have nd': "no_double (buffer_cache ?st)" by simp
  have "valid_sector (fs_disk st) s" using cache_ok_entry [OF ok i] h by (auto simp: entry_ok_def holds_sector_def)
  then have "entry_ok (fs_disk st) e" using e sec by (simp add: entry_ok_def)
  then have ok': "cache_ok ?st" using ok nd' i len by (auto simp: cache_ok_def nth_list_update)
  have "view ?st t = ((view st)(s := bce_buf e)) t" for t
  proof (cases "t = s")
    case True
    then show ?thesis using view_hit [OF nd', of i s] i len e(3) by simp
  next
    case False
    have same: "holds_sector t (buffer_cache ?st ! j) = holds_sector t (buffer_cache st ! j)" if "j < CACHE_SIZE" for j
      using that False h sec i len by (auto simp: holds_sector_def nth_list_update)
    show ?thesis using nd
    proof (cases rule: view_cases [where s = t])
      case (hit j)
      then have "j \<noteq> i" using False h by (auto simp: holds_sector_def)
      then show ?thesis using hit same [of j] view_hit [OF nd', of j t] len False by simp
    next
      case miss
      then show ?thesis using same view_miss [of ?st t] len False by simp
    qed
  qed
  with ok' show ?thesis by (simp add: fun_eq_iff)
qed

lemma buffer_cache_write_ok:
  assumes inv: "cache_inv st" and s: "cache_valid st s" and b: "length b = DISK_SECTOR_SIZE"
  shows "\<exists>st'. buffer_cache_write st s b = Some st' \<and> cache_inv st'
    \<and> cache_valid st' = cache_valid st \<and> view st' = (view st)(s := b)"
proof -
  let ?st = "st\<lparr>cache_sema := 0\<rparr>"
  have ok: "cache_ok ?st" and s0: "valid_sector (fs_disk ?st) s"
    using inv s by (simp_all add: cache_inv_def cache_valid_def)
  from buffer_cache_get_ok [OF ok s0] obtain i st1 where
    g: "buffer_cache_get s ?st = Some (i, st1)" "i < CACHE_SIZE" "cache_ok st1" "view st1 = view st"
    "same_rest ?st st1" "holds_sector s (buffer_cache st1 ! i)" by auto
  note len = cache_ok_length [OF g(3)]
  let ?e = "(buffer_cache st1 ! i)\<lparr>bce_dirty := True, bce_time := now_ticks st1, bce_buf := b\<rparr>"
  let ?st2 = "st1\<lparr>buffer_cache := (buffer_cache st1)[i := ?e]\<rparr>"
  have fin: "cache_ok ?st2 \<and> view ?st2 = (view st1)(s := bce_buf ?e)"
    by (rule dirty_entry [OF g(3,2,6)]) (use b g(6) in \<open>simp_all add: holds_sector_def\<close>)
  have "buffer_cache_write st s b = Some (?st2\<lparr>cache_sema := 1\<rparr>)"
    using g(1,2,5) b len
    by (simp add: buffer_cache_write_def cache_down_ok [OF inv] upd_entry_eq cache_up_def same_rest_def)
  moreover have "cache_inv (?st2\<lparr>cache_sema := 1\<rparr>)" using fin by (simp add: cache_inv_def)
  moreover have "cache_valid (?st2\<lparr>cache_sema := 1\<rparr>) = cache_valid st"
    using g(5) by (simp add: cache_valid_def same_rest_def)
  moreover have "view (?st2\<lparr>cache_sema := 1\<rparr>) = (view st)(s := b)" using fin g(4) by simp
  ultimately show ?thesis by blast
qed

lemma buffer_cache_flush_all_ok:
  assumes inv: "cache_inv st"
  shows "\<exists>st'. buffer_cache_flush_all st = Some st' \<and> cache_inv st' \<and> cache_valid st' = cache_valid st
    \<and> view st' = view st \<and> (\<forall>i < CACHE_SIZE. \<not> bce_dirty (buffer_cache st' ! i))"
proof -
  let ?st = "st\<lparr>cache_sema := 0\<rparr>"
  let ?body = "\<lambda>i st. do { e \<leftarrow> arr_get (buffer_cache st) i; if bce_dirty e then buffer_cache_flush i st else Some st }"
  let ?I = "\<lambda>k t. cache_ok t \<and> view t = view st \<and> same_rest ?st t \<and> (\<forall>i < k. \<not> bce_dirty (buffer_cache t ! i))"
  have "\<exists>t. for_loop 0 CACHE_SIZE ?body ?st = Some t \<and> ?I CACHE_SIZE t"
  proof (rule for_loop_rule [where I = ?I])
    show "?I 0 ?st" using inv by (simp add: cache_inv_def)
    fix k t
    assume k: "k < CACHE_SIZE" and I: "?I k t"
    note len = cache_ok_length [of t]
    show "\<exists>t'. ?body k t = Some t' \<and> ?I (Suc k) t'"
    proof (cases "bce_dirty (buffer_cache t ! k)")
      case False
      then show ?thesis using I k len by (auto simp: less_Suc_eq)
    next
      case True
      then have "bce_used (buffer_cache t ! k)" using cache_ok_entry [of t k] I k by (simp add: entry_ok_def)
      from buffer_cache_flush_ok [OF _ k this] I obtain t' where
        t': "buffer_cache_flush k t = Some t'" "cache_ok t'" "view t' = view t" "same_rest t t'"
        "buffer_cache t' = (buffer_cache t)[k := (buffer_cache t ! k)\<lparr>bce_dirty := False\<rparr>]" by blast
      have "\<not> bce_dirty (buffer_cache t' ! i)" if "i < Suc k" for i
        using that I k len t'(5) by (auto simp: less_Suc_eq nth_list_update)
      then show ?thesis using True I k len t' same_rest_trans [of ?st t t'] by auto
    qed
  qed simp
  then obtain t where t: "for_loop 0 CACHE_SIZE ?body ?st = Some t" "cache_ok t" "view t = view st"
    "same_rest ?st t" "\<forall>i < CACHE_SIZE. \<not> bce_dirty (buffer_cache t ! i)" by blast
  have "buffer_cache_flush_all st = Some (cache_up t)"
    using t(1) by (simp add: buffer_cache_flush_all_def cache_down_ok [OF inv])
  moreover have "cache_inv (cache_up t)" using t(2,4) by (simp add: cache_inv_def cache_up_def same_rest_def)
  moreover have "cache_valid (cache_up t) = cache_valid st"
    using t(4) by (simp add: cache_valid_def cache_up_def same_rest_def)
  moreover have "view (cache_up t) = view st" using t(3) by (simp add: cache_up_def)
  ultimately show ?thesis using t(5) by (intro exI [of _ "cache_up t"]) (simp add: cache_up_def)
qed

text \<open>With no dirty entry the disk holds everything.\<close>

lemma view_clean:
  assumes "cache_ok st" and "\<forall>i < CACHE_SIZE. \<not> bce_dirty (buffer_cache st ! i)"
  shows "view st = medium (fs_disk st)"
proof
  fix s
  show "view st s = medium (fs_disk st) s" using cache_ok_no_double [OF assms(1)]
  proof (cases rule: view_cases [where s = s])
    case (hit i)
    then show ?thesis using cache_ok_entry [OF assms(1), of i] assms cache_ok_length [OF assms(1)]
      by (auto simp: entry_ok_def holds_sector_def)
  qed
qed

lemma view_length:
  assumes "cache_ok st" and "valid_sector (fs_disk st) s"
  shows "length (view st s) = DISK_SECTOR_SIZE"
  using cache_ok_no_double [OF assms(1)]
proof (cases rule: view_cases [where s = s])
  case (hit i)
  then show ?thesis using cache_ok_entry [OF assms(1), of i] cache_ok_length [OF assms(1)]
    by (auto simp: entry_ok_def)
next
  case miss
  then show ?thesis using assms by (simp add: cache_ok_def disk_inv_def)
qed

lemma buffer_cache_get_invalid:
  assumes ok: "cache_ok st" and s: "\<not> valid_sector (fs_disk st) s"
  shows "buffer_cache_get s st = None"
proof -
  from buffer_cache_find_ok [OF ok, of s] obtain r where r: "buffer_cache_find s st = Some r"
    and c: "case r of None \<Rightarrow> \<forall>j < CACHE_SIZE. \<not> holds_sector s (buffer_cache st ! j)
       | Some i \<Rightarrow> i < CACHE_SIZE \<and> holds_sector s (buffer_cache st ! i)" by blast
  have "r = None"
    using c s cache_ok_entry [OF ok] by (cases r) (auto simp: entry_ok_def holds_sector_def)
  moreover from buffer_cache_lru_eviction_ok [OF ok] obtain i st1 where
    "buffer_cache_lru_eviction st = Some (i, st1)" "i < CACHE_SIZE" "cache_ok st1" "same_rest st st1" by blast
  moreover from this(4) s have "\<not> valid_sector (fs_disk st1) s" by (simp add: same_rest_def)
  ultimately show ?thesis using r cache_ok_length [of st1]
    by (simp add: buffer_cache_get_def upd_entry_eq disk_read_invalid)
qed

lemma lru_eviction_read_ahead_buffer:
  "buffer_cache_lru_eviction st = Some (i, st') \<Longrightarrow> read_ahead_buffer st' = read_ahead_buffer st"
  by (auto simp: buffer_cache_lru_eviction_def buffer_cache_flush_def upd_entry_def
      split: option_bind_splits option.splits if_splits)

interpretation bc: block_store cache_inv cache_valid view buffer_cache_read buffer_cache_write
proof unfold_locales
  fix st s b
  assume inv: "cache_inv st"
  show "length (view st s) = DISK_SECTOR_SIZE" if "cache_valid st s"
    using view_length [of st s] inv that by (simp add: cache_inv_def cache_valid_def)
  show "\<exists>st'. buffer_cache_read st s = Some (view st s, st') \<and> cache_inv st'
      \<and> cache_valid st' = cache_valid st \<and> view st' = view st" if "cache_valid st s"
    by (rule buffer_cache_read_ok [OF inv that])
  show "\<exists>st'. buffer_cache_write st s b = Some st' \<and> cache_inv st'
      \<and> cache_valid st' = cache_valid st \<and> view st' = (view st)(s := b)"
    if "cache_valid st s" "length b = DISK_SECTOR_SIZE"
    by (rule buffer_cache_write_ok [OF inv that])
  have none: "buffer_cache_get s (st\<lparr>cache_sema := 0\<rparr>) = None" if "\<not> cache_valid st s"
    using buffer_cache_get_invalid [of "st\<lparr>cache_sema := 0\<rparr>" s] inv that
    by (simp add: cache_inv_def cache_valid_def)
  show "buffer_cache_read st s = None" if "\<not> cache_valid st s"
    using none [OF that] by (simp add: buffer_cache_read_def cache_down_ok [OF inv])
  show "buffer_cache_write st s b = None" if "\<not> cache_valid st s"
    using none [OF that] by (simp add: buffer_cache_write_def cache_down_ok [OF inv])
qed

section \<open>Properties\<close>

text \<open>An empty cache over a disk of 100 sectors, for the examples.\<close>

definition zero_disk :: disk where
  "zero_disk = \<lparr>dev_no = 1, is_ata = True, capacity = 100, read_cnt = 0, write_cnt = 0,
                medium = (\<lambda>_. replicate DISK_SECTOR_SIZE 0)\<rparr>"

definition empty_cache :: cache_state where
  "empty_cache = \<lparr>buffer_cache = replicate CACHE_SIZE \<lparr>bce_dirty = False, bce_used = False, bce_sec = 0,
                    bce_buf = replicate DISK_SECTOR_SIZE 0, bce_time = 0\<rparr>,
                  cache_sema = 1, fs_disk = zero_disk, read_ahead_buffer = [], read_ahead_sec = 0,
                  read_ahead_flag = 1, now_ticks = 0, client = ''main''\<rparr>"

lemma empty_cache_inv: "cache_inv empty_cache" "view empty_cache s = replicate DISK_SECTOR_SIZE 0"
    "cache_valid empty_cache 7" "\<not> cache_valid empty_cache 100"
proof -
  show "cache_inv empty_cache"
    by (simp add: cache_inv_def cache_ok_def entry_ok_def no_double_def disk_inv_def empty_cache_def zero_disk_def)
  show "view empty_cache s = replicate DISK_SECTOR_SIZE 0"
    using view_miss [of empty_cache s] by (simp add: holds_sector_def empty_cache_def zero_disk_def)
  show "cache_valid empty_cache 7" "\<not> cache_valid empty_cache 100"
    by (simp_all add: cache_valid_def valid_sector_def empty_cache_def zero_disk_def)
qed

text \<open>
  C1. Any sequence of sector reads and writes through the cache returns what the same sequence
  returns on an ideal store of sectors that starts with the same contents, keeps the invariant of the
  cache, and ends with the same contents: the cache is transparent.
\<close>

theorem cache_transparent:
  assumes "cache_inv st" and "list_all (op_ok (cache_valid st)) ops"
  shows "\<exists>st'. run_ops buffer_cache_read buffer_cache_write ops st = Some (fst (ideal_ops ops (view st)), st')
    \<and> cache_inv st' \<and> view st' = snd (ideal_ops ops (view st))"
  using bc.run_ops_ideal [OF assms] by blast

theorem cache_transparent_witness:
  "\<exists>st'. run_ops buffer_cache_read buffer_cache_write
      [Write_Op 7 (replicate DISK_SECTOR_SIZE 5), Read_Op 7, Read_Op 8] empty_cache
    = Some ([replicate DISK_SECTOR_SIZE 5, replicate DISK_SECTOR_SIZE 0], st')"
proof -
  let ?ops = "[Write_Op 7 (replicate DISK_SECTOR_SIZE 5), Read_Op 7, Read_Op 8]"
  have "list_all (op_ok (cache_valid empty_cache)) ?ops"
    by (simp add: cache_valid_def valid_sector_def empty_cache_def zero_disk_def)
  from cache_transparent [OF empty_cache_inv(1) this] show ?thesis
    by (auto simp: empty_cache_inv(2))
qed

text \<open>
  C2. Flushing makes everything durable: afterwards no entry is dirty and the disk itself holds exactly
  what reads through the cache returned before.
\<close>

theorem buffer_cache_flush_all_durable:
  assumes "cache_inv st"
  shows "\<exists>st'. buffer_cache_flush_all st = Some st' \<and> cache_inv st' \<and> medium (fs_disk st') = view st
    \<and> view st' = view st \<and> (\<forall>i < CACHE_SIZE. \<not> bce_dirty (buffer_cache st' ! i))"
proof -
  from buffer_cache_flush_all_ok [OF assms] obtain st' where "buffer_cache_flush_all st = Some st'"
    "cache_inv st'" "view st' = view st" "\<forall>i < CACHE_SIZE. \<not> bce_dirty (buffer_cache st' ! i)" by blast
  moreover from this(2,4) have "view st' = medium (fs_disk st')" by (intro view_clean) (simp_all add: cache_inv_def)
  ultimately show ?thesis by auto
qed

theorem buffer_cache_flush_all_durable_witness:
  "\<exists>st'. buffer_cache_flush_all empty_cache = Some st' \<and> medium (fs_disk st') = view empty_cache"
  using buffer_cache_flush_all_durable [OF empty_cache_inv(1)] by blast

text \<open>
  Eviction picks an unused entry when there is one and otherwise an entry whose access time is
  least, writes it back if it is dirty, and changes nothing that a reader can see.
\<close>

theorem buffer_cache_lru_eviction_correct:
  assumes "cache_inv st"
  shows "\<exists>i st'. buffer_cache_lru_eviction st = Some (i, st') \<and> i < CACHE_SIZE \<and> cache_inv st' \<and> view st' = view st
    \<and> \<not> bce_dirty (buffer_cache st' ! i)
    \<and> (bce_used (buffer_cache st ! i) \<longrightarrow>
        (\<forall>j < CACHE_SIZE. bce_used (buffer_cache st ! j) \<and> bce_time (buffer_cache st ! i) \<le> bce_time (buffer_cache st ! j)))"
  using buffer_cache_lru_eviction_ok [of st] assms by (fastforce simp: cache_inv_def same_rest_def)

theorem buffer_cache_lru_eviction_correct_witness:
  "\<exists>i st'. buffer_cache_lru_eviction empty_cache = Some (i, st') \<and> i < CACHE_SIZE \<and> view st' = view empty_cache"
  using buffer_cache_lru_eviction_correct [OF empty_cache_inv(1)] by blast

text \<open>
  A sector outside the disk is never served from the cache: reading or writing it stops the
  kernel, in every state of the cache.
\<close>

theorem cache_rejects_bad_sector:
  assumes "cache_inv st" and "s \<ge> capacity (fs_disk st)"
  shows "buffer_cache_read st s = None \<and> buffer_cache_write st s b = None"
proof -
  have "\<not> cache_valid st s" using assms(2) by (auto simp: cache_valid_def valid_sector_def)
  then show ?thesis using bc.rd_invalid [OF assms(1)] bc.wr_invalid [OF assms(1)] by blast
qed

theorem cache_rejects_bad_sector_witness:
  "buffer_cache_read empty_cache 100 = None \<and> buffer_cache_write empty_cache 100 [] = None"
  using cache_rejects_bad_sector [OF empty_cache_inv(1), of 100 "[]"]
  by (simp add: empty_cache_def zero_disk_def)

text \<open>
  The read-ahead thread never installs anything: whatever the other threads do, it only sets its
  flag back and yields, because its loop test is an assignment whose value is 1.
\<close>

theorem read_ahead_func_never_installs:
  "read_ahead_func others n st = Some (fold (\<lambda>k t. others k (t\<lparr>read_ahead_flag := 1\<rparr>)) (rev [0..<n]) st)"
  by (induction n arbitrary: st) (simp_all add: read_ahead_test_def)

text \<open>
  If the read-ahead thread did get past its test, it would corrupt the cache: it would serve the
  contents of the sector just read as the contents of the following sector.
\<close>

theorem read_ahead_installs_wrong_sector:
  assumes "cache_inv st" and "cache_valid st s" and "cache_valid st (s + 1)"
    and "\<And>i. i < CACHE_SIZE \<Longrightarrow> \<not> holds_sector (s + 1) (buffer_cache st ! i)"
  shows "\<exists>st1 st2. read_ahead s st = Some st1 \<and> read_ahead_install st1 = Some st2
    \<and> view st2 (s + 1) = medium (fs_disk st) s"
proof -
  let ?st1 = "st\<lparr>read_ahead_sec := s + 1, fs_disk := (fs_disk st)\<lparr>read_cnt := read_cnt (fs_disk st) + 1\<rparr>,
    read_ahead_buffer := medium (fs_disk st) s, read_ahead_flag := 2\<rparr>"
  have ra: "read_ahead s st = Some ?st1" using assms(2) by (simp add: read_ahead_def disk_read_valid cache_valid_def)
  have ok1: "cache_ok ?st1" using assms(1) by (simp add: cache_inv_def cache_ok_def entry_ok_def disk_inv_def)
  from buffer_cache_find_ok [OF ok1, of "s + 1"] obtain r where r: "buffer_cache_find (s + 1) ?st1 = Some r"
    and c: "case r of None \<Rightarrow> \<forall>j < CACHE_SIZE. \<not> holds_sector (s + 1) (buffer_cache ?st1 ! j)
       | Some i \<Rightarrow> i < CACHE_SIZE \<and> holds_sector (s + 1) (buffer_cache ?st1 ! i)" by blast
  have none: "r = None" using c assms(4) by (cases r) auto
  from buffer_cache_lru_eviction_ok [OF ok1] obtain i st1 where
    e: "buffer_cache_lru_eviction ?st1 = Some (i, st1)" "i < CACHE_SIZE" "cache_ok st1" "same_sectors ?st1 st1" by blast
  have buf: "read_ahead_buffer st1 = medium (fs_disk st) s"
    using lru_eviction_read_ahead_buffer [OF e(1)] by simp
  note len = cache_ok_length [OF e(3)]
  let ?e = "(buffer_cache st1 ! i)\<lparr>bce_used := True, bce_dirty := False, bce_sec := s + 1,
                                     bce_buf := read_ahead_buffer st1\<rparr>"
  let ?st2 = "st1\<lparr>buffer_cache := (buffer_cache st1)[i := ?e], read_ahead_flag := 1\<rparr>"
  have inst: "read_ahead_install ?st1 = Some ?st2"
    using r none e(1,2) len by (simp add: read_ahead_install_def upd_entry_eq)
  have "no_double ((buffer_cache st1)[i := ?e])"
  proof (rule no_double_update [OF cache_ok_no_double [OF e(3)]])
    show "i < length (buffer_cache st1)" using e(2) len by simp
    show "\<not> holds_sector (bce_sec ?e) (buffer_cache st1 ! j)" if "j < length (buffer_cache st1)" for j
      using assms(4) [of j] e(4) that len by (simp add: same_sectors_def)
  qed
  then have nd: "no_double (buffer_cache ?st2)" by simp
  have "view ?st2 (s + 1) = bce_buf (buffer_cache ?st2 ! i)"
    by (rule view_hit [OF nd]) (use e(2) len in \<open>simp_all add: holds_sector_def\<close>)
  then show ?thesis using ra inst buf e(2) len by auto
qed

theorem read_ahead_installs_wrong_sector_witness:
  "\<exists>st1 st2. read_ahead 7 empty_cache = Some st1 \<and> read_ahead_install st1 = Some st2
     \<and> view st2 8 = medium (fs_disk empty_cache) 7"
  using read_ahead_installs_wrong_sector [OF empty_cache_inv(1,3)]
  by (simp add: cache_valid_def valid_sector_def holds_sector_def empty_cache_def zero_disk_def)

text \<open>
  Initialisation, over any disk whose sectors have their size, leaves an empty cache in front of
  the unchanged disk.
\<close>

theorem buffer_cache_init_correct:
  assumes "length (buffer_cache st) = CACHE_SIZE" and "disk_inv (fs_disk st)"
    and "\<And>i. i < CACHE_SIZE \<Longrightarrow> length (bce_buf (buffer_cache st ! i)) = DISK_SECTOR_SIZE"
  shows "\<exists>st'. buffer_cache_init st = Some st' \<and> cache_inv st' \<and> fs_disk st' = fs_disk st
    \<and> view st' = medium (fs_disk st)"
proof -
  let ?f = "\<lambda>e :: BCE. e\<lparr>bce_used := False, bce_dirty := False, bce_time := 0\<rparr>"
  let ?st = "st\<lparr>cache_sema := 0, read_ahead_buffer := replicate DISK_SECTOR_SIZE 0\<rparr>"
  let ?I = "\<lambda>k t. \<exists>bc. t = ?st\<lparr>buffer_cache := bc\<rparr> \<and> length bc = CACHE_SIZE
      \<and> (\<forall>i < CACHE_SIZE. length (bce_buf (bc ! i)) = DISK_SECTOR_SIZE)
      \<and> (\<forall>i < k. \<not> bce_used (bc ! i) \<and> \<not> bce_dirty (bc ! i))"
  have "\<exists>t. for_loop 0 CACHE_SIZE (\<lambda>i st. upd_entry i ?f st) ?st = Some t \<and> ?I CACHE_SIZE t"
  proof (rule for_loop_rule [where I = ?I])
    show "?I 0 ?st" using assms by (intro exI [of _ "buffer_cache st"]) simp
    fix k t
    assume k: "k < CACHE_SIZE" and "?I k t"
    then obtain bc where bc: "t = ?st\<lparr>buffer_cache := bc\<rparr>" "length bc = CACHE_SIZE"
      "\<forall>i < CACHE_SIZE. length (bce_buf (bc ! i)) = DISK_SECTOR_SIZE"
      "\<forall>i < k. \<not> bce_used (bc ! i) \<and> \<not> bce_dirty (bc ! i)" by blast
    then have "upd_entry k ?f t = Some (?st\<lparr>buffer_cache := bc[k := ?f (bc ! k)]\<rparr>)"
      using k by (simp add: upd_entry_eq)
    moreover have "?I (Suc k) (?st\<lparr>buffer_cache := bc[k := ?f (bc ! k)]\<rparr>)"
      using bc k by (intro exI [of _ "bc[k := ?f (bc ! k)]"]) (auto simp: nth_list_update less_Suc_eq)
    ultimately show "\<exists>t'. upd_entry k ?f t = Some t' \<and> ?I (Suc k) t'" by blast
  qed simp
  then obtain bc where bc: "for_loop 0 CACHE_SIZE (\<lambda>i st. upd_entry i ?f st) ?st = Some (?st\<lparr>buffer_cache := bc\<rparr>)"
    "length bc = CACHE_SIZE" "\<forall>i < CACHE_SIZE. length (bce_buf (bc ! i)) = DISK_SECTOR_SIZE"
    "\<forall>i < CACHE_SIZE. \<not> bce_used (bc ! i) \<and> \<not> bce_dirty (bc ! i)" by blast
  let ?st' = "cache_up (?st\<lparr>buffer_cache := bc\<rparr>)"
  have run: "buffer_cache_init st = Some ?st'"
    using bc(1) by (simp add: buffer_cache_init_def cache_down_def)
  have ok: "cache_ok ?st'" using bc assms(2) by (simp add: cache_ok_def entry_ok_def no_double_def cache_up_def)
  have "view ?st' = medium (fs_disk ?st')"
    by (rule view_clean [OF ok]) (use bc in \<open>simp add: cache_up_def\<close>)
  then show ?thesis using run ok by (auto simp: cache_inv_def cache_up_def)
qed

theorem buffer_cache_init_correct_witness:
  "\<exists>st'. buffer_cache_init empty_cache = Some st' \<and> cache_inv st' \<and> view st' = medium zero_disk"
  using buffer_cache_init_correct [of empty_cache]
  by (auto simp: disk_inv_def empty_cache_def zero_disk_def)

end
