(* ===== verification/Inode.thy ===== *)
theory Inode
  imports Cache Bitmap
begin

text \<open>
  \<^verbatim>\<open>filesys/inode.c\<close>, \<^verbatim>\<open>filesys/free-map.c\<close> and the file functions they call: on-disk inodes with
  direct, indirect and doubly indirect blocks, the free map kept in a file, and reading and writing at
  an offset.  Everything goes through the buffer cache of \<open>Cache\<close>.

  Writing may allocate sectors, allocating writes the free map file, and that is again a write.  The
  definitions break this cycle with the allocator as an argument of the writer; \<open>fm_alloc d\<close> is the
  allocator with at most \<open>d\<close> nested writes.  Kernel memory is available or not for the time of an
  operation (\<open>mem_ok\<close>); the code that does not check for a null pointer faults without it.
\<close>

section \<open>On-disk layout\<close>

definition DIRECT_MAPPING_SECTOR :: nat where "DIRECT_MAPPING_SECTOR = 123"
definition INDIRECT_MAPPING_SECTOR :: nat where "INDIRECT_MAPPING_SECTOR = 128"
definition INODE_MAGIC :: u32 where "INODE_MAGIC = 0x494e4f44"

record inode_disk =
  id_direct :: "disk_sector_t list"
  id_indirect :: disk_sector_t
  id_dindirect :: disk_sector_t
  id_directory :: bool
  id_length :: int
  id_magic :: u32

text \<open>The bytes of arrays of 32-bit values.\<close>

definition words_bytes :: "u32 list \<Rightarrow> byte list" where
  "words_bytes ws = concat (map le32 ws)"

fun bytes_words :: "byte list \<Rightarrow> u32 list" where
  "bytes_words (a # b # c # d # bs) = un_le32 [a, b, c, d] # bytes_words bs"
| "bytes_words bs = []"

text \<open>The 512 bytes of an inode: the pointers, a flag with three bytes of padding, length, magic.\<close>

definition inode_bytes :: "inode_disk \<Rightarrow> byte list" where
  "inode_bytes d = words_bytes (id_direct d) @ le32 (id_indirect d) @ le32 (id_dindirect d)
     @ [if id_directory d then 1 else 0, 0, 0, 0] @ le32 (word_of_int (id_length d)) @ le32 (id_magic d)"

definition bytes_inode :: "byte list \<Rightarrow> inode_disk" where
  "bytes_inode bs = (let ws = bytes_words bs in
     \<lparr>id_direct = take 123 ws, id_indirect = ws ! 123, id_dindirect = ws ! 124,
      id_directory = (bs ! 500 \<noteq> 0), id_length = sint (ws ! 126), id_magic = ws ! 127\<rparr>)"

section \<open>The state\<close>

record inode =
  i_sector :: disk_sector_t
  i_open_cnt :: int
  i_removed :: bool
  i_deny_write_cnt :: int
  i_data :: inode_disk
  i_parent :: "nat option option"

record kfile =
  f_inode :: nat
  f_pos :: int
  f_deny_write :: bool

text \<open>
  In-memory inodes live at addresses (naturals); \<open>inodes\<close> is undefined at an address that is not
  allocated, and using such an address is a fault.  \<open>open_inodes\<close> is the list of those open, front
  first.  The parent pointer of a new inode is uninitialised (the outer \<open>None\<close>).
\<close>

record fs =
  fs_cache :: cache_state
  free_map :: bitmap
  free_map_file :: "kfile option"
  inodes :: "nat \<rightharpoonup> inode"
  open_inodes :: "nat list"
  next_addr :: nat
  mem_ok :: bool

definition fs_read :: "fs \<Rightarrow> disk_sector_t \<Rightarrow> (byte list \<times> fs) option" where
  "fs_read st s = do { (b, c) \<leftarrow> buffer_cache_read (fs_cache st) s; Some (b, st\<lparr>fs_cache := c\<rparr>) }"

definition fs_write :: "fs \<Rightarrow> disk_sector_t \<Rightarrow> byte list \<Rightarrow> fs option" where
  "fs_write st s b = do { c \<leftarrow> buffer_cache_write (fs_cache st) s b; Some (st\<lparr>fs_cache := c\<rparr>) }"

definition upd_inode :: "nat \<Rightarrow> (inode \<Rightarrow> inode) \<Rightarrow> fs \<Rightarrow> fs option" where
  "upd_inode a f st = do { ino \<leftarrow> inodes st a; Some (st\<lparr>inodes := (inodes st)(a \<mapsto> f ino)\<rparr>) }"

definition zeros :: "byte list" where
  "zeros = replicate DISK_SECTOR_SIZE 0"

section \<open>Finding the sector of an offset\<close>

definition bytes_to_sectors :: "int \<Rightarrow> nat" where
  "bytes_to_sectors n = nat (cdiv (i32 (n + 512 - 1)) 512 mod 2 ^ 32)"

text \<open>An index past the doubly indirect blocks leaves the result uninitialised.\<close>

definition byte_to_sector :: "fs \<Rightarrow> inode_disk \<Rightarrow> int \<Rightarrow> (disk_sector_t \<times> fs) option" where
  "byte_to_sector st data p = (
     let index = cdiv p 512 in
     if id_length data < p then Some (- 1, st)
     else if index \<ge> 0 \<and> index < 123 then do {
       r \<leftarrow> arr_get (id_direct data) (nat index);
       Some (r, st) }
     else if index \<ge> 123 \<and> index < 123 + 128 then do {
       kassert (mem_ok st);
       (b, st) \<leftarrow> fs_read st (id_indirect data);
       r \<leftarrow> arr_get (bytes_words b) (nat (index - 123));
       Some (r, st) }
     else if index \<ge> 123 + 128 \<and> index < 123 + 128 + 128 * 128 then do {
       kassert (mem_ok st);
       (b, st) \<leftarrow> fs_read st (id_dindirect data);
       s \<leftarrow> arr_get (bytes_words b) (nat (cdiv (index - 123 - 128) 128));
       (b, st) \<leftarrow> fs_read st s;
       r \<leftarrow> arr_get (bytes_words b) (nat (cmod (index - 123 - 128) 128));
       Some (r, st) }
     else None)"

definition inode_length :: "inode \<Rightarrow> int" where
  "inode_length ino = id_length (i_data ino)"

section \<open>Reading and writing at an offset\<close>

text \<open>The number of bytes the two loops copy in one round.\<close>

definition chunk_size :: "inode_disk \<Rightarrow> int \<Rightarrow> int \<Rightarrow> int" where
  "chunk_size data sze offset =
     (let sector_ofs = cmod offset 512;
          inode_left = i32 (id_length data - offset);
          sector_left = 512 - sector_ofs;
          min_left = (if inode_left < sector_left then inode_left else sector_left)
      in if sze < min_left then sze else min_left)"

text \<open>
  The loops do not change the inode, so its data is an argument.  Memory outside the bounce buffer
  (a negative offset) and outside the caller's buffer is undefined.
\<close>

function inode_read_loop :: "inode_disk \<Rightarrow> int \<Rightarrow> int \<Rightarrow> fs \<Rightarrow> (byte list \<times> fs) option" where
  "inode_read_loop data sze offset st =
     (if sze > 0 then
        let sector_ofs = cmod offset 512;
            chunk = chunk_size data sze offset
        in if chunk \<le> 0 then do { (_, st) \<leftarrow> byte_to_sector st data offset; Some ([], st) }
           else do {
             (sector_idx, st) \<leftarrow> byte_to_sector st data offset;
             if sector_ofs = 0 \<and> chunk = 512 then do {
               (b, st) \<leftarrow> fs_read st sector_idx;
               (rest, st) \<leftarrow> inode_read_loop data (sze - chunk) (offset + chunk) st;
               Some (b @ rest, st) }
             else if \<not> mem_ok st then Some ([], st)
             else do {
               (b, st) \<leftarrow> fs_read st sector_idx;
               kassert (0 \<le> sector_ofs);
               (rest, st) \<leftarrow> inode_read_loop data (sze - chunk) (offset + chunk) st;
               Some (take (nat chunk) (drop (nat sector_ofs) b) @ rest, st) } }
      else Some ([], st))"
  by pat_completeness auto
termination
  by (relation "measure (\<lambda>(data, sze, offset, st). nat sze)") auto

definition inode_read_at :: "fs \<Rightarrow> nat \<Rightarrow> int \<Rightarrow> int \<Rightarrow> (byte list \<times> fs) option" where
  "inode_read_at st a sze offset = do {
     ino \<leftarrow> inodes st a;
     inode_read_loop (i_data ino) sze offset st }"

function inode_write_loop :: "inode_disk \<Rightarrow> byte list \<Rightarrow> int \<Rightarrow> int \<Rightarrow> fs \<Rightarrow> (int \<times> fs) option" where
  "inode_write_loop data buf sze offset st =
     (if sze > 0 then
        let sector_ofs = cmod offset 512;
            sector_left = 512 - sector_ofs;
            chunk = chunk_size data sze offset
        in if chunk \<le> 0 then do { (_, st) \<leftarrow> byte_to_sector st data offset; Some (0, st) }
           else do {
             (sector_idx, st) \<leftarrow> byte_to_sector st data offset;
             if sector_ofs = 0 \<and> chunk = 512 then do {
               kassert (512 \<le> length buf);
               st \<leftarrow> fs_write st sector_idx (take 512 buf);
               (n, st) \<leftarrow> inode_write_loop data (drop 512 buf) (sze - chunk) (offset + chunk) st;
               Some (chunk + n, st) }
             else if \<not> mem_ok st then Some (0, st)
             else do {
               (b, st) \<leftarrow> (if sector_ofs > 0 \<or> chunk < sector_left then fs_read st sector_idx
                           else Some (zeros, st));
               kassert (0 \<le> sector_ofs \<and> nat chunk \<le> length buf);
               st \<leftarrow> fs_write st sector_idx
                 (take (nat sector_ofs) b @ take (nat chunk) buf @ drop (nat sector_ofs + nat chunk) b);
               (n, st) \<leftarrow> inode_write_loop data (drop (nat chunk) buf) (sze - chunk) (offset + chunk) st;
               Some (chunk + n, st) } }
      else Some (0, st))"
  by pat_completeness auto
termination
  by (relation "measure (\<lambda>(data, buf, sze, offset, st). nat sze)") auto

declare inode_read_loop.simps [simp del] inode_write_loop.simps [simp del]

section \<open>Allocation\<close>

text \<open>
  The three places that fill an array of sector numbers share one loop: an entry that is 0 gets a
  fresh sector, which is zeroed.  The result is whether all allocations succeeded; the entries filled
  before a failure stay filled.
\<close>

type_synonym allocator = "fs \<Rightarrow> nat \<Rightarrow> (disk_sector_t option \<times> fs) option"

fun alloc_slots :: "allocator \<Rightarrow> nat \<Rightarrow> nat \<Rightarrow> disk_sector_t list \<Rightarrow> fs \<Rightarrow> (bool \<times> disk_sector_t list \<times> fs) option" where
  "alloc_slots fa 0 i slots st = Some (True, slots, st)"
| "alloc_slots fa (Suc k) i slots st = do {
     s \<leftarrow> arr_get slots i;
     if s = 0 then do {
       (r, st) \<leftarrow> fa st 1;
       case r of
         None \<Rightarrow> Some (False, slots, st)
       | Some s \<Rightarrow> do {
           slots \<leftarrow> arr_set slots i s;
           st \<leftarrow> fs_write st s zeros;
           alloc_slots fa k (Suc i) slots st } }
     else alloc_slots fa k (Suc i) slots st }"

text \<open>Singly indirect blocks: level 0 of \<^verbatim>\<open>inode_indirect_alloc\<close>.\<close>

definition indirect_alloc_single :: "allocator \<Rightarrow> fs \<Rightarrow> inode_disk \<Rightarrow> nat \<Rightarrow> (bool \<times> inode_disk \<times> fs) option" where
  "indirect_alloc_single fa st d sectors = do {
     kassert (mem_ok st);
     (r, iid, st) \<leftarrow>
       (if id_indirect d \<noteq> 0 then do {
          (b, st) \<leftarrow> fs_read st (id_indirect d);
          Some (Some (id_indirect d), bytes_words b, st) }
        else do {
          (r, st) \<leftarrow> fa st 1;
          Some (r, replicate 128 0, st) });
     case r of
       None \<Rightarrow> Some (False, d, st)
     | Some s \<Rightarrow> do {
         let d = d\<lparr>id_indirect := s\<rparr>;
         (ok, iid, st) \<leftarrow> alloc_slots fa sectors 0 iid st;
         if \<not> ok then Some (False, d, st)
         else do {
           st \<leftarrow> fs_write st (id_indirect d) (words_bytes iid);
           Some (True, d, st) } } }"

text \<open>
  Doubly indirect blocks: level 1.  When there is no index block yet, the code zeroes the sector
  \<^verbatim>\<open>inode_disk->dindirect\<close> before it allocates one, while that number is still 0.
\<close>

definition dindirect_start :: "allocator \<Rightarrow> fs \<Rightarrow> inode_disk \<Rightarrow> (disk_sector_t option \<times> disk_sector_t list \<times> fs) option" where
  "dindirect_start fa st d =
     (if id_dindirect d \<noteq> 0 then do {
        (b, st) \<leftarrow> fs_read st (id_dindirect d);
        Some (Some (id_dindirect d), bytes_words b, st) }
      else do {
        st \<leftarrow> fs_write st (id_dindirect d) zeros;
        (r, st) \<leftarrow> fa st 1;
        Some (r, replicate 128 0, st) })"

fun dindirect_rows :: "allocator \<Rightarrow> nat \<Rightarrow> nat \<Rightarrow> nat \<Rightarrow> disk_sector_t list \<Rightarrow> fs \<Rightarrow> (bool \<times> disk_sector_t list \<times> fs) option" where
  "dindirect_rows fa sectors 0 i iid st = Some (True, iid, st)"
| "dindirect_rows fa sectors (Suc k) i iid st = do {
     (ok, iid, st) \<leftarrow> alloc_slots fa 1 i iid st;
     if \<not> ok then Some (False, iid, st)
     else do {
       s \<leftarrow> arr_get iid i;
       (b, st) \<leftarrow> fs_read st s;
       let wtf = (if i = sectors div 128 then sectors mod 128 else 128);
       (ok, diid, st) \<leftarrow> alloc_slots fa wtf 0 (bytes_words b) st;
       if \<not> ok then Some (False, iid, st)
       else do {
         st \<leftarrow> fs_write st s (words_bytes diid);
         dindirect_rows fa sectors k (Suc i) iid st } } }"

definition indirect_alloc_double :: "allocator \<Rightarrow> fs \<Rightarrow> inode_disk \<Rightarrow> nat \<Rightarrow> (bool \<times> inode_disk \<times> fs) option" where
  "indirect_alloc_double fa st d sectors = do {
     kassert (mem_ok st);
     (r, iid, st) \<leftarrow> dindirect_start fa st d;
     case r of
       None \<Rightarrow> Some (False, d, st)
     | Some s \<Rightarrow> do {
         let d = d\<lparr>id_dindirect := s\<rparr>;
         (ok, iid, st) \<leftarrow> dindirect_rows fa sectors (sectors div 128 + 1) 0 iid st;
         if \<not> ok then Some (False, d, st)
         else do {
           st \<leftarrow> fs_write st (id_dindirect d) (words_bytes iid);
           Some (True, d, st) } } }"

definition inode_indirect_alloc :: "allocator \<Rightarrow> fs \<Rightarrow> inode_disk \<Rightarrow> nat \<Rightarrow> int \<Rightarrow> (bool \<times> inode_disk \<times> fs) option" where
  "inode_indirect_alloc fa st d sectors level =
     (if level = 0 then indirect_alloc_single fa st d sectors
      else if level = 1 then indirect_alloc_double fa st d sectors
      else Some (True, d, st))"

definition inode_disk_allocate :: "allocator \<Rightarrow> fs \<Rightarrow> inode_disk \<Rightarrow> nat \<Rightarrow> (bool \<times> inode_disk \<times> fs) option" where
  "inode_disk_allocate fa st d sectors = do {
     let di = (if sectors > 123 then 123 else sectors);
     (ok, direct, st) \<leftarrow> alloc_slots fa di 0 (id_direct d) st;
     let d = d\<lparr>id_direct := direct\<rparr>;
     if \<not> ok then Some (False, d, st)
     else if sectors \<le> 123 then Some (True, d, st)
     else do {
       let idi = (if sectors - 123 > 128 then 128 else sectors - 123);
       (ok, d, st) \<leftarrow> inode_indirect_alloc fa st d idi 0;
       if \<not> ok then Some (False, d, st)
       else if sectors - 123 \<le> 128 then Some (True, d, st)
       else do {
         let didi = sectors - 123 - 128;
         kassert (didi \<le> 128 * 128);
         inode_indirect_alloc fa st d didi 1 } } }"

section \<open>Writing, and the free map\<close>

type_synonym writer = "fs \<Rightarrow> nat \<Rightarrow> byte list \<Rightarrow> int \<Rightarrow> int \<Rightarrow> (int \<times> fs) option"

text \<open>
  \<^verbatim>\<open>inode_write_at\<close> over an allocator.  An inode whose growth fails keeps the blocks it got, in memory.
\<close>

definition inode_write_gen :: "allocator \<Rightarrow> writer" where
  "inode_write_gen fa st a buf sze offset = do {
     ino \<leftarrow> inodes st a;
     if i_deny_write_cnt ino \<noteq> 0 then Some (0, st)
     else do {
       (s, st) \<leftarrow> byte_to_sector st (i_data ino) (i32 (i32 (offset + sze) - 1));
       if s = - 1 then do {
         (ok, d, st) \<leftarrow> inode_disk_allocate fa st (i_data ino) (bytes_to_sectors (i32 (offset + sze)));
         if \<not> ok then do { st \<leftarrow> upd_inode a (\<lambda>i. i\<lparr>i_data := d\<rparr>) st; Some (0, st) }
         else do {
           let d = d\<lparr>id_length := i32 (offset + sze)\<rparr>;
           st \<leftarrow> upd_inode a (\<lambda>i. i\<lparr>i_data := d\<rparr>) st;
           st \<leftarrow> fs_write st (i_sector ino) (inode_bytes d);
           inode_write_loop d buf sze offset st } }
       else inode_write_loop (i_data ino) buf sze offset st } }"

text \<open>\<^verbatim>\<open>bitmap_write\<close> and \<^verbatim>\<open>bitmap_read\<close> over the file functions.\<close>

definition bitmap_write_gen :: "writer \<Rightarrow> bitmap \<Rightarrow> kfile \<Rightarrow> fs \<Rightarrow> (bool \<times> fs) option" where
  "bitmap_write_gen wr b fil st = do {
     let sze = i32 (int (byte_cnt (bit_cnt b)));
     (n, st) \<leftarrow> wr st (f_inode fil) (words_bytes (bits b)) sze 0;
     Some (n = sze, st) }"

definition free_map_allocate_gen :: "writer \<Rightarrow> allocator" where
  "free_map_allocate_gen wr st cnt = do {
     (sector, b) \<leftarrow> bitmap_scan_and_flip (free_map st) 0 cnt False;
     let st = st\<lparr>free_map := b\<rparr>;
     if sector = BITMAP_ERROR then Some (None, st)
     else case free_map_file st of
         None \<Rightarrow> Some (Some (of_nat sector), st)
       | Some fil \<Rightarrow> do {
           (ok, st) \<leftarrow> bitmap_write_gen wr (free_map st) fil st;
           if ok then Some (Some (of_nat sector), st)
           else do {
             b \<leftarrow> bitmap_set_multiple (free_map st) sector cnt False;
             Some (None, st\<lparr>free_map := b\<rparr>) } } }"

text \<open>
  The allocator with at most \<open>d\<close> levels of writes to the free map that allocate themselves; running
  out of levels is undefined.
\<close>

fun fm_alloc :: "nat \<Rightarrow> allocator" where
  "fm_alloc 0 st cnt = None"
| "fm_alloc (Suc d) st cnt = free_map_allocate_gen (inode_write_gen (fm_alloc d)) st cnt"

definition ALLOC_DEPTH :: nat where "ALLOC_DEPTH = 2"

definition free_map_allocate :: "fs \<Rightarrow> nat \<Rightarrow> (disk_sector_t option \<times> fs) option" where
  "free_map_allocate = fm_alloc ALLOC_DEPTH"

definition inode_write_at :: "fs \<Rightarrow> nat \<Rightarrow> byte list \<Rightarrow> int \<Rightarrow> int \<Rightarrow> (int \<times> fs) option" where
  "inode_write_at = inode_write_gen free_map_allocate"

definition bitmap_write :: "bitmap \<Rightarrow> kfile \<Rightarrow> fs \<Rightarrow> (bool \<times> fs) option" where
  "bitmap_write = bitmap_write_gen inode_write_at"

definition free_map_release :: "fs \<Rightarrow> disk_sector_t \<Rightarrow> nat \<Rightarrow> fs option" where
  "free_map_release st sector cnt = do {
     t \<leftarrow> bitmap_all (free_map st) (unat sector) cnt;
     kassert t;
     b \<leftarrow> bitmap_set_multiple (free_map st) (unat sector) cnt False;
     let st = st\<lparr>free_map := b\<rparr>;
     fil \<leftarrow> free_map_file st;
     (_, st) \<leftarrow> bitmap_write (free_map st) fil st;
     Some st }"

section \<open>Creation, opening, closing\<close>

definition inode_create :: "fs \<Rightarrow> disk_sector_t \<Rightarrow> int \<Rightarrow> bool \<Rightarrow> (bool \<times> fs) option" where
  "inode_create st sector len directory = do {
     kassert (len \<ge> 0);
     if \<not> mem_ok st then Some (False, st)
     else do {
       let sectors = bytes_to_sectors len;
       let d = \<lparr>id_direct = replicate 123 0, id_indirect = 0, id_dindirect = 0, id_directory = directory,
                id_length = len, id_magic = INODE_MAGIC\<rparr>;
       (ok, d, st) \<leftarrow> inode_disk_allocate free_map_allocate st d sectors;
       if ok then do { st \<leftarrow> fs_write st sector (inode_bytes d); Some (True, st) }
       else Some (False, st) } }"

definition inode_init :: "fs \<Rightarrow> fs" where
  "inode_init st = st\<lparr>open_inodes := []\<rparr>"

definition inode_reopen :: "nat \<Rightarrow> fs \<Rightarrow> fs option" where
  "inode_reopen a st = upd_inode a (\<lambda>i. i\<lparr>i_open_cnt := i_open_cnt i + 1\<rparr>) st"

fun find_open :: "fs \<Rightarrow> nat list \<Rightarrow> disk_sector_t \<Rightarrow> nat option option" where
  "find_open st [] sector = Some None"
| "find_open st (a # as) sector = do {
     ino \<leftarrow> inodes st a;
     if i_sector ino = sector then Some (Some a) else find_open st as sector }"

definition inode_open :: "fs \<Rightarrow> disk_sector_t \<Rightarrow> (nat option \<times> fs) option" where
  "inode_open st sector = do {
     r \<leftarrow> find_open st (open_inodes st) sector;
     case r of
       Some a \<Rightarrow> do { st \<leftarrow> inode_reopen a st; Some (Some a, st) }
     | None \<Rightarrow>
         if \<not> mem_ok st then Some (None, st)
         else do {
           let a = next_addr st;
           (b, st) \<leftarrow> fs_read st sector;
           Some (Some a, st\<lparr>next_addr := a + 1, open_inodes := a # open_inodes st,
             inodes := (inodes st)(a \<mapsto> \<lparr>i_sector = sector, i_open_cnt = 1, i_removed = False,
               i_deny_write_cnt = 0, i_data = bytes_inode b, i_parent = None\<rparr>)\<rparr>) } }"

definition inode_get_inumber :: "inode \<Rightarrow> disk_sector_t" where
  "inode_get_inumber ino = i_sector ino"

text \<open>Freeing: \<^verbatim>\<open>release_all\<close> is the loop around \<^verbatim>\<open>free_map_release\<close> that every level has.\<close>

fun release_all :: "disk_sector_t list \<Rightarrow> fs \<Rightarrow> fs option" where
  "release_all [] st = Some st"
| "release_all (s # ss) st = do { st \<leftarrow> free_map_release st s 1; release_all ss st }"

text \<open>
  At level 1 the code reads the singly indirect block, and picks the row by \<open>j\<close>, which is what the
  inner loop left there: 0 in the first round, 128 after a full row.
\<close>

fun dindirect_free_rows :: "nat \<Rightarrow> nat \<Rightarrow> nat \<Rightarrow> nat \<Rightarrow> disk_sector_t list \<Rightarrow> fs \<Rightarrow> fs option" where
  "dindirect_free_rows sectors 0 i j iid st = Some st"
| "dindirect_free_rows sectors (Suc k) i j iid st = do {
     s \<leftarrow> arr_get iid j;
     (b, st) \<leftarrow> fs_read st s;
     let wtf = (if i = sectors div 128 then sectors mod 128 else 128);
     st \<leftarrow> release_all (take wtf (bytes_words b)) st;
     dindirect_free_rows sectors k (Suc i) wtf iid st }"

definition inode_indirect_free :: "fs \<Rightarrow> inode_disk \<Rightarrow> nat \<Rightarrow> int \<Rightarrow> fs option" where
  "inode_indirect_free st d sectors level =
     (if level = 0 then do {
        kassert (mem_ok st);
        (b, st) \<leftarrow> fs_read st (id_indirect d);
        kassert (sectors \<le> length (bytes_words b));
        release_all (take sectors (bytes_words b)) st }
      else if level = 1 then do {
        kassert (mem_ok st);
        (b, st) \<leftarrow> fs_read st (id_indirect d);
        dindirect_free_rows sectors (sectors div 128 + 1) 0 0 (bytes_words b) st }
      else Some st)"

definition inode_disk_free :: "fs \<Rightarrow> inode_disk \<Rightarrow> nat \<Rightarrow> fs option" where
  "inode_disk_free st d sectors = do {
     let di = (if sectors > 123 then 123 else sectors);
     st \<leftarrow> release_all (take di (id_direct d)) st;
     if sectors \<le> 123 then Some st
     else do {
       let idi = (if sectors - 123 > 128 then 128 else sectors - 123);
       st \<leftarrow> inode_indirect_free st d idi 0;
       if idi \<le> 128 then Some st
       else do {
         let didi = sectors - 123 - 128;
         kassert (didi \<le> 128 * 128);
         inode_indirect_free st d didi 1 } } }"

definition inode_close :: "fs \<Rightarrow> nat option \<Rightarrow> fs option" where
  "inode_close st p =
     (case p of
        None \<Rightarrow> Some st
      | Some a \<Rightarrow> do {
          ino \<leftarrow> inodes st a;
          let ino = ino\<lparr>i_open_cnt := i_open_cnt ino - 1\<rparr>;
          let st = st\<lparr>inodes := (inodes st)(a \<mapsto> ino)\<rparr>;
          if i_open_cnt ino = 0 then do {
            let st = st\<lparr>open_inodes := remove1 a (open_inodes st)\<rparr>;
            st \<leftarrow> (if i_removed ino then do {
                st \<leftarrow> free_map_release st (i_sector ino) 1;
                inode_disk_free st (i_data ino) (bytes_to_sectors (id_length (i_data ino))) }
              else Some st);
            Some (st\<lparr>inodes := (inodes st)(a := None)\<rparr>) }
          else Some st })"

definition inode_remove :: "fs \<Rightarrow> nat \<Rightarrow> fs option" where
  "inode_remove st a = upd_inode a (\<lambda>i. i\<lparr>i_removed := True\<rparr>) st"

definition inode_deny_write :: "fs \<Rightarrow> nat \<Rightarrow> fs option" where
  "inode_deny_write st a = do {
     ino \<leftarrow> inodes st a;
     kassert (i_deny_write_cnt ino + 1 \<le> i_open_cnt ino);
     upd_inode a (\<lambda>i. i\<lparr>i_deny_write_cnt := i_deny_write_cnt i + 1\<rparr>) st }"

definition inode_allow_write :: "fs \<Rightarrow> nat \<Rightarrow> fs option" where
  "inode_allow_write st a = do {
     ino \<leftarrow> inodes st a;
     kassert (i_deny_write_cnt ino > 0);
     kassert (i_deny_write_cnt ino \<le> i_open_cnt ino);
     upd_inode a (\<lambda>i. i\<lparr>i_deny_write_cnt := i_deny_write_cnt i - 1\<rparr>) st }"

section \<open>The layout is a bijection\<close>

lemma length_words_bytes [simp]: "length (words_bytes ws) = 4 * length ws"
  by (induction ws) (simp_all add: words_bytes_def)

lemma bytes_words_le32 [simp]: "bytes_words (le32 w @ bs) = w # bytes_words bs"
  using un_le32_le32 [of w "[]"] by (simp add: le32_def)

lemma bytes_words_append [simp]: "bytes_words (words_bytes ws @ bs) = ws @ bytes_words bs"
  by (induction ws) (simp_all add: words_bytes_def)

lemma bytes_words_words_bytes [simp]: "bytes_words (words_bytes ws) = ws"
  using bytes_words_append [of ws "[]"] by simp

lemma length_bytes_words [simp]: "length (bytes_words bs) = length bs div 4"
  by (induction bs rule: bytes_words.induct) simp_all

lemma length_inode_bytes [simp]: "length (id_direct d) = 123 \<Longrightarrow> length (inode_bytes d) = 512"
  by (simp add: inode_bytes_def)

lemma nth_words_bytes_append: "n = 4 * length ws \<Longrightarrow> (words_bytes ws @ bs) ! (n + i) = bs ! i"
  by (simp add: nth_append)

lemma bytes_inode_bytes:
  assumes "length (id_direct d) = 123" and "- (2 ^ 31) \<le> id_length d" and "id_length d < 2 ^ 31"
  shows "bytes_inode (inode_bytes d) = d"
proof -
  let ?flag = "[if id_directory d then 1 else 0, 0, 0, 0] :: byte list"
  let ?tail = "le32 (word_of_int (id_length d)) @ le32 (id_magic d)"
  have ws: "bytes_words (inode_bytes d)
      = id_direct d @ [id_indirect d, id_dindirect d, un_le32 ?flag, word_of_int (id_length d), id_magic d]"
    using bytes_words_le32 [of "id_magic d" "[]"] by (simp add: inode_bytes_def)
  have "inode_bytes d ! 500 = (words_bytes (id_direct d) @ le32 (id_indirect d)
      @ le32 (id_dindirect d) @ ?flag @ ?tail) ! (492 + 8)" by (simp add: inode_bytes_def)
  also have "\<dots> = (le32 (id_indirect d) @ le32 (id_dindirect d) @ ?flag @ ?tail) ! 8"
    by (rule nth_words_bytes_append) (use assms(1) in simp)
  finally have flag: "inode_bytes d ! 500 = (if id_directory d then 1 else 0)" by (simp add: le32_def)
  have "sint (word_of_int (id_length d) :: u32) = id_length d"
    using assms(2,3) by (simp add: int_word_sint)
  with ws flag assms(1) show ?thesis
    by (simp add: bytes_inode_def Let_def nth_append)
qed

end
