(* ===== verification/Inode_IO.thy ===== *)
theory Inode_IO
  imports Inode
begin

text \<open>
  Reading and writing inside a file: \<open>block_of\<close> is the block map that \<^verbatim>\<open>byte_to_sector\<close> walks, read
  off the contents of the sectors; \<open>fbyte\<close> is the byte of a file at a position.  \<^verbatim>\<open>inode_read_at\<close> and
  \<^verbatim>\<open>inode_write_at\<close> are shown to be the reads and updates of that byte array.
\<close>

section \<open>The sectors below\<close>

abbreviation fview :: "fs \<Rightarrow> disk_sector_t \<Rightarrow> byte list" where
  "fview st \<equiv> view (fs_cache st)"

abbreviation fvalid :: "fs \<Rightarrow> disk_sector_t \<Rightarrow> bool" where
  "fvalid st \<equiv> cache_valid (fs_cache st)"

abbreviation fs_ok :: "fs \<Rightarrow> bool" where
  "fs_ok st \<equiv> cache_inv (fs_cache st)"

text \<open>\<open>fs_becomes st st' v\<close>: only the cache changed, and the sectors now read as \<open>v\<close>.\<close>

definition fs_becomes :: "fs \<Rightarrow> fs \<Rightarrow> (disk_sector_t \<Rightarrow> byte list) \<Rightarrow> bool" where
  "fs_becomes st st' v \<longleftrightarrow> st' = st\<lparr>fs_cache := fs_cache st'\<rparr> \<and> fs_ok st' \<and> fvalid st' = fvalid st \<and> fview st' = v"

lemma fs_becomes_rest:
  assumes "fs_becomes st st' v"
  shows "fs_ok st'" "fvalid st' = fvalid st" "fview st' = v" "mem_ok st' = mem_ok st" "inodes st' = inodes st"
    "free_map st' = free_map st" "free_map_file st' = free_map_file st" "open_inodes st' = open_inodes st"
    "next_addr st' = next_addr st"
proof -
  from assms obtain c where "st' = st\<lparr>fs_cache := c\<rparr>" by (auto simp: fs_becomes_def)
  with assms show "fs_ok st'" "fvalid st' = fvalid st" "fview st' = v" "mem_ok st' = mem_ok st" "inodes st' = inodes st"
    "free_map st' = free_map st" "free_map_file st' = free_map_file st" "open_inodes st' = open_inodes st"
    "next_addr st' = next_addr st" by (simp_all add: fs_becomes_def)
qed

lemma fs_becomes_refl: "fs_ok st \<Longrightarrow> fs_becomes st st (fview st)"
  by (simp add: fs_becomes_def)

lemma fs_becomes_trans:
  assumes "fs_becomes st st' v" and "fs_becomes st' st'' v'"
  shows "fs_becomes st st'' v'"
proof -
  have "st' = st\<lparr>fs_cache := fs_cache st'\<rparr>" "st'' = st'\<lparr>fs_cache := fs_cache st''\<rparr>"
    using assms by (simp_all add: fs_becomes_def)
  then have "st'' = st\<lparr>fs_cache := fs_cache st''\<rparr>"
    by (metis fs.surjective fs.update_convs(1))
  with assms show ?thesis by (simp add: fs_becomes_def)
qed

lemma fs_read_ok:
  assumes "fs_ok st" and "fvalid st s"
  shows "\<exists>st'. fs_read st s = Some (fview st s, st') \<and> fs_becomes st st' (fview st)"
proof -
  from bc.rd_law [OF assms] obtain c where "buffer_cache_read (fs_cache st) s = Some (fview st s, c)" "cache_inv c"
    "cache_valid c = fvalid st" "view c = fview st" by blast
  then show ?thesis by (simp add: fs_read_def fs_becomes_def)
qed

lemma fs_write_ok:
  assumes "fs_ok st" and "fvalid st s" and "length b = DISK_SECTOR_SIZE"
  shows "\<exists>st'. fs_write st s b = Some st' \<and> fs_becomes st st' ((fview st)(s := b))"
proof -
  from bc.wr_law [OF assms] obtain c where "buffer_cache_write (fs_cache st) s b = Some c" "cache_inv c"
    "cache_valid c = fvalid st" "view c = (fview st)(s := b)" by blast
  then show ?thesis by (simp add: fs_write_def fs_becomes_def)
qed

lemma fview_length: "fs_ok st \<Longrightarrow> fvalid st s \<Longrightarrow> length (fview st s) = 512"
  using bc.content_length by (simp add: DISK_SECTOR_SIZE_def)

section \<open>The block map\<close>

definition block_of :: "(disk_sector_t \<Rightarrow> byte list) \<Rightarrow> inode_disk \<Rightarrow> nat \<Rightarrow> disk_sector_t" where
  "block_of v d k =
     (if k < 123 then id_direct d ! k
      else if k < 251 then bytes_words (v (id_indirect d)) ! (k - 123)
      else bytes_words (v (bytes_words (v (id_dindirect d)) ! ((k - 251) div 128))) ! ((k - 251) mod 128))"

text \<open>The index blocks on the way to block \<open>k\<close>.\<close>

definition index_path :: "(disk_sector_t \<Rightarrow> byte list) \<Rightarrow> inode_disk \<Rightarrow> nat \<Rightarrow> disk_sector_t set" where
  "index_path v d k =
     (if k < 123 then {}
      else if k < 251 then {id_indirect d}
      else {id_dindirect d, bytes_words (v (id_dindirect d)) ! ((k - 251) div 128)})"

definition blocks :: "inode_disk \<Rightarrow> nat" where
  "blocks d = (nat (id_length d) + 511) div 512"

definition data_blocks :: "(disk_sector_t \<Rightarrow> byte list) \<Rightarrow> inode_disk \<Rightarrow> disk_sector_t set" where
  "data_blocks v d = block_of v d ` {..<blocks d}"

definition index_blocks :: "(disk_sector_t \<Rightarrow> byte list) \<Rightarrow> inode_disk \<Rightarrow> disk_sector_t set" where
  "index_blocks v d = (\<Union>k \<in> {..nat (id_length d) div 512}. index_path v d k)"

text \<open>
  A well-formed inode: its sectors are on the disk, no sector is used for two of its blocks, and no
  index block is a data block.  A file never has all 16635 blocks: past the last one the block map is
  undefined.
\<close>

definition inode_wf :: "(disk_sector_t \<Rightarrow> bool) \<Rightarrow> (disk_sector_t \<Rightarrow> byte list) \<Rightarrow> inode_disk \<Rightarrow> bool" where
  "inode_wf ok v d \<longleftrightarrow> length (id_direct d) = 123 \<and> 0 \<le> id_length d \<and> id_length d < 16635 * 512
     \<and> (\<forall>s \<in> index_blocks v d. ok s) \<and> (\<forall>s \<in> data_blocks v d. ok s)
     \<and> inj_on (block_of v d) {..<blocks d} \<and> index_blocks v d \<inter> data_blocks v d = {}"

definition fbyte :: "(disk_sector_t \<Rightarrow> byte list) \<Rightarrow> inode_disk \<Rightarrow> nat \<Rightarrow> byte" where
  "fbyte v d q = v (block_of v d (q div 512)) ! (q mod 512)"

lemma index_path_blocks: "k \<le> nat (id_length d) div 512 \<Longrightarrow> index_path v d k \<subseteq> index_blocks v d"
  by (auto simp: index_blocks_def)

lemma block_in_blocks: "q < nat (id_length d) \<Longrightarrow> q div 512 < blocks d"
  by (simp add: blocks_def)

lemma block_of_cong:
  assumes "\<And>s. s \<in> index_path v d k \<Longrightarrow> v' s = v s"
  shows "block_of v' d k = block_of v d k" and "index_path v' d k = index_path v d k"
  using assms by (auto simp: block_of_def index_path_def)

lemma byte_to_sector_ok:
  assumes "fs_ok st" "mem_ok st" "inode_wf (fvalid st) (fview st) d" "0 \<le> p" "p \<le> id_length d"
  shows "\<exists>st'. byte_to_sector st d p = Some (block_of (fview st) d (nat p div 512), st')
    \<and> fs_becomes st st' (fview st)"
proof -
  define k where "k = nat p div 512"
  have cd: "cdiv p 512 = int k" using assms(4) by (simp add: cdiv_nonneg zdiv_int k_def)
  have le: "\<not> id_length d < p" using assms(5) by simp
  have kle: "k \<le> nat (id_length d) div 512" using assms(5) by (simp add: div_le_mono nat_mono k_def)
  have "nat (id_length d) < 16635 * 512" using assms(3) by (simp add: inode_wf_def nat_less_iff)
  with kle have kmax: "k < 16635" by linarith
  have dir: "length (id_direct d) = 123" using assms(3) by (simp add: inode_wf_def)
  have path: "fvalid st s" if "s \<in> index_path (fview st) d k" for s
    using that assms(3) index_path_blocks [OF kle] by (auto simp: inode_wf_def)
  note len = fview_length [OF assms(1)]
  consider "k < 123" | "123 \<le> k" "k < 251" | "251 \<le> k" by linarith
  then have "\<exists>st'. byte_to_sector st d p = Some (block_of (fview st) d k, st') \<and> fs_becomes st st' (fview st)"
  proof cases
    case 1
    then show ?thesis using assms(1) le cd dir
      by (simp add: byte_to_sector_def block_of_def fs_becomes_refl)
  next
    case 2
    then have v: "fvalid st (id_indirect d)" using path by (simp add: index_path_def)
    from fs_read_ok [OF assms(1) v] obtain st' where
      st': "fs_read st (id_indirect d) = Some (fview st (id_indirect d), st')" "fs_becomes st st' (fview st)" by blast
    have n: "nat (int k - 123) = k - 123" "k - 123 < 128" using 2 by linarith+
    from 2 st' n len [OF v] assms(2) le cd show ?thesis
      by (simp add: byte_to_sector_def block_of_def)
  next
    case 3
    define row where "row = bytes_words (fview st (id_dindirect d)) ! ((k - 251) div 128)"
    have v: "fvalid st (id_dindirect d)" "fvalid st row" using path 3 by (simp_all add: index_path_def row_def)
    from fs_read_ok [OF assms(1) v(1)] obtain st1 where
      st1: "fs_read st (id_dindirect d) = Some (fview st (id_dindirect d), st1)" "fs_becomes st st1 (fview st)" by blast
    from fs_read_ok [of st1 row] fs_becomes_rest [OF st1(2)] v(2) obtain st2 where
      st2: "fs_read st1 row = Some (fview st row, st2)" "fs_becomes st1 st2 (fview st)" by auto
    have i: "int k - 123 - 128 = int (k - 251)" using 3 by simp
    have d: "nat (cdiv (int (k - 251)) 128) = (k - 251) div 128" "nat (cmod (int (k - 251)) 128) = (k - 251) mod 128"
      by (simp_all add: cdiv_nonneg cmod_nonneg nat_div_distrib nat_mod_distrib)
    have b: "(k - 251) div 128 < 128" "(k - 251) mod 128 < 128" using kmax by simp_all
    have g: "arr_get (bytes_words (fview st (id_dindirect d))) ((k - 251) div 128) = Some row"
      "arr_get (bytes_words (fview st row)) ((k - 251) mod 128) = Some (block_of (fview st) d k)"
      using b len [OF v(1)] len [OF v(2)] 3 by (simp_all add: row_def block_of_def)
    have "byte_to_sector st d p = Some (block_of (fview st) d k, st2)"
      unfolding byte_to_sector_def cd Let_def i d using 3 kmax le assms(2) st1(1) st2(1) g by simp
    with fs_becomes_trans [OF st1(2) st2(2)] show ?thesis by blast
  qed
  then show ?thesis by (simp add: k_def)
qed

lemma byte_to_sector_outside:
  "id_length d < p \<Longrightarrow> byte_to_sector st d p = Some (- 1, st)"
  by (simp add: byte_to_sector_def)

section \<open>One round of the loops\<close>

lemma chunk_size_eq:
  assumes "0 \<le> offset" "0 \<le> id_length d" "id_length d < 2 ^ 31" "offset < 2 ^ 31"
  shows "chunk_size d sze offset = min sze (min (id_length d - offset) (512 - offset mod 512))"
proof -
  have "i32 (id_length d - offset) = id_length d - offset" using assms by (intro i32_id) auto
  with assms(1) show ?thesis by (simp add: chunk_size_def cmod_nonneg Let_def min_def)
qed

lemma chunk_positive:
  assumes "0 \<le> offset" "offset < id_length d" "0 < sze" "id_length d < 2 ^ 31"
  shows "0 < chunk_size d sze offset" "chunk_size d sze offset \<le> sze"
    "offset + chunk_size d sze offset \<le> id_length d"
    "offset mod 512 + chunk_size d sze offset \<le> 512"
proof -
  have c: "chunk_size d sze offset = min sze (min (id_length d - offset) (512 - offset mod 512))"
    using assms by (intro chunk_size_eq) auto
  have "offset mod 512 < 512" by simp
  with assms show "0 < chunk_size d sze offset" "chunk_size d sze offset \<le> sze"
    "offset + chunk_size d sze offset \<le> id_length d"
    "offset mod 512 + chunk_size d sze offset \<le> 512" unfolding c by auto
qed

lemma inode_read_step:
  assumes "fs_ok st" "mem_ok st" "inode_wf (fvalid st) (fview st) d" "0 \<le> offset" "offset < id_length d" "0 < sze"
  defines "c \<equiv> chunk_size d sze offset"
  shows "\<exists>st'. fs_becomes st st' (fview st) \<and>
    inode_read_loop d sze offset st = do {
      (rest, st'') \<leftarrow> inode_read_loop d (sze - c) (offset + c) st';
      Some (take (nat c) (drop (nat (offset mod 512)) (fview st (block_of (fview st) d (nat offset div 512)))) @ rest, st'') }"
proof -
  let ?b = "block_of (fview st) d (nat offset div 512)"
  have len: "id_length d < 2 ^ 31" using assms(3) by (simp add: inode_wf_def)
  note c = chunk_positive [OF assms(4,5,6) len, folded c_def]
  have "?b \<in> data_blocks (fview st) d"
    using block_in_blocks [of "nat offset" d] assms(4,5) by (auto simp: data_blocks_def)
  then have v: "fvalid st ?b" using assms(3) by (simp add: inode_wf_def)
  from byte_to_sector_ok [OF assms(1-4)] assms(5) obtain st1 where
    st1: "byte_to_sector st d offset = Some (?b, st1)" "fs_becomes st st1 (fview st)" by auto
  note r = fs_becomes_rest [OF st1(2)]
  from fs_read_ok [of st1 ?b] r v obtain st2 where
    st2: "fs_read st1 ?b = Some (fview st ?b, st2)" "fs_becomes st1 st2 (fview st)" by auto
  have full: "take 512 (fview st ?b) = fview st ?b" using fview_length [OF assms(1) v] by simp
  have "inode_read_loop d sze offset st = do {
      (rest, st'') \<leftarrow> inode_read_loop d (sze - c) (offset + c) st2;
      Some (take (nat c) (drop (nat (offset mod 512)) (fview st ?b)) @ rest, st'') }"
    unfolding inode_read_loop.simps [of d sze offset st] c_def [symmetric] Let_def cmod_nonneg [OF assms(4), of 512, simplified]
    using assms(2,6) c st1(1) st2(1) r full by (cases "offset mod 512 = 0 \<and> c = 512") simp_all
  with fs_becomes_trans [OF st1(2) st2(2)] show ?thesis by blast
qed

lemma inode_read_stop:
  assumes "fs_ok st" "mem_ok st" "inode_wf (fvalid st) (fview st) d" "0 \<le> offset" "offset < 2 ^ 31"
    and "sze \<le> 0 \<or> id_length d \<le> offset"
  shows "\<exists>st'. inode_read_loop d sze offset st = Some ([], st') \<and> fs_becomes st st' (fview st)"
proof (cases "sze \<le> 0")
  case True
  then show ?thesis by (subst inode_read_loop.simps) (simp add: fs_becomes_refl [OF assms(1)])
next
  case False
  have len: "0 \<le> id_length d" "id_length d < 2 ^ 31" using assms(3) by (simp_all add: inode_wf_def)
  have c: "chunk_size d sze offset \<le> 0" using chunk_size_eq [OF assms(4) len assms(5), of sze] False assms(6) by simp
  have "\<exists>r st'. byte_to_sector st d offset = Some (r, st') \<and> fs_becomes st st' (fview st)"
  proof (cases "offset = id_length d")
    case True
    then show ?thesis using byte_to_sector_ok [OF assms(1-4)] by auto
  next
    case False
    then show ?thesis using \<open>\<not> sze \<le> 0\<close> assms(6) byte_to_sector_outside [of d offset st] fs_becomes_refl [OF assms(1)] by auto
  qed
  then obtain r st' where "byte_to_sector st d offset = Some (r, st')" "fs_becomes st st' (fview st)" by blast
  then show ?thesis using c False by (subst inode_read_loop.simps) simp
qed

lemma same_block:
  assumes "q mod m + i < (m :: nat)"
  shows "(q + i) div m = q div m" and "(q + i) mod m = q mod m + i"
proof -
  have "q + i = m * (q div m) + (q mod m + i)" by (metis add.assoc mult_div_mod_eq)
  moreover have "(m * (q div m) + (q mod m + i)) div m = q div m"
    using assms by (simp only: div_mult_self4) simp
  ultimately show "(q + i) div m = q div m" by simp
  show "(q + i) mod m = q mod m + i"
    using assms mod_add_left_eq [of q m i] by simp
qed

lemma map_fbyte_chunk:
  assumes "length (v (block_of v d (q div 512))) = 512" "q mod 512 + c \<le> 512"
  shows "take c (drop (q mod 512) (v (block_of v d (q div 512)))) = map (fbyte v d) [q..<q + c]"
proof (rule nth_equalityI)
  fix i
  assume "i < length (take c (drop (q mod 512) (v (block_of v d (q div 512)))))"
  then have i: "i < c" by simp
  with assms(2) have "q mod 512 + i < 512" by simp
  from same_block [OF this] i assms show "take c (drop (q mod 512) (v (block_of v d (q div 512)))) ! i = map (fbyte v d) [q..<q + c] ! i"
    by (simp add: fbyte_def)
qed (use assms in simp)

lemma upt_split: "[i..<i + (m + n)] = [i..<i + m] @ [i + m..<i + m + n]"
  using upt_add_eq_append [of i "i + m" n] by (simp add: add.assoc)

text \<open>Bytes of a request of \<open>sze\<close> bytes at \<open>offset\<close> that lie inside the file.\<close>

definition inside :: "inode_disk \<Rightarrow> int \<Rightarrow> int \<Rightarrow> nat" where
  "inside d sze offset = nat (min sze (id_length d - offset))"

lemma inside_split:
  "0 < c \<Longrightarrow> c \<le> sze \<Longrightarrow> offset + c \<le> id_length d \<Longrightarrow>
   inside d sze offset = nat c + inside d (sze - c) (offset + c)"
  by (simp add: inside_def min_def) linarith

lemma inode_read_loop_ok:
  assumes "fs_ok st" "mem_ok st" "inode_wf (fvalid st) (fview st) d" "0 \<le> offset" "offset < 2 ^ 31"
  shows "\<exists>st'. inode_read_loop d sze offset st
      = Some (map (fbyte (fview st) d) [nat offset..<nat offset + inside d sze offset], st')
    \<and> fs_becomes st st' (fview st)"
  using assms
proof (induction "nat sze" arbitrary: sze offset st rule: less_induct)
  case less
  show ?case
  proof (cases "sze \<le> 0 \<or> id_length d \<le> offset")
    case True
    then have "inside d sze offset = 0" by (auto simp: inside_def)
    with inode_read_stop [OF less.prems True] show ?thesis by simp
  next
    case False
    then have lt: "offset < id_length d" "0 < sze" by simp_all
    let ?v = "fview st" and ?c = "chunk_size d sze offset" and ?q = "nat offset"
    have len: "id_length d < 2 ^ 31" using less.prems(3) by (simp add: inode_wf_def)
    note c = chunk_positive [OF less.prems(4) lt len]
    from inode_read_step [OF less.prems(1-4) lt] obtain st1 where st1: "fs_becomes st st1 ?v"
      and step: "inode_read_loop d sze offset st = do {
        (rest, st'') \<leftarrow> inode_read_loop d (sze - ?c) (offset + ?c) st1;
        Some (take (nat ?c) (drop (nat (offset mod 512)) (?v (block_of ?v d (?q div 512)))) @ rest, st'') }" by blast
    note r = fs_becomes_rest [OF st1]
    have "\<exists>st'. inode_read_loop d (sze - ?c) (offset + ?c) st1
        = Some (map (fbyte ?v d) [nat (offset + ?c)..<nat (offset + ?c) + inside d (sze - ?c) (offset + ?c)], st')
      \<and> fs_becomes st1 st' ?v"
      using less.hyps [of "sze - ?c" st1 "offset + ?c"] less.prems c lt r len by simp
    then obtain st2 where st2: "inode_read_loop d (sze - ?c) (offset + ?c) st1
        = Some (map (fbyte ?v d) [nat (offset + ?c)..<nat (offset + ?c) + inside d (sze - ?c) (offset + ?c)], st2)"
      "fs_becomes st1 st2 ?v" by blast
    have "block_of ?v d (?q div 512) \<in> data_blocks ?v d"
      using block_in_blocks [of ?q d] less.prems(4) lt by (auto simp: data_blocks_def)
    then have "length (?v (block_of ?v d (?q div 512))) = 512"
      using less.prems(3) fview_length [OF less.prems(1)] by (simp add: inode_wf_def)
    moreover have m: "nat (offset mod 512) = ?q mod 512" using less.prems(4) by (simp add: nat_mod_distrib)
    moreover have "?q mod 512 + nat ?c \<le> 512" using c(1,4) m by linarith
    ultimately have here: "take (nat ?c) (drop (nat (offset mod 512)) (?v (block_of ?v d (?q div 512))))
        = map (fbyte ?v d) [?q..<?q + nat ?c]"
      by (simp add: map_fbyte_chunk)
    have n: "nat (offset + ?c) = ?q + nat ?c" using c(1) less.prems(4) by (simp add: nat_add_distrib)
    note n = n inside_split [OF c(1-3)]
    have "inode_read_loop d sze offset st
        = Some (map (fbyte ?v d) [?q..<?q + inside d sze offset], st2)"
      unfolding step st2(1) here n by (simp add: upt_split flip: map_append)
    with fs_becomes_trans [OF st1 st2(2)] show ?thesis by blast
  qed
qed

section \<open>Writing without growth\<close>

definition overlay :: "nat \<Rightarrow> nat \<Rightarrow> byte list \<Rightarrow> byte list \<Rightarrow> byte list" where
  "overlay o1 c buf b = take o1 b @ take c buf @ drop (o1 + c) b"

lemma length_overlay: "o1 + c \<le> length b \<Longrightarrow> c \<le> length buf \<Longrightarrow> length (overlay o1 c buf b) = length b"
  by (simp add: overlay_def)

lemma nth_overlay:
  assumes "o1 + c \<le> length b" "c \<le> length buf" "i < length b"
  shows "overlay o1 c buf b ! i = (if o1 \<le> i \<and> i < o1 + c then buf ! (i - o1) else b ! i)"
proof -
  consider "i < o1" | "o1 \<le> i" "i < o1 + c" | "o1 + c \<le> i" by linarith
  then show ?thesis
  proof cases
    case 2
    then have "i - o1 < c" by linarith
    with 2 assms show ?thesis by (simp add: overlay_def nth_append)
  next
    case 3
    then have "\<not> i - o1 < c" "o1 + c + (i - o1 - c) = i" by linarith+
    with 3 assms show ?thesis by (simp add: overlay_def nth_append)
  qed (use assms in \<open>simp add: overlay_def nth_append\<close>)
qed

text \<open>
  \<open>wrote v v' d q buf n\<close>: \<open>v'\<close> is \<open>v\<close> with the \<open>n\<close> bytes of the file from position \<open>q\<close> replaced by
  those of \<open>buf\<close>, and with no other change.
\<close>

definition wrote :: "(disk_sector_t \<Rightarrow> byte list) \<Rightarrow> (disk_sector_t \<Rightarrow> byte list) \<Rightarrow> inode_disk \<Rightarrow> nat \<Rightarrow> byte list \<Rightarrow> nat \<Rightarrow> bool" where
  "wrote v v' d q buf n \<longleftrightarrow> (\<forall>s. s \<notin> data_blocks v d \<longrightarrow> v' s = v s)
     \<and> (\<forall>r < nat (id_length d). fbyte v' d r = (if q \<le> r \<and> r < q + n then buf ! (r - q) else fbyte v d r))"

lemma blocks_le: "k < blocks d \<Longrightarrow> k \<le> nat (id_length d) div 512"
  by (simp add: blocks_def)

text \<open>The block map depends on the index blocks only.\<close>

lemma same_index:
  assumes idx: "\<forall>s \<in> index_blocks v d. v' s = v s"
  shows "\<And>k. k \<le> nat (id_length d) div 512 \<Longrightarrow> block_of v' d k = block_of v d k"
    and "data_blocks v' d = data_blocks v d" and "index_blocks v' d = index_blocks v d"
    and "inode_wf ok v' d = inode_wf ok v d"
proof -
  have path: "v' s = v s" if "s \<in> index_path v d k" "k \<le> nat (id_length d) div 512" for s k
    using that index_path_blocks idx by blast
  show b: "block_of v' d k = block_of v d k" if "k \<le> nat (id_length d) div 512" for k
    by (rule block_of_cong(1)) (use path that in blast)
  have "index_path v' d k = index_path v d k" if "k \<le> nat (id_length d) div 512" for k
    by (rule block_of_cong(2)) (use path that in blast)
  then show i: "index_blocks v' d = index_blocks v d" by (simp add: index_blocks_def)
  have eq: "block_of v' d k = block_of v d k" if "k < blocks d" for k using b blocks_le that by blast
  then show dd: "data_blocks v' d = data_blocks v d" by (simp add: data_blocks_def)
  have "inj_on (block_of v' d) {..<blocks d} = inj_on (block_of v d) {..<blocks d}"
    by (rule inj_on_cong) (simp add: eq)
  with i dd show "inode_wf ok v' d = inode_wf ok v d" by (simp add: inode_wf_def)
qed

lemma same_map:
  assumes wf: "inode_wf ok v d" and out: "\<forall>s. s \<notin> data_blocks v d \<longrightarrow> v' s = v s"
  shows "\<And>k. k \<le> nat (id_length d) div 512 \<Longrightarrow> block_of v' d k = block_of v d k"
    and "data_blocks v' d = data_blocks v d" and "index_blocks v' d = index_blocks v d" and "inode_wf ok v' d"
proof -
  have "\<forall>s \<in> index_blocks v d. v' s = v s" using wf out by (auto simp: inode_wf_def)
  note same = same_index [OF this]
  show "\<And>k. k \<le> nat (id_length d) div 512 \<Longrightarrow> block_of v' d k = block_of v d k"
    "data_blocks v' d = data_blocks v d" "index_blocks v' d = index_blocks v d" "inode_wf ok v' d"
    using same wf by simp_all
qed

lemma wrote_trans:
  assumes wf: "inode_wf ok v d" and a: "wrote v v1 d q buf c" and b: "wrote v1 v2 d (q + c) (drop c buf) m"
    and len: "c + m \<le> length buf"
  shows "wrote v v2 d q buf (c + m)"
proof -
  have out: "\<forall>s. s \<notin> data_blocks v d \<longrightarrow> v1 s = v s" using a by (simp add: wrote_def)
  note same = same_map [OF wf out]
  have "fbyte v2 d r = (if q \<le> r \<and> r < q + (c + m) then buf ! (r - q) else fbyte v d r)" if "r < nat (id_length d)" for r
  proof -
    consider "q \<le> r" "r < q + c" | "q + c \<le> r" "r < q + c + m" | "r < q \<or> q + c + m \<le> r" by linarith
    then show ?thesis using a b that len by cases (auto simp: wrote_def)
  qed
  moreover have "v2 s = v s" if "s \<notin> data_blocks v d" for s
    using that a b same(2) by (simp add: wrote_def)
  ultimately show ?thesis by (simp add: wrote_def)
qed

lemma wrote_refl: "wrote v v d q buf 0"
  by (simp add: wrote_def)

lemma wrote_block:
  assumes wf: "inode_wf ok v d" and q: "q < nat (id_length d)" and c: "q mod 512 + c \<le> 512" "c \<le> length buf"
    and len: "\<And>s. ok s \<Longrightarrow> length (v s) = 512"
  defines "b \<equiv> block_of v d (q div 512)"
  shows "wrote v (v(b := overlay (q mod 512) c buf (v b))) d q buf c"
proof -
  let ?v = "v(b := overlay (q mod 512) c buf (v b))"
  have bd: "b \<in> data_blocks v d" using block_in_blocks [OF q] by (auto simp: b_def data_blocks_def)
  then have lb: "length (v b) = 512" using len wf by (simp add: inode_wf_def)
  have out: "\<forall>s. s \<notin> data_blocks v d \<longrightarrow> ?v s = v s" using bd by auto
  note same = same_map [OF wf out]
  have "fbyte ?v d r = (if q \<le> r \<and> r < q + c then buf ! (r - q) else fbyte v d r)" if r: "r < nat (id_length d)" for r
  proof -
    have rb: "block_of ?v d (r div 512) = block_of v d (r div 512)"
      using same(1) [OF blocks_le [OF block_in_blocks [OF r]]] .
    show ?thesis
    proof (cases "r div 512 = q div 512")
      case True
      have eq: "r = 512 * (q div 512) + r mod 512" "q = 512 * (q div 512) + q mod 512"
        using True by (metis mult_div_mod_eq)+
      then have iff: "q \<le> r \<longleftrightarrow> q mod 512 \<le> r mod 512" "r < q + c \<longleftrightarrow> r mod 512 < q mod 512 + c"
        "r - q = r mod 512 - q mod 512" by linarith+
      have "fbyte ?v d r = overlay (q mod 512) c buf (v b) ! (r mod 512)"
        using rb True by (simp add: fbyte_def b_def)
      also have "\<dots> = (if q mod 512 \<le> r mod 512 \<and> r mod 512 < q mod 512 + c then buf ! (r mod 512 - q mod 512)
          else v b ! (r mod 512))" using nth_overlay [of "q mod 512" c "v b" buf "r mod 512"] c lb by simp
      finally show ?thesis using True unfolding iff by (simp add: fbyte_def b_def)
    next
      case False
      have "block_of v d (r div 512) \<noteq> b"
        using wf False block_in_blocks [OF r] block_in_blocks [OF q] by (auto simp: inode_wf_def b_def inj_on_def)
      moreover have "\<not> (q \<le> r \<and> r < q + c)"
      proof
        assume "q \<le> r \<and> r < q + c"
        then obtain i where "r = q + i" "i < c" using le_Suc_ex by auto
        with c(1) same_block(1) [of q 512 i] False show False by simp
      qed
      ultimately show ?thesis using rb by (auto simp: fbyte_def)
    qed
  qed
  with out show ?thesis by (simp add: wrote_def)
qed

lemma inode_write_step:
  assumes "fs_ok st" "mem_ok st" "inode_wf (fvalid st) (fview st) d" "0 \<le> offset" "offset < id_length d" "0 < sze"
    and buf: "nat sze \<le> length buf"
  defines "c \<equiv> chunk_size d sze offset"
  shows "\<exists>st' v. fs_becomes st st' v \<and> wrote (fview st) v d (nat offset) buf (nat c) \<and>
    inode_write_loop d buf sze offset st = do {
      (n, st'') \<leftarrow> inode_write_loop d (drop (nat c) buf) (sze - c) (offset + c) st';
      Some (c + n, st'') }"
proof -
  let ?v = "fview st" and ?q = "nat offset"
  define b where "b = block_of ?v d (?q div 512)"
  have len: "id_length d < 2 ^ 31" using assms(3) by (simp add: inode_wf_def)
  note c = chunk_positive [OF assms(4,5,6) len, folded c_def]
  have cb: "nat c \<le> length buf" using c(2) buf by linarith
  have q: "?q < nat (id_length d)" using assms(4,5) by simp
  then have "b \<in> data_blocks ?v d" using block_in_blocks [of ?q d] by (auto simp: data_blocks_def b_def)
  then have v: "fvalid st b" using assms(3) by (simp add: inode_wf_def)
  have lb: "length (?v b) = 512" using fview_length [OF assms(1) v] .
  have o: "nat (offset mod 512) = ?q mod 512" using assms(4) by (simp add: nat_mod_distrib)
  have fit: "?q mod 512 + nat c \<le> 512" using c(1,4) o by linarith
  from byte_to_sector_ok [OF assms(1-4)] assms(5) obtain st1 where
    st1: "byte_to_sector st d offset = Some (b, st1)" "fs_becomes st st1 ?v" unfolding b_def by auto
  note r1 = fs_becomes_rest [OF st1(2)]
  let ?w = "overlay (?q mod 512) (nat c) buf (?v b)"
  have lw: "length ?w = DISK_SECTOR_SIZE" using length_overlay [of "?q mod 512" "nat c" "?v b" buf] fit lb cb
    by (simp add: DISK_SECTOR_SIZE_def)
  have w: "wrote ?v (?v(b := ?w)) d ?q buf (nat c)"
    unfolding b_def using wrote_block [OF assms(3) q fit cb] fview_length [OF assms(1)] by (simp add: b_def)
  show ?thesis
  proof (cases "offset mod 512 = 0 \<and> c = 512")
    case True
    then have eq: "?w = take 512 buf" using o lb by (simp add: overlay_def)
    from fs_write_ok [of st1 b ?w] r1 v lw obtain st2 where
      st2: "fs_write st1 b ?w = Some st2" "fs_becomes st1 st2 (?v(b := ?w))" by auto
    have "inode_write_loop d buf sze offset st = do {
      (n, st'') \<leftarrow> inode_write_loop d (drop (nat c) buf) (sze - c) (offset + c) st2; Some (c + n, st'') }"
      unfolding inode_write_loop.simps [of d buf sze offset st] c_def [symmetric] Let_def
        cmod_nonneg [OF assms(4), of 512, simplified]
      using assms(6) c True st1(1) st2(1) eq cb by simp
    with fs_becomes_trans [OF st1(2) st2(2)] w show ?thesis by blast
  next
    case False
    have part: "offset mod 512 > 0 \<or> c < 512 - offset mod 512"
    proof (rule ccontr)
      assume "\<not> ?thesis"
      moreover have "0 \<le> offset mod 512" by simp
      ultimately have "offset mod 512 = 0" "512 \<le> c" by linarith+
      with c(4) False show False by simp
    qed
    from fs_read_ok [of st1 b] r1 v obtain st2 where
      st2: "fs_read st1 b = Some (?v b, st2)" "fs_becomes st1 st2 ?v" by auto
    note r2 = fs_becomes_rest [OF st2(2)]
    from fs_write_ok [of st2 b ?w] r1 r2 v lw obtain st3 where
      st3: "fs_write st2 b ?w = Some st3" "fs_becomes st2 st3 (?v(b := ?w))" by auto
    have "inode_write_loop d buf sze offset st = do {
      (n, st'') \<leftarrow> inode_write_loop d (drop (nat c) buf) (sze - c) (offset + c) st3; Some (c + n, st'') }"
      unfolding inode_write_loop.simps [of d buf sze offset st] c_def [symmetric] Let_def
        cmod_nonneg [OF assms(4), of 512, simplified] o [symmetric]
      using assms(2,6) c(1) False part st1(1) st2(1) st3(1) [unfolded overlay_def o [symmetric]] cb r1 by auto
    with fs_becomes_trans [OF fs_becomes_trans [OF st1(2) st2(2)] st3(2)] w show ?thesis by blast
  qed
qed

lemma inode_write_stop:
  assumes "fs_ok st" "mem_ok st" "inode_wf (fvalid st) (fview st) d" "0 \<le> offset" "offset < 2 ^ 31"
    and "sze \<le> 0 \<or> id_length d \<le> offset"
  shows "\<exists>st'. inode_write_loop d buf sze offset st = Some (0, st') \<and> fs_becomes st st' (fview st)"
proof -
  from inode_read_stop [OF assms] obtain st' where
    "inode_read_loop d sze offset st = Some ([], st')" "fs_becomes st st' (fview st)" by blast
  moreover have "inode_write_loop d buf sze offset st = Some (0, st')"
    if "inode_read_loop d sze offset st = Some ([], st')"
  proof (cases "sze \<le> 0")
    case True
    with that show ?thesis
      by (auto simp: inode_write_loop.simps [of d buf sze offset] inode_read_loop.simps [of d sze offset])
  next
    case False
    have len: "0 \<le> id_length d" "id_length d < 2 ^ 31" using assms(3) by (simp_all add: inode_wf_def)
    have "chunk_size d sze offset \<le> 0" using chunk_size_eq [OF assms(4) len assms(5), of sze] False assms(6) by simp
    with that False show ?thesis
      by (auto simp: inode_write_loop.simps [of d buf sze offset st] inode_read_loop.simps [of d sze offset st]
          Let_def split: option_bind_splits prod.splits)
  qed
  ultimately show ?thesis by blast
qed

lemma inode_write_loop_ok:
  assumes "fs_ok st" "mem_ok st" "inode_wf (fvalid st) (fview st) d" "0 \<le> offset" "offset < 2 ^ 31"
    and "nat sze \<le> length buf"
  shows "\<exists>st' v. inode_write_loop d buf sze offset st = Some (int (inside d sze offset), st')
    \<and> fs_becomes st st' v \<and> wrote (fview st) v d (nat offset) buf (inside d sze offset)"
  using assms
proof (induction "nat sze" arbitrary: sze offset st buf rule: less_induct)
  case less
  show ?case
  proof (cases "sze \<le> 0 \<or> id_length d \<le> offset")
    case True
    then have "inside d sze offset = 0" by (auto simp: inside_def)
    with inode_write_stop [OF less.prems(1-5) True, of buf] wrote_refl [of "fview st" d "nat offset" buf]
    show ?thesis by auto
  next
    case False
    then have lt: "offset < id_length d" "0 < sze" by simp_all
    let ?v = "fview st" and ?c = "chunk_size d sze offset" and ?q = "nat offset"
    have len: "id_length d < 2 ^ 31" using less.prems(3) by (simp add: inode_wf_def)
    note c = chunk_positive [OF less.prems(4) lt len]
    from inode_write_step [OF less.prems(1-4) lt less.prems(6)] obtain st1 v1 where
      st1: "fs_becomes st st1 v1" "wrote ?v v1 d ?q buf (nat ?c)"
      and step: "inode_write_loop d buf sze offset st = do {
        (n, st'') \<leftarrow> inode_write_loop d (drop (nat ?c) buf) (sze - ?c) (offset + ?c) st1;
        Some (?c + n, st'') }" by blast
    note r = fs_becomes_rest [OF st1(1)]
    have wf1: "inode_wf (fvalid st1) (fview st1) d"
      using same_map(4) [OF less.prems(3), of v1] st1(2) r by (simp add: wrote_def)
    have n: "nat (offset + ?c) = ?q + nat ?c" using c(1) less.prems(4) by (simp add: nat_add_distrib)
    have "\<exists>st' v. inode_write_loop d (drop (nat ?c) buf) (sze - ?c) (offset + ?c) st1
        = Some (int (inside d (sze - ?c) (offset + ?c)), st')
      \<and> fs_becomes st1 st' v \<and> wrote (fview st1) v d (nat (offset + ?c)) (drop (nat ?c) buf) (inside d (sze - ?c) (offset + ?c))"
      by (rule less.hyps) (use less.prems(2,4,6) c lt r wf1 len in \<open>simp_all add: nat_diff_distrib\<close>)
    then obtain st2 v2 where st2: "inode_write_loop d (drop (nat ?c) buf) (sze - ?c) (offset + ?c) st1
        = Some (int (inside d (sze - ?c) (offset + ?c)), st2)" "fs_becomes st1 st2 v2"
      "wrote v1 v2 d (?q + nat ?c) (drop (nat ?c) buf) (inside d (sze - ?c) (offset + ?c))"
      using r(3) n by auto
    note split = inside_split [OF c(1-3)]
    have "nat ?c + inside d (sze - ?c) (offset + ?c) \<le> length buf"
      using less.prems(6) unfolding split [symmetric] by (simp add: inside_def)
    from wrote_trans [OF less.prems(3) st1(2) st2(3) this]
    have "wrote ?v v2 d ?q buf (inside d sze offset)" by (simp add: split)
    moreover have "inode_write_loop d buf sze offset st = Some (int (inside d sze offset), st2)"
      unfolding step st2(1) using c(1) by (simp add: split)
    ultimately show ?thesis using fs_becomes_trans [OF st1(1) st2(2)] by blast
  qed
qed

lemma partial_block:
  assumes "0 < n mod 512"
  shows "n div 512 < (n + 511) div (512 :: nat)"
proof -
  obtain q r where n: "n = q * 512 + r" "r < 512" by (metis div_mult_mod_eq mod_less_divisor zero_less_numeral)
  with assms have "0 < r" by simp
  then have "n + 511 = (q + 1) * 512 + (r - 1)" using n(1) by simp
  then show ?thesis using n by simp
qed

lemma valid_not_minus_1: "fs_ok st \<Longrightarrow> fvalid st s \<Longrightarrow> s \<noteq> - 1"
  by (auto simp: cache_valid_def valid_sector_def)

lemma inode_write_gen_in_place:
  assumes "fs_ok st" "mem_ok st" "inodes st a = Some ino" "i_deny_write_cnt ino = 0"
    and "inode_wf (fvalid st) (fview st) (i_data ino)" "0 \<le> offset" "0 < sze"
    and "offset + sze \<le> inode_length ino + 1"
    and "block_of (fview st) (i_data ino) (nat (offset + sze - 1) div 512) \<noteq> - 1"
    and "nat sze \<le> length buf"
  shows "\<exists>st' v. inode_write_gen fa st a buf sze offset = Some (int (inside (i_data ino) sze offset), st')
    \<and> fs_becomes st st' v \<and> wrote (fview st) v (i_data ino) (nat offset) buf (inside (i_data ino) sze offset)"
proof -
  let ?d = "i_data ino"
  have len: "id_length ?d < 16635 * 512" using assms(5) by (simp add: inode_wf_def)
  with assms(6-8) have i: "i32 (offset + sze) = offset + sze" "i32 (offset + sze - 1) = offset + sze - 1"
    by (auto intro!: i32_id simp: inode_length_def)
  have "0 \<le> offset + sze - 1" "offset + sze - 1 \<le> id_length ?d" using assms(6-8) by (simp_all add: inode_length_def)
  from byte_to_sector_ok [OF assms(1,2,5) this] obtain st1 where
    st1: "byte_to_sector st ?d (offset + sze - 1) = Some (block_of (fview st) ?d (nat (offset + sze - 1) div 512), st1)"
    "fs_becomes st st1 (fview st)" by blast
  note r = fs_becomes_rest [OF st1(2)]
  have "offset < 2 ^ 31" using assms(7,8) len by (simp add: inode_length_def)
  with inode_write_loop_ok [of st1 ?d offset sze buf] r assms(2,5,6,10) obtain st2 v where
    st2: "inode_write_loop ?d buf sze offset st1 = Some (int (inside ?d sze offset), st2)" "fs_becomes st1 st2 v"
    "wrote (fview st) v ?d (nat offset) buf (inside ?d sze offset)" by auto
  have "inode_write_gen fa st a buf sze offset = Some (int (inside ?d sze offset), st2)"
    using assms(3,4,9) st1(1) st2(1) i by (simp add: inode_write_gen_def)
  with st2 fs_becomes_trans [OF st1(2) st2(2)] show ?thesis by blast
qed

lemma inode_write_gen_inside:
  assumes "fs_ok st" "mem_ok st" "inodes st a = Some ino" "i_deny_write_cnt ino = 0"
    and "inode_wf (fvalid st) (fview st) (i_data ino)" "0 \<le> offset" "0 < sze"
    and "offset + sze \<le> inode_length ino" "nat sze \<le> length buf"
  shows "\<exists>st' v. inode_write_gen fa st a buf sze offset = Some (sze, st')
    \<and> fs_becomes st st' v \<and> wrote (fview st) v (i_data ino) (nat offset) buf (nat sze)"
proof -
  have in_: "inside (i_data ino) sze offset = nat sze" using assms(8) by (simp add: inside_def inode_length_def)
  have "nat (offset + sze - 1) < nat (id_length (i_data ino))" using assms(6-8) by (simp add: inode_length_def)
  then have "block_of (fview st) (i_data ino) (nat (offset + sze - 1) div 512) \<in> data_blocks (fview st) (i_data ino)"
    using block_in_blocks by (auto simp: data_blocks_def)
  then have "block_of (fview st) (i_data ino) (nat (offset + sze - 1) div 512) \<noteq> - 1"
    using assms(5) valid_not_minus_1 [OF assms(1)] by (auto simp: inode_wf_def)
  with inode_write_gen_in_place [OF assms(1-7) _ _ assms(9), of fa] assms(7,8) show ?thesis unfolding in_ by simp
qed

section \<open>Properties\<close>

text \<open>
  A small file system for the examples: 100 zero sectors, the free map (inode 0 in sector 0, data in
  sector 2) with sectors 0 to 5 in use, and a file of 600 bytes (inode 1 in sector 3) in sectors 4 and 5.
\<close>

definition plain_inode :: "disk_sector_t list \<Rightarrow> int \<Rightarrow> inode_disk" where
  "plain_inode ss len = \<lparr>id_direct = ss @ replicate (123 - length ss) 0, id_indirect = 0, id_dindirect = 0,
     id_directory = False, id_length = len, id_magic = INODE_MAGIC\<rparr>"

definition open_inode :: "disk_sector_t \<Rightarrow> inode_disk \<Rightarrow> inode" where
  "open_inode s d = \<lparr>i_sector = s, i_open_cnt = 1, i_removed = False, i_deny_write_cnt = 0, i_data = d, i_parent = None\<rparr>"

definition sample_fs :: fs where
  "sample_fs = \<lparr>fs_cache = empty_cache, free_map = \<lparr>bit_cnt = 100, bits = [0x3f, 0, 0, 0]\<rparr>,
     free_map_file = Some \<lparr>f_inode = 0, f_pos = 0, f_deny_write = False\<rparr>,
     inodes = [0 \<mapsto> open_inode 0 (plain_inode [2] 16), 1 \<mapsto> open_inode 3 (plain_inode [4, 5] 600)],
     open_inodes = [1, 0], next_addr = 2, mem_ok = True\<rparr>"

lemma plain_inode_blocks:
  assumes "length ss \<le> 123" "(nat len + 511) div 512 = length ss" "nat len div 512 < 123"
  shows "blocks (plain_inode ss len) = length ss"
    and "k < length ss \<Longrightarrow> block_of v (plain_inode ss len) k = ss ! k"
    and "data_blocks v (plain_inode ss len) = set ss" and "index_blocks v (plain_inode ss len) = {}"
proof -
  show bl: "blocks (plain_inode ss len) = length ss" using assms(2) by (simp add: blocks_def plain_inode_def)
  show b: "block_of v (plain_inode ss len) k = ss ! k" if "k < length ss" for k
    using that assms(1) by (simp add: block_of_def plain_inode_def nth_append)
  have "data_blocks v (plain_inode ss len) = (\<lambda>k. ss ! k) ` {..<length ss}"
    unfolding data_blocks_def bl by (rule image_cong) (simp_all add: b)
  then show "data_blocks v (plain_inode ss len) = set ss" by (auto simp: set_conv_nth)
  show "index_blocks v (plain_inode ss len) = {}"
    using assms(3) by (auto simp: index_blocks_def index_path_def plain_inode_def)
qed

lemma inode_wf_small:
  assumes "length ss \<le> 123" "(nat len + 511) div 512 = length ss" "nat len div 512 < 123"
    and "distinct ss" "\<forall>s \<in> set ss. ok s" "0 \<le> len"
  shows "inode_wf ok v (plain_inode ss len)"
proof -
  note b = plain_inode_blocks [OF assms(1-3)]
  have "inj_on (block_of v (plain_inode ss len)) {..<length ss}"
    using assms(4) by (simp add: inj_on_def b nth_eq_iff_index_eq)
  moreover have "len < 16635 * 512" using assms(3,6) by linarith
  ultimately show ?thesis using assms b(1,3,4) by (simp add: inode_wf_def) (simp add: plain_inode_def)
qed

lemma sample_fs_valid: "fvalid sample_fs s \<longleftrightarrow> s < 100"
proof -
  have "s < 100 \<Longrightarrow> s < 268435456" by (simp add: word_less_nat_alt)
  then show ?thesis by (auto simp: sample_fs_def cache_valid_def valid_sector_def empty_cache_def zero_disk_def)
qed

lemma sample_fs_facts:
  "fs_ok sample_fs" "mem_ok sample_fs" "inodes sample_fs 1 = Some (open_inode 3 (plain_inode [4, 5] 600))"
  "inodes sample_fs 0 = Some (open_inode 0 (plain_inode [2] 16))"
  "fview sample_fs s = replicate 512 0"
  using empty_cache_inv by (simp_all add: sample_fs_def DISK_SECTOR_SIZE_def)

lemma sample_fs_wf:
  "inode_wf (fvalid sample_fs) v (plain_inode [4, 5] 600)" "inode_wf (fvalid sample_fs) v (plain_inode [2] 16)"
  by (rule inode_wf_small; simp add: sample_fs_valid)+

text \<open>
  C32. Reading \<open>sze\<close> bytes at \<open>offset\<close> from a well-formed inode returns exactly the bytes of the file
  in that range, cut off at its end, whether they lie in direct, singly or doubly indirect blocks, and
  changes nothing but the state of the cache.
\<close>

theorem inode_read_at_correct:
  assumes "fs_ok st" "mem_ok st" "inodes st a = Some ino" "inode_wf (fvalid st) (fview st) (i_data ino)"
    and "0 \<le> offset" "offset < 2 ^ 31"
  shows "\<exists>st'. inode_read_at st a sze offset
      = Some (map (fbyte (fview st) (i_data ino)) [nat offset..<nat offset + nat (min sze (inode_length ino - offset))], st')
    \<and> fs_becomes st st' (fview st)"
  using inode_read_loop_ok [OF assms(1,2,4-6), of sze] assms(3)
  by (simp add: inode_read_at_def inside_def inode_length_def)

theorem inode_read_at_correct_witness:
  "\<exists>st'. inode_read_at sample_fs 1 1000 500 = Some (replicate 100 0, st')"
proof -
  let ?v = "fview sample_fs" and ?d = "plain_inode [4, 5] 600"
  have i: "i_data (open_inode 3 ?d) = ?d" "inode_length (open_inode 3 ?d) = 600"
    by (simp_all add: open_inode_def inode_length_def plain_inode_def)
  have "fbyte ?v ?d = (\<lambda>q. 0)" using sample_fs_facts(5) by (auto simp: fbyte_def)
  then have "map (fbyte ?v ?d) [500..<600] = replicate 100 0"
    by (simp only: map_replicate_const length_upt) simp
  then show ?thesis
    using inode_read_at_correct [of sample_fs 1 "open_inode 3 ?d" 500 1000] sample_fs_facts(1-3) sample_fs_wf(1) i
    by auto
qed

text \<open>
  C35. Writing inside a well-formed file returns the number of bytes asked for, replaces exactly those
  bytes of the file, and leaves every sector that is not one of its data blocks as it was.
\<close>

theorem inode_write_at_inside:
  assumes "fs_ok st" "mem_ok st" "inodes st a = Some ino" "i_deny_write_cnt ino = 0"
    and "inode_wf (fvalid st) (fview st) (i_data ino)" "0 \<le> offset" "0 < sze"
    and "offset + sze \<le> inode_length ino" "nat sze \<le> length buf"
  shows "\<exists>st'. inode_write_at st a buf sze offset = Some (sze, st') \<and> fs_becomes st st' (fview st')
    \<and> wrote (fview st) (fview st') (i_data ino) (nat offset) buf (nat sze)"
proof -
  from inode_write_gen_inside [OF assms, of free_map_allocate] obtain st' v where
    "inode_write_at st a buf sze offset = Some (sze, st')" "fs_becomes st st' v"
    "wrote (fview st) v (i_data ino) (nat offset) buf (nat sze)" unfolding inode_write_at_def by blast
  with fs_becomes_rest(3) [of st st' v] show ?thesis by auto
qed

theorem inode_write_at_inside_witness:
  "\<exists>st'. inode_write_at sample_fs 1 [1, 2, 3, 4] 4 510 = Some (4, st') \<and> fview st' 0 = replicate 512 0
     \<and> fbyte (fview st') (plain_inode [4, 5] 600) 512 = 3 \<and> fbyte (fview st') (plain_inode [4, 5] 600) 509 = 0"
proof -
  let ?d = "plain_inode [4, 5] 600"
  have i: "i_data (open_inode 3 ?d) = ?d" "inode_length (open_inode 3 ?d) = 600" "i_deny_write_cnt (open_inode 3 ?d) = 0"
    "id_length ?d = 600" by (simp_all add: open_inode_def inode_length_def plain_inode_def)
  have "inode_wf (fvalid sample_fs) (fview sample_fs) (i_data (open_inode 3 ?d))" using sample_fs_wf(1) i(1) by simp
  then obtain st' where st': "inode_write_at sample_fs 1 [1, 2, 3, 4] 4 510 = Some (4, st')"
    "wrote (fview sample_fs) (fview st') ?d 510 [1, 2, 3, 4] 4"
    using inode_write_at_inside [of sample_fs 1 "open_inode 3 ?d" 510 4 "[1, 2, 3, 4]"] sample_fs_facts(1-3) i by auto
  have z: "fbyte (fview sample_fs) ?d 509 = 0" using sample_fs_facts(5) by (simp add: fbyte_def)
  have "blocks ?d = 2" by (simp add: blocks_def i)
  then have "0 \<notin> data_blocks (fview sample_fs) ?d"
    by (auto simp: data_blocks_def block_of_def plain_inode_def less_2_cases_iff)
  with st' z sample_fs_facts(5) i(4) show ?thesis by (auto simp: wrote_def)
qed

lemma inode_write_read_ok:
  assumes "fs_ok st" "mem_ok st" "inodes st a = Some ino" "i_deny_write_cnt ino = 0"
    and "inode_wf (fvalid st) (fview st) (i_data ino)" "0 \<le> offset" "0 < sze"
    and "offset + sze \<le> inode_length ino" "nat sze = length buf"
  shows "\<exists>st' st''. inode_write_at st a buf sze offset = Some (sze, st')
    \<and> inode_read_at st' a sze offset = Some (buf, st'')"
proof -
  let ?d = "i_data ino"
  from inode_write_gen_inside [OF assms(1-8), of buf free_map_allocate] assms(9) obtain st' v where
    st': "inode_write_at st a buf sze offset = Some (sze, st')" "fs_becomes st st' v"
    "wrote (fview st) v ?d (nat offset) buf (nat sze)" unfolding inode_write_at_def by auto
  note r = fs_becomes_rest [OF st'(2)]
  have wf: "inode_wf (fvalid st') (fview st') ?d"
    using same_map(4) [OF assms(5), of v] st'(3) r by (simp add: wrote_def)
  have small: "offset < 2 ^ 31" using assms(5,7,8) by (simp add: inode_wf_def inode_length_def)
  have in_: "inside ?d sze offset = length buf" using assms(8,9) by (simp add: inside_def inode_length_def)
  have "map (fbyte v ?d) [nat offset..<nat offset + length buf] = buf"
  proof (rule nth_equalityI)
    fix i
    assume "i < length (map (fbyte v ?d) [nat offset..<nat offset + length buf])"
    then have "i < length buf" by simp
    moreover from this have "nat offset + i < nat (id_length ?d)" using assms(6,8,9) by (simp add: inode_length_def)
    ultimately show "map (fbyte v ?d) [nat offset..<nat offset + length buf] ! i = buf ! i"
      using st'(3) assms(9) by (simp add: wrote_def)
  qed simp
  moreover from inode_read_loop_ok [OF r(1) _ wf assms(6) small, of sze] r assms(2) obtain st'' where
    "inode_read_loop ?d sze offset st' = Some (map (fbyte v ?d) [nat offset..<nat offset + length buf], st'')"
    unfolding in_ by auto
  ultimately show ?thesis using st'(1) assms(3) r(5) by (auto simp: inode_read_at_def)
qed

text \<open>
  C30. What was written is what is read: after a write inside a well-formed file, reading the same range
  returns the bytes written.
\<close>

theorem inode_write_read:
  assumes "fs_ok st" "mem_ok st" "inodes st a = Some ino" "i_deny_write_cnt ino = 0"
    and "inode_wf (fvalid st) (fview st) (i_data ino)" "0 \<le> offset" "0 < sze"
    and "offset + sze \<le> inode_length ino" "nat sze = length buf"
  shows "\<exists>st' st''. inode_write_at st a buf sze offset = Some (sze, st')
    \<and> inode_read_at st' a sze offset = Some (buf, st'')"
  using assms by (rule inode_write_read_ok)

theorem inode_write_read_witness:
  "\<exists>st' st''. inode_write_at sample_fs 1 [1, 2, 3, 4] 4 510 = Some (4, st')
     \<and> inode_read_at st' 1 4 510 = Some ([1, 2, 3, 4], st'')"
proof -
  let ?d = "plain_inode [4, 5] 600"
  have i: "i_data (open_inode 3 ?d) = ?d" "inode_length (open_inode 3 ?d) = 600" "i_deny_write_cnt (open_inode 3 ?d) = 0"
    by (simp_all add: open_inode_def inode_length_def plain_inode_def)
  have "inode_wf (fvalid sample_fs) (fview sample_fs) (i_data (open_inode 3 ?d))" using sample_fs_wf(1) i(1) by simp
  then show ?thesis
    using inode_write_read [of sample_fs 1 "open_inode 3 ?d" 510 4 "[1, 2, 3, 4]"] sample_fs_facts(1-3) i by auto
qed



end
