(* ===== verification/Inode_Grow.thy ===== *)
theory Inode_Grow
  imports Inode_IO
begin

text \<open>
  The free map and the growth of files.  \<open>fs_inv\<close> ties the free map in memory to its file: allocation
  then never touches a sector in use and keeps the map on disk up to date, and growing a file gives it
  fresh zeroed blocks while the rest of the disk stays as it was.
\<close>

section \<open>The invariant\<close>

definition marked :: "fs \<Rightarrow> disk_sector_t \<Rightarrow> bool" where
  "marked st s \<longleftrightarrow> unat s < bit_cnt (free_map st) \<and> bm_bit (free_map st) (unat s)"

abbreviation fm_data :: "inode \<Rightarrow> fs \<Rightarrow> disk_sector_t set" where
  "fm_data fm st \<equiv> data_blocks (fview st) (i_data fm)"

abbreviation fm_index :: "inode \<Rightarrow> fs \<Rightarrow> disk_sector_t set" where
  "fm_index fm st \<equiv> index_blocks (fview st) (i_data fm)"

text \<open>\<open>fs_inv fm st\<close>: \<open>fm\<close> is the open inode of the free map file, and the map covers its own blocks.\<close>

definition fs_inv :: "inode \<Rightarrow> fs \<Rightarrow> bool" where
  "fs_inv fm st \<longleftrightarrow> fs_ok st \<and> mem_ok st \<and> bm_wf (free_map st) \<and> marked st 0
     \<and> (\<forall>s. unat s < bit_cnt (free_map st) \<longrightarrow> fvalid st s)
     \<and> (\<exists>fil. free_map_file st = Some fil \<and> inodes st (f_inode fil) = Some fm)
     \<and> i_deny_write_cnt fm = 0 \<and> inode_wf (fvalid st) (fview st) (i_data fm)
     \<and> inode_length fm = int (byte_cnt (bit_cnt (free_map st)))
     \<and> (\<forall>s \<in> fm_data fm st \<union> fm_index fm st. marked st s)"

text \<open>The free map file holds the bits of the free map.\<close>

definition fm_synced :: "inode \<Rightarrow> fs \<Rightarrow> bool" where
  "fm_synced fm st \<longleftrightarrow> (\<forall>q < byte_cnt (bit_cnt (free_map st)).
     fbyte (fview st) (i_data fm) q = words_bytes (bits (free_map st)) ! q)"

text \<open>
  \<open>grown fm st st' N W\<close>: the sectors \<open>N\<close> were free and are now marked, and apart from them, the free map
  file and the sectors \<open>W\<close>, the disk is as before.
\<close>

definition grown :: "inode \<Rightarrow> fs \<Rightarrow> fs \<Rightarrow> disk_sector_t set \<Rightarrow> disk_sector_t set \<Rightarrow> bool" where
  "grown fm st st' N W \<longleftrightarrow> fs_inv fm st'
     \<and> (\<exists>c m. st' = st\<lparr>fs_cache := c, free_map := m\<rparr>) \<and> fvalid st' = fvalid st
     \<and> bit_cnt (free_map st') = bit_cnt (free_map st)
     \<and> fm_data fm st' = fm_data fm st \<and> fm_index fm st' = fm_index fm st
     \<and> (\<forall>s. marked st' s \<longleftrightarrow> marked st s \<or> s \<in> N) \<and> (\<forall>s \<in> N. \<not> marked st s)
     \<and> (\<forall>t. t \<notin> fm_data fm st \<union> N \<union> W \<longrightarrow> fview st' t = fview st t)"

lemma grown_refl: "fs_inv fm st \<Longrightarrow> grown fm st st {} {}"
proof -
  have "\<exists>c m. st = st\<lparr>fs_cache := c, free_map := m\<rparr>" by (rule exI [of _ "fs_cache st"], rule exI [of _ "free_map st"]) simp
  then show "fs_inv fm st \<Longrightarrow> ?thesis" by (simp add: grown_def)
qed

lemma grown_rest:
  assumes "grown fm st st' N W"
  shows "fs_inv fm st'" "inodes st' = inodes st" "mem_ok st' = mem_ok st" "free_map_file st' = free_map_file st"
    "open_inodes st' = open_inodes st" "next_addr st' = next_addr st" "fvalid st' = fvalid st" "fs_ok st'"
proof -
  from assms obtain c m where "st' = st\<lparr>fs_cache := c, free_map := m\<rparr>" by (auto simp: grown_def)
  then show "inodes st' = inodes st" "mem_ok st' = mem_ok st" "free_map_file st' = free_map_file st"
    "open_inodes st' = open_inodes st" "next_addr st' = next_addr st" by simp_all
  show "fs_inv fm st'" "fvalid st' = fvalid st" using assms by (simp_all add: grown_def)
  then show "fs_ok st'" by (simp add: fs_inv_def)
qed

lemma grown_facts:
  assumes "grown fm st st' N W"
  shows "marked st' s \<longleftrightarrow> marked st s \<or> s \<in> N" and "s \<in> N \<Longrightarrow> \<not> marked st s"
    and "t \<notin> fm_data fm st \<union> N \<union> W \<Longrightarrow> fview st' t = fview st t"
    and "fm_data fm st' = fm_data fm st" and "fm_index fm st' = fm_index fm st"
    and "bit_cnt (free_map st') = bit_cnt (free_map st)"
  using assms by (simp_all add: grown_def)

lemma grown_disjoint:
  assumes "grown fm st st1 N W" and "grown fm st1 st2 M X"
  shows "N \<inter> M = {}"
  using grown_facts(1) [OF assms(1)] grown_facts(2) [OF assms(2)] by blast

lemma grown_trans:
  assumes a: "grown fm st st1 N W" and b: "grown fm st1 st2 M X"
  shows "grown fm st st2 (N \<union> M) (W \<union> X)"
proof -
  from a b obtain c m c' m' where "st1 = st\<lparr>fs_cache := c, free_map := m\<rparr>" "st2 = st1\<lparr>fs_cache := c', free_map := m'\<rparr>"
    by (auto simp: grown_def)
  then have "st2 = st\<lparr>fs_cache := c', free_map := m'\<rparr>" by simp
  then have "\<exists>c m. st2 = st\<lparr>fs_cache := c, free_map := m\<rparr>" by blast
  moreover have "fview st2 t = fview st t" if "t \<notin> fm_data fm st \<union> (N \<union> M) \<union> (W \<union> X)" for t
    using a b that by (simp add: grown_def)
  moreover have "\<not> marked st s" if "s \<in> N \<union> M" for s using a b that by (auto simp: grown_def)
  ultimately show ?thesis using a b by (auto simp: grown_def)
qed

lemma grown_weaken: "grown fm st st' N W \<Longrightarrow> W \<subseteq> N \<union> X \<Longrightarrow> grown fm st st' N X"
  by (auto simp: grown_def)

section \<open>Allocating and releasing sectors\<close>

lemma byte_cnt_bits: "bm_wf b \<Longrightarrow> length (words_bytes (bits b)) = byte_cnt (bit_cnt b)"
  by (simp add: bm_wf_def byte_cnt_def)

lemma byte_cnt_pos: "0 < bit_cnt b \<Longrightarrow> bm_wf b \<Longrightarrow> 0 < byte_cnt (bit_cnt b)"
  by (simp add: bm_wf_def byte_cnt_def elem_cnt_def ELEM_BITS_def)

text \<open>A new value of the free map is written to its file.\<close>

lemma bitmap_write_gen_ok:
  assumes inv: "fs_inv fm st" and wf: "bm_wf b" and cnt: "bit_cnt b = bit_cnt (free_map st)"
    and more: "\<forall>s \<in> {0} \<union> fm_data fm st \<union> fm_index fm st. bm_bit b (unat s)" and fil: "free_map_file st = Some fil"
  shows "\<exists>st'. bitmap_write_gen (inode_write_gen fa) b fil (st\<lparr>free_map := b\<rparr>) = Some (True, st')
    \<and> fs_inv fm st' \<and> free_map st' = b \<and> fm_synced fm st' \<and> fs_becomes (st\<lparr>free_map := b\<rparr>) st' (fview st')
    \<and> fm_data fm st' = fm_data fm st \<and> fm_index fm st' = fm_index fm st
    \<and> (\<forall>t. t \<notin> fm_data fm st \<longrightarrow> fview st' t = fview st t)"
proof -
  let ?st = "st\<lparr>free_map := b\<rparr>" and ?d = "i_data fm" and ?n = "byte_cnt (bit_cnt b)"
  have f: "fs_ok ?st" "mem_ok ?st" "inodes ?st (f_inode fil) = Some fm" "i_deny_write_cnt fm = 0"
    "inode_wf (fvalid ?st) (fview ?st) ?d" "inode_length fm = int ?n"
    using inv fil cnt by (auto simp: fs_inv_def)
  have pos: "0 < ?n" using byte_cnt_pos [OF _ wf] inv cnt by (auto simp: fs_inv_def marked_def)
  have len: "length (words_bytes (bits b)) = ?n" by (rule byte_cnt_bits [OF wf])
  have "int ?n < 16635 * 512" using f(5,6) by (simp add: inode_wf_def inode_length_def)
  then have i: "i32 (int ?n) = int ?n" by (intro i32_id) auto
  from inode_write_gen_inside [OF f(1-5), of 0 "int ?n" "words_bytes (bits b)" fa] f(6) pos len
  obtain st' v where w: "inode_write_gen fa ?st (f_inode fil) (words_bytes (bits b)) (int ?n) 0 = Some (int ?n, st')"
    "fs_becomes ?st st' v" "wrote (fview ?st) v ?d 0 (words_bytes (bits b)) ?n" by auto
  note r = fs_becomes_rest [OF w(2)]
  note out = w(3) [unfolded wrote_def, THEN conjunct1]
  note same = same_map [OF f(5) out]
  have sync: "fm_synced fm st'"
    using w(3) r f(6) by (simp add: fm_synced_def wrote_def inode_length_def)
  have mk: "marked st' s" if "s \<in> {0} \<union> fm_data fm st \<union> fm_index fm st" for s
    using that more cnt r inv by (auto simp: marked_def fs_inv_def)
  have "fs_inv fm st'"
    using inv r cnt wf mk same by (auto simp: fs_inv_def)
  moreover have "bitmap_write_gen (inode_write_gen fa) b fil ?st = Some (True, st')"
    using w(1) i by (simp add: bitmap_write_gen_def)
  ultimately show ?thesis using sync w(2) r same out by auto
qed

lemma unat_of_nat_below:
  assumes "bm_wf b" "i < bit_cnt b"
  shows "unat (of_nat i :: disk_sector_t) = i"
proof -
  have "i < 2 ^ 32" using assms by (simp add: bm_wf_def)
  then show ?thesis by (simp add: unat_of_nat)
qed

lemma fm_alloc_ok:
  assumes inv: "fs_inv fm st"
  shows "\<exists>r st'. fm_alloc (Suc d) st 1 = Some (r, st') \<and>
    (case r of None \<Rightarrow> st' = st \<and> (\<forall>s. unat s < bit_cnt (free_map st) \<longrightarrow> marked st s)
     | Some s \<Rightarrow> unat s < bit_cnt (free_map st) \<and> grown fm st st' {s} {} \<and> fm_synced fm st')"
proof -
  have wf: "bm_wf (free_map st)" using inv by (simp add: fs_inv_def)
  obtain fil where fil: "free_map_file st = Some fil" using inv by (auto simp: fs_inv_def)
  from bitmap_scan_and_flip_first [OF wf, of 0 1 False] obtain i b where
    sc: "bitmap_scan_and_flip (free_map st) 0 1 False = Some (i, b)"
    and c: "if i = BITMAP_ERROR then b = free_map st \<and> (\<forall>k \<ge> 0. \<not> bm_run (free_map st) k 1 False)
       else 0 \<le> i \<and> bm_run (free_map st) i 1 False \<and> (\<forall>k. 0 \<le> k \<and> k < i \<longrightarrow> \<not> bm_run (free_map st) k 1 False)
         \<and> bm_becomes (free_map st) b (\<lambda>j. if i \<le> j \<and> j < i + 1 then \<not> False else bm_bit (free_map st) j)" by auto
  show ?thesis
  proof (cases "i = BITMAP_ERROR")
    case True
    have "marked st s" if "unat s < bit_cnt (free_map st)" for s
      using c True that by (auto simp: bm_run_def marked_def less_Suc_eq dest!: spec [of _ "unat s"])
    then show ?thesis using sc True c by (simp add: free_map_allocate_gen_def)
  next
    case False
    let ?s = "of_nat i :: disk_sector_t"
    from c False have i: "i < bit_cnt (free_map st)" "\<not> bm_bit (free_map st) i" by (auto simp: bm_run_def)
    note u = unat_of_nat_below [OF wf i(1)]
    have b: "bm_wf b" "bit_cnt b = bit_cnt (free_map st)" "\<And>j. bm_bit b j \<longleftrightarrow> j = i \<or> bm_bit (free_map st) j"
      using c False by (auto simp: bm_becomes_def)
    have more: "\<forall>s \<in> {0} \<union> fm_data fm st \<union> fm_index fm st. bm_bit b (unat s)"
      using b(3) inv by (auto simp: fs_inv_def marked_def)
    from bitmap_write_gen_ok [OF inv b(1,2) more fil, of "fm_alloc d"] obtain st' where
      w: "bitmap_write_gen (inode_write_gen (fm_alloc d)) b fil (st\<lparr>free_map := b\<rparr>) = Some (True, st')"
      "fs_inv fm st'" "free_map st' = b" "fm_synced fm st'" "fs_becomes (st\<lparr>free_map := b\<rparr>) st' (fview st')"
      "fm_data fm st' = fm_data fm st" "fm_index fm st' = fm_index fm st"
      "\<forall>t. t \<notin> fm_data fm st \<longrightarrow> fview st' t = fview st t" by auto
    have m: "marked st' t \<longleftrightarrow> marked st t \<or> t = ?s" for t
      using b w(3) i(1) u by (auto simp: marked_def word_unat_eq_iff)
    have "st' = st\<lparr>free_map := b\<rparr>\<lparr>fs_cache := fs_cache st'\<rparr>" using w(5) by (simp only: fs_becomes_def)
    also have "\<dots> = st\<lparr>fs_cache := fs_cache st', free_map := b\<rparr>" by (cases st) simp
    finally have "\<exists>c m. st' = st\<lparr>fs_cache := c, free_map := m\<rparr>" by blast
    then have "grown fm st st' {?s} {}"
      using w b(2) m i u fs_becomes_rest(2) [OF w(5)] by (auto simp: grown_def marked_def)
    then show ?thesis using sc False fil w(1,4) i(1) u by (simp add: free_map_allocate_gen_def)
  qed
qed

declare fm_alloc.simps [simp del]

lemma grown_write:
  assumes inv: "fs_inv fm st" and s: "unat s < bit_cnt (free_map st)" "s \<notin> fm_data fm st \<union> fm_index fm st"
    and b: "length b = 512"
  shows "\<exists>st'. fs_write st s b = Some st' \<and> grown fm st st' {} {s} \<and> fview st' = (fview st)(s := b)
    \<and> free_map st' = free_map st"
proof -
  have v: "fs_ok st" "fvalid st s" using inv s(1) by (auto simp: fs_inv_def)
  from fs_write_ok [OF v] b obtain st' where w: "fs_write st s b = Some st'" "fs_becomes st st' ((fview st)(s := b))"
    by (auto simp: DISK_SECTOR_SIZE_def)
  note r = fs_becomes_rest [OF w(2)]
  have "\<forall>t \<in> fm_index fm st. fview st' t = fview st t" using s(2) r(3) by auto
  note same = same_index [OF this]
  have m: "marked st' = marked st" by (simp add: marked_def fun_eq_iff r)
  have fr: "\<forall>t. t \<noteq> s \<longrightarrow> fview st' t = fview st t" using r(3) by simp
  have "fs_inv fm st'" using inv r(1,2,4-9) same m by (simp add: fs_inv_def)
  moreover have "\<exists>c m. st' = st\<lparr>fs_cache := c, free_map := m\<rparr>"
  proof -
    have "st' = st\<lparr>fs_cache := fs_cache st'\<rparr>" using w(2) by (simp only: fs_becomes_def)
    also have "\<dots> = st\<lparr>fs_cache := fs_cache st', free_map := free_map st\<rparr>" by (cases st) simp
    finally show ?thesis by blast
  qed
  ultimately have "grown fm st st' {} {s}" using r(1,2,4-9) same m fr by (simp add: grown_def)
  with w(1) r show ?thesis by blast
qed

lemma new_not_fm: "grown fm st st' N W \<Longrightarrow> fs_inv fm st \<Longrightarrow> s \<in> N \<Longrightarrow> s \<notin> fm_data fm st' \<union> fm_index fm st'"
  by (auto simp: grown_def fs_inv_def)

lemma grown_in_range: "grown fm st st' N W \<Longrightarrow> s \<in> N \<Longrightarrow> unat s < bit_cnt (free_map st')"
  by (auto simp: grown_def marked_def)

text \<open>A sector, fresh and zeroed: the body of the filling loop.\<close>

lemma alloc_zeroed_ok:
  assumes inv: "fs_inv fm st"
  shows "\<exists>r st1. fm_alloc (Suc d) st 1 = Some (r, st1) \<and>
    (case r of None \<Rightarrow> st1 = st \<and> (\<forall>s. unat s < bit_cnt (free_map st) \<longrightarrow> marked st s)
     | Some s \<Rightarrow> \<exists>st'. fs_write st1 s zeros = Some st' \<and> grown fm st st' {s} {} \<and> fview st' s = zeros)"
proof -
  from fm_alloc_ok [OF inv, of d] obtain r st1 where a: "fm_alloc (Suc d) st 1 = Some (r, st1)"
    and c: "case r of None \<Rightarrow> st1 = st \<and> (\<forall>s. unat s < bit_cnt (free_map st) \<longrightarrow> marked st s)
     | Some s \<Rightarrow> unat s < bit_cnt (free_map st) \<and> grown fm st st1 {s} {} \<and> fm_synced fm st1" by blast
  show ?thesis
  proof (cases r)
    case (Some s)
    with c have g: "grown fm st st1 {s} {}" by simp
    have "s \<notin> fm_data fm st1 \<union> fm_index fm st1" "unat s < bit_cnt (free_map st1)"
      using new_not_fm [OF g inv] grown_in_range [OF g] by simp_all
    from grown_write [OF grown_rest(1) [OF g] this(2,1), of zeros] obtain st' where
      w: "fs_write st1 s zeros = Some st'" "grown fm st1 st' {} {s}" "fview st' s = zeros"
      by (auto simp: zeros_def DISK_SECTOR_SIZE_def)
    have "grown fm st st' {s} {}" using grown_trans [OF g w(2)] by (simp add: grown_def)
    with a Some w show ?thesis by auto
  qed (use a c in auto)
qed

text \<open>The positions that the filling loop has to fill.\<close>

definition holes :: "nat \<Rightarrow> nat \<Rightarrow> disk_sector_t list \<Rightarrow> nat set" where
  "holes i k slots = {j. i \<le> j \<and> j < i + k \<and> slots ! j = 0}"

text \<open>
  \<open>filled i k slots slots' N\<close>: \<open>slots'\<close> is \<open>slots\<close> with the sectors \<open>N\<close> in its holes, each used once.
\<close>

definition filled :: "nat \<Rightarrow> nat \<Rightarrow> disk_sector_t list \<Rightarrow> disk_sector_t list \<Rightarrow> disk_sector_t set \<Rightarrow> bool" where
  "filled i k slots slots' N \<longleftrightarrow> length slots' = length slots
     \<and> (\<forall>j. j \<notin> holes i k slots \<longrightarrow> slots' ! j = slots ! j) \<and> bij_betw ((!) slots') (holes i k slots) N"

lemma filled_Suc:
  assumes f: "filled (Suc i) k (slots[i := s]) slots' N" and i: "i < length slots" "slots ! i = 0" and s: "s \<notin> N" "s \<noteq> 0"
  shows "filled i (Suc k) slots slots' (insert s N)"
proof -
  have h: "holes (Suc i) k (slots[i := s]) = holes i (Suc k) slots - {i}"
    by (auto simp: holes_def nth_list_update)
  have hi: "i \<in> holes i (Suc k) slots" using i by (simp add: holes_def)
  have si: "slots' ! i = s" using f i(1) by (auto simp: filled_def holes_def)
  have "slots' ! j = slots ! j" if "j \<notin> holes i (Suc k) slots" for j
    using f that hi unfolding filled_def h by (cases "j = i") auto
  moreover have "bij_betw ((!) slots') (insert i (holes i (Suc k) slots - {i})) (insert s N)"
    using notIn_Un_bij_betw [of i "holes i (Suc k) slots - {i}" "(!) slots'" N] f s(1) si
    unfolding filled_def h by simp
  ultimately show ?thesis using f hi by (simp add: filled_def insert_absorb)
qed

lemma alloc_slots_ok:
  assumes "fs_inv fm st" "i + k \<le> length slots"
  shows "\<exists>ok slots' st' N. alloc_slots (fm_alloc (Suc d)) k i slots st = Some (ok, slots', st')
    \<and> grown fm st st' N {} \<and> card N \<le> k \<and> (\<forall>s \<in> N. fview st' s = zeros) \<and> length slots' = length slots
    \<and> (if ok then filled i k slots slots' N else \<forall>s. unat s < bit_cnt (free_map st') \<longrightarrow> marked st' s)"
  using assms
proof (induction k arbitrary: i slots st)
  case 0
  have "holes i 0 slots = {}" by (auto simp: holes_def)
  then have "filled i 0 slots slots {}" by (simp add: filled_def bij_betw_def)
  then show ?case using grown_refl [OF 0(1)]
    by (intro exI [of _ True] exI [of _ slots] exI [of _ st] exI [of _ "{}"]) simp
next
  case (Suc k)
  have i: "i < length slots" using Suc.prems(2) by simp
  show ?case
  proof (cases "slots ! i = 0")
    case False
    then have "holes i (Suc k) slots = holes (Suc i) k slots" by (auto simp: holes_def Suc_le_eq order.strict_iff_order)
    then have f: "filled i (Suc k) slots = filled (Suc i) k slots" by (simp add: filled_def fun_eq_iff)
    have e: "alloc_slots (fm_alloc (Suc d)) (Suc k) i slots st = alloc_slots (fm_alloc (Suc d)) k (Suc i) slots st"
      using i False by simp
    from Suc.IH [of st "Suc i" slots] Suc.prems obtain ok slots' st' N where
      "alloc_slots (fm_alloc (Suc d)) k (Suc i) slots st = Some (ok, slots', st')" "grown fm st st' N {}" "card N \<le> k"
      "\<forall>s \<in> N. fview st' s = zeros" "length slots' = length slots"
      "if ok then filled (Suc i) k slots slots' N else \<forall>s. unat s < bit_cnt (free_map st') \<longrightarrow> marked st' s" by auto
    then show ?thesis unfolding e f
      by (intro exI [of _ ok] exI [of _ slots'] exI [of _ st'] exI [of _ N] conjI) simp_all
  next
    case True
    from alloc_zeroed_ok [OF Suc.prems(1), of d] obtain r st1 where a: "fm_alloc (Suc d) st 1 = Some (r, st1)"
      and c: "case r of None \<Rightarrow> st1 = st \<and> (\<forall>s. unat s < bit_cnt (free_map st) \<longrightarrow> marked st s)
        | Some s \<Rightarrow> \<exists>st'. fs_write st1 s zeros = Some st' \<and> grown fm st st' {s} {} \<and> fview st' s = zeros" by blast
    show ?thesis
    proof (cases r)
      case None
      then have "alloc_slots (fm_alloc (Suc d)) (Suc k) i slots st = Some (False, slots, st)" using a c i True by simp
      then show ?thesis using None c grown_refl [OF Suc.prems(1)]
        by (intro exI [of _ False] exI [of _ slots] exI [of _ st] exI [of _ "{}"]) simp
    next
      case (Some s)
      with c obtain st2 where w: "fs_write st1 s zeros = Some st2" "grown fm st st2 {s} {}" "fview st2 s = zeros" by auto
      from Suc.IH [OF grown_rest(1) [OF w(2)], of "Suc i" "slots[i := s]"] Suc.prems(2)
      obtain ok slots' st' N where e: "alloc_slots (fm_alloc (Suc d)) k (Suc i) (slots[i := s]) st2 = Some (ok, slots', st')"
        "grown fm st2 st' N {}" "\<forall>s \<in> N. fview st' s = zeros" "length slots' = length slots"
        "if ok then filled (Suc i) k (slots[i := s]) slots' N else \<forall>s. unat s < bit_cnt (free_map st') \<longrightarrow> marked st' s"
        "card N \<le> k" by auto
      have s0: "s \<noteq> 0" using w(2) Suc.prems(1) by (auto simp: grown_def fs_inv_def)
      have sN: "s \<notin> N" using w(2) e(2) by (auto simp: grown_def)
      have sz: "fview st' s = zeros"
        using new_not_fm [OF w(2) Suc.prems(1)] sN w(3) e(2) by (auto simp: grown_def)
      have "alloc_slots (fm_alloc (Suc d)) (Suc k) i slots st = Some (ok, slots', st')" using a i True Some w(1) e(1) by simp
      moreover have "grown fm st st' (insert s N) {}" using grown_trans [OF w(2) e(2)] by simp
      moreover have "filled i (Suc k) slots slots' (insert s N)" if ok
        using filled_Suc [OF _ i True sN s0] e(5) that by simp
      moreover have "card (insert s N) \<le> Suc k" using e(6) sN by (simp add: card_insert_if)
      moreover have "\<forall>t \<in> insert s N. fview st' t = zeros" using e(3) sz by simp
      ultimately show ?thesis using e(4,5)
        by (intro exI [of _ ok] exI [of _ slots'] exI [of _ st'] exI [of _ "insert s N"]) simp
    qed
  qed
qed

section \<open>Growing an inode\<close>

definition disk_full :: "fs \<Rightarrow> bool" where
  "disk_full st \<longleftrightarrow> (\<forall>s. unat s < bit_cnt (free_map st) \<longrightarrow> marked st s)"

definition indirect_slots :: "(disk_sector_t \<Rightarrow> byte list) \<Rightarrow> inode_disk \<Rightarrow> disk_sector_t list" where
  "indirect_slots v d = (if id_indirect d = 0 then replicate 128 0 else bytes_words (v (id_indirect d)))"

text \<open>The pointers to the first 251 blocks.\<close>

definition slots :: "(disk_sector_t \<Rightarrow> byte list) \<Rightarrow> inode_disk \<Rightarrow> disk_sector_t list" where
  "slots v d = id_direct d @ indirect_slots v d"

lemma indirect_alloc_single_ok:
  assumes inv: "fs_inv fm st" and k: "k \<le> 128"
    and old: "id_indirect d \<noteq> 0 \<Longrightarrow> marked st (id_indirect d) \<and> id_indirect d \<notin> fm_data fm st \<union> fm_index fm st"
  shows "\<exists>ok d' st' N I. indirect_alloc_single (fm_alloc (Suc e)) st d k = Some (ok, d', st')
    \<and> grown fm st st' (N \<union> I) {id_indirect d} \<and> card (N \<union> I) \<le> k + 1 \<and> (\<not> ok \<longrightarrow> disk_full st')
    \<and> (ok \<longrightarrow> (\<forall>s \<in> N. fview st' s = zeros) \<and> filled 0 k (indirect_slots (fview st) d) (indirect_slots (fview st') d') N
        \<and> d' = d\<lparr>id_indirect := id_indirect d'\<rparr> \<and> id_indirect d' \<noteq> 0 \<and> N \<inter> I = {}
        \<and> (if id_indirect d = 0 then I = {id_indirect d'} else I = {} \<and> id_indirect d' = id_indirect d))"
proof -
  have mem: "mem_ok st" using inv by (simp add: fs_inv_def)
  \<comment> \<open>the index block, old or new\<close>
  have start: "\<exists>r iid st1 I. (if id_indirect d \<noteq> 0 then do { (b, st) \<leftarrow> fs_read st (id_indirect d);
            Some (Some (id_indirect d), bytes_words b, st) }
        else do { (r, st) \<leftarrow> fm_alloc (Suc e) st 1; Some (r, replicate 128 0, st) }) = Some (r, iid, st1)
      \<and> grown fm st st1 I {} \<and> card I \<le> 1 \<and> iid = indirect_slots (fview st) d \<and> length iid = 128
      \<and> (case r of None \<Rightarrow> disk_full st1
         | Some s \<Rightarrow> s \<noteq> 0 \<and> (if id_indirect d = 0 then I = {s} else I = {} \<and> s = id_indirect d))"
  proof (cases "id_indirect d = 0")
    case False
    with old have v: "fs_ok st" "fvalid st (id_indirect d)" using inv by (auto simp: fs_inv_def marked_def)
    from fs_read_ok [OF v] obtain st1 where
      rd: "fs_read st (id_indirect d) = Some (fview st (id_indirect d), st1)" "fs_becomes st st1 (fview st)" by blast
    note r = fs_becomes_rest [OF rd(2)]
    have "fs_inv fm st1" using inv r by (simp add: fs_inv_def marked_def)
    moreover have "\<exists>c m. st1 = st\<lparr>fs_cache := c, free_map := m\<rparr>"
    proof -
      have "st1 = st\<lparr>fs_cache := fs_cache st1\<rparr>" using rd(2) by (simp only: fs_becomes_def)
      also have "\<dots> = st\<lparr>fs_cache := fs_cache st1, free_map := free_map st\<rparr>" by (cases st) simp
      finally show ?thesis by blast
    qed
    ultimately have "grown fm st st1 {} {}" using r by (simp add: grown_def marked_def)
    with rd(1) False fview_length [OF v] show ?thesis
      by (intro exI [of _ "Some (id_indirect d)"] exI [of _ "bytes_words (fview st (id_indirect d))"] exI [of _ st1]
          exI [of _ "{}"]) (simp add: indirect_slots_def)
  next
    case True
    from fm_alloc_ok [OF inv, of e] obtain r st1 where a: "fm_alloc (Suc e) st 1 = Some (r, st1)"
      and c: "case r of None \<Rightarrow> st1 = st \<and> (\<forall>s. unat s < bit_cnt (free_map st) \<longrightarrow> marked st s)
       | Some s \<Rightarrow> unat s < bit_cnt (free_map st) \<and> grown fm st st1 {s} {} \<and> fm_synced fm st1" by blast
    show ?thesis
    proof (cases r)
      case None
      with a c True grown_refl [OF inv] show ?thesis
        by (intro exI [of _ None] exI [of _ "replicate 128 0"] exI [of _ st] exI [of _ "{}"])
          (simp add: indirect_slots_def disk_full_def)
    next
      case (Some s)
      then have "s \<noteq> 0" using c inv by (auto simp: grown_def fs_inv_def)
      with Some a c True show ?thesis
        by (intro exI [of _ "Some s"] exI [of _ "replicate 128 0"] exI [of _ st1] exI [of _ "{s}"])
          (simp add: indirect_slots_def)
    qed
  qed
  then obtain r iid st1 I where s: "(if id_indirect d \<noteq> 0 then do { (b, st) \<leftarrow> fs_read st (id_indirect d);
            Some (Some (id_indirect d), bytes_words b, st) }
        else do { (r, st) \<leftarrow> fm_alloc (Suc e) st 1; Some (r, replicate 128 0, st) }) = Some (r, iid, st1)"
    and g1: "grown fm st st1 I {}" and cI: "card I \<le> 1" and iid: "iid = indirect_slots (fview st) d" "length iid = 128"
    and c: "case r of None \<Rightarrow> disk_full st1
         | Some s \<Rightarrow> s \<noteq> 0 \<and> (if id_indirect d = 0 then I = {s} else I = {} \<and> s = id_indirect d)" by blast
  have eq: "indirect_alloc_single (fm_alloc (Suc e)) st d k = (case r of None \<Rightarrow> Some (False, d, st1)
     | Some s \<Rightarrow> do {
         let d = d\<lparr>id_indirect := s\<rparr>;
         (ok, iid, st) \<leftarrow> alloc_slots (fm_alloc (Suc e)) k 0 iid st1;
         if \<not> ok then Some (False, d, st)
         else do { st \<leftarrow> fs_write st (id_indirect d) (words_bytes iid); Some (True, d, st) } })"
    unfolding indirect_alloc_single_def s using mem by simp
  show ?thesis
  proof (cases r)
    case None
    with eq c cI grown_weaken [OF g1, of "{id_indirect d}"] show ?thesis
      by (intro exI [of _ False] exI [of _ d] exI [of _ st1] exI [of _ I] exI [of _ "{}"]) simp
  next
    case (Some s)
    from alloc_slots_ok [OF grown_rest(1) [OF g1], of 0 k iid e] k iid(2) obtain ok iid' st2 N where
      al: "alloc_slots (fm_alloc (Suc e)) k 0 iid st1 = Some (ok, iid', st2)" "grown fm st1 st2 N {}"
      "\<forall>s \<in> N. fview st2 s = zeros" "length iid' = 128"
      "if ok then filled 0 k iid iid' N else \<forall>s. unat s < bit_cnt (free_map st2) \<longrightarrow> marked st2 s" "card N \<le> k" by auto
    have cNI: "card (N \<union> I) \<le> k + 1" using card_Un_le [of N I] al(6) cI by linarith
    note g2 = grown_trans [OF g1 al(2), simplified]
    show ?thesis
    proof (cases ok)
      case False
      then have "indirect_alloc_single (fm_alloc (Suc e)) st d k = Some (False, d\<lparr>id_indirect := s\<rparr>, st2)"
        using eq Some al(1) by simp
      moreover have "grown fm st st2 (N \<union> I) {id_indirect d}" 
        using grown_weaken [OF g2, of "{id_indirect d}"] by (simp add: Un_commute)
      ultimately show ?thesis using False al(5) cNI
        by (intro exI [of _ False] exI [of _ "d\<lparr>id_indirect := s\<rparr>"] exI [of _ st2] exI [of _ N] exI [of _ I])
          (simp add: disk_full_def)
    next
      case True
      have sN: "s \<notin> N" "unat s < bit_cnt (free_map st2)" "s \<notin> fm_data fm st2 \<union> fm_index fm st2" "s \<noteq> 0"
      proof -
        note G1 = g1 [unfolded grown_def] and G2 = al(2) [unfolded grown_def]
        have m: "marked st1 s \<and> s \<notin> fm_data fm st1 \<union> fm_index fm st1"
        proof (cases "id_indirect d = 0")
          case True
          then have "s \<in> I" using Some c by simp
          then show ?thesis using new_not_fm [OF g1 inv] G1 by blast
        next
          case False
          then have "s = id_indirect d" using Some c by simp
          then show ?thesis using old [OF False] G1 by simp
        qed
        then show "s \<notin> N" using G2 by blast
        have "marked st2 s" using m G2 by blast
        then show "unat s < bit_cnt (free_map st2)" by (simp add: marked_def)
        show "s \<notin> fm_data fm st2 \<union> fm_index fm st2" using m G2 by simp
        show "s \<noteq> 0" using Some c by simp
      qed
      from grown_write [OF grown_rest(1) [OF g2] sN(2,3), of "words_bytes iid'"] al(4) obtain st3 where
        w: "fs_write st2 s (words_bytes iid') = Some st3" "grown fm st2 st3 {} {s}" "fview st3 = (fview st2)(s := words_bytes iid')"
        by auto
      let ?d = "d\<lparr>id_indirect := s\<rparr>"
      have res: "indirect_alloc_single (fm_alloc (Suc e)) st d k = Some (True, ?d, st3)"
        using eq Some al(1) True w(1) by simp
      have "{s} \<subseteq> I \<union> {id_indirect d}" using Some c by (auto split: if_splits)
      then have g3: "grown fm st st3 (N \<union> I) {id_indirect d}"
        using grown_weaken [OF grown_trans [OF g2 w(2)], of "{id_indirect d}"] by (auto simp: Un_ac)
      have z: "\<forall>t \<in> N. fview st3 t = zeros" using al(3) w(3) sN(1) by auto
      have f: "filled 0 k (indirect_slots (fview st) d) (indirect_slots (fview st3) ?d) N"
        using al(5) True iid(1) w(3) sN(4) by (simp add: indirect_slots_def)
      have "N \<inter> I = {}" using grown_disjoint [OF g1 al(2)] by blast
      with res g3 z f sN(4) Some c cNI show ?thesis
        by (intro exI [of _ True] exI [of _ ?d] exI [of _ st3] exI [of _ N] exI [of _ I]) simp
    qed
  qed
qed

lemma filled_append1:
  assumes "filled 0 k A A' N" "k \<le> length A"
  shows "filled 0 k (A @ B) (A' @ B) N"
proof -
  have h: "holes 0 k (A @ B) = holes 0 k A" using assms(2) by (auto simp: holes_def nth_append)
  have "(A' @ B) ! j = A' ! j" if "j \<in> holes 0 k A" for j
    using that assms by (auto simp: holes_def filled_def nth_append)
  then have "bij_betw ((!) (A' @ B)) (holes 0 k A) N = bij_betw ((!) A') (holes 0 k A) N"
    by (rule bij_betw_cong)
  with assms h show ?thesis by (auto simp: filled_def nth_append)
qed

lemma filled_append2:
  assumes a: "filled 0 (length A) A A' N" and b: "filled 0 k B B' M" and "N \<inter> M = {}"
  shows "filled 0 (length A + k) (A @ B) (A' @ B') (N \<union> M)"
proof -
  let ?n = "length A"
  have h: "holes 0 (?n + k) (A @ B) = holes 0 ?n A \<union> (+) ?n ` holes 0 k B"
  proof (rule set_eqI)
    fix j
    show "j \<in> holes 0 (?n + k) (A @ B) \<longleftrightarrow> j \<in> holes 0 ?n A \<union> (+) ?n ` holes 0 k B"
    proof (cases "j < ?n")
      case False
      then have "j \<in> (+) ?n ` holes 0 k B \<longleftrightarrow> j - ?n \<in> holes 0 k B" by (auto simp: image_iff intro!: bexI [of _ "j - ?n"])
      with False show ?thesis by (auto simp: holes_def nth_append)
    qed (auto simp: holes_def nth_append)
  qed
  have len: "length A' = ?n" using a by (simp add: filled_def)
  have "bij_betw ((!) (A' @ B')) (holes 0 ?n A) N = bij_betw ((!) A') (holes 0 ?n A) N"
    by (rule bij_betw_cong) (simp add: holes_def nth_append len)
  then have 1: "bij_betw ((!) (A' @ B')) (holes 0 ?n A) N" using a by (simp add: filled_def)
  have "bij_betw ((!) (A' @ B') \<circ> (+) ?n) (holes 0 k B) M = bij_betw ((!) B') (holes 0 k B) M"
    by (rule bij_betw_cong) (simp add: nth_append len)
  then have "bij_betw ((!) (A' @ B') \<circ> (+) ?n) (holes 0 k B) M" using b by (simp add: filled_def)
  then have 2: "bij_betw ((!) (A' @ B')) ((+) ?n ` holes 0 k B) M"
    by (subst bij_betw_comp_iff [where f = "(+) ?n"]) (auto simp: bij_betw_def)
  have "(A' @ B') ! j = (A @ B) ! j" if "j \<notin> holes 0 (?n + k) (A @ B)" for j
  proof (cases "j < ?n")
    case True
    with that h a len show ?thesis by (auto simp: filled_def nth_append)
  next
    case False
    then obtain i where "j = ?n + i" using le_Suc_ex by (metis not_less)
    with that h b len show ?thesis by (auto simp: filled_def nth_append)
  qed
  moreover have "bij_betw ((!) (A' @ B')) (holes 0 (?n + k) (A @ B)) (N \<union> M)"
    unfolding h by (rule bij_betw_combine [OF 1 2 assms(3)])
  ultimately show ?thesis using a b by (simp add: filled_def)
qed

text \<open>What growth to at most 251 blocks relies on: the index block is the file's own.\<close>

definition own_index :: "inode \<Rightarrow> fs \<Rightarrow> inode_disk \<Rightarrow> bool" where
  "own_index fm st d \<longleftrightarrow> (id_indirect d \<noteq> 0 \<longrightarrow>
     marked st (id_indirect d) \<and> id_indirect d \<notin> fm_data fm st \<union> fm_index fm st)"

text \<open>
  \<open>allocated fm st st' d d' n N I\<close>: the pointers of \<open>d'\<close> are those of \<open>d\<close> with the fresh zeroed sectors
  \<open>N\<close> in the holes below \<open>n\<close>; \<open>I\<close> holds the index block if it is new.
\<close>

definition allocated :: "inode \<Rightarrow> fs \<Rightarrow> fs \<Rightarrow> inode_disk \<Rightarrow> inode_disk \<Rightarrow> nat \<Rightarrow> disk_sector_t set \<Rightarrow> disk_sector_t set \<Rightarrow> bool" where
  "allocated fm st st' d d' n N I \<longleftrightarrow> (\<forall>s \<in> N. fview st' s = zeros) \<and> filled 0 n (slots (fview st) d) (slots (fview st') d') N
     \<and> d' = d\<lparr>id_direct := id_direct d', id_indirect := id_indirect d'\<rparr> \<and> length (id_direct d') = 123 \<and> N \<inter> I = {}
     \<and> (if id_indirect d = 0 \<and> 123 < n then id_indirect d' \<noteq> 0 \<and> I = {id_indirect d'} else I = {} \<and> id_indirect d' = id_indirect d)"

lemma inode_disk_allocate_ok:
  assumes inv: "fs_inv fm st" and dir: "length (id_direct d) = 123" and n: "n \<le> 251" and own: "own_index fm st d"
  shows "\<exists>ok d' st' N I. inode_disk_allocate (fm_alloc (Suc e)) st d n = Some (ok, d', st')
    \<and> grown fm st st' (N \<union> I) {id_indirect d} \<and> card (N \<union> I) \<le> n + 1 \<and> (\<not> ok \<longrightarrow> disk_full st')
    \<and> (ok \<longrightarrow> allocated fm st st' d d' n N I)"
proof -
  let ?di = "if n > 123 then 123 else n"
  have di: "0 + ?di \<le> length (id_direct d)" using dir by simp
  from alloc_slots_ok [OF inv di, of e] dir obtain ok direct st1 N where
    al: "alloc_slots (fm_alloc (Suc e)) ?di 0 (id_direct d) st = Some (ok, direct, st1)" "grown fm st st1 N {}"
    "\<forall>s \<in> N. fview st1 s = zeros" "length direct = 123"
    "if ok then filled 0 ?di (id_direct d) direct N else disk_full st1" "card N \<le> ?di" unfolding disk_full_def by auto
  have cN: "card N \<le> n + 1" using al(6) by (simp split: if_splits)
  let ?d = "d\<lparr>id_direct := direct\<rparr>"
  note g1 = grown_weaken [OF al(2), of "{id_indirect d}"]
  have ind: "indirect_slots (fview st1) d = indirect_slots (fview st) d"
  proof (cases "id_indirect d = 0")
    case False
    with own al(2) have "fview st1 (id_indirect d) = fview st (id_indirect d)" by (auto simp: own_index_def grown_def)
    then show ?thesis by (simp add: indirect_slots_def)
  qed (simp add: indirect_slots_def)
  have ind': "indirect_slots v ?d = indirect_slots v d" for v by (simp add: indirect_slots_def)
  show ?thesis
  proof (cases "ok \<and> 123 < n")
    case False
    show ?thesis
    proof (cases ok)
      case True
      with False have n': "n \<le> 123" by simp
      have "filled 0 n (slots (fview st) d) (slots (fview st1) ?d) N"
        using filled_append1 [of n "id_direct d" direct N "indirect_slots (fview st) d"] al(5) True n' dir ind ind'
        by (simp add: slots_def)
      then have "allocated fm st st1 d ?d n N {}" using al(3,4) n' by (simp add: allocated_def)
      moreover have "inode_disk_allocate (fm_alloc (Suc e)) st d n = Some (True, ?d, st1)"
        using al(1) True n' by (simp add: inode_disk_allocate_def)
      ultimately show ?thesis using g1 cN
        by (intro exI [of _ True] exI [of _ ?d] exI [of _ st1] exI [of _ N] exI [of _ "{}"]) simp
    next
      case False
      then have "inode_disk_allocate (fm_alloc (Suc e)) st d n = Some (False, ?d, st1)"
        using al(1) unfolding inode_disk_allocate_def Let_def by simp
      then show ?thesis using g1 al(5) False cN
        by (intro exI [of _ False] exI [of _ ?d] exI [of _ st1] exI [of _ N] exI [of _ "{}"]) simp
    qed
  next
    case True
    then have n': "123 < n" and ok by simp_all
    let ?k = "n - 123"
    have k: "(if ?k > 128 then 128 else ?k) = ?k" "?k \<le> 128" using n by auto
    have old: "id_indirect ?d \<noteq> 0 \<Longrightarrow> marked st1 (id_indirect ?d) \<and> id_indirect ?d \<notin> fm_data fm st1 \<union> fm_index fm st1"
      using own al(2) by (simp add: own_index_def grown_def)
    from indirect_alloc_single_ok [OF grown_rest(1) [OF al(2)] k(2) old, of e] obtain ok2 d2 st2 M I where
      sng: "indirect_alloc_single (fm_alloc (Suc e)) st1 ?d ?k = Some (ok2, d2, st2)"
      "grown fm st1 st2 (M \<union> I) {id_indirect ?d}" "\<not> ok2 \<longrightarrow> disk_full st2" "card (M \<union> I) \<le> ?k + 1"
      and fin: "ok2 \<longrightarrow> (\<forall>s \<in> M. fview st2 s = zeros)
        \<and> filled 0 ?k (indirect_slots (fview st1) ?d) (indirect_slots (fview st2) d2) M
        \<and> d2 = ?d\<lparr>id_indirect := id_indirect d2\<rparr> \<and> id_indirect d2 \<noteq> 0 \<and> M \<inter> I = {}
        \<and> (if id_indirect ?d = 0 then I = {id_indirect d2} else I = {} \<and> id_indirect d2 = id_indirect ?d)" by blast
    have e1: "inode_disk_allocate (fm_alloc (Suc e)) st d n = Some (ok2, d2, st2)"
      using al(1) \<open>ok\<close> n' n k sng(1) unfolding inode_disk_allocate_def Let_def inode_indirect_alloc_def by simp
    have g2: "grown fm st st2 (N \<union> M \<union> I) {id_indirect d}"
      using grown_trans [OF al(2) sng(2)] by (simp add: Un_assoc)
    have disj: "N \<inter> (M \<union> I) = {}" by (rule grown_disjoint [OF al(2) sng(2)])
    have cA: "card (N \<union> M \<union> I) \<le> n + 1"
      using card_Un_le [of N "M \<union> I"] al(6) sng(4) n' by (simp add: Un_assoc)
    show ?thesis
    proof (cases ok2)
      case False
      then show ?thesis using e1 g2 sng(3) cA
        by (intro exI [of _ False] exI [of _ d2] exI [of _ st2] exI [of _ "N \<union> M"] exI [of _ I]) simp
    next
      case True
      have i0: "id_indirect ?d = id_indirect d" by simp
      note D = fin [THEN mp, OF True, unfolded i0]
      have z: "fview st2 s = zeros" if "s \<in> N" for s
      proof -
        have "s \<notin> fm_data fm st1" using new_not_fm [OF al(2) inv that] by blast
        moreover have "s \<noteq> id_indirect d"
        proof
          assume "s = id_indirect d"
          moreover have "\<not> marked st s" "s \<noteq> 0" using al(2) inv that by (auto simp: grown_def fs_inv_def)
          ultimately show False using own by (simp add: own_index_def)
        qed
        ultimately have "fview st2 s = fview st1 s" using grown_facts(3) [OF sng(2)] disj that by auto
        with al(3) that show ?thesis by simp
      qed
      have d2: "d2 = ?d\<lparr>id_indirect := id_indirect d2\<rparr>" using D by blast
      have "filled 0 (length (id_direct d) + ?k) (id_direct d @ indirect_slots (fview st) d) (direct @ indirect_slots (fview st2) d2) (N \<union> M)"
      proof (rule filled_append2)
        show "filled 0 (length (id_direct d)) (id_direct d) direct N" using al(5) \<open>ok\<close> n' dir by simp
        show "filled 0 ?k (indirect_slots (fview st) d) (indirect_slots (fview st2) d2) M"
          using D [THEN conjunct2, THEN conjunct1] ind ind' by simp
      qed (use disj in blast)
      moreover have dd: "id_direct d2 = direct"
      proof -
        from d2 have "id_direct d2 = id_direct (?d\<lparr>id_indirect := id_indirect d2\<rparr>)" by (rule arg_cong)
        then show ?thesis by simp
      qed
      ultimately have f: "filled 0 n (slots (fview st) d) (slots (fview st2) d2) (N \<union> M)"
        using dir n' by (simp add: slots_def)
      have "d\<lparr>id_direct := id_direct d2, id_indirect := id_indirect d2\<rparr> = ?d\<lparr>id_indirect := id_indirect d2\<rparr>"
        unfolding dd ..
      with d2 have deq: "d2 = d\<lparr>id_direct := id_direct d2, id_indirect := id_indirect d2\<rparr>" by (rule trans [OF _ sym])
      have "allocated fm st st2 d d2 n (N \<union> M) I"
        unfolding allocated_def
      proof (intro conjI)
        show "\<forall>s \<in> N \<union> M. fview st2 s = zeros" using z D [THEN conjunct1] by blast
        show "(N \<union> M) \<inter> I = {}" using disj D by blast
        show "if id_indirect d = 0 \<and> 123 < n then id_indirect d2 \<noteq> 0 \<and> I = {id_indirect d2}
            else I = {} \<and> id_indirect d2 = id_indirect d"
        proof -
          have "id_indirect d2 \<noteq> 0" "if id_indirect d = 0 then I = {id_indirect d2} else I = {} \<and> id_indirect d2 = id_indirect d"
            using D by blast+
          then show ?thesis using n' by simp
        qed
        show "length (id_direct d2) = 123" using dd al(4) by simp
      qed (fact f, fact deq)
      then show ?thesis using e1 g2 True cA
        by (intro exI [of _ True] exI [of _ d2] exI [of _ st2] exI [of _ "N \<union> M"] exI [of _ I]) simp
    qed
  qed
qed

text \<open>Allocation of \<open>n\<close> blocks and an index block fails only when there is no room for them.\<close>

definition free_sectors :: "fs \<Rightarrow> disk_sector_t set" where
  "free_sectors st = {s. unat s < bit_cnt (free_map st) \<and> \<not> marked st s}"

lemma full_after:
  assumes "grown fm st st' M W" "disk_full st'"
  shows "card (free_sectors st) \<le> card M"
proof (rule card_mono)
  show "free_sectors st \<subseteq> M"
    using assms(2) grown_facts(1,6) [OF assms(1)] by (auto simp: free_sectors_def disk_full_def)
qed simp

section \<open>A write that grows the file\<close>

text \<open>
  \<open>growable fm st ino\<close>: the file owns its sectors (they are marked and apart from the free map and from
  its inode), has no hole below its length and no pointer past it.
\<close>

definition growable :: "inode \<Rightarrow> fs \<Rightarrow> inode \<Rightarrow> bool" where
  "growable fm st ino \<longleftrightarrow> (let d = i_data ino; own = data_blocks (fview st) d \<union> index_blocks (fview st) d in
     i_deny_write_cnt ino = 0 \<and> inode_wf (fvalid st) (fview st) d \<and> own_index fm st d
     \<and> (\<forall>s \<in> insert (i_sector ino) own. marked st s \<and> s \<notin> fm_data fm st \<union> fm_index fm st)
     \<and> i_sector ino \<notin> own \<and> i_sector ino \<noteq> id_indirect d
     \<and> 0 \<notin> data_blocks (fview st) d \<and> id_indirect d \<notin> data_blocks (fview st) d
     \<and> (123 < blocks d \<longrightarrow> id_indirect d \<noteq> 0)
     \<and> (\<forall>k. blocks d \<le> k \<and> k < 251 \<longrightarrow> slots (fview st) d ! k = 0))"

lemma block_of_slots:
  assumes "length (id_direct d) = 123" "k < 251" "123 \<le> k \<Longrightarrow> id_indirect d \<noteq> 0"
  shows "block_of v d k = slots v d ! k"
  using assms by (auto simp: block_of_def slots_def indirect_slots_def nth_append)

lemma block_of_length [simp]: "block_of v (d\<lparr>id_length := L\<rparr>) = block_of v d"
  by (simp add: block_of_def fun_eq_iff)

lemma index_path_length [simp]: "index_path v (d\<lparr>id_length := L\<rparr>) = index_path v d"
  by (simp add: index_path_def fun_eq_iff)

lemma index_blocks_small:
  assumes "nat (id_length d) div 512 < 251"
  shows "index_blocks v d \<subseteq> {id_indirect d}"
  using assms by (auto simp: index_blocks_def index_path_def split: if_splits)

lemma allocated_blocks:
  assumes g: "grown fm st st' (N \<union> I) {id_indirect d}" and al: "allocated fm st st' d d' n N I"
    and d: "d = i_data ino" and inv: "fs_inv fm st" and ino: "growable fm st ino"
    and n: "blocks d \<le> n" "n \<le> 251"
  shows "\<And>k. k < blocks d \<Longrightarrow> block_of (fview st') d' k = block_of (fview st) d k \<and> block_of (fview st) d k \<noteq> 0"
    and "\<And>k. blocks d \<le> k \<Longrightarrow> k < n \<Longrightarrow> block_of (fview st') d' k \<in> N"
    and "inj_on (block_of (fview st') d') {..<n}"
    and "\<And>k. k < blocks d \<Longrightarrow> fview st' (block_of (fview st) d k) = fview st (block_of (fview st) d k)"
proof -
  let ?v = "fview st" and ?v' = "fview st'"
  note G = ino [unfolded growable_def Let_def, folded d]
  have dir: "length (id_direct d) = 123" "length (id_direct d') = 123"
    using G al by (auto simp: inode_wf_def allocated_def)
  have in_data: "block_of ?v d k \<in> data_blocks ?v d" if "k < blocks d" for k using that by (simp add: data_blocks_def)
  have old: "block_of ?v d k = slots ?v d ! k" if "k < blocks d" for k
    by (rule block_of_slots) (use that n G dir in auto)
  have nz: "block_of ?v d k \<noteq> 0" if "k < blocks d" for k using in_data [OF that] G by metis
  have ind': "id_indirect d' \<noteq> 0" if "123 < n" using al that by (auto simp: allocated_def split: if_splits)
  have new: "block_of ?v' d' k = slots ?v' d' ! k" if "k < n" for k
    by (rule block_of_slots) (use that n dir ind' in auto)
  have f: "filled 0 n (slots ?v d) (slots ?v' d') N" using al by (simp add: allocated_def)
  have h: "holes 0 n (slots ?v d) = {blocks d..<n}"
  proof -
    have "slots ?v d ! k = 0 \<longleftrightarrow> blocks d \<le> k" if "k < n" for k
      using that G n nz old by (metis not_le order.strict_trans2)
    then show ?thesis by (auto simp: holes_def)
  qed
  show 1: "block_of ?v' d' k = block_of ?v d k \<and> block_of ?v d k \<noteq> 0" if "k < blocks d" for k
    using f h new [of k] old [OF that] nz [OF that] that n(1) by (simp add: filled_def)
  show 2: "block_of ?v' d' k \<in> N" if "blocks d \<le> k" "k < n" for k
    using f that unfolding filled_def h by (auto simp: new bij_betw_def)
  have i2: "inj_on (block_of ?v' d') {blocks d..<n}"
    using f unfolding filled_def h by (auto simp: bij_betw_def inj_on_def new)
  have i1: "inj_on (block_of ?v' d') {..<blocks d}"
    using G 1 by (auto simp: inode_wf_def inj_on_def)
  have mk: "marked st (block_of ?v d k) \<and> block_of ?v d k \<notin> fm_data fm st" if "k < blocks d" for k
    using in_data [OF that] G by blast
  have cross: "block_of ?v' d' ` {..<blocks d} \<inter> block_of ?v' d' ` {blocks d..<n} = {}"
  proof -
    have "block_of ?v' d' j \<noteq> block_of ?v' d' k" if "j < blocks d" "blocks d \<le> k" "k < n" for j k
      using mk [OF that(1)] 1 [OF that(1)] 2 [OF that(2,3)] grown_facts(2) [OF g] by auto
    then show ?thesis by auto
  qed
  have "{..<n} = {..<blocks d} \<union> {blocks d..<n}" using n(1) by auto
  with inj_on_Un [of "block_of ?v' d'" "{..<blocks d}" "{blocks d..<n}"] i1 i2 cross
  show "inj_on (block_of ?v' d') {..<n}" by (auto simp: Diff_triv)
  show "?v' (block_of ?v d k) = ?v (block_of ?v d k)" if "k < blocks d" for k
  proof (rule grown_facts(3) [OF g])
    have "block_of ?v d k \<noteq> id_indirect d" using in_data [OF that] G by metis
    with mk [OF that] grown_facts(2) [OF g] show "block_of ?v d k \<notin> fm_data fm st \<union> (N \<union> I) \<union> {id_indirect d}" by blast
  qed
qed

lemma allocated_index:
  assumes g: "grown fm st st' (N \<union> I) {id_indirect d}" and al: "allocated fm st st' d d' n N I"
    and d: "d = i_data ino" and inv: "fs_inv fm st" and ino: "growable fm st ino"
  shows "marked st' (id_indirect d')" and "id_indirect d' \<notin> data_blocks (fview st) d" and "id_indirect d' \<notin> N"
    and "i_sector ino \<noteq> id_indirect d'"
proof -
  note G = ino [unfolded growable_def Let_def, folded d]
  have m0: "marked st 0" using inv by (simp add: fs_inv_def)
  consider "id_indirect d' \<in> I" | "id_indirect d' = id_indirect d" using al by (auto simp: allocated_def split: if_splits)
  then have "marked st' (id_indirect d') \<and> id_indirect d' \<notin> data_blocks (fview st) d \<and> id_indirect d' \<notin> N
    \<and> i_sector ino \<noteq> id_indirect d'"
  proof cases
    case 1
    then have nm: "\<not> marked st (id_indirect d')" using grown_facts(2) [OF g] by blast
    have "marked st' (id_indirect d')" using 1 grown_facts(1) [OF g] by blast
    moreover have "id_indirect d' \<notin> N" using 1 al by (auto simp: allocated_def)
    moreover have "id_indirect d' \<notin> data_blocks (fview st) d" "i_sector ino \<noteq> id_indirect d'" using nm G by auto
    ultimately show ?thesis by blast
  next
    case 2
    have "marked st (id_indirect d)" using m0 G by (cases "id_indirect d = 0") (auto simp: own_index_def)
    with 2 G grown_facts(1,2) [OF g] show ?thesis by auto
  qed
  then show "marked st' (id_indirect d')" "id_indirect d' \<notin> data_blocks (fview st) d" "id_indirect d' \<notin> N"
    "i_sector ino \<noteq> id_indirect d'" by blast+
qed

text \<open>The grown inode, with its new length, is well formed; its old bytes are kept and its new blocks are zero.\<close>

lemma allocated_wf:
  assumes g: "grown fm st st' (N \<union> I) {id_indirect d}" and al: "allocated fm st st' d d' n N I"
    and d: "d = i_data ino" and inv: "fs_inv fm st" and ino: "growable fm st ino"
    and L: "0 \<le> L" "n = (nat L + 511) div 512" "L < 251 * 512" and n: "blocks d \<le> n"
  defines "d2 \<equiv> d'\<lparr>id_length := L\<rparr>"
  shows "inode_wf (fvalid st') (fview st') d2"
    and "data_blocks (fview st') d2 \<subseteq> data_blocks (fview st) d \<union> N" and "index_blocks (fview st') d2 \<subseteq> {id_indirect d'}"
    and "\<And>q. q < nat L \<Longrightarrow> fbyte (fview st') d2 q = (if q < 512 * blocks d then fbyte (fview st) d q else 0)"
proof -
  let ?v = "fview st" and ?v' = "fview st'"
  note G = ino [unfolded growable_def Let_def, folded d]
  have n2: "n \<le> 251" using L by simp
  note B = allocated_blocks [OF g al d inv ino n n2]
  note X = allocated_index [OF g al d inv ino]
  have inv': "fs_inv fm st'" using grown_rest(1) [OF g] .
  have ok: "fvalid st' s" if "marked st' s" for s using inv' that by (auto simp: fs_inv_def marked_def)
  have bl: "blocks d2 = n" using L(2) by (simp add: blocks_def d2_def)
  have sm: "nat (id_length d2) div 512 < 251" using L(1,3) by (simp add: d2_def nat_less_iff less_mult_imp_div_less)
  have id2: "id_indirect d2 = id_indirect d'" by (simp add: d2_def)
  show sub: "data_blocks ?v' d2 \<subseteq> data_blocks ?v d \<union> N"
  proof
    fix s
    assume "s \<in> data_blocks ?v' d2"
    then obtain k where k: "k < n" "s = block_of ?v' d' k" using bl by (auto simp: data_blocks_def d2_def)
    show "s \<in> data_blocks ?v d \<union> N"
      using B(1,2) [of k] k by (cases "k < blocks d") (auto simp: data_blocks_def)
  qed
  show idx: "index_blocks ?v' d2 \<subseteq> {id_indirect d'}" using index_blocks_small [OF sm] id2 by metis
  have mk: "marked st' s" if "s \<in> data_blocks ?v' d2" for s
    using that sub G grown_facts(1) [OF g] by blast
  have nin: "id_indirect d' \<notin> data_blocks ?v' d2" using sub X(2,3) by blast
  have len: "length (id_direct d2) = 123" using al by (simp add: allocated_def d2_def)
  show "inode_wf (fvalid st') ?v' d2"
    unfolding inode_wf_def
  proof (intro conjI)
    show "0 \<le> id_length d2" "id_length d2 < 16635 * 512" using L by (simp_all add: d2_def)
    show "inj_on (block_of ?v' d2) {..<blocks d2}" using B(3) bl by (simp add: d2_def)
    show "\<forall>s \<in> index_blocks ?v' d2. fvalid st' s" using idx X(1) ok by blast
    show "\<forall>s \<in> data_blocks ?v' d2. fvalid st' s" using mk ok by blast
    show "index_blocks ?v' d2 \<inter> data_blocks ?v' d2 = {}" using idx nin by blast
  qed (fact len)
  show "fbyte ?v' d2 q = (if q < 512 * blocks d then fbyte ?v d q else 0)" if q: "q < nat L" for q
  proof (cases "q < 512 * blocks d")
    case True
    then have k: "q div 512 < blocks d" by (simp add: less_mult_imp_div_less mult.commute)
    with B(1,4) True show ?thesis by (simp add: fbyte_def d2_def)
  next
    case False
    then have "blocks d \<le> q div 512" using div_le_mono [of "512 * blocks d" q 512] by simp
    moreover have "q div 512 < n" using q L(2) by simp
    ultimately have "?v' (block_of ?v' d' (q div 512)) = zeros" using B(2) al by (simp add: allocated_def)
    then show ?thesis using False by (simp add: fbyte_def d2_def zeros_def DISK_SECTOR_SIZE_def)
  qed
qed

lemma bytes_to_sectors_eq:
  assumes "0 \<le> L" "L < 2 ^ 31 - 512"
  shows "bytes_to_sectors L = (nat L + 511) div 512"
proof -
  have "i32 (511 + L) = 511 + L" using assms by (auto intro!: i32_id)
  moreover have "cdiv (511 + L) 512 = (511 + L) div 512" using assms(1) by (simp add: cdiv_nonneg)
  moreover have "0 \<le> (511 + L) div 512" "(511 + L) div 512 < 2 ^ 32" using assms by simp_all
  moreover have "nat ((511 + L) div 512) = (nat L + 511) div 512"
    using assms(1) by (simp add: nat_div_distrib nat_add_distrib add.commute)
  ultimately show ?thesis by (simp add: bytes_to_sectors_def)
qed

lemma bind_SomeE:
  assumes "Option.bind m f = Some y"
  obtains x where "m = Some x" "f x = Some y"
  using assms by (cases m) auto

lemma alloc_tail_length:
  assumes "(case r of None \<Rightarrow> Some (False, d, st)
     | Some s \<Rightarrow> Option.bind m (\<lambda>(ok, iid, st). if \<not> ok then Some (False, g s, st)
         else Option.bind (w s iid st) (\<lambda>st. Some (True, g s, st)))) = Some (ok, d', st')"
    and "\<And>s. id_length (g s) = id_length d"
  shows "id_length d' = id_length d"
  using assms by (auto simp: Option.bind_eq_Some_conv split: option.splits if_split_asm)

lemma indirect_alloc_length:
  "indirect_alloc_single fa st d k = Some (ok, d', st') \<Longrightarrow> id_length d' = id_length d"
  "indirect_alloc_double fa st d k = Some (ok, d', st') \<Longrightarrow> id_length d' = id_length d"
  unfolding indirect_alloc_single_def indirect_alloc_double_def Let_def
  by (elim bind_SomeE, simp only: split_beta, erule alloc_tail_length, simp)+

lemma inode_indirect_alloc_length:
  "inode_indirect_alloc fa st d k level = Some (ok, d', st') \<Longrightarrow> id_length d' = id_length d"
  using indirect_alloc_length [of fa st d k ok d' st'] by (simp add: inode_indirect_alloc_def split: if_split_asm)

lemma inode_disk_allocate_length:
  assumes "inode_disk_allocate fa st d n = Some (ok, d', st')"
  shows "id_length d' = id_length d"
proof -
  from assms obtain ok1 direct st1 where "alloc_slots fa (if n > 123 then 123 else n) 0 (id_direct d) st = Some (ok1, direct, st1)"
    unfolding inode_disk_allocate_def Let_def by (elim bind_SomeE) auto
  note eq = assms [unfolded inode_disk_allocate_def Let_def this, simplified]
  show ?thesis
  proof (cases "ok1 \<and> 123 < n")
    case True
    let ?a = "inode_indirect_alloc fa st1 (d\<lparr>id_direct := direct\<rparr>) (if 128 < n - 123 then 128 else n - 123) 0"
    from True eq obtain ok2 d2 st2 where a: "?a = Some (ok2, d2, st2)" by (cases ?a) auto
    then have l2: "id_length d2 = id_length d" using inode_indirect_alloc_length by fastforce
    show ?thesis
    proof (cases "ok2 \<and> 128 < n - 123")
      case True
      with a \<open>ok1 \<and> 123 < n\<close> eq have "inode_indirect_alloc fa st2 d2 (n - 251) 1 = Some (ok, d', st')"
        by (simp split: if_split_asm)
      then show ?thesis using inode_indirect_alloc_length l2 by fastforce
    next
      case False
      with a \<open>ok1 \<and> 123 < n\<close> eq l2 show ?thesis by (cases ok2) (simp_all split: if_split_asm)
    qed
  next
    case False
    then show ?thesis using eq by (cases ok1) auto
  qed
qed

lemma fs_inv_inodes:
  assumes "fs_inv fm st" "free_map_file st = Some fil" "f_inode fil \<noteq> a"
  shows "fs_inv fm (st\<lparr>inodes := (inodes st)(a := x)\<rparr>)"
  using assms by (simp add: fs_inv_def marked_def)

text \<open>
  \<open>file_grown\<close>: what a growing write leaves.  The inode, in memory and in its sector, has the new length
  \<open>L\<close>; its bytes are the old ones up to the end of the last old block, then zeros, and from \<open>offset\<close> on the
  bytes written; no other used sector has changed, apart from the free map file.
\<close>

definition file_grown :: "inode \<Rightarrow> fs \<Rightarrow> fs \<Rightarrow> nat \<Rightarrow> inode \<Rightarrow> byte list \<Rightarrow> int \<Rightarrow> int \<Rightarrow> inode_disk \<Rightarrow> bool" where
  "file_grown fm st st' a ino buf offset L d \<longleftrightarrow>
     inodes st' = (inodes st)(a \<mapsto> ino\<lparr>i_data := d\<rparr>) \<and> id_length d = L
     \<and> fview st' (i_sector ino) = inode_bytes d \<and> inode_wf (fvalid st') (fview st') d
     \<and> (\<forall>q < nat L. fbyte (fview st') d q =
          (if nat offset \<le> q then buf ! (q - nat offset)
           else if q < 512 * blocks (i_data ino) then fbyte (fview st) (i_data ino) q else 0))
     \<and> (\<forall>t. marked st t \<and> t \<notin> fm_data fm st \<union> data_blocks (fview st) (i_data ino)
            \<and> t \<noteq> i_sector ino \<and> t \<noteq> id_indirect (i_data ino) \<longrightarrow> fview st' t = fview st t)"

lemma store_inode:
  assumes inv: "fs_inv fm st" and fil: "free_map_file st = Some fil" "f_inode fil \<noteq> a" and a: "inodes st a = Some ino"
    and s: "marked st (i_sector ino)" "i_sector ino \<notin> fm_data fm st \<union> fm_index fm st" and d: "length (id_direct d) = 123"
  shows "\<exists>st1 st2. upd_inode a (\<lambda>i. i\<lparr>i_data := d\<rparr>) st = Some st1
    \<and> fs_write st1 (i_sector ino) (inode_bytes d) = Some st2 \<and> fs_inv fm st2
    \<and> inodes st2 = (inodes st)(a \<mapsto> ino\<lparr>i_data := d\<rparr>) \<and> fvalid st2 = fvalid st \<and> free_map st2 = free_map st
    \<and> fview st2 = (fview st)(i_sector ino := inode_bytes d)"
proof -
  let ?st1 = "st\<lparr>inodes := (inodes st)(a \<mapsto> ino\<lparr>i_data := d\<rparr>)\<rparr>"
  have u: "upd_inode a (\<lambda>i. i\<lparr>i_data := d\<rparr>) st = Some ?st1" using a by (simp add: upd_inode_def)
  have inv1: "fs_inv fm ?st1" using fs_inv_inodes [OF inv fil] by simp
  from grown_write [OF inv1, of "i_sector ino" "inode_bytes d"] s d obtain st2 where
    w: "fs_write ?st1 (i_sector ino) (inode_bytes d) = Some st2" "grown fm ?st1 st2 {} {i_sector ino}"
    "fview st2 = (fview st)(i_sector ino := inode_bytes d)" "free_map st2 = free_map st" by (auto simp: marked_def)
  note r = grown_rest [OF w(2)]
  show ?thesis using u w(1,3,4) r(1,2,7)
    by (intro exI [of _ ?st1] exI [of _ st2]) simp
qed

lemma inode_write_gen_grow:
  assumes inv: "fs_inv fm st" and fil: "free_map_file st = Some fil" "f_inode fil \<noteq> a"
    and a: "inodes st a = Some ino" and ino: "growable fm st ino"
    and r: "0 \<le> offset" "0 < sze" "inode_length ino + 1 < offset + sze" "offset + sze < 251 * 512"
    and buf: "nat sze \<le> length buf"
  shows "\<exists>r st'. inode_write_gen (fm_alloc (Suc e)) st a buf sze offset = Some (r, st')
    \<and> (r = 0 \<and> disk_full st' \<and> card (free_sectors st) \<le> (nat (offset + sze) + 511) div 512 + 1
         \<and> (\<exists>d. inodes st' = (inodes st)(a \<mapsto> ino\<lparr>i_data := d\<rparr>) \<and> id_length d = inode_length ino)
       \<or> r = sze \<and> (\<exists>d. file_grown fm st st' a ino buf offset (offset + sze) d))"
proof -
  define d where "d = i_data ino"
  define L where "L = offset + sze"
  define n where "n = (nat L + 511) div 512"
  let ?v = "fview st"
  note G = ino [unfolded growable_def Let_def, folded d_def]
  have L: "0 \<le> L" "L < 251 * 512" "id_length d + 1 < L" using r by (simp_all add: L_def d_def inode_length_def)
  have i: "i32 L = L" "i32 (L - 1) = L - 1"
    using L r(1,2) by (auto intro!: i32_id simp: L_def)
  have nb: "bytes_to_sectors L = n" using bytes_to_sectors_eq L(1,2) by (simp add: n_def)
  have n: "blocks d \<le> n" "n \<le> 251" "length (id_direct d) = 123"
    using L G by (auto simp: n_def blocks_def inode_wf_def intro!: div_le_mono)
  have own: "own_index fm st d" using G by blast
  from inode_disk_allocate_ok [OF inv n(3,2) own, of e] obtain ok d' st1 N I where
    al: "inode_disk_allocate (fm_alloc (Suc e)) st d n = Some (ok, d', st1)" "grown fm st st1 (N \<union> I) {id_indirect d}"
    "\<not> ok \<longrightarrow> disk_full st1" "ok \<longrightarrow> allocated fm st st1 d d' n N I" "card (N \<union> I) \<le> n + 1" by blast
  note r1 = grown_rest [OF al(2)]
  have b2s: "byte_to_sector st d (L - 1) = Some (- 1, st)" using L(3) by (intro byte_to_sector_outside) simp
  have eq: "inode_write_gen (fm_alloc (Suc e)) st a buf sze offset =
    (if \<not> ok then do { st \<leftarrow> upd_inode a (\<lambda>i. i\<lparr>i_data := d'\<rparr>) st1; Some (0, st) }
     else do {
       let d = d'\<lparr>id_length := L\<rparr>;
       st \<leftarrow> upd_inode a (\<lambda>i. i\<lparr>i_data := d\<rparr>) st1;
       st \<leftarrow> fs_write st (i_sector ino) (inode_bytes d);
       inode_write_loop d buf sze offset st })"
    using a G b2s i al(1) nb unfolding inode_write_gen_def L_def [symmetric] by (simp add: d_def [symmetric])
  show ?thesis
  proof (cases ok)
    case False
    have "inode_write_gen (fm_alloc (Suc e)) st a buf sze offset
        = Some (0, st1\<lparr>inodes := (inodes st1)(a \<mapsto> ino\<lparr>i_data := d'\<rparr>)\<rparr>)"
      using eq False a r1(2) by (simp add: upd_inode_def)
    moreover have "id_length d' = inode_length ino"
      using inode_disk_allocate_length [OF al(1)] by (simp add: d_def inode_length_def)
    moreover have "card (free_sectors st) \<le> n + 1" using full_after [OF al(2)] al(3,5) False by simp
    ultimately show ?thesis using False al(3) r1(2) unfolding n_def L_def by (auto simp: disk_full_def marked_def)
  next
    case True
    then have al': "allocated fm st st1 d d' n N I" using al(4) by blast
    let ?d = "d'\<lparr>id_length := L\<rparr>"
    note W = allocated_wf [OF al(2) al' d_def inv ino L(1) n_def L(2) n(1)]
    note X = allocated_index [OF al(2) al' d_def inv ino]
    have si: "marked st (i_sector ino)" "i_sector ino \<notin> fm_data fm st \<union> fm_index fm st" "i_sector ino \<notin> data_blocks ?v d"
      using G by auto
    have si1: "marked st1 (i_sector ino)" "i_sector ino \<notin> fm_data fm st1 \<union> fm_index fm st1"
      using si grown_facts(1,4,5) [OF al(2)] by auto
    have len: "length (id_direct ?d) = 123" using al' by (simp add: allocated_def)
    from store_inode [OF r1(1) _ fil(2) _ si1 len] fil(1) a r1(2,4) obtain st2 st3 where
      st3: "upd_inode a (\<lambda>i. i\<lparr>i_data := ?d\<rparr>) st1 = Some st2" "fs_write st2 (i_sector ino) (inode_bytes ?d) = Some st3"
      "fs_inv fm st3" "inodes st3 = (inodes st)(a \<mapsto> ino\<lparr>i_data := ?d\<rparr>)" "fvalid st3 = fvalid st1"
      and v3: "fview st3 = (fview st1)(i_sector ino := inode_bytes ?d)" by auto
    have sN: "i_sector ino \<notin> N \<union> I" using si(1) grown_facts(2) [OF al(2)] by blast
    have sd: "i_sector ino \<notin> data_blocks (fview st1) ?d" using W(2) si(3) sN by blast
    have "i_sector ino \<notin> index_blocks (fview st1) ?d" using W(3) X(4) by blast
    then have "\<forall>t \<in> index_blocks (fview st1) ?d. fview st3 t = fview st1 t" using v3 by auto
    note same = same_index [OF this]
    have wf3: "inode_wf (fvalid st3) (fview st3) ?d" using W(1) same(4) st3(5) by simp
    have fb3: "fbyte (fview st3) ?d q = (if q < 512 * blocks d then fbyte ?v d q else 0)" if "q < nat L" for q
    proof -
      have k: "q div 512 < blocks ?d" using block_in_blocks [of q ?d] that by simp
      have "block_of (fview st1) ?d (q div 512) \<in> data_blocks (fview st1) ?d"
        unfolding data_blocks_def using k by (intro imageI) simp
      then have "block_of (fview st1) ?d (q div 512) \<noteq> i_sector ino" using sd by metis
      then have "fview st3 (block_of (fview st1) ?d (q div 512)) = fview st1 (block_of (fview st1) ?d (q div 512))"
        unfolding v3 by simp
      then have "fbyte (fview st3) ?d q = fbyte (fview st1) ?d q"
        unfolding fbyte_def same(1) [OF blocks_le [OF k]] by simp
      then show ?thesis using W(4) [OF that] by simp
    qed
    have m3: "fs_ok st3" "mem_ok st3" using st3(3) by (simp_all add: fs_inv_def)
    have off: "offset < 2 ^ 31" using r by simp
    have in_: "inside ?d sze offset = nat sze" by (simp add: inside_def L_def)
    from inode_write_loop_ok [OF m3 wf3 r(1) off buf] obtain st4 v4 where
      w: "inode_write_loop ?d buf sze offset st3 = Some (sze, st4)" "fs_becomes st3 st4 v4"
      "wrote (fview st3) v4 ?d (nat offset) buf (nat sze)" unfolding in_ using r(2) by auto
    note r4 = fs_becomes_rest [OF w(2)]
    have out: "\<forall>t. t \<notin> data_blocks (fview st3) ?d \<longrightarrow> v4 t = fview st3 t" using w(3) by (simp add: wrote_def)
    have sd3: "i_sector ino \<notin> data_blocks (fview st3) ?d" using sd same(2) by metis
    have fbytes: "fbyte (fview st4) ?d q = (if nat offset \<le> q then buf ! (q - nat offset)
           else if q < 512 * blocks d then fbyte ?v d q else 0)" if "q < nat L" for q
    proof -
      have "q < nat offset + nat sze" using that r(1,2) by (simp add: L_def nat_add_distrib)
      moreover have "q < nat (id_length ?d)" using that by simp
      ultimately show ?thesis using w(3) fb3 [OF that] r4(3) by (simp add: wrote_def)
    qed
    have frame: "fview st4 t = ?v t" if t: "marked st t" "t \<notin> fm_data fm st \<union> data_blocks ?v d" "t \<noteq> i_sector ino" "t \<noteq> id_indirect d" for t
    proof -
      have tN: "t \<notin> N \<union> I" using t(1) grown_facts(2) [OF al(2)] by blast
      have "t \<notin> data_blocks (fview st1) ?d" using W(2) t(2) tN by blast
      then have "t \<notin> data_blocks (fview st3) ?d" using same(2) by metis
      then have "fview st4 t = fview st3 t" using out r4(3) by simp
      also have "\<dots> = fview st1 t" using v3 t(3) by simp
      also have "\<dots> = ?v t" using grown_facts(3) [OF al(2)] t tN by blast
      finally show ?thesis .
    qed
    have "fview st4 (i_sector ino) = inode_bytes ?d" using out sd3 v3 r4(3) by simp
    moreover have "inode_wf (fvalid st4) (fview st4) ?d" using same_map(4) [OF wf3 out] r4(2,3) by simp
    ultimately have "file_grown fm st st4 a ino buf offset L ?d"
      unfolding file_grown_def d_def [symmetric] using st3(4) r4(5) fbytes frame by simp
    moreover have "inode_write_gen (fm_alloc (Suc e)) st a buf sze offset = Some (sze, st4)"
      using eq True st3(1,2) w(1) by (simp add: Let_def)
    ultimately show ?thesis unfolding L_def by blast
  qed
qed

section \<open>Releasing sectors\<close>

lemma free_map_release_ok:
  assumes inv: "fs_inv fm st" and s: "marked st s" "s \<noteq> 0" "s \<notin> fm_data fm st \<union> fm_index fm st"
  shows "\<exists>st'. free_map_release st s 1 = Some st' \<and> fs_inv fm st' \<and> fm_synced fm st' \<and> inodes st' = inodes st
    \<and> fvalid st' = fvalid st \<and> bit_cnt (free_map st') = bit_cnt (free_map st)
    \<and> fm_data fm st' = fm_data fm st \<and> fm_index fm st' = fm_index fm st
    \<and> (\<forall>t. marked st' t \<longleftrightarrow> marked st t \<and> t \<noteq> s) \<and> (\<forall>t. t \<notin> fm_data fm st \<longrightarrow> fview st' t = fview st t)"
proof -
  have wf: "bm_wf (free_map st)" using inv by (simp add: fs_inv_def)
  obtain fil where fil: "free_map_file st = Some fil" using inv by (auto simp: fs_inv_def)
  have r: "unat s + 1 \<le> bit_cnt (free_map st)" using s(1) by (simp add: marked_def)
  have all: "bitmap_all (free_map st) (unat s) 1 = Some True"
    using bitmap_contains_eq [OF wf r, of False] s(1) by (auto simp: bitmap_all_def marked_def less_Suc_eq)
  from bitmap_set_multiple_becomes [OF wf r, of False] obtain b where
    b: "bitmap_set_multiple (free_map st) (unat s) 1 False = Some b"
    and bb: "bm_becomes (free_map st) b (\<lambda>j. if unat s \<le> j \<and> j < unat s + 1 then False else bm_bit (free_map st) j)" by blast
  have b': "bm_wf b" "bit_cnt b = bit_cnt (free_map st)" "\<And>j. bm_bit b j \<longleftrightarrow> j \<noteq> unat s \<and> bm_bit (free_map st) j"
    using bb by (auto simp: bm_becomes_def)
  have more: "\<forall>t \<in> {0} \<union> fm_data fm st \<union> fm_index fm st. bm_bit b (unat t)"
  proof
    fix t
    assume t: "t \<in> {0} \<union> fm_data fm st \<union> fm_index fm st"
    then have "marked st t" using inv by (auto simp: fs_inv_def)
    moreover have "t \<noteq> s" using t s(2,3) by blast
    then have "unat t \<noteq> unat s" by (simp add: word_unat_eq_iff)
    ultimately show "bm_bit b (unat t)" using b'(3) by (simp add: marked_def)
  qed
  from bitmap_write_gen_ok [OF inv b'(1,2) more fil, of free_map_allocate] obtain st' where
    w: "bitmap_write_gen (inode_write_gen free_map_allocate) b fil (st\<lparr>free_map := b\<rparr>) = Some (True, st')"
    "fs_inv fm st'" "free_map st' = b" "fm_synced fm st'" "fs_becomes (st\<lparr>free_map := b\<rparr>) st' (fview st')"
    "fm_data fm st' = fm_data fm st" "fm_index fm st' = fm_index fm st"
    "\<forall>t. t \<notin> fm_data fm st \<longrightarrow> fview st' t = fview st t" by auto
  note rr = fs_becomes_rest [OF w(5)]
  have "free_map_release st s 1 = Some st'"
    using all b fil w(1) by (simp add: free_map_release_def bitmap_write_def inode_write_at_def)
  moreover have "\<forall>t. marked st' t \<longleftrightarrow> marked st t \<and> t \<noteq> s"
    unfolding marked_def w(3) b'(2,3) word_unat_eq_iff [of _ s] by blast
  moreover have "inodes st' = inodes st" "fvalid st' = fvalid st" "bit_cnt (free_map st') = bit_cnt (free_map st)"
    using rr(2,5) b'(2) w(3) by simp_all
  ultimately show ?thesis using w(2,4,6-8) by (intro exI [of _ st'] conjI)
qed

section \<open>Creating\<close>

lemma free_map_allocate_Suc: "free_map_allocate = fm_alloc (Suc 1)"
  by (simp add: free_map_allocate_def ALLOC_DEPTH_def numeral_2_eq_2)

lemma fresh_growable:
  assumes inv: "fs_inv fm st" and s: "marked st sec" "sec \<noteq> 0" "sec \<notin> fm_data fm st \<union> fm_index fm st"
    and d: "id_direct d = replicate 123 0" "id_indirect d = 0" "id_length d = 0"
  shows "growable fm st (open_inode sec d)"
proof -
  have b: "blocks d = 0" "data_blocks v d = {}" "index_blocks v d = {}" for v
    using d(3) by (simp_all add: blocks_def data_blocks_def index_blocks_def index_path_def)
  have wf: "inode_wf (fvalid st) (fview st) d" using d b by (simp add: inode_wf_def)
  have i: "i_data (open_inode sec d) = d" "i_sector (open_inode sec d) = sec" "i_deny_write_cnt (open_inode sec d) = 0"
    by (simp_all add: open_inode_def)
  have z: "slots (fview st) d ! k = 0" if "k < 251" for k
  proof -
    have "slots (fview st) d = replicate (123 + 128) 0"
      unfolding replicate_add using d by (simp add: slots_def indirect_slots_def)
    then show ?thesis using that by simp
  qed
  show ?thesis unfolding growable_def Let_def i b d using wf s z by (simp add: own_index_def d)
qed

lemma allocated_length:
  assumes "allocated fm st st' d d' n N I"
  shows "allocated fm st st' (d\<lparr>id_length := x\<rparr>) (d'\<lparr>id_length := x\<rparr>) n N I"
proof -
  have sl: "slots v (e\<lparr>id_length := x\<rparr>) = slots v e" for v e by (simp add: slots_def indirect_slots_def)
  have eq: "d' = d\<lparr>id_direct := id_direct d', id_indirect := id_indirect d'\<rparr>" using assms by (simp only: allocated_def)
  have "d'\<lparr>id_length := x\<rparr> = d\<lparr>id_length := x, id_direct := id_direct d', id_indirect := id_indirect d'\<rparr>"
    using eq by (cases d, cases d') simp
  then show ?thesis using assms unfolding allocated_def sl by simp
qed

lemma allocated_fields:
  assumes "allocated fm st st' d d' n N I"
  shows "id_length d' = id_length d" "id_directory d' = id_directory d" "id_magic d' = id_magic d"
proof -
  have eq: "d' = d\<lparr>id_direct := id_direct d', id_indirect := id_indirect d'\<rparr>" using assms by (simp only: allocated_def)
  show "id_length d' = id_length d" using arg_cong [OF eq, of id_length] by simp
  show "id_directory d' = id_directory d" using arg_cong [OF eq, of id_directory] by simp
  show "id_magic d' = id_magic d" using arg_cong [OF eq, of id_magic] by simp
qed

text \<open>What \<^verbatim>\<open>inode_create\<close> leaves on the disk: an inode of the given length all of whose bytes are zero.\<close>

definition zero_file :: "fs \<Rightarrow> disk_sector_t \<Rightarrow> int \<Rightarrow> bool \<Rightarrow> inode_disk \<Rightarrow> bool" where
  "zero_file st sec len dir d \<longleftrightarrow> fview st sec = inode_bytes d \<and> id_length d = len \<and> id_directory d = dir
     \<and> id_magic d = INODE_MAGIC \<and> inode_wf (fvalid st) (fview st) d \<and> (\<forall>q < nat len. fbyte (fview st) d q = 0)"

lemma allocated_zero_file:
  assumes inv: "fs_inv fm st" and s: "marked st sec" "sec \<noteq> 0" "sec \<notin> fm_data fm st \<union> fm_index fm st"
    and d: "id_direct d = replicate 123 0" "id_indirect d = 0" "id_length d = len" "id_magic d = INODE_MAGIC"
    and len: "0 \<le> len" "len < 251 * 512" and n: "n = (nat len + 511) div 512"
    and g: "grown fm st st1 (N \<union> I) {0}" and al: "allocated fm st st1 d d' n N I"
  shows "\<exists>st2. fs_write st1 sec (inode_bytes d') = Some st2 \<and> grown fm st1 st2 {} {sec} \<and> zero_file st2 sec len (id_directory d) d'"
proof -
  let ?d = "d\<lparr>id_length := 0\<rparr>" and ?d2 = "d'\<lparr>id_length := 0\<rparr>"
  note A = allocated_length [OF al, of 0] and F = allocated_fields [OF al]
  have grow: "growable fm st (open_inode sec ?d)" by (rule fresh_growable [OF inv s]) (simp_all add: d)
  have g': "grown fm st st1 (N \<union> I) {id_indirect ?d}" using g d(2) by simp
  have i: "?d = i_data (open_inode sec ?d)" by (simp add: open_inode_def)
  have bl: "blocks ?d = 0" by (simp add: blocks_def)
  have bk: "?d2\<lparr>id_length := len\<rparr> = d'" using F(1) d(3) by (cases d') simp
  have "blocks ?d \<le> n" using bl by simp
  note W = allocated_wf [OF g' A i inv grow len(1) n len(2) this, unfolded bk]
  note X = allocated_index [OF g' A i inv grow]
  have dd: "data_blocks (fview st) ?d = {}" using bl by (simp add: data_blocks_def)
  have secN: "sec \<notin> N" using s(1) grown_facts(2) [OF g] by blast
  have sec: "sec \<notin> data_blocks (fview st1) d'" using W(2) secN dd by blast
  have "sec \<noteq> id_indirect d'" using X(4) by (simp add: open_inode_def)
  then have sec': "sec \<notin> index_blocks (fview st1) d'" using W(3) by auto
  have s1: "unat sec < bit_cnt (free_map st1)" "sec \<notin> fm_data fm st1 \<union> fm_index fm st1"
    using s(1,3) grown_facts(4-6) [OF g] by (simp_all add: marked_def)
  have "length (inode_bytes d') = 512" using al by (simp add: allocated_def)
  from grown_write [OF grown_rest(1) [OF g] s1 this] obtain st2 where
    w: "fs_write st1 sec (inode_bytes d') = Some st2" "grown fm st1 st2 {} {sec}" "fview st2 = (fview st1)(sec := inode_bytes d')" by blast
  note r2 = grown_rest [OF w(2)]
  have "\<forall>t \<in> index_blocks (fview st1) d'. fview st2 t = fview st1 t" using sec' w(3) by auto
  note same = same_index [OF this]
  have wf: "inode_wf (fvalid st2) (fview st2) d'" using W(1) unfolding same(4) r2(7) .
  have fb: "fbyte (fview st2) d' q = 0" if "q < nat len" for q
  proof -
    have k: "q div 512 < blocks d'" using block_in_blocks [of q d'] that F(1) d(3) by simp
    have "block_of (fview st1) d' (q div 512) \<in> data_blocks (fview st1) d'"
      unfolding data_blocks_def using k by (intro imageI) simp
    then have "block_of (fview st1) d' (q div 512) \<noteq> sec" using sec by metis
    then have "fbyte (fview st2) d' q = fbyte (fview st1) d' q"
      unfolding fbyte_def same(1) [OF blocks_le [OF k]] unfolding w(3) by simp
    then show ?thesis using W(4) [OF that] unfolding bl by simp
  qed
  have "fview st2 sec = inode_bytes d'" unfolding w(3) by simp
  with wf fb F d have "zero_file st2 sec len (id_directory d) d'" by (simp add: zero_file_def)
  with w(1,2) show ?thesis by blast
qed

lemma inode_create_ok:
  assumes inv: "fs_inv fm st" and s: "marked st sec" "sec \<noteq> 0" "sec \<notin> fm_data fm st \<union> fm_index fm st"
    and len: "0 \<le> len" "len < 251 * 512"
  shows "\<exists>ok st' M. inode_create st sec len dir = Some (ok, st') \<and> grown fm st st' M {0, sec}
    \<and> (if ok then \<exists>d. zero_file st' sec len dir d else card (free_sectors st) \<le> (nat len + 511) div 512 + 1)"
proof -
  define d where "d = \<lparr>id_direct = replicate 123 0, id_indirect = 0, id_dindirect = 0, id_directory = dir,
                id_length = len, id_magic = INODE_MAGIC\<rparr>"
  define n where "n = (nat len + 511) div 512"
  have d: "id_direct d = replicate 123 0" "id_indirect d = 0" "id_length d = len" "id_magic d = INODE_MAGIC" "id_directory d = dir"
    by (simp_all add: d_def)
  have mem: "mem_ok st" using inv by (simp add: fs_inv_def)
  have nb: "bytes_to_sectors len = n" using bytes_to_sectors_eq len by (simp add: n_def)
  have n: "n \<le> 251" using len by (simp add: n_def)
  have own: "own_index fm st d" "length (id_direct d) = 123" by (simp_all add: own_index_def d)
  from inode_disk_allocate_ok [OF inv own(2) n own(1), of 1] d(2) obtain ok d' st1 N I where
    al: "inode_disk_allocate free_map_allocate st d n = Some (ok, d', st1)" "grown fm st st1 (N \<union> I) {0}"
    "\<not> ok \<longrightarrow> disk_full st1" "ok \<longrightarrow> allocated fm st st1 d d' n N I" "card (N \<union> I) \<le> n + 1"
    unfolding free_map_allocate_Suc by metis
  have eq: "inode_create st sec len dir = (if ok then do { st \<leftarrow> fs_write st1 sec (inode_bytes d'); Some (True, st) } else Some (False, st1))"
    using len(1) mem nb al(1) by (simp add: inode_create_def d_def)
  show ?thesis
  proof (cases ok)
    case False
    then have "card (free_sectors st) \<le> n + 1" using full_after [OF al(2)] al(3,5) by simp
    then show ?thesis using eq False grown_weaken [OF al(2), of "{0, sec}"] unfolding n_def
      by (intro exI [of _ False] exI [of _ st1] exI [of _ "N \<union> I"]) simp
  next
    case True
    with al(4) have A: "allocated fm st st1 d d' n N I" by blast
    from allocated_zero_file [OF inv s d(1-4) len n_def al(2) A, unfolded d(5)] obtain st2 where
      w: "fs_write st1 sec (inode_bytes d') = Some st2" "grown fm st1 st2 {} {sec}" "zero_file st2 sec len dir d'" by blast
    have "grown fm st st2 (N \<union> I) {0, sec}" using grown_trans [OF al(2) w(2)] by (simp add: insert_commute)
    then show ?thesis using eq True w
      by (intro exI [of _ True] exI [of _ st2] exI [of _ "N \<union> I"]) auto
  qed
qed

section \<open>Properties\<close>

lemma sample_fs_marked: "marked sample_fs s \<longleftrightarrow> unat s < 6"
proof -
  define k where "k = unat s"
  have low: "bit (0x3f :: u32) j \<longleftrightarrow> j < 6" if "j < 32" for j
    using that bit_mask_iff [of 6 j, where 'a = u32] by (simp add: mask_eq_exp_minus_1)
  have "bm_bit (free_map sample_fs) k \<longleftrightarrow> k < 6" if "k < 100"
  proof (cases "k < 32")
    case True
    then show ?thesis using low by (simp add: bm_bit_def sample_fs_def)
  next
    case False
    with that have "k div 32 = 1 \<or> k div 32 = 2 \<or> k div 32 = 3" by linarith
    then show ?thesis using False by (auto simp: bm_bit_def sample_fs_def)
  qed
  then show ?thesis unfolding marked_def k_def [symmetric] by (auto simp: sample_fs_def)
qed

lemma sample_fs_inv: "fs_inv (open_inode 0 (plain_inode [2] 16)) sample_fs"
  unfolding fs_inv_def
proof (intro conjI)
  have i: "i_data (open_inode s d) = d" for s d by (simp add: open_inode_def)
  note b = plain_inode_blocks [of "[2]" 16, simplified]
  show "bm_wf (free_map sample_fs)" by (simp add: sample_fs_def bm_wf_def elem_cnt_def ELEM_BITS_def)
  show "\<forall>s. unat s < bit_cnt (free_map sample_fs) \<longrightarrow> fvalid sample_fs s"
    using sample_fs_valid by (simp add: sample_fs_def word_less_nat_alt)
  show "\<exists>fil. free_map_file sample_fs = Some fil \<and> inodes sample_fs (f_inode fil) = Some (open_inode 0 (plain_inode [2] 16))"
    by (simp add: sample_fs_def)
  show "i_deny_write_cnt (open_inode 0 (plain_inode [2] 16)) = 0" by (simp add: open_inode_def)
  show "inode_length (open_inode 0 (plain_inode [2] 16)) = int (byte_cnt (bit_cnt (free_map sample_fs)))"
    by (simp add: inode_length_def i plain_inode_def sample_fs_def byte_cnt_def elem_cnt_def ELEM_BITS_def)
  show "\<forall>s \<in> data_blocks (fview sample_fs) (i_data (open_inode 0 (plain_inode [2] 16)))
      \<union> index_blocks (fview sample_fs) (i_data (open_inode 0 (plain_inode [2] 16))). marked sample_fs s"
    unfolding i b by (simp add: sample_fs_marked)
  show "inode_wf (fvalid sample_fs) (fview sample_fs) (i_data (open_inode 0 (plain_inode [2] 16)))"
    unfolding i by (rule sample_fs_wf)
qed (simp_all add: sample_fs_facts sample_fs_marked)

lemma sample_fs_fm:
  "i_data (open_inode s d) = d" "data_blocks v (plain_inode [2] 16) = {2}" "index_blocks v (plain_inode [2] 16) = {}"
  "data_blocks v (plain_inode [4, 5] 600) = {4, 5}" "index_blocks v (plain_inode [4, 5] 600) = {}"
  "blocks (plain_inode [4, 5] 600) = 2" "id_length (plain_inode ss len) = len" "i_sector (open_inode s d) = s"
  "bit_cnt (free_map sample_fs) = 100" "inode_length (open_inode s d) = id_length d" "i_deny_write_cnt (open_inode s d) = 0"
  "free_map_file sample_fs = Some \<lparr>f_inode = 0, f_pos = 0, f_deny_write = False\<rparr>" "id_indirect (plain_inode ss len) = 0"
  using plain_inode_blocks [of "[2]" 16] plain_inode_blocks [of "[4, 5]" 600]
  by (simp_all add: open_inode_def plain_inode_def inode_length_def sample_fs_def)

text \<open>
  C12. Allocation is safe and durable: \<^verbatim>\<open>free_map_allocate\<close> returns a sector that was free and marks it and
  nothing else, writes the new map to the free map file, and changes no sector outside that file; it
  refuses only when every sector is in use, and then changes nothing.  Nested writes never allocate
  again, so the depth of the model is enough.
\<close>

theorem free_map_allocate_correct:
  assumes "fs_inv fm st"
  shows "\<exists>r st'. free_map_allocate st 1 = Some (r, st') \<and>
    (case r of None \<Rightarrow> st' = st \<and> disk_full st
     | Some s \<Rightarrow> \<not> marked st s \<and> (\<forall>t. marked st' t \<longleftrightarrow> marked st t \<or> t = s) \<and> fs_inv fm st' \<and> fm_synced fm st'
         \<and> inodes st' = inodes st \<and> (\<forall>t. t \<notin> fm_data fm st \<union> {s} \<longrightarrow> fview st' t = fview st t))"
proof -
  from fm_alloc_ok [OF assms, of 1] obtain r st' where a: "free_map_allocate st 1 = Some (r, st')"
    and c: "case r of None \<Rightarrow> st' = st \<and> (\<forall>s. unat s < bit_cnt (free_map st) \<longrightarrow> marked st s)
     | Some s \<Rightarrow> unat s < bit_cnt (free_map st) \<and> grown fm st st' {s} {} \<and> fm_synced fm st'"
    unfolding free_map_allocate_Suc by blast
  show ?thesis
  proof (cases r)
    case None
    with a c show ?thesis by (auto simp: disk_full_def)
  next
    case (Some s)
    with c have g: "grown fm st st' {s} {}" and y: "fm_synced fm st'" by simp_all
    have "\<not> marked st s" "\<forall>t. marked st' t \<longleftrightarrow> marked st t \<or> t = s"
      "\<forall>t. t \<notin> fm_data fm st \<union> {s} \<longrightarrow> fview st' t = fview st t"
      using grown_facts(1-3) [OF g] by auto
    with a y Some grown_rest(1,2) [OF g] show ?thesis by (intro exI [of _ r] exI [of _ st']) simp
  qed
qed

theorem free_map_allocate_correct_witness:
  "\<exists>s st'. free_map_allocate sample_fs 1 = Some (Some s, st') \<and> \<not> marked sample_fs s \<and> marked st' s \<and> marked st' 5"
proof -
  have "\<not> disk_full sample_fs"
    unfolding disk_full_def sample_fs_marked sample_fs_fm(9) by (rule notI, drule spec [of _ 6]) simp
  with free_map_allocate_correct [OF sample_fs_inv] obtain s st' where "free_map_allocate sample_fs 1 = Some (Some s, st')"
    "\<not> marked sample_fs s" "\<forall>t. marked st' t \<longleftrightarrow> marked sample_fs t \<or> t = s" by (auto split: option.splits)
  moreover have "marked sample_fs 5" by (simp add: sample_fs_marked)
  ultimately show ?thesis by auto
qed

text \<open>
  Releasing a sector in use frees exactly that sector, in memory and in the free map file, and keeps
  the invariant.
\<close>

theorem free_map_release_correct:
  assumes "fs_inv fm st" "marked st s" "s \<noteq> 0" "s \<notin> fm_data fm st \<union> fm_index fm st"
  shows "\<exists>st'. free_map_release st s 1 = Some st' \<and> fs_inv fm st' \<and> fm_synced fm st'
    \<and> (\<forall>t. marked st' t \<longleftrightarrow> marked st t \<and> t \<noteq> s) \<and> (\<forall>t. t \<notin> fm_data fm st \<longrightarrow> fview st' t = fview st t)"
  using free_map_release_ok [OF assms] by blast

theorem free_map_release_correct_witness:
  "\<exists>st'. free_map_release sample_fs 5 1 = Some st' \<and> \<not> marked st' 5 \<and> marked st' 4"
proof -
  from free_map_release_correct [OF sample_fs_inv, of 5] obtain st' where "free_map_release sample_fs 5 1 = Some st'"
    "\<forall>t. marked st' t \<longleftrightarrow> marked sample_fs t \<and> t \<noteq> 5" by (auto simp: sample_fs_marked sample_fs_fm)
  then show ?thesis by (auto simp: sample_fs_marked)
qed

lemma sample_fs_room: "6 \<le> card (free_sectors sample_fs)"
proof -
  have "{6, 7, 8, 9, 10, 11} \<subseteq> free_sectors sample_fs" by (simp add: free_sectors_def sample_fs_marked sample_fs_fm)
  from card_mono [OF _ this] show ?thesis by simp
qed

lemma sample_growable: "growable (open_inode 0 (plain_inode [2] 16)) sample_fs (open_inode 3 (plain_inode [4, 5] 600))"
proof -
  have "slots (fview sample_fs) (plain_inode [4, 5] 600) = [4, 5] @ replicate 249 0"
    by (simp add: slots_def indirect_slots_def plain_inode_def replicate_add [symmetric])
  then have z: "slots (fview sample_fs) (plain_inode [4, 5] 600) ! k = 0" if "2 \<le> k" "k < 251" for k
    using that by (simp add: nth_append)
  show ?thesis unfolding growable_def Let_def sample_fs_fm
    using sample_fs_wf(1) z by (simp add: own_index_def sample_fs_fm sample_fs_marked)
qed



lemma find_open_none:
  "\<forall>x \<in> set as. \<exists>i. inodes st x = Some i \<and> i_sector i \<noteq> sec \<Longrightarrow> find_open st as sec = Some None"
  by (induction as) auto



text \<open>
  C39. Starting the doubly indirect blocks of a file destroys sector 0, which holds the inode of the free map:
  the code zeroes the sector whose number it has not allocated yet, which is still 0.
\<close>

theorem dindirect_start_clobbers_sector_0:
  assumes "fs_inv fm st" "id_dindirect d = 0" "0 \<notin> fm_data fm st \<union> fm_index fm st"
  shows "\<exists>r iid st'. dindirect_start free_map_allocate st d = Some (r, iid, st') \<and> fview st' 0 = zeros"
proof -
  have "unat (0 :: disk_sector_t) < bit_cnt (free_map st)" using assms(1) by (simp add: fs_inv_def marked_def)
  from grown_write [OF assms(1) this assms(3), of zeros] obtain st1 where
    w: "fs_write st 0 zeros = Some st1" "grown fm st st1 {} {0}" "fview st1 0 = zeros" by (auto simp: zeros_def DISK_SECTOR_SIZE_def)
  from fm_alloc_ok [OF grown_rest(1) [OF w(2)], of 1] obtain r st2 where a: "free_map_allocate st1 1 = Some (r, st2)"
    and c: "case r of None \<Rightarrow> st2 = st1 \<and> (\<forall>s. unat s < bit_cnt (free_map st1) \<longrightarrow> marked st1 s)
      | Some s \<Rightarrow> unat s < bit_cnt (free_map st1) \<and> grown fm st1 st2 {s} {} \<and> fm_synced fm st2"
    unfolding free_map_allocate_Suc by blast
  have "fview st2 0 = zeros"
  proof (cases r)
    case (Some s)
    with c have g: "grown fm st1 st2 {s} {}" by simp
    have "marked st1 0" using grown_rest(1) [OF w(2)] by (simp add: fs_inv_def)
    then have "0 \<noteq> s" using grown_facts(2) [OF g, of s] by auto
    then show ?thesis using grown_facts(3) [OF g, of 0] grown_facts(4) [OF w(2)] assms(3) w(3) by simp
  qed (use c w(3) in simp)
  moreover have "dindirect_start free_map_allocate st d = Some (r, replicate 128 0, st2)"
    using assms(2) w(1) a by (simp add: dindirect_start_def)
  ultimately show ?thesis by blast
qed

theorem dindirect_start_clobbers_sector_0_witness:
  "\<exists>r iid st'. dindirect_start free_map_allocate sample_fs (plain_inode [] 0) = Some (r, iid, st') \<and> fview st' 0 = zeros"
  using dindirect_start_clobbers_sector_0 [OF sample_fs_inv, of "plain_inode [] 0"]
  by (simp add: sample_fs_fm) (simp add: plain_inode_def)



end
