(* ===== verification/File.thy ===== *)
theory File
  imports Inode_Grow
begin

text \<open>
  \<^verbatim>\<open>filesys/file.c\<close>, and the parts of \<^verbatim>\<open>filesys/free-map.c\<close> and \<^verbatim>\<open>lib/kernel/bitmap.c\<close> that go through files:
  opening and creating the free map.  A \<open>kfile\<close> is passed by value: the operations that move its position
  or its deny flag return the new value.
\<close>

section \<open>Files\<close>

definition file_open :: "fs \<Rightarrow> nat option \<Rightarrow> (kfile option \<times> fs) option" where
  "file_open st p =
     (case p of
        Some a \<Rightarrow>
          if mem_ok st then Some (Some \<lparr>f_inode = a, f_pos = 0, f_deny_write = False\<rparr>, st)
          else do { st \<leftarrow> inode_close st p; Some (None, st) }
      | None \<Rightarrow> do { st \<leftarrow> inode_close st p; Some (None, st) })"

definition file_reopen :: "fs \<Rightarrow> kfile \<Rightarrow> (kfile option \<times> fs) option" where
  "file_reopen st f = do { st \<leftarrow> inode_reopen (f_inode f) st; file_open st (Some (f_inode f)) }"

definition file_deny_write :: "fs \<Rightarrow> kfile \<Rightarrow> (kfile \<times> fs) option" where
  "file_deny_write st f =
     (if \<not> f_deny_write f
      then do { st \<leftarrow> inode_deny_write st (f_inode f); Some (f\<lparr>f_deny_write := True\<rparr>, st) }
      else Some (f, st))"

definition file_allow_write :: "fs \<Rightarrow> kfile \<Rightarrow> (kfile \<times> fs) option" where
  "file_allow_write st f =
     (if f_deny_write f
      then do { st \<leftarrow> inode_allow_write st (f_inode f); Some (f\<lparr>f_deny_write := False\<rparr>, st) }
      else Some (f, st))"

definition file_close :: "fs \<Rightarrow> kfile option \<Rightarrow> fs option" where
  "file_close st p =
     (case p of
        None \<Rightarrow> Some st
      | Some f \<Rightarrow> do { (f, st) \<leftarrow> file_allow_write st f; inode_close st (Some (f_inode f)) })"

definition file_get_inode :: "kfile \<Rightarrow> nat" where
  "file_get_inode f = f_inode f"

definition file_read :: "fs \<Rightarrow> kfile \<Rightarrow> int \<Rightarrow> (byte list \<times> kfile \<times> fs) option" where
  "file_read st f sze = do {
     (bs, st) \<leftarrow> inode_read_at st (f_inode f) sze (f_pos f);
     Some (bs, f\<lparr>f_pos := i32 (f_pos f + int (length bs))\<rparr>, st) }"

definition file_read_at :: "fs \<Rightarrow> kfile \<Rightarrow> int \<Rightarrow> int \<Rightarrow> (byte list \<times> fs) option" where
  "file_read_at st f sze file_ofs = inode_read_at st (f_inode f) sze file_ofs"

definition file_write :: "fs \<Rightarrow> kfile \<Rightarrow> byte list \<Rightarrow> int \<Rightarrow> (int \<times> kfile \<times> fs) option" where
  "file_write st f buf sze = do {
     (n, st) \<leftarrow> inode_write_at st (f_inode f) buf sze (f_pos f);
     Some (n, f\<lparr>f_pos := i32 (f_pos f + n)\<rparr>, st) }"

definition file_write_at :: "fs \<Rightarrow> kfile \<Rightarrow> byte list \<Rightarrow> int \<Rightarrow> int \<Rightarrow> (int \<times> fs) option" where
  "file_write_at st f buf sze file_ofs = inode_write_at st (f_inode f) buf sze file_ofs"

definition file_length :: "fs \<Rightarrow> kfile \<Rightarrow> int option" where
  "file_length st f = do { ino \<leftarrow> inodes st (f_inode f); Some (inode_length ino) }"

definition file_seek :: "kfile \<Rightarrow> int \<Rightarrow> kfile option" where
  "file_seek f new_pos = do { kassert (new_pos \<ge> 0); Some (f\<lparr>f_pos := new_pos\<rparr>) }"

definition file_tell :: "kfile \<Rightarrow> int" where
  "file_tell f = f_pos f"

section \<open>The free map file\<close>

definition FREE_MAP_SECTOR :: disk_sector_t where "FREE_MAP_SECTOR = 0"
definition ROOT_DIR_SECTOR :: disk_sector_t where "ROOT_DIR_SECTOR = 1"

text \<open>A short read leaves the rest of the element array as it was.\<close>

definition bitmap_read :: "bitmap \<Rightarrow> kfile \<Rightarrow> fs \<Rightarrow> (bool \<times> bitmap \<times> fs) option" where
  "bitmap_read b f st =
     (if bit_cnt b > 0 then do {
        let sze = i32 (int (byte_cnt (bit_cnt b)));
        (bs, st) \<leftarrow> file_read_at st f sze 0;
        let es = bytes_words (bs @ drop (length bs) (words_bytes (bits b)));
        e \<leftarrow> arr_get es (elem_cnt (bit_cnt b) - 1);
        es \<leftarrow> arr_set es (elem_cnt (bit_cnt b) - 1) (e AND last_mask b);
        Some (int (length bs) = sze, b\<lparr>bits := es\<rparr>, st) }
      else Some (True, b, st))"

text \<open>What \<^verbatim>\<open>malloc\<close> gives for the bits is an argument, as for \<open>bitmap_create\<close>.\<close>

definition free_map_init :: "u32 list option \<Rightarrow> fs \<Rightarrow> fs option" where
  "free_map_init blk st = do {
     r \<leftarrow> bitmap_create (mem_ok st) blk (unat (disk_size (fs_disk (fs_cache st))));
     b \<leftarrow> r;
     b \<leftarrow> bitmap_mark b (unat FREE_MAP_SECTOR);
     b \<leftarrow> bitmap_mark b (unat ROOT_DIR_SECTOR);
     Some (st\<lparr>free_map := b\<rparr>) }"

definition free_map_open :: "fs \<Rightarrow> fs option" where
  "free_map_open st = do {
     (a, st) \<leftarrow> inode_open st FREE_MAP_SECTOR;
     (p, st) \<leftarrow> file_open st a;
     f \<leftarrow> p;
     let st = st\<lparr>free_map_file := p\<rparr>;
     (ok, b, st) \<leftarrow> bitmap_read (free_map st) f st;
     let st = st\<lparr>free_map := b\<rparr>;
     kassert ok;
     Some st }"

text \<open>The pointer to the free map file is not cleared when it is closed.\<close>

definition free_map_close :: "fs \<Rightarrow> fs option" where
  "free_map_close st = file_close st (free_map_file st)"

definition free_map_create :: "fs \<Rightarrow> fs option" where
  "free_map_create st = do {
     (ok, st) \<leftarrow> inode_create st FREE_MAP_SECTOR (i32 (int (bitmap_file_size (free_map st)))) False;
     kassert ok;
     (a, st) \<leftarrow> inode_open st FREE_MAP_SECTOR;
     (p, st) \<leftarrow> file_open st a;
     f \<leftarrow> p;
     let st = st\<lparr>free_map_file := p\<rparr>;
     (ok, st) \<leftarrow> bitmap_write (free_map st) f st;
     kassert ok;
     Some st }"

section \<open>Reading the free map back\<close>

lemma bit_last_mask: "bit (last_mask b) n \<longleftrightarrow> n < (if bit_cnt b mod 32 = 0 then 32 else bit_cnt b mod 32)" if "n < 32" for n
proof -
  have "push_bit k 1 - 1 = (mask k :: u32)" for k by (simp add: mask_eq_exp_minus_1 push_bit_eq_mult)
  then show ?thesis using that by (auto simp: last_mask_def ELEM_BITS_def Let_def bit_mask_iff)
qed

lemma last_elem:
  assumes "bm_wf b" "i < bit_cnt b" "i div 32 = elem_cnt (bit_cnt b) - 1"
  shows "bit (last_mask b) (i mod 32)"
proof -
  let ?n = "bit_cnt b"
  have e: "elem_cnt ?n = (?n + 31) div 32" using assms(1) by (simp add: bm_wf_def elem_cnt_DIV_ROUND_UP DIV_ROUND_UP_def)
  obtain q r where n: "?n = q * 32 + r" "r < 32" by (metis div_mult_mod_eq mod_less_divisor zero_less_numeral)
  show ?thesis
  proof (cases "r = 0")
    case True
    with n show ?thesis using bit_last_mask [of "i mod 32" b] by simp
  next
    case False
    then have "?n + 31 = (q + 1) * 32 + (r - 1)" using n by simp
    then have "elem_cnt ?n = q + 1" using e n(2) by simp
    with assms(3) have "i div 32 = q" by simp
    then have "i = q * 32 + i mod 32" by (metis div_mult_mod_eq)
    then have "i mod 32 < r" using assms(2) n(1) by linarith
    with False n show ?thesis using bit_last_mask [of "i mod 32" b] by simp
  qed
qed

lemma bitmap_read_ok:
  assumes inv: "fs_inv fm st" and y: "fm_synced fm st" and f: "inodes st (f_inode f) = Some fm"
    and b: "bm_wf b" "bit_cnt b = bit_cnt (free_map st)"
  shows "\<exists>b' st'. bitmap_read b f st = Some (True, b', st') \<and> fs_becomes st st' (fview st)
    \<and> bm_wf b' \<and> bit_cnt b' = bit_cnt b \<and> (\<forall>i < bit_cnt b. bm_bit b' i = bm_bit (free_map st) i)"
proof -
  let ?n = "byte_cnt (bit_cnt b)" and ?m = "free_map st"
  have wf: "bm_wf ?m" using inv by (simp add: fs_inv_def)
  have l: "inode_length fm = int ?n" "inode_wf (fvalid st) (fview st) (i_data fm)" "fs_ok st" "mem_ok st"
    using inv b(2) by (auto simp: fs_inv_def)
  have pos: "0 < bit_cnt b" using inv b(2) by (auto simp: fs_inv_def marked_def)
  have "int ?n < 16635 * 512" using l(1,2) by (simp add: inode_wf_def inode_length_def)
  then have i: "i32 (int ?n) = int ?n" by (intro i32_id) auto
  from inode_read_loop_ok [OF l(3,4,2), of 0 "int ?n"] obtain st' where
    rd: "inode_read_loop (i_data fm) (int ?n) 0 st = Some (map (fbyte (fview st) (i_data fm)) [0..<?n], st')"
    "fs_becomes st st' (fview st)" using l(1) by (auto simp: inside_def inode_length_def)
  have "map (fbyte (fview st) (i_data fm)) [0..<?n] = words_bytes (bits ?m)"
    using y b(2) byte_cnt_bits [OF wf] by (intro nth_equalityI) (simp_all add: fm_synced_def)
  with rd(1) f have r: "file_read_at st f (int ?n) 0 = Some (words_bytes (bits ?m), st')"
    by (simp add: file_read_at_def inode_read_at_def)
  let ?k = "elem_cnt (bit_cnt b) - 1"
  have len: "length (bits ?m) = elem_cnt (bit_cnt b)" "length (bits b) = elem_cnt (bit_cnt b)" using wf b by (simp_all add: bm_wf_def)
  have k: "?k < length (bits ?m)" using elem_idx_in_range [OF b(1) pos] len by simp
  let ?b = "b\<lparr>bits := (bits ?m)[?k := bits ?m ! ?k AND last_mask b]\<rparr>"
  have "words_bytes (bits ?m) @ drop (length (words_bytes (bits ?m))) (words_bytes (bits b)) = words_bytes (bits ?m)"
    using len by simp
  then have "bitmap_read b f st = Some (True, ?b, st')"
    using pos r i k byte_cnt_bits [OF wf] b(2) by (simp add: bitmap_read_def Let_def)
  moreover have "bm_bit ?b j = bm_bit ?m j" if "j < bit_cnt b" for j
    using last_elem [OF b(1) that] k by (auto simp: bm_bit_def nth_list_update bit_and_iff)
  moreover have "bm_wf ?b" using b(1) len by (simp add: bm_wf_def)
  ultimately show ?thesis using rd(2) by (intro exI [of _ ?b] exI [of _ st']) simp
qed

section \<open>Properties\<close>

definition sample_file :: kfile where
  "sample_file = \<lparr>f_inode = 1, f_pos = 100, f_deny_write = False\<rparr>"

text \<open>
  While a file denies writes, every write to its inode, through any file, returns 0 and changes nothing;
  allowing writes again restores the state before.
\<close>

theorem file_deny_write_blocks:
  assumes "inodes st (f_inode f) = Some ino" "0 \<le> i_deny_write_cnt ino" "i_deny_write_cnt ino < i_open_cnt ino"
    and "\<not> f_deny_write f" "f_inode g = f_inode f"
  shows "\<exists>f' st'. file_deny_write st f = Some (f', st') \<and> file_write_at st' g buf sze ofs = Some (0, st')
    \<and> file_allow_write st' f' = Some (f, st)"
proof -
  let ?ino = "ino\<lparr>i_deny_write_cnt := i_deny_write_cnt ino + 1\<rparr>"
  let ?st = "st\<lparr>inodes := (inodes st)(f_inode f \<mapsto> ?ino)\<rparr>" and ?f = "f\<lparr>f_deny_write := True\<rparr>"
  have 1: "file_deny_write st f = Some (?f, ?st)"
    using assms by (simp add: file_deny_write_def inode_deny_write_def upd_inode_def)
  have 2: "file_write_at ?st g buf sze ofs = Some (0, ?st)"
    using assms by (simp add: file_write_at_def inode_write_at_def inode_write_gen_def)
  have "st\<lparr>inodes := (inodes st)(f_inode f \<mapsto> ino)\<rparr> = st" using assms(1) by (simp add: map_upd_triv)
  moreover have "f\<lparr>f_deny_write := False\<rparr> = f" using assms(4) by simp
  moreover have "ino\<lparr>i_deny_write_cnt := i_deny_write_cnt ino\<rparr> = ino" by simp
  ultimately have 3: "file_allow_write ?st ?f = Some (f, st)"
    using assms by (simp add: file_allow_write_def inode_allow_write_def upd_inode_def)
  from 1 2 3 show ?thesis by blast
qed

theorem file_deny_write_blocks_witness:
  "\<exists>f' st'. file_deny_write sample_fs sample_file = Some (f', st') \<and> file_write_at st' sample_file [1] 1 0 = Some (0, st')
     \<and> file_allow_write st' f' = Some (sample_file, sample_fs)"
  using file_deny_write_blocks [of sample_fs sample_file "open_inode 3 (plain_inode [4, 5] 600)" sample_file "[1]" 1 0]
    sample_fs_facts(3) by (simp add: sample_file_def open_inode_def)

text \<open>
  C36. Sequential access: \<^verbatim>\<open>file_write\<close> inside a file advances the position by the bytes written, and after
  \<^verbatim>\<open>file_seek\<close> back to the old position \<^verbatim>\<open>file_read\<close> returns these bytes and advances it again.
\<close>

theorem file_write_seek_read:
  assumes "fs_ok st" "mem_ok st" "inodes st (f_inode f) = Some ino" "i_deny_write_cnt ino = 0"
    and "inode_wf (fvalid st) (fview st) (i_data ino)" "0 \<le> file_tell f" "0 < sze"
    and "file_tell f + sze \<le> inode_length ino" "nat sze = length buf"
  shows "\<exists>f1 st1 f2 st2. file_write st f buf sze = Some (sze, f1, st1) \<and> file_tell f1 = file_tell f + sze
    \<and> file_seek f1 (file_tell f) = Some f \<and> file_read st1 f sze = Some (buf, f2, st2) \<and> file_tell f2 = file_tell f + sze"
proof -
  have "\<exists>st1 st2. inode_write_at st (f_inode f) buf sze (f_pos f) = Some (sze, st1)
    \<and> inode_read_at st1 (f_inode f) sze (f_pos f) = Some (buf, st2)"
    by (rule inode_write_read_ok) (use assms in \<open>simp_all add: file_tell_def\<close>)
  then obtain st1 st2 where w: "inode_write_at st (f_inode f) buf sze (f_pos f) = Some (sze, st1)"
    "inode_read_at st1 (f_inode f) sze (f_pos f) = Some (buf, st2)" by blast
  have "id_length (i_data ino) < 16635 * 512" using assms(5) by (simp add: inode_wf_def)
  then have i: "i32 (f_pos f + sze) = f_pos f + sze"
    using assms(6-8) by (intro i32_id) (auto simp: file_tell_def inode_length_def)
  have b: "int (length buf) = sze" using assms(7,9) by simp
  show ?thesis using w i b assms(6)
    by (intro exI [of _ "f\<lparr>f_pos := f_pos f + sze\<rparr>"] exI [of _ st1] exI [of _ st2])
      (simp add: file_write_def file_read_def file_tell_def file_seek_def)
qed

theorem file_write_seek_read_witness:
  "\<exists>f1 st1 f2 st2. file_write sample_fs sample_file [1, 2, 3] 3 = Some (3, f1, st1) \<and> file_tell f1 = 103
     \<and> file_seek f1 100 = Some sample_file \<and> file_read st1 sample_file 3 = Some ([1, 2, 3], f2, st2)"
proof -
  have "f_inode sample_file = 1" "file_tell sample_file = 100" by (simp_all add: sample_file_def file_tell_def)
  with file_write_seek_read [of sample_fs sample_file "open_inode 3 (plain_inode [4, 5] 600)" 3 "[1, 2, 3]"]
    sample_fs_facts(1-3) sample_fs_wf(1) show ?thesis by (auto simp: sample_fs_fm)
qed

text \<open>
  C37. The free map survives a remount: once the free map file is in step with the map (as allocation and
  release leave it), \<^verbatim>\<open>bitmap_read\<close> into any bitmap of the same size returns exactly the bits of the map.
\<close>

theorem bitmap_read_restores:
  assumes "fs_inv fm st" "fm_synced fm st" "inodes st (f_inode f) = Some fm" "bm_wf b" "bit_cnt b = bit_cnt (free_map st)"
  shows "\<exists>b' st'. bitmap_read b f st = Some (True, b', st') \<and> bm_wf b' \<and> bm_abs b' = bm_abs (free_map st)"
proof -
  from bitmap_read_ok [OF assms] obtain b' st' where "bitmap_read b f st = Some (True, b', st')" "bm_wf b'"
    "bit_cnt b' = bit_cnt b" "\<forall>i < bit_cnt b. bm_bit b' i = bm_bit (free_map st) i" by blast
  then show ?thesis using assms(5) by (simp add: bm_abs_def)
qed

theorem bitmap_read_restores_witness:
  "\<exists>s st1 b' st2. free_map_allocate sample_fs 1 = Some (Some s, st1)
     \<and> bitmap_read \<lparr>bit_cnt = 100, bits = [0, 0, 0, 0]\<rparr> \<lparr>f_inode = 0, f_pos = 0, f_deny_write = False\<rparr> st1 = Some (True, b', st2)
     \<and> bm_abs b' = bm_abs (free_map st1)"
proof -
  let ?fm = "open_inode 0 (plain_inode [2] 16)"
  have "\<not> disk_full sample_fs"
    unfolding disk_full_def sample_fs_marked sample_fs_fm(9) by (rule notI, drule spec [of _ 6]) simp
  with fm_alloc_ok [OF sample_fs_inv, of 1] obtain s st1 where
    a: "free_map_allocate sample_fs 1 = Some (Some s, st1)" "grown ?fm sample_fs st1 {s} {}" "fm_synced ?fm st1"
    unfolding free_map_allocate_Suc disk_full_def by (auto split: option.splits)
  note r = grown_rest [OF a(2)]
  have "inodes st1 0 = Some ?fm" using r(2) sample_fs_facts(4) by simp
  moreover have "bit_cnt (free_map st1) = 100" using grown_facts(6) [OF a(2)] sample_fs_fm(9) by simp
  moreover have "bm_wf \<lparr>bit_cnt = 100, bits = [0, 0, 0, 0]\<rparr>" by (simp add: bm_wf_def elem_cnt_def ELEM_BITS_def)
  ultimately show ?thesis
    using bitmap_read_restores [OF r(1) a(3), of "\<lparr>f_inode = 0, f_pos = 0, f_deny_write = False\<rparr>" "\<lparr>bit_cnt = 100, bits = [0, 0, 0, 0]\<rparr>"] a(1)
    by auto
qed

end
