(* ===== verification/Kstring.thy ===== *)
theory Kstring
  imports Prelude
begin

text \<open>
  \<^verbatim>\<open>lib/string.c\<close> on a memory of bytes.  A pointer is an index into the memory, 0 is the null pointer, and
  an access outside the memory is undefined (\<open>None\<close>); results that may be a null pointer have an inner
  option.  \<open>cstr m p s\<close> says that the string \<open>s\<close> stands at \<open>p\<close> with its terminator.
\<close>

section \<open>Memory blocks\<close>

type_synonym mem = "byte list"

text \<open>The ascending copy loop that \<^verbatim>\<open>memcpy\<close> and \<^verbatim>\<open>memmove\<close> share, and the descending one.\<close>

definition copy_up :: "mem \<Rightarrow> nat \<Rightarrow> nat \<Rightarrow> nat \<Rightarrow> mem option" where
  "copy_up m dst src sze = for_loop 0 sze (\<lambda>i m. do { v \<leftarrow> arr_get m (src + i); arr_set m (dst + i) v }) m"

definition copy_down :: "mem \<Rightarrow> nat \<Rightarrow> nat \<Rightarrow> nat \<Rightarrow> mem option" where
  "copy_down m dst src sze =
     for_loop 0 sze (\<lambda>i m. do { v \<leftarrow> arr_get m (src + (sze - 1 - i)); arr_set m (dst + (sze - 1 - i)) v }) m"

definition memcpy :: "mem \<Rightarrow> nat \<Rightarrow> nat \<Rightarrow> nat \<Rightarrow> (nat \<times> mem) option" where
  "memcpy m dst src sze = do {
     kassert (dst \<noteq> 0 \<or> sze = 0);
     kassert (src \<noteq> 0 \<or> sze = 0);
     m \<leftarrow> copy_up m dst src sze;
     Some (dst, m) }"

text \<open>\<^verbatim>\<open>memmove\<close> returns the local pointer it has advanced.\<close>

definition memmove :: "mem \<Rightarrow> nat \<Rightarrow> nat \<Rightarrow> nat \<Rightarrow> (nat \<times> mem) option" where
  "memmove m dst src sze = do {
     kassert (dst \<noteq> 0 \<or> sze = 0);
     kassert (src \<noteq> 0 \<or> sze = 0);
     if dst < src then do { m \<leftarrow> copy_up m dst src sze; Some (dst + sze, m) }
     else do { m \<leftarrow> copy_down m dst src sze; Some (dst, m) } }"

definition memcmp :: "mem \<Rightarrow> nat \<Rightarrow> nat \<Rightarrow> nat \<Rightarrow> int option" where
  "memcmp m a b sze = do {
     kassert (a \<noteq> 0 \<or> sze = 0);
     kassert (b \<noteq> 0 \<or> sze = 0);
     r \<leftarrow> find_loop 0 sze (\<lambda>i. do { x \<leftarrow> arr_get m (a + i); y \<leftarrow> arr_get m (b + i); Some (x \<noteq> y) });
     case r of
       None \<Rightarrow> Some 0
     | Some i \<Rightarrow> do { x \<leftarrow> arr_get m (a + i); y \<leftarrow> arr_get m (b + i); Some (if x > y then 1 else - 1) } }"

definition memchr :: "mem \<Rightarrow> nat \<Rightarrow> byte \<Rightarrow> nat \<Rightarrow> nat option option" where
  "memchr m block ch sze = do {
     kassert (block \<noteq> 0 \<or> sze = 0);
     r \<leftarrow> find_loop 0 sze (\<lambda>i. do { x \<leftarrow> arr_get m (block + i); Some (x = ch) });
     Some (map_option (\<lambda>i. block + i) r) }"

definition memset :: "mem \<Rightarrow> nat \<Rightarrow> byte \<Rightarrow> nat \<Rightarrow> (nat \<times> mem) option" where
  "memset m dst v sze = do {
     kassert (dst \<noteq> 0 \<or> sze = 0);
     m \<leftarrow> for_loop 0 sze (\<lambda>i m. arr_set m (dst + i) v) m;
     Some (dst, m) }"

section \<open>Strings\<close>

text \<open>
  The scanning loops: the first address from \<open>p\<close> on whose character satisfies the test; running out of the
  memory is undefined.
\<close>

definition scan :: "mem \<Rightarrow> nat \<Rightarrow> (byte \<Rightarrow> bool option) \<Rightarrow> nat option" where
  "scan m p test = do {
     r \<leftarrow> find_loop p (length m) (\<lambda>i. do { c \<leftarrow> arr_get m i; test c });
     r }"

definition strlen :: "mem \<Rightarrow> nat \<Rightarrow> nat option" where
  "strlen m string = do {
     kassert (string \<noteq> 0);
     p \<leftarrow> scan m string (\<lambda>c. Some (c = 0));
     Some (p - string) }"

definition strnlen :: "mem \<Rightarrow> nat \<Rightarrow> nat \<Rightarrow> nat option" where
  "strnlen m string maxlen = do {
     r \<leftarrow> find_loop 0 (maxlen + 1) (\<lambda>i. do { c \<leftarrow> arr_get m (string + i); Some (\<not> (c \<noteq> 0 \<and> i < maxlen)) });
     r }"

definition strchr :: "mem \<Rightarrow> nat \<Rightarrow> byte \<Rightarrow> nat option option" where
  "strchr m string c = do {
     kassert (string \<noteq> 0);
     p \<leftarrow> scan m string (\<lambda>x. Some (x = c \<or> x = 0));
     x \<leftarrow> arr_get m p;
     Some (if x = c then Some p else None) }"

definition strcmp :: "mem \<Rightarrow> nat \<Rightarrow> nat \<Rightarrow> int option" where
  "strcmp m a b = do {
     kassert (a \<noteq> 0);
     kassert (b \<noteq> 0);
     r \<leftarrow> find_loop 0 (length m) (\<lambda>i. do {
       x \<leftarrow> arr_get m (a + i);
       y \<leftarrow> arr_get m (b + i);
       Some (\<not> (x \<noteq> 0 \<and> x = y)) });
     i \<leftarrow> r;
     x \<leftarrow> arr_get m (a + i);
     y \<leftarrow> arr_get m (b + i);
     Some (if x < y then - 1 else if x > y then 1 else 0) }"

definition strcspn :: "mem \<Rightarrow> nat \<Rightarrow> nat \<Rightarrow> nat option" where
  "strcspn m string stop = do {
     p \<leftarrow> scan m string (\<lambda>c. if c = 0 then Some True else do { r \<leftarrow> strchr m stop c; Some (r \<noteq> None) });
     Some (p - string) }"

definition strspn :: "mem \<Rightarrow> nat \<Rightarrow> nat \<Rightarrow> nat option" where
  "strspn m string skip = do {
     p \<leftarrow> scan m string (\<lambda>c. if c = 0 then Some True else do { r \<leftarrow> strchr m skip c; Some (r = None) });
     Some (p - string) }"

definition strpbrk :: "mem \<Rightarrow> nat \<Rightarrow> nat \<Rightarrow> nat option option" where
  "strpbrk m string stop = do {
     p \<leftarrow> scan m string (\<lambda>c. if c = 0 then Some True else do { r \<leftarrow> strchr m stop c; Some (r \<noteq> None) });
     c \<leftarrow> arr_get m p;
     Some (if c = 0 then None else Some p) }"

definition strrchr :: "mem \<Rightarrow> nat \<Rightarrow> byte \<Rightarrow> nat option option" where
  "strrchr m string c = do {
     e \<leftarrow> scan m string (\<lambda>x. Some (x = 0));
     for_loop string e (\<lambda>i p. do { x \<leftarrow> arr_get m i; Some (if x = c then Some i else p) }) None }"

definition strstr :: "mem \<Rightarrow> nat \<Rightarrow> nat \<Rightarrow> nat option option" where
  "strstr m haystack needle = do {
     haystack_len \<leftarrow> strlen m haystack;
     needle_len \<leftarrow> strlen m needle;
     if haystack_len \<ge> needle_len then do {
       r \<leftarrow> find_loop 0 (haystack_len - needle_len + 1) (\<lambda>i. do {
         c \<leftarrow> memcmp m (haystack + i) needle needle_len;
         Some (c = 0) });
       Some (map_option (\<lambda>i. haystack + i) r) }
     else Some None }"

definition strlcpy :: "mem \<Rightarrow> nat \<Rightarrow> nat \<Rightarrow> nat \<Rightarrow> (nat \<times> mem) option" where
  "strlcpy m dst src sze = do {
     kassert (dst \<noteq> 0);
     kassert (src \<noteq> 0);
     src_len \<leftarrow> strlen m src;
     if sze > 0 then do {
       let dst_len = (if src_len < sze - 1 then src_len else sze - 1);
       (_, m) \<leftarrow> memcpy m dst src dst_len;
       m \<leftarrow> arr_set m (dst + dst_len) 0;
       Some (src_len, m) }
     else Some (src_len, m) }"

definition strlcat :: "mem \<Rightarrow> nat \<Rightarrow> nat \<Rightarrow> nat \<Rightarrow> (nat \<times> mem) option" where
  "strlcat m dst src sze = do {
     kassert (dst \<noteq> 0);
     kassert (src \<noteq> 0);
     src_len \<leftarrow> strlen m src;
     dst_len \<leftarrow> strlen m dst;
     if sze > 0 \<and> dst_len < sze then do {
       let copy_cnt = (if src_len < sze - dst_len - 1 then src_len else sze - dst_len - 1);
       (_, m) \<leftarrow> memcpy m (dst + dst_len) src copy_cnt;
       m \<leftarrow> arr_set m (dst + dst_len + copy_cnt) 0;
       Some (src_len + dst_len, m) }
     else Some (src_len + dst_len, m) }"

text \<open>
  \<^verbatim>\<open>strtok_r\<close>: the arguments \<^verbatim>\<open>s\<close> (0 to continue) and \<^verbatim>\<open>*save_ptr\<close>; the results are the token, the new value
  of \<^verbatim>\<open>*save_ptr\<close> and the memory, in which the delimiter after the token has become a null byte.
\<close>

definition strtok_r :: "mem \<Rightarrow> nat \<Rightarrow> nat \<Rightarrow> nat \<Rightarrow> (nat option \<times> nat \<times> mem) option" where
  "strtok_r m s delimiters save = do {
     kassert (delimiters \<noteq> 0);
     let s = (if s = 0 then save else s);
     kassert (s \<noteq> 0);
     s \<leftarrow> scan m s (\<lambda>c. do { r \<leftarrow> strchr m delimiters c; Some (r = None \<or> c = 0) });
     c \<leftarrow> arr_get m s;
     if c = 0 then Some (None, s, m)
     else do {
       let token = s;
       s \<leftarrow> scan m s (\<lambda>c. do { r \<leftarrow> strchr m delimiters c; Some (r \<noteq> None) });
       c \<leftarrow> arr_get m s;
       if c \<noteq> 0 then do { m \<leftarrow> arr_set m s 0; Some (Some token, s + 1, m) }
       else Some (Some token, s, m) } }"

section \<open>Strings in memory\<close>

definition cstr :: "mem \<Rightarrow> nat \<Rightarrow> byte list \<Rightarrow> bool" where
  "cstr m p s \<longleftrightarrow> p \<noteq> 0 \<and> p + length s < length m \<and> (\<forall>i < length s. m ! (p + i) = s ! i) \<and> 0 \<notin> set s
     \<and> m ! (p + length s) = 0"

lemma cstr_nth: "cstr m p s \<Longrightarrow> i < length s \<Longrightarrow> m ! (p + i) = s ! i \<and> s ! i \<noteq> 0 \<and> p + i < length m"
  by (auto simp: cstr_def) (metis nth_mem)

lemma cstr_suffix: "cstr m p s \<Longrightarrow> i \<le> length s \<Longrightarrow> cstr m (p + i) (drop i s)"
  by (auto simp: cstr_def add.assoc dest: in_set_dropD)

text \<open>A search loop returns the first index at which the test holds, whatever the test does behind it.\<close>

lemma find_loop_hit:
  assumes "i \<le> k" "k < n" "p k = Some True" "\<And>j. i \<le> j \<Longrightarrow> j < k \<Longrightarrow> p j = Some False"
  shows "find_loop i n p = Some (Some k)"
  using assms
proof (induction "k - i" arbitrary: i)
  case 0
  then show ?case by (simp add: find_loop.simps [of i])
next
  case (Suc x)
  then have "find_loop (Suc i) n p = Some (Some k)" by simp
  moreover have "p i = Some False" "i < n" using Suc by simp_all
  ultimately show ?case by (simp add: find_loop.simps [of i])
qed

lemma scan_eq:
  assumes "p \<le> q" "q < length m" "test (m ! q) = Some True" "\<And>i. p \<le> i \<Longrightarrow> i < q \<Longrightarrow> test (m ! i) = Some False"
  shows "scan m p test = Some q"
  unfolding scan_def by (subst find_loop_hit [of p q]) (use assms in simp_all)

lemma strlen_cstr:
  assumes "cstr m p s"
  shows "strlen m p = Some (length s)"
proof -
  have "scan m p (\<lambda>c. Some (c = 0)) = Some (p + length s)"
  proof (rule scan_eq)
    fix i
    assume "p \<le> i" "i < p + length s"
    then show "Some (m ! i = 0) = Some False" using cstr_nth [OF assms, of "i - p"] by simp
  qed (use assms in \<open>simp_all add: cstr_def\<close>)
  with assms show ?thesis by (simp add: strlen_def cstr_def)
qed

lemma strchr_cstr:
  assumes "cstr m p s"
  shows "\<exists>r. strchr m p c = Some r \<and> (r \<noteq> None \<longleftrightarrow> c = 0 \<or> c \<in> set s)
    \<and> (\<forall>q. r = Some q \<longrightarrow> p \<le> q \<and> q \<le> p + length s \<and> m ! q = c \<and> (\<forall>i. p \<le> i \<and> i < q \<longrightarrow> m ! i \<noteq> c))"
proof (cases "c \<in> set s")
  case True
  then obtain k where k: "k < length s" "s ! k = c" "\<And>j. j < k \<Longrightarrow> s ! j \<noteq> c"
  proof -
    let ?k = "LEAST k. k < length s \<and> s ! k = c"
    from True have "\<exists>k. k < length s \<and> s ! k = c" by (simp add: in_set_conv_nth)
    from LeastI_ex [OF this] have "?k < length s \<and> s ! ?k = c" .
    moreover have "s ! j \<noteq> c" if "j < ?k" for j using not_less_Least [OF that] calculation that by auto
    ultimately show ?thesis using that by blast
  qed
  have "scan m p (\<lambda>x. Some (x = c \<or> x = 0)) = Some (p + k)"
  proof (rule scan_eq)
    fix i
    assume "p \<le> i" "i < p + k"
    then show "Some (m ! i = c \<or> m ! i = 0) = Some False" using cstr_nth [OF assms, of "i - p"] k by simp
  qed (use assms k cstr_nth [OF assms, of k] in simp_all)
  moreover have "m ! (p + k) = c" "p + k < length m" using cstr_nth [OF assms k(1)] k(2) by simp_all
  moreover have "m ! i \<noteq> c" if "p \<le> i" "i < p + k" for i using that cstr_nth [OF assms, of "i - p"] k by simp
  ultimately show ?thesis using assms True k(1)
    by (intro exI [of _ "Some (p + k)"]) (simp add: strchr_def cstr_def)
next
  case False
  have "scan m p (\<lambda>x. Some (x = c \<or> x = 0)) = Some (p + length s)"
  proof (rule scan_eq)
    fix i
    assume i: "p \<le> i" "i < p + length s"
    then have "s ! (i - p) \<in> set s" by simp
    then show "Some (m ! i = c \<or> m ! i = 0) = Some False" using i False cstr_nth [OF assms, of "i - p"] by auto
  qed (use assms in \<open>simp_all add: cstr_def\<close>)
  moreover have "m ! (p + length s) = 0" "p + length s < length m" "p \<noteq> 0" using assms by (simp_all add: cstr_def)
  moreover have "m ! i \<noteq> 0" if "p \<le> i" "i < p + length s" for i using that cstr_nth [OF assms, of "i - p"] by simp
  ultimately show ?thesis using False
    by (intro exI [of _ "if c = 0 then Some (p + length s) else None"]) (simp add: strchr_def)
qed


section \<open>Copies\<close>

text \<open>The block of \<open>n\<close> bytes at \<open>p\<close>, and the memory with a block replaced.\<close>

definition block :: "mem \<Rightarrow> nat \<Rightarrow> nat \<Rightarrow> byte list" where
  "block m p n = take n (drop p m)"

definition put_block :: "mem \<Rightarrow> nat \<Rightarrow> byte list \<Rightarrow> mem" where
  "put_block m p bs = take p m @ bs @ drop (p + length bs) m"

lemma nth_put_block:
  "p + length bs \<le> length m \<Longrightarrow> i < length m \<Longrightarrow>
   put_block m p bs ! i = (if p \<le> i \<and> i < p + length bs then bs ! (i - p) else m ! i)"
  by (auto simp: put_block_def nth_append min_def)

lemma length_put_block: "p + length bs \<le> length m \<Longrightarrow> length (put_block m p bs) = length m"
  by (simp add: put_block_def)

lemma length_block: "p + n \<le> length m \<Longrightarrow> length (block m p n) = n"
  by (simp add: block_def)

lemma nth_block: "p + n \<le> length m \<Longrightarrow> i < n \<Longrightarrow> block m p n ! i = m ! (p + i)"
  by (simp add: block_def)

lemmas block_simps = nth_put_block length_put_block length_block nth_block

text \<open>Going up is right when the destination is not inside the source beyond its start, going down when
  it does not start before it.\<close>

lemma copy_up_ok:
  assumes "dst + n \<le> length m" "src + n \<le> length m" "dst \<le> src \<or> src + n \<le> dst"
  shows "copy_up m dst src n = Some (put_block m dst (block m src n))"
proof -
  let ?inv = "\<lambda>i m'. length m' = length m
    \<and> (\<forall>k < length m. m' ! k = (if dst \<le> k \<and> k < dst + i then m ! (src + (k - dst)) else m ! k))"
  have "\<exists>m'. for_loop 0 n (\<lambda>i m. do { v \<leftarrow> arr_get m (src + i); arr_set m (dst + i) v }) m = Some m' \<and> ?inv n m'"
  proof (rule for_loop_rule)
    fix i m'
    assume i: "0 \<le> i" "i < n" and inv: "?inv i m'"
    then have get: "arr_get m' (src + i) = Some (m' ! (src + i))" and lt: "dst + i < length m'" using assms by simp_all
    moreover have "m' ! (src + i) = m ! (src + i)" using inv i assms by auto
    ultimately show "\<exists>m''. (do { v \<leftarrow> arr_get m' (src + i); arr_set m' (dst + i) v }) = Some m'' \<and> ?inv (Suc i) m''"
      using inv by (auto simp: nth_list_update)
  qed auto
  then obtain m' where m': "copy_up m dst src n = Some m'" "?inv n m'" by (auto simp: copy_up_def)
  have "m' = put_block m dst (block m src n)"
    by (rule nth_equalityI) (use m'(2) assms in \<open>auto simp: block_simps\<close>)
  with m'(1) show ?thesis by simp
qed

lemma copy_down_ok:
  assumes "dst + n \<le> length m" "src + n \<le> length m" "src \<le> dst"
  shows "copy_down m dst src n = Some (put_block m dst (block m src n))"
proof -
  let ?inv = "\<lambda>i m'. length m' = length m
    \<and> (\<forall>k < length m. m' ! k = (if dst + (n - i) \<le> k \<and> k < dst + n then m ! (src + (k - dst)) else m ! k))"
  have "\<exists>m'. for_loop 0 n (\<lambda>i m. do { v \<leftarrow> arr_get m (src + (n - 1 - i)); arr_set m (dst + (n - 1 - i)) v }) m
      = Some m' \<and> ?inv n m'"
  proof (rule for_loop_rule [where I = ?inv])
    fix i m'
    assume i: "0 \<le> i" "i < n" and inv: "?inv i m'"
    then have get: "src + (n - 1 - i) < length m'" and lt: "dst + (n - 1 - i) < length m'" using assms by linarith+
    moreover have "m' ! (src + (n - 1 - i)) = m ! (src + (n - 1 - i))" using inv i assms by auto
    ultimately show "\<exists>m''. (do { v \<leftarrow> arr_get m' (src + (n - 1 - i)); arr_set m' (dst + (n - 1 - i)) v }) = Some m''
        \<and> ?inv (Suc i) m''"
      using inv i by (auto simp: nth_list_update)
  qed auto
  then obtain m' where m': "copy_down m dst src n = Some m'" "?inv n m'" by (auto simp: copy_down_def)
  have "m' = put_block m dst (block m src n)"
    by (rule nth_equalityI) (use m'(2) assms in \<open>auto simp: block_simps\<close>)
  with m'(1) show ?thesis by simp
qed

lemma memcpy_ok:
  assumes "dst \<noteq> 0" "src \<noteq> 0" "dst + n \<le> length m" "src + n \<le> length m" "dst \<le> src \<or> src + n \<le> dst"
  shows "memcpy m dst src n = Some (dst, put_block m dst (block m src n))"
  using copy_up_ok [OF assms(3-5)] assms(1,2) by (simp add: memcpy_def)

lemma put_block_frame: "p + length bs \<le> q \<or> q + n \<le> p \<Longrightarrow> p + length bs \<le> length m \<Longrightarrow> q + n \<le> length m
    \<Longrightarrow> block (put_block m p bs) q n = block m q n"
  by (rule nth_equalityI) (auto simp: block_simps)

section \<open>Tokens\<close>

text \<open>The reference splitting of a string at a set of delimiters.\<close>

function tokens :: "byte set \<Rightarrow> byte list \<Rightarrow> byte list list" where
  "tokens D s = (case dropWhile (\<lambda>c. c \<in> D) s of
     [] \<Rightarrow> []
   | c # cs \<Rightarrow> takeWhile (\<lambda>c. c \<notin> D) (c # cs) # tokens D (dropWhile (\<lambda>c. c \<notin> D) cs))"
  by auto
termination
proof (relation "measure (\<lambda>(D, s). length s)", simp)
  fix D :: "byte set" and s c cs
  assume "dropWhile (\<lambda>c. c \<in> D) s = c # cs"
  then have "length (c # cs) \<le> length s" by (metis length_dropWhile_le)
  then show "((D, dropWhile (\<lambda>c. c \<notin> D) cs), (D, s)) \<in> measure (\<lambda>(D, s). length s)"
    using length_dropWhile_le [of "\<lambda>c. c \<notin> D" cs] by simp
qed

declare tokens.simps [simp del]

lemma tokens_cong: "dropWhile (\<lambda>c. c \<in> D) a = dropWhile (\<lambda>c. c \<in> D) b \<Longrightarrow> tokens D a = tokens D b"
  by (subst (1 2) tokens.simps) simp

text \<open>
  What one call leaves: nothing but delimiters was left, or the first token stands at the returned address and
  the saved pointer has the rest after the delimiter that ended it.
\<close>

lemma scan_prefix:
  assumes str: "cstr m p s" and t: "\<And>c. c \<in> set s \<Longrightarrow> test c = Some (\<not> P c)" "test 0 = Some True"
  shows "scan m p test = Some (p + length (takeWhile P s))"
proof (rule scan_eq)
  let ?k = "length (takeWhile P s)"
  have k: "?k \<le> length s" by (rule length_takeWhile_le)
  then show "p + ?k < length m" using str by (simp add: cstr_def)
  show "test (m ! (p + ?k)) = Some True"
  proof (cases "?k = length s")
    case True
    with str t(2) show ?thesis by (simp add: cstr_def)
  next
    case False
    with k have "?k < length s" by simp
    then show ?thesis using nth_length_takeWhile [of P s] cstr_nth [OF str, of ?k] t(1) [of "s ! ?k"] by simp
  qed
  fix i
  assume i: "p \<le> i" "i < p + ?k"
  then have "i - p < ?k" by simp
  then have "P (s ! (i - p))" using takeWhile_nth [of "i - p" P s] nth_mem [of "i - p" "takeWhile P s"]
    by (metis set_takeWhileD)
  then show "test (m ! i) = Some False" using cstr_nth [OF str, of "i - p"] i k t(1) [of "s ! (i - p)"] by simp
qed simp

lemma strtok_test:
  assumes "cstr m d ds"
  shows "(do { r \<leftarrow> strchr m d c; Some (r = None \<or> c = 0) }) = Some (\<not> (c \<in> set ds) \<or> c = 0)"
    "(do { r \<leftarrow> strchr m d c; Some (r \<noteq> None) }) = Some (c \<in> set ds \<or> c = 0)"
proof -
  obtain r where r: "strchr m d c = Some r" "r \<noteq> None \<longleftrightarrow> c = 0 \<or> c \<in> set ds"
    using strchr_cstr [OF assms, of c] by blast
  from r show "(do { r \<leftarrow> strchr m d c; Some (r = None \<or> c = 0) }) = Some (\<not> (c \<in> set ds) \<or> c = 0)" by auto
  from r show "(do { r \<leftarrow> strchr m d c; Some (r \<noteq> None) }) = Some (c \<in> set ds \<or> c = 0)" by auto
qed

lemma cstr_update:
  assumes "cstr m p s" "q < p \<or> p + length s < q"
  shows "cstr (m[q := v]) p s"
  using assms by (auto simp: cstr_def nth_list_update)

lemma cstr_cut:
  assumes "cstr m p s" "k \<le> length s"
  shows "cstr (m[p + k := 0]) p (take k s)"
  using assms by (auto simp: cstr_def nth_list_update dest: in_set_takeD)


text \<open>Two strings do not overlap.\<close>

definition apart :: "nat \<Rightarrow> byte list \<Rightarrow> nat \<Rightarrow> byte list \<Rightarrow> bool" where
  "apart p s q t \<longleftrightarrow> p + length s < q \<or> q + length t < p"

lemma dropWhile_drop: "dropWhile P s = drop (length (takeWhile P s)) s"
  by (metis append_eq_conv_conj takeWhile_dropWhile_id)

lemma strtok_r_ok:
  assumes str: "cstr m p s" and d: "cstr m d ds" and ap: "apart p s d ds" and start: "(if a = 0 then save else a) = p"
  shows "case tokens (set ds) s of
      [] \<Rightarrow> strtok_r m a d save = Some (None, p + length s, m)
    | t # ts \<Rightarrow> \<exists>i j m' rest. strtok_r m a d save = Some (Some (p + i), p + j, m') \<and> i + length t \<le> j \<and> j \<le> length s
        \<and> length m' = length m \<and> (\<forall>k. k < p \<or> p + j \<le> k \<longrightarrow> m' ! k = m ! k)
        \<and> cstr m' (p + i) t \<and> p + i + length t < p + j + (if rest = [] then 1 else 0)
        \<and> cstr m' (p + j) rest \<and> p + j + length rest = p + length s \<and> tokens (set ds) rest = ts"
proof -
  let ?D = "\<lambda>c. c \<in> set ds" and ?N = "\<lambda>c. c \<notin> set ds"
  define i where "i = length (takeWhile ?D s)"
  define r where "r = drop i s"
  have i: "i \<le> length s" by (simp add: i_def length_takeWhile_le)
  have r: "dropWhile ?D s = r" by (simp add: r_def i_def dropWhile_drop)
  have d0: "0 \<notin> set ds" and s0: "0 \<notin> set s" and p0: "p \<noteq> 0" "d \<noteq> 0" using str d by (simp_all add: cstr_def)
  have sc1: "scan m p (\<lambda>c. do { r \<leftarrow> strchr m d c; Some (r = None \<or> c = 0) }) = Some (p + i)"
    unfolding i_def strtok_test [OF d] by (rule scan_prefix [OF str]) (use s0 in auto)
  have cr: "cstr m (p + i) r" unfolding r_def by (rule cstr_suffix [OF str i])
  show ?thesis
  proof (cases r)
    case Nil
    then have "i = length s" using i by (simp add: r_def)
    moreover have "m ! (p + length s) = 0" "p + length s < length m" using str by (simp_all add: cstr_def)
    moreover have "tokens (set ds) s = []" by (subst tokens.simps) (simp only: r Nil list.case)
    ultimately show ?thesis using sc1 start p0 by (simp add: strtok_r_def)
  next
    case (Cons c cs)
    define k where "k = length (takeWhile ?N r)"
    define t where "t = takeWhile ?N r"
    have k: "k \<le> length r" by (simp add: k_def length_takeWhile_le)
    have t: "t = take k r" "length t = k" unfolding k_def t_def by (rule takeWhile_eq_take, rule refl)
    have c: "?N c" using r Cons by (metis hd_dropWhile list.distinct(1) list.sel(1))
    then have k1: "0 < k" by (simp add: k_def Cons)
    have drop_k: "dropWhile ?N cs = drop k r" using c by (simp add: k_def Cons flip: dropWhile_drop)
    have tk: "tokens (set ds) s = t # tokens (set ds) (drop k r)"
      by (subst tokens.simps) (simp only: r [unfolded Cons] list.case t_def Cons drop_k [unfolded Cons])
    have mi: "m ! (p + i) = c" "c \<noteq> 0" "p + i < length m" using cstr_nth [OF cr, of 0] Cons by simp_all
    have sc2: "scan m (p + i) (\<lambda>c. do { r \<leftarrow> strchr m d c; Some (r \<noteq> None) }) = Some (p + i + k)"
      unfolding k_def strtok_test [OF d] by (rule scan_prefix [OF cr]) (use cr in \<open>auto simp: cstr_def\<close>)
    have len: "i + length r = length s" using i by (simp add: r_def)
    have ck: "cstr m (p + i + k) (drop k r)" by (rule cstr_suffix [OF cr k])
    show ?thesis
    proof (cases "k = length r")
      case True
      then have "m ! (p + i + k) = 0" "p + i + k < length m" using cr by (simp_all add: cstr_def)
      then have "strtok_r m a d save = Some (Some (p + i), p + (i + k), m)"
        using sc1 sc2 start p0 mi by (simp add: strtok_r_def add.assoc)
      moreover have "cstr m (p + i) t" using cr True by (simp add: t)
      ultimately show ?thesis unfolding tk list.case using True len t ck
        by (intro exI [of _ i] exI [of _ "i + k"] exI [of _ m] exI [of _ "[]"]) (simp add: add.assoc)
    next
      case False
      with k have kl: "k < length r" by simp
      have mk: "m ! (p + i + k) \<noteq> 0" "p + i + k < length m" using cstr_nth [OF cr kl] by simp_all
      define m' where "m' = m[p + i + k := 0]"
      define rest where "rest = drop (Suc k) r"
      have "strtok_r m a d save = Some (Some (p + i), p + (i + Suc k), m')"
        using sc1 sc2 start p0 mi mk by (simp add: strtok_r_def add.assoc m'_def)
      moreover have "cstr m' (p + i) t" unfolding m'_def t(1) by (rule cstr_cut [OF cr k])
      moreover have "cstr m' (p + (i + Suc k)) rest"
        unfolding m'_def rest_def using cstr_update [OF cstr_suffix [OF cr, of "Suc k"], of "p + i + k" 0] kl
        by (simp add: add.assoc)
      moreover have "tokens (set ds) rest = tokens (set ds) (drop k r)"
      proof -
        have "drop k r = r ! k # rest" using kl by (simp add: rest_def Cons_nth_drop_Suc)
        moreover have "r ! k \<in> set ds" using nth_length_takeWhile [of ?N r] kl by (simp add: k_def)
        ultimately show ?thesis by (intro tokens_cong) simp
      qed
      ultimately show ?thesis unfolding tk list.case using kl len t
        by (intro exI [of _ i] exI [of _ "i + Suc k"] exI [of _ m'] exI [of _ rest])
          (auto simp: m'_def rest_def)
    qed
  qed
qed


text \<open>
  The loop of the callers, \<^verbatim>\<open>for (token = strtok_r (s, ...); token != NULL; token = strtok_r (NULL, ...))\<close>,
  collecting the addresses of the tokens, at most \<open>fuel\<close> calls.
\<close>

fun strtok_loop :: "nat \<Rightarrow> mem \<Rightarrow> nat \<Rightarrow> nat \<Rightarrow> nat \<Rightarrow> (nat list \<times> mem) option" where
  "strtok_loop 0 m s d save = None"
| "strtok_loop (Suc fuel) m s d save = do {
     (token, save, m) \<leftarrow> strtok_r m s d save;
     case token of
       None \<Rightarrow> Some ([], m)
     | Some p \<Rightarrow> do { (ps, m) \<leftarrow> strtok_loop fuel m 0 d save; Some (p # ps, m) } }"

lemma cstr_frame:
  "cstr m p s \<Longrightarrow> length m' = length m \<Longrightarrow> (\<And>k. p \<le> k \<Longrightarrow> k \<le> p + length s \<Longrightarrow> m' ! k = m ! k) \<Longrightarrow> cstr m' p s"
  by (auto simp: cstr_def)

lemma strtok_loop_ok:
  assumes "cstr m p s" "cstr m d ds" "apart p s d ds" "(if a = 0 then save else a) = p" "length (tokens (set ds) s) < fuel"
  shows "\<exists>ps m'. strtok_loop fuel m a d save = Some (ps, m') \<and> list_all2 (cstr m') ps (tokens (set ds) s)
    \<and> length m' = length m \<and> (\<forall>k. k < p \<or> p + length s \<le> k \<longrightarrow> m' ! k = m ! k)"
  using assms
proof (induction fuel arbitrary: m p s a save)
  case 0
  then show ?case by simp
next
  case (Suc fuel)
  note ok = strtok_r_ok [OF Suc.prems(1-4)]
  show ?case
  proof (cases "tokens (set ds) s")
    case Nil
    then show ?thesis using ok by simp
  next
    case (Cons t ts)
    with ok [unfolded Cons list.case] obtain i j m1 rest where call: "strtok_r m a d save = Some (Some (p + i), p + j, m1)"
      and ij: "i + length t \<le> j" "j \<le> length s" and len: "length m1 = length m"
      and fr: "\<And>k. k < p \<or> p + j \<le> k \<Longrightarrow> m1 ! k = m ! k" and t: "cstr m1 (p + i) t"
      and gap: "p + i + length t < p + j + (if rest = [] then 1 else 0)"
      and rest: "cstr m1 (p + j) rest" "p + j + length rest = p + length s" "tokens (set ds) rest = ts"
      by blast
    have p0: "p \<noteq> 0" using Suc.prems(1) by (simp add: cstr_def)
    have ap: "apart (p + j) rest d ds" using Suc.prems(3) ij rest(2) by (auto simp: apart_def)
    have d: "cstr m1 d ds"
      by (rule cstr_frame [OF Suc.prems(2) len]) (use Suc.prems(3) ij in \<open>auto simp: apart_def intro!: fr\<close>)
    obtain ps m' where IH: "strtok_loop fuel m1 0 d (p + j) = Some (ps, m')" "list_all2 (cstr m') ps ts"
      "length m' = length m1" "\<And>k. k < p + j \<or> p + j + length rest \<le> k \<Longrightarrow> m' ! k = m1 ! k"
      using Suc.IH [OF rest(1) d ap, of 0 "p + j"] Suc.prems(5) Cons p0 rest(3) by auto
    have "cstr m' (p + i) t"
    proof (rule cstr_frame [OF t IH(3)])
      fix k
      assume "p + i \<le> k" "k \<le> p + i + length t"
      then have "k < p + j \<or> p + j + length rest \<le> k" using gap by (cases rest) auto
      then show "m' ! k = m1 ! k" by (rule IH(4))
    qed
    moreover have "m' ! k = m ! k" if "k < p \<or> p + length s \<le> k" for k
      using that IH(4) [of k] fr [of k] ij rest(2) by auto
    ultimately show ?thesis using call IH(1-3) len Cons by auto
  qed
qed

lemma length_tokens: "length (tokens D s) \<le> length s"
proof (induction D s rule: tokens.induct)
  case (1 D s)
  show ?case
  proof (cases "dropWhile (\<lambda>c. c \<in> D) s")
    case Nil
    then show ?thesis by (subst tokens.simps) (simp only: Nil list.case list.size le0)
  next
    case (Cons c cs)
    have "length (c # cs) \<le> length s" using Cons by (metis length_dropWhile_le)
    moreover have "length (tokens D (dropWhile (\<lambda>c. c \<notin> D) cs)) \<le> length cs"
      using 1 [OF Cons] length_dropWhile_le [of "\<lambda>c. c \<notin> D" cs] by linarith
    ultimately show ?thesis by (subst tokens.simps) (simp add: Cons)
  qed
qed

section \<open>Comparison and search\<close>

lemma memcmp_ok:
  assumes "a \<noteq> 0" "b \<noteq> 0" "a + n \<le> length m" "b + n \<le> length m"
  shows "\<exists>r. memcmp m a b n = Some r \<and> (r = 0 \<longleftrightarrow> block m a n = block m b n)"
proof -
  let ?p = "\<lambda>i. do { x \<leftarrow> arr_get m (a + i); y \<leftarrow> arr_get m (b + i); Some (x \<noteq> y) }"
  have "?p k = Some (m ! (a + k) \<noteq> m ! (b + k))" if "0 \<le> k" "k < n" for k using that assms by simp
  from find_loop_total [of 0 n ?p, OF this] obtain r where r: "find_loop 0 n ?p = Some r"
    "case r of None \<Rightarrow> \<forall>k. 0 \<le> k \<and> k < n \<longrightarrow> \<not> m ! (a + k) \<noteq> m ! (b + k)
      | Some k \<Rightarrow> 0 \<le> k \<and> k < n \<and> m ! (a + k) \<noteq> m ! (b + k)
          \<and> (\<forall>j. 0 \<le> j \<and> j < k \<longrightarrow> \<not> m ! (a + j) \<noteq> m ! (b + j))" by blast
  have eq: "block m a n = block m b n \<longleftrightarrow> (\<forall>k < n. m ! (a + k) = m ! (b + k))"
    using assms by (simp add: list_eq_iff_nth_eq length_block nth_block)
  show ?thesis
  proof (cases r)
    case None
    with r eq assms show ?thesis by (simp add: memcmp_def)
  next
    case (Some k)
    with r(2) have k: "k < n" "m ! (a + k) \<noteq> m ! (b + k)" by simp_all
    then have "block m a n \<noteq> block m b n" using eq by blast
    with r(1) Some k assms show ?thesis by (simp add: memcmp_def)
  qed
qed


text \<open>\<^verbatim>\<open>strcmp\<close> finds the first position where the strings, terminators included, differ.\<close>

text \<open>The specification: the strings agree before position \<open>k\<close>, and \<open>s\<close> has the smaller character there.\<close>

definition str_less :: "byte list \<Rightarrow> byte list \<Rightarrow> bool" where
  "str_less s t \<longleftrightarrow> (\<exists>k \<le> min (length s) (length t). take k s = take k t \<and> (s @ [0]) ! k < (t @ [0]) ! k)"

lemma cstr_nth_ext: "cstr m p s \<Longrightarrow> i \<le> length s \<Longrightarrow> m ! (p + i) = (s @ [0]) ! i \<and> p + i < length m"
  by (cases "i = length s") (auto simp: cstr_def nth_append)

lemma first_difference:
  fixes s t :: "byte list"
  assumes "0 \<notin> set s" "0 \<notin> set t"
  obtains k where "k \<le> length s" "k \<le> length t" "take k s = take k t" "(s @ [0]) ! k \<noteq> (t @ [0]) ! k"
    | "s = t"
proof -
  have "s = t \<or> (\<exists>k. k \<le> length s \<and> k \<le> length t \<and> take k s = take k t \<and> (s @ [0]) ! k \<noteq> (t @ [0]) ! k)"
    using assms
  proof (induction s arbitrary: t)
    case Nil
    then show ?case by (cases t) auto
  next
    case (Cons c s)
    show ?case
    proof (cases t)
      case Nil
      with Cons show ?thesis by auto
    next
      case (Cons c' t')
      show ?thesis
      proof (cases "c = c'")
        case True
        with Cons.IH [of t'] Cons.prems Cons show ?thesis
          by auto
      next
        case False
        with Cons show ?thesis by (intro disjI2 exI [of _ 0]) simp
      qed
    qed
  qed
  with that show ?thesis by blast
qed

lemma strcmp_at:
  assumes a: "cstr m a s" and b: "cstr m b t" and k: "k \<le> length s" "k \<le> length t" "take k s = take k t"
    and stop: "k = length s \<or> (s @ [0]) ! k \<noteq> (t @ [0]) ! k"
  shows "strcmp m a b = Some (if (s @ [0]) ! k < (t @ [0]) ! k then - 1 else if (s @ [0]) ! k > (t @ [0]) ! k then 1 else 0)"
proof -
  have ka: "m ! (a + k) = (s @ [0]) ! k" "a + k < length m" and kb: "m ! (b + k) = (t @ [0]) ! k" "b + k < length m"
    using cstr_nth_ext [OF a k(1)] cstr_nth_ext [OF b k(2)] by simp_all
  have stop': "\<not> (m ! (a + k) \<noteq> 0 \<and> m ! (a + k) = m ! (b + k))" using stop ka kb by auto
  have go: "m ! (a + j) = m ! (b + j)" "m ! (a + j) \<noteq> 0" "a + j < length m" "b + j < length m" if "j < k" for j
  proof -
    have "s ! j = t ! j" using k(3) that by (metis nth_take)
    then show "m ! (a + j) = m ! (b + j)" "m ! (a + j) \<noteq> 0" "a + j < length m" "b + j < length m"
      using cstr_nth [OF a, of j] cstr_nth [OF b, of j] that k by simp_all
  qed
  have "find_loop 0 (length m) (\<lambda>i. do { x \<leftarrow> arr_get m (a + i); y \<leftarrow> arr_get m (b + i); Some (\<not> (x \<noteq> 0 \<and> x = y)) })
      = Some (Some k)"
    by (rule find_loop_hit) (use ka kb stop' go in \<open>simp_all\<close>)
  then show ?thesis using ka kb a b by (simp add: strcmp_def cstr_def)
qed

lemma strcmp_ok:
  assumes a: "cstr m a s" and b: "cstr m b t"
  shows "\<exists>r. strcmp m a b = Some r \<and> (r = 0 \<longleftrightarrow> s = t) \<and> (r < 0 \<longleftrightarrow> str_less s t)"
proof -
  have z: "0 \<notin> set s" "0 \<notin> set t" using a b by (simp_all add: cstr_def)
  from z show ?thesis
  proof (cases rule: first_difference)
    case (1 k)
    have ne: "s \<noteq> t" using 1 by auto
    have "str_less s t \<longleftrightarrow> (s @ [0]) ! k < (t @ [0]) ! k"
    proof
      assume "str_less s t"
      then obtain j where j: "j \<le> length s" "j \<le> length t" "take j s = take j t" "(s @ [0]) ! j < (t @ [0]) ! j"
        by (auto simp: str_less_def)
      have same: "(s @ [0]) ! x = (t @ [0]) ! x" if "x < y" "y \<le> length s" "y \<le> length t" "take y s = take y t" for x y
      proof -
        have "take y s ! x = take y t ! x" using that(4) by simp
        with that(1-3) show ?thesis by (simp add: nth_append)
      qed
      have "\<not> j < k" using same [of j k] j(4) 1(1-3) by auto
      moreover have "\<not> k < j" using same [of k j] j(1-3) 1(4) by auto
      ultimately have "j = k" by simp
      with j(4) show "(s @ [0]) ! k < (t @ [0]) ! k" by simp
    qed (use 1 in \<open>auto simp: str_less_def\<close>)
    with strcmp_at [OF a b 1(1-3)] 1(4) ne show ?thesis by auto
  next
    case 2
    then have "\<not> str_less s t" by (auto simp: str_less_def)
    with strcmp_at [OF a b, of "length s"] 2 show ?thesis by auto
  qed
qed

lemma block_eqI: "cstr m p s \<Longrightarrow> i + n \<le> length s \<Longrightarrow> block m (p + i) n = take n (drop i s)"
  by (rule nth_equalityI) (auto simp: cstr_def block_simps add.assoc)


section \<open>Properties\<close>

lemma cstr_put:
  assumes "p \<noteq> 0" "p + length s < length m" "0 \<notin> set s"
  shows "cstr ((put_block m p s)[p + length s := 0]) p s"
  using assms by (auto simp: cstr_def nth_list_update block_simps)

lemma cstr_put_append:
  assumes t: "cstr m p t" and l: "p + length t + length s < length m" and z: "0 \<notin> set s"
  shows "cstr ((put_block m (p + length t) s)[p + length t + length s := 0]) p (t @ s)"
  using assms by (auto simp: cstr_def nth_list_update block_simps nth_append add.assoc)

text \<open>
  C39. \<^verbatim>\<open>strlcpy\<close>: for a string \<open>s\<close> and a buffer of \<open>n > 0\<close> bytes that does not overlap it, the buffer
  holds afterwards the first \<open>n - 1\<close> characters of \<open>s\<close> as a terminated string, no byte outside the
  buffer changes, and the result is the length of \<open>s\<close>, so truncation can be detected.
\<close>

theorem strlcpy_correct:
  assumes "cstr m src s" and "0 < n" and "dst \<noteq> 0" and "dst + n \<le> length m"
    and "dst + n \<le> src \<or> src + length s < dst"
  shows "\<exists>m'. strlcpy m dst src n = Some (length s, m') \<and> cstr m' dst (take (n - 1) s) \<and> length m' = length m
    \<and> (\<forall>i < length m. i < dst \<or> dst + n \<le> i \<longrightarrow> m' ! i = m ! i)"
proof -
  let ?k = "min (length s) (n - 1)"
  have src: "src \<noteq> 0" "src + length s < length m" "0 \<notin> set s" using assms(1) by (simp_all add: cstr_def)
  have blk: "block m src ?k = take (n - 1) s" using block_eqI [OF assms(1), of 0 ?k] by (simp add: min_def)
  have cpy: "memcpy m dst src ?k = Some (dst, put_block m dst (take (n - 1) s))"
    using memcpy_ok [of dst src ?k m] assms src blk by auto
  let ?m = "(put_block m dst (take (n - 1) s))[dst + length (take (n - 1) s) := 0]"
  have len: "length (take (n - 1) s) = ?k" "dst + ?k < length m" using assms by auto
  have run: "strlcpy m dst src n = Some (length s, ?m)"
    using cpy len assms(2,3) src strlen_cstr [OF assms(1)]
    by (auto simp: strlcpy_def min_def length_put_block Let_def)
  have str: "cstr ?m dst (take (n - 1) s)"
    using assms len src by (intro cstr_put) (auto dest: in_set_takeD)
  have "\<forall>i < length m. i < dst \<or> dst + n \<le> i \<longrightarrow> ?m ! i = m ! i"
    using len assms by (auto simp: nth_list_update block_simps)
  with run str show ?thesis using len by (intro exI [of _ ?m]) (simp add: length_put_block)
qed


text \<open>A small memory for the examples: a path at 1, its delimiter at 10, another string at 12.\<close>

definition sample_mem :: mem where
  "sample_mem = [7, 47, 97, 47, 47, 98, 99, 47, 0, 9, 47, 0, 98, 99, 0, 1, 2, 3, 4, 5]"

lemma sample_cstr:
  "cstr sample_mem 1 [47, 97, 47, 47, 98, 99, 47]" "cstr sample_mem 10 [47]" "cstr sample_mem 12 [98, 99]"
  by code_simp+

lemma length_sample_mem: "length sample_mem = 20"
  by (simp add: sample_mem_def)

theorem strlcpy_correct_witness:
  "\<exists>m'. strlcpy sample_mem 15 1 4 = Some (7, m') \<and> cstr m' 15 [47, 97, 47]"
  using strlcpy_correct [OF sample_cstr(1), of 4 15] by (auto simp: length_sample_mem)

text \<open>
  C41. \<^verbatim>\<open>strlcat\<close>: when the destination string \<open>t\<close> fits its buffer of \<open>n\<close> bytes, the buffer holds
  afterwards \<open>t\<close> followed by as much of \<open>s\<close> as fits in \<open>n - 1\<close> characters, terminated; the bytes
  outside the buffer are kept and the result is the length the whole string would have.
\<close>

theorem strlcat_correct:
  assumes "cstr m src s" and "cstr m dst t" and "length t < n" and "dst + n \<le> length m"
    and "dst + n \<le> src \<or> src + length s < dst"
  shows "\<exists>m'. strlcat m dst src n = Some (length s + length t, m') \<and> cstr m' dst (t @ take (n - length t - 1) s)
    \<and> length m' = length m \<and> (\<forall>i < length m. i < dst \<or> dst + n \<le> i \<longrightarrow> m' ! i = m ! i)"
proof -
  let ?k = "min (length s) (n - length t - 1)" and ?u = "take (n - length t - 1) s"
  have src: "src \<noteq> 0" "dst \<noteq> 0" "src + length s < length m" "0 \<notin> set s" using assms(1,2) by (simp_all add: cstr_def)
  have blk: "block m src ?k = ?u" using block_eqI [OF assms(1), of 0 ?k] by (simp add: min_def)
  have cpy: "memcpy m (dst + length t) src ?k = Some (dst + length t, put_block m (dst + length t) ?u)"
    using memcpy_ok [of "dst + length t" src ?k m] assms src blk by auto
  let ?m = "(put_block m (dst + length t) ?u)[dst + length t + length ?u := 0]"
  have len: "length ?u = ?k" "dst + length t + ?k < length m" using assms by auto
  have run: "strlcat m dst src n = Some (length s + length t, ?m)"
    using cpy len assms(3) src strlen_cstr [OF assms(1)] strlen_cstr [OF assms(2)]
    by (auto simp: strlcat_def min_def length_put_block Let_def)
  have str: "cstr ?m dst (t @ ?u)"
    using assms len src by (intro cstr_put_append) (auto dest: in_set_takeD)
  have "\<forall>i < length m. i < dst \<or> dst + n \<le> i \<longrightarrow> ?m ! i = m ! i"
    using len assms by (auto simp: nth_list_update block_simps)
  with run str show ?thesis using len by (intro exI [of _ ?m]) (simp add: length_put_block)
qed

theorem strlcat_correct_witness:
  "\<exists>m'. strlcat sample_mem 12 1 5 = Some (9, m') \<and> cstr m' 12 [98, 99, 47, 97]"
  using strlcat_correct [OF sample_cstr(1,3), of 5] by (auto simp: length_sample_mem)

text \<open>
  C35. \<^verbatim>\<open>memmove\<close> copies correctly whether or not the blocks overlap: the destination holds the old source
  block and nothing else changes.  The pointer it returns is the destination only when the copy goes
  down; when the destination lies before the source it is the end of the destination, although the
  comment promises the destination.
\<close>

theorem memmove_correct:
  assumes "dst \<noteq> 0" and "src \<noteq> 0" and "dst + n \<le> length m" and "src + n \<le> length m"
  shows "memmove m dst src n = Some (if dst < src then dst + n else dst, put_block m dst (block m src n))"
  using copy_up_ok [OF assms(3,4)] copy_down_ok [OF assms(3,4)] assms(1,2)
  by (auto simp: memmove_def)

theorem memmove_correct_witness:
  "memmove sample_mem 3 4 5 = Some (8, put_block sample_mem 3 [47, 98, 99, 47, 0])"
proof -
  have "block sample_mem 4 5 = [47, 98, 99, 47, 0]" by (simp add: block_def sample_mem_def)
  with memmove_correct [of 3 4 5 sample_mem] show ?thesis by (simp add: length_sample_mem)
qed

text \<open>
  C43. \<^verbatim>\<open>strcmp\<close> orders strings: it returns zero exactly for equal strings and a negative number exactly when
  the first string is smaller as unsigned characters at the first difference.
\<close>

theorem strcmp_correct:
  assumes "cstr m a s" and "cstr m b t"
  shows "\<exists>r. strcmp m a b = Some r \<and> (r = 0 \<longleftrightarrow> s = t) \<and> (r < 0 \<longleftrightarrow> str_less s t)"
  using assms by (rule strcmp_ok)

theorem strcmp_correct_witness:
  "\<exists>r. strcmp sample_mem 12 1 = Some r \<and> r \<noteq> 0"
  using strcmp_correct [OF sample_cstr(3,1)] by auto

text \<open>
  C37. \<^verbatim>\<open>strstr\<close> returns the first place where the needle occurs in the haystack, and a null pointer exactly
  when it does not occur.
\<close>

theorem strstr_correct:
  assumes "cstr m h s" and "cstr m d t"
  shows "\<exists>r. strstr m h d = Some r \<and>
    (case r of None \<Rightarrow> \<nexists>i. i + length t \<le> length s \<and> take (length t) (drop i s) = t
     | Some q \<Rightarrow> \<exists>i. q = h + i \<and> i + length t \<le> length s \<and> take (length t) (drop i s) = t
         \<and> (\<forall>j < i. take (length t) (drop j s) \<noteq> t))"
proof (cases "length t \<le> length s")
  case True
  let ?n = "length s - length t + 1"
  let ?p = "\<lambda>i. do { c \<leftarrow> memcmp m (h + i) d (length t); Some (c = 0) }"
  have bd: "h \<noteq> 0" "d \<noteq> 0" "h + length s < length m" "d + length t < length m" using assms by (simp_all add: cstr_def)
  have bt: "block m d (length t) = t" using block_eqI [OF assms(2), of 0 "length t"] by simp
  have "?p i = Some (take (length t) (drop i s) = t)" if "0 \<le> i" "i < ?n" for i
  proof -
    have "i + length t \<le> length s" using that True by auto
    then show ?thesis
      using memcmp_ok [of "h + i" d "length t" m] bd block_eqI [OF assms(1), of i "length t"] bt by auto
  qed
  from find_loop_total [of 0 ?n ?p, OF this] obtain r where r: "find_loop 0 ?n ?p = Some r"
    "case r of None \<Rightarrow> \<forall>k. 0 \<le> k \<and> k < ?n \<longrightarrow> \<not> take (length t) (drop k s) = t
      | Some k \<Rightarrow> 0 \<le> k \<and> k < ?n \<and> take (length t) (drop k s) = t
          \<and> (\<forall>j. 0 \<le> j \<and> j < k \<longrightarrow> \<not> take (length t) (drop j s) = t)" by blast
  have run: "strstr m h d = Some (map_option (\<lambda>i. h + i) r)"
    using r(1) True strlen_cstr [OF assms(1)] strlen_cstr [OF assms(2)] by (simp add: strstr_def)
  have iff: "i < ?n \<longleftrightarrow> i + length t \<le> length s" for i using True by auto
  show ?thesis using run r(2) unfolding iff by (cases r) auto
next
  case False
  then show ?thesis using strlen_cstr [OF assms(1)] strlen_cstr [OF assms(2)] by (simp add: strstr_def)
qed

theorem strstr_correct_witness:
  "\<exists>i. strstr sample_mem 1 12 = Some (Some (1 + i)) \<and> take 2 (drop i [47, 97, 47, 47, 98, 99, 47 :: byte]) = [98, 99]"
proof -
  have len: "length [98, 99 :: byte] = 2" "length [47, 97, 47, 47, 98, 99, 47 :: byte] = 7" by simp_all
  have hit: "4 + 2 \<le> (7 :: nat) \<and> take 2 (drop 4 [47, 97, 47, 47, 98, 99, 47 :: byte]) = [98, 99]" by simp
  from strstr_correct [OF sample_cstr(1,3)] obtain r where "strstr sample_mem 1 12 = Some r" and
    "case r of None \<Rightarrow> \<nexists>i. i + 2 \<le> 7 \<and> take 2 (drop i [47, 97, 47, 47, 98, 99, 47 :: byte]) = [98, 99]
     | Some q \<Rightarrow> \<exists>i. q = 1 + i \<and> i + 2 \<le> 7 \<and> take 2 (drop i [47, 97, 47, 47, 98, 99, 47 :: byte]) = [98, 99]
         \<and> (\<forall>j < i. take 2 (drop j [47, 97, 47, 47, 98, 99, 47 :: byte]) \<noteq> [98, 99])"
    unfolding len by blast
  with hit show ?thesis by (cases r) (simp_all only: option.case, blast+)
qed

text \<open>
  C38. The \<^verbatim>\<open>strtok_r\<close> loop ends after at most one call more than the string has characters, and the addresses
  it returns hold, at the end, exactly the tokens of the original string in order: the maximal
  non-empty runs of non-delimiters.  Only the string itself is written to.
\<close>

theorem strtok_loop_tokens:
  assumes "cstr m p s" and "cstr m d ds" and "apart p s d ds"
  shows "\<exists>ps m'. strtok_loop (length s + 1) m p d 0 = Some (ps, m') \<and> list_all2 (cstr m') ps (tokens (set ds) s)
    \<and> length m' = length m \<and> (\<forall>k. k < p \<or> p + length s \<le> k \<longrightarrow> m' ! k = m ! k)"
  using strtok_loop_ok [OF assms, of p 0 "length s + 1"] length_tokens [of "set ds" s] assms(1)
  by (simp add: cstr_def le_imp_less_Suc)

theorem strtok_loop_tokens_witness:
  "\<exists>ps m'. strtok_loop 8 sample_mem 1 10 0 = Some (ps, m') \<and> list_all2 (cstr m') ps [[97], [98, 99]]"
proof -
  have ap: "apart 1 [47, 97, 47, 47, 98, 99, 47] 10 [47]" by (simp add: apart_def)
  have tk: "tokens (set [47]) [47, 97, 47, 47, 98, 99, 47 :: byte] = [[97], [98, 99]]"
    by (simp add: tokens.simps [of _ "_ # _"] tokens.simps [of _ "[]"])
  have len: "length [47, 97, 47, 47, 98, 99, 47 :: byte] + 1 = 8" by simp
  from strtok_loop_tokens [OF sample_cstr(1,2) ap] show ?thesis unfolding tk len by blast
qed

end
