(* ===== verification/Directory.thy ===== *)
theory Directory
  imports File Kstring
begin

text \<open>
  \<^verbatim>\<open>filesys/directory.c\<close> on top of the inode model.  Strings are byte lists without their terminator, and
  tokenizing a path is \<open>tokens\<close>, which is what the \<^verbatim>\<open>strtok_r\<close> loop computes.
\<close>

section \<open>Entries and directories\<close>

definition NAME_MAX :: nat where "NAME_MAX = 14"

record dir_entry =
  de_inode_sector :: disk_sector_t
  de_name :: "byte list"
  de_in_use :: bool

text \<open>The 20 bytes of an entry: sector, the 15 bytes of the name array, the flag.\<close>

definition entry_bytes :: "dir_entry \<Rightarrow> byte list" where
  "entry_bytes e = le32 (de_inode_sector e) @ de_name e @ [if de_in_use e then 1 else 0]"

definition bytes_entry :: "byte list \<Rightarrow> dir_entry" where
  "bytes_entry bs = \<lparr>de_inode_sector = un_le32 (take 4 bs), de_name = take 15 (drop 4 bs), de_in_use = (bs ! 19 \<noteq> 0)\<rparr>"

text \<open>The name as a string; without a terminator in the array it runs into foreign memory.\<close>

definition entry_name :: "dir_entry \<Rightarrow> byte list option" where
  "entry_name e = (let n = takeWhile (\<lambda>c. c \<noteq> 0) (de_name e) in if length n < length (de_name e) then Some n else None)"

record dir =
  d_inode :: nat
  d_pos :: int

text \<open>
  The state: the inodes and blocks, the \<^verbatim>\<open>struct dir\<close> objects by address, and of the current thread its working
  directory and the name of its program.  Three components stand for what C leaves open: \<open>slack\<close> is the
  byte in front of the directory buffer of \<^verbatim>\<open>split_path_filename\<close>, \<open>stray_read\<close> is what \<^verbatim>\<open>inode_read_at\<close> does
  when \<^verbatim>\<open>dir_move\<close> passes it a \<^verbatim>\<open>struct dir\<close> in place of an inode, and \<open>junk\<close> is an uninitialised entry on
  the stack.
\<close>

record dirsys =
  d_fs :: fs
  dirs :: "nat \<rightharpoonup> dir"
  next_dir :: nat
  pwd :: "nat option"
  exec_name :: "byte list"
  slack :: byte
  stray_read :: "dir \<Rightarrow> fs \<Rightarrow> fs option"
  junk :: dir_entry

definition on_fs :: "(fs \<Rightarrow> fs option) \<Rightarrow> dirsys \<Rightarrow> dirsys option" where
  "on_fs f st = do { s \<leftarrow> f (d_fs st); Some (st\<lparr>d_fs := s\<rparr>) }"

definition on_fs_get :: "(fs \<Rightarrow> ('a \<times> fs) option) \<Rightarrow> dirsys \<Rightarrow> ('a \<times> dirsys) option" where
  "on_fs_get f st = do { (x, s) \<leftarrow> f (d_fs st); Some (x, st\<lparr>d_fs := s\<rparr>) }"

text \<open>Using a null or dangling directory pointer is undefined.\<close>

definition the_dir :: "dirsys \<Rightarrow> nat option \<Rightarrow> dir option" where
  "the_dir st p = do { a \<leftarrow> p; dirs st a }"

section \<open>Splitting a path\<close>

text \<open>
  The loop appends each token but the last, with a slash, to the directory.  The final test looks at the last
  character of the directory; for an empty directory that is the byte in front of the buffer, and writing
  there is undefined.
\<close>

definition split_step :: "byte list \<times> byte list \<Rightarrow> byte list \<Rightarrow> byte list \<times> byte list" where
  "split_step acc token = (case acc of (dir, last_token) \<Rightarrow>
     (if length last_token > 0 then dir @ last_token @ [47] else dir, token))"

definition split_path_filename :: "byte \<Rightarrow> byte list \<Rightarrow> (byte list \<times> byte list) option" where
  "split_path_filename sl path = (
     let dir = (if length path > 0 \<and> path ! 0 = 47 then [47] else []);
         (directory, filename) = foldl split_step (dir, []) (tokens {47} path)
     in if directory = [] then (if sl = 47 then None else Some (directory, filename))
        else if last directory = 47 then Some (butlast directory, filename)
        else Some (directory, filename))"

section \<open>Opening and closing\<close>

definition dir_open :: "dirsys \<Rightarrow> nat option \<Rightarrow> (nat option \<times> dirsys) option" where
  "dir_open st inode =
     (if inode \<noteq> None \<and> mem_ok (d_fs st) then do {
        a \<leftarrow> inode;
        Some (Some (next_dir st), st\<lparr>dirs := (dirs st)(next_dir st \<mapsto> \<lparr>d_inode = a, d_pos = 20\<rparr>),
                                      next_dir := next_dir st + 1\<rparr>) }
      else do { st \<leftarrow> on_fs (\<lambda>s. inode_close s inode) st; Some (None, st) })"

definition dir_open_root :: "dirsys \<Rightarrow> (nat option \<times> dirsys) option" where
  "dir_open_root st = do { (a, st) \<leftarrow> on_fs_get (\<lambda>s. inode_open s ROOT_DIR_SECTOR) st; dir_open st a }"

definition dir_reopen :: "dirsys \<Rightarrow> nat option \<Rightarrow> (nat option \<times> dirsys) option" where
  "dir_reopen st p = do {
     d \<leftarrow> the_dir st p;
     st \<leftarrow> on_fs (inode_reopen (d_inode d)) st;
     dir_open st (Some (d_inode d)) }"

definition dir_close :: "dirsys \<Rightarrow> nat option \<Rightarrow> dirsys option" where
  "dir_close st p =
     (case p of
        None \<Rightarrow> Some st
      | Some a \<Rightarrow> do {
          d \<leftarrow> dirs st a;
          st \<leftarrow> on_fs (\<lambda>s. inode_close s (Some (d_inode d))) st;
          Some (st\<lparr>dirs := (dirs st)(a := None)\<rparr>) })"

definition dir_get_inode :: "dirsys \<Rightarrow> nat option \<Rightarrow> nat option" where
  "dir_get_inode st p = do { d \<leftarrow> the_dir st p; Some (d_inode d) }"

definition dir_create :: "dirsys \<Rightarrow> disk_sector_t \<Rightarrow> nat \<Rightarrow> (bool \<times> dirsys) option" where
  "dir_create st sector entry_cnt = do {
     kassert (entry_cnt > 0);
     kassert (sector > 0);
     (result, st) \<leftarrow> on_fs_get (\<lambda>s. inode_create s sector (i32 (int (sz (entry_cnt * 20)))) True) st;
     if \<not> result then Some (result, st)
     else do {
       (a, st) \<leftarrow> on_fs_get (\<lambda>s. inode_open s sector) st;
       (p, st) \<leftarrow> dir_open st a;
       new_dir \<leftarrow> the_dir st p;
       let de = (junk st)\<lparr>de_inode_sector := sector\<rparr>;
       (n, st) \<leftarrow> on_fs_get (\<lambda>s. inode_write_at s (d_inode new_dir) (entry_bytes de) 20 0) st;
       st \<leftarrow> on_fs (\<lambda>s. inode_close s (Some (d_inode new_dir))) st;
       d \<leftarrow> p;
       Some (n = 20, st\<lparr>dirs := (dirs st)(d := None)\<rparr>) } }"

section \<open>Looking up a name\<close>

text \<open>Reading the entry at \<open>ofs\<close>: the entry, whether it was read whole, and what the buffer holds.\<close>

definition read_entry :: "fs \<Rightarrow> nat \<Rightarrow> dir_entry \<Rightarrow> nat \<Rightarrow> (bool \<times> dir_entry \<times> fs) option" where
  "read_entry s a e ofs = do {
     (bs, s) \<leftarrow> inode_read_at s a 20 (i32 (int ofs));
     Some (length bs = 20, bytes_entry (bs @ drop (length bs) (entry_bytes e)), s) }"

partial_function (option) lookup_loop ::
    "nat \<Rightarrow> byte list \<Rightarrow> dir_entry \<Rightarrow> nat \<Rightarrow> fs \<Rightarrow> ((dir_entry \<times> nat) option \<times> fs) option" where
  "lookup_loop a name e ofs s = do {
     (whole, e, s) \<leftarrow> read_entry s a e ofs;
     if \<not> whole then Some (None, s)
     else do {
       hit \<leftarrow> (if de_in_use e then do { n \<leftarrow> entry_name e; Some (name = n) } else Some False);
       if hit then Some (Some (e, ofs), s)
       else lookup_loop a name e (sz (ofs + 20)) s } }"

definition lookup :: "dirsys \<Rightarrow> nat option \<Rightarrow> byte list \<Rightarrow> ((dir_entry \<times> nat) option \<times> dirsys) option" where
  "lookup st dir name = do {
     kassert (dir \<noteq> None);
     (dir, st) \<leftarrow> dir_reopen st dir;
     d \<leftarrow> the_dir st dir;
     (r, st) \<leftarrow> on_fs_get (lookup_loop (d_inode d) name (junk st) 20) st;
     st \<leftarrow> dir_close st dir;
     Some (r, st) }"

definition reopen_ptr :: "nat option \<Rightarrow> fs \<Rightarrow> (nat option \<times> fs) option" where
  "reopen_ptr p s = (case p of None \<Rightarrow> Some (None, s) | Some a \<Rightarrow> do { s \<leftarrow> inode_reopen a s; Some (p, s) })"

text \<open>The parent of an inode is only set by \<^verbatim>\<open>dir_add\<close>; before that the field is uninitialised.\<close>

definition inode_parent :: "fs \<Rightarrow> nat \<Rightarrow> nat option option" where
  "inode_parent s a = do { ino \<leftarrow> inodes s a; i_parent ino }"

definition present_dir_lookup :: "dirsys \<Rightarrow> nat option \<Rightarrow> byte list \<Rightarrow> (nat option \<times> dirsys) option" where
  "present_dir_lookup st dir name =
     (if name = [46] then do {
        d \<leftarrow> the_dir st dir;
        on_fs_get (reopen_ptr (Some (d_inode d))) st }
      else if name = [46, 46] then do {
        d \<leftarrow> the_dir st dir;
        parent \<leftarrow> inode_parent (d_fs st) (d_inode d);
        on_fs_get (reopen_ptr parent) st }
      else do {
        (r, st) \<leftarrow> lookup st dir name;
        case r of
          Some (e, _) \<Rightarrow> on_fs_get (\<lambda>s. inode_open s (de_inode_sector e)) st
        | None \<Rightarrow> Some (None, st) })"

text \<open>The walk along the components.  The directory left behind is not closed.\<close>

fun move_loop :: "byte list list \<Rightarrow> nat option \<Rightarrow> dirsys \<Rightarrow> (nat option \<times> dirsys) option" where
  "move_loop [] present_dir st = Some (present_dir, st)"
| "move_loop (token # ts) present_dir st = do {
     (inode, st) \<leftarrow> present_dir_lookup st present_dir token;
     if inode = None then do { st \<leftarrow> dir_close st present_dir; Some (None, st) }
     else do {
       (next_p, st) \<leftarrow> dir_open st inode;
       if next_p = None then do { st \<leftarrow> dir_close st present_dir; Some (None, st) }
       else move_loop ts next_p st } }"

definition dir_move :: "dirsys \<Rightarrow> byte list \<Rightarrow> (nat option \<times> dirsys) option" where
  "dir_move st dir_path = do {
     st \<leftarrow> (if pwd st = None then do { (p, st) \<leftarrow> dir_open_root st; Some (st\<lparr>pwd := p\<rparr>) } else Some st);
     if length dir_path = 0 then Some (pwd st, st)
     else do {
       (present_dir, st) \<leftarrow>
         (if dir_path ! 0 = 47 then dir_open_root st
          else do {
            d \<leftarrow> the_dir st (pwd st);
            st \<leftarrow> on_fs (stray_read st d) st;
            Some (pwd st, st) });
       move_loop (tokens {47} dir_path) present_dir st } }"

definition dir_lookup :: "dirsys \<Rightarrow> nat option \<Rightarrow> byte list \<Rightarrow> (nat option \<times> dirsys) option" where
  "dir_lookup st dir name = do {
     kassert (dir \<noteq> None);
     kassert (mem_ok (d_fs st));
     (dir_path, filename) \<leftarrow> split_path_filename (slack st) name;
     (dir, st) \<leftarrow> dir_move st dir_path;
     if dir = None then Some (None, st)
     else if name = [46] \<or> name = [46, 46] then do {
       d \<leftarrow> the_dir st dir;
       ino \<leftarrow> inodes (d_fs st) (d_inode d);
       if i_removed ino then Some (None, st)
       else if name = [46] then on_fs_get (reopen_ptr (Some (d_inode d))) st
       else do { parent \<leftarrow> i_parent ino; on_fs_get (reopen_ptr parent) st } }
     else if length dir_path = 0 \<and> str_less filename [47] then
       on_fs_get (\<lambda>s. inode_open s ROOT_DIR_SECTOR) st
     else do {
       (r, st) \<leftarrow> lookup st dir filename;
       case r of
         Some (e, _) \<Rightarrow> on_fs_get (\<lambda>s. inode_open s (de_inode_sector e)) st
       | None \<Rightarrow> Some (None, st) } }"

section \<open>Adding, removing and listing\<close>

text \<open>The search for a free slot: its offset, or the end of the file, and what the buffer holds then.\<close>

partial_function (option) slot_loop :: "nat \<Rightarrow> dir_entry \<Rightarrow> nat \<Rightarrow> fs \<Rightarrow> (dir_entry \<times> nat \<times> fs) option" where
  "slot_loop a e ofs s = do {
     (whole, e, s) \<leftarrow> read_entry s a e ofs;
     if \<not> whole \<or> \<not> de_in_use e then Some (e, ofs, s)
     else slot_loop a e (sz (ofs + 20)) s }"

definition set_name :: "byte list \<Rightarrow> dir_entry \<Rightarrow> dir_entry option" where
  "set_name name e = do {
     kassert (length name + 1 \<le> length (de_name e));
     Some (e\<lparr>de_name := name @ [0] @ drop (length name + 1) (de_name e)\<rparr>) }"

definition dir_add_entry :: "dirsys \<Rightarrow> nat option \<Rightarrow> byte list \<Rightarrow> disk_sector_t \<Rightarrow> bool \<Rightarrow> (bool \<times> dirsys) option" where
  "dir_add_entry st dir filename inode_sector directory = do {
     (r, st) \<leftarrow> lookup st dir filename;
     if r \<noteq> None then Some (False, st)
     else do {
       d \<leftarrow> the_dir st dir;
       st \<leftarrow> (if directory then do {
                (a, st) \<leftarrow> on_fs_get (\<lambda>s. inode_open s inode_sector) st;
                (p, st) \<leftarrow> dir_open st a;
                child \<leftarrow> the_dir st p;
                on_fs (upd_inode (d_inode child) (\<lambda>i. i\<lparr>i_parent := Some (Some (d_inode d))\<rparr>)) st }
              else Some st);
       (e, ofs, s) \<leftarrow> slot_loop (d_inode d) (junk st) 20 (d_fs st);
       let st = st\<lparr>d_fs := s\<rparr>;
       e \<leftarrow> set_name filename (e\<lparr>de_in_use := True\<rparr>);
       let e = e\<lparr>de_inode_sector := inode_sector\<rparr>;
       (n, st) \<leftarrow> on_fs_get (\<lambda>s. inode_write_at s (d_inode d) (entry_bytes e) 20 (i32 (int ofs))) st;
       (_, st) \<leftarrow> present_dir_lookup st dir filename;
       Some (n = 20, st) } }"

definition dir_add :: "dirsys \<Rightarrow> nat option \<Rightarrow> byte list \<Rightarrow> disk_sector_t \<Rightarrow> bool \<Rightarrow> (bool \<times> dirsys) option" where
  "dir_add st dir name inode_sector directory = do {
     removed \<leftarrow> (case pwd st of
        None \<Rightarrow> Some False
      | Some p \<Rightarrow> do { d \<leftarrow> dirs st p; ino \<leftarrow> inodes (d_fs st) (d_inode d); Some (i_removed ino) });
     if removed then Some (False, st)
     else do {
       kassert (mem_ok (d_fs st));
       (dir_path, filename) \<leftarrow> split_path_filename (slack st) name;
       (dir, st) \<leftarrow> dir_move st dir_path;
       kassert (dir \<noteq> None);
       if filename = [] \<or> length filename > NAME_MAX then Some (False, st)
       else dir_add_entry st dir filename inode_sector directory } }"

text \<open>The loop that the name of the running program turns on: is there an entry in use?\<close>

partial_function (option) used_loop :: "nat \<Rightarrow> dir_entry \<Rightarrow> nat \<Rightarrow> fs \<Rightarrow> (bool \<times> nat \<times> fs) option" where
  "used_loop a e ofs s = do {
     (whole, e, s) \<leftarrow> read_entry s a e ofs;
     if \<not> whole then Some (False, ofs, s)
     else if de_in_use e then Some (True, ofs, s)
     else used_loop a e (sz (ofs + 20)) s }"

definition dir_rm_parent :: "byte list" where
  "dir_rm_parent = [100, 105, 114, 45, 114, 109, 45, 112, 97, 114, 101, 110, 116]"

definition dir_remove :: "dirsys \<Rightarrow> nat option \<Rightarrow> byte list \<Rightarrow> (bool \<times> dirsys) option" where
  "dir_remove st dir name = do {
     kassert (dir \<noteq> None);
     (r, st) \<leftarrow> lookup st dir name;
     case r of
       None \<Rightarrow> Some (False, st)
     | Some (e, ofs) \<Rightarrow> do {
         (inode, st) \<leftarrow> on_fs_get (\<lambda>s. inode_open s (de_inode_sector e)) st;
         case inode of
           None \<Rightarrow> Some (False, st)
         | Some a \<Rightarrow> do {
             d \<leftarrow> the_dir st dir;
             (used, ofs, s) \<leftarrow> (if exec_name st = dir_rm_parent then used_loop (d_inode d) (junk st) 20 (d_fs st)
                               else Some (False, ofs, d_fs st));
             let st = st\<lparr>d_fs := s\<rparr>;
             if used then Some (False, st)
             else do {
               let e = e\<lparr>de_in_use := False\<rparr>;
               (n, st) \<leftarrow> on_fs_get (\<lambda>s. inode_write_at s (d_inode d) (entry_bytes e) 20 (i32 (int ofs))) st;
               (success, st) \<leftarrow>
                 (if n \<noteq> 20 then Some (False, st) else do { st \<leftarrow> on_fs (\<lambda>s. inode_remove s a) st; Some (True, st) });
               st \<leftarrow> on_fs (\<lambda>s. inode_close s inode) st;
               Some (success, st) } } } }"

partial_function (option) readdir_loop :: "nat \<Rightarrow> dir_entry \<Rightarrow> int \<Rightarrow> fs \<Rightarrow> (byte list option \<times> int \<times> fs) option" where
  "readdir_loop a e p s = do {
     (bs, s) \<leftarrow> inode_read_at s a 20 p;
     let e = bytes_entry (bs @ drop (length bs) (entry_bytes e));
     if length bs \<noteq> 20 then Some (None, p, s)
     else if de_in_use e then do { n \<leftarrow> entry_name e; Some (Some (take NAME_MAX n), i32 (p + 20), s) }
     else readdir_loop a e (i32 (p + 20)) s }"

definition dir_readdir :: "dirsys \<Rightarrow> nat option \<Rightarrow> (byte list option \<times> dirsys) option" where
  "dir_readdir st dir = do {
     a \<leftarrow> dir;
     d \<leftarrow> dirs st a;
     (r, p, s) \<leftarrow> readdir_loop (d_inode d) (junk st) (d_pos d) (d_fs st);
     Some (r, st\<lparr>d_fs := s, dirs := (dirs st)(a \<mapsto> d\<lparr>d_pos := p\<rparr>)\<rparr>) }"

end
