(* ===== verification/Directory_Spec.thy ===== *)
theory Directory_Spec
  imports Directory
begin

text \<open>
  What the directory operations do, seen as a finite map from names to sectors: the entries of a directory file
  as an array, the lookup loop as a search in it, adding as an update and removing as a deletion.
\<close>

section \<open>Paths\<close>

lemma split_fold:
  assumes "\<forall>t \<in> set ts. t \<noteq> []" "l \<noteq> []"
  shows "foldl split_step (dir, l) ts = (dir @ concat (map (\<lambda>t. t @ [47]) (butlast (l # ts))), last (l # ts))"
  using assms by (induction ts arbitrary: dir l) (auto simp: split_step_def)

lemma split_fold_start:
  assumes "\<forall>t \<in> set ts. t \<noteq> []"
  shows "foldl split_step (dir, []) ts
    = (dir @ concat (map (\<lambda>t. t @ [47]) (butlast ts)), if ts = [] then [] else last ts)"
proof (cases ts)
  case (Cons t ts')
  then show ?thesis using split_fold [of ts' t dir] assms by (simp add: split_step_def)
qed (simp add: split_step_def)

lemma tokens_props:
  "t \<in> set (tokens D s) \<Longrightarrow> t \<noteq> [] \<and> (\<forall>c \<in> set t. c \<notin> D) \<and> set t \<subseteq> set s"
proof (induction D s rule: tokens.induct)
  case (1 D s)
  show ?case
  proof (cases "dropWhile (\<lambda>c. c \<in> D) s")
    case Nil
    then have "tokens D s = []" by (subst tokens.simps) (simp only: Nil list.case)
    with 1(2) show ?thesis by simp
  next
    case (Cons c cs)
    have c: "c \<notin> D" using Cons by (metis hd_dropWhile list.distinct(1) list.sel(1))
    have sub: "set (c # cs) \<subseteq> set s" using set_dropWhileD [of _ "\<lambda>c. c \<in> D" s] unfolding Cons by blast
    have tk: "tokens D s = takeWhile (\<lambda>c. c \<notin> D) (c # cs) # tokens D (dropWhile (\<lambda>c. c \<notin> D) cs)"
      by (subst tokens.simps) (simp only: Cons list.case)
    show ?thesis
    proof (cases "t = takeWhile (\<lambda>c. c \<notin> D) (c # cs)")
      case True
      then show ?thesis using c sub by (auto dest: set_takeWhileD)
    next
      case False
      with 1(2) tk have "t \<in> set (tokens D (dropWhile (\<lambda>c. c \<notin> D) cs))" by simp
      from 1(1) [OF Cons this] sub show ?thesis by (auto dest: set_dropWhileD)
    qed
  qed
qed

lemma tokens_skip: "c \<in> D \<Longrightarrow> tokens D (c # s) = tokens D s"
  by (rule tokens_cong) simp

lemma tokens_append:
  assumes "t \<noteq> []" "\<forall>c \<in> set t. c \<notin> D" "s = [] \<or> hd s \<in> D"
  shows "tokens D (t @ s) = t # tokens D s"
proof -
  obtain c t' where t: "t = c # t'" using assms(1) by (cases t) auto
  have dw: "dropWhile (\<lambda>c. c \<in> D) (t @ s) = c # (t' @ s)" using assms(2) t by simp
  have "takeWhile (\<lambda>c. c \<notin> D) (c # t' @ s) = t" "dropWhile (\<lambda>c. c \<notin> D) (t' @ s) = s"
    using assms(2,3) t by (cases s; auto simp: takeWhile_append2 dropWhile_append2)+
  then show ?thesis by (subst tokens.simps) (simp only: dw list.case)
qed

lemma tokens_concat:
  assumes "\<forall>t \<in> set ts. t \<noteq> [] \<and> (\<forall>c \<in> set t. c \<noteq> 47)"
  shows "tokens {47} (concat (map (\<lambda>t. t @ [47]) ts) @ s) = ts @ tokens {47} s"
  using assms
proof (induction ts)
  case (Cons t ts)
  have "tokens {47} (t @ [47] @ concat (map (\<lambda>t. t @ [47]) ts) @ s) = t # tokens {47} (concat (map (\<lambda>t. t @ [47]) ts) @ s)"
    using Cons.prems by (subst tokens_append) (auto simp: tokens_skip)
  with Cons show ?case by simp
qed simp

lemma while_snoc:
  "\<not> P c \<Longrightarrow> takeWhile P (xs @ [c]) = takeWhile P xs" "\<not> P c \<Longrightarrow> dropWhile P (xs @ [c]) = dropWhile P xs @ [c]"
  by (induction xs) auto

lemma tokens_snoc: "c \<in> D \<Longrightarrow> tokens D (s @ [c]) = tokens D s"
proof (induction D s rule: tokens.induct)
  case (1 D s)
  show ?case
  proof (cases "dropWhile (\<lambda>c. c \<in> D) s")
    case Nil
    then have "\<forall>x \<in> set s. x \<in> D" by simp
    then have "dropWhile (\<lambda>c. c \<in> D) (s @ [c]) = []" using 1(2) by (simp add: dropWhile_append)
    with Nil show ?thesis by (intro tokens_cong) (simp only:)
  next
    case (Cons b bs)
    then have "\<not> (\<forall>x \<in> set s. x \<in> D)" by (metis dropWhile_eq_Nil_conv list.distinct(1))
    then have s: "dropWhile (\<lambda>c. c \<in> D) (s @ [c]) = b # (bs @ [c])"
      by (simp only: dropWhile_append if_False Cons append_Cons)
    have tw: "takeWhile (\<lambda>c. c \<notin> D) (b # bs @ [c]) = takeWhile (\<lambda>c. c \<notin> D) (b # bs)"
      using while_snoc(1) [of "\<lambda>c. c \<notin> D" c "b # bs"] 1(2) by simp
    have dw: "dropWhile (\<lambda>c. c \<notin> D) (bs @ [c]) = dropWhile (\<lambda>c. c \<notin> D) bs @ [c]"
      using while_snoc(2) [of "\<lambda>c. c \<notin> D" c bs] 1(2) by simp
    show ?thesis by (subst (1 2) tokens.simps) (simp only: s Cons list.case tw dw 1(1) [OF Cons 1(2)])
  qed
qed

lemma tokens_trailing: "xs \<noteq> [] \<Longrightarrow> last xs = 47 \<Longrightarrow> tokens {47} (butlast xs) = tokens {47} xs"
  by (metis append_butlast_last_id insertI1 tokens_snoc)

lemma tokens_Nil [simp]: "tokens D [] = []"
  by (subst tokens.simps) simp

lemma tokens_size: "(\<Sum>t \<leftarrow> tokens D s. length t + 1) \<le> length s + 1"
proof (induction s rule: length_induct)
  case (1 s)
  show ?case
  proof (cases s)
    case Nil
    then show ?thesis by simp
  next
    case (Cons c cs)
    show ?thesis
    proof (cases "c \<in> D")
      case True
      with 1 Cons have "(\<Sum>t \<leftarrow> tokens D cs. length t + 1) \<le> length cs + 1" by simp
      with True Cons show ?thesis by (simp add: tokens_skip)
    next
      case False
      let ?u = "takeWhile (\<lambda>c. c \<notin> D) s" and ?r = "dropWhile (\<lambda>c. c \<notin> D) s"
      have len: "length ?u + length ?r = length s" by (metis length_append takeWhile_dropWhile_id)
      have u: "?u \<noteq> []" "\<forall>c \<in> set ?u. c \<notin> D" using False Cons by (auto dest: set_takeWhileD)
      have hd_r: "?r = [] \<or> hd ?r \<in> D" using hd_dropWhile [of "\<lambda>c. c \<notin> D" s] by blast
      have tk: "tokens D s = ?u # tokens D ?r" using tokens_append [OF u hd_r] by simp
      have "(\<Sum>t \<leftarrow> tokens D ?r. length t + 1) \<le> length ?r"
      proof (cases ?r)
        case r: (Cons b bs)
        then have "b \<in> D" using hd_r by simp
        then have "tokens D ?r = tokens D bs" unfolding r by (rule tokens_skip)
        moreover have "length bs < length s" using len r by simp
        ultimately show ?thesis using 1 r by simp
      next
        case Nil
        show ?thesis unfolding Nil by simp
      qed
      then show ?thesis unfolding tk using len by simp
    qed
  qed
qed

lemma tokens_47: "\<forall>t \<in> set (tokens {47} s). t \<noteq> [] \<and> (\<forall>c \<in> set t. c \<noteq> 47)"
  using tokens_props [of _ "{47}" s] by auto

lemma split_eq:
  "foldl split_step (dir, []) (tokens {47} path)
    = (dir @ concat (map (\<lambda>t. t @ [47]) (butlast (tokens {47} path))),
       if tokens {47} path = [] then [] else last (tokens {47} path))"
  using split_fold_start tokens_47 by blast

lemma length_concat_slash: "length (concat (map (\<lambda>t. t @ [47 :: byte]) ts)) = (\<Sum>t \<leftarrow> ts. length t + 1)"
  by (induction ts) auto

text \<open>
  C39. \<^verbatim>\<open>split_path_filename\<close> cuts a path before its last component: the components of the directory part
  followed by the file name are the components of the path, the name has no slash, and both parts
  fit the buffers of the length of the path.
\<close>

theorem split_path_filename_correct:
  assumes "sl \<noteq> 47"
  shows "\<exists>directory filename. split_path_filename sl path = Some (directory, filename)
    \<and> tokens {47} directory @ (if filename = [] then [] else [filename]) = tokens {47} path
    \<and> 47 \<notin> set filename \<and> length directory + length filename \<le> length path"
proof -
  define ts where "ts = tokens {47} path"
  define lead where "lead = (if length path > 0 \<and> path ! 0 = 47 then [47 :: byte] else [])"
  define full where "full = lead @ concat (map (\<lambda>t. t @ [47]) (butlast ts))"
  define fname where "fname = (if ts = [] then [] else last ts)"
  have props: "\<forall>t \<in> set ts. t \<noteq> [] \<and> (\<forall>c \<in> set t. c \<noteq> 47)" by (simp add: ts_def tokens_47)
  have ts: "tokens {47} full = butlast ts"
  proof -
    have "tokens {47} (concat (map (\<lambda>t. t @ [47]) (butlast ts)) @ []) = butlast ts @ tokens {47} []"
      using props by (intro tokens_concat) (auto dest: in_set_butlastD)
    then show ?thesis by (simp add: full_def lead_def tokens_skip)
  qed
  have fn: "fname = [] \<longleftrightarrow> ts = []" "47 \<notin> set fname" using props by (auto simp: fname_def)
  have len: "length full + length fname \<le> length path"
  proof -
    have "path = lead @ drop (length lead) path" by (cases path) (auto simp: lead_def)
    then obtain r where r: "path = lead @ r" by blast
    have "tokens {47} path = tokens {47} r" unfolding r by (simp add: lead_def tokens_skip)
    with tokens_size [of "{47}" r] have sum: "(\<Sum>t \<leftarrow> ts. length t + 1) \<le> length r + 1" by (simp add: ts_def)
    have "ts \<noteq> [] \<Longrightarrow> (\<Sum>t \<leftarrow> ts. length t + 1) = (\<Sum>t \<leftarrow> butlast ts. length t + 1) + (length fname + 1)"
      unfolding fname_def by (cases ts rule: rev_cases) auto
    then show ?thesis using sum r by (cases "ts = []") (simp_all add: full_def length_concat_slash fname_def)
  qed
  have eq: "split_path_filename sl path = (if full = [] then Some (full, fname)
      else if last full = 47 then Some (butlast full, fname) else Some (full, fname))"
    using assms split_eq [of lead path]
    by (simp add: split_path_filename_def full_def fname_def ts_def lead_def)
  have "tokens {47} full @ (if fname = [] then [] else [fname]) = ts"
    using ts fn by (simp add: fname_def)
  moreover have "full \<noteq> [] \<Longrightarrow> last full = 47 \<Longrightarrow> tokens {47} (butlast full) = tokens {47} full"
    by (rule tokens_trailing)
  ultimately show ?thesis using eq len fn ts_def by (cases "full = []"; cases "last full = 47") auto
qed

theorem split_path_filename_correct_witness:
  "\<exists>d f. split_path_filename 0 [47, 97, 47, 98] = Some (d, f) \<and> length d + length f \<le> 4"
  using split_path_filename_correct [of 0 "[47, 97, 47, 98]"] by auto


section \<open>The entries of a directory\<close>

type_synonym sectors = "disk_sector_t \<Rightarrow> byte list"

definition entry_at :: "sectors \<Rightarrow> inode_disk \<Rightarrow> nat \<Rightarrow> dir_entry" where
  "entry_at v d i = bytes_entry (map (fbyte v d) [20 * i..<20 * i + 20])"

definition entry_cnt :: "inode_disk \<Rightarrow> nat" where
  "entry_cnt d = nat (id_length d) div 20"

text \<open>Entry \<open>i\<close> carries the name.  Entry 0 is kept free of names by the code, which starts at 1.\<close>

definition named :: "sectors \<Rightarrow> inode_disk \<Rightarrow> byte list \<Rightarrow> nat \<Rightarrow> bool" where
  "named v d name i \<longleftrightarrow> de_in_use (entry_at v d i) \<and> entry_name (entry_at v d i) = Some name"

text \<open>A sound directory: every name in use is terminated, and no name is used twice.\<close>

definition dir_ok :: "sectors \<Rightarrow> inode_disk \<Rightarrow> bool" where
  "dir_ok v d \<longleftrightarrow> (\<forall>i. 1 \<le> i \<and> i < entry_cnt d \<and> de_in_use (entry_at v d i) \<longrightarrow> entry_name (entry_at v d i) \<noteq> None)
     \<and> (\<forall>i j name. 1 \<le> i \<and> i < entry_cnt d \<and> 1 \<le> j \<and> j < entry_cnt d \<and> named v d name i \<and> named v d name j \<longrightarrow> i = j)"

definition dir_find :: "sectors \<Rightarrow> inode_disk \<Rightarrow> byte list \<Rightarrow> nat \<Rightarrow> nat option" where
  "dir_find v d name k = List.find (named v d name) [k..<entry_cnt d]"

text \<open>The directory as a map from names to sectors.\<close>

definition dir_map :: "sectors \<Rightarrow> inode_disk \<Rightarrow> byte list \<rightharpoonup> disk_sector_t" where
  "dir_map v d name = map_option (\<lambda>i. de_inode_sector (entry_at v d i)) (dir_find v d name 1)"

lemma length_entry_bytes: "length (de_name e) = 15 \<Longrightarrow> length (entry_bytes e) = 20"
  by (simp add: entry_bytes_def)

lemma bytes_entry_bytes: "length (de_name e) = 15 \<Longrightarrow> bytes_entry (entry_bytes e) = e"
  using un_le32_le32 [of "de_inode_sector e" "[]"] by (cases e) (simp add: bytes_entry_def entry_bytes_def nth_append)

lemma length_bytes_entry: "19 \<le> length bs \<Longrightarrow> length (de_name (bytes_entry bs)) = 15"
  by (simp add: bytes_entry_def)

lemma length_entry_at: "length (de_name (entry_at v d i)) = 15"
  by (simp add: entry_at_def bytes_entry_def)

lemma dir_find_step:
  "k < entry_cnt d \<Longrightarrow> dir_find v d name k = (if named v d name k then Some k else dir_find v d name (Suc k))"
  by (simp add: dir_find_def upt_conv_Cons)

lemma dir_find_end: "entry_cnt d \<le> k \<Longrightarrow> dir_find v d name k = None"
  by (simp add: dir_find_def)

lemma dir_find_Some:
  "dir_find v d name k = Some i \<Longrightarrow> k \<le> i \<and> i < entry_cnt d \<and> named v d name i"
  by (auto simp: dir_find_def find_Some_iff)

lemma dir_find_None: "dir_find v d name k = None \<longleftrightarrow> (\<forall>i. k \<le> i \<and> i < entry_cnt d \<longrightarrow> \<not> named v d name i)"
  by (auto simp: dir_find_def find_None_iff)

text \<open>An open directory file whose entries can be read.\<close>

definition dir_file :: "fs \<Rightarrow> nat \<Rightarrow> inode \<Rightarrow> bool" where
  "dir_file s a ino \<longleftrightarrow> fs_ok s \<and> mem_ok s \<and> inodes s a = Some ino \<and> inode_wf (fvalid s) (fview s) (i_data ino)"

lemma dir_file_becomes:
  assumes "fs_becomes s s' (fview s)" "dir_file s a ino"
  shows "dir_file s' a ino" "fview s' = fview s"
proof -
  note r = fs_becomes_rest [OF assms(1)]
  show "fview s' = fview s" by (rule r)
  show "dir_file s' a ino" using assms(2) r(1,4,5) unfolding dir_file_def r(2) r(3) by simp
qed

lemma read_entry_ok:
  assumes f: "dir_file s a ino" and e: "length (de_name e) = 15" and i: "20 * i < 2 ^ 31 - 20"
  shows "\<exists>e' s'. read_entry s a e (20 * i) = Some (i < entry_cnt (i_data ino), e', s') \<and> fs_becomes s s' (fview s)
    \<and> length (de_name e') = 15 \<and> (i < entry_cnt (i_data ino) \<longrightarrow> e' = entry_at (fview s) (i_data ino) i)"
proof -
  let ?d = "i_data ino" and ?o = "int (20 * i)"
  have o: "i32 ?o = ?o" "0 \<le> ?o" "?o < 2 ^ 31" using i by (auto intro!: i32_id)
  have L: "0 \<le> id_length ?d" using f by (simp add: dir_file_def inode_wf_def)
  have nat: "nat ?o = 20 * i" by simp
  from inode_read_loop_ok [OF _ _ _ o(2,3), of s ?d 20, unfolded nat] f obtain s' where
    r: "inode_read_loop ?d 20 ?o s = Some (map (fbyte (fview s) ?d) [20 * i..<20 * i + inside ?d 20 ?o], s')"
    and b: "fs_becomes s s' (fview s)" by (auto simp: dir_file_def)
  let ?bs = "map (fbyte (fview s) ?d) [20 * i..<20 * i + inside ?d 20 ?o]"
  have n: "inside ?d 20 ?o \<le> 20" by (auto simp: inside_def)
  have iff: "inside ?d 20 ?o = 20 \<longleftrightarrow> i < entry_cnt ?d"
    using L by (simp add: inside_def entry_cnt_def min_def less_eq_div_iff_mult_less_eq flip: Suc_le_eq) linarith
  have "read_entry s a e (20 * i) = Some (i < entry_cnt ?d, bytes_entry (?bs @ drop (length ?bs) (entry_bytes e)), s')"
    using f r o(1) iff by (simp add: read_entry_def inode_read_at_def dir_file_def)
  moreover have "length (de_name (bytes_entry (?bs @ drop (length ?bs) (entry_bytes e)))) = 15"
    using length_entry_bytes [OF e] n by (intro length_bytes_entry) simp
  moreover have "bytes_entry (?bs @ drop (length ?bs) (entry_bytes e)) = entry_at (fview s) ?d i" if "i < entry_cnt ?d"
    using that iff length_entry_bytes [OF e] by (simp add: entry_at_def)
  ultimately show ?thesis using b by blast
qed


lemma entry_cnt_bound: "inode_wf ok v d \<Longrightarrow> entry_cnt d \<le> 425856"
  by (simp add: inode_wf_def entry_cnt_def nat_less_iff less_Suc_eq_le [symmetric] div_less_iff_less_mult)

lemma sz_entry: "i \<le> 425857 \<Longrightarrow> sz (20 * i + 20) = 20 * Suc i"
  by (simp add: sz_def)

text \<open>The loops over the entries, from entry \<open>i\<close> on: each ends and returns what a search in the array does.\<close>

lemma entry_round:
  assumes f: "dir_file s a ino" and e: "length (de_name e) = 15" and i: "i \<le> entry_cnt (i_data ino) + 1"
  obtains e' s' where "read_entry s a e (20 * i) = Some (i < entry_cnt (i_data ino), e', s')"
    "fs_becomes s s' (fview s)" "length (de_name e') = 15" "i < entry_cnt (i_data ino) \<Longrightarrow> e' = entry_at (fview s) (i_data ino) i"
    "dir_file s' a ino" "fview s' = fview s" "sz (20 * i + 20) = 20 * Suc i"
proof -
  have "entry_cnt (i_data ino) \<le> 425856" using f by (auto simp: dir_file_def intro: entry_cnt_bound)
  with i have ib: "20 * i < 2 ^ 31 - 20" "i \<le> 425857" by auto
  from read_entry_ok [OF f e ib(1)] obtain e' s' where r: "read_entry s a e (20 * i) = Some (i < entry_cnt (i_data ino), e', s')"
    "fs_becomes s s' (fview s)" "length (de_name e') = 15" "i < entry_cnt (i_data ino) \<Longrightarrow> e' = entry_at (fview s) (i_data ino) i"
    by blast
  from that [OF r dir_file_becomes [OF r(2) f] sz_entry [OF ib(2)]] show thesis .
qed

lemma lookup_loop_ok:
  assumes "dir_file s a ino" "length (de_name e) = 15" "i \<le> entry_cnt (i_data ino) + 1" "1 \<le> i" "dir_ok (fview s) (i_data ino)"
  shows "\<exists>s'. lookup_loop a name e (20 * i) s
      = Some (map_option (\<lambda>j. (entry_at (fview s) (i_data ino) j, 20 * j)) (dir_find (fview s) (i_data ino) name i), s')
    \<and> fs_becomes s s' (fview s)"
  using assms
proof (induction "entry_cnt (i_data ino) + 1 - i" arbitrary: i e s rule: less_induct)
  case less
  let ?d = "i_data ino" and ?v = "fview s"
  from entry_round [OF less.prems(1-3)] obtain e' s1 where
    r: "read_entry s a e (20 * i) = Some (i < entry_cnt ?d, e', s1)" and b: "fs_becomes s s1 ?v" and l: "length (de_name e') = 15"
    and e': "i < entry_cnt ?d \<Longrightarrow> e' = entry_at ?v ?d i" and f: "dir_file s1 a ino" "fview s1 = ?v"
    and sz: "sz (20 * i + 20) = 20 * Suc i" by blast
  show ?case
  proof (cases "i < entry_cnt ?d")
    case False
    then show ?thesis using r b by (subst lookup_loop.simps) (simp add: dir_find_end)
  next
    case True
    let ?hit = "if de_in_use e' then do { n \<leftarrow> entry_name e'; Some (name = n) } else Some False"
    have hit: "?hit = Some (named ?v ?d name i)"
      using less.prems(4,5) True by (auto simp: dir_ok_def named_def e' [OF True])
    have run: "lookup_loop a name e (20 * i) s
      = (if named ?v ?d name i then Some (Some (e', 20 * i), s1) else lookup_loop a name e' (20 * Suc i) s1)"
      by (subst lookup_loop.simps) (simp only: r True Option.bind.bind_lunit prod.case hit sz simp_thms if_True if_False)
    show ?thesis
    proof (cases "named ?v ?d name i")
      case n: True
      then show ?thesis using run b True e' by (simp add: dir_find_step)
    next
      case n: False
      have m: "entry_cnt ?d + 1 - Suc i < entry_cnt ?d + 1 - i" using True by simp
      from less.hyps [OF m f(1) l, unfolded f(2), OF _ _ less.prems(5)] True obtain s' where
        "lookup_loop a name e' (20 * Suc i) s1
          = Some (map_option (\<lambda>j. (entry_at ?v ?d j, 20 * j)) (dir_find ?v ?d name (Suc i)), s')" "fs_becomes s1 s' ?v"
        by auto
      with run n True fs_becomes_trans [OF b] show ?thesis by (auto simp: dir_find_step)
    qed
  qed
qed


section \<open>Looking up a name\<close>

text \<open>\<open>p\<close> points to an open directory with inode \<open>ino\<close> at \<open>a\<close>.\<close>

definition open_dir :: "dirsys \<Rightarrow> nat \<Rightarrow> nat \<Rightarrow> inode \<Rightarrow> bool" where
  "open_dir st p a ino \<longleftrightarrow> (\<exists>pos. dirs st p = Some \<lparr>d_inode = a, d_pos = pos\<rparr>) \<and> (\<forall>k \<ge> next_dir st. dirs st k = None)
     \<and> length (de_name (junk st)) = 15 \<and> 0 < i_open_cnt ino
     \<and> dir_file (d_fs st) a ino \<and> dir_ok (fview (d_fs st)) (i_data ino)"

abbreviation dview :: "dirsys \<Rightarrow> sectors" where
  "dview st \<equiv> fview (d_fs st)"

lemma reopen_close:
  assumes ino: "inodes s a = Some ino" "0 < i_open_cnt ino"
    and b: "fs_becomes (s\<lparr>inodes := (inodes s)(a \<mapsto> ino\<lparr>i_open_cnt := i_open_cnt ino + 1\<rparr>)\<rparr>) s2 v"
  shows "\<exists>s3. inode_close s2 (Some a) = Some s3 \<and> fs_becomes s s3 v"
proof -
  let ?s1 = "s\<lparr>inodes := (inodes s)(a \<mapsto> ino\<lparr>i_open_cnt := i_open_cnt ino + 1\<rparr>)\<rparr>"
  note r = fs_becomes_rest [OF b]
  have i: "inodes s2 a = Some (ino\<lparr>i_open_cnt := i_open_cnt ino + 1\<rparr>)" using r(5) by simp
  have c: "inode_close s2 (Some a) = Some (s2\<lparr>inodes := (inodes s2)(a \<mapsto> ino)\<rparr>)"
    using i ino(2) by (simp add: inode_close_def Let_def)
  have "s2 = ?s1\<lparr>fs_cache := fs_cache s2\<rparr>" using b by (simp add: fs_becomes_def)
  then obtain k where k: "s2 = ?s1\<lparr>fs_cache := k\<rparr>" by blast
  have "s2\<lparr>inodes := (inodes s2)(a \<mapsto> ino)\<rparr> = s\<lparr>fs_cache := k\<rparr>"
    using ino(1) by (cases s) (simp add: k fun_upd_idem)
  then have "fs_becomes s (s2\<lparr>inodes := (inodes s2)(a \<mapsto> ino)\<rparr>) v"
    using b k by (simp add: fs_becomes_def)
  with c show ?thesis by blast
qed

lemma lookup_ok:
  assumes d: "open_dir st p a ino"
  shows "\<exists>s'. lookup st (Some p) name
      = Some (map_option (\<lambda>j. (entry_at (dview st) (i_data ino) j, 20 * j)) (dir_find (dview st) (i_data ino) name 1),
              st\<lparr>d_fs := s', next_dir := next_dir st + 1\<rparr>)
    \<and> fs_becomes (d_fs st) s' (dview st)"
proof -
  let ?ino = "ino\<lparr>i_open_cnt := i_open_cnt ino + 1\<rparr>" and ?s = "d_fs st" and ?n = "next_dir st"
  let ?s1 = "?s\<lparr>inodes := (inodes ?s)(a \<mapsto> ?ino)\<rparr>"
  obtain pos where pos: "dirs st p = Some \<lparr>d_inode = a, d_pos = pos\<rparr>" using d by (auto simp: open_dir_def)
  have o: "dir_file ?s a ino" "0 < i_open_cnt ino" "dirs st ?n = None" "length (de_name (junk st)) = 15"
    "dir_ok (fview ?s) (i_data ino)" using d by (simp_all add: open_dir_def)
  have i: "inodes ?s a = Some ino" "mem_ok ?s" using o(1) by (simp_all add: dir_file_def)
  have f1: "dir_file ?s1 a ?ino" using o(1) by (simp add: dir_file_def)
  obtain s2 where l: "lookup_loop a name (junk st) 20 ?s1
      = Some (map_option (\<lambda>j. (entry_at (fview ?s) (i_data ino) j, 20 * j)) (dir_find (fview ?s) (i_data ino) name 1), s2)"
    and b: "fs_becomes ?s1 s2 (fview ?s)"
    using lookup_loop_ok [OF f1 o(4), of 1 name] o(5) by auto
  from reopen_close [OF i(1) o(2) b] obtain s3 where c: "inode_close s2 (Some a) = Some s3" "fs_becomes ?s s3 (fview ?s)" by blast
  have re: "dir_reopen st (Some p) = Some (Some ?n, st\<lparr>d_fs := ?s1, dirs := (dirs st)(?n \<mapsto> \<lparr>d_inode = a, d_pos = 20\<rparr>), next_dir := ?n + 1\<rparr>)"
    using pos i by (simp add: dir_reopen_def the_dir_def on_fs_def inode_reopen_def upd_inode_def dir_open_def)
  have dd: "(dirs st)(?n := None) = dirs st" using o(3) by auto
  have "lookup st (Some p) name
      = Some (map_option (\<lambda>j. (entry_at (fview ?s) (i_data ino) j, 20 * j)) (dir_find (fview ?s) (i_data ino) name 1),
              st\<lparr>d_fs := s3, next_dir := ?n + 1\<rparr>)"
    using re l c(1) dd by (simp add: lookup_def the_dir_def on_fs_get_def on_fs_def dir_close_def)
  with c(2) show ?thesis by blast
qed


section \<open>The directory as a map\<close>

lemma dir_map_iff:
  assumes "dir_ok v d"
  shows "dir_map v d name = Some s \<longleftrightarrow> (\<exists>i. 1 \<le> i \<and> i < entry_cnt d \<and> named v d name i \<and> s = de_inode_sector (entry_at v d i))"
proof
  assume "dir_map v d name = Some s"
  then obtain i where "dir_find v d name 1 = Some i" "s = de_inode_sector (entry_at v d i)" by (auto simp: dir_map_def)
  with dir_find_Some [of v d name 1 i] show "\<exists>i. 1 \<le> i \<and> i < entry_cnt d \<and> named v d name i \<and> s = de_inode_sector (entry_at v d i)"
    by blast
next
  assume "\<exists>i. 1 \<le> i \<and> i < entry_cnt d \<and> named v d name i \<and> s = de_inode_sector (entry_at v d i)"
  then obtain i where i: "1 \<le> i" "i < entry_cnt d" "named v d name i" "s = de_inode_sector (entry_at v d i)" by blast
  then obtain j where j: "dir_find v d name 1 = Some j" using dir_find_None [of v d name 1] by (cases "dir_find v d name 1") auto
  with dir_find_Some [OF j] i assms have "i = j" unfolding dir_ok_def by blast
  with i j show "dir_map v d name = Some s" by (simp add: dir_map_def)
qed

lemma dir_map_None: "dir_map v d name = None \<longleftrightarrow> (\<forall>i. 1 \<le> i \<and> i < entry_cnt d \<longrightarrow> \<not> named v d name i)"
  by (simp add: dir_map_def dir_find_None)

lemma map_eqI:
  fixes f g :: "'a \<rightharpoonup> 'b"
  assumes "\<And>x y. f x = Some y \<longleftrightarrow> g x = Some y"
  shows "f = g"
  using assms by (metis ext not_Some_eq)

text \<open>\<open>set_entry v v' d j e\<close>: entry \<open>j\<close> has become \<open>e\<close> and the others are as before.\<close>

definition set_entry :: "sectors \<Rightarrow> sectors \<Rightarrow> inode_disk \<Rightarrow> nat \<Rightarrow> dir_entry \<Rightarrow> bool" where
  "set_entry v v' d j e \<longleftrightarrow> 1 \<le> j \<and> j < entry_cnt d \<and> (\<forall>i < entry_cnt d. entry_at v' d i = (if i = j then e else entry_at v d i))"

lemma set_entry_named:
  assumes "set_entry v v' d j e" "i < entry_cnt d"
  shows "named v' d name i \<longleftrightarrow> (if i = j then de_in_use e \<and> entry_name e = Some name else named v d name i)"
  using assms by (simp add: set_entry_def named_def)

lemma set_entry_sector:
  assumes "set_entry v v' d j e" "i < entry_cnt d"
  shows "de_inode_sector (entry_at v' d i) = (if i = j then de_inode_sector e else de_inode_sector (entry_at v d i))"
  using assms by (simp add: set_entry_def)

lemma set_entry_map:
  assumes s: "set_entry v v' d j e" and ok: "dir_ok v' d"
  shows "dir_map v' d n = Some t \<longleftrightarrow> de_in_use e \<and> entry_name e = Some n \<and> t = de_inode_sector e
    \<or> (\<exists>i. 1 \<le> i \<and> i < entry_cnt d \<and> i \<noteq> j \<and> named v d n i \<and> t = de_inode_sector (entry_at v d i))" (is "_ \<longleftrightarrow> ?R")
proof -
  have j: "1 \<le> j" "j < entry_cnt d" using s by (simp_all add: set_entry_def)
  have r: "?R" if "1 \<le> i" "i < entry_cnt d" "named v' d n i" "t = de_inode_sector (entry_at v' d i)" for i
    using that set_entry_named [OF s that(2)] set_entry_sector [OF s that(2)] by (cases "i = j") auto
  have l: "\<exists>i. 1 \<le> i \<and> i < entry_cnt d \<and> named v' d n i \<and> t = de_inode_sector (entry_at v' d i)"
    if "i < entry_cnt d" "1 \<le> i" "if i = j then de_in_use e \<and> entry_name e = Some n \<and> t = de_inode_sector e
      else named v d n i \<and> t = de_inode_sector (entry_at v d i)" for i
    using that set_entry_named [OF s that(1)] set_entry_sector [OF s that(1)] by (intro exI [of _ i]) (auto split: if_splits)
  show ?thesis unfolding dir_map_iff [OF ok]
  proof
    assume "\<exists>i. 1 \<le> i \<and> i < entry_cnt d \<and> named v' d n i \<and> t = de_inode_sector (entry_at v' d i)"
    then show ?R using r by blast
  next
    assume ?R
    then show "\<exists>i. 1 \<le> i \<and> i < entry_cnt d \<and> named v' d n i \<and> t = de_inode_sector (entry_at v' d i)"
    proof
      assume "de_in_use e \<and> entry_name e = Some n \<and> t = de_inode_sector e"
      then show ?thesis using l [OF j(2,1)] by simp
    next
      assume "\<exists>i. 1 \<le> i \<and> i < entry_cnt d \<and> i \<noteq> j \<and> named v d n i \<and> t = de_inode_sector (entry_at v d i)"
      then obtain i where "1 \<le> i" "i < entry_cnt d" "i \<noteq> j" "named v d n i" "t = de_inode_sector (entry_at v d i)" by blast
      then show ?thesis using l [of i] by simp
    qed
  qed
qed

lemma set_entry_insert:
  assumes s: "set_entry v v' d j e" and ok: "dir_ok v d" and free: "\<not> de_in_use (entry_at v d j)"
    and e: "de_in_use e" "entry_name e = Some name" and new: "dir_map v d name = None"
  shows "dir_ok v' d" and "dir_map v' d = (dir_map v d)(name \<mapsto> de_inode_sector e)"
proof -
  have j: "1 \<le> j" "j < entry_cnt d" using s by (simp_all add: set_entry_def)
  have nj: "\<not> named v d n j" for n using free by (simp add: named_def)
  have none: "\<not> named v d name i" if "1 \<le> i" "i < entry_cnt d" for i using new that by (simp add: dir_map_None)
  note named = set_entry_named [OF s]
  show ok': "dir_ok v' d"
    unfolding dir_ok_def
  proof (intro conjI allI impI)
    fix i
    assume "1 \<le> i \<and> i < entry_cnt d \<and> de_in_use (entry_at v' d i)"
    with s ok e show "entry_name (entry_at v' d i) \<noteq> None" by (auto simp: set_entry_def dir_ok_def split: if_splits)
  next
    fix i k n
    assume a: "1 \<le> i \<and> i < entry_cnt d \<and> 1 \<le> k \<and> k < entry_cnt d \<and> named v' d n i \<and> named v' d n k"
    then have "i \<noteq> j \<Longrightarrow> k \<noteq> j \<Longrightarrow> i = k" using ok named unfolding dir_ok_def by metis
    moreover have "i = j \<Longrightarrow> k = j" "k = j \<Longrightarrow> i = j" using a e named none by (auto split: if_splits)
    ultimately show "i = k" by blast
  qed
  show "dir_map v' d = (dir_map v d)(name \<mapsto> de_inode_sector e)"
  proof (rule map_eqI)
    fix n t
    show "dir_map v' d n = Some t \<longleftrightarrow> ((dir_map v d)(name \<mapsto> de_inode_sector e)) n = Some t"
    proof (cases "n = name")
      case True
      then show ?thesis unfolding set_entry_map [OF s ok'] using e none by auto
    next
      case False
      then show ?thesis unfolding set_entry_map [OF s ok'] using e nj dir_map_iff [OF ok, of n t] by auto
    qed
  qed
qed

lemma set_entry_delete:
  assumes s: "set_entry v v' d j e" and ok: "dir_ok v d" and old: "named v d name j" and e: "\<not> de_in_use e"
  shows "dir_ok v' d" and "dir_map v' d = (dir_map v d)(name := None)"
proof -
  have j: "1 \<le> j" "j < entry_cnt d" using s by (simp_all add: set_entry_def)
  have only: "named v d name i \<Longrightarrow> 1 \<le> i \<Longrightarrow> i < entry_cnt d \<Longrightarrow> i = j" for i using ok old j unfolding dir_ok_def by blast
  have other: "named v d n j \<Longrightarrow> n = name" for n using old by (simp add: named_def)
  note named = set_entry_named [OF s]
  show ok': "dir_ok v' d"
    unfolding dir_ok_def
  proof (intro conjI allI impI)
    fix i
    assume "1 \<le> i \<and> i < entry_cnt d \<and> de_in_use (entry_at v' d i)"
    with s ok e show "entry_name (entry_at v' d i) \<noteq> None" by (auto simp: set_entry_def dir_ok_def split: if_splits)
  next
    fix i k n
    assume a: "1 \<le> i \<and> i < entry_cnt d \<and> 1 \<le> k \<and> k < entry_cnt d \<and> named v' d n i \<and> named v' d n k"
    then have "named v d n i" "named v d n k" using named e by (auto split: if_splits)
    with a ok show "i = k" unfolding dir_ok_def by blast
  qed
  show "dir_map v' d = (dir_map v d)(name := None)"
  proof (rule map_eqI)
    fix n t
    show "dir_map v' d n = Some t \<longleftrightarrow> ((dir_map v d)(name := None)) n = Some t"
    proof (cases "n = name")
      case True
      then show ?thesis unfolding set_entry_map [OF s ok'] using e only by auto
    next
      case False
      then show ?thesis unfolding set_entry_map [OF s ok'] using e other dir_map_iff [OF ok, of n t] by auto
    qed
  qed
qed

text \<open>Writing the 20 bytes of an entry in place.\<close>

lemma wrote_entry:
  assumes w: "wrote v v' d (20 * j) (entry_bytes e) 20" and j: "1 \<le> j" "j < entry_cnt d" and e: "length (de_name e) = 15"
  shows "set_entry v v' d j e"
proof -
  have L: "20 * i + 20 \<le> nat (id_length d)" if "i < entry_cnt d" for i
    using that by (simp add: entry_cnt_def)
  have "entry_at v' d i = (if i = j then e else entry_at v d i)" if i: "i < entry_cnt d" for i
  proof (cases "i = j")
    case True
    have "map (fbyte v' d) [20 * j..<20 * j + 20] = entry_bytes e"
      by (rule nth_equalityI) (use w L [OF j(2)] length_entry_bytes [OF e] in \<open>auto simp: wrote_def\<close>)
    with True bytes_entry_bytes [OF e] show ?thesis by (simp add: entry_at_def)
  next
    case False
    have "map (fbyte v' d) [20 * i..<20 * i + 20] = map (fbyte v d) [20 * i..<20 * i + 20]"
    proof (rule map_cong [OF refl])
      fix r
      assume "r \<in> set [20 * i..<20 * i + 20]"
      then have r: "20 * i \<le> r" "r < 20 * i + 20" by simp_all
      have "\<not> (20 * j \<le> r \<and> r < 20 * j + 20)" using r False by linarith
      then show "fbyte v' d r = fbyte v d r" using w L [OF i] r unfolding wrote_def by auto
    qed
    then have "entry_at v' d i = entry_at v d i" unfolding entry_at_def by (rule arg_cong)
    with False show ?thesis by simp
  qed
  with j show ?thesis by (simp add: set_entry_def)
qed


section \<open>Adding and removing an entry\<close>

lemma slot_loop_ok:
  assumes "dir_file s a ino" "length (de_name e) = 15" "i \<le> entry_cnt (i_data ino) + 1" "1 \<le> i"
  shows "\<exists>e' j s'. slot_loop a e (20 * i) s = Some (e', 20 * j, s') \<and> fs_becomes s s' (fview s) \<and> length (de_name e') = 15
    \<and> i \<le> j \<and> j \<le> entry_cnt (i_data ino) + 1 \<and> (j < entry_cnt (i_data ino) \<longrightarrow> \<not> de_in_use (entry_at (fview s) (i_data ino) j))
    \<and> (\<forall>k. i \<le> k \<and> k < j \<longrightarrow> k < entry_cnt (i_data ino) \<and> de_in_use (entry_at (fview s) (i_data ino) k))"
  using assms
proof (induction "entry_cnt (i_data ino) + 1 - i" arbitrary: i e s rule: less_induct)
  case less
  let ?d = "i_data ino" and ?v = "fview s"
  from entry_round [OF less.prems(1-3)] obtain e' s1 where
    r: "read_entry s a e (20 * i) = Some (i < entry_cnt ?d, e', s1)" and b: "fs_becomes s s1 ?v" and l: "length (de_name e') = 15"
    and e': "i < entry_cnt ?d \<Longrightarrow> e' = entry_at ?v ?d i" and f: "dir_file s1 a ino" "fview s1 = ?v"
    and sz: "sz (20 * i + 20) = 20 * Suc i" by blast
  have run: "slot_loop a e (20 * i) s
      = (if \<not> i < entry_cnt ?d \<or> \<not> de_in_use e' then Some (e', 20 * i, s1) else slot_loop a e' (20 * Suc i) s1)"
    by (subst slot_loop.simps) (simp only: r Option.bind.bind_lunit prod.case sz)
  show ?case
  proof (cases "\<not> i < entry_cnt ?d \<or> \<not> de_in_use e'")
    case True
    with run b l e' less.prems show ?thesis
      by (intro exI [of _ e'] exI [of _ i] exI [of _ s1]) auto
  next
    case False
    then have m: "entry_cnt ?d + 1 - Suc i < entry_cnt ?d + 1 - i" and i: "Suc i \<le> entry_cnt ?d + 1" "1 \<le> Suc i"
      and u: "i < entry_cnt ?d" "de_in_use (entry_at ?v ?d i)" using e' by auto
    from less.hyps [OF m f(1) l i, unfolded f(2)] obtain e2 j s' where
      IH: "slot_loop a e' (20 * Suc i) s1 = Some (e2, 20 * j, s')" "fs_becomes s1 s' ?v" "length (de_name e2) = 15" "Suc i \<le> j"
      "j \<le> entry_cnt ?d + 1" "j < entry_cnt ?d \<longrightarrow> \<not> de_in_use (entry_at ?v ?d j)"
      "\<forall>k. Suc i \<le> k \<and> k < j \<longrightarrow> k < entry_cnt ?d \<and> de_in_use (entry_at ?v ?d k)" by blast
    have "k < entry_cnt ?d \<and> de_in_use (entry_at ?v ?d k)" if "i \<le> k" "k < j" for k
      using IH(7) u that by (cases "k = i") auto
    with IH run False fs_becomes_trans [OF b IH(2)] show ?thesis
      by (intro exI [of _ e2] exI [of _ j] exI [of _ s']) auto
  qed
qed

text \<open>The open inodes: every listed address holds an inode, and the next address is free.\<close>

definition heap_ok :: "fs \<Rightarrow> bool" where
  "heap_ok s \<longleftrightarrow> (\<forall>a \<in> set (open_inodes s). \<exists>ino. inodes s a = Some ino \<and> 0 < i_open_cnt ino) \<and> inodes s (next_addr s) = None"

lemma find_open_ok:
  assumes "\<forall>a \<in> set as. inodes s a \<noteq> None"
  shows "\<exists>r. find_open s as sector = Some r \<and> (\<forall>a. r = Some a \<longrightarrow> a \<in> set as \<and> (\<exists>ino. inodes s a = Some ino \<and> i_sector ino = sector))"
  using assms by (induction as) auto

text \<open>Opening an inode changes no sector and no data of an inode that is in memory.\<close>

lemma inode_open_ok:
  assumes s: "fs_ok s" "mem_ok s" "fvalid s sector" and h: "heap_ok s"
  shows "\<exists>a s'. inode_open s sector = Some (Some a, s') \<and> fview s' = fview s \<and> fvalid s' = fvalid s \<and> fs_ok s' \<and> mem_ok s'
    \<and> (\<forall>b ino. inodes s b = Some ino \<longrightarrow> (\<exists>n \<ge> i_open_cnt ino. inodes s' b = Some (ino\<lparr>i_open_cnt := n\<rparr>)))"
proof -
  have "\<forall>a \<in> set (open_inodes s). inodes s a \<noteq> None" using h by (auto simp: heap_ok_def)
  from find_open_ok [OF this, of sector] obtain r where r: "find_open s (open_inodes s) sector = Some r"
    "\<And>a. r = Some a \<Longrightarrow> \<exists>ino. inodes s a = Some ino" by blast
  show ?thesis
  proof (cases r)
    case (Some a)
    then obtain ino where a: "inodes s a = Some ino" using r(2) by blast
    let ?s = "s\<lparr>inodes := (inodes s)(a \<mapsto> ino\<lparr>i_open_cnt := i_open_cnt ino + 1\<rparr>)\<rparr>"
    have o: "inode_open s sector = Some (Some a, ?s)"
      using r(1) Some a by (simp add: inode_open_def inode_reopen_def upd_inode_def)
    have "\<exists>n \<ge> i_open_cnt i. inodes ?s b = Some (i\<lparr>i_open_cnt := n\<rparr>)" if "inodes s b = Some i" for b i
      using that a by (cases "b = a") (auto intro: exI [of _ "i_open_cnt i + 1"] exI [of _ "i_open_cnt i"])
    with o s show ?thesis by (intro exI [of _ a] exI [of _ ?s]) simp
  next
    case None
    from fs_read_ok [OF s(1,3)] obtain s1 where rd: "fs_read s sector = Some (fview s sector, s1)" "fs_becomes s s1 (fview s)" by blast
    note b = fs_becomes_rest [OF rd(2)]
    let ?n = "next_addr s"
    let ?s = "s1\<lparr>next_addr := ?n + 1, open_inodes := ?n # open_inodes s1, inodes := (inodes s1)(?n \<mapsto> \<lparr>i_sector = sector, i_open_cnt = 1,
      i_removed = False, i_deny_write_cnt = 0, i_data = bytes_inode (fview s sector), i_parent = None\<rparr>)\<rparr>"
    have o: "inode_open s sector = Some (Some ?n, ?s)" using r(1) None rd(1) s(2) by (simp add: inode_open_def Let_def)
    have "\<exists>n \<ge> i_open_cnt i. inodes ?s k = Some (i\<lparr>i_open_cnt := n\<rparr>)" if "inodes s k = Some i" for k i
      using that h b(5) by (intro exI [of _ "i_open_cnt i"]) (auto simp: heap_ok_def)
    with o s b(1,2,4) b(3) show ?thesis by (intro exI [of _ ?n] exI [of _ ?s]) simp
  qed
qed


lemma entry_name_set_name:
  assumes "length (de_name e) = 15" "length name \<le> 14" "0 \<notin> set name"
  shows "\<exists>e'. set_name name e = Some e' \<and> length (de_name e') = 15 \<and> entry_name e' = Some name
    \<and> de_in_use e' = de_in_use e \<and> de_inode_sector e' = de_inode_sector e"
proof -
  let ?e = "e\<lparr>de_name := name @ [0] @ drop (length name + 1) (de_name e)\<rparr>"
  have "takeWhile (\<lambda>c. c \<noteq> 0) (name @ [0] @ drop (length name + 1) (de_name e)) = name"
    using assms(3) by (subst takeWhile_append2) auto
  then have "entry_name ?e = Some name" using assms(1,2) by (simp add: entry_name_def Let_def)
  with assms show ?thesis by (intro exI [of _ ?e]) (simp add: set_name_def)
qed

text \<open>Writing an entry in place, on the state of the directory system.\<close>

lemma write_entry_ok:
  assumes d: "open_dir st p a ino" and w: "i_deny_write_cnt ino = 0" and j: "1 \<le> j" "j < entry_cnt (i_data ino)"
    and e: "length (de_name e) = 15"
  shows "\<exists>s'. inode_write_at (d_fs st) a (entry_bytes e) 20 (i32 (int (20 * j))) = Some (20, s')
    \<and> fs_becomes (d_fs st) s' (fview s') \<and> set_entry (dview st) (fview s') (i_data ino) j e \<and> dir_file s' a ino
    \<and> (\<forall>t. t \<notin> data_blocks (dview st) (i_data ino) \<longrightarrow> fview s' t = dview st t)"
proof -
  let ?s = "d_fs st" and ?d = "i_data ino" and ?o = "int (20 * j)"
  have f: "fs_ok ?s" "mem_ok ?s" "inodes ?s a = Some ino" "inode_wf (fvalid ?s) (fview ?s) ?d"
    using d by (simp_all add: open_dir_def dir_file_def)
  have L: "0 \<le> id_length ?d" using f(4) by (simp add: inode_wf_def)
  have "20 * j + 20 \<le> nat (id_length ?d)" using j(2) by (simp add: entry_cnt_def)
  then have r: "?o + 20 \<le> inode_length ino" using L by (simp add: inode_length_def)
  have "j < 425856" using j(2) entry_cnt_bound [OF f(4)] by simp
  then have i: "i32 ?o = ?o" "0 \<le> ?o" by (auto intro!: i32_id)
  from inode_write_gen_inside [OF f(1-3) w f(4) i(2) _ r, of "entry_bytes e" free_map_allocate] length_entry_bytes [OF e]
  obtain s' v where wr: "inode_write_at ?s a (entry_bytes e) 20 ?o = Some (20, s')" "fs_becomes ?s s' v"
    "wrote (fview ?s) v ?d (20 * j) (entry_bytes e) 20" by (auto simp: inode_write_at_def nat_mult_distrib)
  note b = fs_becomes_rest [OF wr(2)]
  have out: "\<forall>t. t \<notin> data_blocks (fview ?s) ?d \<longrightarrow> v t = fview ?s t" using wr(3) by (simp add: wrote_def)
  have "dir_file s' a ino" using b(1,4,5) f(2,3) same_map(4) [OF f(4) out] unfolding dir_file_def b(2,3) by simp
  moreover have "set_entry (fview ?s) (fview s') ?d j e" unfolding b(3) by (rule wrote_entry [OF wr(3) j e])
  moreover have "\<forall>t. t \<notin> data_blocks (fview ?s) ?d \<longrightarrow> fview s' t = fview ?s t" unfolding b(3) by (rule out)
  moreover have "fs_becomes ?s s' (fview s')" using wr(2) unfolding b(3) .
  ultimately show ?thesis using wr(1) unfolding i(1) by blast
qed

lemma heap_ok_becomes: "fs_becomes s s' v \<Longrightarrow> heap_ok s \<Longrightarrow> heap_ok s'"
  using fs_becomes_rest [of s s' v] by (simp add: heap_ok_def)

lemma dir_find_map: "dir_find v d name 1 = None \<longleftrightarrow> dir_map v d name = None"
  by (simp add: dir_map_def)

lemma lookup_open_dir:
  assumes d: "open_dir st p a ino" and find: "dir_find (dview st) (i_data ino) name 1 = r"
  obtains s' st' where "lookup st (Some p) name = Some (map_option (\<lambda>j. (entry_at (dview st) (i_data ino) j, 20 * j)) r, st')"
    "st' = st\<lparr>d_fs := s', next_dir := next_dir st + 1\<rparr>" "fs_becomes (d_fs st) s' (dview st)" "open_dir st' p a ino" "fview s' = dview st"
proof -
  from lookup_ok [OF d, of name] obtain s' where l: "lookup st (Some p) name
      = Some (map_option (\<lambda>j. (entry_at (dview st) (i_data ino) j, 20 * j)) (dir_find (dview st) (i_data ino) name 1),
              st\<lparr>d_fs := s', next_dir := next_dir st + 1\<rparr>)" "fs_becomes (d_fs st) s' (dview st)" by blast
  have f: "dir_file (d_fs st) a ino" using d by (simp add: open_dir_def)
  note f' = dir_file_becomes [OF l(2) f]
  have "open_dir (st\<lparr>d_fs := s', next_dir := next_dir st + 1\<rparr>) p a ino"
    using d f'(1) unfolding open_dir_def by (simp add: f'(2))
  from that [OF l(1) [unfolded find] refl l(2) this f'(2)] show thesis .
qed


lemma free_slot:
  assumes "\<forall>k. i \<le> k \<and> k < j \<longrightarrow> k < n \<and> u k" "i \<le> k0" "k0 < n" "\<not> u k0"
  shows "j < (n :: nat)"
  using assms by (metis leI le_less_trans)

lemma dir_add_entry_ok:
  assumes d: "open_dir st p a ino" and w: "i_deny_write_cnt ino = 0" and h: "heap_ok (d_fs st)" "fvalid (d_fs st) sector"
    and k: "1 \<le> k" "k < entry_cnt (i_data ino)" "\<not> de_in_use (entry_at (dview st) (i_data ino) k)"
    and n: "length name \<le> 14" "0 \<notin> set name" "name \<noteq> [46]" "name \<noteq> [46, 46]" and new: "dir_map (dview st) (i_data ino) name = None"
  shows "\<exists>st' n. dir_add_entry st (Some p) name sector False = Some (True, st') \<and> open_dir st' p a (ino\<lparr>i_open_cnt := n\<rparr>)
    \<and> dir_map (dview st') (i_data ino) = (dir_map (dview st) (i_data ino))(name \<mapsto> sector)
    \<and> (\<forall>t. t \<notin> data_blocks (dview st) (i_data ino) \<longrightarrow> dview st' t = dview st t)"
proof -
  let ?d = "i_data ino" and ?v = "dview st"
  \<comment> \<open>the name is new\<close>
  have f0: "dir_find ?v ?d name 1 = None" using new dir_find_map [of ?v ?d name] by simp
  obtain s1 st1 where l1: "lookup st (Some p) name = Some (None, st1)" and st1: "st1 = st\<lparr>d_fs := s1, next_dir := next_dir st + 1\<rparr>"
    and b1: "fs_becomes (d_fs st) s1 ?v" and d1: "open_dir st1 p a ino" and v1: "fview s1 = ?v"
    by (rule lookup_open_dir [OF d f0, unfolded option.map])
  obtain pos where pos: "dirs st1 p = Some \<lparr>d_inode = a, d_pos = pos\<rparr>" using d1 by (auto simp: open_dir_def)
  have f1: "dir_file s1 a ino" "length (de_name (junk st1)) = 15" "dir_ok ?v ?d" using d1 d by (simp_all add: open_dir_def st1)
  \<comment> \<open>a free slot\<close>
  from slot_loop_ok [OF f1(1,2), of 1] obtain e j s2 where
    sl: "slot_loop a (junk st1) 20 s1 = Some (e, 20 * j, s2)" "fs_becomes s1 s2 ?v" "length (de_name e) = 15" "1 \<le> j"
    "j < entry_cnt ?d \<longrightarrow> \<not> de_in_use (entry_at ?v ?d j)"
    "\<forall>k. 1 \<le> k \<and> k < j \<longrightarrow> k < entry_cnt ?d \<and> de_in_use (entry_at ?v ?d k)" by (auto simp: v1)
  have j: "j < entry_cnt ?d" by (rule free_slot [OF sl(6) k])
  have b2: "fs_becomes s1 s2 (fview s1)" using sl(2) by (simp add: v1)
  let ?st2 = "st1\<lparr>d_fs := s2\<rparr>"
  note f2 = dir_file_becomes [OF b2 f1(1)]
  have d2: "open_dir ?st2 p a ino" using d1 f2 f1(3) unfolding open_dir_def by (simp add: v1)
  have v2: "dview ?st2 = ?v" using f2(2) v1 by simp
  \<comment> \<open>the new entry\<close>
  from entry_name_set_name [of "e\<lparr>de_in_use := True\<rparr>" name] sl(3) n obtain e1 where e1: "set_name name (e\<lparr>de_in_use := True\<rparr>) = Some e1"
    "length (de_name e1) = 15" "entry_name e1 = Some name" "de_in_use e1" by auto
  let ?e = "e1\<lparr>de_inode_sector := sector\<rparr>"
  have e: "length (de_name ?e) = 15" "entry_name ?e = Some name" "de_in_use ?e" using e1(2-4) by (simp_all add: entry_name_def)
  from write_entry_ok [OF d2 w sl(4) j e(1)] obtain s3 where
    w3: "inode_write_at s2 a (entry_bytes ?e) 20 (i32 (int (20 * j))) = Some (20, s3)" "fs_becomes s2 s3 (fview s3)"
    "set_entry ?v (fview s3) ?d j ?e" "dir_file s3 a ino" "\<forall>t. t \<notin> data_blocks ?v ?d \<longrightarrow> fview s3 t = ?v t"
    unfolding v2 by auto
  have free: "\<not> de_in_use (entry_at ?v ?d j)" using sl(5) j by simp
  note ins = set_entry_insert [OF w3(3) f1(3) free e(3,2) new]
  let ?st3 = "?st2\<lparr>d_fs := s3\<rparr>"
  have d3: "open_dir ?st3 p a ino" using d2 w3(4) ins(1) unfolding open_dir_def by simp
  \<comment> \<open>the look at what was written\<close>
  have find3: "dir_find (fview s3) ?d name 1 \<noteq> None" using dir_find_map [of "fview s3" ?d name] ins(2) by simp
  then obtain i where i: "dir_find (fview s3) ?d name 1 = Some i" by blast
  then have sec: "de_inode_sector (entry_at (fview s3) ?d i) = sector" using ins(2) by (auto simp: dir_map_def fun_eq_iff split: if_splits)
  have i3: "dir_find (dview ?st3) ?d name 1 = Some i" using i by simp
  obtain s4 st4 where l4': "lookup ?st3 (Some p) name = Some (Some (entry_at (dview ?st3) ?d i, 20 * i), st4)"
    and st4: "st4 = ?st3\<lparr>d_fs := s4, next_dir := next_dir ?st3 + 1\<rparr>"
    and b4': "fs_becomes (d_fs ?st3) s4 (dview ?st3)" and d4: "open_dir st4 p a ino" and v4': "fview s4 = dview ?st3"
    by (rule lookup_open_dir [OF d3 i3, unfolded option.map])
  have l4: "lookup ?st3 (Some p) name = Some (Some (entry_at (fview s3) ?d i, 20 * i), st4)"
    and b4: "fs_becomes s3 s4 (fview s3)" and v4: "fview s4 = fview s3" using l4' b4' v4' by simp_all
  have all: "fs_becomes (d_fs st) s4 (fview s3)"
    by (rule fs_becomes_trans [OF fs_becomes_trans [OF fs_becomes_trans [OF b1 sl(2)] w3(2)] b4])
  have h4: "fs_ok s4" "mem_ok s4" "fvalid s4 sector" "heap_ok s4"
    using fs_becomes_rest [OF all] h heap_ok_becomes [OF all] d by (auto simp: open_dir_def dir_file_def)
  from inode_open_ok [OF h4] obtain c s5 where o5: "inode_open s4 sector = Some (Some c, s5)" "fview s5 = fview s4"
    "fvalid s5 = fvalid s4" "fs_ok s5" "mem_ok s5"
    "\<And>b i. inodes s4 b = Some i \<Longrightarrow> \<exists>n \<ge> i_open_cnt i. inodes s5 b = Some (i\<lparr>i_open_cnt := n\<rparr>)" by blast
  have f4: "dir_file s4 a ino" "0 < i_open_cnt ino" using d4 by (simp_all add: open_dir_def st4)
  then obtain n where ni: "n \<ge> i_open_cnt ino" "inodes s5 a = Some (ino\<lparr>i_open_cnt := n\<rparr>)" using o5(6) [of a ino] by (auto simp: dir_file_def)
  have f5: "dir_file s5 a (ino\<lparr>i_open_cnt := n\<rparr>)" using f4(1) o5(2-5) ni(2) by (simp add: dir_file_def)
  let ?st5 = "st4\<lparr>d_fs := s5\<rparr>"
  have "open_dir ?st5 p a (ino\<lparr>i_open_cnt := n\<rparr>)" using d4 f5 f4(2) ni(1) o5(2) unfolding open_dir_def by (simp add: st4)
  moreover have "dir_add_entry st (Some p) name sector False = Some (True, ?st5)"
    using l1 pos sl(1) e1(1) w3(1) l4 o5(1) n(3,4) sec
    by (simp add: dir_add_entry_def the_dir_def st1 on_fs_get_def present_dir_lookup_def st4)
  moreover have "dview ?st5 = fview s3" using o5(2) v4 by simp
  ultimately show ?thesis using ins(2) w3(5) by (intro exI [of _ ?st5] exI [of _ n]) simp
qed


lemma inode_open_again:
  assumes h: "heap_ok s" and b: "b \<in> set (open_inodes s)" "inodes s b = Some bi" "i_sector bi = sector"
  shows "\<exists>c ci. c \<in> set (open_inodes s) \<and> inodes s c = Some ci \<and> i_sector ci = sector \<and> 0 < i_open_cnt ci
    \<and> inode_open s sector = Some (Some c, s\<lparr>inodes := (inodes s)(c \<mapsto> ci\<lparr>i_open_cnt := i_open_cnt ci + 1\<rparr>)\<rparr>)"
proof -
  have all: "\<forall>a \<in> set (open_inodes s). inodes s a \<noteq> None" using h by (auto simp: heap_ok_def)
  have "find_open s as sector \<noteq> Some None" if "\<forall>a \<in> set as. inodes s a \<noteq> None" "b \<in> set as" for as
    using that b(2,3) by (induction as) (auto split: if_splits)
  with all b(1) have "find_open s (open_inodes s) sector \<noteq> Some None" by blast
  with find_open_ok [OF all, of sector] obtain c ci where c: "find_open s (open_inodes s) sector = Some (Some c)"
    "c \<in> set (open_inodes s)" "inodes s c = Some ci" "i_sector ci = sector" by (metis not_Some_eq)
  with h have "0 < i_open_cnt ci" by (force simp: heap_ok_def)
  with c show ?thesis by (intro exI [of _ c] exI [of _ ci]) (simp add: inode_open_def inode_reopen_def upd_inode_def)
qed

lemma inode_remove_close:
  assumes c: "inodes s c = Some (ci\<lparr>i_open_cnt := i_open_cnt ci + 1\<rparr>)" and n: "0 < i_open_cnt ci"
  shows "Option.bind (inode_remove s c) (\<lambda>s. inode_close s (Some c)) = Some (s\<lparr>inodes := (inodes s)(c \<mapsto> ci\<lparr>i_removed := True\<rparr>)\<rparr>)"
proof -
  have "ci\<lparr>i_open_cnt := i_open_cnt ci + 1, i_removed := True\<rparr>\<lparr>i_open_cnt := i_open_cnt ci\<rparr> = ci\<lparr>i_removed := True\<rparr>" by (cases ci) simp
  with c n show ?thesis by (simp add: inode_remove_def upd_inode_def inode_close_def Let_def)
qed

lemma dir_remove_ok:
  assumes d: "open_dir st p a ino" and w: "i_deny_write_cnt ino = 0" and h: "heap_ok (d_fs st)"
    and name: "dir_map (dview st) (i_data ino) name = Some sector" "exec_name st \<noteq> dir_rm_parent"
    and b: "b \<in> set (open_inodes (d_fs st))" "inodes (d_fs st) b = Some bi" "i_sector bi = sector" "i_sector ino \<noteq> sector"
  shows "\<exists>st' c ci. dir_remove st (Some p) name = Some (True, st') \<and> open_dir st' p a ino
    \<and> dir_map (dview st') (i_data ino) = (dir_map (dview st) (i_data ino))(name := None)
    \<and> inodes (d_fs st) c = Some ci \<and> i_sector ci = sector \<and> inodes (d_fs st') = (inodes (d_fs st))(c \<mapsto> ci\<lparr>i_removed := True\<rparr>)
    \<and> free_map (d_fs st') = free_map (d_fs st)"
proof -
  let ?d = "i_data ino" and ?v = "dview st"
  obtain j where f0: "dir_find ?v ?d name 1 = Some j" and sec: "de_inode_sector (entry_at ?v ?d j) = sector"
    using name(1) by (auto simp: dir_map_def)
  have j: "1 \<le> j" "j < entry_cnt ?d" "named ?v ?d name j" using dir_find_Some [OF f0] by simp_all
  let ?e = "(entry_at ?v ?d j)\<lparr>de_in_use := False\<rparr>"
  obtain s1 st1 where l1: "lookup st (Some p) name = Some (Some (entry_at ?v ?d j, 20 * j), st1)"
    and st1: "st1 = st\<lparr>d_fs := s1, next_dir := next_dir st + 1\<rparr>" and b1: "fs_becomes (d_fs st) s1 ?v"
    and d1: "open_dir st1 p a ino" and v1: "fview s1 = ?v"
    by (rule lookup_open_dir [OF d f0, unfolded option.map])
  note r1 = fs_becomes_rest [OF b1]
  obtain pos where pos: "dirs st1 p = Some \<lparr>d_inode = a, d_pos = pos\<rparr>" using d1 by (auto simp: open_dir_def)
  have b': "b \<in> set (open_inodes s1)" "inodes s1 b = Some bi" using b r1 by simp_all
  from inode_open_again [OF heap_ok_becomes [OF b1 h] b' b(3)] obtain c ci where
    c: "inodes s1 c = Some ci" "i_sector ci = sector" "0 < i_open_cnt ci"
    and o2: "inode_open s1 sector = Some (Some c, s1\<lparr>inodes := (inodes s1)(c \<mapsto> ci\<lparr>i_open_cnt := i_open_cnt ci + 1\<rparr>)\<rparr>)" by blast
  let ?s2 = "s1\<lparr>inodes := (inodes s1)(c \<mapsto> ci\<lparr>i_open_cnt := i_open_cnt ci + 1\<rparr>)\<rparr>"
  have ca: "c \<noteq> a" using c b(4) d1 by (auto simp: open_dir_def dir_file_def st1)
  let ?st2 = "st1\<lparr>d_fs := ?s2\<rparr>"
  have d2: "open_dir ?st2 p a ino" using d1 ca by (simp add: open_dir_def dir_file_def st1)
  have e: "length (de_name ?e) = 15" by (simp add: length_entry_at)
  from write_entry_ok [OF d2 w j(1,2) e] obtain s3 where
    w3: "inode_write_at ?s2 a (entry_bytes ?e) 20 (i32 (int (20 * j))) = Some (20, s3)" "fs_becomes ?s2 s3 (fview s3)"
    "set_entry ?v (fview s3) ?d j ?e" "dir_file s3 a ino" using v1 by auto
  note r3 = fs_becomes_rest [OF w3(2)]
  have ok: "dir_ok ?v ?d" using d by (simp add: open_dir_def)
  note del = set_entry_delete [OF w3(3) ok j(3)]
  have c3: "inodes s3 c = Some (ci\<lparr>i_open_cnt := i_open_cnt ci + 1\<rparr>)" using r3(5) by simp
  let ?s4 = "s3\<lparr>inodes := (inodes s3)(c \<mapsto> ci\<lparr>i_removed := True\<rparr>)\<rparr>"
  from inode_remove_close [OF c3 c(3)] obtain s where rc: "inode_remove s3 c = Some s" "inode_close s (Some c) = Some ?s4"
    by (cases "inode_remove s3 c") auto
  let ?st4 = "st1\<lparr>d_fs := ?s4\<rparr>"
  have "dir_remove st (Some p) name = Some (True, ?st4)"
    using l1 sec o2 name(2) pos w3(1) rc
    by (simp add: dir_remove_def the_dir_def on_fs_get_def on_fs_def st1)
  moreover have "open_dir ?st4 p a ino" using d2 w3(4) del(1) ca by (simp add: open_dir_def dir_file_def)
  moreover have "inodes ?s4 = (inodes (d_fs st))(c \<mapsto> ci\<lparr>i_removed := True\<rparr>)" using r3(5) r1(5) by simp
  moreover have "free_map ?s4 = free_map (d_fs st)" using r3(6) r1(6) by simp
  moreover have "inodes (d_fs st) c = Some ci" using c(1) r1(5) by simp
  ultimately show ?thesis using del(2) c(2) by (intro exI [of _ ?st4] exI [of _ c] exI [of _ ci]) simp
qed


section \<open>Listing\<close>

text \<open>\<^verbatim>\<open>dir_readdir\<close> from entry \<open>i\<close> on: the next entry in use, if any.\<close>

definition next_used :: "sectors \<Rightarrow> inode_disk \<Rightarrow> nat \<Rightarrow> nat option" where
  "next_used v d i = List.find (\<lambda>k. de_in_use (entry_at v d k)) [i..<entry_cnt d]"

lemma next_used_step:
  "i < entry_cnt d \<Longrightarrow> next_used v d i = (if de_in_use (entry_at v d i) then Some i else next_used v d (Suc i))"
  by (simp add: next_used_def upt_conv_Cons)

lemma next_used_end: "entry_cnt d \<le> i \<Longrightarrow> next_used v d i = None"
  by (simp add: next_used_def)

lemma next_used_Some: "next_used v d i = Some k \<Longrightarrow> i \<le> k \<and> k < entry_cnt d \<and> de_in_use (entry_at v d k)"
  by (auto simp: next_used_def find_Some_iff)

lemma readdir_loop_ok:
  assumes "dir_file s a ino" "length (de_name e) = 15" "i \<le> entry_cnt (i_data ino) + 1" "1 \<le> i"
    "dir_ok (fview s) (i_data ino)" "\<forall>k n. entry_name (entry_at (fview s) (i_data ino) k) = Some n \<longrightarrow> length n \<le> NAME_MAX"
  shows "\<exists>s'. fs_becomes s s' (fview s) \<and> readdir_loop a e (int (20 * i)) s = Some (case next_used (fview s) (i_data ino) i of
      None \<Rightarrow> (None, int (20 * max i (entry_cnt (i_data ino))), s')
    | Some k \<Rightarrow> (entry_name (entry_at (fview s) (i_data ino) k), int (20 * Suc k), s'))"
  using assms
proof (induction "entry_cnt (i_data ino) + 1 - i" arbitrary: i e s rule: less_induct)
  case less
  let ?d = "i_data ino" and ?v = "fview s"
  from entry_round [OF less.prems(1-3)] obtain e' s1 where
    r: "read_entry s a e (20 * i) = Some (i < entry_cnt ?d, e', s1)" and b: "fs_becomes s s1 ?v" and l: "length (de_name e') = 15"
    and e': "i < entry_cnt ?d \<Longrightarrow> e' = entry_at ?v ?d i" and f: "dir_file s1 a ino" "fview s1 = ?v" by blast
  have "entry_cnt ?d \<le> 425856" using less.prems(1) by (auto simp: dir_file_def intro: entry_cnt_bound)
  then have ib: "i32 (int (20 * i)) = int (20 * i)" "i32 (int (20 * i) + 20) = int (20 * Suc i)"
    using less.prems(3) i32_id [of "int (20 * i)"] i32_id [of "int (20 * i) + 20"] by auto
  obtain bs where rd: "inode_read_at s a 20 (int (20 * i)) = Some (bs, s1)" "length bs = 20 \<longleftrightarrow> i < entry_cnt ?d"
    "bytes_entry (bs @ drop (length bs) (entry_bytes e)) = e'"
    using r unfolding read_entry_def ib(1) by (auto simp: Option.bind_eq_Some_conv)
  have run: "readdir_loop a e (int (20 * i)) s = (if \<not> i < entry_cnt ?d then Some (None, int (20 * i), s1)
      else if de_in_use e' then do { n \<leftarrow> entry_name e'; Some (Some (take NAME_MAX n), int (20 * Suc i), s1) }
      else readdir_loop a e' (int (20 * Suc i)) s1)"
    by (subst readdir_loop.simps) (simp only: rd Option.bind.bind_lunit prod.case Let_def ib(2))
  show ?case
  proof (cases "i < entry_cnt ?d")
    case False
    with run b show ?thesis by (simp add: next_used_end max_def)
  next
    case True
    note e'' = e' [OF True]
    show ?thesis
    proof (cases "de_in_use e'")
      case u: True
      then obtain n where n: "entry_name e' = Some n" using less.prems(4,5) True by (auto simp: dir_ok_def e'')
      with less.prems(6) have "take NAME_MAX n = n" by (auto simp: e'')
      with run True u n b e'' show ?thesis by (simp add: next_used_step)
    next
      case u: False
      have m: "entry_cnt ?d + 1 - Suc i < entry_cnt ?d + 1 - i" "Suc i \<le> entry_cnt ?d + 1" "1 \<le> Suc i" using True by simp_all
      from less.hyps [OF m(1) f(1) l m(2,3), unfolded f(2), OF less.prems(5,6)] obtain s' where
        IH: "fs_becomes s1 s' ?v" "readdir_loop a e' (int (20 * Suc i)) s1 = Some (case next_used ?v ?d (Suc i) of
          None \<Rightarrow> (None, int (20 * max (Suc i) (entry_cnt ?d)), s')
        | Some k \<Rightarrow> (entry_name (entry_at ?v ?d k), int (20 * Suc k), s'))" by blast
      have mx: "max (Suc i) (entry_cnt ?d) = max i (entry_cnt ?d)" using True by simp
      have nu: "next_used ?v ?d i = next_used ?v ?d (Suc i)" using True u e'' by (simp add: next_used_step)
      show ?thesis using fs_becomes_trans [OF b IH(1)] run True u IH(2)
        unfolding nu mx by (intro exI [of _ s']) simp
    qed
  qed
qed


section \<open>Properties\<close>

text \<open>
  An example: the file of 600 bytes of \<open>sample_fs\<close> as a directory with one file \<open>a\<close>, whose inode is in
  sector 6 and open.
\<close>

definition sample_dir :: inode where
  "sample_dir = open_inode 3 (plain_inode [4, 5] 600)"

definition sample_ds :: dirsys where
  "sample_ds = \<lparr>d_fs = sample_fs\<lparr>
       fs_cache := empty_cache\<lparr>fs_disk := zero_disk\<lparr>medium := (\<lambda>_. replicate 512 0)(4 := (replicate 512 0)[20 := 6, 24 := 97, 39 := 1])\<rparr>\<rparr>,
       inodes := (inodes sample_fs)(2 \<mapsto> open_inode 6 (plain_inode [] 0)), open_inodes := [2, 1, 0], next_addr := 3\<rparr>,
     dirs = [7 \<mapsto> \<lparr>d_inode = 1, d_pos = 20\<rparr>], next_dir = 8, pwd = Some 7, exec_name = [], slack = 0,
     stray_read = (\<lambda>_. Some), junk = \<lparr>de_inode_sector = 0, de_name = replicate 15 0, de_in_use = False\<rparr>\<rparr>"

lemma sample_ds_fields:
  "dirs sample_ds = [7 \<mapsto> \<lparr>d_inode = 1, d_pos = 20\<rparr>]" "next_dir sample_ds = 8" "pwd sample_ds = Some 7" "exec_name sample_ds = []"
  "slack sample_ds = 0" "junk sample_ds = \<lparr>de_inode_sector = 0, de_name = replicate 15 0, de_in_use = False\<rparr>"
  "inodes (d_fs sample_ds) 1 = Some sample_dir" "inodes (d_fs sample_ds) 2 = Some (open_inode 6 (plain_inode [] 0))"
  "mem_ok (d_fs sample_ds)" "open_inodes (d_fs sample_ds) = [2, 1, 0]" "free_map (d_fs sample_ds) = free_map sample_fs"
  "i_data sample_dir = plain_inode [4, 5] 600" "i_open_cnt sample_dir = 1" "i_deny_write_cnt sample_dir = 0" "i_sector sample_dir = 3"
  "i_removed sample_dir = False"
  by (simp_all add: sample_ds_def sample_fs_def sample_dir_def open_inode_def)

lemma sample_heap: "heap_ok (d_fs sample_ds)"
  by (simp add: heap_ok_def sample_ds_def sample_fs_def open_inode_def)

lemma sample_cache_ok: "fs_ok (d_fs sample_ds)" "fvalid (d_fs sample_ds) = fvalid sample_fs"
  "dview sample_ds s = (if s = 4 then (replicate 512 0)[20 := 6, 24 := 97, 39 := 1] else replicate 512 0)"
proof -
  let ?c = "fs_cache (d_fs sample_ds)"
  have c: "?c = empty_cache\<lparr>fs_disk := zero_disk\<lparr>medium := (\<lambda>_. replicate 512 0)(4 := (replicate 512 0)[20 := 6, 24 := 97, 39 := 1])\<rparr>\<rparr>"
    by (simp add: sample_ds_def)
  show "fs_ok (d_fs sample_ds)" unfolding c
    by (simp add: cache_inv_def cache_ok_def entry_ok_def no_double_def disk_inv_def empty_cache_def zero_disk_def DISK_SECTOR_SIZE_def)
  show "fvalid (d_fs sample_ds) = fvalid sample_fs" unfolding c
    by (simp add: fun_eq_iff cache_valid_def valid_sector_def sample_fs_def empty_cache_def zero_disk_def)
  show "dview sample_ds s = (if s = 4 then (replicate 512 0)[20 := 6, 24 := 97, 39 := 1] else replicate 512 0)"
    unfolding c using view_miss [of ?c s] by (simp add: c holds_sector_def empty_cache_def)
qed

lemma sample_byte: "q < 512 \<Longrightarrow> fbyte (dview sample_ds) (plain_inode [4, 5] 600) q = (if q = 20 then 6 else if q = 24 then 97 else if q = 39 then 1 else 0)"
  "512 \<le> q \<Longrightarrow> q < 600 \<Longrightarrow> fbyte (dview sample_ds) (plain_inode [4, 5] 600) q = 0"
proof -
  note b = plain_inode_blocks(2) [of "[4, 5]" 600, simplified]
  assume q: "q < 512"
  then have "q div 512 = 0" "q mod 512 = q" by simp_all
  with q b [of 0] show "fbyte (dview sample_ds) (plain_inode [4, 5] 600) q = (if q = 20 then 6 else if q = 24 then 97 else if q = 39 then 1 else 0)"
    by (simp add: fbyte_def sample_cache_ok(3) nth_list_update)
next
  note b = plain_inode_blocks(2) [of "[4, 5]" 600, simplified]
  assume q: "512 \<le> q" "q < 600"
  then have "q div 512 = 1" by linarith
  with q b [of 1] show "fbyte (dview sample_ds) (plain_inode [4, 5] 600) q = 0"
    by (simp add: fbyte_def sample_cache_ok(3))
qed

lemma sample_entries: "entry_cnt (plain_inode [4, 5] 600) = 30"
  "k < 30 \<Longrightarrow> de_in_use (entry_at (dview sample_ds) (plain_inode [4, 5] 600) k) \<longleftrightarrow> k = 1"
  "entry_name (entry_at (dview sample_ds) (plain_inode [4, 5] 600) 1) = Some [97]"
  "de_inode_sector (entry_at (dview sample_ds) (plain_inode [4, 5] 600) 1) = 6"
proof -
  let ?v = "dview sample_ds" and ?d = "plain_inode [4, 5] 600"
  show "entry_cnt ?d = 30" by (simp add: entry_cnt_def plain_inode_def)
  show "de_in_use (entry_at ?v ?d k) \<longleftrightarrow> k = 1" if "k < 30"
    using that sample_byte(1) [of "20 * k + 19"] sample_byte(2) [of "20 * k + 19"]
    by (cases "20 * k + 19 < 512") (auto simp: entry_at_def bytes_entry_def)
  have one: "entry_at ?v ?d 1 = bytes_entry [6, 0, 0, 0, 97, 0, 0, 0, 0, 0, 0, 0, 0, 0, 0, 0, 0, 0, 0, 1]"
    by (simp add: entry_at_def upt_conv_Cons sample_byte(1))
  show "entry_name (entry_at ?v ?d 1) = Some [97]" unfolding one by (simp add: bytes_entry_def entry_name_def)
  show "de_inode_sector (entry_at ?v ?d 1) = 6" unfolding one by (simp add: bytes_entry_def un_le32_def)
qed

lemma sample_dir_ok: "dir_ok (dview sample_ds) (plain_inode [4, 5] 600)"
  unfolding dir_ok_def sample_entries(1) using sample_entries(2,3) by (auto simp: named_def)

lemma sample_map: "dir_map (dview sample_ds) (plain_inode [4, 5] 600) [97] = Some 6"
  "dir_map (dview sample_ds) (plain_inode [4, 5] 600) [98] = None"
proof -
  show "dir_map (dview sample_ds) (plain_inode [4, 5] 600) [97] = Some 6"
    unfolding dir_map_iff [OF sample_dir_ok] using sample_entries(2) [of 1] sample_entries(1,3,4)
    by (intro exI [of _ 1]) (simp add: named_def)
  show "dir_map (dview sample_ds) (plain_inode [4, 5] 600) [98] = None"
    unfolding dir_map_None sample_entries(1) using sample_entries(2,3) by (auto simp: named_def)
qed

lemma sample_open_dir: "open_dir sample_ds 7 1 sample_dir"
  using sample_dir_ok sample_cache_ok(1,2) sample_fs_wf(1) by (simp add: open_dir_def sample_ds_fields dir_file_def del: One_nat_def)

text \<open>
  C22. Looking up a name in an open directory ends, returns the entry that holds the name, with its offset,
  exactly when the directory as a map has the name, and leaves every sector, every open inode and
  every directory object as it was.
\<close>

theorem lookup_correct:
  assumes "open_dir st p a ino"
  shows "\<exists>r st'. lookup st (Some p) name = Some (r, st')
    \<and> map_option (\<lambda>(e, ofs). de_inode_sector e) r = dir_map (dview st) (i_data ino) name
    \<and> (\<forall>e ofs. r = Some (e, ofs) \<longrightarrow> (\<exists>j. ofs = 20 * j \<and> e = entry_at (dview st) (i_data ino) j \<and> named (dview st) (i_data ino) name j))
    \<and> dview st' = dview st \<and> inodes (d_fs st') = inodes (d_fs st) \<and> dirs st' = dirs st \<and> pwd st' = pwd st"
proof -
  let ?f = "dir_find (dview st) (i_data ino) name 1"
  obtain s' st' where l: "lookup st (Some p) name = Some (map_option (\<lambda>j. (entry_at (dview st) (i_data ino) j, 20 * j)) ?f, st')"
    "st' = st\<lparr>d_fs := s', next_dir := next_dir st + 1\<rparr>" "fs_becomes (d_fs st) s' (dview st)" "open_dir st' p a ino" "fview s' = dview st"
    by (rule lookup_open_dir [OF assms refl])
  have "inodes s' = inodes (d_fs st)" using fs_becomes_rest(5) [OF l(3)] .
  moreover have "?f = Some j \<Longrightarrow> named (dview st) (i_data ino) name j" for j using dir_find_Some [of _ _ name 1 j] by blast
  ultimately show ?thesis using l(1,2,5)
    by (intro exI [of _ "map_option (\<lambda>j. (entry_at (dview st) (i_data ino) j, 20 * j)) ?f"] exI [of _ st'])
      (auto simp: dir_map_def option.map_comp o_def)
qed

theorem lookup_correct_witness:
  "\<exists>e ofs st'. lookup sample_ds (Some 7) [97] = Some (Some (e, ofs), st') \<and> de_inode_sector e = 6"
  using lookup_correct [OF sample_open_dir, of "[97]"] sample_map(1) by (auto simp: sample_ds_fields)


lemma tokens_single: "name \<noteq> [] \<Longrightarrow> 47 \<notin> set name \<Longrightarrow> tokens {47} name = [name]"
  using tokens_append [of name "{47}" "[]"] by auto

lemma split_single:
  assumes "name \<noteq> []" "47 \<notin> set name" "sl \<noteq> 47"
  shows "split_path_filename sl name = Some ([], name)" "split_path_filename sl (47 # name) = Some ([], name)"
proof -
  have "name ! 0 \<noteq> 47" using assms by (cases name) auto
  then show "split_path_filename sl name = Some ([], name)"
    using assms tokens_single [OF assms(1,2)] by (simp add: split_path_filename_def split_step_def)
  show "split_path_filename sl (47 # name) = Some ([], name)"
    using tokens_single [OF assms(1,2)] by (simp add: split_path_filename_def split_step_def tokens_skip)
qed

lemma dir_move_here: "pwd st = Some p \<Longrightarrow> dir_move st [] = Some (Some p, st)"
  by (simp add: dir_move_def)

text \<open>
  C15. \<^verbatim>\<open>dir_add\<close> of a new plain name to the working directory, when it has a free slot, succeeds and is an
  update of the directory as a map: the name now leads to the sector and every other name leads where
  it did; nothing outside the data blocks of the directory changes.
\<close>

theorem dir_add_inserts:
  assumes "open_dir st p a ino" and "pwd st = Some p" and "slack st \<noteq> 47" and "\<not> i_removed ino" and "i_deny_write_cnt ino = 0"
    and "heap_ok (d_fs st)" and "fvalid (d_fs st) sector"
    and "1 \<le> k" and "k < entry_cnt (i_data ino)" and "\<not> de_in_use (entry_at (dview st) (i_data ino) k)"
    and "name \<noteq> []" and "length name \<le> NAME_MAX" and "0 \<notin> set name" and "47 \<notin> set name" and "name \<notin> {[46], [46, 46]}"
    and "dir_map (dview st) (i_data ino) name = None"
  shows "\<exists>st' n. dir_add st dir name sector False = Some (True, st') \<and> open_dir st' p a (ino\<lparr>i_open_cnt := n\<rparr>)
    \<and> dir_map (dview st') (i_data ino) = (dir_map (dview st) (i_data ino))(name \<mapsto> sector)
    \<and> (\<forall>t. t \<notin> data_blocks (dview st) (i_data ino) \<longrightarrow> dview st' t = dview st t)"
proof -
  have n: "length name \<le> 14" "name \<noteq> [46]" "name \<noteq> [46, 46]" using assms(12,15) by (simp_all add: NAME_MAX_def)
  obtain pos where pos: "dirs st p = Some \<lparr>d_inode = a, d_pos = pos\<rparr>" using assms(1) by (auto simp: open_dir_def)
  have i: "inodes (d_fs st) a = Some ino" "mem_ok (d_fs st)" using assms(1) by (simp_all add: open_dir_def dir_file_def)
  have "dir_add st dir name sector False = dir_add_entry st (Some p) name sector False"
    using assms(2,4,11,12) pos i split_single(1) [OF assms(11,14,3)] dir_move_here [OF assms(2)] by (simp add: dir_add_def)
  with dir_add_entry_ok [OF assms(1,5-7) assms(8-10) n(1) assms(13) n(2,3) assms(16)] show ?thesis by simp
qed

theorem dir_add_inserts_witness:
  "\<exists>st'. dir_add sample_ds None [98] 6 False = Some (True, st')
    \<and> dir_map (dview st') (plain_inode [4, 5] 600) [98] = Some 6 \<and> dir_map (dview st') (plain_inode [4, 5] 600) [97] = Some 6"
proof -
  have v: "fvalid (d_fs sample_ds) 6" unfolding sample_cache_ok(2) sample_fs_valid by simp
  have k: "\<not> de_in_use (entry_at (dview sample_ds) (i_data sample_dir) 2)" "2 < entry_cnt (i_data sample_dir)"
    using sample_entries(1) sample_entries(2) [of 2] by (simp_all add: sample_ds_fields)
  from dir_add_inserts [OF sample_open_dir _ _ _ _ sample_heap v _ k(2,1), of "[98]" None] sample_map
  show ?thesis by (auto simp: sample_ds_fields NAME_MAX_def)
qed



text \<open>
  C50. \<^verbatim>\<open>dir_readdir\<close> at the start of entry \<open>i\<close> returns the name of the first entry in use from there on and moves
  the position behind it, or reports the end when there is none.
\<close>

theorem dir_readdir_next:
  assumes "open_dir st p a ino" and "dirs st p = Some \<lparr>d_inode = a, d_pos = int (20 * i)\<rparr>" and "1 \<le> i" and "i \<le> entry_cnt (i_data ino)"
    and "\<forall>k n. entry_name (entry_at (dview st) (i_data ino) k) = Some n \<longrightarrow> length n \<le> NAME_MAX"
  shows "\<exists>st'. dview st' = dview st \<and> (case next_used (dview st) (i_data ino) i of
      None \<Rightarrow> dir_readdir st (Some p) = Some (None, st')
    | Some k \<Rightarrow> dir_readdir st (Some p) = Some (entry_name (entry_at (dview st) (i_data ino) k), st')
        \<and> dirs st' p = Some \<lparr>d_inode = a, d_pos = int (20 * Suc k)\<rparr>)"
proof -
  have f: "dir_file (d_fs st) a ino" "length (de_name (junk st)) = 15" "dir_ok (dview st) (i_data ino)"
    using assms(1) by (simp_all add: open_dir_def)
  have i: "i \<le> entry_cnt (i_data ino) + 1" using assms(4) by simp
  from readdir_loop_ok [OF f(1,2) i assms(3) f(3) assms(5)] obtain s' where s: "fs_becomes (d_fs st) s' (dview st)"
    and r: "readdir_loop a (junk st) (int (20 * i)) (d_fs st) = Some (case next_used (dview st) (i_data ino) i of
      None \<Rightarrow> (None, int (20 * max i (entry_cnt (i_data ino))), s')
    | Some k \<Rightarrow> (entry_name (entry_at (dview st) (i_data ino) k), int (20 * Suc k), s'))" by blast
  have v: "fview s' = dview st" using fs_becomes_rest(3) [OF s] .
  show ?thesis
  proof (cases "next_used (dview st) (i_data ino) i")
    case None
    then show ?thesis using r assms(2) v by (simp add: dir_readdir_def)
  next
    case (Some k)
    then show ?thesis using r assms(2) v by (simp add: dir_readdir_def)
  qed
qed

theorem dir_readdir_next_witness:
  "\<exists>st'. dir_readdir sample_ds (Some 7) = Some (Some [97], st') \<and> dirs st' 7 = Some \<lparr>d_inode = 1, d_pos = 40\<rparr>"
proof -
  let ?v = "dview sample_ds" and ?d = "plain_inode [4, 5] 600"
  have n: "next_used ?v ?d 1 = Some 1" using sample_entries(1) sample_entries(2) [of 1] by (simp add: next_used_step)
  have "length n \<le> 14" if "entry_name e = Some n" "length (de_name e) = 15" for e n
    using that by (auto simp: entry_name_def Let_def split: if_splits)
  then have "\<forall>k n. entry_name (entry_at ?v ?d k) = Some n \<longrightarrow> length n \<le> NAME_MAX"
    using length_entry_at by (auto simp: NAME_MAX_def)
  from dir_readdir_next [OF sample_open_dir, of 1] this n sample_entries(1,3) show ?thesis
    by (auto simp: sample_ds_fields)
qed

text \<open>
  C40. A name whose first character is smaller than a slash, such as \<open>.profile\<close> or \<open>-x\<close>, can not be
  opened: \<^verbatim>\<open>dir_lookup\<close> returns the root directory for it, whatever the working directory contains.
\<close>

theorem dir_lookup_low_name_is_root:
  assumes "pwd st = Some p" and "slack st \<noteq> 47" and "mem_ok (d_fs st)" and "47 \<notin> set (c # r)" and "0 < c" and "c < 47"
    and "c # r \<notin> {[46], [46, 46]}"
  shows "dir_lookup st (Some q) (c # r) = on_fs_get (\<lambda>s. inode_open s ROOT_DIR_SECTOR) st"
proof -
  have "str_less (c # r) [47]" using assms(6) by (auto simp: str_less_def intro!: exI [of _ 0])
  then show ?thesis
    using assms(1-3,7) split_single(1) [OF _ assms(4,2)] dir_move_here [OF assms(1)] by (auto simp: dir_lookup_def)
qed

theorem dir_lookup_low_name_is_root_witness:
  "dir_lookup sample_ds (Some 7) [45, 120] = on_fs_get (\<lambda>s. inode_open s ROOT_DIR_SECTOR) sample_ds"
  by (rule dir_lookup_low_name_is_root [of _ 7]) (simp_all add: sample_ds_fields)

end
