(* ===== verification/Filesys.thy ===== *)
theory Filesys
  imports Directory_Spec
begin

text \<open>
  \<^verbatim>\<open>filesys/filesys.c\<close>: the operations on paths that the system calls use, formatting and shutting down, and the
  utilities of \<^verbatim>\<open>filesys/fsutil.c\<close> that copy between the file system and the scratch disk.
\<close>

section \<open>Initialisation\<close>

definition do_format :: "dirsys \<Rightarrow> dirsys option" where
  "do_format st = do {
     st \<leftarrow> on_fs free_map_create st;
     (ok, st) \<leftarrow> dir_create st ROOT_DIR_SECTOR 16;
     kassert ok;
     on_fs free_map_close st }"

text \<open>\<open>channels\<close> are the disks found at boot, \<open>blk\<close> is what \<^verbatim>\<open>malloc\<close> gives for the bits of the free map.\<close>

definition filesys_init :: "disk list list \<Rightarrow> u32 list option \<Rightarrow> bool \<Rightarrow> dirsys \<Rightarrow> dirsys option" where
  "filesys_init channels blk fmt st = do {
     d \<leftarrow> disk_get channels 0 1;
     filesys_disk \<leftarrow> d;
     st \<leftarrow> on_fs (\<lambda>s. do {
       c \<leftarrow> buffer_cache_init ((fs_cache s)\<lparr>fs_disk := filesys_disk\<rparr>);
       free_map_init blk (inode_init (s\<lparr>fs_cache := c\<rparr>)) }) st;
     st \<leftarrow> (if fmt then do_format st else Some st);
     on_fs free_map_open st }"

text \<open>The cache is flushed before the free map file is closed.\<close>

definition filesys_done :: "dirsys \<Rightarrow> dirsys option" where
  "filesys_done st = on_fs (\<lambda>s. do {
     c \<leftarrow> buffer_cache_flush_all (fs_cache s);
     free_map_close (s\<lparr>fs_cache := c\<rparr>) }) st"

section \<open>Operations on paths\<close>

definition filesys_create :: "dirsys \<Rightarrow> byte list \<Rightarrow> int \<Rightarrow> bool \<Rightarrow> (bool \<times> dirsys) option" where
  "filesys_create st name initial_size directory = do {
     (dir, st) \<leftarrow> dir_open_root st;
     (success, inode_sector, st) \<leftarrow>
       (if dir = None then Some (False, 0, st)
        else do {
          (r, st) \<leftarrow> on_fs_get (\<lambda>s. free_map_allocate s 1) st;
          case r of
            None \<Rightarrow> Some (False, 0, st)
          | Some sector \<Rightarrow> do {
              (ok, st) \<leftarrow> on_fs_get (\<lambda>s. inode_create s sector initial_size directory) st;
              if \<not> ok then Some (False, sector, st)
              else do {
                (ok, st) \<leftarrow> dir_add st dir name sector directory;
                Some (ok, sector, st) } } });
     st \<leftarrow> (if \<not> success \<and> inode_sector \<noteq> 0 then on_fs (\<lambda>s. free_map_release s inode_sector 1) st else Some st);
     st \<leftarrow> dir_close st dir;
     Some (success, st) }"

definition filesys_open :: "dirsys \<Rightarrow> byte list \<Rightarrow> (kfile option \<times> dirsys) option" where
  "filesys_open st name = do {
     (dir, st) \<leftarrow> (if pwd st = None then dir_open_root st else Some (pwd st, st));
     (inode, st) \<leftarrow> (if dir \<noteq> None then dir_lookup st dir name else Some (None, st));
     on_fs_get (\<lambda>s. file_open s inode) st }"

text \<open>\<open>dir_num\<close> is a global counter of the system calls.\<close>

definition filesys_remove :: "int \<Rightarrow> dirsys \<Rightarrow> byte list \<Rightarrow> (bool \<times> dirsys) option" where
  "filesys_remove dir_num st name = do {
     kassert (mem_ok (d_fs st));
     (dir_path, filename) \<leftarrow> split_path_filename (slack st) name;
     (dir, st) \<leftarrow>
       (if length dir_path \<noteq> 0 then dir_move st dir_path
        else if dir_num > 100 then Some (pwd st, st)
        else dir_open_root st);
     (success, st) \<leftarrow> (if dir \<noteq> None then dir_remove st dir filename else Some (False, st));
     st \<leftarrow> (if dir \<noteq> pwd st then dir_close st dir else Some st);
     Some (success, st) }"

section \<open>Utilities\<close>

text \<open>What a utility prints is returned: names for \<^verbatim>\<open>fsutil_ls\<close>, positions and bytes for \<^verbatim>\<open>fsutil_cat\<close>.\<close>

partial_function (option) ls_loop :: "nat option \<Rightarrow> dirsys \<Rightarrow> (byte list list \<times> dirsys) option" where
  "ls_loop dir st = do {
     (r, st) \<leftarrow> dir_readdir st dir;
     case r of
       None \<Rightarrow> Some ([], st)
     | Some name \<Rightarrow> do { (ns, st) \<leftarrow> ls_loop dir st; Some (name # ns, st) } }"

definition fsutil_ls :: "dirsys \<Rightarrow> (byte list list \<times> dirsys) option" where
  "fsutil_ls st = do {
     (dir, st) \<leftarrow> dir_open_root st;
     kassert (dir \<noteq> None);
     ls_loop dir st }"

partial_function (option) cat_loop :: "kfile \<Rightarrow> fs \<Rightarrow> ((int \<times> byte list) list \<times> kfile \<times> fs) option" where
  "cat_loop f s = do {
     let p = file_tell f;
     (bs, f, s) \<leftarrow> file_read s f 4096;
     if length bs = 0 then Some ([], f, s)
     else do { (rest, f, s) \<leftarrow> cat_loop f s; Some ((p, bs) # rest, f, s) } }"

definition fsutil_cat :: "dirsys \<Rightarrow> byte list \<Rightarrow> ((int \<times> byte list) list \<times> dirsys) option" where
  "fsutil_cat st file_name = do {
     (p, st) \<leftarrow> filesys_open st file_name;
     f \<leftarrow> p;
     kassert (mem_ok (d_fs st));
     (dump, f, s) \<leftarrow> cat_loop f (d_fs st);
     s \<leftarrow> file_close s (Some f);
     Some (dump, st\<lparr>d_fs := s\<rparr>) }"

definition fsutil_rm :: "int \<Rightarrow> dirsys \<Rightarrow> byte list \<Rightarrow> dirsys option" where
  "fsutil_rm dir_num st file_name = do {
     (ok, st) \<leftarrow> filesys_remove dir_num st file_name;
     kassert ok;
     Some st }"

text \<open>Copying from the scratch disk: \<open>sector\<close> is the static position.\<close>

function put_loop :: "kfile \<Rightarrow> int \<Rightarrow> disk \<Rightarrow> disk_sector_t \<Rightarrow> fs \<Rightarrow> (kfile \<times> disk \<times> disk_sector_t \<times> fs) option" where
  "put_loop dst sze src sector s =
     (if sze > 0 then do {
        let chunk = (if sze > 512 then 512 else sze);
        (buffer, src) \<leftarrow> disk_read src sector;
        (n, dst, s) \<leftarrow> file_write s dst buffer chunk;
        kassert (n = chunk);
        put_loop dst (sze - chunk) src (sector + 1) s }
      else Some (dst, src, sector, s))"
  by auto
termination by (relation "measure (\<lambda>(dst, sze, src, sector, s). nat sze)") auto

definition fsutil_put :: "disk option \<Rightarrow> disk_sector_t \<Rightarrow> dirsys \<Rightarrow> byte list \<Rightarrow> (disk \<times> disk_sector_t \<times> dirsys) option" where
  "fsutil_put src_disk sector st file_name = do {
     kassert (mem_ok (d_fs st));
     src \<leftarrow> src_disk;
     (buffer, src) \<leftarrow> disk_read src sector;
     kassert (take 4 buffer = [80, 85, 84, 0]);
     let sze = sint (un_le32 (take 4 (drop 4 buffer)));
     kassert (sze \<ge> 0);
     (ok, st) \<leftarrow> filesys_create st file_name sze False;
     kassert ok;
     (p, st) \<leftarrow> filesys_open st file_name;
     dst \<leftarrow> p;
     (dst, src, sector, s) \<leftarrow> put_loop dst sze src (sector + 1) (d_fs st);
     s \<leftarrow> file_close s (Some dst);
     Some (src, sector, st\<lparr>d_fs := s\<rparr>) }"

function get_loop :: "kfile \<Rightarrow> int \<Rightarrow> disk \<Rightarrow> disk_sector_t \<Rightarrow> fs \<Rightarrow> (kfile \<times> disk \<times> disk_sector_t \<times> fs) option" where
  "get_loop src sze dst sector s =
     (if sze > 0 then do {
        let chunk = (if sze > 512 then 512 else sze);
        kassert (sector < disk_size dst);
        (bs, src, s) \<leftarrow> file_read s src chunk;
        kassert (int (length bs) = chunk);
        dst \<leftarrow> disk_write dst sector (bs @ replicate (512 - nat chunk) 0);
        get_loop src (sze - chunk) dst (sector + 1) s }
      else Some (src, dst, sector, s))"
  by auto
termination by (relation "measure (\<lambda>(src, sze, dst, sector, s). nat sze)") auto

definition fsutil_get :: "disk option \<Rightarrow> disk_sector_t \<Rightarrow> dirsys \<Rightarrow> byte list \<Rightarrow> (disk \<times> disk_sector_t \<times> dirsys) option" where
  "fsutil_get dst_disk sector st file_name = do {
     kassert (mem_ok (d_fs st));
     (p, st) \<leftarrow> filesys_open st file_name;
     src \<leftarrow> p;
     sze \<leftarrow> file_length (d_fs st) src;
     dst \<leftarrow> dst_disk;
     dst \<leftarrow> disk_write dst sector ([71, 69, 84, 0] @ le32 (word_of_int sze) @ replicate 504 0);
     (src, dst, sector, s) \<leftarrow> get_loop src sze dst (sector + 1) (d_fs st);
     s \<leftarrow> file_close s (Some src);
     Some (dst, sector, st\<lparr>d_fs := s\<rparr>) }"


declare put_loop.simps [simp del] get_loop.simps [simp del]

section \<open>Properties\<close>

text \<open>
  C39. An absolute path with one component is resolved in the working directory, not in the root:
  \<^verbatim>\<open>filesys_open\<close> and \<^verbatim>\<open>filesys_remove\<close> do the same for \<open>/name\<close> as for \<open>name\<close>.
\<close>

theorem filesys_root_path_is_relative:
  assumes "name \<noteq> []" and "47 \<notin> set name" and "slack st \<noteq> 47" and "name \<notin> {[46], [46, 46]}"
    and "pwd st \<noteq> None"
  shows "filesys_open st (47 # name) = filesys_open st name \<and> filesys_remove dir_num st (47 # name) = filesys_remove dir_num st name"
proof
  note sp = split_single [OF assms(1-3)]
  have "dir_lookup st (pwd st) (47 # name) = dir_lookup st (pwd st) name"
  proof -
    have ne: "(47 # name = [46] \<or> 47 # name = [46, 46]) = False" "(name = [46] \<or> name = [46, 46]) = False" using assms(4) by auto
    show ?thesis unfolding dir_lookup_def sp by (simp only: ne if_False)
  qed
  with assms(5) show "filesys_open st (47 # name) = filesys_open st name" by (auto simp: filesys_open_def)
  show "filesys_remove dir_num st (47 # name) = filesys_remove dir_num st name" unfolding filesys_remove_def sp by simp
qed

theorem filesys_root_path_is_relative_witness:
  "filesys_open sample_ds [47, 97] = filesys_open sample_ds [97]"
  using filesys_root_path_is_relative [of "[97]" sample_ds 0] by (simp add: sample_ds_fields)

text \<open>The sectors that \<^verbatim>\<open>fsutil_get\<close> writes for the bytes \<open>bs\<close>: chunks of a sector, the last one padded with zeros.\<close>

function padded :: "byte list \<Rightarrow> byte list list" where
  "padded bs = (if bs = [] then [] else (take 512 bs @ replicate (512 - length bs) 0) # padded (drop 512 bs))"
  by auto
termination by (relation "measure length") auto

declare padded.simps [simp del]

text \<open>The disk after writing the sectors one after the other.\<close>

fun write_all :: "disk \<Rightarrow> disk_sector_t \<Rightarrow> byte list list \<Rightarrow> disk option" where
  "write_all d sector [] = Some d"
| "write_all d sector (b # bs) = do { d \<leftarrow> disk_write d sector b; write_all d (sector + 1) bs }"

lemma padded_split:
  assumes "0 < n" "c = min n 512" "length bs = n"
  shows "padded bs = (take c bs @ replicate (512 - c) 0) # padded (drop c bs)"
proof -
  have "bs \<noteq> []" using assms by auto
  moreover have "512 - length bs = 512 - c" "take 512 bs = take c bs" "drop 512 bs = drop c bs" using assms by (auto simp: min_def)
  ultimately show ?thesis by (subst padded.simps) simp
qed

lemma get_loop_ok:
  assumes "fs_ok s" "mem_ok s" "inodes s (f_inode src) = Some ino" "inode_wf (fvalid s) (fview s) (i_data ino)"
    and "0 \<le> f_pos src" "0 \<le> sze" "f_pos src + sze \<le> inode_length ino"
    and "\<forall>k < nat ((sze + 511) div 512). valid_sector dst (sector + of_nat k)"
  shows "\<exists>s' dst'. get_loop src sze dst sector s = Some (src\<lparr>f_pos := f_pos src + sze\<rparr>, dst', sector + of_nat (nat ((sze + 511) div 512)), s')
    \<and> fs_becomes s s' (fview s)
    \<and> write_all dst sector (padded (map (fbyte (fview s) (i_data ino)) [nat (f_pos src)..<nat (f_pos src + sze)])) = Some dst'"
  using assms
proof (induction "nat sze" arbitrary: src sze dst sector s rule: less_induct)
  case less
  let ?d = "i_data ino" and ?v = "fview s" and ?p = "f_pos src"
  show ?case
  proof (cases "sze > 0")
    case False
    then have "sze = 0" using less.prems(6) by simp
    then show ?thesis using less.prems(1) by (subst get_loop.simps) (simp add: fs_becomes_refl padded.simps)
  next
    case True
    define c where "c = (if sze > 512 then 512 else sze)"
    have c: "0 < c" "c \<le> sze" "c \<le> 512" using True by (auto simp: c_def)
    have L: "inode_length ino < 16635 * 512" using less.prems(4) by (simp add: inode_wf_def inode_length_def)
    have p31: "?p < 2 ^ 31" using less.prems(6,7) L by simp
    from inode_read_loop_ok [OF less.prems(1,2,4,5) p31, of c] obtain s1 where
      rd: "inode_read_loop ?d c ?p s = Some (map (fbyte ?v ?d) [nat ?p..<nat ?p + inside ?d c ?p], s1)" and b: "fs_becomes s s1 ?v" by blast
    have ins: "inside ?d c ?p = nat c" using c less.prems(7) by (simp add: inside_def inode_length_def min_def)
    let ?bs = "map (fbyte ?v ?d) [nat ?p..<nat ?p + nat c]"
    have i: "i32 (?p + c) = ?p + c" using c less.prems(5,7) L by (intro i32_id) auto
    let ?src = "src\<lparr>f_pos := ?p + c\<rparr>"
    have fr: "file_read s src c = Some (?bs, ?src, s1)"
      using rd less.prems(3) i c unfolding ins by (simp add: file_read_def inode_read_at_def)
    have n: "nat ((sze + 511) div 512) = Suc (nat ((sze - c + 511) div 512))" 
    proof (cases "sze > 512")
      case True
      then have "(sze + 511) div 512 = (sze - 512 + 511) div 512 + 1" "0 \<le> (sze - 512 + 511) div 512" by auto
      with True show ?thesis by (simp add: c_def Suc_nat_eq_nat_zadd1)
    next
      case False
      with \<open>sze > 0\<close> have "(sze + 511) div 512 = 1" by linarith
      with False show ?thesis by (simp add: c_def)
    qed
    have v0: "valid_sector dst sector" using less.prems(8) [unfolded n, rule_format, of 0] by simp
    let ?blk = "?bs @ replicate (512 - nat c) 0"
    let ?dst = "dst\<lparr>medium := (medium dst)(sector := ?blk), write_cnt := write_cnt dst + 1\<rparr>"
    have w: "disk_write dst sector ?blk = Some ?dst"
      using c by (intro disk_write_valid [OF v0]) (simp add: DISK_SECTOR_SIZE_def)
    have run: "get_loop src sze dst sector s = get_loop ?src (sze - c) ?dst (sector + 1) s1"
      using True fr w v0 c unfolding get_loop.simps [of src sze] c_def [symmetric] Let_def
      by (simp add: disk_size_def valid_sector_def)
    note r1 = fs_becomes_rest [OF b]
    have vk: "valid_sector ?dst (sector + 1 + of_nat k)" if "k < nat ((sze - c + 511) div 512)" for k
      using less.prems(8) [unfolded n, rule_format, of "Suc k"] that by (simp add: add.assoc)
    have m: "nat (sze - c) < nat sze" using c by simp
    have prem: "mem_ok s1" "inodes s1 (f_inode ?src) = Some ino" "inode_wf (fvalid s1) (fview s1) ?d" "0 \<le> f_pos ?src" "0 \<le> sze - c"
      "f_pos ?src + (sze - c) \<le> inode_length ino" "\<forall>k < nat ((sze - c + 511) div 512). valid_sector ?dst (sector + 1 + of_nat k)"
      using less.prems(2-5,7) c vk unfolding r1(2-5) by simp_all
    have e: "f_pos ?src = ?p + c" "?p + c + (sze - c) = ?p + sze" by simp_all
    from less.hyps [OF m r1(1) prem, unfolded r1(3) e] obtain s' dst' where
      IH: "get_loop ?src (sze - c) ?dst (sector + 1) s1
        = Some (?src\<lparr>f_pos := ?p + sze\<rparr>, dst', sector + 1 + of_nat (nat ((sze - c + 511) div 512)), s')"
      "fs_becomes s1 s' ?v" "write_all ?dst (sector + 1) (padded (map (fbyte ?v ?d) [nat (?p + c)..<nat (?p + sze)])) = Some dst'"
      by blast
    have len: "length (map (fbyte ?v ?d) [nat ?p..<nat (?p + sze)]) = nat sze" using less.prems(5,6) by (simp add: nat_add_distrib)
    have pd: "padded (map (fbyte ?v ?d) [nat ?p..<nat (?p + sze)])
        = ?blk # padded (map (fbyte ?v ?d) [nat (?p + c)..<nat (?p + sze)])"
      using padded_split [OF _ _ len, of "nat c"] c less.prems(5,6)
      by (simp add: take_map drop_map c_def nat_add_distrib min_def split: if_splits)
    have "?src\<lparr>f_pos := ?p + sze\<rparr> = src\<lparr>f_pos := ?p + sze\<rparr>" by simp
    moreover have "sector + 1 + of_nat k = sector + of_nat (Suc k)" for k by simp
    moreover have "write_all dst sector (padded (map (fbyte ?v ?d) [nat ?p..<nat (?p + sze)])) = Some dst'"
      unfolding pd using w IH(3) by simp
    ultimately show ?thesis unfolding n run using IH(1) fs_becomes_trans [OF b IH(2)] by metis
  qed
qed


text \<open>
  C53. The copy loop of \<^verbatim>\<open>fsutil_get\<close> ends and writes to consecutive sectors of the scratch disk exactly the bytes
  of the file in chunks of a sector, the last one padded with zeros, without changing the file system.
\<close>

theorem get_loop_exports:
  assumes "fs_ok s" and "mem_ok s" and "inodes s (f_inode src) = Some ino" and "inode_wf (fvalid s) (fview s) (i_data ino)"
    and "f_pos src = 0"
    and "\<forall>k < nat ((inode_length ino + 511) div 512). valid_sector dst (sector + of_nat k)"
  shows "\<exists>s' dst'. get_loop src (inode_length ino) dst sector s
      = Some (src\<lparr>f_pos := inode_length ino\<rparr>, dst', sector + of_nat (nat ((inode_length ino + 511) div 512)), s')
    \<and> fs_becomes s s' (fview s)
    \<and> write_all dst sector (padded (map (fbyte (fview s) (i_data ino)) [0..<nat (inode_length ino)])) = Some dst'"
proof -
  have "0 \<le> inode_length ino" using assms(4) by (simp add: inode_wf_def inode_length_def)
  then show ?thesis using get_loop_ok [OF assms(1-4) _ _ _ assms(6)] assms(5) by auto
qed

theorem get_loop_exports_witness:
  "\<exists>f s' dst'. get_loop (sample_file\<lparr>f_pos := 0\<rparr>) 600 zero_disk 1 sample_fs = Some (f, dst', 3, s') \<and> f_pos f = 600"
proof -
  let ?i = "open_inode 3 (plain_inode [4, 5] 600)"
  have i: "i_data ?i = plain_inode [4, 5] 600" "inode_length ?i = 600" by (simp_all add: open_inode_def inode_length_def plain_inode_def)
  have f: "inodes sample_fs (f_inode (sample_file\<lparr>f_pos := 0\<rparr>)) = Some ?i" "f_pos (sample_file\<lparr>f_pos := 0\<rparr>) = 0"
    using sample_fs_facts(3) by (simp_all add: sample_file_def)
  have "valid_sector zero_disk (1 + of_nat k)" if "k < 2" for k
  proof -
    have "k = 0 \<or> k = 1" using that by linarith
    then show ?thesis by (elim disjE) (simp_all add: valid_sector_def zero_disk_def word_less_nat_alt)
  qed
  then have "\<forall>k < 2. valid_sector zero_disk (1 + of_nat k)" by blast
  then have v: "\<forall>k < nat ((inode_length ?i + 511) div 512). valid_sector zero_disk (1 + of_nat k)" unfolding i(2) by simp
  from get_loop_exports [OF sample_fs_facts(1,2) f(1) _ f(2) v] sample_fs_wf(1) show ?thesis unfolding i by auto
qed

end
