(* ===== verification/Arith64.thy ===== *)
theory Arith64
  imports Prelude
begin

text \<open>
  \<^verbatim>\<open>lib/arithmetic.c\<close>: 64-bit division from the 32-bit divide instruction.  A divide error of the processor, by a
  zero divisor or a quotient that does not fit, is \<open>None\<close>.
\<close>

unbundle bit_operations_syntax

section \<open>The routines\<close>

definition divl :: "u64 \<Rightarrow> u32 \<Rightarrow> u32 option" where
  "divl n d = do {
     kassert (d \<noteq> 0);
     kassert (unat n div unat d < 2 ^ 32);
     Some (of_nat (unat n div unat d)) }"

text \<open>One test of \<^verbatim>\<open>nlz\<close>: if \<open>x\<close> is at most \<open>lim\<close>, its upper \<open>k\<close> bits are zero.\<close>

definition nlz_step :: "nat \<Rightarrow> u32 \<Rightarrow> nat \<times> u32 \<Rightarrow> nat \<times> u32" where
  "nlz_step k lim nx = (case nx of (n, x) \<Rightarrow> if x \<le> lim then (n + k, push_bit k x) else (n, x))"

definition nlz :: "u32 \<Rightarrow> nat" where
  "nlz x = (case nlz_step 2 0x3FFFFFFF (nlz_step 4 0x0FFFFFFF (nlz_step 8 0x00FFFFFF (nlz_step 16 0x0000FFFF (0, x)))) of
     (n, x) \<Rightarrow> if x \<le> 0x7FFFFFFF then n + 1 else n)"

definition udiv64 :: "u64 \<Rightarrow> u64 \<Rightarrow> u64 option" where
  "udiv64 n d =
     (if drop_bit 32 d = 0 then do {
        let b = push_bit 32 1;
        let n1 = (ucast (drop_bit 32 n) :: u32);
        let n0 = (ucast n :: u32);
        let d0 = (ucast d :: u32);
        kassert (d0 \<noteq> 0);
        q \<leftarrow> divl (b * ucast (n1 mod d0) + ucast n0) d0;
        Some (ucast q + b * ucast (n1 div d0)) }
      else if n < d then Some 0
      else do {
        let d1 = (ucast (drop_bit 32 d) :: u32);
        let s = nlz d1;
        q \<leftarrow> divl (drop_bit 1 n) (ucast (drop_bit 32 (push_bit s d)));
        let q = (ucast (drop_bit (31 - s) q) :: u64);
        Some (if n - (q - 1) * d < d then q - 1 else q) })"

text \<open>The remainders are returned in 32 bits.\<close>

definition umod64 :: "u64 \<Rightarrow> u64 \<Rightarrow> u32 option" where
  "umod64 n d = do { q \<leftarrow> udiv64 n d; Some (ucast (n - d * q)) }"

definition sdiv64 :: "u64 \<Rightarrow> u64 \<Rightarrow> u64 option" where
  "sdiv64 n d = do {
     let n_abs = (if sint n \<ge> 0 then n else - n);
     let d_abs = (if sint d \<ge> 0 then d else - d);
     q_abs \<leftarrow> udiv64 n_abs d_abs;
     Some (if (sint n < 0) = (sint d < 0) then q_abs else - q_abs) }"

definition smod64 :: "u64 \<Rightarrow> u64 \<Rightarrow> u32 option" where
  "smod64 n d = do { q \<leftarrow> sdiv64 n d; Some (ucast (n - d * q)) }"

definition divdi3 :: "u64 \<Rightarrow> u64 \<Rightarrow> u64 option" where
  "divdi3 n d = sdiv64 n d"

definition moddi3 :: "u64 \<Rightarrow> u64 \<Rightarrow> u64 option" where
  "moddi3 n d = do { r \<leftarrow> smod64 n d; Some (scast r) }"

definition udivdi3 :: "u64 \<Rightarrow> u64 \<Rightarrow> u64 option" where
  "udivdi3 n d = udiv64 n d"

definition umoddi3 :: "u64 \<Rightarrow> u64 \<Rightarrow> u64 option" where
  "umoddi3 n d = do { r \<leftarrow> umod64 n d; Some (ucast r) }"

section \<open>Leading zeros\<close>

text \<open>The state of the tests: \<open>n\<close> bits have been shifted out so far, and no bit of \<open>x0\<close> was lost.\<close>

definition shifted :: "u32 \<Rightarrow> nat \<Rightarrow> nat \<times> u32 \<Rightarrow> bool" where
  "shifted x0 m nx \<longleftrightarrow> (case nx of (n, x) \<Rightarrow> unat x = unat x0 * 2 ^ n \<and> 2 ^ (32 - m) \<le> unat x \<and> n + m \<le> 32)"

lemma nlz_step_shifted:
  assumes s: "shifted x0 (2 * k) nx" and k: "2 * k \<le> 32" and lim: "unat lim + 1 = 2 ^ (32 - k)"
  shows "shifted x0 k (nlz_step k lim nx)"
proof -
  obtain n x where nx: "nx = (n, x)" by (cases nx)
  have x: "unat x = unat x0 * 2 ^ n" "2 ^ (32 - 2 * k) \<le> unat x" "n + 2 * k \<le> 32" using s by (simp_all add: shifted_def nx)
  show ?thesis
  proof (cases "x \<le> lim")
    case True
    then have lt: "unat x < 2 ^ (32 - k)" using lim by (simp add: word_le_nat_alt)
    have "unat x * 2 ^ k < 2 ^ (32 - k) * 2 ^ k" using lt by simp
    also have "(2 :: nat) ^ (32 - k) * 2 ^ k = 2 ^ 32" using k by (simp flip: power_add)
    finally have "unat x * 2 ^ k < 2 ^ 32" .
    moreover have "unat (push_bit k x) = take_bit 32 (push_bit k (unat x))" by (simp add: unsigned_push_bit_eq)
    ultimately have "unat (push_bit k x) = unat x * 2 ^ k" by (simp add: push_bit_eq_mult take_bit_eq_mod)
    moreover have "2 ^ (32 - k) \<le> unat x * 2 ^ k"
    proof -
      have "(2 :: nat) ^ (32 - 2 * k) * 2 ^ k = 2 ^ (32 - k)" using k by (simp flip: power_add)
      with x(2) show ?thesis by (metis mult_le_mono1)
    qed
    ultimately show ?thesis using True x by (simp add: nx nlz_step_def shifted_def power_add)
  next
    case False
    then have "2 ^ (32 - k) \<le> unat x" using lim by (simp add: word_le_nat_alt)
    with False x show ?thesis by (simp add: nx nlz_step_def shifted_def)
  qed
qed

lemma nlz_ok:
  assumes "x \<noteq> 0"
  shows "2 ^ 31 \<le> unat x * 2 ^ nlz x" and "unat x * 2 ^ nlz x < 2 ^ 32" and "nlz x \<le> 31"
proof -
  have "unat x \<noteq> 0" using assms by (simp add: unat_eq_0)
  then have s0: "shifted x (2 * 16) (0, x)" by (simp add: shifted_def)
  have s1: "shifted x (2 * 8) (nlz_step 16 0x0000FFFF (0, x))" using nlz_step_shifted [OF s0, where lim = "0x0000FFFF"] by simp
  have s2: "shifted x (2 * 4) (nlz_step 8 0x00FFFFFF (nlz_step 16 0x0000FFFF (0, x)))"
    using nlz_step_shifted [OF s1, where lim = "0x00FFFFFF"] by simp
  have s3: "shifted x (2 * 2) (nlz_step 4 0x0FFFFFFF (nlz_step 8 0x00FFFFFF (nlz_step 16 0x0000FFFF (0, x))))"
    using nlz_step_shifted [OF s2, where lim = "0x0FFFFFFF"] by simp
  have sh: "shifted x 2 (nlz_step 2 0x3FFFFFFF (nlz_step 4 0x0FFFFFFF (nlz_step 8 0x00FFFFFF (nlz_step 16 0x0000FFFF (0, x)))))"
    using nlz_step_shifted [OF s3, where lim = "0x3FFFFFFF"] by simp
  obtain n y where ny: "nlz_step 2 0x3FFFFFFF (nlz_step 4 0x0FFFFFFF (nlz_step 8 0x00FFFFFF (nlz_step 16 0x0000FFFF (0, x)))) = (n, y)" by fastforce
  have y: "unat y = unat x * 2 ^ n" "2 ^ 30 \<le> unat y" "n \<le> 30" using sh by (simp_all add: ny shifted_def)
  have eq: "nlz x = (if y \<le> 0x7FFFFFFF then n + 1 else n)" by (simp add: nlz_def ny)
  have cmp: "y \<le> 0x7FFFFFFF \<longleftrightarrow> unat y < 2 ^ 31" by (auto simp: word_le_nat_alt)
  have "unat y < 2 ^ 32" using unsigned_less [of y] by simp
  then show "2 ^ 31 \<le> unat x * 2 ^ nlz x" "unat x * 2 ^ nlz x < 2 ^ 32" "nlz x \<le> 31"
    using y cmp unfolding eq by (cases "y \<le> 0x7FFFFFFF"; simp)+
qed


section \<open>Unsigned division\<close>

text \<open>The estimate of the quotient by the upper half \<open>v\<close> of the shifted divisor is at most one too large.\<close>

lemma quotient_estimate:
  fixes n d v a b :: nat
  assumes ab: "a * b = 2 ^ 32" and b: "b = 2 \<or> 4 \<le> b" and v: "v = d * a div 2 ^ 32" "2 ^ 31 \<le> v" and n: "n < 2 ^ 64" "d \<le> n"
  defines "q \<equiv> n div (v * b)"
  shows "n div d \<le> q" and "q \<le> n div d + 1"
proof -
  have a0: "0 < a" "0 < b" using ab by (auto intro: gr0I)
  have D1: "v * b \<le> d"
  proof -
    have "v * (a * b) \<le> d * a" using v(1) unfolding ab by simp
    then have "(v * b) * a \<le> d * a" by (simp add: mult.commute mult.left_commute)
    with a0 show ?thesis by simp
  qed
  have D2: "d + 1 \<le> v * b + b"
  proof -
    have "d * a < (v + 1) * (a * b)" using v(1) unfolding ab by (simp add: dividend_less_div_times)
    then have "d * a < (v * b + b) * a" by (simp add: algebra_simps)
    with a0 show ?thesis by simp
  qed
  have v0: "0 < v * b" using v(2) a0 by simp
  then have d0: "0 < d" using D1 by linarith
  show "n div d \<le> q" unfolding q_def by (rule div_le_mono2 [OF v0 D1])
  have qn: "q * (v * b) \<le> n" by (simp add: q_def)
  have "q * b * 2 ^ 31 \<le> q * b * v" using v(2) by simp
  also have "\<dots> \<le> n" using qn by (simp add: algebra_simps)
  finally have "q * b * 2147483648 \<le> n" by simp
  moreover have "n < 18446744073709551616" using n(1) by simp
  ultimately have qb: "q * b < 8589934592" by linarith
  have "2 ^ 31 * b \<le> d" using v(2) D1 by (meson le_trans mult_le_mono1)
  then have vb: "2147483648 * b \<le> d" by simp
  have "q * (d - v * b) \<le> d"
  proof (cases "b = 2")
    case True
    then have "d - v * b \<le> 1" using D2 by simp
    then have "q * (d - v * b) \<le> q" by (metis mult.right_neutral mult_le_mono2)
    also have "q \<le> d" using qb vb True by simp
    finally show ?thesis .
  next
    case False
    have "q * (d - v * b) \<le> q * b" using D2 by (intro mult_le_mono2) linarith
    also have "\<dots> \<le> d" using qb vb b False by linarith
    finally show ?thesis .
  qed
  then have "q * d \<le> n + d"
    using qn D1 by (metis add_mono diff_mult_distrib2 le_add_diff_inverse mult_le_mono2)
  then have "q * d div d \<le> (n + d) div d" by (rule div_le_mono)
  then show "q \<le> n div d + 1" using d0 div_add_self2 [of d n] by simp
qed

lemma unat_lt64: "unat (w :: u64) < 2 ^ 64" and unat_lt32: "unat (x :: u32) < 2 ^ 32"
  using unsigned_less [of w] unsigned_less [of x] by simp_all

lemma unat_drop_bit64: "unat (drop_bit k (w :: u64)) = unat w div 2 ^ k"
proof -
  have "unat (drop_bit k w) = drop_bit k (unat w)" using unat_lt64 [of w] by (simp add: unsigned_drop_bit_eq take_bit_nat_eq_self)
  then show ?thesis by (simp only: drop_bit_eq_div)
qed

lemma unat_ucast32: "unat (ucast (w :: u64) :: u32) = unat w mod 2 ^ 32"
  by (simp add: unsigned_ucast_eq take_bit_eq_mod)

lemma unat_ucast64: "unat (ucast (x :: u32) :: u64) = unat x"
  using unat_lt32 [of x] by (simp add: unsigned_ucast_eq take_bit_eq_mod)


lemma unat_push_bit64: "unat (w :: u64) * 2 ^ k < 2 ^ 64 \<Longrightarrow> unat (push_bit k w) = unat w * 2 ^ k"
proof -
  have "unat (push_bit k w) = take_bit 64 (push_bit k (unat w))" by (simp add: unsigned_push_bit_eq)
  then show "unat w * 2 ^ k < 2 ^ 64 \<Longrightarrow> ?thesis" by (simp add: push_bit_eq_mult take_bit_eq_mod)
qed

lemma unat_add64: "unat a + unat b < 2 ^ 64 \<Longrightarrow> unat (a + b :: u64) = unat a + unat b"
  and unat_mult64: "unat a * unat b < 2 ^ 64 \<Longrightarrow> unat (a * b :: u64) = unat a * unat b"
  by (simp_all add: unat_word_ariths)

lemma unat_b: "unat (push_bit 32 1 :: u64) = 2 ^ 32"
  by simp

lemma split_dividend:
  fixes n d :: nat
  shows "n = 2 ^ 32 * (n div 2 ^ 32 mod d) + n mod 2 ^ 32 + d * (2 ^ 32 * (n div 2 ^ 32 div d))"
proof -
  define h l where "h = n div 2 ^ 32" and "l = n mod 2 ^ 32"
  have "n = 2 ^ 32 * h + l" "h = d * (h div d) + h mod d" by (simp_all add: h_def l_def)
  then have "n = 2 ^ 32 * (d * (h div d) + h mod d) + l" by simp
  moreover have "2 ^ 32 * (d * x + y) + l = 2 ^ 32 * y + l + d * (2 ^ 32 * x)" for x y by (simp add: algebra_simps)
  ultimately show ?thesis unfolding h_def l_def by metis
qed

text \<open>The first case: the divisor has 32 bits.\<close>

lemma udiv64_small:
  assumes d: "d \<noteq> 0" "unat d < 2 ^ 32"
  shows "udiv64 n d = Some (of_nat (unat n div unat d))"
proof -
  define D where "D = unat d"
  define h l where "h = unat n div 2 ^ 32" and "l = unat n mod 2 ^ 32"
  define n1 n0 d0 :: u32 where "n1 = ucast (drop_bit 32 n)" and "n0 = ucast n" and "d0 = ucast d"
  have u: "unat n1 = h" "unat n0 = l" "unat d0 = D"
    using d(2) unat_lt64 [of n] by (simp_all add: unat_ucast32 unat_drop_bit64 n1_def n0_def d0_def h_def l_def D_def)
  have D0: "0 < D" using d(1) by (simp add: unat_gt_0 D_def)
  have z: "drop_bit 32 d = 0" using d(2) by (intro word_unat_eq_iff [THEN iffD2]) (simp add: unat_drop_bit64)
  have d0: "d0 \<noteq> 0" using u(3) D0 by auto
  define m :: u64 where "m = push_bit 32 1 * ucast (n1 mod d0) + ucast n0"
  have lt: "2 ^ 32 * (h mod D) + l < 2 ^ 32 * D"
  proof -
    have "h mod D + 1 \<le> D" using D0 by (simp add: Suc_le_eq)
    then have "2 ^ 32 * (h mod D + 1) \<le> 2 ^ 32 * D" by (rule mult_le_mono2)
    moreover have "l < 2 ^ 32" by (simp add: l_def)
    ultimately show ?thesis by simp
  qed
  have lt64: "2 ^ 32 * (h mod D) + l < 2 ^ 64" using lt d(2) by (simp add: D_def)
  have pm: "unat (push_bit 32 1 * ucast (n1 mod d0) :: u64) = 2 ^ 32 * (h mod D)"
    using lt64 unat_mult64 [of "push_bit 32 1" "ucast (n1 mod d0)"] by (simp add: unat_ucast64 unat_mod_distrib u)
  have m: "unat m = 2 ^ 32 * (h mod D) + l"
    using lt64 unat_add64 [of "push_bit 32 1 * ucast (n1 mod d0)" "ucast n0"] unfolding m_def pm unat_ucast64 u(2) by simp
  define q where "q = unat m div D"
  have q: "q < 2 ^ 32" unfolding q_def m using lt D0 by (simp add: div_less_iff_less_mult mult.commute)
  have dl: "divl m d0 = Some (of_nat q)" using q d0 u(3) by (simp add: divl_def q_def)
  have split: "unat n div D = q + 2 ^ 32 * (h div D)"
    unfolding q_def m by (subst split_dividend [of "unat n" D]) (use D0 in \<open>simp add: h_def l_def\<close>)
  have tot: "q + 2 ^ 32 * (h div D) < 2 ^ 64"
    unfolding split [symmetric] using unat_lt64 [of n] by (meson div_le_dividend le_less_trans)
  have uq: "unat (ucast (of_nat q :: u32) :: u64) = q" using q by (simp add: unat_ucast64 unat_of_nat)
  have hi: "unat (push_bit 32 1 * ucast (n1 div d0) :: u64) = 2 ^ 32 * (h div D)"
    using tot unat_mult64 [of "push_bit 32 1" "ucast (n1 div d0)"] by (simp add: unat_ucast64 unat_div_distrib u)
  have "unat (ucast (of_nat q :: u32) + push_bit 32 1 * ucast (n1 div d0) :: u64) = unat n div D"
    using tot unat_add64 [of "ucast (of_nat q :: u32)" "push_bit 32 1 * ucast (n1 div d0)"] unfolding uq hi split by simp
  moreover have "unat (of_nat (unat n div D) :: u64) = unat n div D"
    using tot unfolding split [symmetric] by (simp add: unat_of_nat)
  ultimately have "ucast (of_nat q :: u32) + push_bit 32 1 * ucast (n1 div d0) = (of_nat (unat n div D) :: u64)"
    by (simp only: word_unat_eq_iff)
  moreover have "udiv64 n d = do { q \<leftarrow> divl m d0; Some (ucast q + push_bit 32 1 * ucast (n1 div d0)) }"
    using z d0 by (simp add: udiv64_def Let_def m_def n1_def n0_def d0_def)
  ultimately show ?thesis using dl by (simp add: D_def)
qed


text \<open>The second case: the estimate from the upper halves, corrected by one.\<close>

lemma udiv64_large:
  assumes d: "2 ^ 32 \<le> unat d" "unat d \<le> unat n"
  shows "udiv64 n d = Some (of_nat (unat n div unat d))"
proof -
  define N D where "N = unat n" and "D = unat d"
  have bd: "N < 2 ^ 64" "D < 2 ^ 64" "2 ^ 32 \<le> D" "D \<le> N" using d unat_lt64 by (simp_all add: N_def D_def)
  define d1 :: u32 where "d1 = ucast (drop_bit 32 d)"
  define s where "s = nlz d1"
  have u1: "unat d1 = D div 2 ^ 32" using unat_lt64 [of d] by (simp add: d1_def unat_ucast32 unat_drop_bit64 D_def)
  have "0 < D div 2 ^ 32" using bd(3) by (simp add: div_greater_zero_iff)
  then have "d1 \<noteq> 0" using u1 by auto
  note nz = nlz_ok [OF this, folded s_def, unfolded u1]
  define a b where "a = (2 :: nat) ^ s" and "b = (2 :: nat) ^ (32 - s)"
  have ab: "a * b = 2 ^ 32" using nz(3) by (simp add: a_def b_def flip: power_add)
  have b2: "b = 2 \<or> 4 \<le> b"
  proof (cases "s = 31")
    case True
    then show ?thesis by (simp add: b_def)
  next
    case False
    then have "2 \<le> 32 - s" using nz(3) by simp
    then have "(2 :: nat) ^ 2 \<le> b" unfolding b_def by (rule power_increasing) simp
    then show ?thesis by simp
  qed
  define k where "k = D div 2 ^ 32"
  have a0: "0 < a" by (simp add: a_def)
  have "k * a < b * a" using nz(2) ab by (simp add: a_def k_def mult.commute)
  then have kb: "k + 1 \<le> b" by simp
  have sh: "D * a < 2 ^ 64"
  proof -
    have "D < (k + 1) * 2 ^ 32" by (simp add: k_def dividend_less_div_times)
    then have "D * a < (k + 1) * 2 ^ 32 * a" using a0 by simp
    also have "\<dots> = (k + 1) * (2 ^ 32 * a)" by (rule mult.assoc)
    also have "\<dots> \<le> b * (2 ^ 32 * a)" using kb by (rule mult_le_mono1)
    also have "\<dots> = 2 ^ 32 * (a * b)" by (simp add: mult.commute mult.left_commute)
    finally show ?thesis unfolding ab by simp
  qed
  define v where "v = D * a div 2 ^ 32"
  have v: "2 ^ 31 \<le> v" "v < 2 ^ 32"
  proof -
    have "k * a * 2 ^ 32 \<le> D * a" using a0 by (simp add: k_def mult.commute mult.left_commute)
    then have "k * a \<le> v" by (simp add: v_def less_eq_div_iff_mult_less_eq)
    with nz(1) show "2 ^ 31 \<le> v" by (simp add: a_def k_def)
    show "v < 2 ^ 32" using sh by (simp add: v_def div_less_iff_less_mult)
  qed
  have uv: "unat (ucast (drop_bit 32 (push_bit s d)) :: u32) = v"
    using v(2) sh unat_push_bit64 [of d s] by (simp add: unat_ucast32 unat_drop_bit64 v_def a_def D_def)
  have q1: "N div 2 div v < 2 ^ 32"
  proof -
    have "N div 2 < 2 ^ 63" using bd(1) by simp
    also have "(2 :: nat) ^ 63 \<le> 2 ^ 32 * v" using v(1) by simp
    finally show ?thesis using v(1) by (simp add: div_less_iff_less_mult)
  qed
  define q where "q = N div (v * b)"
  have est: "N div D \<le> q" "q \<le> N div D + 1" using quotient_estimate [OF ab b2 v_def v(1) bd(1,4)] by (simp_all add: q_def)
  have qq: "N div 2 div v div 2 ^ (31 - s) = q"
  proof -
    have "(2 :: nat) * 2 ^ (31 - s) = b" using nz(3) by (simp add: b_def Suc_diff_le flip: power_Suc)
    then show ?thesis unfolding q_def div_mult2_eq [symmetric] by (metis mult.commute mult.left_commute)
  qed
  define qw :: u64 where "qw = ucast (drop_bit (31 - s) (of_nat (N div 2 div v) :: u32))"
  have uq: "unat qw = q"
  proof -
    have "unat (drop_bit (31 - s) (of_nat (N div 2 div v) :: u32)) = N div 2 div v div 2 ^ (31 - s)"
    proof -
      have "unat (drop_bit (31 - s) (of_nat (N div 2 div v) :: u32)) = drop_bit (31 - s) (unat (of_nat (N div 2 div v) :: u32))"
        using unat_lt32 [of "of_nat (N div 2 div v)"] by (simp add: unsigned_drop_bit_eq take_bit_nat_eq_self)
      then show ?thesis using q1 by (simp add: unat_of_nat drop_bit_eq_div)
    qed
    then show ?thesis by (simp add: qw_def unat_ucast64 qq)
  qed
  have dl: "divl (drop_bit 1 n) (ucast (drop_bit 32 (push_bit s d))) = Some (of_nat (N div 2 div v))"
  proof -
    have "(ucast (drop_bit 32 (push_bit s d)) :: u32) \<noteq> 0" using uv v(1) by auto
    then show ?thesis using q1 uv by (simp add: divl_def unat_drop_bit64 N_def)
  qed
  have run: "udiv64 n d = Some (if n - (qw - 1) * d < d then qw - 1 else qw)"
  proof -
    have "drop_bit 32 d \<noteq> 0" using bd(3) unat_drop_bit64 [of 32 d] by (auto simp: D_def)
    moreover have "\<not> n < d" using d(2) by (simp add: word_less_nat_alt)
    ultimately show ?thesis using dl by (simp add: udiv64_def Let_def qw_def s_def d1_def)
  qed
  have D0: "0 < D" using bd(3) by simp
  have q0: "1 \<le> q" using est(1) bd(4) D0 by (metis One_nat_def Suc_leI div_greater_zero_iff le_trans)
  have um: "unat (qw - 1) = q - 1" using uq q0 by (simp add: unat_minus_one word_unat_eq_iff)
  have le: "(q - 1) * D \<le> N" using est(2) by (metis div_times_less_eq_dividend le_diff_conv le_trans mult_le_mono1)
  have up: "unat ((qw - 1) * d) = (q - 1) * D" using um le bd(1) unat_mult64 [of "qw - 1" d] by (simp add: D_def)
  have ur: "unat (n - (qw - 1) * d) = N - (q - 1) * D" using up le by (simp add: unat_sub word_le_nat_alt N_def)
  have of: "w = (of_nat (N div D) :: u64)" if "unat w = N div D" for w
  proof -
    have "N div D < 2 ^ 64" using bd(1) by (meson div_le_dividend le_less_trans)
    then have "unat (of_nat (N div D) :: u64) = N div D" by (simp add: unat_of_nat)
    with that show ?thesis by (simp only: word_unat_eq_iff)
  qed
  show ?thesis
  proof (cases "N - (q - 1) * D < D")
    case True
    then have "N < q * D" using q0 le by (simp add: diff_mult_distrib)
    then have "N div D < q" using D0 by (simp add: div_less_iff_less_mult)
    then have "unat (qw - 1) = N div D" using um est by simp
    from of [OF this] show ?thesis using run True ur by (simp add: word_less_nat_alt D_def [symmetric] N_def [symmetric])
  next
    case False
    then have "q * D \<le> N" using q0 le by (simp add: diff_mult_distrib)
    then have "q \<le> N div D" using D0 by (simp add: less_eq_div_iff_mult_less_eq)
    then have "unat qw = N div D" using uq est by simp
    from of [OF this] show ?thesis using run False ur by (simp add: word_less_nat_alt D_def [symmetric] N_def [symmetric])
  qed
qed


lemma udiv64_ok:
  assumes "d \<noteq> 0"
  shows "udiv64 n d = Some (n div d)"
proof -
  have w: "of_nat (unat n div unat d) = n div d" by (simp add: word_unat_eq_iff unat_div_distrib flip: word_arith_nat_div)
  consider "unat d < 2 ^ 32" | "2 ^ 32 \<le> unat d" "unat n < unat d" | "2 ^ 32 \<le> unat d" "unat d \<le> unat n" by linarith
  then show ?thesis
  proof cases
    case 1
    with udiv64_small [OF assms] w show ?thesis by simp
  next
    case 2
    have "drop_bit 32 d \<noteq> 0" using 2(1) unat_drop_bit64 [of 32 d] by auto
    moreover have "n div d = 0" using 2(2) by (simp add: word_unat_eq_iff unat_div_distrib)
    ultimately show ?thesis using 2(2) by (simp add: udiv64_def word_less_nat_alt)
  next
    case 3
    with udiv64_large w show ?thesis by simp
  qed
qed

section \<open>Signed division\<close>

lemma uint_lt64: "uint (w :: u64) < 18446744073709551616" and uint_ge0: "0 \<le> uint w"
  using uint_lt2p [of w] by simp_all

lemma sint64: "sint (w :: u64) = (if uint w < 9223372036854775808 then uint w else uint w - 18446744073709551616)"
proof -
  have "sint w = signed_take_bit 63 (uint w)" by (simp add: sint_uint)
  also have "\<dots> = take_bit 64 (uint w + 2 ^ 63) - 2 ^ 63" by (simp add: signed_take_bit_eq_take_bit_shift)
  also have "\<dots> = (uint w + 2 ^ 63) mod 2 ^ 64 - 2 ^ 63" by (simp add: take_bit_eq_mod)
  finally have s: "sint w = (uint w + 9223372036854775808) mod 18446744073709551616 - 9223372036854775808" by simp
  show ?thesis
  proof (cases "uint w < 9223372036854775808")
    case True
    with uint_ge0 [of w] have "(uint w + 9223372036854775808) mod 18446744073709551616 = uint w + 9223372036854775808"
      by (intro mod_pos_pos_trivial) auto
    with True s show ?thesis by simp
  next
    case False
    have "(uint w + 9223372036854775808) mod 18446744073709551616
        = (uint w - 9223372036854775808 + 18446744073709551616) mod 18446744073709551616" by (simp add: add.commute)
    also have "\<dots> = (uint w - 9223372036854775808) mod 18446744073709551616" by (rule mod_add_self2)
    also have "\<dots> = uint w - 9223372036854775808" using False uint_lt64 [of w] by (intro mod_pos_pos_trivial) auto
    finally show ?thesis using False s by simp
  qed
qed

lemma uint_neg64: "w \<noteq> 0 \<Longrightarrow> uint (- w :: u64) = 18446744073709551616 - uint w"
proof -
  assume "w \<noteq> 0"
  then have u: "uint w \<noteq> 0" by (simp add: uint_0_iff)
  have "uint (- w) = (- uint w) mod 18446744073709551616" by (simp add: uint_word_ariths)
  also have "\<dots> = (18446744073709551616 - uint w) mod 18446744073709551616"
    using mod_add_self1 [of 18446744073709551616 "- uint w"] by simp
  also have "\<dots> = 18446744073709551616 - uint w" 
    by (rule mod_pos_pos_trivial) (use u uint_ge0 [of w] uint_lt64 [of w] in linarith)+
  finally show ?thesis .
qed

lemma abs64: "uint (if sint w \<ge> 0 then w else - w) = \<bar>sint (w :: u64)\<bar>"
proof (cases "sint w \<ge> 0")
  case True
  then have "sint w = uint w" using uint_lt64 [of w] by (auto simp: sint64 split: if_splits)
  with True show ?thesis by simp
next
  case False
  then have s: "sint w = uint w - 18446744073709551616" "w \<noteq> 0" by (auto simp: sint64 split: if_splits)
  with False show ?thesis using uint_neg64 [OF s(2)] by simp
qed

lemma sint_small: "uint w < 9223372036854775808 \<Longrightarrow> sint (w :: u64) = uint w"
  by (simp add: sint64)

lemma sint_neg_small: "uint w \<le> 9223372036854775808 \<Longrightarrow> sint (- w :: u64) = - uint w"
  by (cases "w = 0") (simp_all add: sint64 uint_neg64)

section \<open>Properties\<close>

text \<open>
  C23. \<^verbatim>\<open>__udivdi3\<close>, built from the 32-bit divide instruction, computes the quotient of 64-bit numbers: the
  instruction never traps for a non-zero divisor, neither when the divisor has 32 bits nor in the
  shifted estimate for larger ones, and for a zero divisor it always traps.
\<close>

theorem udivdi3_is_division:
  "udivdi3 n d = (if d = 0 then None else Some (n div d))"
  using udiv64_ok [of d n] by (simp add: udivdi3_def) (simp add: udiv64_def)

text \<open>
  C35. \<^verbatim>\<open>__umoddi3\<close> returns only the lower 32 bits of the remainder, so it is right exactly when the remainder
  has 32 bits.
\<close>

theorem umoddi3_truncates:
  assumes "d \<noteq> 0"
  shows "\<exists>r. umoddi3 n d = Some r \<and> unat r = unat (n mod d) mod 2 ^ 32 \<and> (r = n mod d \<longleftrightarrow> unat (n mod d) < 2 ^ 32)"
proof -
  have "n - d * (n div d) = n mod d" by (simp add: minus_mult_div_eq_mod)
  then have r: "umoddi3 n d = Some (ucast (ucast (n mod d) :: u32))"
    using udiv64_ok [OF assms, of n] by (simp add: umoddi3_def umod64_def)
  have u: "unat (ucast (ucast (n mod d) :: u32) :: u64) = unat (n mod d) mod 2 ^ 32" unfolding unat_ucast64 unat_ucast32 ..
  have "(ucast (ucast (n mod d) :: u32) :: u64) = n mod d \<longleftrightarrow> unat (n mod d) mod 2 ^ 32 = unat (n mod d)"
    unfolding word_unat_eq_iff u ..
  also have "\<dots> \<longleftrightarrow> unat (n mod d) < 2 ^ 32" by (metis mod_less mod_less_divisor zero_less_numeral zero_less_power)
  finally show ?thesis using r u by blast
qed

theorem umoddi3_truncates_witness:
  "\<exists>r. umoddi3 0x100000000 0x200000000 = Some r \<and> r \<noteq> 0x100000000 mod 0x200000000"
  using umoddi3_truncates [of "0x200000000" "0x100000000"] by auto

text \<open>
  C56. \<^verbatim>\<open>__divdi3\<close> computes the quotient of signed numbers rounded towards zero, except for the one quotient that
  has no 64-bit representation.
\<close>

theorem divdi3_is_signed_division:
  assumes "d \<noteq> 0" and "\<not> (sint n = - (2 ^ 63) \<and> sint d = - 1)"
  shows "\<exists>q. divdi3 n d = Some q \<and> sint q = cdiv (sint n) (sint d)"
proof -
  define N D where "N = (if sint n \<ge> 0 then n else - n)" and "D = (if sint d \<ge> 0 then d else - d)"
  have abs: "uint N = \<bar>sint n\<bar>" "uint D = \<bar>sint d\<bar>" unfolding N_def D_def by (rule abs64)+
  have dz: "sint d \<noteq> 0" using assms(1) by (simp add: signed_eq_0_iff)
  then have Dz: "D \<noteq> 0" using abs(2) by auto
  define q where "q = N div D"
  have q: "uint q = \<bar>sint n\<bar> div \<bar>sint d\<bar>" by (simp add: q_def uint_div_distrib abs)
  have run: "divdi3 n d = Some (if (sint n < 0) = (sint d < 0) then q else - q)"
    using udiv64_ok [OF Dz, of N] unfolding N_def D_def q_def by (simp add: divdi3_def sdiv64_def Let_def)
  have range: "- 9223372036854775808 \<le> sint n" "sint n < 9223372036854775808"
    using uint_lt64 [of n] by (auto simp: sint64 intro: order_trans [OF _ uint_ge0])
  have le: "\<bar>sint n\<bar> div \<bar>sint d\<bar> \<le> \<bar>sint n\<bar>" using dz zdiv_mono2 [of "\<bar>sint n\<bar>" 1 "\<bar>sint d\<bar>"] by simp
  have q63: "uint q \<le> 9223372036854775808" using q le range by linarith
  show ?thesis
  proof (cases "(sint n < 0) = (sint d < 0)")
    case True
    have "uint q < 9223372036854775808"
    proof (rule ccontr)
      assume "\<not> uint q < 9223372036854775808"
      with q63 q have e: "\<bar>sint n\<bar> div \<bar>sint d\<bar> = 9223372036854775808" by linarith
      with le range have n: "sint n = - 9223372036854775808" by linarith
      with True dz have "sint d < 0" by simp
      moreover have "\<bar>sint d\<bar> = 1"
      proof (rule ccontr)
        assume "\<bar>sint d\<bar> \<noteq> 1"
        then have "2 \<le> \<bar>sint d\<bar>" using dz by linarith
        then have "\<bar>sint n\<bar> div \<bar>sint d\<bar> \<le> \<bar>sint n\<bar> div 2" by (intro zdiv_mono2) auto
        with e n show False by simp
      qed
      ultimately show False using assms(2) n by simp
    qed
    then have "sint q = \<bar>sint n\<bar> div \<bar>sint d\<bar>" using q by (simp add: sint_small)
    moreover have "cdiv (sint n) (sint d) = \<bar>sint n\<bar> div \<bar>sint d\<bar>" using True dz by (auto simp: cdiv_def sgn_if)
    ultimately show ?thesis using run True by simp
  next
    case False
    have "sint (- q) = - (\<bar>sint n\<bar> div \<bar>sint d\<bar>)" using q q63 by (simp add: sint_neg_small)
    moreover have "cdiv (sint n) (sint d) = - (\<bar>sint n\<bar> div \<bar>sint d\<bar>)" using False dz by (auto simp: cdiv_def sgn_if)
    ultimately show ?thesis using run False by simp
  qed
qed

theorem divdi3_is_signed_division_witness:
  "\<exists>q. divdi3 (- 7) 2 = Some q \<and> sint q = - 3"
  using divdi3_is_signed_division [of 2 "- 7"] by (simp add: cdiv_def)

end
