(* ===== verification/Stdlib.thy ===== *)
theory Stdlib
  imports Kstring "HOL-Library.Multiset"
begin

text \<open>
  \<^verbatim>\<open>lib/stdlib.c\<close>: parsing of integers, heap sort and binary search.  An array of \<^verbatim>\<open>cnt\<close> elements of \<^verbatim>\<open>size\<close> bytes is a
  list of elements; an index is computed without wrap-around, as for arrays that fit the address space.
  The indices of the heap start at 1, as in the code; an access outside the array is undefined.
\<close>

text \<open>The bytes of a string constant.\<close>

definition str :: "string \<Rightarrow> byte list" where
  "str s = map of_char s"

section \<open>Integers in decimal\<close>

definition isdigit :: "byte \<Rightarrow> bool" where
  "isdigit c \<longleftrightarrow> 48 \<le> c \<and> c \<le> 57"

definition isspace :: "byte \<Rightarrow> bool" where
  "isspace c \<longleftrightarrow> c \<in> {32, 12, 10, 13, 9, 11}"

text \<open>The digits are collected as a negative number; \<open>i32\<close> is the wrap-around of \<^verbatim>\<open>int\<close>.\<close>

fun atoi_digits :: "byte list \<Rightarrow> int \<Rightarrow> int" where
  "atoi_digits [] v = v"
| "atoi_digits (c # cs) v = (if isdigit c then atoi_digits cs (i32 (v * 10 - int (unat c - 48))) else v)"

definition atoi :: "byte list \<Rightarrow> int" where
  "atoi s = (
     let s = dropWhile isspace s;
         (negative, s) = (case s of
            c # cs \<Rightarrow> if c = 43 then (False, cs) else if c = 45 then (True, cs) else (False, s)
          | [] \<Rightarrow> (False, s));
         v = atoi_digits s 0
     in if negative then v else i32 (- v))"

section \<open>Heap sort\<close>

definition elem :: "'a list \<Rightarrow> nat \<Rightarrow> 'a option" where
  "elem array idx = (if idx = 0 then None else arr_get array (idx - 1))"

definition do_swap :: "'a list \<Rightarrow> nat \<Rightarrow> nat \<Rightarrow> 'a list option" where
  "do_swap array a_idx b_idx = do {
     a \<leftarrow> elem array a_idx;
     b \<leftarrow> elem array b_idx;
     Some (array[a_idx - 1 := b, b_idx - 1 := a]) }"

definition do_compare :: "('a \<Rightarrow> 'a \<Rightarrow> int) \<Rightarrow> 'a list \<Rightarrow> nat \<Rightarrow> nat \<Rightarrow> int option" where
  "do_compare compare array a_idx b_idx = do {
     a \<leftarrow> elem array a_idx;
     b \<leftarrow> elem array b_idx;
     Some (compare a b) }"

text \<open>The larger of an element and one of its children.\<close>

definition larger :: "('a \<Rightarrow> 'a \<Rightarrow> int) \<Rightarrow> 'a list \<Rightarrow> nat \<Rightarrow> nat \<Rightarrow> nat \<Rightarrow> nat option" where
  "larger compare array cnt child m =
     (if child \<le> cnt then do { c \<leftarrow> do_compare compare array child m; Some (if c > 0 then child else m) } else Some m)"

function heapify :: "('a \<Rightarrow> 'a \<Rightarrow> int) \<Rightarrow> nat \<Rightarrow> 'a list \<Rightarrow> nat \<Rightarrow> 'a list option" where
  "heapify compare cnt array i =
     (if i = 0 then None
      else do {
        m \<leftarrow> larger compare array cnt (2 * i) i;
        m \<leftarrow> larger compare array cnt (2 * i + 1) m;
        if m = i then Some array
        else do { array \<leftarrow> do_swap array i m; heapify compare cnt array m } })"
  by auto
termination
  by (relation "measure (\<lambda>(compare, cnt, array, i). cnt - i)")
    (auto simp: larger_def Option.bind_eq_Some_conv split: if_splits)

declare heapify.simps [simp del]

definition sort_array :: "('a \<Rightarrow> 'a \<Rightarrow> int) \<Rightarrow> 'a list \<Rightarrow> 'a list option" where
  "sort_array compare array = do {
     let cnt = length array;
     array \<leftarrow> for_loop 0 (cnt div 2) (\<lambda>k array. heapify compare cnt array (cnt div 2 - k)) array;
     for_loop 0 (cnt - 1) (\<lambda>k array. do {
       array \<leftarrow> do_swap array 1 (cnt - k);
       heapify compare (cnt - k - 1) array 1 }) array }"

definition qsort :: "('a \<Rightarrow> 'a \<Rightarrow> int) \<Rightarrow> 'a list \<Rightarrow> 'a list option" where
  "qsort compare array = sort_array compare array"

section \<open>Binary search\<close>

text \<open>The pointers \<^verbatim>\<open>first\<close> and \<^verbatim>\<open>last\<close> as indices.\<close>

function search_loop :: "('a \<Rightarrow> int) \<Rightarrow> 'a list \<Rightarrow> nat \<Rightarrow> nat \<Rightarrow> nat option option" where
  "search_loop compare array first lst =
     (if first < lst then do {
        let middle = first + (lst - first) div 2;
        e \<leftarrow> arr_get array middle;
        let cmp = compare e;
        if cmp < 0 then search_loop compare array first middle
        else if cmp > 0 then search_loop compare array (middle + 1) lst
        else Some (Some middle) }
      else Some None)"
  by auto
termination
  by (relation "measure (\<lambda>(compare, array, first, lst). lst - first)") auto

declare search_loop.simps [simp del]

definition binary_search :: "('k \<Rightarrow> 'a \<Rightarrow> int) \<Rightarrow> 'k \<Rightarrow> 'a list \<Rightarrow> nat option option" where
  "binary_search compare key array = search_loop (compare key) array 0 (length array)"

definition bsearch :: "('k \<Rightarrow> 'a \<Rightarrow> int) \<Rightarrow> 'k \<Rightarrow> 'a list \<Rightarrow> nat option option" where
  "bsearch compare key array = binary_search compare key array"


section \<open>The heap\<close>

text \<open>What \<^verbatim>\<open>compare\<close> must be: the sign of a total preorder.\<close>

definition cmp_ok :: "('a \<Rightarrow> 'a \<Rightarrow> int) \<Rightarrow> bool" where
  "cmp_ok compare \<longleftrightarrow> (\<forall>a b. compare a b \<le> 0 \<or> compare b a \<le> 0) \<and> (\<forall>a b c. compare a b \<le> 0 \<longrightarrow> compare b c \<le> 0 \<longrightarrow> compare a c \<le> 0)"

abbreviation el :: "'a list \<Rightarrow> nat \<Rightarrow> 'a" where
  "el a k \<equiv> a ! (k - 1)"

text \<open>Below \<open>cnt\<close>, no element whose parent has index at least \<open>lo\<close>, and is not \<open>hole\<close>, exceeds its parent.\<close>

definition heap_except :: "('a \<Rightarrow> 'a \<Rightarrow> int) \<Rightarrow> 'a list \<Rightarrow> nat \<Rightarrow> nat \<Rightarrow> nat \<Rightarrow> bool" where
  "heap_except compare a lo cnt hole \<longleftrightarrow>
     (\<forall>k. 2 \<le> k \<and> k \<le> cnt \<and> lo \<le> k div 2 \<and> k div 2 \<noteq> hole \<longrightarrow> compare (el a k) (el a (k div 2)) \<le> 0)"

abbreviation is_heap :: "('a \<Rightarrow> 'a \<Rightarrow> int) \<Rightarrow> 'a list \<Rightarrow> nat \<Rightarrow> nat \<Rightarrow> bool" where
  "is_heap compare a lo cnt \<equiv> heap_except compare a lo cnt 0"

text \<open>The children of the hole do not exceed its parent.\<close>

definition bridged :: "('a \<Rightarrow> 'a \<Rightarrow> int) \<Rightarrow> 'a list \<Rightarrow> nat \<Rightarrow> nat \<Rightarrow> nat \<Rightarrow> bool" where
  "bridged compare a lo cnt i \<longleftrightarrow>
     (\<forall>k. k \<le> cnt \<and> k div 2 = i \<and> 2 \<le> i \<and> lo \<le> i div 2 \<longrightarrow> compare (el a k) (el a (i div 2)) \<le> 0)"

lemma cmp_refl: "cmp_ok compare \<Longrightarrow> compare a a \<le> 0"
  by (auto simp: cmp_ok_def)

lemma cmp_trans: "cmp_ok compare \<Longrightarrow> compare a b \<le> 0 \<Longrightarrow> compare b c \<le> 0 \<Longrightarrow> compare a c \<le> 0"
  by (auto simp: cmp_ok_def)

lemma cmp_total: "cmp_ok compare \<Longrightarrow> \<not> compare a b \<le> 0 \<Longrightarrow> compare b a \<le> 0"
  by (auto simp: cmp_ok_def)

lemma elem_ok: "1 \<le> k \<Longrightarrow> k \<le> length a \<Longrightarrow> elem a k = Some (el a k)"
  by (simp add: elem_def)

lemma larger_ok:
  assumes c: "cmp_ok compare" and m: "1 \<le> m" "m \<le> cnt" and cnt: "cnt \<le> length a" and ch: "1 \<le> child"
  shows "\<exists>m'. larger compare a cnt child m = Some m' \<and> m' \<le> cnt \<and> (m' = m \<or> m' = child) \<and> compare (el a m) (el a m') \<le> 0
    \<and> (child \<le> cnt \<longrightarrow> compare (el a child) (el a m') \<le> 0)"
proof (cases "child \<le> cnt")
  case True
  then have "do_compare compare a child m = Some (compare (el a child) (el a m))"
    using m cnt ch elem_ok [of child a] elem_ok [of m a] by (simp add: do_compare_def)
  with True m show ?thesis using cmp_refl [OF c] cmp_total [OF c, of "el a child" "el a m"]
    by (cases "compare (el a child) (el a m) > 0") (auto simp: larger_def)
next
  case False
  with m show ?thesis using cmp_refl [OF c] by (simp add: larger_def)
qed

lemma swap_ok:
  assumes "1 \<le> i" "i \<le> length a" "1 \<le> j" "j \<le> length a"
  shows "do_swap a i j = Some (a[i - 1 := el a j, j - 1 := el a i])"
  using assms by (simp add: do_swap_def elem_ok)

lemma el_swap:
  assumes "1 \<le> i" "i \<le> length a" "1 \<le> j" "j \<le> length a" "1 \<le> k" "k \<le> length a"
  shows "el (a[i - 1 := el a j, j - 1 := el a i]) k = (if k = j then el a i else if k = i then el a j else el a k)"
  using assms by (auto simp: nth_list_update)

lemma heapify_ok:
  assumes c: "cmp_ok compare" and "cnt \<le> length a" "1 \<le> i" "i \<le> cnt" "lo \<le> i" "1 \<le> lo"
    and "heap_except compare a lo cnt i" "bridged compare a lo cnt i"
  shows "\<exists>a'. heapify compare cnt a i = Some a' \<and> is_heap compare a' lo cnt \<and> mset a' = mset a \<and> drop cnt a' = drop cnt a"
  using assms(2-)
proof (induction "cnt - i" arbitrary: a i rule: less_induct)
  case less
  let ?l = "2 * i" and ?r = "2 * i + 1"
  from larger_ok [OF c less.prems(2,3,1), of ?l] less.prems(2) obtain m1 where
    m1: "larger compare a cnt ?l i = Some m1" "m1 \<le> cnt" "m1 = i \<or> m1 = ?l" "compare (el a i) (el a m1) \<le> 0"
    "?l \<le> cnt \<Longrightarrow> compare (el a ?l) (el a m1) \<le> 0" by auto
  have "1 \<le> m1" using m1(3) less.prems(2) by auto
  from larger_ok [OF c this m1(2) less.prems(1), of ?r] obtain m where
    m: "larger compare a cnt ?r m1 = Some m" "m \<le> cnt" "m = m1 \<or> m = ?r" "compare (el a m1) (el a m) \<le> 0"
    "?r \<le> cnt \<Longrightarrow> compare (el a ?r) (el a m) \<le> 0" by auto
  have im: "compare (el a i) (el a m) \<le> 0" by (rule cmp_trans [OF c m1(4) m(4)])
  have child: "compare (el a k) (el a m) \<le> 0" if "k div 2 = i" "k \<le> cnt" for k
  proof -
    have "k = ?l \<or> k = ?r" using that(1) by linarith
    then show ?thesis using m(5) that(2) cmp_trans [OF c m1(5) m(4)] by auto
  qed
  show ?case
  proof (cases "m = i")
    case True
    have "is_heap compare a lo cnt" unfolding heap_except_def
    proof (intro allI impI)
      fix k
      assume k: "2 \<le> k \<and> k \<le> cnt \<and> lo \<le> k div 2 \<and> k div 2 \<noteq> 0"
      show "compare (el a k) (el a (k div 2)) \<le> 0"
        using child [of k] k True less.prems(6) by (cases "k div 2 = i") (auto simp: heap_except_def)
    qed
    moreover have "heapify compare cnt a i = Some a" using m(1) m1(1) True less.prems(2) by (subst heapify.simps) simp
    ultimately show ?thesis by blast
  next
    case False
    have mi: "i < m" "m div 2 = i" "1 \<le> m" using m(3) m1(3) False less.prems(2) by auto
    let ?a = "a[i - 1 := el a m, m - 1 := el a i]"
    have ln: "i \<le> length a" "m \<le> length a" using less.prems(1,3) m(2) by simp_all
    note el' = el_swap [OF less.prems(2) ln(1) mi(3) ln(2)]
    have sw: "do_swap a i m = Some ?a" by (rule swap_ok [OF less.prems(2) ln(1) mi(3) ln(2)])
    have run: "heapify compare cnt a i = heapify compare cnt ?a m"
      using m(1) m1(1) False less.prems(2) sw by (subst heapify.simps) simp
    have h: "heap_except compare ?a lo cnt m" unfolding heap_except_def
    proof (intro allI impI)
      fix k
      assume k: "2 \<le> k \<and> k \<le> cnt \<and> lo \<le> k div 2 \<and> k div 2 \<noteq> m"
      then have kl: "1 \<le> k" "k \<le> length a" "1 \<le> k div 2" "k div 2 \<le> length a" "k div 2 < k" using less.prems(1,5) by auto
      consider "k div 2 = i" | "k = i" | "k div 2 \<noteq> i" "k \<noteq> i" by blast
      then show "compare (el ?a k) (el ?a (k div 2)) \<le> 0"
      proof cases
        case 1
        then show ?thesis unfolding el' [OF kl(1,2)] el' [OF kl(3,4)] using im child [OF 1] k mi by auto
      next
        case 2
        then have "compare (el a m) (el a (i div 2)) \<le> 0" using less.prems(7) k mi(2) m(2) by (auto simp: bridged_def)
        then show ?thesis unfolding el' [OF kl(1,2)] el' [OF kl(3,4)] using 2 mi kl(5) by auto
      next
        case 3
        then have "k \<noteq> m" using mi(2) by auto
        then show ?thesis unfolding el' [OF kl(1,2)] el' [OF kl(3,4)] using 3 k less.prems(6) by (auto simp: heap_except_def)
      qed
    qed
    have b: "bridged compare ?a lo cnt m" unfolding bridged_def
    proof (intro allI impI)
      fix k
      assume k: "k \<le> cnt \<and> k div 2 = m \<and> 2 \<le> m \<and> lo \<le> m div 2"
      then have kl: "1 \<le> k" "k \<le> length a" "k \<noteq> m" "k \<noteq> i" using less.prems(1) mi by auto
      have "compare (el a k) (el a m) \<le> 0" 
        using less.prems(4) less.prems(6) [unfolded heap_except_def, rule_format, of k] k mi by auto
      then show "compare (el ?a k) (el ?a (m div 2)) \<le> 0"
        unfolding el' [OF kl(1,2)] mi(2) el' [OF less.prems(2) ln(1)] using kl mi by simp
    qed
    have "cnt - m < cnt - i" "cnt \<le> length ?a" "lo \<le> m" using mi m(2) less.prems(1,4) by auto
    from less.hyps [OF this(1,2) mi(3) m(2) this(3) less.prems(5) h b] obtain a' where
      IH: "heapify compare cnt ?a m = Some a'" "is_heap compare a' lo cnt" "mset a' = mset ?a" "drop cnt a' = drop cnt ?a" by blast
    have "mset ?a = mset a" using ln mi(3) less.prems(2) by (intro mset_swap) auto
    moreover have "drop cnt ?a = drop cnt a" using less.prems(2,3) m(2) mi(3) by simp
    ultimately show ?thesis using run IH by auto
  qed
qed


text \<open>The root of a heap is its largest element.\<close>

lemma heap_root:
  assumes c: "cmp_ok compare" and h: "is_heap compare a 1 n" and k: "1 \<le> k" "k \<le> n"
  shows "compare (el a k) (el a 1) \<le> 0"
  using k
proof (induction k rule: less_induct)
  case (less k)
  show ?case
  proof (cases "k = 1")
    case True
    then show ?thesis using cmp_refl [OF c] by simp
  next
    case False
    then have "k div 2 < k" "1 \<le> k div 2" "k div 2 \<le> n" "2 \<le> k" using less.prems by auto
    moreover have "compare (el a k) (el a (k div 2)) \<le> 0" using h less.prems calculation by (auto simp: heap_except_def)
    ultimately show ?thesis using less.IH cmp_trans [OF c] by blast
  qed
qed

lemma build_heap_ok:
  assumes c: "cmp_ok compare"
  shows "\<exists>a'. for_loop 0 (length a div 2) (\<lambda>k array. heapify compare (length a) array (length a div 2 - k)) a = Some a'
    \<and> length a' = length a \<and> mset a' = mset a \<and> is_heap compare a' 1 (length a)"
proof -
  let ?n = "length a"
  let ?I = "\<lambda>k b. length b = ?n \<and> mset b = mset a \<and> is_heap compare b (?n div 2 - k + 1) ?n"
  have "\<exists>a'. for_loop 0 (?n div 2) (\<lambda>k array. heapify compare ?n array (?n div 2 - k)) a = Some a' \<and> ?I (?n div 2) a'"
  proof (rule for_loop_rule [where I = ?I])
    show "?I 0 a" by (auto simp: heap_except_def)
  next
    fix k b
    assume k: "0 \<le> k" "k < ?n div 2" and b: "?I k b"
    let ?i = "?n div 2 - k"
    have i: "1 \<le> ?i" "?i \<le> ?n" "?n \<le> length b" using k b by auto
    have "heap_except compare b ?i ?n ?i" unfolding heap_except_def
    proof (intro allI impI)
      fix x
      assume x: "2 \<le> x \<and> x \<le> ?n \<and> ?i \<le> x div 2 \<and> x div 2 \<noteq> ?i"
      then have "?i + 1 \<le> x div 2" by linarith
      with b x show "compare (el b x) (el b (x div 2)) \<le> 0" by (auto simp: heap_except_def)
    qed
    moreover have "bridged compare b ?i ?n ?i" by (auto simp: bridged_def)
    ultimately obtain b' where b': "heapify compare ?n b ?i = Some b'" "is_heap compare b' ?i ?n" "mset b' = mset b"
      using heapify_ok [OF c i(3,1,2) order_refl i(1)] by blast
    moreover have "length b' = ?n" using b'(3) b by (metis size_mset)
    moreover have "?n div 2 - Suc k + 1 = ?i" using k by simp
    ultimately show "\<exists>b'. heapify compare ?n b ?i = Some b' \<and> ?I (Suc k) b'" using b by auto
  qed auto
  then show ?thesis by auto
qed

text \<open>The second loop: below \<open>n\<close> a heap, from \<open>n\<close> on the largest elements in order.\<close>

definition sorting :: "('a \<Rightarrow> 'a \<Rightarrow> int) \<Rightarrow> 'a list \<Rightarrow> nat \<Rightarrow> bool" where
  "sorting compare b n \<longleftrightarrow> is_heap compare b 1 n \<and> sorted_wrt (\<lambda>x y. compare x y \<le> 0) (drop n b)
     \<and> (\<forall>x \<in> set (take n b). \<forall>y \<in> set (drop n b). compare x y \<le> 0)"

lemma sorting_step:
  assumes c: "cmp_ok compare" and s: "sorting compare b n" and n: "2 \<le> n" "n \<le> length b"
  shows "\<exists>b'. (do { b1 \<leftarrow> do_swap b 1 n; heapify compare (n - 1) b1 1 }) = Some b' \<and> mset b' = mset b \<and> sorting compare b' (n - 1)"
proof -
  have ln: "(1::nat) \<le> 1" "1 \<le> length b" "1 \<le> n" using n by auto
  let ?b = "b[1 - 1 := el b n, n - 1 := el b 1]"
  note el' = el_swap [OF ln n(2)]
  have sw: "do_swap b 1 n = Some ?b" by (rule swap_ok [OF ln n(2)])
  have hb: "is_heap compare b 1 n" using s by (simp add: sorting_def)
  have h: "heap_except compare ?b 1 (n - 1) 1" unfolding heap_except_def
  proof (intro allI impI)
    fix k
    assume k: "2 \<le> k \<and> k \<le> n - 1 \<and> 1 \<le> k div 2 \<and> k div 2 \<noteq> 1"
    then have kl: "1 \<le> k" "k \<le> length b" "1 \<le> k div 2" "k div 2 \<le> length b" "k div 2 < n" "k < n" "k \<noteq> 1" using n by auto
    have "compare (el b k) (el b (k div 2)) \<le> 0" using hb k kl by (auto simp: heap_except_def)
    then show "compare (el ?b k) (el ?b (k div 2)) \<le> 0"
      unfolding el' [OF kl(1,2)] el' [OF kl(3,4)] using k kl by auto
  qed
  have "bridged compare ?b 1 (n - 1) 1" by (simp add: bridged_def)
  moreover have "n - 1 \<le> length ?b" "1 \<le> n - 1" using n by auto
  ultimately obtain b' where b': "heapify compare (n - 1) ?b 1 = Some b'" "is_heap compare b' 1 (n - 1)" "mset b' = mset ?b"
    "drop (n - 1) b' = drop (n - 1) ?b"
    using heapify_ok [OF c _ ln(1) _ ln(1) ln(1) h] by blast
  have mb: "mset ?b = mset b" using n by (intro mset_swap) auto
  have top: "drop (n - 1) ?b = el b 1 # drop n b"
  proof -
    have "drop (n - 1) ?b = ?b ! (n - 1) # drop (Suc (n - 1)) ?b" using n by (intro Cons_nth_drop_Suc [symmetric]) auto
    then show ?thesis using n by simp
  qed
  have tk: "mset (take (n - 1) b') = mset (take n b) - {#el b 1#}"
  proof -
    have "mset (take (n - 1) b') + mset (drop (n - 1) b') = mset b" using b'(3) mb by (simp flip: mset_append)
    moreover have "mset (drop (n - 1) b') = {#el b 1#} + mset (drop n b)" using b'(4) top by simp
    moreover have "mset (take n b) + mset (drop n b) = mset b" by (simp flip: mset_append)
    ultimately have "mset (take (n - 1) b') + {#el b 1#} + mset (drop n b) = mset (take n b) + mset (drop n b)"
      by (simp only: add.assoc)
    then have "mset (take (n - 1) b') + {#el b 1#} = mset (take n b)" by (rule add_right_imp_eq)
    then show ?thesis by (metis add_diff_cancel_right')
  qed
  have sub: "set (take (n - 1) b') \<subseteq> set (take n b)"
    using tk by (metis in_diffD set_mset_mset subsetI)
  have max: "compare x (el b 1) \<le> 0" if "x \<in> set (take n b)" for x
  proof -
    from that obtain k where "k < n" "k < length b" "x = b ! k" by (auto simp: in_set_conv_nth)
    then show ?thesis using heap_root [OF c hb, of "Suc k"] by simp
  qed
  have e1: "el b 1 \<in> set (take n b)" using n by (auto simp: in_set_conv_nth intro!: exI [of _ 0])
  have s': "sorted_wrt (\<lambda>x y. compare x y \<le> 0) (drop n b)" "\<forall>x \<in> set (take n b). \<forall>y \<in> set (drop n b). compare x y \<le> 0"
    using s by (simp_all add: sorting_def)
  have "sorting compare b' (n - 1)"
    unfolding sorting_def b'(4) top using b'(2) s' e1 max sub by auto
  with sw b'(1,3) mb show ?thesis by simp
qed

lemma sort_array_ok:
  assumes c: "cmp_ok compare"
  shows "\<exists>b. sort_array compare a = Some b \<and> mset b = mset a \<and> sorted_wrt (\<lambda>x y. compare x y \<le> 0) b"
proof -
  let ?n = "length a"
  from build_heap_ok [OF c, of a] obtain a1 where
    a1: "for_loop 0 (?n div 2) (\<lambda>k array. heapify compare ?n array (?n div 2 - k)) a = Some a1"
    "length a1 = ?n" "mset a1 = mset a" "is_heap compare a1 1 ?n" by blast
  let ?I = "\<lambda>k b. length b = ?n \<and> mset b = mset a \<and> sorting compare b (?n - k)"
  let ?body = "\<lambda>k array. do { array \<leftarrow> do_swap array 1 (?n - k); heapify compare (?n - k - 1) array 1 }"
  have "\<exists>b. for_loop 0 (?n - 1) ?body a1 = Some b \<and> ?I (?n - 1) b"
  proof (rule for_loop_rule [where I = ?I])
    show "?I 0 a1" using a1 by (simp add: sorting_def)
  next
    fix k b
    assume k: "0 \<le> k" "k < ?n - 1" and b: "?I k b"
    then have "2 \<le> ?n - k" "?n - k \<le> length b" "sorting compare b (?n - k)" by auto
    from sorting_step [OF c this(3,1,2)] obtain b' where
      "?body k b = Some b'" "mset b' = mset b" "sorting compare b' (?n - k - 1)" by auto
    moreover have "length b' = ?n" using calculation(2) b by (metis size_mset)
    ultimately show "\<exists>b'. ?body k b = Some b' \<and> ?I (Suc k) b'" using b by auto
  qed auto
  then obtain b where b: "for_loop 0 (?n - 1) ?body a1 = Some b" "?I (?n - 1) b" by blast
  have "sorted_wrt (\<lambda>x y. compare x y \<le> 0) b"
  proof (cases b)
    case (Cons x xs)
    then have "?n - (?n - 1) = 1" using b(2) by (cases a) auto
    with b(2) Cons show ?thesis by (auto simp: sorting_def)
  qed simp
  with b a1(1) show ?thesis by (auto simp: sort_array_def Let_def)
qed


section \<open>Binary search\<close>

text \<open>An array in the order of \<open>compare\<close> for a key: first the elements below it, then the matches, then those above.\<close>

definition key_sorted :: "('a \<Rightarrow> int) \<Rightarrow> 'a list \<Rightarrow> bool" where
  "key_sorted compare a \<longleftrightarrow> (\<forall>i j. i < j \<and> j < length a \<longrightarrow> (compare (a ! i) \<le> 0 \<longrightarrow> compare (a ! j) \<le> 0) \<and> (compare (a ! i) < 0 \<longrightarrow> compare (a ! j) < 0))"

lemma search_loop_ok:
  assumes "key_sorted compare a" "lst \<le> length a"
    and "\<forall>i < first. i < length a \<longrightarrow> compare (a ! i) > 0" "\<forall>i < length a. lst \<le> i \<longrightarrow> compare (a ! i) < 0"
  shows "\<exists>r. search_loop compare a first lst = Some r
    \<and> (case r of Some i \<Rightarrow> i < length a \<and> compare (a ! i) = 0 | None \<Rightarrow> \<forall>i < length a. compare (a ! i) \<noteq> 0)"
  using assms
proof (induction compare a first lst rule: search_loop.induct)
  case (1 compare a first lst)
  show ?case
  proof (cases "first < lst")
    case False
    have "compare (a ! i) \<noteq> 0" if "i < length a" for i using 1(5,6) that False by (cases "i < first") force+
    with False show ?thesis by (subst search_loop.simps) simp
  next
    case True
    define m where "m = first + (lst - first) div 2"
    have m: "first \<le> m" "m < lst" "m < length a" using True 1(4) by (auto simp: m_def)
    have g: "arr_get a m = Some (a ! m)" using m(3) by simp
    note IH = 1(1,2) [OF True m_def g refl]
    have run: "search_loop compare a first lst = (if compare (a ! m) < 0 then search_loop compare a first m
        else if compare (a ! m) > 0 then search_loop compare a (m + 1) lst else Some (Some m))"
      using True g by (subst search_loop.simps) (simp add: m_def [symmetric] Let_def)
    consider "compare (a ! m) < 0" | "compare (a ! m) > 0" | "compare (a ! m) = 0" by linarith
    then show ?thesis
    proof cases
      case 1
      have "\<forall>i < length a. m \<le> i \<longrightarrow> compare (a ! i) < 0"
        using \<open>key_sorted compare a\<close> 1 unfolding key_sorted_def by (metis le_neq_implies_less)
      with IH(1) [OF 1 \<open>key_sorted compare a\<close>] m \<open>\<forall>i < first. _\<close> run 1 show ?thesis by auto
    next
      case 2
      have "compare (a ! i) > 0" if "i < m + 1" "i < length a" for i
      proof (rule ccontr)
        assume "\<not> compare (a ! i) > 0"
        moreover have "i \<noteq> m" using calculation 2 by auto
        ultimately have "compare (a ! m) \<le> 0" using \<open>key_sorted compare a\<close> that m(3) unfolding key_sorted_def by (metis Suc_eq_plus1 less_SucE not_less)
        with 2 show False by simp
      qed
      with IH(2) [OF _ 2 \<open>key_sorted compare a\<close>] 1(4,6) run 2 show ?thesis by auto
    next
      case 3
      with run m show ?thesis by auto
    qed
  qed
qed

section \<open>Properties\<close>

text \<open>
  C28. \<^verbatim>\<open>qsort\<close> terminates, stays inside the array, and sorts: the result is a permutation of the array in
  ascending order, whenever \<^verbatim>\<open>compare\<close> is a total preorder.
\<close>

theorem qsort_sorts:
  assumes "cmp_ok compare"
  shows "\<exists>b. qsort compare a = Some b \<and> mset b = mset a \<and> sorted_wrt (\<lambda>x y. compare x y \<le> 0) b"
  using sort_array_ok [OF assms, of a] by (simp add: qsort_def)

theorem qsort_sorts_witness:
  "qsort (\<lambda>x y. x - y) [3, 1, 2 :: int] = Some [1, 2, 3]"
proof -
  have "cmp_ok (\<lambda>x y. x - y :: int)" by (auto simp: cmp_ok_def)
  from qsort_sorts [OF this, of "[3, 1, 2]"] obtain b where b: "qsort (\<lambda>x y. x - y) [3, 1, 2 :: int] = Some b"
    "mset b = mset [3, 1, 2]" "sorted_wrt (\<lambda>x y. x - y \<le> 0) b" by blast
  have "sorted b" using b(3) by (simp add: sorted_wrt_iff_nth_less)
  then have "b = sort [3, 1, 2]" using b(2) by (metis properties_for_sort)
  with b(1) show ?thesis by simp
qed

text \<open>
  C37. \<^verbatim>\<open>bsearch\<close> on an array in the order of \<^verbatim>\<open>compare\<close> terminates, returns a matching element when there is one,
  and a null pointer only when there is none.
\<close>

theorem bsearch_finds:
  assumes "key_sorted (compare key) a"
  shows "\<exists>r. bsearch compare key a = Some r
    \<and> (case r of Some i \<Rightarrow> i < length a \<and> compare key (a ! i) = 0 | None \<Rightarrow> \<forall>e \<in> set a. compare key e \<noteq> 0)"
proof -
  from search_loop_ok [OF assms, of "length a" 0] obtain r where r: "search_loop (compare key) a 0 (length a) = Some r"
    "case r of Some i \<Rightarrow> i < length a \<and> compare key (a ! i) = 0 | None \<Rightarrow> \<forall>i < length a. compare key (a ! i) \<noteq> 0" by auto
  then show ?thesis by (cases r) (auto simp: bsearch_def binary_search_def in_set_conv_nth)
qed

theorem bsearch_finds_witness:
  "\<exists>i. bsearch (\<lambda>k x. k - x) 5 [1, 5, 9 :: int] = Some (Some i) \<and> [1, 5, 9 :: int] ! i = 5"
proof -
  have "key_sorted (\<lambda>x. 5 - x) [1, 5, 9 :: int]" by (auto simp: key_sorted_def nth_Cons split: nat.splits)
  from bsearch_finds [of "\<lambda>k x. k - x", OF this] show ?thesis by (auto split: option.splits)
qed


text \<open>The number that a string of digits denotes.\<close>

definition decimal :: "byte list \<Rightarrow> int" where
  "decimal ds = foldl (\<lambda>v c. v * 10 + int (unat c - 48)) 0 ds"

lemma decimal_grow: "0 \<le> v \<Longrightarrow> v \<le> foldl (\<lambda>v c. v * 10 + int (unat (c :: byte) - 48)) v ds"
proof (induction ds arbitrary: v)
  case (Cons d ds)
  have "v \<le> v * 10 + int (unat d - 48)" using Cons.prems by simp
  also have "\<dots> \<le> foldl (\<lambda>v c. v * 10 + int (unat c - 48)) (v * 10 + int (unat d - 48)) ds" using Cons by simp
  finally show ?case by simp
qed simp

lemma atoi_digits_ok:
  assumes "\<forall>c \<in> set ds. isdigit c" "rest = [] \<or> \<not> isdigit (hd rest)" "0 \<le> v"
    and "foldl (\<lambda>v c. v * 10 + int (unat c - 48)) v ds \<le> 2 ^ 31"
  shows "atoi_digits (ds @ rest) (- v) = - foldl (\<lambda>v c. v * 10 + int (unat c - 48)) v ds"
  using assms
proof (induction ds arbitrary: v)
  case Nil
  then show ?case by (cases rest) auto
next
  case (Cons d ds)
  let ?v = "v * 10 + int (unat d - 48)"
  have "0 \<le> ?v" using Cons.prems(3) by simp
  moreover have "?v \<le> 2 ^ 31" using decimal_grow [OF \<open>0 \<le> ?v\<close>, of ds] Cons.prems(4) by simp
  ultimately have "i32 (- v * 10 - int (unat d - 48)) = - ?v" by (subst i32_id) auto
  then show ?case using Cons.IH [of ?v] Cons.prems \<open>0 \<le> ?v\<close> by simp
qed

lemma atoi_reads:
  assumes "\<forall>c \<in> set ws. isspace c" and "ds \<noteq> []" and "\<forall>c \<in> set ds. isdigit c" and "rest = [] \<or> \<not> isdigit (hd rest)"
  shows "(decimal ds < 2 ^ 31 \<longrightarrow> atoi (ws @ ds @ rest) = decimal ds) \<and> (decimal ds \<le> 2 ^ 31 \<longrightarrow> atoi (ws @ 45 # ds @ rest) = - decimal ds)"
proof -
  obtain d ds' where d: "ds = d # ds'" "isdigit d" using assms(2,3) by (cases ds) auto
  have nd: "\<not> isspace d" "d \<noteq> 43" "d \<noteq> 45" using d(2) by (auto simp: isdigit_def isspace_def)
  have sp: "dropWhile isspace (ws @ c # cs) = c # cs" if "\<not> isspace c" for c cs
    using assms(1) that by (simp add: dropWhile_append2)
  have m: "\<not> isspace 45" by (simp add: isspace_def)
  have dg: "atoi_digits (ds @ rest) 0 = - decimal ds" if "decimal ds \<le> 2 ^ 31"
    using atoi_digits_ok [OF assms(3,4), of 0] that by (simp add: decimal_def)
  have pos: "0 \<le> decimal ds" using decimal_grow [of 0 ds] by (simp add: decimal_def)
  show ?thesis
  proof (intro conjI impI)
    assume lt: "decimal ds < 2 ^ 31"
    have "atoi (ws @ ds @ rest) = i32 (- atoi_digits (ds @ rest) 0)"
      using sp [OF nd(1), of "ds' @ rest"] nd(2,3) by (simp add: atoi_def d(1) Let_def)
    with dg lt pos show "atoi (ws @ ds @ rest) = decimal ds" by (simp add: i32_id)
  next
    assume le: "decimal ds \<le> 2 ^ 31"
    have "atoi (ws @ 45 # ds @ rest) = atoi_digits (ds @ rest) 0" using sp [OF m, of "ds @ rest"] by (simp add: atoi_def Let_def)
    with dg le show "atoi (ws @ 45 # ds @ rest) = - decimal ds" by simp
  qed
qed

text \<open>
  C59. \<^verbatim>\<open>atoi\<close> reads back what decimal notation denotes: after white space, an optional minus sign and digits up to
  the first other character, the result is the number, for every number that fits an \<^verbatim>\<open>int\<close>, the
  smallest one included.
\<close>

theorem atoi_decimal:
  assumes "\<forall>c \<in> set ws. isspace c" and "ds \<noteq> []" and "\<forall>c \<in> set ds. isdigit c" and "rest = [] \<or> \<not> isdigit (hd rest)"
  shows "(decimal ds < 2 ^ 31 \<longrightarrow> atoi (ws @ ds @ rest) = decimal ds) \<and> (decimal ds \<le> 2 ^ 31 \<longrightarrow> atoi (ws @ 45 # ds @ rest) = - decimal ds)"
  by (rule atoi_reads [OF assms])

theorem atoi_decimal_witness:
  "atoi [32, 45, 50, 49, 52, 55, 52, 56, 51, 54, 52, 56] = - 2147483648"
  using atoi_decimal [of "[32]" "[50, 49, 52, 55, 52, 56, 51, 54, 52, 56]" "[]"] by (simp add: isspace_def isdigit_def decimal_def)

end
