(* ===== verification/Prng.thy ===== *)
theory Prng
  imports Prelude
begin

text \<open>
  \<^verbatim>\<open>lib/random.c\<close>: the RC4 generator.  Its state is the array \<^verbatim>\<open>s\<close>, the two indices, which wrap around as bytes,
  and whether it has been initialised.
\<close>

section \<open>The generator\<close>

record prng =
  s_arr :: "byte list"
  s_i :: byte
  s_j :: byte
  inited :: bool

definition swap_byte :: "byte list \<Rightarrow> byte \<Rightarrow> byte \<Rightarrow> byte list option" where
  "swap_byte s a b = do {
     x \<leftarrow> arr_get s (unat a);
     y \<leftarrow> arr_get s (unat b);
     s \<leftarrow> arr_set s (unat a) y;
     arr_set s (unat b) x }"

definition random_init :: "u32 \<Rightarrow> prng \<Rightarrow> prng option" where
  "random_init seed g = do {
     let seedp = le32 seed;
     s \<leftarrow> for_loop 0 256 (\<lambda>i s. arr_set s i (of_nat i)) (s_arr g);
     (s, j) \<leftarrow> for_loop 0 256 (\<lambda>i (s, j). do {
       x \<leftarrow> arr_get s i;
       k \<leftarrow> arr_get seedp (i mod 4);
       let j = j + (x + k);
       s \<leftarrow> swap_byte s (of_nat i) j;
       Some (s, j) }) (s, 0);
     Some (g\<lparr>s_arr := s, s_i := 0, s_j := 0, inited := True\<rparr>) }"

text \<open>One round of the loop of \<^verbatim>\<open>random_bytes\<close>.\<close>

definition random_byte :: "prng \<Rightarrow> (byte \<times> prng) option" where
  "random_byte g = do {
     let i = s_i g + 1;
     x \<leftarrow> arr_get (s_arr g) (unat i);
     let j = s_j g + x;
     s \<leftarrow> swap_byte (s_arr g) i j;
     x \<leftarrow> arr_get s (unat i);
     y \<leftarrow> arr_get s (unat j);
     b \<leftarrow> arr_get s (unat (x + y));
     Some (b, g\<lparr>s_arr := s, s_i := i, s_j := j\<rparr>) }"

fun random_loop :: "nat \<Rightarrow> prng \<Rightarrow> (byte list \<times> prng) option" where
  "random_loop 0 g = Some ([], g)"
| "random_loop (Suc n) g = do { (b, g) \<leftarrow> random_byte g; (bs, g) \<leftarrow> random_loop n g; Some (b # bs, g) }"

definition random_bytes :: "nat \<Rightarrow> prng \<Rightarrow> (byte list \<times> prng) option" where
  "random_bytes sze g = do {
     g \<leftarrow> (if inited g then Some g else random_init 0 g);
     random_loop sze g }"

definition random_ulong :: "prng \<Rightarrow> (u32 \<times> prng) option" where
  "random_ulong g = do { (bs, g) \<leftarrow> random_bytes 4 g; Some (un_le32 bs, g) }"

section \<open>The array stays a permutation\<close>

definition perm256 :: "byte list \<Rightarrow> bool" where
  "perm256 s \<longleftrightarrow> length s = 256 \<and> distinct s"

lemma unat_byte: "unat (b :: byte) < 256"
  using unsigned_less [of b] by simp

lemma swap_byte_ok:
  assumes "perm256 s"
  shows "\<exists>s'. swap_byte s a b = Some s' \<and> perm256 s'"
proof -
  have l: "unat a < length s" "unat b < length s" using assms unat_byte by (simp_all add: perm256_def)
  let ?s = "s[unat a := s ! unat b, unat b := s ! unat a]"
  have "distinct ?s" using l assms by (simp add: perm256_def)
  with l assms show ?thesis by (simp add: swap_byte_def perm256_def)
qed

lemma random_init_ok:
  assumes "length (s_arr g) = 256"
  shows "\<exists>g'. random_init seed g = Some g' \<and> perm256 (s_arr g') \<and> inited g'"
proof -
  let ?I = "\<lambda>i s. length s = 256 \<and> (\<forall>k < i. s ! k = of_nat k)"
  have "\<exists>s. for_loop 0 256 (\<lambda>i s. arr_set s i (of_nat i)) (s_arr g) = Some s \<and> ?I 256 s"
    by (rule for_loop_rule [where I = ?I]) (use assms in \<open>auto simp: nth_list_update less_Suc_eq\<close>)
  then obtain s where s: "for_loop 0 256 (\<lambda>i s. arr_set s i (of_nat i)) (s_arr g) = Some s" "?I 256 s" by blast
  have "inj_on (of_nat :: nat \<Rightarrow> byte) {..<256}" by (rule inj_onI) (simp add: word_unat_eq_iff unat_of_nat)
  then have p: "perm256 s" using s(2) by (auto simp: perm256_def distinct_conv_nth inj_on_def)
  let ?body = "\<lambda>i (s, j). do { x \<leftarrow> arr_get s i; k \<leftarrow> arr_get (le32 seed) (i mod 4); let j = j + (x + k);
       s \<leftarrow> swap_byte s (of_nat i) j; Some (s, j) }"
  have "\<exists>t. for_loop 0 256 ?body (s, 0) = Some t \<and> perm256 (fst t)"
  proof (rule for_loop_rule [where I = "\<lambda>_ t. perm256 (fst t)"])
    fix i :: nat and t :: "byte list \<times> byte"
    assume i: "0 \<le> i" "i < 256" and t: "perm256 (fst t)"
    obtain s j where sj: "t = (s, j)" by (cases t)
    have g: "arr_get s i = Some (s ! i)" "arr_get (le32 seed) (i mod 4) = Some (le32 seed ! (i mod 4))"
      using i t by (simp_all add: sj perm256_def)
    from swap_byte_ok [of s "of_nat i" "j + (s ! i + le32 seed ! (i mod 4))"] t sj obtain s' where
      "swap_byte s (of_nat i) (j + (s ! i + le32 seed ! (i mod 4))) = Some s'" "perm256 s'" by auto
    with g show "\<exists>t'. ?body i t = Some t' \<and> perm256 (fst t')" by (simp add: sj Let_def)
  qed (use p in auto)
  then obtain t where "for_loop 0 256 ?body (s, 0) = Some t" "perm256 (fst t)" by blast
  with s(1) show ?thesis by (cases t) (simp add: random_init_def Let_def)
qed

lemma random_byte_ok:
  assumes "perm256 (s_arr g)"
  shows "\<exists>b g'. random_byte g = Some (b, g') \<and> perm256 (s_arr g') \<and> inited g' = inited g"
proof -
  have l: "unat (k :: byte) < length (s_arr g)" for k using assms unat_byte by (simp add: perm256_def)
  from swap_byte_ok [OF assms, of "s_i g + 1" "s_j g + s_arr g ! unat (s_i g + 1)"] obtain s where
    s: "swap_byte (s_arr g) (s_i g + 1) (s_j g + s_arr g ! unat (s_i g + 1)) = Some s" "perm256 s" by blast
  have l': "unat (k :: byte) < length s" for k using s(2) unat_byte by (simp add: perm256_def)
  show ?thesis using l l' s by (simp add: random_byte_def Let_def)
qed

lemma random_loop_ok:
  "perm256 (s_arr g) \<Longrightarrow> \<exists>bs g'. random_loop n g = Some (bs, g') \<and> length bs = n \<and> perm256 (s_arr g') \<and> inited g' = inited g"
proof (induction n arbitrary: g)
  case (Suc n)
  from random_byte_ok [OF Suc.prems] obtain b g1 where b: "random_byte g = Some (b, g1)" "perm256 (s_arr g1)" "inited g1 = inited g" by blast
  from Suc.IH [OF b(2)] b show ?case by auto
qed simp

text \<open>What holds of the generator between calls: before the first call the array only has its length.\<close>

definition prng_ok :: "prng \<Rightarrow> bool" where
  "prng_ok g \<longleftrightarrow> length (s_arr g) = 256 \<and> (inited g \<longrightarrow> perm256 (s_arr g))"

section \<open>Properties\<close>

text \<open>
  C40. The generator never reads or writes outside its array: from any state that the calls leave, and from
  the zeroed state at boot, \<^verbatim>\<open>random_bytes\<close> returns the number of bytes asked for and keeps the array a
  permutation of the 256 bytes.
\<close>

theorem random_bytes_keeps_permutation:
  assumes "prng_ok g"
  shows "\<exists>bs g'. random_bytes n g = Some (bs, g') \<and> length bs = n \<and> prng_ok g' \<and> inited g' \<and> set (s_arr g') = UNIV"
proof -
  obtain g1 where g1: "(if inited g then Some g else random_init 0 g) = Some g1" "perm256 (s_arr g1)" "inited g1"
    using assms random_init_ok [of g 0] by (cases "inited g") (auto simp: prng_ok_def)
  from random_loop_ok [OF g1(2), of n] obtain bs g' where
    r: "random_loop n g1 = Some (bs, g')" "length bs = n" "perm256 (s_arr g')" "inited g'" using g1(3) by auto
  have "card (set (s_arr g')) = card (UNIV :: byte set)" using r(3) by (simp add: perm256_def distinct_card card_word)
  then have "set (s_arr g') = UNIV" by (intro card_subset_eq) simp_all
  with r g1(1) show ?thesis by (simp add: random_bytes_def prng_ok_def perm256_def)
qed

theorem random_bytes_keeps_permutation_witness:
  "\<exists>bs g'. random_bytes 3 \<lparr>s_arr = replicate 256 0, s_i = 0, s_j = 0, inited = False\<rparr> = Some (bs, g') \<and> length bs = 3"
  using random_bytes_keeps_permutation [of "\<lparr>s_arr = replicate 256 0, s_i = 0, s_j = 0, inited = False\<rparr>" 3] by (auto simp: prng_ok_def)

end
