(* ===== verification/Klist_Family.thy ===== *)
theory Klist_Family
  imports Klist
begin

text \<open>
  Several kernel lists in one heap.  \<open>lists h F\<close> says that \<open>F\<close> gives the elements of each list that exists in \<open>h\<close>,
  by the address of its \<^verbatim>\<open>struct list\<close>, and that no cell belongs to two of them.  The scheduler, the semaphores and
  the condition variables work on such a family.
\<close>

definition lists :: "heap \<Rightarrow> (addr \<Rightarrow> addr list option) \<Rightarrow> bool" where
  "lists h F \<longleftrightarrow> (\<forall>l xs. F l = Some xs \<longrightarrow> is_list h l xs)
     \<and> (\<forall>l l' xs ys. l \<noteq> l' \<longrightarrow> F l = Some xs \<longrightarrow> F l' = Some ys \<longrightarrow> cells l xs \<inter> cells l' ys = {})"

definition owned :: "(addr \<Rightarrow> addr list option) \<Rightarrow> addr set" where
  "owned F = (\<Union>l. case F l of None \<Rightarrow> {} | Some xs \<Rightarrow> cells l xs)"

lemma owned_iff: "e \<in> owned F \<longleftrightarrow> (\<exists>l xs. F l = Some xs \<and> e \<in> cells l xs)"
  by (auto simp: owned_def split: option.splits)

lemma ownedI: "F l = Some xs \<Longrightarrow> e \<in> cells l xs \<Longrightarrow> e \<in> owned F"
  unfolding owned_iff by blast

lemma owned_shrink:
  assumes "F l = Some xs" and "set ys \<subseteq> set xs"
  shows "owned (F(l \<mapsto> ys)) \<subseteq> owned F"
proof
  fix e
  assume "e \<in> owned (F(l \<mapsto> ys))"
  then obtain l' zs where z: "(F(l \<mapsto> ys)) l' = Some zs" "e \<in> cells l' zs" unfolding owned_iff by blast
  show "e \<in> owned F"
  proof (cases "l' = l")
    case True
    with z assms have "e \<in> cells l xs" by (auto simp: cells_def)
    with assms(1) show ?thesis by (rule ownedI)
  next
    case False
    with z show ?thesis by (auto intro: ownedI)
  qed
qed

lemma owned_push:
  assumes "F l = Some xs"
  shows "owned (F(l \<mapsto> xs @ [e])) = insert e (owned F)"
proof (intro equalityI subsetI)
  fix a
  assume "a \<in> owned (F(l \<mapsto> xs @ [e]))"
  then obtain l' zs where z: "(F(l \<mapsto> xs @ [e])) l' = Some zs" "a \<in> cells l' zs" unfolding owned_iff by blast
  then show "a \<in> insert e (owned F)"
    using ownedI [of F l xs a] ownedI [of F l' zs a] assms by (cases "l' = l") (auto simp: cells_def)
next
  fix a
  assume "a \<in> insert e (owned F)"
  then consider "a = e" | l' zs where "F l' = Some zs" "a \<in> cells l' zs" unfolding insert_iff owned_iff by blast
  then show "a \<in> owned (F(l \<mapsto> xs @ [e]))"
  proof cases
    case 1
    then show ?thesis by (intro ownedI [of _ l "xs @ [e]"]) simp_all
  next
    case 2
    show ?thesis
    proof (cases "l' = l")
      case True
      then show ?thesis using 2 assms by (intro ownedI [of _ l "xs @ [e]"]) (auto simp: cells_def)
    next
      case False
      then show ?thesis using 2 by (intro ownedI [of _ l' zs]) simp_all
    qed
  qed
qed

lemma lists_is_list: "lists h F \<Longrightarrow> F l = Some xs \<Longrightarrow> is_list h l xs"
  by (simp add: lists_def)

lemma lists_disjoint: "lists h F \<Longrightarrow> l \<noteq> l' \<Longrightarrow> F l = Some xs \<Longrightarrow> F l' = Some ys \<Longrightarrow> cells l xs \<inter> cells l' ys = {}"
  by (simp add: lists_def)

text \<open>An element is in one list only, and at one place there.\<close>

lemma lists_elem_unique:
  "lists h F \<Longrightarrow> F l = Some xs \<Longrightarrow> F l' = Some ys \<Longrightarrow> e \<in> set xs \<Longrightarrow> e \<in> set ys \<Longrightarrow> l = l'"
  using lists_disjoint [of h F l l' xs ys] by (auto simp: cells_def)

lemma lists_distinct: "lists h F \<Longrightarrow> F l = Some xs \<Longrightarrow> distinct xs \<and> NULL \<notin> set xs"
  using lists_is_list is_list_distinct by blast

text \<open>An operation on one list, which touches only its cells and cells of no list, keeps the others.\<close>

lemma lists_update:
  assumes F: "lists h F" and l: "is_list h' l ys" and s: "same_outside h h' S"
    and S: "\<And>l' zs. l' \<noteq> l \<Longrightarrow> F l' = Some zs \<Longrightarrow> S \<inter> cells l' zs = {} \<and> cells l ys \<inter> cells l' zs = {}"
  shows "lists h' (F(l \<mapsto> ys))"
  unfolding lists_def
proof (intro conjI allI impI)
  fix l1 xs
  assume "(F(l \<mapsto> ys)) l1 = Some xs"
  then show "is_list h' l1 xs"
    using l is_list_outside [OF lists_is_list [OF F] s, of l1 xs] S [of l1 xs] by (cases "l1 = l") auto
next
  fix l1 l2 xs zs
  assume "l1 \<noteq> l2" "(F(l \<mapsto> ys)) l1 = Some xs" "(F(l \<mapsto> ys)) l2 = Some zs"
  then show "cells l1 xs \<inter> cells l2 zs = {}"
    using lists_disjoint [OF F, of l1 l2] S [of l1] S [of l2] by (auto split: if_splits)
qed

lemma lists_push:
  assumes F: "lists h F" and l: "F l = Some xs" and e: "e \<noteq> NULL" "e \<notin> owned F"
  shows "\<exists>h'. list_push_back h l e = Some h' \<and> lists h' (F(l \<mapsto> xs @ [e]))"
proof -
  have "e \<notin> cells l xs" using e(2) l by (auto simp: owned_iff)
  from list_push_back_is_list [OF lists_is_list [OF F l] e(1) this] obtain h' where
    h': "list_push_back h l e = Some h'" "is_list h' l (xs @ [e])" "same_outside h h' (insert e (cells l xs))" by blast
  have "lists h' (F(l \<mapsto> xs @ [e]))"
  proof (rule lists_update [OF F h'(2,3)])
    fix l' zs
    assume z: "l' \<noteq> l" "F l' = Some zs"
    have "e \<notin> cells l' zs" using e(2) z by (auto simp: owned_iff)
    moreover have "cells l xs \<inter> cells l' zs = {}" using lists_disjoint [OF F _ l z(2)] z(1) by simp
    ultimately show "insert e (cells l xs) \<inter> cells l' zs = {} \<and> cells l (xs @ [e]) \<inter> cells l' zs = {}" by (auto simp: cells_def)
  qed
  with h' show ?thesis by blast
qed

lemma lists_pop:
  assumes F: "lists h F" and l: "F l = Some (x # xs)"
  shows "\<exists>h'. list_pop_front h l = Some (x, h') \<and> lists h' (F(l \<mapsto> xs)) \<and> x \<notin> owned (F(l \<mapsto> xs))"
proof -
  note il = lists_is_list [OF F l]
  from list_pop_front_is_list [OF il] obtain h' where
    h': "list_pop_front h l = Some (x, h')" "is_list h' l xs" "same_outside h h' (cells l xs)" by blast
  have "lists h' (F(l \<mapsto> xs))"
  proof (rule lists_update [OF F h'(2,3)])
    fix l' zs
    assume z: "l' \<noteq> l" "F l' = Some zs"
    then show "cells l xs \<inter> cells l' zs = {} \<and> cells l xs \<inter> cells l' zs = {}"
      using lists_disjoint [OF F _ l z(2)] by (auto simp: cells_def)
  qed
  moreover have "x \<notin> owned (F(l \<mapsto> xs))"
  proof
    assume "x \<in> owned (F(l \<mapsto> xs))"
    then obtain l' zs where z: "(F(l \<mapsto> xs)) l' = Some zs" "x \<in> cells l' zs" by (auto simp: owned_iff)
    show False
    proof (cases "l' = l")
      case True
      with z is_list_distinct [OF il] show False by (auto simp: cells_def)
    next
      case False
      with z lists_disjoint [OF F _ l, of l' zs] show False by (auto simp: cells_def)
    qed
  qed
  ultimately show ?thesis using h' by blast
qed

lemma lists_empty: "lists h F \<Longrightarrow> F l = Some xs \<Longrightarrow> list_empty h l = Some (xs = [])"
  by (rule list_empty_is_list) (rule lists_is_list)

lemma lists_init:
  assumes F: "lists h F" and l: "l \<noteq> NULL" "cells l [] \<inter> owned (F(l := None)) = {}"
  shows "\<exists>h'. list_init h l = Some h' \<and> lists h' (F(l \<mapsto> []))"
proof -
  from list_init_is_list [OF l(1), of h] obtain h' where
    h': "list_init h l = Some h'" "is_list h' l []" "same_outside h h' (cells l [])" by blast
  have "lists h' (F(l \<mapsto> []))"
  proof (rule lists_update [OF F h'(2,3)])
    fix l' zs
    assume "l' \<noteq> l" "F l' = Some zs"
    then have "(F(l := None)) l' = Some zs" by simp
    then have "cells l' zs \<subseteq> owned (F(l := None))" unfolding subset_iff owned_iff by blast
    with l(2) show "cells l [] \<inter> cells l' zs = {} \<and> cells l [] \<inter> cells l' zs = {}" by blast
  qed
  with h' show ?thesis by blast
qed

lemma lists_restrict: "lists h F \<Longrightarrow> lists h (F |` A)"
  by (auto simp: lists_def restrict_map_def split: if_splits)

lemma lists_outside:
  assumes "lists h F" and "same_outside h h' S" and "S \<inter> owned F = {}"
  shows "lists h' F"
proof -
  have "S \<inter> cells l xs = {}" if "F l = Some xs" for l xs using assms(3) that unfolding disjoint_iff owned_iff by blast
  then show ?thesis using assms(1) is_list_outside [OF _ assms(2)] by (auto simp: lists_def)
qed

end
