(* ===== verification/Palloc.thy ===== *)
theory Palloc
  imports Vaddr Bitmap
begin

unbundle bit_operations_syntax

text \<open>
  \<^verbatim>\<open>threads/palloc.c\<close>: the page allocator.  Kernel memory is a function from addresses to bytes; the words of the
  two bitmaps are kept in the records of the pools.  The lock of a pool only serialises
  \<^verbatim>\<open>palloc_get_multiple\<close>, and is not part of this state.
\<close>

section \<open>Kernel memory\<close>

type_synonym kmem = "vaddr \<Rightarrow> byte"

text \<open>\<^verbatim>\<open>memset\<close> on kernel memory.\<close>

definition mem_fill :: "vaddr \<Rightarrow> byte \<Rightarrow> nat \<Rightarrow> kmem \<Rightarrow> kmem" where
  "mem_fill a v n m = (\<lambda>x. if unat (x - a) < n then v else m x)"

text \<open>A 32-bit word of memory.\<close>

definition load32 :: "kmem \<Rightarrow> vaddr \<Rightarrow> u32" where
  "load32 m a = un_le32 [m a, m (a + 1), m (a + 2), m (a + 3)]"

definition store32 :: "vaddr \<Rightarrow> u32 \<Rightarrow> kmem \<Rightarrow> kmem" where
  "store32 a v m = m(a := le32 v ! 0, a + 1 := le32 v ! 1, a + 2 := le32 v ! 2, a + 3 := le32 v ! 3)"

section \<open>Pools\<close>

record pool =
  used_map :: bitmap
  base :: vaddr

record pmem =
  kernel_pool :: pool
  user_pool :: pool
  mem :: kmem

definition PAL_ASSERT :: u32 where "PAL_ASSERT = 1"
definition PAL_ZERO :: u32 where "PAL_ZERO = 2"
definition PAL_USER :: u32 where "PAL_USER = 4"

definition page_from_pool :: "pool \<Rightarrow> vaddr \<Rightarrow> bool" where
  "page_from_pool p page = (
     let page_no = unat (pg_no page);
         start_page = unat (pg_no (base p));
         end_page = sz (start_page + bitmap_size (used_map p))
     in page_no \<ge> start_page \<and> page_no < end_page)"

definition init_pool :: "kmem \<Rightarrow> vaddr \<Rightarrow> nat \<Rightarrow> pool option" where
  "init_pool m bs page_cnt = do {
     let bm_pages = DIV_ROUND_UP (bitmap_buf_size page_cnt) 4096;
     kassert (bm_pages \<le> page_cnt);
     let page_cnt = page_cnt - bm_pages;
     bm \<leftarrow> bitmap_create_in_buf page_cnt (map (\<lambda>i. load32 m (bs + 8 + 4 * of_nat i)) [0..<elem_cnt page_cnt]) (bm_pages * 4096);
     Some \<lparr>used_map = bm, base = bs + of_nat bm_pages * PGSIZE\<rparr> }"

text \<open>
  \<open>end\<close> is the end of the kernel, \<open>ram_pages\<close> the number of pages of memory.  The difference of the pointers
  is signed.
\<close>

definition palloc_init :: "vaddr \<Rightarrow> u32 \<Rightarrow> nat \<Rightarrow> kmem \<Rightarrow> pmem option" where
  "palloc_init kend ram_pages user_page_limit m = do {
     let free_start = pg_round_up kend;
     free_end \<leftarrow> ptov (ram_pages * PGSIZE);
     let free_pages = nat (cdiv (sint (free_end - free_start)) 4096 mod 2 ^ 32);
     let user_pages = min (free_pages div 2) user_page_limit;
     let kernel_pages = free_pages - user_pages;
     kp \<leftarrow> init_pool m free_start kernel_pages;
     up \<leftarrow> init_pool m (free_start + of_nat kernel_pages * PGSIZE) user_pages;
     Some \<lparr>kernel_pool = kp, user_pool = up, mem = m\<rparr> }"

definition the_pool :: "bool \<Rightarrow> pmem \<Rightarrow> pool" where
  "the_pool user m = (if user then user_pool m else kernel_pool m)"

definition set_pool :: "bool \<Rightarrow> pool \<Rightarrow> pmem \<Rightarrow> pmem" where
  "set_pool user p m = (if user then m\<lparr>user_pool := p\<rparr> else m\<lparr>kernel_pool := p\<rparr>)"

definition palloc_get_multiple :: "u32 \<Rightarrow> nat \<Rightarrow> pmem \<Rightarrow> (vaddr \<times> pmem) option" where
  "palloc_get_multiple flags page_cnt m = (
     let user = (flags AND PAL_USER \<noteq> 0); p = the_pool user m in
     if page_cnt = 0 then Some (0, m)
     else do {
       (page_idx, bm) \<leftarrow> bitmap_scan_and_flip (used_map p) 0 page_cnt False;
       let m = set_pool user (p\<lparr>used_map := bm\<rparr>) m;
       let pages = (if page_idx \<noteq> BITMAP_ERROR then base p + PGSIZE * of_nat page_idx else 0);
       if pages \<noteq> 0 then
         Some (pages, if flags AND PAL_ZERO \<noteq> 0 then m\<lparr>mem := mem_fill pages 0 (sz (4096 * page_cnt)) (mem m)\<rparr> else m)
       else do { kassert (flags AND PAL_ASSERT = 0); Some (pages, m) } })"

definition palloc_get_page :: "u32 \<Rightarrow> pmem \<Rightarrow> (vaddr \<times> pmem) option" where
  "palloc_get_page flags m = palloc_get_multiple flags 1 m"

definition palloc_free_multiple :: "vaddr \<Rightarrow> nat \<Rightarrow> pmem \<Rightarrow> pmem option" where
  "palloc_free_multiple pages page_cnt m = do {
     kassert (pg_ofs pages = 0);
     if pages = 0 \<or> page_cnt = 0 then Some m
     else do {
       user \<leftarrow> (if page_from_pool (kernel_pool m) pages then Some False
                else if page_from_pool (user_pool m) pages then Some True
                else None);
       let p = the_pool user m;
       let page_idx = unat (pg_no pages - pg_no (base p));
       let m = m\<lparr>mem := mem_fill pages 0xcc (sz (4096 * page_cnt)) (mem m)\<rparr>;
       ok \<leftarrow> bitmap_all (used_map p) page_idx page_cnt;
       kassert ok;
       bm \<leftarrow> bitmap_set_multiple (used_map p) page_idx page_cnt False;
       Some (set_pool user (p\<lparr>used_map := bm\<rparr>) m) } }"

definition palloc_free_page :: "vaddr \<Rightarrow> pmem \<Rightarrow> pmem option" where
  "palloc_free_page page m = palloc_free_multiple page 1 m"

section \<open>Well-formed pools\<close>

definition pool_ok :: "pool \<Rightarrow> bool" where
  "pool_ok p \<longleftrightarrow> bm_wf (used_map p) \<and> pg_ofs (base p) = 0 \<and> base p \<noteq> 0 \<and> unat (base p) + 4096 * bit_cnt (used_map p) < 2 ^ 32"

definition pool_end :: "pool \<Rightarrow> nat" where
  "pool_end p = unat (base p) + 4096 * bit_cnt (used_map p)"

definition palloc_ok :: "pmem \<Rightarrow> bool" where
  "palloc_ok m \<longleftrightarrow> pool_ok (kernel_pool m) \<and> pool_ok (user_pool m) \<and> pool_end (kernel_pool m) \<le> unat (base (user_pool m))"

text \<open>The page of a pool with the given index, and whether a page is allocated.\<close>

definition page_at :: "pool \<Rightarrow> nat \<Rightarrow> vaddr" where
  "page_at p i = base p + 4096 * of_nat i"

definition in_use :: "pmem \<Rightarrow> vaddr \<Rightarrow> bool" where
  "in_use m a \<longleftrightarrow> (\<exists>user i. i < bit_cnt (used_map (the_pool user m)) \<and> a = page_at (the_pool user m) i \<and> bm_bit (used_map (the_pool user m)) i)"

lemma the_pool_ok: "palloc_ok m \<Longrightarrow> pool_ok (the_pool user m)"
  by (simp add: palloc_ok_def the_pool_def)

lemma the_pool_set [simp]: "the_pool u (set_pool v p m) = (if u = v then p else the_pool u m)"
  by (simp add: the_pool_def set_pool_def)

lemma the_pool_mem [simp]: "the_pool u (m\<lparr>mem := x\<rparr>) = the_pool u m"
  by (simp add: the_pool_def)

lemma mem_set_pool [simp]: "mem (set_pool u p m) = mem m"
  by (simp add: set_pool_def)

lemma unat_page_at:
  assumes "pool_ok p" and "i \<le> bit_cnt (used_map p)"
  shows "unat (page_at p i) = unat (base p) + 4096 * i"
proof -
  have "unat (base p) + 4096 * i < 2 ^ 32" using assms by (simp add: pool_ok_def)
  then have "unat (of_nat (unat (base p) + 4096 * i) :: u32) = unat (base p) + 4096 * i"
    by (simp add: unat_of_nat del: of_nat_add of_nat_mult)
  moreover have "page_at p i = of_nat (unat (base p) + 4096 * i)" by (simp add: page_at_def)
  ultimately show ?thesis by simp
qed

lemma base_aligned: "pool_ok p \<Longrightarrow> unat (base p) mod 4096 = 0"
  using pg_ofs_mod [of "base p"] by (simp add: pool_ok_def)

lemma pg_no_page_at:
  assumes "pool_ok p" and "i \<le> bit_cnt (used_map p)"
  shows "unat (pg_no (page_at p i)) = unat (pg_no (base p)) + i"
  using base_aligned [OF assms(1)] by (simp add: pg_no_div unat_page_at [OF assms])

lemma page_at_aligned:
  assumes "pool_ok p" and "i \<le> bit_cnt (used_map p)"
  shows "pg_ofs (page_at p i) = 0"
proof -
  have "unat (pg_ofs (page_at p i)) = 0" using base_aligned [OF assms(1)] by (simp add: pg_ofs_mod unat_page_at [OF assms])
  then show ?thesis by (simp add: unat_eq_0)
qed

lemma page_at_nonnull:
  assumes "pool_ok p" and "i \<le> bit_cnt (used_map p)"
  shows "page_at p i \<noteq> 0"
proof -
  have "0 < unat (base p)" using assms(1) by (simp add: pool_ok_def unat_gt_0)
  then have "0 < unat (page_at p i)" by (simp add: unat_page_at [OF assms])
  then show ?thesis by auto
qed

lemma pool_no_bound:
  assumes "pool_ok p"
  shows "unat (pg_no (base p)) + bit_cnt (used_map p) < 2 ^ 20"
proof -
  have "unat (base p) = 4096 * (unat (base p) div 4096)" using base_aligned [OF assms] by auto
  moreover have "unat (base p) + 4096 * bit_cnt (used_map p) < 2 ^ 32" using assms by (simp add: pool_ok_def)
  ultimately show ?thesis by (simp add: pg_no_div)
qed

lemma page_from_pool_iff:
  assumes "pool_ok p" and "pg_ofs a = 0"
  shows "page_from_pool p a \<longleftrightarrow> (\<exists>i < bit_cnt (used_map p). a = page_at p i)"
proof
  assume f: "page_from_pool p a"
  define i where "i = unat (pg_no a) - unat (pg_no (base p))"
  have i: "i < bit_cnt (used_map p)" "unat (pg_no a) = unat (pg_no (base p)) + i"
    using f pool_no_bound [OF assms(1)] by (auto simp: page_from_pool_def Let_def bitmap_size_def i_def)
  have "unat a mod 4096 = 0" using assms(2) pg_ofs_mod [of a] by simp
  then have "unat a = 4096 * unat (pg_no a)" by (auto simp: pg_no_div)
  moreover have "unat (base p) = 4096 * unat (pg_no (base p))" using base_aligned [OF assms(1)] by (auto simp: pg_no_div)
  ultimately have "unat a = unat (page_at p i)" using i unat_page_at [OF assms(1), of i] by simp
  then have "a = page_at p i" by (simp only: word_unat_eq_iff)
  then show "\<exists>i < bit_cnt (used_map p). a = page_at p i" using i by blast
next
  assume "\<exists>i < bit_cnt (used_map p). a = page_at p i"
  then obtain i where "i < bit_cnt (used_map p)" "a = page_at p i" by blast
  then show "page_from_pool p a"
    using pg_no_page_at [OF assms(1), of i] pool_no_bound [OF assms(1)] by (simp add: page_from_pool_def Let_def bitmap_size_def)
qed

text \<open>A page of one pool is not a page of the other, and has one index.\<close>

lemma page_at_inj:
  assumes ok: "palloc_ok m" and i: "i < bit_cnt (used_map (the_pool u m))" and j: "j < bit_cnt (used_map (the_pool v m))"
    and eq: "page_at (the_pool u m) i = page_at (the_pool v m) j"
  shows "u = v \<and> i = j"
proof -
  have e: "unat (base (the_pool u m)) + 4096 * i = unat (base (the_pool v m)) + 4096 * j"
    using eq unat_page_at [OF the_pool_ok [OF ok], of i u] unat_page_at [OF the_pool_ok [OF ok], of j v] i j by simp
  have "u = v"
  proof (rule ccontr)
    assume "u \<noteq> v"
    then show False using e i j ok by (cases u) (auto simp: the_pool_def palloc_ok_def pool_end_def)
  qed
  then show ?thesis using e by simp
qed

lemma in_use_page_at:
  assumes "palloc_ok m" and "i < bit_cnt (used_map (the_pool u m))"
  shows "in_use m (page_at (the_pool u m) i) \<longleftrightarrow> bm_bit (used_map (the_pool u m)) i"
proof
  assume "in_use m (page_at (the_pool u m) i)"
  then obtain v j where j: "j < bit_cnt (used_map (the_pool v m))" "page_at (the_pool u m) i = page_at (the_pool v m) j"
    "bm_bit (used_map (the_pool v m)) j" by (auto simp: in_use_def)
  from page_at_inj [OF assms j(1,2)] j(3) show "bm_bit (used_map (the_pool u m)) i" by simp
next
  assume "bm_bit (used_map (the_pool u m)) i"
  with assms(2) show "in_use m (page_at (the_pool u m) i)" by (auto simp: in_use_def)
qed

text \<open>Changing one bitmap.\<close>

lemma set_bitmap_ok:
  assumes ok: "palloc_ok m" and b: "bm_wf bm" "bit_cnt bm = bit_cnt (used_map (the_pool u m))"
  shows "palloc_ok (set_pool u ((the_pool u m)\<lparr>used_map := bm\<rparr>) m)"
  using ok b by (cases u) (auto simp: palloc_ok_def set_pool_def the_pool_def pool_ok_def pool_end_def)

lemma page_at_used_map [simp]: "page_at (p\<lparr>used_map := bm\<rparr>) i = page_at p i"
  by (simp add: page_at_def)

text \<open>The address of the \<open>k\<close>-th page from the page with index \<open>i\<close>.\<close>

lemma page_at_add: "page_at p i + 4096 * of_nat k = page_at p (i + k)"
  by (simp add: page_at_def algebra_simps)

lemma in_use_set:
  assumes ok: "palloc_ok m" and b: "bm_wf bm" "bit_cnt bm = bit_cnt (used_map (the_pool u m))"
    and bits: "\<And>j. bm_bit bm j = (if i \<le> j \<and> j < i + n then v else bm_bit (used_map (the_pool u m)) j)"
    and le: "i + n \<le> bit_cnt bm"
  shows "in_use (set_pool u ((the_pool u m)\<lparr>used_map := bm\<rparr>) m) a
    = (if a \<in> (\<lambda>k. page_at (the_pool u m) (i + k)) ` {..<n} then v else in_use m a)"
proof -
  let ?m = "set_pool u ((the_pool u m)\<lparr>used_map := bm\<rparr>) m"
  have ok': "palloc_ok ?m" by (rule set_bitmap_ok [OF ok b])
  show ?thesis
  proof (cases "\<exists>w j. j < bit_cnt (used_map (the_pool w m)) \<and> a = page_at (the_pool w m) j")
    case True
    then obtain w j where j: "j < bit_cnt (used_map (the_pool w m))" and a: "a = page_at (the_pool w m) j" by blast
    have j': "j < bit_cnt (used_map (the_pool w ?m))" using j b by (cases "w = u") simp_all
    have a': "a = page_at (the_pool w ?m) j" using a by (cases "w = u") simp_all
    have "a \<in> (\<lambda>k. page_at (the_pool u m) (i + k)) ` {..<n} \<longleftrightarrow> w = u \<and> i \<le> j \<and> j < i + n"
    proof
      assume "a \<in> (\<lambda>k. page_at (the_pool u m) (i + k)) ` {..<n}"
      then obtain k where k: "k < n" "page_at (the_pool w m) j = page_at (the_pool u m) (i + k)" using a by auto
      have "i + k < bit_cnt (used_map (the_pool u m))" using k le b by simp
      from page_at_inj [OF ok j this k(2)] k show "w = u \<and> i \<le> j \<and> j < i + n" by simp
    next
      assume w: "w = u \<and> i \<le> j \<and> j < i + n"
      show "a \<in> (\<lambda>k. page_at (the_pool u m) (i + k)) ` {..<n}" using w a by (intro image_eqI [where x = "j - i"]) auto
    qed
    moreover have "in_use ?m a \<longleftrightarrow> bm_bit (used_map (the_pool w ?m)) j" unfolding a' by (rule in_use_page_at [OF ok' j'])
    moreover have "in_use m a \<longleftrightarrow> bm_bit (used_map (the_pool w m)) j" unfolding a by (rule in_use_page_at [OF ok j])
    ultimately show ?thesis using bits by (cases "w = u") auto
  next
    case False
    have "a \<notin> (\<lambda>k. page_at (the_pool u m) (i + k)) ` {..<n}"
    proof
      assume "a \<in> (\<lambda>k. page_at (the_pool u m) (i + k)) ` {..<n}"
      then obtain k where "k < n" "a = page_at (the_pool u m) (i + k)" by auto
      with False le b show False by (metis add_less_cancel_left less_le_trans)
    qed
    moreover have "\<not> in_use m a" using False by (auto simp: in_use_def)
    moreover have "\<not> in_use ?m a"
    proof
      assume "in_use ?m a"
      then obtain w j where j: "j < bit_cnt (used_map (the_pool w ?m))" "a = page_at (the_pool w ?m) j"
        by (auto simp: in_use_def)
      have "j < bit_cnt (used_map (the_pool w m)) \<and> a = page_at (the_pool w m) j" using j b by (cases "w = u") auto
      with False show False by blast
    qed
    ultimately show ?thesis by simp
  qed
qed

section \<open>Allocating and freeing\<close>

definition pages_from :: "vaddr \<Rightarrow> nat \<Rightarrow> vaddr set" where
  "pages_from a n = (\<lambda>k. a + 4096 * of_nat k) ` {..<n}"

lemma pages_from_page_at: "pages_from (page_at p i) n = (\<lambda>k. page_at p (i + k)) ` {..<n}"
  by (simp add: pages_from_def page_at_add)

lemma in_use_mem [simp]: "in_use (m\<lparr>mem := f\<rparr>) a = in_use m a"
  by (simp add: in_use_def)

lemma palloc_ok_mem [simp]: "palloc_ok (m\<lparr>mem := f\<rparr>) = palloc_ok m"
  by (simp add: palloc_ok_def)

lemma set_pool_same [simp]: "set_pool u (the_pool u m) m = m"
  by (cases u) (simp_all add: set_pool_def the_pool_def)

lemma pool_sz:
  assumes "pool_ok p" and "n \<le> bit_cnt (used_map p)"
  shows "sz (4096 * n) = 4096 * n"
  using assms by (simp add: pool_ok_def)

lemma palloc_get_cases:
  assumes ok: "palloc_ok m" and n: "n \<noteq> 0" and p: "p = the_pool (flags AND PAL_USER \<noteq> 0) m"
  shows "(\<exists>i m'. i + n \<le> bit_cnt (used_map p) \<and> palloc_get_multiple flags n m = Some (page_at p i, m') \<and> palloc_ok m'
      \<and> (\<forall>k < n. \<not> in_use m (page_at p (i + k)))
      \<and> (\<forall>x. in_use m' x \<longleftrightarrow> x \<in> pages_from (page_at p i) n \<or> in_use m x)
      \<and> (\<forall>x. mem m' x = (if flags AND PAL_ZERO \<noteq> 0 \<and> unat (x - page_at p i) < 4096 * n then 0 else mem m x)))
    \<or> (\<forall>i. i + n \<le> bit_cnt (used_map p) \<longrightarrow> (\<exists>k < n. in_use m (page_at p (i + k))))
      \<and> palloc_get_multiple flags n m = (if flags AND PAL_ASSERT = 0 then Some (0, m) else None)"
proof -
  let ?u = "flags AND PAL_USER \<noteq> 0"
  have pk: "pool_ok p" using the_pool_ok [OF ok] p by simp
  then have wf: "bm_wf (used_map p)" by (simp add: pool_ok_def)
  from bitmap_scan_and_flip_first [OF wf, of 0 n False] obtain i bm where s: "bitmap_scan_and_flip (used_map p) 0 n False = Some (i, bm)"
    and c: "if i = BITMAP_ERROR then bm = used_map p \<and> (\<forall>k \<ge> 0. \<not> bm_run (used_map p) k n False)
       else 0 \<le> i \<and> bm_run (used_map p) i n False \<and> (\<forall>k. 0 \<le> k \<and> k < i \<longrightarrow> \<not> bm_run (used_map p) k n False)
         \<and> bm_becomes (used_map p) bm (\<lambda>j. if i \<le> j \<and> j < i + n then \<not> False else bm_bit (used_map p) j)" by blast
  have use: "in_use m (page_at p j) \<longleftrightarrow> bm_bit (used_map p) j" if "j < bit_cnt (used_map p)" for j
    using in_use_page_at [OF ok] that unfolding p by blast
  show ?thesis
  proof (cases "i = BITMAP_ERROR")
    case True
    with c have b: "bm = used_map p" "\<And>k. \<not> bm_run (used_map p) k n False" by auto
    have "\<exists>k < n. in_use m (page_at p (k0 + k))" if "k0 + n \<le> bit_cnt (used_map p)" for k0
    proof -
      from b(2) [of k0] that obtain j where j: "k0 \<le> j" "j < k0 + n" "bm_bit (used_map p) j" by (auto simp: bm_run_def)
      then have "in_use m (page_at p (k0 + (j - k0)))" using use [of j] that by simp
      then show ?thesis using j by (intro exI [of _ "j - k0"]) auto
    qed
    moreover have "set_pool ?u (p\<lparr>used_map := bm\<rparr>) m = m" using set_pool_same [of ?u m] b p by simp
    then have "palloc_get_multiple flags n m = (if flags AND PAL_ASSERT = 0 then Some (0, m) else None)"
      using n s True unfolding palloc_get_multiple_def Let_def p [symmetric] by simp
    ultimately show ?thesis by blast
  next
    case False
    with c have r: "i + n \<le> bit_cnt (used_map p)" "\<And>j. i \<le> j \<Longrightarrow> j < i + n \<Longrightarrow> \<not> bm_bit (used_map p) j"
      and bw: "bm_wf bm" "bit_cnt bm = bit_cnt (used_map p)"
      and bb: "\<And>j. bm_bit bm j = (if i \<le> j \<and> j < i + n then True else bm_bit (used_map p) j)"
      by (auto simp: bm_run_def bm_becomes_def)
    define m1 where "m1 = set_pool ?u (p\<lparr>used_map := bm\<rparr>) m"
    define m2 where "m2 = (if flags AND PAL_ZERO \<noteq> 0 then m1\<lparr>mem := mem_fill (page_at p i) 0 (4096 * n) (mem m1)\<rparr> else m1)"
    have "i \<le> bit_cnt (used_map p)" using r(1) by simp
    note nn = page_at_nonnull [OF pk this]
    have sz: "sz (4096 * n) = 4096 * n" by (rule pool_sz [OF pk]) (use r(1) in simp)
    have "palloc_get_multiple flags n m = Some (page_at p i, m2)"
      using n s False nn unfolding palloc_get_multiple_def Let_def p [symmetric] m2_def m1_def sz by (simp add: page_at_def PGSIZE_eq)
    moreover have "palloc_ok m2" using set_bitmap_ok [OF ok bw(1), of ?u] bw(2) by (simp add: m2_def m1_def p)
    moreover have "\<forall>k < n. \<not> in_use m (page_at p (i + k))" using use r by simp
    moreover have "in_use m2 x \<longleftrightarrow> x \<in> pages_from (page_at p i) n \<or> in_use m x" for x
    proof -
      have "in_use m2 x = in_use m1 x" by (simp add: m2_def)
      also have "\<dots> = (if x \<in> (\<lambda>k. page_at p (i + k)) ` {..<n} then True else in_use m x)"
        unfolding m1_def p by (rule in_use_set [OF ok bw(1)]) (use bw(2) bb r(1) in \<open>simp_all add: p\<close>)
      finally show ?thesis by (simp add: pages_from_page_at)
    qed
    moreover have "mem m2 x = (if flags AND PAL_ZERO \<noteq> 0 \<and> unat (x - page_at p i) < 4096 * n then 0 else mem m x)" for x
      by (simp add: m2_def m1_def mem_fill_def)
    ultimately show ?thesis using r(1) by blast
  qed
qed

lemma palloc_free_cases:
  assumes ok: "palloc_ok m" and n: "n \<noteq> 0" and p: "p = the_pool u m" and i: "i < bit_cnt (used_map p)"
    and le: "i + n \<le> bit_cnt (used_map p)"
  shows "if \<forall>k < n. in_use m (page_at p (i + k))
    then \<exists>m'. palloc_free_multiple (page_at p i) n m = Some m' \<and> palloc_ok m'
      \<and> (\<forall>x. in_use m' x \<longleftrightarrow> x \<notin> pages_from (page_at p i) n \<and> in_use m x)
      \<and> (\<forall>x. mem m' x = (if unat (x - page_at p i) < 4096 * n then 0xcc else mem m x))
    else palloc_free_multiple (page_at p i) n m = None"
proof -
  have pk: "pool_ok p" using the_pool_ok [OF ok] p by simp
  then have wf: "bm_wf (used_map p)" by (simp add: pool_ok_def)
  have i': "i \<le> bit_cnt (used_map p)" using i by simp
  note al = page_at_aligned [OF pk i'] and nn = page_at_nonnull [OF pk i']
  have sel: "(if page_from_pool (kernel_pool m) (page_at p i) then Some False
      else if page_from_pool (user_pool m) (page_at p i) then Some True else None) = Some u"
  proof -
    have f: "page_from_pool (the_pool v m) (page_at p i) \<longleftrightarrow> v = u" for v
      using page_from_pool_iff [OF the_pool_ok [OF ok] al, of v] page_at_inj [OF ok, of i u _ v] i unfolding p by blast
    from f [of False] f [of True] show ?thesis by (cases u) (simp_all add: the_pool_def)
  qed
  have "unat (pg_no (base p)) \<le> unat (pg_no (page_at p i))" using pg_no_page_at [OF pk i'] by simp
  then have idx: "unat (pg_no (page_at p i) - pg_no (base p)) = i"
    using pg_no_page_at [OF pk i'] by (simp add: unat_sub word_le_nat_alt)
  have sz: "sz (4096 * n) = 4096 * n" by (rule pool_sz [OF pk]) (use le in simp)
  have all: "bitmap_all (used_map p) i n = Some (\<forall>k < n. in_use m (page_at p (i + k)))"
  proof -
    have "(\<exists>j. i \<le> j \<and> j < i + n \<and> bm_bit (used_map p) j = False) \<longleftrightarrow> \<not> (\<forall>k < n. in_use m (page_at p (i + k)))" (is "?l \<longleftrightarrow> ?r")
    proof
      assume ?l
      then obtain j where j: "i \<le> j" "j < i + n" "\<not> bm_bit (used_map p) j" by auto
      then have "\<not> in_use m (page_at p (i + (j - i)))" using in_use_page_at [OF ok, of j u] le by (simp add: p)
      then show ?r using j by (intro notI) (metis add_diff_inverse_nat nat_add_left_cancel_less not_le)
    next
      assume ?r
      then obtain k where "k < n" "\<not> in_use m (page_at p (i + k))" by blast
      then show ?l using in_use_page_at [OF ok, of "i + k" u] le by (intro exI [of _ "i + k"]) (simp add: p)
    qed
    then show ?thesis using bitmap_contains_eq [OF wf le, of False] by (auto simp: bitmap_all_def)
  qed
  let ?m1 = "m\<lparr>mem := mem_fill (page_at p i) 0xcc (4096 * n) (mem m)\<rparr>"
  have step: "palloc_free_multiple (page_at p i) n m =
     (if \<forall>k < n. in_use m (page_at p (i + k))
      then Option.bind (bitmap_set_multiple (used_map p) i n False) (\<lambda>bm. Some (set_pool u (p\<lparr>used_map := bm\<rparr>) ?m1)) else None)"
    using al nn n sel by (simp add: palloc_free_multiple_def p [symmetric] idx sz all)
  show ?thesis
  proof (cases "\<forall>k < n. in_use m (page_at p (i + k))")
    case True
    from bitmap_set_multiple_becomes [OF wf le, of False] obtain bm where bm: "bitmap_set_multiple (used_map p) i n False = Some bm"
      and bb: "bm_wf bm" "bit_cnt bm = bit_cnt (used_map p)"
        "\<And>j. bm_bit bm j = (if i \<le> j \<and> j < i + n then False else bm_bit (used_map p) j)" by (auto simp: bm_becomes_def)
    let ?m2 = "set_pool u (p\<lparr>used_map := bm\<rparr>) ?m1"
    have m2: "?m2 = (set_pool u (p\<lparr>used_map := bm\<rparr>) m)\<lparr>mem := mem ?m1\<rparr>" by (simp add: set_pool_def)
    have "palloc_ok ?m2" using set_bitmap_ok [OF ok bb(1), of u] bb(2) unfolding m2 by (simp add: p)
    moreover have "in_use ?m2 x \<longleftrightarrow> x \<notin> pages_from (page_at p i) n \<and> in_use m x" for x
    proof -
      have "in_use ?m2 x = in_use (set_pool u (p\<lparr>used_map := bm\<rparr>) m) x" unfolding m2 by simp
      also have "\<dots> = (if x \<in> (\<lambda>k. page_at p (i + k)) ` {..<n} then False else in_use m x)"
        unfolding p by (rule in_use_set [OF ok bb(1)]) (use bb(2,3) le in \<open>simp_all add: p\<close>)
      finally show ?thesis by (simp add: pages_from_page_at)
    qed
    moreover have "mem ?m2 x = (if unat (x - page_at p i) < 4096 * n then 0xcc else mem m x)" for x by (simp add: mem_fill_def)
    moreover have "palloc_free_multiple (page_at p i) n m = Some ?m2" using step True bm by simp
    ultimately show ?thesis using True by metis
  next
    case False
    show ?thesis using step unfolding if_not_P [OF False] .
  qed
qed

lemma palloc_free_page_ok:
  assumes ok: "palloc_ok m" and u: "in_use m a"
  shows "\<exists>m'. palloc_free_page a m = Some m' \<and> palloc_ok m' \<and> (\<forall>x. in_use m' x \<longleftrightarrow> x \<noteq> a \<and> in_use m x)"
proof -
  obtain v i where v: "i < bit_cnt (used_map (the_pool v m))" "a = page_at (the_pool v m) i" using u by (auto simp: in_use_def)
  have "pages_from a 1 = {a}" by (auto simp: pages_from_def)
  moreover have "\<forall>k < 1. in_use m (page_at (the_pool v m) (i + k))" using u v(2) by simp
  ultimately show ?thesis
    using palloc_free_cases [OF ok _ refl v(1), of 1] v unfolding palloc_free_page_def by auto
qed

section \<open>Initialisation\<close>

lemma bm_pages_le:
  assumes "1 \<le> n" and "n < 2 ^ 20"
  shows "DIV_ROUND_UP (bitmap_buf_size n) 4096 \<le> n" and "bitmap_buf_size (n - DIV_ROUND_UP (bitmap_buf_size n) 4096) \<le> DIV_ROUND_UP (bitmap_buf_size n) 4096 * 4096"
proof -
  have e: "bitmap_buf_size k = 8 + 4 * ((k + 31) div 32)" if "k < 2 ^ 20" for k
    using that by (simp add: bitmap_buf_size_def byte_cnt_def elem_cnt_def ELEM_BITS_def DIV_ROUND_UP_def)
  show "DIV_ROUND_UP (bitmap_buf_size n) 4096 \<le> n" using assms by (simp add: DIV_ROUND_UP_le_iff e)
  have "bitmap_buf_size (n - DIV_ROUND_UP (bitmap_buf_size n) 4096) \<le> bitmap_buf_size n"
    using assms by (subst (1 2) e) (auto intro!: div_le_mono)
  also have "\<dots> \<le> DIV_ROUND_UP (bitmap_buf_size n) 4096 * 4096" by (rule DIV_ROUND_UP_bounds) simp
  finally show "bitmap_buf_size (n - DIV_ROUND_UP (bitmap_buf_size n) 4096) \<le> DIV_ROUND_UP (bitmap_buf_size n) 4096 * 4096" .
qed

lemma init_pool_ok:
  assumes b: "unat bs mod 4096 = 0" "bs \<noteq> 0" and n: "1 \<le> n" and e: "unat bs + 4096 * n < 2 ^ 32"
  shows "\<exists>p. init_pool m bs n = Some p \<and> pool_ok p \<and> unat bs \<le> unat (base p) \<and> pool_end p = unat bs + 4096 * n
    \<and> (\<forall>j < bit_cnt (used_map p). \<not> bm_bit (used_map p) j)"
proof -
  let ?q = "DIV_ROUND_UP (bitmap_buf_size n) 4096"
  have n20: "n < 2 ^ 20" using e by simp
  note q = bm_pages_le [OF n n20]
  let ?es = "map (\<lambda>i. load32 m (bs + 8 + 4 * of_nat i)) [0..<elem_cnt (n - ?q)]"
  let ?b = "\<lparr>bit_cnt = n - ?q, bits = ?es\<rparr>"
  have wf: "bm_wf ?b" using n20 by (simp add: bm_wf_def)
  have le: "0 + (n - ?q) \<le> bit_cnt ?b" by simp
  from bitmap_set_multiple_becomes [OF wf le, of False] obtain bm where bm: "bitmap_set_multiple ?b 0 (n - ?q) False = Some bm"
    and bb: "bm_wf bm" "bit_cnt bm = n - ?q" "\<And>j. bm_bit bm j = (if j < n - ?q then False else bm_bit ?b j)" by (auto simp: bm_becomes_def)
  let ?p = "\<lparr>used_map = bm, base = bs + of_nat ?q * PGSIZE\<rparr>"
  have "unat bs + ?q * 4096 < 2 ^ 32" using q(1) e by simp
  then have "unat (of_nat (unat bs + ?q * 4096) :: u32) = unat bs + ?q * 4096" by (simp add: unat_of_nat del: of_nat_add of_nat_mult)
  then have base: "unat (bs + of_nat ?q * PGSIZE) = unat bs + ?q * 4096" by (simp add: PGSIZE_eq)
  have bpos: "0 < unat bs" using b(2) by (simp add: unat_gt_0)
  have "unat (pg_ofs (bs + of_nat ?q * PGSIZE)) = 0" using b(1) by (simp add: pg_ofs_mod base)
  then have al: "pg_ofs (bs + of_nat ?q * PGSIZE) = 0" by (simp add: unat_eq_0)
  have nz: "bs + of_nat ?q * PGSIZE \<noteq> 0"
  proof
    assume z: "bs + of_nat ?q * PGSIZE = 0"
    show False using base bpos unfolding z by simp
  qed
  have en: "unat bs + ?q * 4096 + 4096 * (n - ?q) = unat bs + 4096 * n" using q(1) by (simp add: algebra_simps)
  have "init_pool m bs n = Some ?p"
    using q bm by (simp add: init_pool_def Let_def bitmap_create_in_buf_def bitmap_set_all_def bitmap_size_def)
  moreover have "pool_ok ?p" using bb(1,2) al nz base en e by (simp add: pool_ok_def)
  moreover have "pool_end ?p = unat bs + 4096 * n" using bb(2) base en by (simp add: pool_end_def)
  ultimately show ?thesis using bb(2,3) base by (intro exI [of _ ?p]) simp
qed

section \<open>Properties\<close>

text \<open>
  C16. \<^verbatim>\<open>palloc_get_multiple\<close> hands out contiguous pages of the pool that was asked for, none of them in use, marks
  exactly these, fills them with zeros if \<^verbatim>\<open>PAL_ZERO\<close> is set, and changes no other memory; it fails only when
  the pool has no run of free pages that is long enough, and then returns null or, with \<^verbatim>\<open>PAL_ASSERT\<close>, stops.
\<close>

theorem palloc_get_multiple_correct:
  assumes "palloc_ok m" and "n \<noteq> 0" and "p = the_pool (flags AND PAL_USER \<noteq> 0) m"
  shows "(\<exists>i m'. i + n \<le> bit_cnt (used_map p) \<and> palloc_get_multiple flags n m = Some (page_at p i, m') \<and> palloc_ok m'
      \<and> (\<forall>k < n. \<not> in_use m (page_at p (i + k)))
      \<and> (\<forall>x. in_use m' x \<longleftrightarrow> x \<in> pages_from (page_at p i) n \<or> in_use m x)
      \<and> (\<forall>x. mem m' x = (if flags AND PAL_ZERO \<noteq> 0 \<and> unat (x - page_at p i) < 4096 * n then 0 else mem m x)))
    \<or> (\<forall>i. i + n \<le> bit_cnt (used_map p) \<longrightarrow> (\<exists>k < n. in_use m (page_at p (i + k))))
      \<and> palloc_get_multiple flags n m = (if flags AND PAL_ASSERT = 0 then Some (0, m) else None)"
  by (rule palloc_get_cases [OF assms])

definition sample_pmem :: pmem where
  "sample_pmem = \<lparr>kernel_pool = \<lparr>used_map = \<lparr>bit_cnt = 4, bits = [1]\<rparr>, base = 0xc0100000\<rparr>,
     user_pool = \<lparr>used_map = \<lparr>bit_cnt = 4, bits = [0]\<rparr>, base = 0xc0200000\<rparr>, mem = (\<lambda>_. 7)\<rparr>"

lemma sample_pmem_ok: "palloc_ok sample_pmem"
  by (simp add: sample_pmem_def palloc_ok_def pool_ok_def pool_end_def bm_wf_def elem_cnt_def ELEM_BITS_def DIV_ROUND_UP_def pg_ofs_def PGMASK_def BITMASK_def PGBITS_def)

lemma sample_first_used: "in_use sample_pmem 0xc0100000 \<and> \<not> in_use sample_pmem 0xc0101000"
proof -
  have a: "0xc0100000 = page_at (the_pool False sample_pmem) 0" "0xc0101000 = page_at (the_pool False sample_pmem) 1"
    by (simp_all add: page_at_def the_pool_def sample_pmem_def)
  show ?thesis unfolding a
    by (subst (1 2) in_use_page_at [OF sample_pmem_ok]) (simp_all add: the_pool_def sample_pmem_def bm_bit_def bit_1_iff)
qed

theorem palloc_get_multiple_correct_witness:
  "\<exists>a m'. palloc_get_multiple PAL_ZERO 2 sample_pmem = Some (a, m') \<and> a \<noteq> 0 \<and> mem m' a = 0 \<and> \<not> in_use sample_pmem a \<and> in_use m' a"
proof -
  let ?p = "kernel_pool sample_pmem"
  have u: "\<not> (PAL_ZERO AND PAL_USER \<noteq> 0)" "PAL_ZERO AND PAL_ZERO \<noteq> 0" by (simp_all add: PAL_ZERO_def PAL_USER_def)
  then have p: "?p = the_pool (PAL_ZERO AND PAL_USER \<noteq> 0) sample_pmem" by (simp add: the_pool_def)
  have pk: "pool_ok ?p" unfolding p by (rule the_pool_ok [OF sample_pmem_ok])
  have c: "bit_cnt (used_map ?p) = 4" by (simp add: sample_pmem_def)
  have b: "\<not> bm_bit (used_map ?p) (1 + k)" if "k < 2" for k using that by (simp add: sample_pmem_def bm_bit_def bit_1_iff)
  have free: "\<not> in_use sample_pmem (page_at ?p (1 + k))" if "k < 2" for k
    using that b [OF that] in_use_page_at [OF sample_pmem_ok, of "1 + k" False] c by (simp add: the_pool_def)
  have nf: "\<not> (\<forall>i. i + 2 \<le> bit_cnt (used_map ?p) \<longrightarrow> (\<exists>k < 2. in_use sample_pmem (page_at ?p (i + k))))"
  proof
    assume "\<forall>i. i + 2 \<le> bit_cnt (used_map ?p) \<longrightarrow> (\<exists>k < 2. in_use sample_pmem (page_at ?p (i + k)))"
    from this [rule_format, of 1] c free show False by auto
  qed
  have "(2 :: nat) \<noteq> 0" by simp
  from palloc_get_multiple_correct [OF sample_pmem_ok this p] nf obtain i m' where
    r: "i + 2 \<le> bit_cnt (used_map ?p)" "palloc_get_multiple PAL_ZERO 2 sample_pmem = Some (page_at ?p i, m')"
      "\<forall>k < 2. \<not> in_use sample_pmem (page_at ?p (i + k))" "\<forall>x. in_use m' x \<longleftrightarrow> x \<in> pages_from (page_at ?p i) 2 \<or> in_use sample_pmem x"
      "\<forall>x. mem m' x = (if PAL_ZERO AND PAL_ZERO \<noteq> 0 \<and> unat (x - page_at ?p i) < 4096 * 2 then 0 else mem sample_pmem x)"
    by blast
  have "page_at ?p i \<noteq> 0" by (rule page_at_nonnull [OF pk]) (use r(1) in simp)
  moreover have "mem m' (page_at ?p i) = 0" using r(5) u(2) by simp
  moreover have "\<not> in_use sample_pmem (page_at ?p i)" using r(3) [rule_format, of 0] by simp
  moreover have "page_at ?p i \<in> pages_from (page_at ?p i) 2" by (auto simp: pages_from_def intro: image_eqI [where x = 0])
  ultimately show ?thesis using r(2,4) by blast
qed

text \<open>
  C33. \<^verbatim>\<open>palloc_free_multiple\<close> makes exactly the pages that it is given free again and overwrites them, if all of
  them are in use; a page that is free already, as after a second free, stops the kernel.
\<close>

theorem palloc_free_multiple_correct:
  assumes "palloc_ok m" and "n \<noteq> 0" and "p = the_pool u m" and "i < bit_cnt (used_map p)" and "i + n \<le> bit_cnt (used_map p)"
  shows "if \<forall>k < n. in_use m (page_at p (i + k))
    then \<exists>m'. palloc_free_multiple (page_at p i) n m = Some m' \<and> palloc_ok m'
      \<and> (\<forall>x. in_use m' x \<longleftrightarrow> x \<notin> pages_from (page_at p i) n \<and> in_use m x)
      \<and> (\<forall>x. mem m' x = (if unat (x - page_at p i) < 4096 * n then 0xcc else mem m x))
    else palloc_free_multiple (page_at p i) n m = None"
  by (rule palloc_free_cases [OF assms])

theorem palloc_free_multiple_correct_witness:
  "(\<exists>m'. palloc_free_multiple 0xc0100000 1 sample_pmem = Some m' \<and> \<not> in_use m' 0xc0100000) \<and> palloc_free_multiple 0xc0101000 1 sample_pmem = None"
proof -
  let ?p = "the_pool False sample_pmem"
  have a: "page_at ?p 0 = 0xc0100000" "page_at ?p 1 = 0xc0101000" by (simp_all add: page_at_def the_pool_def sample_pmem_def)
  have c: "bit_cnt (used_map ?p) = 4" by (simp add: the_pool_def sample_pmem_def)
  have f0: "\<forall>k < 1. in_use sample_pmem (page_at ?p (0 + k))" using sample_first_used a by simp
  have f1: "\<not> (\<forall>k < 1. in_use sample_pmem (page_at ?p (1 + k)))" using sample_first_used a(2) by simp
  from palloc_free_multiple_correct [OF sample_pmem_ok, of 1 ?p False 0] f0 c obtain m' where
    "palloc_free_multiple (page_at ?p 0) 1 sample_pmem = Some m'" "\<forall>x. in_use m' x \<longleftrightarrow> x \<notin> pages_from (page_at ?p 0) 1 \<and> in_use sample_pmem x"
    by (auto split: if_splits)
  moreover have "0xc0100000 \<in> pages_from 0xc0100000 1" by (auto simp: pages_from_def)
  moreover from palloc_free_multiple_correct [OF sample_pmem_ok, of 1 ?p False 1] f1 c
  have "palloc_free_multiple (page_at ?p 1) 1 sample_pmem = None" by (simp split: if_splits)
  ultimately show ?thesis unfolding a by blast
qed

text \<open>
  C63. At boot, with at least two pages of memory behind the kernel and a limit that leaves the user pool one,
  \<^verbatim>\<open>palloc_init\<close> succeeds and gives two pools that do not overlap, lie behind the kernel and are entirely free.
\<close>

theorem palloc_init_correct:
  assumes k: "PHYS_BASE \<le> kend" and r: "unat ram_pages < 0x40000"
    and two: "unat (kend - PHYS_BASE) + 3 * 4096 \<le> unat ram_pages * 4096" and lim: "1 \<le> user_page_limit"
  shows "\<exists>pm. palloc_init kend ram_pages user_page_limit m = Some pm \<and> palloc_ok pm \<and> (\<forall>a. \<not> in_use pm a)
    \<and> kend \<le> base (kernel_pool pm) \<and> pool_end (user_pool pm) \<le> unat PHYS_BASE + 4096 * unat ram_pages"
proof -
  let ?r = "unat ram_pages"
  have K: "unat kend \<ge> 0xc0000000" "unat (kend - PHYS_BASE) = unat kend - 0xc0000000"
    using k by (simp_all add: PHYS_BASE_def word_le_nat_alt unat_sub)
  have kb: "unat kend + 3 * 4096 \<le> 0xc0000000 + ?r * 4096" using two K by simp
  define fs where "fs = unat (pg_round_up kend)"
  have "kend \<le> 0xfffff000" using kb r by (simp add: word_le_nat_alt)
  then have "fs = (unat kend + 4095) div 4096 * 4096" by (simp add: fs_def unat_pg_round_up)
  then have fs: "unat kend \<le> fs" "fs < unat kend + 4096" "fs mod 4096 = 0" by auto
  have rp: "unat (ram_pages * PGSIZE) = ?r * 4096" using r by (simp add: PGSIZE_eq unat_mult_lem [THEN iffD1])
  then have "ram_pages * PGSIZE < 0x40000000" using r by (simp add: word_less_nat_alt)
  note pv = ptov_window [OF this]
  have fe: "unat (ram_pages * PGSIZE + PHYS_BASE) = 0xc0000000 + ?r * 4096" using rp r by (simp add: PHYS_BASE_def unat_add_lem [THEN iffD1])
  define n where "n = (0xc0000000 + ?r * 4096 - fs) div 4096"
  have n2: "2 \<le> n" and nb: "fs + n * 4096 \<le> 0xc0000000 + ?r * 4096" using fs kb by (auto simp: n_def)
  have d: "unat (ram_pages * PGSIZE + PHYS_BASE - pg_round_up kend) = 0xc0000000 + ?r * 4096 - fs"
    using fs kb by (simp add: unat_sub word_le_nat_alt fe fs_def [symmetric])
  then have "uint (ram_pages * PGSIZE + PHYS_BASE - pg_round_up kend) = int (0xc0000000 + ?r * 4096 - fs)" by (simp only: uint_nat)
  moreover have "int (0xc0000000 + ?r * 4096 - fs) < 2 ^ 31" using r fs K by simp
  ultimately have "sint (ram_pages * PGSIZE + PHYS_BASE - pg_round_up kend) = int (0xc0000000 + ?r * 4096 - fs)"
    by (simp add: sint_uint signed_take_bit_int_eq_self)
  then have fp: "nat (cdiv (sint (ram_pages * PGSIZE + PHYS_BASE - pg_round_up kend)) 4096 mod 2 ^ 32) = n"
    using r by (simp add: cdiv_nonneg n_def nat_mod_distrib nat_div_distrib)
  define un where "un = min (n div 2) user_page_limit"
  have un: "1 \<le> un" "1 \<le> n - un" "un \<le> n" using n2 lim by (auto simp: un_def)
  have fs_nz: "pg_round_up kend \<noteq> 0" using fs K by (auto simp: fs_def)
  have "fs + 4096 * (n - un) < 2 ^ 32" using nb r un by (simp add: diff_mult_distrib2)
  with init_pool_ok [of "pg_round_up kend" "n - un" m] fs(3) fs_nz un obtain kp where
    kp: "init_pool m (pg_round_up kend) (n - un) = Some kp" "pool_ok kp" "fs \<le> unat (base kp)" "pool_end kp = fs + 4096 * (n - un)"
      "\<forall>j < bit_cnt (used_map kp). \<not> bm_bit (used_map kp) j" by (auto simp: fs_def)
  let ?us = "pg_round_up kend + of_nat (n - un) * PGSIZE"
  have "fs + 4096 * (n - un) < 2 ^ 32" using nb r un by (simp add: diff_mult_distrib2)
  then have us: "unat ?us = fs + 4096 * (n - un)"
    by (simp add: PGSIZE_eq fs_def unat_of_nat unat_add_lem [THEN iffD1] unat_mult_lem [THEN iffD1])
  have "fs + 4096 * (n - un) + 4096 * un = fs + n * 4096" using un(3) by (simp add: algebra_simps)
  with init_pool_ok [of ?us un m] us fs un nb r K obtain up where
    up: "init_pool m ?us un = Some up" "pool_ok up" "fs + 4096 * (n - un) \<le> unat (base up)" "pool_end up = fs + n * 4096"
      "\<forall>j < bit_cnt (used_map up). \<not> bm_bit (used_map up) j" by (auto simp: unat_eq_0 [symmetric])
  let ?pm = "\<lparr>kernel_pool = kp, user_pool = up, mem = m\<rparr>"
  have "palloc_init kend ram_pages user_page_limit m = Some ?pm"
    unfolding palloc_init_def Let_def pv Option.bind.bind_lunit fp un_def [symmetric] kp(1) up(1) by simp
  moreover have "palloc_ok ?pm" using kp up by (simp add: palloc_ok_def)
  moreover have "\<not> in_use ?pm a" for a using kp(5) up(5) by (auto simp: in_use_def the_pool_def)
  moreover have "kend \<le> base kp" using kp(3) fs(1) by (simp add: word_le_nat_alt)
  ultimately show ?thesis using up(4) nb by (simp add: PHYS_BASE_def)
qed

theorem palloc_init_correct_witness:
  "\<exists>pm. palloc_init 0xc0120345 1024 100 (\<lambda>_. 0) = Some pm \<and> palloc_ok pm \<and> (\<forall>a. \<not> in_use pm a)"
  using palloc_init_correct [of "0xc0120345" 1024 100 "\<lambda>_. 0"] by (auto simp: PHYS_BASE_def)

end
