(* ===== verification/Thread.thy ===== *)
theory Thread
  imports Klist_Family Palloc
begin

text \<open>
  \<^verbatim>\<open>threads/thread.c\<close> and the interrupt flag of \<^verbatim>\<open>threads/interrupt.c\<close>: the scheduler.  A thread is the address of
  its page, where its \<^verbatim>\<open>struct thread\<close> lies; the first member of the structure is \<^verbatim>\<open>elem\<close>, so the address is
  also that of its list element.  The links of all lists are in one heap, the values of semaphores and the holders
  of locks are indexed by their addresses.

  \<^verbatim>\<open>schedule\<close> ends in another thread, right behind the \<^verbatim>\<open>schedule_tail\<close> that this thread executes first: the
  state that it returns is the one in which the next thread goes on.
\<close>

section \<open>State\<close>

datatype intr_level = INTR_OFF | INTR_ON

datatype thread_status = THREAD_RUNNING | THREAD_READY | THREAD_BLOCKED | THREAD_DYING

definition THREAD_MAGIC :: u32 where "THREAD_MAGIC = 0xcd6abf4b"
definition TIME_SLICE :: u32 where "TIME_SLICE = 4"

text \<open>The members that are not lists or semaphores; the two hash tables are known here only as initialised.\<close>

record thread =
  stack :: addr
  status :: thread_status
  tid :: int
  name :: "byte list"
  priority :: int
  pagedir :: vaddr
  parent :: addr
  exec_file :: addr
  exit_status :: int
  child_num :: int
  executable :: int
  exec_str :: addr
  stack_end :: addr
  wait_num :: int
  magic :: u32
  pt_ready :: bool
  st_ready :: bool
  esp :: vaddr
  pwd_ptr :: addr

record kern =
  lnk :: heap
  thrs :: "addr \<Rightarrow> thread option"
  sval :: "addr \<Rightarrow> u32"
  lock_holder :: "addr \<Rightarrow> addr"
  ready_list :: addr
  tid_lock :: addr
  cur :: addr
  ints :: intr_level
  in_external_intr :: bool
  yield_on_return :: bool
  idle_thread :: addr
  initial_thread :: addr
  read_ahead_thread :: addr
  idle_ticks :: u64
  kernel_ticks :: u64
  user_ticks :: u64
  thread_ticks :: u32
  ticks :: u64
  next_tid :: int
  pm :: pmem
  base_page_dir :: vaddr
  cr3 :: u32
  tss_esp0 :: addr

section \<open>The interrupt flag\<close>

definition intr_get_level :: "kern \<Rightarrow> intr_level" where
  "intr_get_level k = ints k"

definition intr_context :: "kern \<Rightarrow> bool" where
  "intr_context k = in_external_intr k"

definition intr_enable :: "kern \<Rightarrow> (intr_level \<times> kern) option" where
  "intr_enable k = do {
     let old_level = intr_get_level k;
     kassert (\<not> intr_context k);
     Some (old_level, k\<lparr>ints := INTR_ON\<rparr>) }"

definition intr_disable :: "kern \<Rightarrow> intr_level \<times> kern" where
  "intr_disable k = (intr_get_level k, k\<lparr>ints := INTR_OFF\<rparr>)"

definition intr_set_level :: "intr_level \<Rightarrow> kern \<Rightarrow> (intr_level \<times> kern) option" where
  "intr_set_level level k = (if level = INTR_ON then intr_enable k else Some (intr_disable k))"

definition intr_yield_on_return :: "kern \<Rightarrow> kern option" where
  "intr_yield_on_return k = do { kassert (intr_context k); Some (k\<lparr>yield_on_return := True\<rparr>) }"

section \<open>Threads\<close>

definition upd_thread :: "addr \<Rightarrow> (thread \<Rightarrow> thread) \<Rightarrow> kern \<Rightarrow> kern option" where
  "upd_thread t f k = (case thrs k t of None \<Rightarrow> None | Some th \<Rightarrow> Some (k\<lparr>thrs := (thrs k)(t \<mapsto> f th)\<rparr>))"

definition set_status :: "addr \<Rightarrow> thread_status \<Rightarrow> kern \<Rightarrow> kern option" where
  "set_status t st k = upd_thread t (\<lambda>th. th\<lparr>status := st\<rparr>) k"

definition on_lists :: "(heap \<Rightarrow> heap option) \<Rightarrow> kern \<Rightarrow> kern option" where
  "on_lists f k = do { h \<leftarrow> f (lnk k); Some (k\<lparr>lnk := h\<rparr>) }"

definition pop_list :: "addr \<Rightarrow> kern \<Rightarrow> (addr \<times> kern) option" where
  "pop_list l k = do { (e, h) \<leftarrow> list_pop_front (lnk k) l; Some (e, k\<lparr>lnk := h\<rparr>) }"

definition running_thread :: "kern \<Rightarrow> addr" where
  "running_thread k = cur k"

definition is_thread :: "kern \<Rightarrow> addr \<Rightarrow> bool" where
  "is_thread k t \<longleftrightarrow> t \<noteq> NULL \<and> (case thrs k t of None \<Rightarrow> False | Some th \<Rightarrow> magic th = THREAD_MAGIC)"

definition thread_current :: "kern \<Rightarrow> addr option" where
  "thread_current k = do {
     let t = running_thread k;
     kassert (is_thread k t);
     th \<leftarrow> thrs k t;
     kassert (status th = THREAD_RUNNING);
     Some t }"

definition thread_name :: "kern \<Rightarrow> byte list option" where
  "thread_name k = do { t \<leftarrow> thread_current k; th \<leftarrow> thrs k t; Some (name th) }"

definition thread_tid :: "kern \<Rightarrow> int option" where
  "thread_tid k = do { t \<leftarrow> thread_current k; th \<leftarrow> thrs k t; Some (tid th) }"

definition thread_set_priority :: "int \<Rightarrow> kern \<Rightarrow> kern option" where
  "thread_set_priority new_priority k = do { t \<leftarrow> thread_current k; upd_thread t (\<lambda>th. th\<lparr>priority := new_priority\<rparr>) k }"

definition thread_get_priority :: "kern \<Rightarrow> int option" where
  "thread_get_priority k = do { t \<leftarrow> thread_current k; th \<leftarrow> thrs k t; Some (priority th) }"

definition thread_tick :: "kern \<Rightarrow> kern option" where
  "thread_tick k = do {
     t \<leftarrow> thread_current k;
     th \<leftarrow> thrs k t;
     let k = (if t = idle_thread k then k\<lparr>idle_ticks := idle_ticks k + 1\<rparr>
              else if pagedir th \<noteq> 0 then k\<lparr>user_ticks := user_ticks k + 1\<rparr>
              else k\<lparr>kernel_ticks := kernel_ticks k + 1\<rparr>);
     let k = k\<lparr>thread_ticks := thread_ticks k + 1\<rparr>;
     if thread_ticks k \<ge> TIME_SLICE then intr_yield_on_return k else Some k }"

section \<open>Switching\<close>

definition next_thread_to_run :: "kern \<Rightarrow> (addr \<times> kern) option" where
  "next_thread_to_run k = do {
     em \<leftarrow> list_empty (lnk k) (ready_list k);
     if em then Some (idle_thread k, k) else pop_list (ready_list k) k }"

definition tss_update :: "kern \<Rightarrow> kern option" where
  "tss_update k = do { t \<leftarrow> thread_current k; Some (k\<lparr>tss_esp0 := t + 4096\<rparr>) }"

definition pagedir_activate :: "vaddr \<Rightarrow> kern \<Rightarrow> kern option" where
  "pagedir_activate pd k = do {
     p \<leftarrow> vtop (if pd = 0 then base_page_dir k else pd);
     Some (k\<lparr>cr3 := p\<rparr>) }"

definition process_activate :: "kern \<Rightarrow> kern option" where
  "process_activate k = do {
     t \<leftarrow> thread_current k;
     th \<leftarrow> thrs k t;
     k \<leftarrow> pagedir_activate (pagedir th) k;
     tss_update k }"

text \<open>
  \<^verbatim>\<open>palloc_free_page\<close> on the page of a thread: what was a thread, lists, semaphores and locks there is
  overwritten with \<^verbatim>\<open>0xcc\<close>.
\<close>

definition in_page :: "addr \<Rightarrow> addr \<Rightarrow> bool" where
  "in_page p a \<longleftrightarrow> p \<le> a \<and> a < p + 4096"

definition free_thread_page :: "addr \<Rightarrow> kern \<Rightarrow> kern option" where
  "free_thread_page p k = do {
     pm' \<leftarrow> palloc_free_page (of_nat p) (pm k);
     Some (k\<lparr>pm := pm', thrs := (thrs k)(p := None),
       lnk := \<lparr>prev_of = (\<lambda>a. if in_page p a then 0xcccccccc else prev_of (lnk k) a),
               next_of = (\<lambda>a. if in_page p a then 0xcccccccc else next_of (lnk k) a)\<rparr>,
       sval := (\<lambda>a. if in_page p a then 0xcccccccc else sval k a),
       lock_holder := (\<lambda>a. if in_page p a then 0xcccccccc else lock_holder k a)\<rparr>) }"

definition schedule_tail :: "addr \<Rightarrow> kern \<Rightarrow> kern option" where
  "schedule_tail prev k = do {
     let curr = running_thread k;
     kassert (intr_get_level k = INTR_OFF);
     k \<leftarrow> set_status curr THREAD_RUNNING k;
     let k = k\<lparr>thread_ticks := 0\<rparr>;
     k \<leftarrow> process_activate k;
     if prev = NULL then Some k
     else do {
       pth \<leftarrow> thrs k prev;
       if status pth = THREAD_DYING \<and> prev \<noteq> initial_thread k then do {
         kassert (prev \<noteq> curr);
         free_thread_page prev k }
       else Some k } }"

definition schedule :: "kern \<Rightarrow> kern option" where
  "schedule k = do {
     let curr = running_thread k;
     (nxt, k) \<leftarrow> next_thread_to_run k;
     kassert (intr_get_level k = INTR_OFF);
     cth \<leftarrow> thrs k curr;
     kassert (status cth \<noteq> THREAD_RUNNING);
     kassert (is_thread k nxt);
     schedule_tail (if curr \<noteq> nxt then curr else NULL) (k\<lparr>cur := nxt\<rparr>) }"

definition thread_block :: "kern \<Rightarrow> kern option" where
  "thread_block k = do {
     kassert (\<not> intr_context k);
     kassert (intr_get_level k = INTR_OFF);
     t \<leftarrow> thread_current k;
     k \<leftarrow> set_status t THREAD_BLOCKED k;
     schedule k }"

definition thread_unblock :: "addr \<Rightarrow> kern \<Rightarrow> kern option" where
  "thread_unblock t k = do {
     kassert (is_thread k t);
     let (old_level, k) = intr_disable k;
     th \<leftarrow> thrs k t;
     kassert (status th = THREAD_BLOCKED);
     k \<leftarrow> on_lists (\<lambda>h. list_push_back h (ready_list k) t) k;
     k \<leftarrow> set_status t THREAD_READY k;
     (_, k) \<leftarrow> intr_set_level old_level k;
     Some k }"

definition thread_exit :: "kern \<Rightarrow> kern option" where
  "thread_exit k = do {
     kassert (\<not> intr_context k);
     let (_, k) = intr_disable k;
     t \<leftarrow> thread_current k;
     k \<leftarrow> set_status t THREAD_DYING k;
     schedule k }"

text \<open>
  \<^verbatim>\<open>thread_yield\<close> up to the switch, with the interrupt level that it restores when the thread runs again.
\<close>

definition thread_yield :: "kern \<Rightarrow> (intr_level \<times> kern) option" where
  "thread_yield k = do {
     curr \<leftarrow> thread_current k;
     kassert (\<not> intr_context k);
     let (old_level, k) = intr_disable k;
     k \<leftarrow> (if curr \<noteq> idle_thread k then on_lists (\<lambda>h. list_push_back h (ready_list k) curr) k else Some k);
     k \<leftarrow> set_status curr THREAD_READY k;
     k \<leftarrow> schedule k;
     Some (old_level, k) }"

end
