(* ===== verification/Thread_Spec.thy ===== *)
theory Thread_Spec
  imports Thread
begin

text \<open>
  What the operations of the scheduler do to the lists and to the status of the threads.  \<open>rep k F\<close> says that the
  links of \<open>k\<close> form the lists \<open>F\<close> and that every thread is sound; the lemmas give the effect of each operation on
  \<open>F\<close> and on \<open>stat k\<close>, the status of each thread.
\<close>

definition stat :: "kern \<Rightarrow> addr \<Rightarrow> thread_status option" where
  "stat k t = map_option status (thrs k t)"

definition thread_sound :: "kern \<Rightarrow> addr \<Rightarrow> thread \<Rightarrow> bool" where
  "thread_sound k t th \<longleftrightarrow> t \<noteq> NULL \<and> magic th = THREAD_MAGIC \<and> (pagedir th \<noteq> 0 \<longrightarrow> is_kernel_vaddr (pagedir th))
     \<and> 4096 dvd t \<and> t < 2 ^ 32 \<and> (t \<noteq> initial_thread k \<longrightarrow> in_use (pm k) (of_nat t))"

definition rep :: "kern \<Rightarrow> (addr \<Rightarrow> addr list option) \<Rightarrow> bool" where
  "rep k F \<longleftrightarrow> lists (lnk k) F \<and> ready_list k \<in> dom F \<and> palloc_ok (pm k) \<and> is_kernel_vaddr (base_page_dir k)
     \<and> (\<forall>t th. thrs k t = Some th \<longrightarrow> thread_sound k t th) \<and> thrs k (idle_thread k) \<noteq> None \<and> \<not> in_external_intr k"

text \<open>The part of the state that the scheduler leaves alone.\<close>

definition same_kern :: "kern \<Rightarrow> kern \<Rightarrow> bool" where
  "same_kern k k' \<longleftrightarrow> ready_list k' = ready_list k \<and> tid_lock k' = tid_lock k \<and> idle_thread k' = idle_thread k
     \<and> initial_thread k' = initial_thread k \<and> read_ahead_thread k' = read_ahead_thread k
     \<and> in_external_intr k' = in_external_intr k \<and> base_page_dir k' = base_page_dir k \<and> next_tid k' = next_tid k"

definition same_sync :: "kern \<Rightarrow> kern \<Rightarrow> bool" where
  "same_sync k k' \<longleftrightarrow> sval k' = sval k \<and> lock_holder k' = lock_holder k"

lemma same_kern_refl [simp]: "same_kern k k"
  by (simp add: same_kern_def)

lemma same_kern_trans: "same_kern k k1 \<Longrightarrow> same_kern k1 k2 \<Longrightarrow> same_kern k k2"
  by (simp add: same_kern_def)

lemma rep_lists: "rep k F \<Longrightarrow> lists (lnk k) F"
  by (simp add: rep_def)

lemma rep_sound: "rep k F \<Longrightarrow> thrs k t = Some th \<Longrightarrow> thread_sound k t th"
  by (simp add: rep_def)

lemma rep_is_thread: "rep k F \<Longrightarrow> is_thread k t \<longleftrightarrow> thrs k t \<noteq> None"
  by (auto simp: rep_def is_thread_def thread_sound_def split: option.splits)

lemma thread_current_rep: "rep k F \<Longrightarrow> stat k (cur k) = Some THREAD_RUNNING \<Longrightarrow> thread_current k = Some (cur k)"
  by (auto simp: thread_current_def running_thread_def rep_is_thread stat_def)

lemma stat_None [simp]: "stat k t = None \<longleftrightarrow> thrs k t = None"
  by (simp add: stat_def)

lemma stat_SomeD: "stat k t = Some st \<Longrightarrow> thrs k t \<noteq> None"
  by (auto simp: stat_def)

lemma thrs_stat: "thrs k t \<noteq> None \<longleftrightarrow> stat k t \<noteq> None"
  by simp

text \<open>Setting the status of a thread.\<close>

lemma set_status_ok:
  assumes "rep k F" and "thrs k t \<noteq> None"
  shows "\<exists>k'. set_status t st k = Some k' \<and> rep k' F \<and> stat k' = (stat k)(t \<mapsto> st) \<and> same_kern k k' \<and> same_sync k k'
    \<and> ints k' = ints k \<and> cur k' = cur k \<and> lnk k' = lnk k"
  using assms by (auto simp: set_status_def upd_thread_def rep_def thread_sound_def same_kern_def same_sync_def stat_def fun_eq_iff)

lemma push_ok:
  assumes r: "rep k F" and l: "F l = Some xs" and e: "e \<noteq> NULL" "e \<notin> owned F"
  shows "\<exists>k'. on_lists (\<lambda>h. list_push_back h l e) k = Some k' \<and> rep k' (F(l \<mapsto> xs @ [e])) \<and> stat k' = stat k \<and> same_kern k k'
    \<and> same_sync k k' \<and> ints k' = ints k \<and> cur k' = cur k"
proof -
  from lists_push [OF rep_lists [OF r] l e] obtain h where
    "list_push_back (lnk k) l e = Some h" "lists h (F(l \<mapsto> xs @ [e]))" by blast
  then show ?thesis using r
    by (auto simp: on_lists_def rep_def thread_sound_def same_kern_def same_sync_def stat_def fun_eq_iff)
qed

lemma pop_ok:
  assumes r: "rep k F" and l: "F l = Some (x # xs)"
  shows "\<exists>k'. pop_list l k = Some (x, k') \<and> rep k' (F(l \<mapsto> xs)) \<and> x \<notin> owned (F(l \<mapsto> xs)) \<and> stat k' = stat k \<and> same_kern k k'
    \<and> same_sync k k' \<and> ints k' = ints k \<and> cur k' = cur k \<and> thrs k' = thrs k"
proof -
  from lists_pop [OF rep_lists [OF r] l] obtain h where
    "list_pop_front (lnk k) l = Some (x, h)" "lists h (F(l \<mapsto> xs))" "x \<notin> owned (F(l \<mapsto> xs))" by blast
  then show ?thesis using r
    by (auto simp: pop_list_def rep_def thread_sound_def same_kern_def same_sync_def stat_def fun_eq_iff)
qed

lemma process_activate_ok:
  assumes r: "rep k F" and c: "stat k (cur k) = Some THREAD_RUNNING"
  shows "\<exists>k'. process_activate k = Some k' \<and> rep k' F \<and> thrs k' = thrs k \<and> lnk k' = lnk k \<and> pm k' = pm k \<and> same_kern k k'
    \<and> same_sync k k' \<and> ints k' = ints k \<and> cur k' = cur k"
proof -
  obtain th where th: "thrs k (cur k) = Some th" using c by (auto simp: stat_def)
  have tc: "thread_current k = Some (cur k)" by (rule thread_current_rep [OF r c])
  have "is_kernel_vaddr (if pagedir th = 0 then base_page_dir k else pagedir th)"
    using r th by (auto simp: rep_def thread_sound_def)
  then obtain p where p: "vtop (if pagedir th = 0 then base_page_dir k else pagedir th) = Some p" by (simp add: vtop_def)
  have "thread_current (k\<lparr>cr3 := p\<rparr>) = Some (cur k)"
    using tc by (simp add: thread_current_def running_thread_def is_thread_def)
  then have "process_activate k = Some (k\<lparr>cr3 := p, tss_esp0 := cur k + 4096\<rparr>)"
    using tc th p by (simp add: process_activate_def pagedir_activate_def tss_update_def)
  then show ?thesis using r by (simp add: rep_def thread_sound_def same_kern_def same_sync_def)
qed

text \<open>Freeing the page of a thread whose cells are in no list.\<close>

lemma free_thread_page_ok:
  assumes r: "rep k F" and t: "thrs k p \<noteq> None" "p \<noteq> initial_thread k" "p \<noteq> idle_thread k"
    and dis: "\<forall>a \<in> owned F. \<not> in_page p a"
  shows "\<exists>k'. free_thread_page p k = Some k' \<and> rep k' F \<and> thrs k' = (thrs k)(p := None) \<and> same_kern k k'
    \<and> (\<forall>a. \<not> in_page p a \<longrightarrow> sval k' a = sval k a \<and> lock_holder k' a = lock_holder k a) \<and> ints k' = ints k \<and> cur k' = cur k"
proof -
  obtain th where th: "thrs k p = Some th" using t(1) by blast
  have ok: "palloc_ok (pm k)" and u: "in_use (pm k) (of_nat p)" and lt: "p < 2 ^ 32"
    using r th t(2) by (auto simp: rep_def thread_sound_def)
  from palloc_free_page_ok [OF ok u] obtain m' where
    m': "palloc_free_page (of_nat p) (pm k) = Some m'" "palloc_ok m'" "\<And>x. in_use m' x \<longleftrightarrow> x \<noteq> of_nat p \<and> in_use (pm k) x" by blast
  let ?h = "\<lparr>prev_of = (\<lambda>a. if in_page p a then 0xcccccccc else prev_of (lnk k) a),
               next_of = (\<lambda>a. if in_page p a then 0xcccccccc else next_of (lnk k) a)\<rparr>"
  have "lists ?h F"
    by (rule lists_outside [OF rep_lists [OF r], of _ "{a. in_page p a}"]) (use dis in \<open>auto simp: same_outside_def\<close>)
  moreover have "in_use m' (of_nat t)" if "thrs k t = Some th'" "t \<noteq> p" "t \<noteq> initial_thread k" for t th'
  proof -
    have "t < 2 ^ 32" "in_use (pm k) (of_nat t)" using r that by (auto simp: rep_def thread_sound_def)
    moreover have "of_nat t \<noteq> (of_nat p :: u32)"
      using that(2) lt \<open>t < 2 ^ 32\<close> by (auto dest!: arg_cong [where f = unat] simp: unat_of_nat)
    ultimately show ?thesis using m'(3) by simp
  qed
  ultimately show ?thesis
    using r t m' by (auto simp: free_thread_page_def rep_def thread_sound_def same_kern_def)
qed

text \<open>The whole switch.\<close>

definition next_of_queue :: "kern \<Rightarrow> addr list \<Rightarrow> addr" where
  "next_of_queue k R = (if R = [] then idle_thread k else hd R)"

definition dying :: "kern \<Rightarrow> bool" where
  "dying k \<longleftrightarrow> stat k (cur k) = Some THREAD_DYING \<and> cur k \<noteq> initial_thread k"

lemma schedule_ok:
  assumes r: "rep k F" and R: "F (ready_list k) = Some R" and off: "ints k = INTR_OFF"
    and c: "thrs k (cur k) \<noteq> None" "stat k (cur k) \<noteq> Some THREAD_RUNNING"
    and thr: "\<And>t. t \<in> set R \<Longrightarrow> thrs k t \<noteq> None"
    and die: "stat k (cur k) = Some THREAD_DYING \<Longrightarrow> cur k \<noteq> idle_thread k \<and> cur k \<notin> set R"
    and page: "dying k \<Longrightarrow> \<forall>a \<in> owned F. \<not> in_page (cur k) a"
  shows "\<exists>k'. schedule k = Some k' \<and> rep k' (F(ready_list k \<mapsto> tl R)) \<and> cur k' = next_of_queue k R \<and> ints k' = INTR_OFF
    \<and> stat k' = (if dying k then (stat k)(next_of_queue k R \<mapsto> THREAD_RUNNING, cur k := None) else (stat k)(next_of_queue k R \<mapsto> THREAD_RUNNING))
    \<and> same_kern k k' \<and> (if dying k then \<forall>a. \<not> in_page (cur k) a \<longrightarrow> sval k' a = sval k a \<and> lock_holder k' a = lock_holder k a else same_sync k k')"
proof -
  let ?n = "next_of_queue k R"
  let ?F = "F(ready_list k \<mapsto> tl R)"
  have "\<exists>k1. next_thread_to_run k = Some (?n, k1) \<and> rep k1 ?F \<and> thrs k1 = thrs k \<and> same_kern k k1 \<and> same_sync k k1 \<and> ints k1 = ints k \<and> cur k1 = cur k
     \<and> owned ?F \<subseteq> owned F"
  proof (cases R)
    case Nil
    then have "?F = F" using R by (simp add: fun_upd_idem)
    then show ?thesis using r Nil R lists_empty [OF rep_lists [OF r] R]
      by (simp add: next_thread_to_run_def next_of_queue_def same_sync_def)
  next
    case (Cons x xs)
    from pop_ok [OF r R [unfolded Cons]] obtain k1 where k1: "pop_list (ready_list k) k = Some (x, k1)" "rep k1 (F(ready_list k \<mapsto> xs))"
      "same_kern k k1" "same_sync k k1" "ints k1 = ints k" "cur k1 = cur k" "thrs k1 = thrs k" by blast
    have "owned ?F \<subseteq> owned F" by (rule owned_shrink [of F _ R]) (use R Cons in auto)
    then show ?thesis using k1 Cons lists_empty [OF rep_lists [OF r] R] by (simp add: next_thread_to_run_def next_of_queue_def)
  qed
  then obtain k1 where k1: "next_thread_to_run k = Some (?n, k1)" "rep k1 ?F" "thrs k1 = thrs k" "same_kern k k1" "same_sync k k1"
    "ints k1 = INTR_OFF" "cur k1 = cur k" and own: "owned ?F \<subseteq> owned F" using off by auto
  have n: "thrs k1 ?n \<noteq> None" using r thr k1(3) by (cases R) (auto simp: next_of_queue_def rep_def)
  obtain cth where cth: "thrs k (cur k) = Some cth" "status cth \<noteq> THREAD_RUNNING" using c by (auto simp: stat_def)
  let ?k2 = "k1\<lparr>cur := ?n\<rparr>"
  have k2: "rep ?k2 ?F" "thrs ?k2 ?n \<noteq> None" using k1(2) n by (simp_all add: rep_def thread_sound_def)
  from set_status_ok [OF k2, of THREAD_RUNNING] obtain k3 where k3: "set_status ?n THREAD_RUNNING ?k2 = Some k3" "rep k3 ?F"
    "stat k3 = (stat ?k2)(?n \<mapsto> THREAD_RUNNING)" "same_kern ?k2 k3" "same_sync ?k2 k3" "ints k3 = INTR_OFF" "cur k3 = ?n" using k1(6) by auto
  have st2: "stat ?k2 = stat k" using k1(3) by (simp add: stat_def fun_eq_iff)
  let ?k4 = "k3\<lparr>thread_ticks := 0\<rparr>"
  have k4: "rep ?k4 ?F" "stat ?k4 = stat k3" using k3(2) by (simp_all add: rep_def thread_sound_def stat_def fun_eq_iff)
  have "stat ?k4 (cur ?k4) = Some THREAD_RUNNING" using k3 k4 by simp
  from process_activate_ok [OF k4(1) this] obtain k5 where k5: "process_activate ?k4 = Some k5" "rep k5 ?F" "thrs k5 = thrs ?k4" "same_kern ?k4 k5"
    "same_sync ?k4 k5" "ints k5 = INTR_OFF" "cur k5 = ?n" using k3 by auto
  have st5: "stat k5 = (stat k)(?n \<mapsto> THREAD_RUNNING)" using k5(3) k3(3) st2 by (simp add: stat_def fun_eq_iff)
  have sk: "same_kern k k5" "same_sync k k5" using k1 k3 k5 by (simp_all add: same_kern_def same_sync_def)
  have sched: "schedule k = (if cur k = ?n then Some k5 else do {
       pth \<leftarrow> thrs k5 (cur k);
       if status pth = THREAD_DYING \<and> cur k \<noteq> initial_thread k5 then free_thread_page (cur k) k5 else Some k5 })"
  proof -
    have "is_thread k1 ?n" using n rep_is_thread [OF k1(2)] by simp
    moreover have "cur k \<noteq> NULL" using r cth(1) by (auto simp: rep_def thread_sound_def)
    ultimately show ?thesis
      using k1 k3(1) k5(1) cth by (simp add: schedule_def schedule_tail_def running_thread_def intr_get_level_def Let_def cong: if_cong)
  qed
  show ?thesis
  proof (cases "dying k")
    case True
    then have ne: "cur k \<noteq> ?n" using die by (cases R) (auto simp: next_of_queue_def dying_def)
    have c5: "stat k5 (cur k) = Some THREAD_DYING" using st5 ne True by (simp add: dying_def)
    then obtain pth where pth: "thrs k5 (cur k) = Some pth" "status pth = THREAD_DYING" by (auto simp: stat_def)
    have ni: "cur k \<noteq> initial_thread k5" "cur k \<noteq> idle_thread k5" using True die sk by (auto simp: dying_def same_kern_def)
    have "\<forall>a \<in> owned ?F. \<not> in_page (cur k) a" using page [OF True] own by blast
    from free_thread_page_ok [OF k5(2) _ ni this] pth obtain k' where k': "free_thread_page (cur k) k5 = Some k'" "rep k' ?F"
      "thrs k' = (thrs k5)(cur k := None)" "same_kern k5 k'" "ints k' = INTR_OFF" "cur k' = ?n"
      "\<forall>a. \<not> in_page (cur k) a \<longrightarrow> sval k' a = sval k5 a \<and> lock_holder k' a = lock_holder k5 a" using k5 by auto
    have "schedule k = Some k'" using sched ne pth ni k'(1) by simp
    moreover have "stat k' = (stat k)(?n \<mapsto> THREAD_RUNNING, cur k := None)" using k'(3) st5 by (simp add: stat_def fun_eq_iff)
    moreover have "same_kern k k'" using same_kern_trans [OF sk(1) k'(4)] .
    ultimately show ?thesis using k' True sk(2) by (simp add: same_sync_def)
  next
    case False
    have "schedule k = Some k5"
    proof (cases "cur k = ?n")
      case False
      have "stat k5 (cur k) = stat k (cur k)" using st5 False by simp
      then obtain pth where "thrs k5 (cur k) = Some pth" "stat k (cur k) = Some (status pth)" using cth(1) by (auto simp: stat_def)
      with \<open>\<not> dying k\<close> sk(1) sched False show ?thesis by (auto simp: dying_def same_kern_def)
    qed (simp add: sched)
    then show ?thesis using False k5 st5 sk by simp
  qed
qed

section \<open>Blocking, unblocking, yielding, exiting\<close>

lemma rep_ints [simp]: "rep (k\<lparr>ints := i\<rparr>) F = rep k F"
  by (simp add: rep_def thread_sound_def)

lemma stat_ints [simp]: "stat (k\<lparr>ints := i\<rparr>) = stat k"
  by (simp add: stat_def fun_eq_iff)

lemma same_ints [simp]: "same_kern k (k'\<lparr>ints := i\<rparr>) = same_kern k k'" "same_kern (k\<lparr>ints := i\<rparr>) k' = same_kern k k'"
  "same_sync k (k'\<lparr>ints := i\<rparr>) = same_sync k k'" "same_sync (k\<lparr>ints := i\<rparr>) k' = same_sync k k'"
  by (simp_all add: same_kern_def same_sync_def)

lemma same_sync_refl [simp]: "same_sync k k"
  by (simp add: same_sync_def)

lemma same_sync_trans: "same_sync k k1 \<Longrightarrow> same_sync k1 k2 \<Longrightarrow> same_sync k k2"
  by (simp add: same_sync_def)

lemma intr_set_level_ok: "rep k F \<Longrightarrow> intr_set_level lvl k = Some (ints k, k\<lparr>ints := lvl\<rparr>)"
  by (cases lvl) (auto simp: intr_set_level_def intr_enable_def intr_disable_def intr_get_level_def intr_context_def rep_def)

lemma rep_context: "rep k F \<Longrightarrow> \<not> intr_context k"
  by (simp add: rep_def intr_context_def)

lemma thread_block_ok:
  assumes r: "rep k F" and R: "F (ready_list k) = Some R" and off: "ints k = INTR_OFF" and c: "stat k (cur k) = Some THREAD_RUNNING"
    and thr: "\<And>t. t \<in> set R \<Longrightarrow> thrs k t \<noteq> None"
  shows "\<exists>k'. thread_block k = Some k' \<and> rep k' (F(ready_list k \<mapsto> tl R)) \<and> cur k' = next_of_queue k R \<and> ints k' = INTR_OFF
    \<and> stat k' = (stat k)(cur k \<mapsto> THREAD_BLOCKED, next_of_queue k R \<mapsto> THREAD_RUNNING) \<and> same_kern k k' \<and> same_sync k k'"
proof -
  have "thrs k (cur k) \<noteq> None" using c by (auto simp: stat_def)
  from set_status_ok [OF r this, of THREAD_BLOCKED] obtain k1 where k1: "set_status (cur k) THREAD_BLOCKED k = Some k1" "rep k1 F"
    "stat k1 = (stat k)(cur k \<mapsto> THREAD_BLOCKED)" "same_kern k k1" "same_sync k k1" "ints k1 = INTR_OFF" "cur k1 = cur k" using off by auto
  have q: "ready_list k1 = ready_list k" "next_of_queue k1 R = next_of_queue k R" using k1(4) by (simp_all add: same_kern_def next_of_queue_def)
  have nd: "\<not> dying k1" "stat k1 (cur k1) \<noteq> Some THREAD_RUNNING" "stat k1 (cur k1) \<noteq> Some THREAD_DYING"
    using k1(3,7) by (auto simp: dying_def)
  have t1: "thrs k1 t \<noteq> None" if "t \<in> set R" for t using thr [OF that] fun_cong [OF k1(3), of t] by (metis fun_upd_apply option.discI stat_None)
  have "thrs k1 (cur k1) \<noteq> None" using fun_cong [OF k1(3), of "cur k"] k1(7) by (auto simp: stat_def)
  from schedule_ok [OF k1(2) _ k1(6) this nd(2) t1] R nd q obtain k' where "schedule k1 = Some k'" "rep k' (F(ready_list k \<mapsto> tl R))"
    "cur k' = next_of_queue k R" "ints k' = INTR_OFF" "stat k' = (stat k1)(next_of_queue k R \<mapsto> THREAD_RUNNING)" "same_kern k1 k'" "same_sync k1 k'" by auto
  then show ?thesis using r off thread_current_rep [OF r c] k1 rep_context [OF r] same_kern_trans [of k k1 k'] same_sync_trans [of k k1 k']
    by (simp add: thread_block_def intr_get_level_def)
qed

lemma thread_unblock_ok:
  assumes r: "rep k F" and R: "F (ready_list k) = Some R" and t: "stat k t = Some THREAD_BLOCKED" "t \<notin> owned F"
  shows "\<exists>k'. thread_unblock t k = Some k' \<and> rep k' (F(ready_list k \<mapsto> R @ [t])) \<and> stat k' = (stat k)(t \<mapsto> THREAD_READY)
    \<and> cur k' = cur k \<and> ints k' = ints k \<and> same_kern k k' \<and> same_sync k k'"
proof -
  obtain th where th: "thrs k t = Some th" "status th = THREAD_BLOCKED" using t(1) by (auto simp: stat_def)
  have t0: "t \<noteq> NULL" using rep_sound [OF r th(1)] by (simp add: thread_sound_def)
  let ?k = "k\<lparr>ints := INTR_OFF\<rparr>"
  have r': "rep ?k F" using r by simp
  from push_ok [OF r' _ t0 t(2), of "ready_list k" R] R obtain k1 where k1: "on_lists (\<lambda>h. list_push_back h (ready_list k) t) ?k = Some k1"
    "rep k1 (F(ready_list k \<mapsto> R @ [t]))" "stat k1 = stat k" "same_kern k k1" "same_sync k k1" "cur k1 = cur k" by auto
  have "thrs k1 t \<noteq> None" using fun_cong [OF k1(3), of t] t(1) by (auto simp: stat_def)
  from set_status_ok [OF k1(2) this, of THREAD_READY] obtain k2 where k2: "set_status t THREAD_READY k1 = Some k2" "rep k2 (F(ready_list k \<mapsto> R @ [t]))"
    "stat k2 = (stat k1)(t \<mapsto> THREAD_READY)" "same_kern k1 k2" "same_sync k1 k2" "cur k2 = cur k1" by blast
  have "thread_unblock t k = Some (k2\<lparr>ints := ints k\<rparr>)"
    using r th k1(1) k2(1) intr_set_level_ok [OF k2(2), of "ints k"] rep_is_thread [OF r, of t]
    by (simp add: thread_unblock_def intr_disable_def intr_get_level_def)
  then show ?thesis using k1 k2 same_kern_trans [of k k1 k2] same_sync_trans [of k k1 k2] by simp
qed

lemma thread_yield_ok:
  assumes r: "rep k F" and R: "F (ready_list k) = Some R" and c: "stat k (cur k) = Some THREAD_RUNNING" "cur k \<notin> owned F"
    and thr: "\<And>t. t \<in> set R \<Longrightarrow> thrs k t \<noteq> None" and Q: "Q = (if cur k \<noteq> idle_thread k then R @ [cur k] else R)"
  shows "\<exists>k'. thread_yield k = Some (ints k, k') \<and> rep k' (F(ready_list k \<mapsto> tl Q)) \<and> cur k' = next_of_queue k Q \<and> ints k' = INTR_OFF
    \<and> stat k' = (stat k)(cur k \<mapsto> THREAD_READY, next_of_queue k Q \<mapsto> THREAD_RUNNING) \<and> same_kern k k' \<and> same_sync k k'"
proof -
  let ?k = "k\<lparr>ints := INTR_OFF\<rparr>"
  have r': "rep ?k F" using r by simp
  obtain th where th: "thrs k (cur k) = Some th" using c by (auto simp: stat_def)
  have t0: "cur k \<noteq> NULL" using rep_sound [OF r th(1)] by (simp add: thread_sound_def)
  have "\<exists>k1. (if cur k \<noteq> idle_thread k then on_lists (\<lambda>h. list_push_back h (ready_list k) (cur k)) ?k else Some ?k) = Some k1
    \<and> rep k1 (F(ready_list k \<mapsto> Q)) \<and> stat k1 = stat k \<and> same_kern k k1 \<and> same_sync k k1 \<and> cur k1 = cur k \<and> ints k1 = INTR_OFF"
  proof (cases "cur k \<noteq> idle_thread k")
    case True
    with push_ok [OF r' _ t0 c(2), of "ready_list k" R] R Q show ?thesis by auto
  next
    case False
    have "F(ready_list k \<mapsto> R) = F" using R by (simp add: fun_upd_idem)
    with False r Q show ?thesis by simp
  qed
  then obtain k1 where k1: "(if cur k \<noteq> idle_thread k then on_lists (\<lambda>h. list_push_back h (ready_list k) (cur k)) ?k else Some ?k) = Some k1"
    "rep k1 (F(ready_list k \<mapsto> Q))" "stat k1 = stat k" "same_kern k k1" "same_sync k k1" "cur k1 = cur k" "ints k1 = INTR_OFF" by blast
  have t1: "thrs k1 t \<noteq> None" if "thrs k t \<noteq> None" for t using that fun_cong [OF k1(3), of t] by (metis stat_None)
  have "thrs k1 (cur k) \<noteq> None" using t1 th by simp
  from set_status_ok [OF k1(2) this, of THREAD_READY] obtain k2 where k2: "set_status (cur k) THREAD_READY k1 = Some k2" "rep k2 (F(ready_list k \<mapsto> Q))"
    "stat k2 = (stat k1)(cur k \<mapsto> THREAD_READY)" "same_kern k1 k2" "same_sync k1 k2" "cur k2 = cur k1" "ints k2 = INTR_OFF" using k1(7) by auto
  have sk: "same_kern k k2" "same_sync k k2" using k1 k2 same_kern_trans [of k k1 k2] same_sync_trans [of k k1 k2] by simp_all
  have q: "ready_list k2 = ready_list k" "next_of_queue k2 Q = next_of_queue k Q" using sk by (simp_all add: same_kern_def next_of_queue_def)
  have nd: "\<not> dying k2" "stat k2 (cur k2) \<noteq> Some THREAD_RUNNING" "stat k2 (cur k2) \<noteq> Some THREAD_DYING" "thrs k2 (cur k2) \<noteq> None"
    unfolding thrs_stat using k2(3,6) k1(6) by (auto simp: dying_def simp del: stat_None)
  have t2: "thrs k2 t \<noteq> None" if "t \<in> set Q" for t
  proof -
    have "thrs k t \<noteq> None" using that thr th Q by (auto split: if_splits)
    then show ?thesis unfolding thrs_stat using k2(3) k1(3) by (auto simp del: stat_None)
  qed
  from schedule_ok [OF k2(2) _ k2(7) nd(4,2) t2, of Q] nd q obtain k' where k': "schedule k2 = Some k'" "rep k' (F(ready_list k \<mapsto> tl Q))"
    "cur k' = next_of_queue k Q" "ints k' = INTR_OFF" "stat k' = (stat k2)(next_of_queue k Q \<mapsto> THREAD_RUNNING)" "same_kern k2 k'" "same_sync k2 k'" by auto
  have "thread_yield k = Some (ints k, k')"
    using thread_current_rep [OF r c(1)] rep_context [OF r] k1(1) k2(1) k'(1)
    by (auto simp: thread_yield_def intr_disable_def intr_get_level_def split: if_splits)
  then show ?thesis using k' k2 k1 same_kern_trans [OF sk(1) k'(6)] same_sync_trans [OF sk(2) k'(7)] by simp
qed

lemma thread_exit_ok:
  assumes r: "rep k F" and R: "F (ready_list k) = Some R" and c: "stat k (cur k) = Some THREAD_RUNNING" "cur k \<noteq> idle_thread k" "cur k \<notin> set R"
    and thr: "\<And>t. t \<in> set R \<Longrightarrow> thrs k t \<noteq> None" and page: "\<forall>a \<in> owned F. \<not> in_page (cur k) a"
  shows "\<exists>k'. thread_exit k = Some k' \<and> rep k' (F(ready_list k \<mapsto> tl R)) \<and> cur k' = next_of_queue k R \<and> ints k' = INTR_OFF
    \<and> stat k' = (stat k)(cur k := (if cur k = initial_thread k then Some THREAD_DYING else None), next_of_queue k R \<mapsto> THREAD_RUNNING)
    \<and> same_kern k k' \<and> (\<forall>a. \<not> in_page (cur k) a \<longrightarrow> sval k' a = sval k a \<and> lock_holder k' a = lock_holder k a)"
proof -
  let ?k = "k\<lparr>ints := INTR_OFF\<rparr>"
  have r': "rep ?k F" "thrs ?k (cur k) \<noteq> None" using r c by (auto simp: stat_def)
  from set_status_ok [OF r', of THREAD_DYING] obtain k1 where k1: "set_status (cur k) THREAD_DYING ?k = Some k1" "rep k1 F"
    "stat k1 = (stat k)(cur k \<mapsto> THREAD_DYING)" "same_kern k k1" "same_sync k k1" "ints k1 = INTR_OFF" "cur k1 = cur k" by auto
  have q: "ready_list k1 = ready_list k" "next_of_queue k1 R = next_of_queue k R" "idle_thread k1 = idle_thread k" "initial_thread k1 = initial_thread k"
    using k1(4) by (simp_all add: same_kern_def next_of_queue_def)
  have d: "stat k1 (cur k1) = Some THREAD_DYING" "thrs k1 (cur k1) \<noteq> None" unfolding thrs_stat using k1(3,7) by (auto simp del: stat_None)
  have t1: "thrs k1 t \<noteq> None" if "t \<in> set R" for t using thr [OF that] fun_cong [OF k1(3), of t] by (metis fun_upd_apply option.discI stat_None)
  have ne: "next_of_queue k R \<noteq> cur k" using c by (cases R) (auto simp: next_of_queue_def)
  have dy: "dying k1 \<longleftrightarrow> cur k \<noteq> initial_thread k" using d(1) k1(7) q(4) by (simp add: dying_def)
  have p1: "F (ready_list k1) = Some R" "stat k1 (cur k1) \<noteq> Some THREAD_RUNNING" "cur k1 \<noteq> idle_thread k1 \<and> cur k1 \<notin> set R"
    "\<forall>a \<in> owned F. \<not> in_page (cur k1) a" using R d(1) c page k1(7) q by simp_all
  from schedule_ok [OF k1(2) p1(1) k1(6) d(2) p1(2) t1 p1(3,4), unfolded q]
  obtain k' where k': "schedule k1 = Some k'" "rep k' (F(ready_list k \<mapsto> tl R))" "cur k' = next_of_queue k R" "ints k' = INTR_OFF"
    "stat k' = (if dying k1 then (stat k1)(next_of_queue k R \<mapsto> THREAD_RUNNING, cur k1 := None) else (stat k1)(next_of_queue k R \<mapsto> THREAD_RUNNING))"
    "same_kern k1 k'" "if dying k1 then \<forall>a. \<not> in_page (cur k1) a \<longrightarrow> sval k' a = sval k1 a \<and> lock_holder k' a = lock_holder k1 a else same_sync k1 k'" by blast
  have st: "stat k' = (stat k)(cur k := (if cur k = initial_thread k then Some THREAD_DYING else None), next_of_queue k R \<mapsto> THREAD_RUNNING)"
    using k'(5) dy k1(3,7) ne by (auto simp: fun_eq_iff)
  have "thread_current (k\<lparr>ints := INTR_OFF\<rparr>) = Some (cur k)" using thread_current_rep [OF r'(1)] c(1) by simp
  then have "thread_exit k = Some k'"
    using rep_context [OF r] k1(1) k'(1) by (simp add: thread_exit_def intr_disable_def intr_get_level_def)
  moreover have "\<forall>a. \<not> in_page (cur k) a \<longrightarrow> sval k' a = sval k a \<and> lock_holder k' a = lock_holder k a"
    using k'(7) k1(5,7) by (auto simp: same_sync_def split: if_splits)
  ultimately show ?thesis using k' st same_kern_trans [OF k1(4) k'(6)] by blast
qed

end
