(* ===== verification/Synch.thy ===== *)
theory Synch
  imports Thread_Spec
begin

text \<open>
  \<^verbatim>\<open>threads/synch.c\<close>: semaphores, locks and condition variables, at their addresses: \<^verbatim>\<open>struct semaphore\<close> is a value
  followed by a list, \<^verbatim>\<open>struct lock\<close> a pointer followed by a semaphore, \<^verbatim>\<open>struct semaphore_elem\<close> a list element
  followed by a semaphore.

  An operation that may sleep returns, when it does, the state in which the next thread goes on, together with
  what the sleeping thread has left to do: the interrupt level that \<^verbatim>\<open>sema_down\<close> restores.
\<close>

section \<open>Semaphores\<close>

definition waiters :: "addr \<Rightarrow> addr" where
  "waiters s = s + 4"

definition sema_init :: "addr \<Rightarrow> u32 \<Rightarrow> kern \<Rightarrow> kern option" where
  "sema_init s v k = do {
     kassert (s \<noteq> NULL);
     on_lists (\<lambda>h. list_init h (waiters s)) (k\<lparr>sval := (sval k)(s := v)\<rparr>) }"

text \<open>
  The loop of \<^verbatim>\<open>sema_down\<close> from one test of its condition to the next, or to the return.  The result is
  \<open>None\<close> inside if the operation is done, else the level that it still has to restore.
\<close>

definition sema_down_loop :: "addr \<Rightarrow> intr_level \<Rightarrow> kern \<Rightarrow> (intr_level option \<times> kern) option" where
  "sema_down_loop s old_level k =
     (if sval k s = 0 then do {
        t \<leftarrow> thread_current k;
        k \<leftarrow> on_lists (\<lambda>h. list_push_back h (waiters s) t) k;
        k \<leftarrow> thread_block k;
        Some (Some old_level, k) }
      else do {
        (_, k) \<leftarrow> intr_set_level old_level (k\<lparr>sval := (sval k)(s := sval k s - 1)\<rparr>);
        Some (None, k) })"

definition sema_down :: "addr \<Rightarrow> kern \<Rightarrow> (intr_level option \<times> kern) option" where
  "sema_down s k = do {
     kassert (s \<noteq> NULL);
     kassert (\<not> intr_context k);
     let (old_level, k) = intr_disable k;
     sema_down_loop s old_level k }"

definition sema_try_down :: "addr \<Rightarrow> kern \<Rightarrow> (bool \<times> kern) option" where
  "sema_try_down s k = do {
     kassert (s \<noteq> NULL);
     let (old_level, k) = intr_disable k;
     let success = (sval k s > 0);
     let k = (if success then k\<lparr>sval := (sval k)(s := sval k s - 1)\<rparr> else k);
     (_, k) \<leftarrow> intr_set_level old_level k;
     Some (success, k) }"

definition sema_up :: "addr \<Rightarrow> kern \<Rightarrow> kern option" where
  "sema_up s k = do {
     kassert (s \<noteq> NULL);
     let (old_level, k) = intr_disable k;
     em \<leftarrow> list_empty (lnk k) (waiters s);
     k \<leftarrow> (if \<not> em then do { (t, k) \<leftarrow> pop_list (waiters s) k; thread_unblock t k } else Some k);
     (_, k) \<leftarrow> intr_set_level old_level (k\<lparr>sval := (sval k)(s := sval k s + 1)\<rparr>);
     Some k }"

section \<open>Locks\<close>

definition lock_sema :: "addr \<Rightarrow> addr" where
  "lock_sema l = l + 4"

definition lock_init :: "addr \<Rightarrow> kern \<Rightarrow> kern option" where
  "lock_init l k = do {
     kassert (l \<noteq> NULL);
     sema_init (lock_sema l) 1 (k\<lparr>lock_holder := (lock_holder k)(l := NULL)\<rparr>) }"

definition lock_held_by_current_thread :: "addr \<Rightarrow> kern \<Rightarrow> bool option" where
  "lock_held_by_current_thread l k = do {
     kassert (l \<noteq> NULL);
     t \<leftarrow> thread_current k;
     Some (lock_holder k l = t) }"

text \<open>\<^verbatim>\<open>lock_acquire\<close> up to the end of its \<^verbatim>\<open>sema_down\<close>, and what follows.\<close>

definition lock_acquire :: "addr \<Rightarrow> kern \<Rightarrow> (intr_level option \<times> kern) option" where
  "lock_acquire l k = do {
     kassert (l \<noteq> NULL);
     kassert (\<not> intr_context k);
     held \<leftarrow> lock_held_by_current_thread l k;
     kassert (\<not> held);
     sema_down (lock_sema l) k }"

definition lock_set_holder :: "addr \<Rightarrow> kern \<Rightarrow> kern option" where
  "lock_set_holder l k = do {
     t \<leftarrow> thread_current k;
     Some (k\<lparr>lock_holder := (lock_holder k)(l := t)\<rparr>) }"

definition lock_try_acquire :: "addr \<Rightarrow> kern \<Rightarrow> (bool \<times> kern) option" where
  "lock_try_acquire l k = do {
     kassert (l \<noteq> NULL);
     held \<leftarrow> lock_held_by_current_thread l k;
     kassert (\<not> held);
     (success, k) \<leftarrow> sema_try_down (lock_sema l) k;
     k \<leftarrow> (if success then lock_set_holder l k else Some k);
     Some (success, k) }"

text \<open>\<^verbatim>\<open>lock_release\<close> up to its \<^verbatim>\<open>sema_up\<close>, which follows as a step of its own.\<close>

definition lock_drop_holder :: "addr \<Rightarrow> kern \<Rightarrow> kern option" where
  "lock_drop_holder l k = do {
     kassert (l \<noteq> NULL);
     held \<leftarrow> lock_held_by_current_thread l k;
     kassert held;
     Some (k\<lparr>lock_holder := (lock_holder k)(l := NULL)\<rparr>) }"

definition lock_release :: "addr \<Rightarrow> kern \<Rightarrow> kern option" where
  "lock_release l k = do { k \<leftarrow> lock_drop_holder l k; sema_up (lock_sema l) k }"

section \<open>Condition variables\<close>

definition elem_sema :: "addr \<Rightarrow> addr" where
  "elem_sema w = w + 8"

definition cond_init :: "addr \<Rightarrow> kern \<Rightarrow> kern option" where
  "cond_init c k = do { kassert (c \<noteq> NULL); on_lists (\<lambda>h. list_init h c) k }"

text \<open>
  \<^verbatim>\<open>cond_wait\<close>, with the address of its local variable \<^verbatim>\<open>waiter\<close>, up to its \<^verbatim>\<open>lock_release\<close>; the
  \<^verbatim>\<open>lock_release\<close>, the \<^verbatim>\<open>sema_down\<close> on the semaphore of the waiter and the \<^verbatim>\<open>lock_acquire\<close> follow.
\<close>

definition cond_enqueue :: "addr \<Rightarrow> addr \<Rightarrow> addr \<Rightarrow> kern \<Rightarrow> kern option" where
  "cond_enqueue c l w k = do {
     kassert (c \<noteq> NULL);
     kassert (l \<noteq> NULL);
     kassert (\<not> intr_context k);
     held \<leftarrow> lock_held_by_current_thread l k;
     kassert held;
     k \<leftarrow> sema_init (elem_sema w) 0 k;
     on_lists (\<lambda>h. list_push_back h c w) k }"

definition cond_wait :: "addr \<Rightarrow> addr \<Rightarrow> addr \<Rightarrow> kern \<Rightarrow> (intr_level option \<times> kern) option" where
  "cond_wait c l w k = do {
     k \<leftarrow> cond_enqueue c l w k;
     k \<leftarrow> lock_release l k;
     sema_down (elem_sema w) k }"

definition cond_signal :: "addr \<Rightarrow> addr \<Rightarrow> kern \<Rightarrow> kern option" where
  "cond_signal c l k = do {
     kassert (c \<noteq> NULL);
     kassert (l \<noteq> NULL);
     kassert (\<not> intr_context k);
     held \<leftarrow> lock_held_by_current_thread l k;
     kassert held;
     em \<leftarrow> list_empty (lnk k) c;
     if \<not> em then do { (w, k) \<leftarrow> pop_list c k; sema_up (elem_sema w) k } else Some k }"

partial_function (option) cond_broadcast_loop :: "addr \<Rightarrow> addr \<Rightarrow> kern \<Rightarrow> kern option" where
  "cond_broadcast_loop c l k = do {
     em \<leftarrow> list_empty (lnk k) c;
     if \<not> em then do { k \<leftarrow> cond_signal c l k; cond_broadcast_loop c l k } else Some k }"

definition cond_broadcast :: "addr \<Rightarrow> addr \<Rightarrow> kern \<Rightarrow> kern option" where
  "cond_broadcast c l k = do {
     kassert (c \<noteq> NULL);
     kassert (l \<noteq> NULL);
     cond_broadcast_loop c l k }"

section \<open>Effect of the operations\<close>

lemma rep_sval [simp]: "rep (k\<lparr>sval := f\<rparr>) F = rep k F" "rep (k\<lparr>lock_holder := g\<rparr>) F = rep k F"
  by (simp_all add: rep_def thread_sound_def)

lemma stat_sval [simp]: "stat (k\<lparr>sval := f\<rparr>) = stat k" "stat (k\<lparr>lock_holder := g\<rparr>) = stat k"
  by (simp_all add: stat_def fun_eq_iff)

lemma same_kern_sval [simp]: "same_kern k (k'\<lparr>sval := f\<rparr>) = same_kern k k'" "same_kern k (k'\<lparr>lock_holder := g\<rparr>) = same_kern k k'"
  by (simp_all add: same_kern_def)

lemma sema_down_loop_takes:
  assumes "rep k F" and "sval k s \<noteq> 0"
  shows "sema_down_loop s lvl k = Some (None, k\<lparr>sval := (sval k)(s := sval k s - 1), ints := lvl\<rparr>)"
  using assms intr_set_level_ok [of "k\<lparr>sval := (sval k)(s := sval k s - 1)\<rparr>" F lvl] by (simp add: sema_down_loop_def)

lemma sema_down_loop_sleeps:
  assumes r: "rep k F" and z: "sval k s = 0" and R: "F (ready_list k) = Some R" and W: "F (waiters s) = Some W" and ne: "waiters s \<noteq> ready_list k"
    and off: "ints k = INTR_OFF" and c: "stat k (cur k) = Some THREAD_RUNNING" "cur k \<notin> owned F"
    and thr: "\<And>t. t \<in> set R \<Longrightarrow> thrs k t \<noteq> None"
  shows "\<exists>k'. sema_down_loop s lvl k = Some (Some lvl, k') \<and> rep k' (F(waiters s \<mapsto> W @ [cur k], ready_list k \<mapsto> tl R)) \<and> cur k' = next_of_queue k R
    \<and> ints k' = INTR_OFF \<and> stat k' = (stat k)(cur k \<mapsto> THREAD_BLOCKED, next_of_queue k R \<mapsto> THREAD_RUNNING) \<and> same_kern k k' \<and> same_sync k k'"
proof -
  obtain th where th: "thrs k (cur k) = Some th" using c by (auto simp: stat_def)
  have t0: "cur k \<noteq> NULL" using rep_sound [OF r th] by (simp add: thread_sound_def)
  from push_ok [OF r W t0 c(2)] obtain k1 where k1: "on_lists (\<lambda>h. list_push_back h (waiters s) (cur k)) k = Some k1"
    "rep k1 (F(waiters s \<mapsto> W @ [cur k]))" "stat k1 = stat k" "same_kern k k1" "same_sync k k1" "ints k1 = INTR_OFF" "cur k1 = cur k" using off by auto
  have q: "ready_list k1 = ready_list k" "next_of_queue k1 R = next_of_queue k R" using k1(4) by (simp_all add: same_kern_def next_of_queue_def)
  have "(F(waiters s \<mapsto> W @ [cur k])) (ready_list k1) = Some R" using R ne q by simp
  moreover have "stat k1 (cur k1) = Some THREAD_RUNNING" using k1 c by simp
  moreover have "thrs k1 t \<noteq> None" if "t \<in> set R" for t using thr [OF that] k1(3) unfolding thrs_stat by simp
  ultimately obtain k' where "thread_block k1 = Some k'" "rep k' (F(waiters s \<mapsto> W @ [cur k], ready_list k \<mapsto> tl R))" "cur k' = next_of_queue k R"
    "ints k' = INTR_OFF" "stat k' = (stat k)(cur k \<mapsto> THREAD_BLOCKED, next_of_queue k R \<mapsto> THREAD_RUNNING)" "same_kern k1 k'" "same_sync k1 k'"
    using thread_block_ok [OF k1(2) _ k1(6), of R] q k1 by auto
  then show ?thesis using z k1 thread_current_rep [OF r c(1)] same_kern_trans [of k k1 k'] same_sync_trans [of k k1 k']
    by (simp add: sema_down_loop_def)
qed

lemma sema_up_ok:
  assumes r: "rep k F" and s: "s \<noteq> NULL" and R: "F (ready_list k) = Some R" and W: "F (waiters s) = Some W" and ne: "waiters s \<noteq> ready_list k"
    and b: "\<And>t. t \<in> set W \<Longrightarrow> stat k t = Some THREAD_BLOCKED"
  shows "\<exists>k'. sema_up s k = Some k' \<and> rep k' (case W of [] \<Rightarrow> F | t # W' \<Rightarrow> F(waiters s \<mapsto> W', ready_list k \<mapsto> R @ [t]))
    \<and> stat k' = (case W of [] \<Rightarrow> stat k | t # W' \<Rightarrow> (stat k)(t \<mapsto> THREAD_READY)) \<and> sval k' = (sval k)(s := sval k s + 1)
    \<and> lock_holder k' = lock_holder k \<and> cur k' = cur k \<and> ints k' = ints k \<and> same_kern k k'"
proof -
  let ?k = "k\<lparr>ints := INTR_OFF\<rparr>"
  have r': "rep ?k F" using r by simp
  have em: "list_empty (lnk ?k) (waiters s) = Some (W = [])" using lists_empty [OF rep_lists [OF r'] W] .
  show ?thesis
  proof (cases W)
    case Nil
    have "rep (?k\<lparr>sval := (sval k)(s := sval k s + 1)\<rparr>) F" using r by simp
    from intr_set_level_ok [OF this, of "ints k"] em s Nil r show ?thesis
      by (simp add: sema_up_def intr_disable_def intr_get_level_def)
  next
    case (Cons t W')
    from pop_ok [OF r' W [unfolded Cons]] obtain k1 where k1: "pop_list (waiters s) ?k = Some (t, k1)" "rep k1 (F(waiters s \<mapsto> W'))"
      "t \<notin> owned (F(waiters s \<mapsto> W'))" "stat k1 = stat k" "same_kern k k1" "same_sync k k1" "ints k1 = INTR_OFF" "cur k1 = cur k" by auto
    have q: "ready_list k1 = ready_list k" using k1(5) by (simp add: same_kern_def)
    have "(F(waiters s \<mapsto> W')) (ready_list k1) = Some R" using R ne q by simp
    moreover have "stat k1 t = Some THREAD_BLOCKED" using b Cons k1(4) by simp
    ultimately obtain k2 where k2: "thread_unblock t k1 = Some k2" "rep k2 (F(waiters s \<mapsto> W', ready_list k \<mapsto> R @ [t]))"
      "stat k2 = (stat k)(t \<mapsto> THREAD_READY)" "cur k2 = cur k" "same_kern k1 k2" "same_sync k1 k2"
      using thread_unblock_ok [OF k1(2) _ _ k1(3), of R] q k1 by auto
    have "rep (k2\<lparr>sval := (sval k2)(s := sval k2 s + 1)\<rparr>) (F(waiters s \<mapsto> W', ready_list k \<mapsto> R @ [t]))" using k2(2) by simp
    from intr_set_level_ok [OF this, of "ints k"] em s Cons k1 k2 same_kern_trans [OF k1(5) k2(5)] show ?thesis
      by (simp add: sema_up_def intr_disable_def intr_get_level_def same_sync_def)
  qed
qed

end
