(* ===== verification/Interrupt.thy ===== *)
theory Interrupt
  imports Thread_Spec
begin

unbundle bit_operations_syntax

text \<open>
  \<^verbatim>\<open>threads/interrupt.c\<close> and the interrupt of \<^verbatim>\<open>devices/timer.c\<close>: gates, registration and dispatch of interrupts.
  The addresses of the entry stubs, and the handlers themselves, are arguments; writes to the ports of the interrupt
  controller are not part of the state.
\<close>

section \<open>Gates\<close>

definition SEL_KCSEG :: u32 where
  "SEL_KCSEG = 0x08"

definition make_gate :: "vaddr \<Rightarrow> int \<Rightarrow> int \<Rightarrow> u64 option" where
  "make_gate fn dpl type = do {
     kassert (fn \<noteq> 0);
     kassert (dpl \<ge> 0 \<and> dpl \<le> 3);
     kassert (type \<ge> 0 \<and> type \<le> 15);
     let e0 = (fn AND 0xffff) OR push_bit 16 SEL_KCSEG;
     let e1 = (fn AND 0xffff0000) OR push_bit 15 1 OR push_bit 13 (of_int dpl) OR push_bit 12 0 OR push_bit 8 (of_int type);
     Some (ucast e0 OR push_bit 32 (ucast e1)) }"

definition make_intr_gate :: "vaddr \<Rightarrow> int \<Rightarrow> u64 option" where
  "make_intr_gate fn dpl = make_gate fn dpl 14"

definition make_trap_gate :: "vaddr \<Rightarrow> int \<Rightarrow> u64 option" where
  "make_trap_gate fn dpl = make_gate fn dpl 15"

definition make_idtr_operand :: "u16 \<Rightarrow> vaddr \<Rightarrow> u64" where
  "make_idtr_operand limit bs = ucast limit OR push_bit 16 (ucast bs)"

section \<open>Registration\<close>

type_synonym handler = "kern \<Rightarrow> kern option"

record idt_state =
  idt :: "byte \<Rightarrow> u64"
  intr_handlers :: "byte \<Rightarrow> handler option"
  intr_names :: "byte \<Rightarrow> string"

definition register_handler :: "(byte \<Rightarrow> vaddr) \<Rightarrow> byte \<Rightarrow> int \<Rightarrow> intr_level \<Rightarrow> handler \<Rightarrow> string \<Rightarrow> idt_state \<Rightarrow> idt_state option" where
  "register_handler intr_stubs vec_no dpl level handler nm d = do {
     kassert (intr_handlers d vec_no = None);
     g \<leftarrow> (if level = INTR_ON then make_trap_gate (intr_stubs vec_no) dpl else make_intr_gate (intr_stubs vec_no) dpl);
     Some (d\<lparr>idt := (idt d)(vec_no := g), intr_handlers := (intr_handlers d)(vec_no \<mapsto> handler), intr_names := (intr_names d)(vec_no := nm)\<rparr>) }"

definition intr_register_ext :: "(byte \<Rightarrow> vaddr) \<Rightarrow> byte \<Rightarrow> handler \<Rightarrow> string \<Rightarrow> idt_state \<Rightarrow> idt_state option" where
  "intr_register_ext intr_stubs vec_no handler nm d = do {
     kassert (vec_no \<ge> 0x20 \<and> vec_no \<le> 0x2f);
     register_handler intr_stubs vec_no 0 INTR_OFF handler nm d }"

definition intr_register_int :: "(byte \<Rightarrow> vaddr) \<Rightarrow> byte \<Rightarrow> int \<Rightarrow> intr_level \<Rightarrow> handler \<Rightarrow> string \<Rightarrow> idt_state \<Rightarrow> idt_state option" where
  "intr_register_int intr_stubs vec_no dpl level handler nm d = do {
     kassert (vec_no < 0x20 \<or> vec_no > 0x2f);
     register_handler intr_stubs vec_no dpl level handler nm d }"

definition intr_name :: "byte \<Rightarrow> idt_state \<Rightarrow> string" where
  "intr_name vec d = intr_names d vec"

section \<open>Dispatch\<close>

definition pic_end_of_interrupt :: "byte \<Rightarrow> kern \<Rightarrow> kern option" where
  "pic_end_of_interrupt irq k = do { kassert (irq \<ge> 0x20 \<and> irq < 0x30); Some k }"

text \<open>
  \<^verbatim>\<open>intr_handler\<close>.  If the interrupted thread yields at the end, the result has the interrupt level that
  \<^verbatim>\<open>thread_yield\<close> restores later, and the state is that of the next thread.
\<close>

definition intr_handler :: "idt_state \<Rightarrow> byte \<Rightarrow> kern \<Rightarrow> (intr_level option \<times> kern) option" where
  "intr_handler d vec_no k = do {
     let external = (vec_no \<ge> 0x20 \<and> vec_no < 0x30);
     k \<leftarrow> (if external then do {
             kassert (intr_get_level k = INTR_OFF);
             kassert (\<not> intr_context k);
             Some (k\<lparr>in_external_intr := True, yield_on_return := False\<rparr>) }
           else Some k);
     k \<leftarrow> (case intr_handlers d vec_no of
             Some handler \<Rightarrow> handler k
           | None \<Rightarrow> if vec_no = 0x27 \<or> vec_no = 0x2f then Some k else None);
     if external then do {
       kassert (intr_get_level k = INTR_OFF);
       kassert (intr_context k);
       k \<leftarrow> pic_end_of_interrupt vec_no (k\<lparr>in_external_intr := False\<rparr>);
       if yield_on_return k then do { (lvl, k) \<leftarrow> thread_yield k; Some (Some lvl, k) } else Some (None, k) }
     else Some (None, k) }"

section \<open>The timer interrupt\<close>

definition timer_interrupt :: "kern \<Rightarrow> kern option" where
  "timer_interrupt k = thread_tick (k\<lparr>ticks := ticks k + 1\<rparr>)"

text \<open>The processor enters the handler through an interrupt gate, with interrupts off.\<close>

definition timer_fires :: "idt_state \<Rightarrow> kern \<Rightarrow> (intr_level option \<times> kern) option" where
  "timer_fires d k = intr_handler d 0x20 (k\<lparr>ints := INTR_OFF\<rparr>)"

text \<open>
  One timer interrupt while a thread runs: the thread goes on, unless its time slice is over; then it goes to
  the end of the ready list, and the first thread there runs.
\<close>

lemma timer_fires_ok:
  assumes d: "intr_handlers d 0x20 = Some timer_interrupt"
    and r: "rep k F" and R: "F (ready_list k) = Some R" and c: "stat k (cur k) = Some THREAD_RUNNING" "cur k \<notin> owned F"
    and thr: "\<And>t. t \<in> set R \<Longrightarrow> thrs k t \<noteq> None" and Q: "Q = (if cur k \<noteq> idle_thread k then R @ [cur k] else R)"
  shows "if thread_ticks k + 1 \<ge> TIME_SLICE
    then \<exists>k'. timer_fires d k = Some (Some INTR_OFF, k') \<and> rep k' (F(ready_list k \<mapsto> tl Q)) \<and> cur k' = next_of_queue k Q \<and> ints k' = INTR_OFF
      \<and> stat k' = (stat k)(cur k \<mapsto> THREAD_READY, next_of_queue k Q \<mapsto> THREAD_RUNNING) \<and> same_kern k k' \<and> same_sync k k'
    else \<exists>k'. timer_fires d k = Some (None, k') \<and> rep k' F \<and> cur k' = cur k \<and> ints k' = INTR_OFF \<and> stat k' = stat k
      \<and> same_kern k k' \<and> same_sync k k'"
proof -
  obtain th where th: "thrs k (cur k) = Some th" "status th = THREAD_RUNNING" using c by (auto simp: stat_def)
  let ?k1 = "k\<lparr>ints := INTR_OFF, in_external_intr := True, yield_on_return := False, ticks := ticks k + 1\<rparr>"
  let ?k2 = "(if cur k = idle_thread k then ?k1\<lparr>idle_ticks := idle_ticks k + 1\<rparr>
     else if pagedir th \<noteq> 0 then ?k1\<lparr>user_ticks := user_ticks k + 1\<rparr> else ?k1\<lparr>kernel_ticks := kernel_ticks k + 1\<rparr>)\<lparr>thread_ticks := thread_ticks k + 1\<rparr>"
  let ?k3 = "?k2\<lparr>yield_on_return := (thread_ticks k + 1 \<ge> TIME_SLICE)\<rparr>"
  have tc: "thread_current ?k1 = Some (cur k)"
    using thread_current_rep [OF r c(1)] by (simp add: thread_current_def running_thread_def is_thread_def)
  have tick: "timer_interrupt (k\<lparr>ints := INTR_OFF, in_external_intr := True, yield_on_return := False\<rparr>) = Some ?k3"
    using tc th 
    by (cases "TIME_SLICE \<le> thread_ticks k + 1"; cases "cur k = idle_thread k"; cases "pagedir th = 0";
      simp add: timer_interrupt_def thread_tick_def intr_yield_on_return_def intr_context_def)
  define k4 where "k4 = ?k3\<lparr>in_external_intr := False\<rparr>"
  have k4: "rep k4 F" "stat k4 = stat k" "same_kern k k4" "same_sync k k4" "ready_list k4 = ready_list k" "cur k4 = cur k"
    "idle_thread k4 = idle_thread k" "thrs k4 = thrs k" "ints k4 = INTR_OFF"
    using r by (simp_all add: k4_def rep_def thread_sound_def stat_def fun_eq_iff same_kern_def same_sync_def)
  have ih: "timer_fires d k = (if thread_ticks k + 1 \<ge> TIME_SLICE then Option.bind (thread_yield k4) (\<lambda>(lvl, k). Some (Some lvl, k)) else Some (None, k4))"
    using d tick r rep_context [OF r]
    by (simp add: k4_def timer_fires_def intr_handler_def intr_get_level_def intr_context_def pic_end_of_interrupt_def)
  show ?thesis
  proof (cases "thread_ticks k + 1 \<ge> TIME_SLICE")
    case True
    have nq: "next_of_queue k4 Q = next_of_queue k Q" by (simp add: next_of_queue_def k4)
    from thread_yield_ok [OF k4(1), of R Q, unfolded k4 nq, OF R c thr Q] obtain k' where "thread_yield k4 = Some (INTR_OFF, k')" "rep k' (F(ready_list k \<mapsto> tl Q))"
      "cur k' = next_of_queue k Q" "ints k' = INTR_OFF" "stat k' = (stat k)(cur k \<mapsto> THREAD_READY, next_of_queue k Q \<mapsto> THREAD_RUNNING)"
      "same_kern k4 k'" "same_sync k4 k'" by blast
    then show ?thesis using True ih same_kern_trans [OF k4(3), of k'] same_sync_trans [OF k4(4), of k'] by auto
  next
    case False
    then show ?thesis using ih k4 by auto
  qed
qed

section \<open>The fields of a gate\<close>

text \<open>The target address of a gate, as the processor reads it.\<close>

definition gate_offset :: "u64 \<Rightarrow> vaddr" where
  "gate_offset g = ucast (take_bit 16 g) OR push_bit 16 (ucast (drop_bit 48 g))"

lemma bit_join64: "bit (ucast e0 OR push_bit 32 (ucast e1) :: u64) n \<longleftrightarrow> n < 64 \<and> (if n < 32 then bit e0 n else bit e1 (n - 32))"
  for e0 e1 :: u32
  by (auto simp: bit_or_iff bit_push_bit_iff bit_unsigned_iff dest: bit_imp_le_length)

lemma small_int_bits: "bit (of_int x :: 'a::len word) n \<longleftrightarrow> n < LENGTH('a) \<and> n < m \<and> bit x n" if "0 \<le> x" "x < 2 ^ m"
proof -
  have "take_bit m x = x" using that by (simp add: take_bit_int_eq_self_iff)
  then have "bit x n \<longleftrightarrow> n < m \<and> bit x n" by (metis bit_take_bit_iff)
  then show ?thesis by (simp add: bit_of_int_iff bit_word_of_int_iff)
qed

text \<open>
  C74. Every field of a gate that \<^verbatim>\<open>make_gate\<close> encodes is read back by the processor: the address of the stub, the kernel code
  segment, the type and the privilege level, and the gate is present.  The reserved bits are zero.
\<close>

theorem make_gate_fields:
  assumes "fn \<noteq> 0" "0 \<le> dpl" "dpl \<le> 3" "0 \<le> type" "type \<le> 15"
  shows "\<exists>g. make_gate fn dpl type = Some g \<and> gate_offset g = fn \<and> take_bit 16 (drop_bit 16 g) = ucast SEL_KCSEG
    \<and> take_bit 2 (drop_bit 45 g) = of_int dpl \<and> take_bit 4 (drop_bit 40 g) = of_int type \<and> bit g 47 \<and> \<not> bit g 44 \<and> take_bit 8 (drop_bit 32 g) = 0"
proof -
  have d: "bit (of_int dpl :: 'a::len word) n \<longleftrightarrow> n < LENGTH('a) \<and> n < 2 \<and> bit dpl n" for n using small_int_bits [of dpl 2] assms by simp
  have t: "bit (of_int type :: 'a::len word) n \<longleftrightarrow> n < LENGTH('a) \<and> n < 4 \<and> bit type n" for n using small_int_bits [of type 4] assms by simp
  let ?e0 = "(fn AND 0xffff) OR push_bit 16 SEL_KCSEG"
  let ?e1 = "(fn AND 0xffff0000) OR push_bit 15 1 OR push_bit 13 (of_int dpl) OR push_bit 12 0 OR push_bit 8 (of_int type)"
  define g :: u64 where "g = ucast ?e0 OR push_bit 32 (ucast ?e1)"
  have lo: "bit (0xffff :: u32) n \<longleftrightarrow> n < 16" for n
  proof -
    have "(0xffff :: u32) = mask 16" by (simp add: mask_eq_exp_minus_1)
    then show ?thesis by (simp only: bit_mask_iff) auto
  qed
  have hi: "bit (0xffff0000 :: u32) n \<longleftrightarrow> 16 \<le> n \<and> n < 32" for n
  proof -
    have "(0xffff0000 :: u32) = push_bit 16 (mask 16)" by (simp add: mask_eq_exp_minus_1)
    then show ?thesis by (simp only: bit_mask_iff bit_push_bit_iff) auto
  qed
  have sel: "bit SEL_KCSEG n \<longleftrightarrow> n = 3" for n
  proof -
    have "SEL_KCSEG = push_bit 3 1" by (simp add: SEL_KCSEG_def)
    then show ?thesis unfolding SEL_KCSEG_def by (simp only: bit_push_bit_iff bit_1_iff) auto
  qed
  have e0: "bit ?e0 n \<longleftrightarrow> n < 16 \<and> bit fn n \<or> n = 19" for n
    unfolding bit_or_iff bit_and_iff bit_push_bit_iff lo sel by auto
  have e1: "bit ?e1 n \<longleftrightarrow> 16 \<le> n \<and> n < 32 \<and> bit fn n \<or> n = 15 \<or> 13 \<le> n \<and> n < 15 \<and> bit dpl (n - 13) \<or> 8 \<le> n \<and> n < 12 \<and> bit type (n - 8)" for n
  proof -
    have "bit (push_bit 15 (1 :: u32)) n \<longleftrightarrow> n = 15" unfolding bit_push_bit_iff bit_1_iff by auto
    moreover have "bit (push_bit 13 (of_int dpl :: u32)) n \<longleftrightarrow> 13 \<le> n \<and> n < 15 \<and> bit dpl (n - 13)" by (auto simp: bit_push_bit_iff d)
    moreover have "bit (push_bit 8 (of_int type :: u32)) n \<longleftrightarrow> 8 \<le> n \<and> n < 12 \<and> bit type (n - 8)" by (auto simp: bit_push_bit_iff t)
    moreover have "\<not> bit (push_bit 12 (0 :: u32)) n" by simp
    ultimately show ?thesis by (simp only: bit_or_iff bit_and_iff hi) blast
  qed
  note g = bit_join64 [of ?e0 ?e1, folded g_def, unfolded e0 e1]
  have "make_gate fn dpl type = Some g" using assms by (simp add: make_gate_def g_def)
  moreover have "gate_offset g = fn"
    by (rule bit_word_eqI) (auto simp: gate_offset_def bit_or_iff bit_push_bit_iff bit_unsigned_iff bit_take_bit_iff bit_drop_bit_eq g)
  moreover have "take_bit 16 (drop_bit 16 g) = ucast SEL_KCSEG"
    by (rule bit_word_eqI) (auto simp: bit_unsigned_iff bit_take_bit_iff bit_drop_bit_eq g sel)
  moreover have "take_bit 2 (drop_bit 45 g) = of_int dpl"
    by (rule bit_word_eqI) (auto simp: bit_take_bit_iff bit_drop_bit_eq g d)
  moreover have "take_bit 4 (drop_bit 40 g) = of_int type"
    by (rule bit_word_eqI) (auto simp: bit_take_bit_iff bit_drop_bit_eq g t)
  moreover have "take_bit 8 (drop_bit 32 g) = 0"
    by (rule bit_word_eqI) (auto simp: bit_take_bit_iff bit_drop_bit_eq g)
  moreover have "bit g 47" "\<not> bit g 44" by (simp_all add: g)
  ultimately show ?thesis by blast
qed

theorem make_gate_fields_witness:
  "\<exists>g. make_gate 0xc0021234 3 15 = Some g \<and> gate_offset g = 0xc0021234 \<and> take_bit 16 (drop_bit 16 g) = ucast SEL_KCSEG
    \<and> take_bit 2 (drop_bit 45 g) = of_int 3 \<and> take_bit 4 (drop_bit 40 g) = of_int 15 \<and> bit g 47 \<and> \<not> bit g 44 \<and> take_bit 8 (drop_bit 32 g) = 0"
  by (rule make_gate_fields) simp_all

end
