(* ===== verification/Sched.thy ===== *)
theory Sched
  imports Synch Interrupt
begin

text \<open>
  The kernel as a machine: threads that call the operations of \<^verbatim>\<open>thread.c\<close> and \<^verbatim>\<open>synch.c\<close> in any order, interleaved
  by the scheduler and by the timer interrupt.  What a thread has left to do inside the kernel is a list of
  frames, the abstraction of its kernel stack.  Between two steps interrupts may occur if they are on; code that runs
  with interrupts off is one step.
\<close>

section \<open>The machine\<close>

text \<open>
  A frame says where the thread goes on: in the loop of \<^verbatim>\<open>sema_down\<close>, behind \<^verbatim>\<open>schedule\<close> in
  \<^verbatim>\<open>thread_yield\<close>, behind \<^verbatim>\<open>sema_down\<close> in \<^verbatim>\<open>lock_acquire\<close>, in front of \<^verbatim>\<open>sema_up\<close> in \<^verbatim>\<open>lock_release\<close>,
  at the start of \<^verbatim>\<open>kernel_thread\<close>, behind \<^verbatim>\<open>thread_block\<close> in \<^verbatim>\<open>idle\<close>, and at the end of an interrupt.
\<close>

datatype frame =
    F_sema_down addr intr_level
  | F_yield intr_level
  | F_lock_acquire addr
  | F_lock_release addr
  | F_kernel_thread
  | F_idle
  | F_iret

record mach =
  ks :: kern
  frs :: "addr \<Rightarrow> frame list"

datatype kop =
    Sema_down addr | Sema_try_down addr | Sema_up addr
  | Lock_acquire addr | Lock_try_acquire addr | Lock_release addr
  | Thread_yield | Thread_exit

definition push_frame :: "addr \<Rightarrow> frame \<Rightarrow> (addr \<Rightarrow> frame list) \<Rightarrow> addr \<Rightarrow> frame list" where
  "push_frame t f fr = fr(t := f # fr t)"

text \<open>The frame of a thread that sleeps in \<^verbatim>\<open>sema_down\<close>.\<close>

definition push_sleep :: "addr \<Rightarrow> addr \<Rightarrow> intr_level option \<Rightarrow> (addr \<Rightarrow> frame list) \<Rightarrow> addr \<Rightarrow> frame list" where
  "push_sleep t s r fr = (case r of None \<Rightarrow> fr | Some lvl \<Rightarrow> push_frame t (F_sema_down s lvl) fr)"

text \<open>An operation, called by the running thread.\<close>

definition exec_op :: "kop \<Rightarrow> mach \<Rightarrow> mach option" where
  "exec_op x m = (let k = ks m; t = cur k; fr = frs m in
     case x of
       Sema_down s \<Rightarrow> do { (r, k) \<leftarrow> sema_down s k; Some \<lparr>ks = k, frs = push_sleep t s r fr\<rparr> }
     | Sema_try_down s \<Rightarrow> do { (_, k) \<leftarrow> sema_try_down s k; Some \<lparr>ks = k, frs = fr\<rparr> }
     | Sema_up s \<Rightarrow> do { k \<leftarrow> sema_up s k; Some \<lparr>ks = k, frs = fr\<rparr> }
     | Lock_acquire l \<Rightarrow> do {
         (r, k) \<leftarrow> lock_acquire l k;
         Some \<lparr>ks = k, frs = push_sleep t (lock_sema l) r (push_frame t (F_lock_acquire l) fr)\<rparr> }
     | Lock_try_acquire l \<Rightarrow> do { (_, k) \<leftarrow> lock_try_acquire l k; Some \<lparr>ks = k, frs = fr\<rparr> }
     | Lock_release l \<Rightarrow> do { k \<leftarrow> lock_drop_holder l k; Some \<lparr>ks = k, frs = push_frame t (F_lock_release l) fr\<rparr> }
     | Thread_yield \<Rightarrow> do { (lvl, k) \<leftarrow> thread_yield k; Some \<lparr>ks = k, frs = push_frame t (F_yield lvl) fr\<rparr> }
     | Thread_exit \<Rightarrow> do { k \<leftarrow> thread_exit k; Some \<lparr>ks = k, frs = fr\<rparr> })"

text \<open>The running thread goes on with what its innermost frame has left to do.\<close>

definition resume :: "mach \<Rightarrow> mach option" where
  "resume m = (let k = ks m; t = cur k in
     case frs m t of
       [] \<Rightarrow> None
     | f # fs \<Rightarrow> (let fr = (frs m)(t := fs) in
         case f of
           F_sema_down s lvl \<Rightarrow> do { (r, k) \<leftarrow> sema_down_loop s lvl k; Some \<lparr>ks = k, frs = push_sleep t s r fr\<rparr> }
         | F_yield lvl \<Rightarrow> do { (_, k) \<leftarrow> intr_set_level lvl k; Some \<lparr>ks = k, frs = fr\<rparr> }
         | F_lock_acquire l \<Rightarrow> do { k \<leftarrow> lock_set_holder l k; Some \<lparr>ks = k, frs = fr\<rparr> }
         | F_lock_release l \<Rightarrow> do { k \<leftarrow> sema_up (lock_sema l) k; Some \<lparr>ks = k, frs = fr\<rparr> }
         | F_kernel_thread \<Rightarrow> do { (_, k) \<leftarrow> intr_enable k; Some \<lparr>ks = k, frs = fr\<rparr> }
         | F_idle \<Rightarrow> Some \<lparr>ks = k\<lparr>ints := INTR_ON\<rparr>, frs = fr\<rparr>
         | F_iret \<Rightarrow> Some \<lparr>ks = k\<lparr>ints := INTR_ON\<rparr>, frs = fr\<rparr>))"

text \<open>The loop of the idle thread, up to its \<^verbatim>\<open>thread_block\<close>.\<close>

definition idle_loop :: "mach \<Rightarrow> mach option" where
  "idle_loop m = (let t = cur (ks m) in do {
     let (_, k) = intr_disable (ks m);
     k \<leftarrow> thread_block k;
     Some \<lparr>ks = k, frs = push_frame t F_idle (frs m)\<rparr> })"

text \<open>A timer interrupt.\<close>

definition tick :: "idt_state \<Rightarrow> mach \<Rightarrow> mach option" where
  "tick d m = (let t = cur (ks m) in do {
     (r, k) \<leftarrow> timer_fires d (ks m);
     Some (case r of
         None \<Rightarrow> \<lparr>ks = k\<lparr>ints := INTR_ON\<rparr>, frs = frs m\<rparr>
       | Some lvl \<Rightarrow> \<lparr>ks = k, frs = push_frame t (F_yield lvl) (push_frame t F_iret (frs m))\<rparr>) })"

text \<open>The semaphores and the locks that an operation may be called with.\<close>

fun op_ok :: "addr set \<Rightarrow> addr set \<Rightarrow> kop \<Rightarrow> bool" where
  "op_ok S L (Sema_down s) = (s \<in> S)"
| "op_ok S L (Sema_try_down s) = (s \<in> S)"
| "op_ok S L (Sema_up s) = (s \<in> S)"
| "op_ok S L (Lock_acquire l) = (l \<in> L)"
| "op_ok S L (Lock_try_acquire l) = (l \<in> L)"
| "op_ok S L (Lock_release l) = (l \<in> L)"
| "op_ok S L Thread_yield = True"
| "op_ok S L Thread_exit = True"

inductive kstep :: "idt_state \<Rightarrow> addr set \<Rightarrow> addr set \<Rightarrow> mach \<Rightarrow> mach \<Rightarrow> bool" for d S L where
  step_call: "frs m (cur (ks m)) = [] \<Longrightarrow> cur (ks m) \<noteq> idle_thread (ks m) \<Longrightarrow> op_ok S L x \<Longrightarrow> exec_op x m = Some m' \<Longrightarrow> kstep d S L m m'"
| step_resume: "resume m = Some m' \<Longrightarrow> kstep d S L m m'"
| step_idle: "frs m (cur (ks m)) = [] \<Longrightarrow> cur (ks m) = idle_thread (ks m) \<Longrightarrow> idle_loop m = Some m' \<Longrightarrow> kstep d S L m m'"
| step_tick: "ints (ks m) = INTR_ON \<Longrightarrow> tick d m = Some m' \<Longrightarrow> kstep d S L m m'"

inductive_cases kstep_cases: "kstep d S L m m'"

abbreviation reachable :: "idt_state \<Rightarrow> addr set \<Rightarrow> addr set \<Rightarrow> mach \<Rightarrow> mach \<Rightarrow> bool" where
  "reachable d S L \<equiv> (kstep d S L)\<^sup>*\<^sup>*"

section \<open>The invariant of the queues\<close>

definition sems :: "addr set \<Rightarrow> addr set \<Rightarrow> addr set" where
  "sems S L = S \<union> lock_sema ` L"

definition top_down :: "addr \<Rightarrow> frame list \<Rightarrow> bool" where
  "top_down s fs \<longleftrightarrow> (\<exists>lvl r. fs = F_sema_down s lvl # r)"

text \<open>The frames of a thread that can be interrupted, that has been switched away from, or that is in an interrupt.\<close>

fun base_ok :: "addr set \<Rightarrow> frame list \<Rightarrow> bool" where
  "base_ok L [] = True"
| "base_ok L [F_lock_acquire l] = (l \<in> L)"
| "base_ok L [F_lock_release l] = (l \<in> L)"
| "base_ok L _ = False"

fun switched :: "addr set \<Rightarrow> addr set \<Rightarrow> frame list \<Rightarrow> bool" where
  "switched S L (F_sema_down s lvl # r) = (s \<in> S \<and> r = [] \<or> (\<exists>l \<in> L. s = lock_sema l \<and> r = [F_lock_acquire l]))"
| "switched S L (F_yield lvl # r) = (r = [] \<or> lvl = INTR_OFF \<and> (\<exists>b. r = F_iret # b \<and> base_ok L b))"
| "switched S L (F_kernel_thread # r) = (r = [])"
| "switched S L (F_idle # r) = (r = [])"
| "switched S L _ = False"

definition paused :: "addr set \<Rightarrow> frame list \<Rightarrow> bool" where
  "paused L fs \<longleftrightarrow> (\<exists>b. fs = F_iret # b \<and> base_ok L b)"

definition sync_frame :: "frame \<Rightarrow> bool" where
  "sync_frame f \<longleftrightarrow> (case f of F_sema_down _ _ \<Rightarrow> True | F_lock_acquire _ \<Rightarrow> True | F_lock_release _ \<Rightarrow> True | _ \<Rightarrow> False)"

text \<open>
  With no thread running, or between the steps: the ready list holds the ready threads, each semaphore the
  threads blocked on it, and the frames of every thread fit its status.
\<close>

definition queues_ok where
  "queues_ok S L idle R W st f \<longleftrightarrow>
     set R = {t. st t = Some THREAD_READY \<and> t \<noteq> idle}
     \<and> (\<forall>s \<in> sems S L. set (W s) = {t. st t = Some THREAD_BLOCKED \<and> top_down s (f t)})
     \<and> (\<forall>t. st t = Some THREAD_READY \<longrightarrow> switched S L (f t))
     \<and> (\<forall>t. st t = Some THREAD_BLOCKED \<longrightarrow> switched S L (f t) \<and> (t \<noteq> idle \<longrightarrow> (\<exists>s \<in> sems S L. top_down s (f t))))
     \<and> (\<forall>t. st t = None \<or> st t = Some THREAD_DYING \<longrightarrow> f t = [])
     \<and> (\<forall>x \<in> set (f idle). \<not> sync_frame x) \<and> st idle \<noteq> None \<and> st idle \<noteq> Some THREAD_DYING"

definition sched_inv where
  "sched_inv S L idle R W st c lev f \<longleftrightarrow>
     queues_ok S L idle R W st f \<and> (\<forall>t. st t = Some THREAD_RUNNING \<longleftrightarrow> t = c)
     \<and> (base_ok L (f c) \<or> lev = INTR_OFF \<and> (switched S L (f c) \<or> paused L (f c)))"

lemma top_down_sync: "top_down s fs \<Longrightarrow> \<exists>x \<in> set fs. sync_frame x"
  by (auto simp: top_down_def sync_frame_def)

text \<open>The switch to the next thread, when no thread runs.\<close>

lemma switch_inv:
  assumes q: "queues_ok S L idle R W st f" and none: "\<And>t. st t \<noteq> Some THREAD_RUNNING" and d: "distinct R"
    and n: "n = (if R = [] then idle else hd R)"
  shows "sched_inv S L idle (tl R) W (st(n \<mapsto> THREAD_RUNNING)) n INTR_OFF f"
proof -
  have i: "st idle = Some THREAD_READY \<or> st idle = Some THREAD_BLOCKED"
  proof (cases "st idle")
    case None
    then show ?thesis using q by (simp add: queues_ok_def)
  next
    case (Some a)
    then show ?thesis using q none [of idle] by (cases a) (auto simp: queues_ok_def)
  qed
  have st: "st n = Some THREAD_READY \<or> n = idle \<and> st n = Some THREAD_BLOCKED"
    using i n q by (cases R) (auto simp: queues_ok_def)
  then have sw: "switched S L (f n)" using q by (auto simp: queues_ok_def)
  have R: "set (tl R) = set R - {n}" if "n \<noteq> idle" using that n d by (cases R) auto
  have R': "tl R = R" if "n = idle" using that n q by (cases R) (auto simp: queues_ok_def)
  have nb: "\<not> (st n = Some THREAD_BLOCKED \<and> top_down s (f n))" for s
    using st q top_down_sync [of s "f n"] by (auto simp: queues_ok_def)
  have "queues_ok S L idle (tl R) W (st(n \<mapsto> THREAD_RUNNING)) f"
    unfolding queues_ok_def
  proof (intro conjI)
    show "set (tl R) = {t. (st(n \<mapsto> THREAD_RUNNING)) t = Some THREAD_READY \<and> t \<noteq> idle}"
      using q R R' by (cases "n = idle") (auto simp: queues_ok_def)
    show "\<forall>s \<in> sems S L. set (W s) = {t. (st(n \<mapsto> THREAD_RUNNING)) t = Some THREAD_BLOCKED \<and> top_down s (f t)}"
      using q nb by (auto simp: queues_ok_def)
  qed (use q in \<open>auto simp: queues_ok_def\<close>)
  then show ?thesis using none sw by (auto simp: sched_inv_def)
qed

text \<open>What the running thread may become before the switch: blocked, ready or dead.\<close>

lemma queues_block:
  assumes i: "sched_inv S L idle R W st c lev f" and g: "switched S L g" "s \<in> sems S L" "top_down s g" and c: "c \<noteq> idle"
  shows "queues_ok S L idle R (W(s := W s @ [c])) (st(c \<mapsto> THREAD_BLOCKED)) (f(c := g))"
    and "(st(c \<mapsto> THREAD_BLOCKED)) t \<noteq> Some THREAD_RUNNING"
proof -
  have q: "queues_ok S L idle R W st f" and run: "\<And>t. st t = Some THREAD_RUNNING \<longleftrightarrow> t = c" using i by (simp_all add: sched_inv_def)
  have sc: "st c = Some THREAD_RUNNING" using run by simp
  have u: "top_down s' g \<longleftrightarrow> s' = s" for s' using g(3) by (auto simp: top_down_def)
  show "queues_ok S L idle R (W(s := W s @ [c])) (st(c \<mapsto> THREAD_BLOCKED)) (f(c := g))"
    using q sc g c u unfolding queues_ok_def by (auto split: if_splits)
  show "(st(c \<mapsto> THREAD_BLOCKED)) t \<noteq> Some THREAD_RUNNING" using run by simp
qed

lemma queues_idle:
  assumes i: "sched_inv S L idle R W st c lev f" and c: "c = idle"
  shows "queues_ok S L idle R W (st(c \<mapsto> THREAD_BLOCKED)) (f(c := [F_idle]))"
    and "(st(c \<mapsto> THREAD_BLOCKED)) t \<noteq> Some THREAD_RUNNING"
proof -
  have q: "queues_ok S L idle R W st f" and run: "\<And>t. st t = Some THREAD_RUNNING \<longleftrightarrow> t = c" using i by (simp_all add: sched_inv_def)
  have sc: "st c = Some THREAD_RUNNING" using run by simp
  have u: "\<not> top_down s' [F_idle]" for s' by (auto simp: top_down_def)
  show "queues_ok S L idle R W (st(c \<mapsto> THREAD_BLOCKED)) (f(c := [F_idle]))"
    using q sc c u unfolding queues_ok_def by (auto split: if_splits simp: sync_frame_def)
  show "(st(c \<mapsto> THREAD_BLOCKED)) t \<noteq> Some THREAD_RUNNING" using run by simp
qed

lemma queues_ready:
  assumes i: "sched_inv S L idle R W st c lev f" and g: "switched S L g" "c = idle \<longrightarrow> (\<forall>x \<in> set g. \<not> sync_frame x)"
  shows "queues_ok S L idle (if c \<noteq> idle then R @ [c] else R) W (st(c \<mapsto> THREAD_READY)) (f(c := g))"
    and "(st(c \<mapsto> THREAD_READY)) t \<noteq> Some THREAD_RUNNING"
proof -
  have q: "queues_ok S L idle R W st f" and run: "\<And>t. st t = Some THREAD_RUNNING \<longleftrightarrow> t = c" using i by (simp_all add: sched_inv_def)
  have sc: "st c = Some THREAD_RUNNING" using run by simp
  show "queues_ok S L idle (if c \<noteq> idle then R @ [c] else R) W (st(c \<mapsto> THREAD_READY)) (f(c := g))"
    using q sc g unfolding queues_ok_def by (auto split: if_splits)
  show "(st(c \<mapsto> THREAD_READY)) t \<noteq> Some THREAD_RUNNING" using run by simp
qed

lemma queues_exit:
  assumes i: "sched_inv S L idle R W st c lev f" and c: "c \<noteq> idle" "f c = []" and x: "x = None \<or> x = Some THREAD_DYING"
  shows "queues_ok S L idle R W (st(c := x)) f" and "(st(c := x)) t \<noteq> Some THREAD_RUNNING"
proof -
  have q: "queues_ok S L idle R W st f" and run: "\<And>t. st t = Some THREAD_RUNNING \<longleftrightarrow> t = c" using i by (simp_all add: sched_inv_def)
  have sc: "st c = Some THREAD_RUNNING" using run by simp
  show "queues_ok S L idle R W (st(c := x)) f"
    using q sc c x unfolding queues_ok_def by (auto split: if_splits)
  show "(st(c := x)) t \<noteq> Some THREAD_RUNNING" using run x by auto
qed

text \<open>The running thread changes its own frames, and wakes another.\<close>

lemma own_inv:
  assumes i: "sched_inv S L idle R W st c lev f" and g: "base_ok L g \<or> lev' = INTR_OFF \<and> (switched S L g \<or> paused L g)"
    "c = idle \<longrightarrow> (\<forall>x \<in> set g. \<not> sync_frame x)"
  shows "sched_inv S L idle R W st c lev' (f(c := g))"
proof -
  have q: "queues_ok S L idle R W st f" and run: "\<And>t. st t = Some THREAD_RUNNING \<longleftrightarrow> t = c" using i by (simp_all add: sched_inv_def)
  have sc: "st c = Some THREAD_RUNNING" using run by simp
  have "queues_ok S L idle R W st (f(c := g))" using q sc g(2) unfolding queues_ok_def by (auto split: if_splits)
  then show ?thesis using run g(1) by (simp add: sched_inv_def)
qed

lemma wake_queues:
  assumes i: "sched_inv S L idle R W st c lev f" and s: "s \<in> sems S L" "W s = t # W'" and d: "distinct (W s)"
  shows "sched_inv S L idle (R @ [t]) (W(s := W')) (st(t \<mapsto> THREAD_READY)) c lev f"
proof -
  have q: "queues_ok S L idle R W st f" and run: "\<And>t. st t = Some THREAD_RUNNING \<longleftrightarrow> t = c" using i by (simp_all add: sched_inv_def)
  have "t \<in> set (W s)" using s(2) by simp
  then have t: "st t = Some THREAD_BLOCKED" "top_down s (f t)" using q s(1) unfolding queues_ok_def by blast+
  then have ti: "t \<noteq> idle" using q top_down_sync [of s "f t"] by (auto simp: queues_ok_def)
  have tc: "t \<noteq> c" using t(1) run [of c] by auto
  have u: "top_down s' (f t) \<longleftrightarrow> s' = s" for s' using t(2) by (auto simp: top_down_def)
  have W: "set W' = set (W s) - {t}" using s(2) d by auto
  have "queues_ok S L idle (R @ [t]) (W(s := W')) (st(t \<mapsto> THREAD_READY)) f"
    unfolding queues_ok_def
  proof (intro conjI)
    show "\<forall>s' \<in> sems S L. set ((W(s := W')) s') = {t'. (st(t \<mapsto> THREAD_READY)) t' = Some THREAD_BLOCKED \<and> top_down s' (f t')}"
      using q t u W by (auto simp: queues_ok_def)
  qed (use q t ti in \<open>auto simp: queues_ok_def\<close>)
  then show ?thesis using i run tc t(1) by (auto simp: sched_inv_def)
qed

section \<open>The invariant of the locks\<close>

text \<open>A thread that has the semaphore of a lock, but is not, or not any more, entered as its holder.\<close>

definition pend :: "addr \<Rightarrow> frame list \<Rightarrow> bool" where
  "pend l fs \<longleftrightarrow> F_lock_release l \<in> set fs \<or> F_lock_acquire l \<in> set fs \<and> (\<forall>lvl. F_sema_down (lock_sema l) lvl \<notin> set fs)"

definition lock_ok :: "u32 \<Rightarrow> addr \<Rightarrow> (addr \<Rightarrow> bool) \<Rightarrow> bool" where
  "lock_ok v h p \<longleftrightarrow> v = 1 \<and> h = NULL \<and> (\<forall>u. \<not> p u) \<or> v = 0 \<and> h \<noteq> NULL \<and> (\<forall>u. \<not> p u) \<or> v = 0 \<and> h = NULL \<and> (\<exists>t. \<forall>u. p u \<longleftrightarrow> u = t)"

definition lock_inv where
  "lock_inv L val hold f \<longleftrightarrow> (\<forall>l \<in> L. lock_ok (val (lock_sema l)) (hold l) (\<lambda>t. pend l (f t)))"

lemma lock_sema_inj: "lock_sema l = lock_sema l' \<longleftrightarrow> l = l'"
  by (simp add: lock_sema_def)

lemma pend_simps [simp]:
  "\<not> pend l []"
  "pend l (F_yield lvl # fs) = pend l fs" "pend l (F_iret # fs) = pend l fs" "pend l (F_idle # fs) = pend l fs" "pend l (F_kernel_thread # fs) = pend l fs"
  "pend l [F_lock_acquire l'] \<longleftrightarrow> l = l'" "pend l [F_lock_release l'] \<longleftrightarrow> l = l'"
  "\<not> pend l [F_sema_down (lock_sema l') lvl, F_lock_acquire l']" "\<not> pend l [F_sema_down s lvl]"
  by (auto simp: pend_def lock_sema_inj)

text \<open>Frames that change nothing for the locks, and operations on other semaphores.\<close>

lemma lock_frames:
  assumes "lock_inv L val hold f" and "\<And>l. l \<in> L \<Longrightarrow> pend l g = pend l (f c)"
  shows "lock_inv L val hold (f(c := g))"
proof -
  have "(\<lambda>t. pend l ((f(c := g)) t)) = (\<lambda>t. pend l (f t))" if "l \<in> L" for l using assms(2) [OF that] by (auto simp: fun_eq_iff)
  then show ?thesis using assms(1) by (simp add: lock_inv_def)
qed

lemma lock_other_sema: "lock_inv L val hold f \<Longrightarrow> s \<notin> lock_sema ` L \<Longrightarrow> lock_inv L (val(s := v)) hold f"
  by (auto simp: lock_inv_def)

text \<open>Only one lock is affected by an operation on it.\<close>

lemma lock_update:
  assumes i: "lock_inv L val hold f" and l: "lock_ok (val' (lock_sema l)) (hold' l) (\<lambda>t. pend l (f' t))"
    and o: "\<And>l'. l' \<in> L \<Longrightarrow> l' \<noteq> l \<Longrightarrow> val' (lock_sema l') = val (lock_sema l') \<and> hold' l' = hold l' \<and> (\<forall>t. pend l' (f' t) = pend l' (f t))"
  shows "lock_inv L val' hold' f'"
  unfolding lock_inv_def
proof
  fix l'
  assume l': "l' \<in> L"
  show "lock_ok (val' (lock_sema l')) (hold' l') (\<lambda>t. pend l' (f' t))"
  proof (cases "l' = l")
    case False
    with i l' o [OF l' False] show ?thesis by (simp add: lock_inv_def)
  qed (use l in simp)
qed

lemma lock_take:
  assumes i: "lock_inv L val hold f" and l: "l \<in> L" and v: "val (lock_sema l) \<noteq> 0" and fc: "\<And>l'. \<not> pend l' (f c)"
  shows "lock_inv L (val(lock_sema l := val (lock_sema l) - 1)) hold (f(c := [F_lock_acquire l]))"
proof -
  have "val (lock_sema l) = 1 \<and> hold l = NULL \<and> (\<forall>u. \<not> pend l (f u))" using i l v by (auto simp: lock_inv_def lock_ok_def)
  then show ?thesis by (intro lock_update [OF i, of _ l]) (use fc in \<open>auto simp: lock_ok_def lock_sema_inj\<close>)
qed

lemma lock_try_take:
  assumes i: "lock_inv L val hold f" and l: "l \<in> L" and v: "val (lock_sema l) \<noteq> 0" and c: "c \<noteq> NULL"
  shows "lock_inv L (val(lock_sema l := val (lock_sema l) - 1)) (hold(l := c)) f"
proof -
  have "val (lock_sema l) = 1 \<and> hold l = NULL \<and> (\<forall>u. \<not> pend l (f u))" using i l v by (auto simp: lock_inv_def lock_ok_def)
  then show ?thesis by (intro lock_update [OF i, of _ l]) (use c in \<open>auto simp: lock_ok_def lock_sema_inj\<close>)
qed

lemma lock_enter:
  assumes i: "lock_inv L val hold f" and l: "l \<in> L" and fc: "f c = [F_lock_acquire l]" and c: "c \<noteq> NULL"
  shows "lock_inv L val (hold(l := c)) (f(c := []))"
proof -
  have "pend l (f c)" using fc by simp
  then have "val (lock_sema l) = 0 \<and> hold l = NULL \<and> (\<forall>u. pend l (f u) \<longleftrightarrow> u = c)" using i l by (auto simp: lock_inv_def lock_ok_def)
  then show ?thesis by (intro lock_update [OF i, of _ l]) (use c fc in \<open>auto simp: lock_ok_def\<close>)
qed

lemma lock_drop:
  assumes i: "lock_inv L val hold f" and l: "l \<in> L" and fc: "f c = []" and h: "hold l = c" and c: "c \<noteq> NULL"
  shows "lock_inv L val (hold(l := NULL)) (f(c := [F_lock_release l]))"
proof -
  have "val (lock_sema l) = 0 \<and> (\<forall>u. \<not> pend l (f u))" using i l h c by (auto simp: lock_inv_def lock_ok_def)
  then show ?thesis by (intro lock_update [OF i, of _ l]) (use fc in \<open>auto simp: lock_ok_def\<close>)
qed

lemma lock_up:
  assumes i: "lock_inv L val hold f" and l: "l \<in> L" and fc: "f c = [F_lock_release l]"
  shows "lock_inv L (val(lock_sema l := val (lock_sema l) + 1)) hold (f(c := []))"
proof -
  have "pend l (f c)" using fc by simp
  then have "val (lock_sema l) = 0 \<and> hold l = NULL \<and> (\<forall>u. pend l (f u) \<longleftrightarrow> u = c)" using i l by (auto simp: lock_inv_def lock_ok_def)
  then show ?thesis by (intro lock_update [OF i, of _ l]) (use fc in \<open>auto simp: lock_ok_def lock_sema_inj\<close>)
qed

section \<open>No wakeup is lost\<close>

text \<open>The threads that have been woken from \<^verbatim>\<open>sema_down\<close> and are about to test the semaphore again.\<close>

definition woken where
  "woken s st f = {t. (st t = Some THREAD_READY \<or> st t = Some THREAD_RUNNING) \<and> top_down s (f t)}"

definition wake_inv where
  "wake_inv sm W val st f \<longleftrightarrow> (\<forall>s \<in> sm. W s = [] \<or> unat (val s :: u32) \<le> card (woken s st f))"

lemma wake_keep:
  assumes "wake_inv sm W val st f"
    and "\<And>s. s \<in> sm \<Longrightarrow> W' s = [] \<or> val' s = 0 \<or> W s \<noteq> [] \<and> unat (val' s) + card (woken s st f) \<le> unat (val s) + card (woken s st' f')"
  shows "wake_inv sm W' val' st' f'"
  unfolding wake_inv_def
proof
  fix s
  assume s: "s \<in> sm"
  have "W s = [] \<or> unat (val s) \<le> card (woken s st f)" using assms(1) s by (simp add: wake_inv_def)
  with assms(2) [OF s] show "W' s = [] \<or> unat (val' s) \<le> card (woken s st' f')" by auto
qed

lemma wake_same:
  assumes "wake_inv sm W val st f" and "\<And>s. s \<in> sm \<Longrightarrow> woken s st' f' = woken s st f"
  shows "wake_inv sm W val st' f'"
  by (rule wake_keep [OF assms(1)]) (use assms(2) in auto)

lemma finite_woken: "finite {t. st t \<noteq> None} \<Longrightarrow> finite (woken s st f)"
  by (rule finite_subset [of _ "{t. st t \<noteq> None}"]) (auto simp: woken_def)

section \<open>All invariants together\<close>

definition ainv where
  "ainv S L idle R W st c lev f val hold \<longleftrightarrow>
     sched_inv S L idle R W st c lev f \<and> lock_inv L val hold f \<and> wake_inv (sems S L) W val st f"

lemma base_not_down: "base_ok L fs \<Longrightarrow> \<not> top_down s fs"
  by (cases "(L, fs)" rule: base_ok.cases) (auto simp: top_down_def)

text \<open>Which thread the switch takes, seen from the semaphores.\<close>

lemma next_cases:
  assumes "queues_ok S L idle R W st f" and "\<And>t. st t \<noteq> Some THREAD_RUNNING" and "n = (if R = [] then idle else hd R)"
  shows "st n = Some THREAD_READY \<or> (\<forall>s. \<not> top_down s (f n))"
proof (cases R)
  case Nil
  then show ?thesis using assms(1,3) top_down_sync [of _ "f idle"] by (auto simp: queues_ok_def)
next
  case (Cons a xs)
  then have "n \<in> set R" using assms(3) by simp
  then show ?thesis using assms(1) by (simp add: queues_ok_def)
qed

lemma woken_switch:
  assumes "st n = Some THREAD_READY \<or> (\<forall>s. \<not> top_down s (f n))"
  shows "woken s (st(n \<mapsto> THREAD_RUNNING)) f = woken s st f"
  using assms by (auto simp: woken_def)

lemma a_switch:
  assumes q: "queues_ok S L idle R W st f" and none: "\<And>t. st t \<noteq> Some THREAD_RUNNING" and d: "distinct R"
    and n: "n = (if R = [] then idle else hd R)" and l: "lock_inv L val hold f" and w: "wake_inv (sems S L) W val st f"
  shows "ainv S L idle (tl R) W (st(n \<mapsto> THREAD_RUNNING)) n INTR_OFF f val hold"
  unfolding ainv_def
proof (intro conjI)
  show "sched_inv S L idle (tl R) W (st(n \<mapsto> THREAD_RUNNING)) n INTR_OFF f" by (rule switch_inv [OF q none d n])
  show "wake_inv (sems S L) W val (st(n \<mapsto> THREAD_RUNNING)) f"
    by (rule wake_same [OF w]) (rule woken_switch, rule next_cases [OF q none n])
qed (rule l)

lemma a_run: "ainv S L idle R W st c lev f val hold \<Longrightarrow> st t = Some THREAD_RUNNING \<longleftrightarrow> t = c"
  by (simp add: ainv_def sched_inv_def)

lemma a_sleep:
  assumes a: "ainv S L idle R W st c lev f val hold" and d: "distinct R" and s: "s \<in> sems S L" "val s = 0" and c: "c \<noteq> idle"
    and g: "switched S L g" "top_down s g" "\<And>l. pend l g = pend l (f c)" "\<And>s'. s' \<noteq> s \<Longrightarrow> \<not> top_down s' (f c)"
    and n: "n = (if R = [] then idle else hd R)"
  shows "ainv S L idle (tl R) (W(s := W s @ [c])) (st(c \<mapsto> THREAD_BLOCKED, n \<mapsto> THREAD_RUNNING)) n INTR_OFF (f(c := g)) val hold"
proof (rule a_switch [OF _ _ d n])
  have i: "sched_inv S L idle R W st c lev f" "lock_inv L val hold f" "wake_inv (sems S L) W val st f" using a by (simp_all add: ainv_def)
  show "queues_ok S L idle R (W(s := W s @ [c])) (st(c \<mapsto> THREAD_BLOCKED)) (f(c := g))" "(st(c \<mapsto> THREAD_BLOCKED)) t \<noteq> Some THREAD_RUNNING" for t
    by (rule queues_block [OF i(1) g(1) s(1) g(2) c])+
  show "lock_inv L val hold (f(c := g))" by (rule lock_frames [OF i(2) g(3)])
  have u: "top_down s' g \<longleftrightarrow> s' = s" for s' using g(2) by (auto simp: top_down_def)
  have "woken s' (st(c \<mapsto> THREAD_BLOCKED)) (f(c := g)) = woken s' st f" if "s' \<noteq> s" for s'
    using u g(4) [OF that] by (auto simp: woken_def)
  then show "wake_inv (sems S L) (W(s := W s @ [c])) val (st(c \<mapsto> THREAD_BLOCKED)) (f(c := g))"
    by (intro wake_keep [OF i(3)]) (use s(2) in auto)
qed

lemma a_ready:
  assumes a: "ainv S L idle R W st c lev f val hold" and d: "distinct Q" and Q: "Q = (if c \<noteq> idle then R @ [c] else R)"
    and g: "switched S L g" "c = idle \<longrightarrow> (\<forall>x \<in> set g. \<not> sync_frame x)" "\<And>l. pend l g = pend l (f c)" "\<And>s. \<not> top_down s g" "\<And>s. \<not> top_down s (f c)"
    and n: "n = (if Q = [] then idle else hd Q)"
  shows "ainv S L idle (tl Q) W (st(c \<mapsto> THREAD_READY, n \<mapsto> THREAD_RUNNING)) n INTR_OFF (f(c := g)) val hold"
proof (rule a_switch [OF _ _ d n])
  have i: "sched_inv S L idle R W st c lev f" "lock_inv L val hold f" "wake_inv (sems S L) W val st f" using a by (simp_all add: ainv_def)
  show "queues_ok S L idle Q W (st(c \<mapsto> THREAD_READY)) (f(c := g))" "(st(c \<mapsto> THREAD_READY)) t \<noteq> Some THREAD_RUNNING" for t
    unfolding Q by (rule queues_ready [OF i(1) g(1,2)])+
  show "lock_inv L val hold (f(c := g))" by (rule lock_frames [OF i(2) g(3)])
  have "woken s (st(c \<mapsto> THREAD_READY)) (f(c := g)) = woken s st f" for s using g(4,5) by (auto simp: woken_def)
  then show "wake_inv (sems S L) W val (st(c \<mapsto> THREAD_READY)) (f(c := g))" by (rule wake_same [OF i(3)])
qed

lemma a_exit:
  assumes a: "ainv S L idle R W st c lev f val hold" and d: "distinct R" and c: "c \<noteq> idle" "f c = []" and x: "x = None \<or> x = Some THREAD_DYING"
    and n: "n = (if R = [] then idle else hd R)"
  shows "ainv S L idle (tl R) W (st(c := x, n \<mapsto> THREAD_RUNNING)) n INTR_OFF f val hold"
proof (rule a_switch [OF _ _ d n])
  have i: "sched_inv S L idle R W st c lev f" "lock_inv L val hold f" "wake_inv (sems S L) W val st f" using a by (simp_all add: ainv_def)
  show "queues_ok S L idle R W (st(c := x)) f" "(st(c := x)) t \<noteq> Some THREAD_RUNNING" for t by (rule queues_exit [OF i(1) c x])+
  show "lock_inv L val hold f" by (rule i(2))
  have "woken s (st(c := x)) f = woken s st f" for s using c x by (auto simp: woken_def top_down_def)
  then show "wake_inv (sems S L) W val (st(c := x)) f" by (rule wake_same [OF i(3)])
qed

lemma a_idle:
  assumes a: "ainv S L idle R W st c lev f val hold" and d: "distinct R" and c: "c = idle" "f c = []"
    and n: "n = (if R = [] then idle else hd R)"
  shows "ainv S L idle (tl R) W (st(c \<mapsto> THREAD_BLOCKED, n \<mapsto> THREAD_RUNNING)) n INTR_OFF (f(c := [F_idle])) val hold"
proof (rule a_switch [OF _ _ d n])
  have i: "sched_inv S L idle R W st c lev f" "lock_inv L val hold f" "wake_inv (sems S L) W val st f" using a by (simp_all add: ainv_def)
  show "queues_ok S L idle R W (st(c \<mapsto> THREAD_BLOCKED)) (f(c := [F_idle]))" "(st(c \<mapsto> THREAD_BLOCKED)) t \<noteq> Some THREAD_RUNNING" for t
    by (rule queues_idle [OF i(1) c(1)])+
  show "lock_inv L val hold (f(c := [F_idle]))" by (rule lock_frames [OF i(2)]) (simp add: c(2))
  have "woken s (st(c \<mapsto> THREAD_BLOCKED)) (f(c := [F_idle])) = woken s st f" for s using c by (auto simp: woken_def top_down_def)
  then show "wake_inv (sems S L) W val (st(c \<mapsto> THREAD_BLOCKED)) (f(c := [F_idle]))" by (rule wake_same [OF i(3)])
qed

text \<open>Steps without a switch: the running thread changes its frames, takes or raises a semaphore.\<close>

lemma a_own:
  assumes a: "ainv S L idle R W st c lev f val hold"
    and g: "base_ok L g \<or> lev' = INTR_OFF \<and> paused L g" "c = idle \<longrightarrow> (\<forall>x \<in> set g. \<not> sync_frame x)" "\<And>s. \<not> top_down s (f c)"
    and l: "lock_inv L val hold' (f(c := g))"
  shows "ainv S L idle R W st c lev' (f(c := g)) val hold'"
proof -
  have i: "sched_inv S L idle R W st c lev f" "wake_inv (sems S L) W val st f" using a by (simp_all add: ainv_def)
  have "\<not> top_down s g" for s using g(1) base_not_down by (auto simp: paused_def top_down_def)
  then have "woken s st (f(c := g)) = woken s st f" for s using g(3) by (auto simp: woken_def)
  then have "wake_inv (sems S L) W val st (f(c := g))" by (rule wake_same [OF i(2)])
  then show ?thesis using own_inv [OF i(1) _ g(2), of lev'] g(1) l by (auto simp: ainv_def)
qed

lemma a_take:
  assumes a: "ainv S L idle R W st c lev f val hold" and fin: "finite {t. st t \<noteq> None}" and s: "s \<in> sems S L" "val s \<noteq> 0"
    and g: "base_ok L g" "c = idle \<longrightarrow> (\<forall>x \<in> set g. \<not> sync_frame x)" "\<And>s'. s' \<noteq> s \<Longrightarrow> \<not> top_down s' (f c)"
    and l: "lock_inv L (val(s := val s - 1)) hold' (f(c := g))"
  shows "ainv S L idle R W st c lev' (f(c := g)) (val(s := val s - 1)) hold'"
proof -
  have i: "sched_inv S L idle R W st c lev f" "wake_inv (sems S L) W val st f" using a by (simp_all add: ainv_def)
  have run: "st c = Some THREAD_RUNNING" using a_run [OF a, of c] by simp
  have ng: "\<not> top_down s' g" for s' using base_not_down [OF g(1)] .
  have o: "woken s' st (f(c := g)) = woken s' st f" if "s' \<noteq> s" for s' using ng g(3) [OF that] by (auto simp: woken_def)
  have w: "woken s st (f(c := g)) = woken s st f - {c}" using ng run by (auto simp: woken_def)
  have "0 < unat (val s)" using s(2) by (simp add: unat_gt_0)
  moreover have "1 \<le> val s" using s(2) by (simp add: word_le_nat_alt unat_gt_0 Suc_leI)
  ultimately have v: "unat (val s - 1) + 1 = unat (val s)" by (simp add: unat_sub)
  have "card (woken s st f) \<le> card (woken s st (f(c := g))) + 1"
    unfolding w by (simp add: card_Diff_singleton_if) arith
  then have "wake_inv (sems S L) W (val(s := val s - 1)) st (f(c := g))"
    by (intro wake_keep [OF i(2)]) (use o v in auto)
  then show ?thesis using own_inv [OF i(1) _ g(2), of lev'] g(1) l by (auto simp: ainv_def)
qed

lemma a_up:
  assumes a: "ainv S L idle R W st c lev f val hold" and fin: "finite {t. st t \<noteq> None}" and d: "distinct (W s)" and s: "s \<in> sems S L"
    and g: "base_ok L g" "c = idle \<longrightarrow> (\<forall>x \<in> set g. \<not> sync_frame x)" "\<And>s'. \<not> top_down s' (f c)"
    and l: "lock_inv L (val(s := val s + 1)) hold (f(c := g))"
  shows "ainv S L idle (case W s of [] \<Rightarrow> R | t # W' \<Rightarrow> R @ [t]) (case W s of [] \<Rightarrow> W | t # W' \<Rightarrow> W(s := W'))
    (case W s of [] \<Rightarrow> st | t # W' \<Rightarrow> st(t \<mapsto> THREAD_READY)) c lev (f(c := g)) (val(s := val s + 1)) hold"
proof -
  have i: "sched_inv S L idle R W st c lev f" "wake_inv (sems S L) W val st f" using a by (simp_all add: ainv_def)
  have ng: "\<not> top_down s' g" for s' using base_not_down [OF g(1)] .
  have o: "woken s' st (f(c := g)) = woken s' st f" for s' using ng g(3) by (auto simp: woken_def)
  have i': "sched_inv S L idle R W st c lev (f(c := g))" using own_inv [OF i(1) _ g(2)] g(1) by simp
  show ?thesis
  proof (cases "W s")
    case Nil
    have "wake_inv (sems S L) W (val(s := val s + 1)) st (f(c := g))" by (rule wake_keep [OF i(2)]) (use o Nil in auto)
    then show ?thesis using Nil i' l by (simp add: ainv_def)
  next
    case (Cons t W')
    have q: "queues_ok S L idle R W st f" using i(1) by (simp add: sched_inv_def)
    have "t \<in> set (W s)" using Cons by simp
    then have t: "st t = Some THREAD_BLOCKED" "top_down s (f t)" using q s unfolding queues_ok_def by blast+
    have tc: "t \<noteq> c" using t(2) g(3) by auto
    have u: "top_down s' (f t) \<longleftrightarrow> s' = s" for s' using t(2) by (auto simp: top_down_def)
    have w: "woken s (st(t \<mapsto> THREAD_READY)) (f(c := g)) = insert t (woken s st f)"
      using t tc ng g(3) by (auto simp: woken_def)
    have w': "woken s' (st(t \<mapsto> THREAD_READY)) (f(c := g)) = woken s' st f" if "s' \<noteq> s" for s'
      using t(1) u that tc ng g(3) by (auto simp: woken_def)
    have "t \<notin> woken s st f" using t(1) by (simp add: woken_def)
    then have "card (insert t (woken s st f)) = card (woken s st f) + 1" using finite_woken [OF fin, of s f] by simp
    moreover have "unat (val s + 1) \<le> unat (val s) + 1" by (simp add: unat_word_ariths(1))
    ultimately have "wake_inv (sems S L) (W(s := W')) (val(s := val s + 1)) (st(t \<mapsto> THREAD_READY)) (f(c := g))"
      by (intro wake_keep [OF i(2)]) (use w w' Cons in auto)
    then show ?thesis using Cons wake_queues [OF i' s Cons d] l by (simp add: ainv_def)
  qed
qed

section \<open>The invariant of the machine\<close>

text \<open>The lists of the machine: the ready list and the waiters of every semaphore.\<close>

definition fam :: "addr set \<Rightarrow> addr set \<Rightarrow> addr \<Rightarrow> addr list \<Rightarrow> (addr \<Rightarrow> addr list) \<Rightarrow> addr \<Rightarrow> addr list option" where
  "fam S L rl R W = (\<lambda>l. if l = rl then Some R else if l \<in> waiters ` sems S L then Some (W (l - 4)) else None)"

text \<open>Where these objects are: apart from each other, and outside the pages of the threads.\<close>

definition places :: "addr set \<Rightarrow> addr set \<Rightarrow> kern \<Rightarrow> addr set" where
  "places S L k = {ready_list k, ready_list k + 8} \<union> (\<Union>s \<in> sems S L. {s, waiters s, waiters s + 8}) \<union> L"

definition placed :: "addr set \<Rightarrow> addr set \<Rightarrow> kern \<Rightarrow> bool" where
  "placed S L k \<longleftrightarrow> ready_list k \<notin> waiters ` sems S L \<and> NULL \<notin> S \<and> NULL \<notin> L \<and> S \<inter> lock_sema ` L = {}
     \<and> (\<forall>t. thrs k t \<noteq> None \<longrightarrow> (\<forall>a \<in> places S L k. \<not> in_page t a)) \<and> finite {t. stat k t \<noteq> None}"

definition minv_with :: "addr set \<Rightarrow> addr set \<Rightarrow> addr list \<Rightarrow> (addr \<Rightarrow> addr list) \<Rightarrow> mach \<Rightarrow> bool" where
  "minv_with S L R W m \<longleftrightarrow> (let k = ks m in
     rep k (fam S L (ready_list k) R W) \<and> placed S L k
     \<and> ainv S L (idle_thread k) R W (stat k) (cur k) (ints k) (frs m) (sval k) (lock_holder k))"

definition minv :: "addr set \<Rightarrow> addr set \<Rightarrow> mach \<Rightarrow> bool" where
  "minv S L m \<longleftrightarrow> (\<exists>R W. minv_with S L R W m)"

lemma fam_ready [simp]: "fam S L rl R W rl = Some R"
  by (simp add: fam_def)

lemma fam_waiters: "rl \<notin> waiters ` sems S L \<Longrightarrow> s \<in> sems S L \<Longrightarrow> fam S L rl R W (waiters s) = Some (W s)"
  by (auto simp: fam_def waiters_def)

lemma fam_upd_ready [simp]: "(fam S L rl R W)(rl \<mapsto> R') = fam S L rl R' W"
  by (auto simp: fam_def fun_eq_iff)

lemma fam_upd_waiters:
  "rl \<notin> waiters ` sems S L \<Longrightarrow> s \<in> sems S L \<Longrightarrow> (fam S L rl R W)(waiters s \<mapsto> w) = fam S L rl R (W(s := w))"
  by (auto simp: fam_def fun_eq_iff waiters_def)

lemma fam_SomeD: "fam S L rl R W l = Some xs \<Longrightarrow> l = rl \<and> xs = R \<or> (\<exists>s \<in> sems S L. l = waiters s \<and> xs = W s)"
  by (auto simp: fam_def waiters_def split: if_splits)

text \<open>Consequences for the running thread.\<close>

lemma minv_facts:
  assumes m: "minv_with S L R W m" and k: "k = ks m"
  shows "rep k (fam S L (ready_list k) R W)" "placed S L k"
    "ainv S L (idle_thread k) R W (stat k) (cur k) (ints k) (frs m) (sval k) (lock_holder k)"
    "stat k (cur k) = Some THREAD_RUNNING" "distinct R" "\<And>s. s \<in> sems S L \<Longrightarrow> distinct (W s)"
    "\<And>t. t \<in> set R \<Longrightarrow> thrs k t \<noteq> None" "cur k \<notin> owned (fam S L (ready_list k) R W)" "cur k \<noteq> NULL"
    "\<And>s t. s \<in> sems S L \<Longrightarrow> t \<in> set (W s) \<Longrightarrow> stat k t = Some THREAD_BLOCKED"
    "\<forall>a \<in> owned (fam S L (ready_list k) R W). \<not> in_page (cur k) a"
proof -
  let ?F = "fam S L (ready_list k) R W"
  show r: "rep k ?F" and p: "placed S L k"
    and a: "ainv S L (idle_thread k) R W (stat k) (cur k) (ints k) (frs m) (sval k) (lock_holder k)"
    using m by (simp_all add: minv_with_def Let_def k)
  show run: "stat k (cur k) = Some THREAD_RUNNING" using a_run [OF a] by simp
  show "distinct R" using lists_distinct [OF rep_lists [OF r] fam_ready] by simp
  have pr: "ready_list k \<notin> waiters ` sems S L" using p by (simp add: placed_def)
  show "distinct (W s)" if "s \<in> sems S L" for s using lists_distinct [OF rep_lists [OF r] fam_waiters [OF pr that]] by simp
  have q: "queues_ok S L (idle_thread k) R W (stat k) (frs m)" using a by (simp add: ainv_def sched_inv_def)
  have R: "stat k t = Some THREAD_READY" if "t \<in> set R" for t using q that by (simp add: queues_ok_def)
  show W: "stat k t = Some THREAD_BLOCKED" if "s \<in> sems S L" "t \<in> set (W s)" for s t using q that by (auto simp: queues_ok_def)
  show "thrs k t \<noteq> None" if "t \<in> set R" for t using R [OF that] stat_SomeD by blast
  have c: "thrs k (cur k) \<noteq> None" using run by (rule stat_SomeD)
  then obtain th where th: "thrs k (cur k) = Some th" by blast
  show "cur k \<noteq> NULL" using rep_sound [OF r th] by (simp add: thread_sound_def)
  show *: "\<forall>x \<in> owned ?F. \<not> in_page (cur k) x"
  proof
    fix x
    assume "x \<in> owned ?F"
    then obtain l xs where l: "?F l = Some xs" "x \<in> cells l xs" unfolding owned_iff by blast
    show "\<not> in_page (cur k) x"
    proof (cases "x \<in> set xs")
      case True
      have "stat k x = Some THREAD_READY \<or> stat k x = Some THREAD_BLOCKED" using fam_SomeD [OF l(1)] True R W by blast
      then have "x \<noteq> cur k" "thrs k x \<noteq> None" using run stat_SomeD by auto
      then obtain xh where xh: "thrs k x = Some xh" by blast
      have "4096 dvd x" "4096 dvd cur k" using rep_sound [OF r xh] rep_sound [OF r th] by (simp_all add: thread_sound_def)
      with \<open>x \<noteq> cur k\<close> show ?thesis by (auto simp: in_page_def elim!: dvdE)
    next
      case False
      then have "x = l \<or> x = l + 8" using l(2) by (auto simp: cells_def head_elem_def tail_elem_def)
      moreover have "l \<in> places S L k" "l + 8 \<in> places S L k" using fam_SomeD [OF l(1)] by (auto simp: places_def)
      ultimately show ?thesis using p c unfolding placed_def by blast
    qed
  qed
  show "cur k \<notin> owned ?F"
  proof
    assume "cur k \<in> owned ?F"
    with * show False by (auto simp: in_page_def)
  qed
qed

lemma placed_change:
  assumes "placed S L k" and "same_kern k k'" and "\<And>t. stat k' t \<noteq> None \<Longrightarrow> stat k t \<noteq> None"
  shows "placed S L k'"
proof -
  have "places S L k' = places S L k" "ready_list k' = ready_list k" using assms(2) by (simp_all add: places_def same_kern_def)
  moreover have "finite {t. stat k' t \<noteq> None}"
    by (rule finite_subset [of _ "{t. stat k t \<noteq> None}"]) (use assms in \<open>auto simp: placed_def simp del: stat_None\<close>)
  ultimately show ?thesis using assms(1,3) unfolding placed_def thrs_stat by auto
qed

lemma minvI:
  assumes "rep k' (fam S L (ready_list k) R W)" and "same_kern k k'" and "placed S L k'"
    and "ainv S L (idle_thread k) R W (stat k') (cur k') (ints k') f (sval k') (lock_holder k')"
  shows "minv S L \<lparr>ks = k', frs = f\<rparr>"
  using assms by (auto simp: minv_def minv_with_def same_kern_def)

section \<open>Steps that switch or wake\<close>

lemma next_of_queue_eq: "next_of_queue k R = (if R = [] then idle_thread k else hd R)"
  by (simp add: next_of_queue_def)

lemma down_ok:
  assumes m: "minv_with S L R W m" and k: "k = ks m" and s: "s \<in> sems S L" and c: "cur k \<noteq> idle_thread k"
    and g: "s \<in> S \<and> g = [] \<or> (\<exists>l \<in> L. s = lock_sema l \<and> g = [F_lock_acquire l])"
    and fc: "frs m (cur k) = [] \<or> (\<exists>lvl'. frs m (cur k) = F_sema_down s lvl' # g)"
  shows "\<exists>r k'. sema_down_loop s lvl (k\<lparr>ints := INTR_OFF\<rparr>) = Some (r, k') \<and> minv S L \<lparr>ks = k', frs = push_sleep (cur k) s r ((frs m)(cur k := g))\<rparr>"
proof -
  note f = minv_facts [OF m k]
  let ?k = "k\<lparr>ints := INTR_OFF\<rparr>"
  let ?F = "fam S L (ready_list k) R W"
  have pr: "ready_list k \<notin> waiters ` sems S L" and dis: "S \<inter> lock_sema ` L = {}" and fin: "finite {t. stat k t \<noteq> None}"
    using f(2) unfolding placed_def by blast+
  have r0: "rep ?k ?F" using f(1) by simp
  have Ws: "?F (waiters s) = Some (W s)" by (rule fam_waiters [OF pr s])
  have ne: "waiters s \<noteq> ready_list k" using pr imageI [OF s, of waiters] by metis
  have td: "\<not> top_down s' (frs m (cur k))" if "s' \<noteq> s" for s' using fc that by (auto simp: top_down_def)
  have pg: "\<not> pend l (frs m (cur k))" "\<not> pend l (F_sema_down s lvl # g)" for l
    using fc g dis by (auto simp: pend_def lock_sema_inj)
  show ?thesis
  proof (cases "sval k s = 0")
    case True
    have "\<exists>k'. sema_down_loop s lvl ?k = Some (Some lvl, k') \<and> rep k' (?F(waiters s \<mapsto> W s @ [cur k], ready_list k \<mapsto> tl R)) \<and> cur k' = next_of_queue k R
      \<and> ints k' = INTR_OFF \<and> stat k' = (stat k)(cur k \<mapsto> THREAD_BLOCKED, next_of_queue k R \<mapsto> THREAD_RUNNING) \<and> same_kern k k' \<and> same_sync k k'"
      using sema_down_loop_sleeps [OF r0, of s R "W s" lvl] True Ws ne f by (auto simp: next_of_queue_def)
    then obtain k' where k': "sema_down_loop s lvl ?k = Some (Some lvl, k')" "rep k' (fam S L (ready_list k) (tl R) (W(s := W s @ [cur k])))"
      "cur k' = next_of_queue k R" "ints k' = INTR_OFF" "stat k' = (stat k)(cur k \<mapsto> THREAD_BLOCKED, next_of_queue k R \<mapsto> THREAD_RUNNING)"
      "same_kern k k'" "same_sync k k'" using fam_upd_waiters [OF pr s, of R W] by auto
    have sw: "switched S L (F_sema_down s lvl # g)" using g by auto
    have "ainv S L (idle_thread k) (tl R) (W(s := W s @ [cur k])) (stat k') (cur k') INTR_OFF ((frs m)(cur k := F_sema_down s lvl # g)) (sval k) (lock_holder k)"
      unfolding k'(3,5) by (rule a_sleep [OF f(3,5) s True c sw _ _ td next_of_queue_eq]) (use pg in \<open>auto simp: top_down_def\<close>)
    moreover have "stat k t \<noteq> None" if "stat k' t \<noteq> None" for t
    proof -
      have "stat k (next_of_queue k R) \<noteq> None" using f(1,7) unfolding thrs_stat [symmetric] by (cases R) (auto simp: next_of_queue_def rep_def)
      then show ?thesis using that k'(5) f(4) by (auto simp del: stat_None split: if_splits)
    qed
    ultimately have "minv S L \<lparr>ks = k', frs = (frs m)(cur k := F_sema_down s lvl # g)\<rparr>"
      using k' placed_change [OF f(2) k'(6)] by (intro minvI [OF k'(2,6)]) (simp_all add: same_sync_def)
    then show ?thesis using k'(1) by (simp add: push_sleep_def push_frame_def)
  next
    case False
    let ?k' = "k\<lparr>ints := lvl, sval := (sval k)(s := sval k s - 1)\<rparr>"
    have e: "sema_down_loop s lvl ?k = Some (None, ?k')" using sema_down_loop_takes [OF r0, of s lvl] False by simp
    have li: "lock_inv L (sval k) (lock_holder k) (frs m)" using f(3) by (simp add: ainv_def)
    have gb: "base_ok L g" using g by auto
    have "lock_inv L ((sval k)(s := sval k s - 1)) (lock_holder k) ((frs m)(cur k := g))"
    proof (cases "s \<in> S")
      case True
      then have "g = []" "s \<notin> lock_sema ` L" using g dis by auto
      then show ?thesis using lock_other_sema [OF lock_frames [OF li]] pg by simp
    next
      case False
      then obtain l where l: "l \<in> L" "s = lock_sema l" "g = [F_lock_acquire l]" using g by auto
      show ?thesis unfolding l(2,3) by (rule lock_take [OF li l(1)]) (use pg \<open>sval k s \<noteq> 0\<close> l in auto)
    qed
    from a_take [OF f(3) fin s False gb _ td this, of lvl] c
    have "ainv S L (idle_thread k) R W (stat k) (cur k) lvl ((frs m)(cur k := g)) ((sval k)(s := sval k s - 1)) (lock_holder k)" by simp
    then have "minv S L \<lparr>ks = ?k', frs = (frs m)(cur k := g)\<rparr>"
      using f(1) placed_change [OF f(2), of ?k'] by (intro minvI [of _ S L k R W]) simp_all
    then show ?thesis using e by (simp add: push_sleep_def)
  qed
qed

lemma up_ok:
  assumes m: "minv_with S L R W m" and k: "k = ks m" and s: "s \<in> sems S L"
    and fc: "s \<in> S \<and> frs m (cur k) = [] \<or> (\<exists>l \<in> L. s = lock_sema l \<and> frs m (cur k) = [F_lock_release l])"
  shows "\<exists>k'. sema_up s k = Some k' \<and> minv S L \<lparr>ks = k', frs = (frs m)(cur k := [])\<rparr>"
proof -
  note f = minv_facts [OF m k]
  let ?F = "fam S L (ready_list k) R W"
  have pr: "ready_list k \<notin> waiters ` sems S L" and dis: "S \<inter> lock_sema ` L = {}" and fin: "finite {t. stat k t \<noteq> None}"
    and nn: "NULL \<notin> S" "NULL \<notin> L" using f(2) unfolding placed_def by blast+
  have Ws: "?F (waiters s) = Some (W s)" by (rule fam_waiters [OF pr s])
  have s0: "s \<noteq> NULL" using s nn by (cases "s = NULL") (auto simp: sems_def lock_sema_def)
  have ne: "waiters s \<noteq> ready_list k" using pr imageI [OF s, of waiters] by metis
  from sema_up_ok [OF f(1) s0 fam_ready Ws ne f(10) [OF s]] obtain k' where k': "sema_up s k = Some k'"
    "rep k' (case W s of [] \<Rightarrow> ?F | t # W' \<Rightarrow> ?F(waiters s \<mapsto> W', ready_list k \<mapsto> R @ [t]))"
    "stat k' = (case W s of [] \<Rightarrow> stat k | t # W' \<Rightarrow> (stat k)(t \<mapsto> THREAD_READY))" "sval k' = (sval k)(s := sval k s + 1)"
    "lock_holder k' = lock_holder k" "cur k' = cur k" "ints k' = ints k" "same_kern k k'" by blast
  let ?R = "case W s of [] \<Rightarrow> R | t # W' \<Rightarrow> R @ [t]"
  let ?W = "case W s of [] \<Rightarrow> W | t # W' \<Rightarrow> W(s := W')"
  have r': "rep k' (fam S L (ready_list k) ?R ?W)"
    using k'(2) fam_upd_waiters [OF pr s, of R W] by (cases "W s") simp_all
  have li: "lock_inv L (sval k) (lock_holder k) (frs m)" using f(3) by (simp add: ainv_def)
  have "lock_inv L ((sval k)(s := sval k s + 1)) (lock_holder k) ((frs m)(cur k := []))"
  proof (cases "s \<in> S")
    case True
    then have "frs m (cur k) = []" "s \<notin> lock_sema ` L" using fc dis by auto
    then show ?thesis using lock_other_sema [OF lock_frames [OF li]] by simp
  next
    case False
    then obtain l where l: "l \<in> L" "s = lock_sema l" "frs m (cur k) = [F_lock_release l]" using fc by auto
    show ?thesis unfolding l(2) by (rule lock_up [OF li l(1,3)])
  qed
  moreover have td: "\<not> top_down s' (frs m (cur k))" for s' using fc by (auto simp: top_down_def)
  ultimately have a: "ainv S L (idle_thread k) ?R ?W (stat k') (cur k') (ints k') ((frs m)(cur k := [])) (sval k') (lock_holder k')"
    unfolding k'(3-7) using a_up [OF f(3) fin f(6) [OF s] s, of "[]"] by simp
  have "stat k t \<noteq> None" if "stat k' t \<noteq> None" for t
  proof (cases "W s")
    case Nil
    then show ?thesis using that k'(3) by simp
  next
    case (Cons u W')
    then have "stat k u = Some THREAD_BLOCKED" using f(10) [OF s] by simp
    then show ?thesis using that k'(3) Cons by (auto simp del: stat_None split: if_splits)
  qed
  then have "minv S L \<lparr>ks = k', frs = (frs m)(cur k := [])\<rparr>"
    by (intro minvI [OF r' k'(8) placed_change [OF f(2) k'(8)] a])
  then show ?thesis using k'(1) by blast
qed

text \<open>The thread that runs after a switch exists already.\<close>

lemma next_exists:
  assumes m: "minv_with S L R W m" and k: "k = ks m" and Q: "set Q \<subseteq> insert (cur k) (set R)"
  shows "stat k (next_of_queue k Q) \<noteq> None"
proof -
  note f = minv_facts [OF m k]
  show ?thesis
  proof (cases Q)
    case Nil
    then show ?thesis using f(1) by (simp add: next_of_queue_def rep_def)
  next
    case (Cons q Q')
    then have "q \<in> insert (cur k) (set R)" using Q by auto
    then have "thrs k q \<noteq> None" using f(7) stat_SomeD [OF f(4)] by auto
    then show ?thesis using Cons by (simp add: next_of_queue_def)
  qed
qed

lemma ready_ok:
  assumes m: "minv_with S L R W m" and k: "k = ks m" and Q: "Q = (if cur k \<noteq> idle_thread k then R @ [cur k] else R)"
    and g: "g = F_yield lvl # (if t then F_iret # frs m (cur k) else [])" "base_ok L (frs m (cur k))" "if t then lvl = INTR_OFF else frs m (cur k) = []"
    and k': "rep k' ((fam S L (ready_list k) R W)(ready_list k \<mapsto> tl Q))" "cur k' = next_of_queue k Q" "ints k' = INTR_OFF"
      "stat k' = (stat k)(cur k \<mapsto> THREAD_READY, next_of_queue k Q \<mapsto> THREAD_RUNNING)" "same_kern k k'" "same_sync k k'"
  shows "minv S L \<lparr>ks = k', frs = (frs m)(cur k := g)\<rparr>"
proof -
  note f = minv_facts [OF m k]
  have q: "queues_ok S L (idle_thread k) R W (stat k) (frs m)" using f(3) by (simp add: ainv_def sched_inv_def)
  have "cur k \<notin> set R" using q f(4) by (auto simp: queues_ok_def)
  then have d: "distinct Q" using f(5) Q by simp
  have sw: "switched S L g" using g by (auto split: if_splits)
  have sf: "cur k = idle_thread k \<longrightarrow> (\<forall>x \<in> set g. \<not> sync_frame x)" using q g(1) by (auto simp: queues_ok_def sync_frame_def)
  have pd: "pend l g = pend l (frs m (cur k))" for l using g(1,3) by (auto split: if_splits)
  have td: "\<not> top_down s g" "\<not> top_down s (frs m (cur k))" for s using g(1) base_not_down [OF g(2)] by (auto simp: top_down_def)
  have "ainv S L (idle_thread k) (tl Q) W (stat k') (cur k') (ints k') ((frs m)(cur k := g)) (sval k') (lock_holder k')"
    using a_ready [OF f(3) d Q sw sf pd td next_of_queue_eq] k' by (simp add: same_sync_def)
  moreover have "stat k u \<noteq> None" if "stat k' u \<noteq> None" for u
    using that next_exists [OF m k, of Q] Q f(4) unfolding k'(4) by (auto simp del: stat_None split: if_splits)
  ultimately show ?thesis using k'(1,5) placed_change [OF f(2) k'(5)] by (intro minvI [of k' S L k]) simp_all
qed

lemma yield_ok:
  assumes m: "minv_with S L R W m" and k: "k = ks m" and fc: "frs m (cur k) = []"
  shows "\<exists>lvl k'. thread_yield k = Some (lvl, k') \<and> minv S L \<lparr>ks = k', frs = push_frame (cur k) (F_yield lvl) (frs m)\<rparr>"
proof -
  note f = minv_facts [OF m k]
  from thread_yield_ok [OF f(1) fam_ready f(4,8,7) refl] obtain k' where k': "thread_yield k = Some (ints k, k')"
    "rep k' ((fam S L (ready_list k) R W)(ready_list k \<mapsto> tl (if cur k \<noteq> idle_thread k then R @ [cur k] else R)))"
    "cur k' = next_of_queue k (if cur k \<noteq> idle_thread k then R @ [cur k] else R)" "ints k' = INTR_OFF"
    "stat k' = (stat k)(cur k \<mapsto> THREAD_READY, next_of_queue k (if cur k \<noteq> idle_thread k then R @ [cur k] else R) \<mapsto> THREAD_RUNNING)"
    "same_kern k k'" "same_sync k k'" by blast
  from ready_ok [OF m k refl, where t = False and lvl = "ints k", OF refl _ _ k'(2-7)] fc
  have "minv S L \<lparr>ks = k', frs = (frs m)(cur k := [F_yield (ints k)])\<rparr>" by simp
  then show ?thesis using k'(1) fc by (simp add: push_frame_def)
qed

lemma tick_ok:
  assumes m: "minv_with S L R W m" and d: "intr_handlers d 0x20 = Some timer_interrupt" and on: "ints (ks m) = INTR_ON"
  shows "\<exists>m'. tick d m = Some m' \<and> minv S L m'"
proof -
  define k where "k = ks m"
  note f = minv_facts [OF m k_def]
  have b: "base_ok L (frs m (cur k))" using f(3) on by (auto simp: ainv_def sched_inv_def k_def)
  let ?Q = "if cur k \<noteq> idle_thread k then R @ [cur k] else R"
  note t = timer_fires_ok [OF d f(1) fam_ready f(4,8,7) refl]
  show ?thesis
  proof (cases "TIME_SLICE \<le> thread_ticks k + 1")
    case True
    with t obtain k' where k': "timer_fires d k = Some (Some INTR_OFF, k')" "rep k' ((fam S L (ready_list k) R W)(ready_list k \<mapsto> tl ?Q))"
      "cur k' = next_of_queue k ?Q" "ints k' = INTR_OFF" "stat k' = (stat k)(cur k \<mapsto> THREAD_READY, next_of_queue k ?Q \<mapsto> THREAD_RUNNING)"
      "same_kern k k'" "same_sync k k'" by (auto simp del: fam_upd_ready)
    from ready_ok [OF m k_def refl, where t = True and lvl = INTR_OFF, OF refl b _ k'(2-7)]
    have "minv S L \<lparr>ks = k', frs = (frs m)(cur k := F_yield INTR_OFF # F_iret # frs m (cur k))\<rparr>" by simp
    then show ?thesis using k'(1) by (simp add: tick_def k_def [symmetric] push_frame_def Let_def)
  next
    case False
    with t obtain k' where k': "timer_fires d k = Some (None, k')" "rep k' (fam S L (ready_list k) R W)" "cur k' = cur k" "stat k' = stat k"
      "same_kern k k'" "same_sync k k'" by auto
    have "minv S L \<lparr>ks = k'\<lparr>ints := INTR_ON\<rparr>, frs = frs m\<rparr>"
      using k' f(3) on placed_change [OF f(2), of "k'\<lparr>ints := INTR_ON\<rparr>"]
      by (intro minvI [of _ S L k R W]) (simp_all add: same_sync_def k_def [symmetric])
    then show ?thesis using k'(1) by (simp add: tick_def k_def [symmetric])
  qed
qed

lemma exit_ok:
  assumes m: "minv_with S L R W m" and k: "k = ks m" and c: "cur k \<noteq> idle_thread k" "frs m (cur k) = []"
  shows "\<exists>k'. thread_exit k = Some k' \<and> minv S L \<lparr>ks = k', frs = frs m\<rparr>"
proof -
  note f = minv_facts [OF m k]
  have q: "queues_ok S L (idle_thread k) R W (stat k) (frs m)" using f(3) by (simp add: ainv_def sched_inv_def)
  have nR: "cur k \<notin> set R" using q f(4) by (auto simp: queues_ok_def)
  from thread_exit_ok [OF f(1) fam_ready f(4) c(1) nR f(7) f(11)] obtain k' where k': "thread_exit k = Some k'"
    "rep k' (fam S L (ready_list k) (tl R) W)" "cur k' = next_of_queue k R" "ints k' = INTR_OFF"
    "stat k' = (stat k)(cur k := (if cur k = initial_thread k then Some THREAD_DYING else None), next_of_queue k R \<mapsto> THREAD_RUNNING)"
    "same_kern k k'" "\<forall>a. \<not> in_page (cur k) a \<longrightarrow> sval k' a = sval k a \<and> lock_holder k' a = lock_holder k a" by auto
  have a: "ainv S L (idle_thread k) (tl R) W (stat k') (cur k') (ints k') (frs m) (sval k) (lock_holder k)"
    unfolding k'(3,4,5) by (rule a_exit [OF f(3,5) c _ next_of_queue_eq]) simp
  have out: "\<not> in_page (cur k) a" if "a \<in> places S L k" for a
    using f(2) stat_SomeD [OF f(4)] that unfolding placed_def by blast
  have "sval k' s = sval k s" if "s \<in> sems S L" for s using k'(7) out [of s] that by (auto simp: places_def)
  moreover have "lock_holder k' l = lock_holder k l" if "l \<in> L" for l using k'(7) out [of l] that by (auto simp: places_def)
  ultimately have "ainv S L (idle_thread k) (tl R) W (stat k') (cur k') (ints k') (frs m) (sval k') (lock_holder k')"
    using a by (auto simp: ainv_def lock_inv_def wake_inv_def sems_def)
  moreover have "stat k u \<noteq> None" if "stat k' u \<noteq> None" for u
    using that next_exists [OF m k, of R] f(4) unfolding k'(5) by (auto simp del: stat_None split: if_splits)
  ultimately show ?thesis using k' placed_change [OF f(2) k'(6)] minvI [OF k'(2,6)] by blast
qed

lemma idle_ok:
  assumes m: "minv_with S L R W m" and c: "cur (ks m) = idle_thread (ks m)" "frs m (cur (ks m)) = []"
  shows "\<exists>m'. idle_loop m = Some m' \<and> minv S L m'"
proof -
  define k where "k = ks m"
  note f = minv_facts [OF m k_def]
  let ?k = "k\<lparr>ints := INTR_OFF\<rparr>"
  have r0: "rep ?k (fam S L (ready_list k) R W)" using f(1) by simp
  from thread_block_ok [OF r0, of R] f(4,7) obtain k' where k': "thread_block ?k = Some k'" "rep k' (fam S L (ready_list k) (tl R) W)"
    "cur k' = next_of_queue k R" "ints k' = INTR_OFF" "stat k' = (stat k)(cur k \<mapsto> THREAD_BLOCKED, next_of_queue k R \<mapsto> THREAD_RUNNING)"
    "same_kern k k'" "same_sync k k'" by (auto simp: next_of_queue_def)
  have "ainv S L (idle_thread k) (tl R) W (stat k') (cur k') (ints k') ((frs m)(cur k := [F_idle])) (sval k) (lock_holder k)"
    unfolding k'(3,4,5) by (rule a_idle [OF f(3,5) _ _ next_of_queue_eq]) (use c in \<open>simp_all add: k_def\<close>)
  moreover have "stat k u \<noteq> None" if "stat k' u \<noteq> None" for u
    using that next_exists [OF m k_def, of R] f(4) unfolding k'(5) by (auto simp del: stat_None split: if_splits)
  ultimately have "minv S L \<lparr>ks = k', frs = (frs m)(cur k := [F_idle])\<rparr>"
    using k' placed_change [OF f(2) k'(6)] by (intro minvI [OF k'(2,6)]) (simp_all add: same_sync_def)
  then show ?thesis using k'(1) c by (simp add: idle_loop_def intr_disable_def k_def push_frame_def)
qed

section \<open>Every step keeps the invariant\<close>

lemma own_ok:
  assumes m: "minv_with S L R W m" and k: "k = ks m" and g: "base_ok L g \<or> lev' = INTR_OFF \<and> paused L g" "\<And>s. \<not> top_down s (frs m (cur k))"
    "set g \<subseteq> set (frs m (cur k)) \<or> cur k \<noteq> idle_thread k" and l: "lock_inv L (sval k) hold' ((frs m)(cur k := g))"
  shows "minv S L \<lparr>ks = k\<lparr>ints := lev', lock_holder := hold'\<rparr>, frs = (frs m)(cur k := g)\<rparr>"
proof -
  note f = minv_facts [OF m k]
  have "\<forall>x \<in> set (frs m (idle_thread k)). \<not> sync_frame x" using f(3) by (simp add: ainv_def sched_inv_def queues_ok_def)
  then have "cur k = idle_thread k \<longrightarrow> (\<forall>x \<in> set g. \<not> sync_frame x)" using g(3) by auto
  from a_own [OF f(3) g(1) this g(2) l]
  have "ainv S L (idle_thread k) R W (stat k) (cur k) lev' ((frs m)(cur k := g)) (sval k) hold'" .
  then show ?thesis using f(1) placed_change [OF f(2), of "k\<lparr>ints := lev', lock_holder := hold'\<rparr>"]
    by (intro minvI [of _ S L k R W]) simp_all
qed

lemma minv_frames:
  assumes "minv_with S L R W m" and "k = ks m"
  shows "base_ok L (frs m (cur k)) \<or> ints k = INTR_OFF \<and> (switched S L (frs m (cur k)) \<or> paused L (frs m (cur k)))"
    "lock_inv L (sval k) (lock_holder k) (frs m)" "\<forall>x \<in> set (frs m (idle_thread k)). \<not> sync_frame x"
  using minv_facts(3) [OF assms] by (simp_all add: ainv_def sched_inv_def queues_ok_def)

lemma resume_ok:
  assumes m: "minv_with S L R W m" and ne: "frs m (cur (ks m)) \<noteq> []"
  shows "\<exists>m'. resume m = Some m' \<and> minv S L m'"
proof -
  define k where "k = ks m"
  note f = minv_facts [OF m k_def] and fr = minv_frames [OF m k_def]
  obtain x xs where x: "frs m (cur k) = x # xs" using ne by (cases "frs m (cur k)") (auto simp: k_def)
  have own: "minv S L \<lparr>ks = k\<lparr>ints := lev'\<rparr>, frs = (frs m)(cur k := xs)\<rparr>"
    if "base_ok L xs \<or> lev' = INTR_OFF \<and> paused L xs" "\<not> (\<exists>s lvl. x = F_sema_down s lvl)" "\<And>l. pend l xs = pend l (x # xs)" for lev'
  proof -
    have "lock_inv L (sval k) (lock_holder k) ((frs m)(cur k := xs))" by (rule lock_frames [OF fr(2)]) (simp add: x that(3))
    from own_ok [OF m k_def that(1) _ _ this] x that(2) show ?thesis by (auto simp: top_down_def)
  qed
  show ?thesis
  proof (cases x)
    case (F_sema_down s lvl)
    have sw: "ints k = INTR_OFF" "switched S L (x # xs)" using fr(1) x F_sema_down by (auto simp: paused_def)
    then have g: "s \<in> S \<and> xs = [] \<or> (\<exists>l \<in> L. s = lock_sema l \<and> xs = [F_lock_acquire l])" using F_sema_down by simp
    have s: "s \<in> sems S L" using g by (auto simp: sems_def)
    have c: "cur k \<noteq> idle_thread k" using fr(3) x F_sema_down by (auto simp: sync_frame_def)
    have k0: "k\<lparr>ints := INTR_OFF\<rparr> = k" using sw(1) by simp
    have fc: "frs m (cur k) = [] \<or> (\<exists>lvl'. frs m (cur k) = F_sema_down s lvl' # xs)" using x F_sema_down by simp
    from down_ok [OF m k_def s c g fc, of lvl] show ?thesis using x F_sema_down unfolding k0 by (auto simp: resume_def k_def Let_def)
  next
    case (F_yield lvl)
    have sw: "switched S L (x # xs)" using fr(1) x F_yield by (auto simp: paused_def)
    have "minv S L \<lparr>ks = k\<lparr>ints := lvl\<rparr>, frs = (frs m)(cur k := xs)\<rparr>"
    proof (cases xs)
      case Nil
      then show ?thesis by (intro own) (auto simp: F_yield)
    next
      case (Cons y ys)
      then have "paused L xs" using sw F_yield by (auto simp: paused_def)
      moreover have "lvl = INTR_OFF" using sw F_yield Cons by simp
      ultimately show ?thesis by (intro own) (auto simp: F_yield)
    qed
    then show ?thesis using x F_yield intr_set_level_ok [OF f(1), of lvl] by (simp add: resume_def k_def Let_def)
  next
    case (F_lock_acquire l)
    have b: "xs = []" "l \<in> L" using fr(1) x F_lock_acquire by (cases xs; auto simp: paused_def)+
    have "lock_inv L (sval k) ((lock_holder k)(l := cur k)) ((frs m)(cur k := []))"
      by (rule lock_enter [OF fr(2) b(2) _ f(9)]) (simp add: x b F_lock_acquire)
    from own_ok [OF m k_def _ _ _ this, of "ints k"] have "minv S L \<lparr>ks = k\<lparr>lock_holder := (lock_holder k)(l := cur k)\<rparr>, frs = (frs m)(cur k := [])\<rparr>"
      using x F_lock_acquire by (auto simp: top_down_def)
    then show ?thesis using x b F_lock_acquire thread_current_rep [OF f(1,4)] by (simp add: resume_def k_def Let_def lock_set_holder_def)
  next
    case (F_lock_release l)
    have b: "xs = []" "l \<in> L" using fr(1) x F_lock_release by (cases xs; auto simp: paused_def)+
    have "lock_sema l \<in> sems S L" using b by (simp add: sems_def)
    from up_ok [OF m k_def this] b x F_lock_release show ?thesis by (auto simp: resume_def k_def Let_def)
  next
    case F_kernel_thread
    have "switched S L (x # xs)" using fr(1) x F_kernel_thread by (auto simp: paused_def)
    then have "xs = []" using F_kernel_thread by simp
    with own [of INTR_ON] F_kernel_thread have "minv S L \<lparr>ks = k\<lparr>ints := INTR_ON\<rparr>, frs = (frs m)(cur k := xs)\<rparr>" by simp
    moreover have "intr_enable k = Some (ints k, k\<lparr>ints := INTR_ON\<rparr>)"
      using rep_context [OF f(1)] by (simp add: intr_enable_def intr_get_level_def)
    ultimately show ?thesis using x F_kernel_thread by (simp add: resume_def k_def Let_def)
  next
    case F_idle
    have "switched S L (x # xs)" using fr(1) x F_idle by (auto simp: paused_def)
    then have "xs = []" using F_idle by simp
    with own [of INTR_ON] F_idle x show ?thesis by (simp add: resume_def k_def Let_def)
  next
    case F_iret
    have "paused L (x # xs)" using fr(1) x F_iret by auto
    then have "base_ok L xs" using F_iret by (simp add: paused_def)
    with own [of INTR_ON] F_iret x show ?thesis by (simp add: resume_def k_def Let_def)
  qed
qed

lemma exec_ok:
  assumes m: "minv_with S L R W m" and c: "cur (ks m) \<noteq> idle_thread (ks m)" "frs m (cur (ks m)) = []" and ok: "op_ok S L x"
  shows "case x of
      Lock_acquire l \<Rightarrow> if lock_holder (ks m) l = cur (ks m) then exec_op x m = None else \<exists>m'. exec_op x m = Some m' \<and> minv S L m'
    | Lock_try_acquire l \<Rightarrow> if lock_holder (ks m) l = cur (ks m) then exec_op x m = None else \<exists>m'. exec_op x m = Some m' \<and> minv S L m'
    | Lock_release l \<Rightarrow> if lock_holder (ks m) l \<noteq> cur (ks m) then exec_op x m = None else \<exists>m'. exec_op x m = Some m' \<and> minv S L m'
    | _ \<Rightarrow> \<exists>m'. exec_op x m = Some m' \<and> minv S L m'"
proof -
  define k where "k = ks m"
  note f = minv_facts [OF m k_def] and fr = minv_frames [OF m k_def]
  have nn: "NULL \<notin> S" "NULL \<notin> L" and fin: "finite {t. stat k t \<noteq> None}" and dis: "S \<inter> lock_sema ` L = {}"
    using f(2) unfolding placed_def by blast+
  have c': "cur k \<noteq> idle_thread k" "frs m (cur k) = []" using c by (simp_all add: k_def)
  have same: "(frs m)(cur k := []) = frs m" using c'(2) by (simp add: fun_upd_idem)
  have td: "\<not> top_down s (frs m (cur k))" for s by (simp add: c'(2) top_down_def)
  have tc: "thread_current k = Some (cur k)" by (rule thread_current_rep [OF f(1,4)])
  have held: "lock_held_by_current_thread l k = Some (lock_holder k l = cur k)" if "l \<in> L" for l
    using tc that nn(2) by (cases "l = NULL") (auto simp: lock_held_by_current_thread_def)
  have tryd: "\<exists>b k'. sema_try_down s k = Some (b, k') \<and> k' = (if b then k\<lparr>sval := (sval k)(s := sval k s - 1)\<rparr> else k) \<and> b = (sval k s \<noteq> 0)"
    if "s \<in> sems S L" for s
  proof -
    have s0: "s \<noteq> NULL" using that nn by (cases "s = NULL") (auto simp: sems_def lock_sema_def)
    let ?k = "if sval k s > 0 then k\<lparr>ints := INTR_OFF, sval := (sval k)(s := sval k s - 1)\<rparr> else k\<lparr>ints := INTR_OFF\<rparr>"
    have "rep ?k (fam S L (ready_list k) R W)" using f(1) by simp
    from intr_set_level_ok [OF this, of "ints k"] s0 show ?thesis
      by (auto simp: sema_try_down_def intr_disable_def intr_get_level_def word_gt_0)
  qed
  show ?thesis
  proof (cases x)
    case (Sema_down s)
    then have s: "s \<in> S" "s \<in> sems S L" "s \<noteq> NULL" using ok nn by (cases "s = NULL"; simp add: sems_def)+
    from down_ok [OF m k_def s(2) c'(1), of "[]" "ints k"] s c'(2) obtain r k' where
      "sema_down_loop s (ints k) (k\<lparr>ints := INTR_OFF\<rparr>) = Some (r, k')" "minv S L \<lparr>ks = k', frs = push_sleep (cur k) s r (frs m)\<rparr>"
      unfolding same by blast
    then show ?thesis using Sema_down s rep_context [OF f(1)]
      by (simp add: exec_op_def k_def [symmetric] sema_down_def intr_disable_def intr_get_level_def)
  next
    case (Sema_try_down s)
    then have s: "s \<in> S" "s \<in> sems S L" using ok by (auto simp: sems_def)
    from tryd [OF s(2)] obtain b where b: "sema_try_down s k = Some (b, if b then k\<lparr>sval := (sval k)(s := sval k s - 1)\<rparr> else k)" "b = (sval k s \<noteq> 0)" by blast
    have "minv S L \<lparr>ks = (if b then k\<lparr>sval := (sval k)(s := sval k s - 1)\<rparr> else k), frs = frs m\<rparr>"
    proof (cases b)
      case True
      have l: "lock_inv L ((sval k)(s := sval k s - 1)) (lock_holder k) ((frs m)(cur k := []))"
        unfolding same by (rule lock_other_sema [OF fr(2)]) (use s dis in auto)
      have "ainv S L (idle_thread k) R W (stat k) (cur k) (ints k) ((frs m)(cur k := [])) ((sval k)(s := sval k s - 1)) (lock_holder k)"
        by (rule a_take [OF f(3) fin s(2) _ _ _ td l]) (use b(2) True in simp_all)
      then have "ainv S L (idle_thread k) R W (stat k) (cur k) (ints k) (frs m) ((sval k)(s := sval k s - 1)) (lock_holder k)"
        unfolding same .
      then show ?thesis using True f(1) placed_change [OF f(2), of "k\<lparr>sval := (sval k)(s := sval k s - 1)\<rparr>"]
        by (intro minvI [of _ S L k R W]) simp_all
    next
      case False
      then show ?thesis using f(1,2,3) by (intro minvI [of _ S L k R W]) simp_all
    qed
    then show ?thesis using Sema_try_down b(1) by (simp add: exec_op_def k_def [symmetric])
  next
    case (Sema_up s)
    then have s: "s \<in> S" "s \<in> sems S L" using ok by (auto simp: sems_def)
    from up_ok [OF m k_def s(2)] s c'(2) obtain k' where "sema_up s k = Some k'" "minv S L \<lparr>ks = k', frs = frs m\<rparr>" unfolding same by blast
    then show ?thesis using Sema_up by (simp add: exec_op_def k_def [symmetric])
  next
    case (Lock_acquire l)
    then have l: "l \<in> L" "lock_sema l \<in> sems S L" using ok by (auto simp: sems_def)
    have l0: "l \<noteq> NULL" "lock_sema l \<noteq> NULL" using l nn by (cases "l = NULL"; simp add: lock_sema_def)+
    have e: "lock_acquire l k = (if lock_holder k l = cur k then None else sema_down_loop (lock_sema l) (ints k) (k\<lparr>ints := INTR_OFF\<rparr>))"
      using held [OF l(1)] l0 rep_context [OF f(1)] by (simp add: lock_acquire_def sema_down_def intr_disable_def intr_get_level_def)
    have g: "lock_sema l \<in> S \<and> [F_lock_acquire l] = [] \<or> (\<exists>l' \<in> L. lock_sema l = lock_sema l' \<and> [F_lock_acquire l] = [F_lock_acquire l'])" using l by auto
    from down_ok [OF m k_def l(2) c'(1) g, of "ints k"] c'(2) obtain r k' where
      "sema_down_loop (lock_sema l) (ints k) (k\<lparr>ints := INTR_OFF\<rparr>) = Some (r, k')"
      "minv S L \<lparr>ks = k', frs = push_sleep (cur k) (lock_sema l) r ((frs m)(cur k := [F_lock_acquire l]))\<rparr>" by blast
    then show ?thesis using Lock_acquire e c'(2) by (simp add: exec_op_def k_def [symmetric] push_frame_def Let_def)
  next
    case (Lock_try_acquire l)
    then have l: "l \<in> L" "lock_sema l \<in> sems S L" using ok by (auto simp: sems_def)
    have l0: "l \<noteq> NULL" using l nn by metis
    let ?s = "lock_sema l"
    let ?k = "k\<lparr>sval := (sval k)(?s := sval k ?s - 1)\<rparr>"
    from tryd [OF l(2)] obtain b where b: "sema_try_down ?s k = Some (b, if b then ?k else k)" "b = (sval k ?s \<noteq> 0)" by blast
    have tc': "thread_current ?k = Some (cur k)" using thread_current_rep [of ?k "fam S L (ready_list k) R W"] f(1,4) by simp
    let ?k' = "if b then ?k\<lparr>lock_holder := (lock_holder k)(l := cur k)\<rparr> else k"
    have e: "lock_try_acquire l k = (if lock_holder k l = cur k then None else Some (b, ?k'))"
      using held [OF l(1)] l0 b tc' by (simp add: lock_try_acquire_def lock_set_holder_def)
    have "minv S L \<lparr>ks = ?k', frs = frs m\<rparr>"
    proof (cases b)
      case True
      have v: "sval k ?s \<noteq> 0" using True b(2) by simp
      have li: "lock_inv L ((sval k)(?s := sval k ?s - 1)) ((lock_holder k)(l := cur k)) ((frs m)(cur k := []))"
        unfolding same by (rule lock_try_take [OF fr(2) l(1) v f(9)])
      have "ainv S L (idle_thread k) R W (stat k) (cur k) (ints k) ((frs m)(cur k := [])) ((sval k)(?s := sval k ?s - 1)) ((lock_holder k)(l := cur k))"
        by (rule a_take [OF f(3) fin l(2) v _ _ td li]) simp_all
      then have a: "ainv S L (idle_thread k) R W (stat k) (cur k) (ints k) (frs m) ((sval k)(?s := sval k ?s - 1)) ((lock_holder k)(l := cur k))"
        unfolding same .
      show ?thesis using True f(1) a placed_change [OF f(2), of ?k']
        by (intro minvI [of _ S L k R W]) simp_all
    next
      case False
      then show ?thesis using f(1,2,3) by (intro minvI [of _ S L k R W]) simp_all
    qed
    then show ?thesis using Lock_try_acquire e by (simp add: exec_op_def k_def [symmetric])
  next
    case (Lock_release l)
    then have l: "l \<in> L" using ok by simp
    have l0: "l \<noteq> NULL" using l nn by metis
    have e: "lock_drop_holder l k = (if lock_holder k l = cur k then Some (k\<lparr>lock_holder := (lock_holder k)(l := NULL)\<rparr>) else None)"
      using held [OF l] l0 by (simp add: lock_drop_holder_def)
    have "minv S L \<lparr>ks = k\<lparr>lock_holder := (lock_holder k)(l := NULL)\<rparr>, frs = (frs m)(cur k := [F_lock_release l])\<rparr>" if "lock_holder k l = cur k"
      using own_ok [OF m k_def, of "[F_lock_release l]" "ints k" "(lock_holder k)(l := NULL)"] lock_drop [OF fr(2) l c'(2) that f(9)] l c'(1) td by simp
    then show ?thesis using Lock_release e c'(2) by (simp add: exec_op_def k_def [symmetric] push_frame_def)
  next
    case Thread_yield
    from yield_ok [OF m k_def c'(2)] Thread_yield show ?thesis by (auto simp: exec_op_def k_def [symmetric])
  next
    case Thread_exit
    from exit_ok [OF m k_def c'] Thread_exit show ?thesis by (auto simp: exec_op_def k_def [symmetric])
  qed
qed

lemma kstep_minv:
  assumes d: "intr_handlers d 0x20 = Some timer_interrupt" and i: "minv S L m" and s: "kstep d S L m m'"
  shows "minv S L m'"
proof -
  obtain R W where m: "minv_with S L R W m" using i by (auto simp: minv_def)
  from s show ?thesis
  proof cases
    case (step_call x)
    with exec_ok [OF m step_call(2,1,3)] show ?thesis by (auto split: kop.splits if_splits)
  next
    case step_resume
    then have "frs m (cur (ks m)) \<noteq> []" by (auto simp: resume_def)
    with resume_ok [OF m] step_resume show ?thesis by auto
  next
    case step_idle
    with idle_ok [OF m step_idle(2,1)] show ?thesis by auto
  next
    case step_tick
    with tick_ok [OF m d step_tick(1)] show ?thesis by auto
  qed
qed

lemma reachable_minv:
  assumes "intr_handlers d 0x20 = Some timer_interrupt" and "minv S L m" and "reachable d S L m m'"
  shows "minv S L m'"
  using assms(3,2) by (induction rule: rtranclp_induct) (use kstep_minv [OF assms(1)] in blast)+

section \<open>A sample machine\<close>

text \<open>One thread, which runs, and the idle thread; one semaphore and one lock.\<close>

definition sample_heap :: heap where
  "sample_heap = \<lparr>prev_of = (\<lambda>_. 0)(24 := 16, 112 := 104, 216 := 208), next_of = (\<lambda>_. 0)(16 := 24, 104 := 112, 208 := 216)\<rparr>"

definition sample_thread :: "addr \<Rightarrow> thread_status \<Rightarrow> thread" where
  "sample_thread t st = \<lparr>stack = t + 4096, status = st, tid = 1, name = [], priority = 31, pagedir = 0, parent = NULL, exec_file = NULL,
     exit_status = 0, child_num = 0, executable = 0, exec_str = NULL, stack_end = NULL, wait_num = 0, magic = THREAD_MAGIC,
     pt_ready = True, st_ready = True, esp = 0, pwd_ptr = NULL\<rparr>"

definition sample_kern :: kern where
  "sample_kern = \<lparr>lnk = sample_heap,
     thrs = [65536 \<mapsto> sample_thread 65536 THREAD_RUNNING, 3222274048 \<mapsto> sample_thread 3222274048 THREAD_BLOCKED],
     sval = (\<lambda>_. 0)(204 := 1), lock_holder = (\<lambda>_. NULL), ready_list = 16, tid_lock = NULL, cur = 65536, ints = INTR_ON,
     in_external_intr = False, yield_on_return = False, idle_thread = 3222274048, initial_thread = 65536, read_ahead_thread = NULL,
     idle_ticks = 0, kernel_ticks = 0, user_ticks = 0, thread_ticks = 0, ticks = 0, next_tid = 3, pm = sample_pmem,
     base_page_dir = 0xc0001000, cr3 = 0x1000, tss_esp0 = 69632\<rparr>"

definition sample_mach :: mach where
  "sample_mach = \<lparr>ks = sample_kern, frs = (\<lambda>_. [])(3222274048 := [F_idle])\<rparr>"

definition sample_idt :: idt_state where
  "sample_idt = \<lparr>idt = (\<lambda>_. 0), intr_handlers = (\<lambda>_. None)(0x20 := Some timer_interrupt), intr_names = (\<lambda>_. [])\<rparr>"

lemma sample_sems: "sems {100} {200} = {100, 204}"
  by (auto simp: sems_def lock_sema_def)

lemma sample_lists: "lists sample_heap (fam {100} {200} 16 [] (\<lambda>_. []))"
proof -
  have F: "fam {100} {200} 16 [] (\<lambda>_. []) l = (if l \<in> {16, 104, 208} then Some [] else None)" for l
    by (auto simp: fam_def sample_sems waiters_def)
  have "is_list sample_heap l []" if "l \<in> {16, 104, 208}" for l
    using that by (auto simp: is_list_def dll_def head_elem_def tail_elem_def sample_heap_def)
  then show ?thesis unfolding lists_def F by (auto simp: cells_def head_elem_def tail_elem_def split: if_splits)
qed

lemma sample_rep: "rep sample_kern (fam {100} {200} 16 [] (\<lambda>_. []))"
  using sample_lists sample_pmem_ok sample_first_used
  by (auto simp: rep_def sample_kern_def thread_sound_def sample_thread_def is_kernel_vaddr_def PHYS_BASE_def fam_def split: if_splits)

lemma sample_stat: "stat sample_kern = [65536 \<mapsto> THREAD_RUNNING, 3222274048 \<mapsto> THREAD_BLOCKED]"
  by (auto simp: stat_def sample_kern_def sample_thread_def fun_eq_iff)

lemma sample_minv: "minv {100} {200} sample_mach"
proof -
  have fin: "finite {t. stat sample_kern t \<noteq> None}"
    by (rule finite_subset [of _ "{65536, 3222274048}"]) (auto simp: sample_stat simp del: stat_None split: if_splits)
  have "placed {100} {200} sample_kern"
    using fin by (auto simp: placed_def places_def sample_sems waiters_def lock_sema_def sample_kern_def in_page_def)
  moreover have "ainv {100} {200} 3222274048 [] (\<lambda>_. []) (stat sample_kern) 65536 INTR_ON ((\<lambda>_. [])(3222274048 := [F_idle])) ((\<lambda>_. 0)(204 := 1)) (\<lambda>_. NULL)"
    unfolding ainv_def sched_inv_def queues_ok_def sample_stat
    by (auto simp: sync_frame_def lock_inv_def lock_ok_def lock_sema_def wake_inv_def pend_def top_down_def split: if_splits)
  ultimately have "minv_with {100} {200} [] (\<lambda>_. []) sample_mach"
    using sample_rep by (simp add: minv_with_def sample_mach_def) (simp add: sample_kern_def)
  then show ?thesis by (auto simp: minv_def)
qed

lemma sample_locks:
  obtains m' where "kstep sample_idt {100} {200} sample_mach m'" and "exec_op (Lock_acquire 200) sample_mach = Some m'"
proof -
  obtain R W where m: "minv_with {100} {200} R W sample_mach" using sample_minv by (auto simp: minv_def)
  have c: "cur (ks sample_mach) \<noteq> idle_thread (ks sample_mach)" "frs sample_mach (cur (ks sample_mach)) = []"
    "lock_holder (ks sample_mach) 200 \<noteq> cur (ks sample_mach)"
    by (simp_all add: sample_mach_def sample_kern_def)
  from exec_ok [OF m c(1,2), of "Lock_acquire 200"] c(3) obtain m' where "exec_op (Lock_acquire 200) sample_mach = Some m'" by auto
  moreover from this c have "kstep sample_idt {100} {200} sample_mach m'" by (intro step_call) auto
  ultimately show ?thesis using that by blast
qed

section \<open>Properties\<close>






lemma sample_sleeps:
  obtains k' where "exec_op (Sema_down 100) sample_mach = Some \<lparr>ks = k', frs = push_frame 65536 (F_sema_down 100 INTR_ON) (frs sample_mach)\<rparr>"
    and "is_list (lnk k') (waiters 100) [65536]"
proof -
  let ?F = "fam {100} {200} 16 [] (\<lambda>_. [])"
  let ?k = "sample_kern\<lparr>ints := INTR_OFF\<rparr>"
  obtain R W where m: "minv_with {100} {200} R W sample_mach" using sample_minv by (auto simp: minv_def)
  have r: "rep ?k ?F" using sample_rep by simp
  have p: "sval ?k 100 = 0" "ready_list ?k = 16" "cur ?k = 65536" by (simp_all add: sample_kern_def)
  have W: "?F (waiters 100) = Some []" "waiters 100 \<noteq> ready_list ?k" by (simp_all add: fam_def sample_sems waiters_def sample_kern_def)
  have c: "stat ?k (cur ?k) = Some THREAD_RUNNING" by (simp add: sample_stat) (simp add: sample_kern_def)
  have o: "cur ?k \<notin> owned ?F"
    by (auto simp: owned_iff fam_def sample_sems waiters_def cells_def head_elem_def tail_elem_def sample_kern_def split: if_splits)
  from sema_down_loop_sleeps [OF r p(1) _ W _ c o, of "[]" INTR_ON] obtain k' where
    k': "sema_down_loop 100 INTR_ON ?k = Some (Some INTR_ON, k')" "rep k' (?F(waiters 100 \<mapsto> [65536], 16 \<mapsto> []))" by (auto simp: p)
  have "(?F(waiters 100 \<mapsto> [65536], 16 \<mapsto> [])) (waiters 100) = Some [65536]" by (simp add: waiters_def)
  from lists_is_list [OF rep_lists [OF k'(2)] this] have "is_list (lnk k') (waiters 100) [65536]" .
  moreover have "exec_op (Sema_down 100) sample_mach = Some \<lparr>ks = k', frs = push_frame 65536 (F_sema_down 100 INTR_ON) (frs sample_mach)\<rparr>"
    using k'(1) by (simp add: exec_op_def sample_mach_def sema_down_def intr_disable_def intr_get_level_def push_sleep_def)
      (simp add: sample_kern_def intr_context_def)
  ultimately show ?thesis using that by blast
qed




end
