(* ===== verification/Timer.thy ===== *)
theory Timer
  imports Sched
begin

unbundle bit_operations_syntax

text \<open>
  \<^verbatim>\<open>devices/timer.c\<close>: the programming of the timer chip, the calibration of the delay loop and the sleeps.  Whether a
  number of loops takes longer than a tick is a property of the processor, and an argument.
\<close>

section \<open>Ticks\<close>

definition TIMER_FREQ :: int where
  "TIMER_FREQ = 100"

text \<open>The bytes that \<^verbatim>\<open>timer_init\<close> writes to the ports of the chip, and the registration of the interrupt.\<close>

definition timer_init :: "(byte \<Rightarrow> vaddr) \<Rightarrow> idt_state \<Rightarrow> ((u16 \<times> byte) list \<times> idt_state) option" where
  "timer_init intr_stubs d = do {
     let count = (of_int ((1193180 + TIMER_FREQ div 2) div TIMER_FREQ) :: u16);
     d \<leftarrow> intr_register_ext intr_stubs 0x20 timer_interrupt ''8254 Timer'' d;
     Some ([(0x43, 0x34), (0x40, ucast (count AND 0xff)), (0x40, ucast (drop_bit 8 count))], d) }"

definition timer_ticks :: "kern \<Rightarrow> (u64 \<times> kern) option" where
  "timer_ticks k = do {
     let (old_level, k) = intr_disable k;
     let t = ticks k;
     (_, k) \<leftarrow> intr_set_level old_level k;
     Some (t, k) }"

definition timer_elapsed :: "u64 \<Rightarrow> kern \<Rightarrow> (u64 \<times> kern) option" where
  "timer_elapsed thn k = do { (t, k) \<leftarrow> timer_ticks k; Some (t - thn, k) }"

section \<open>Calibration\<close>

text \<open>The doubling loop: at most 22 rounds, after which \<^verbatim>\<open>loops_per_tick\<close> would be zero.\<close>

fun double_loop :: "(u32 \<Rightarrow> bool) \<Rightarrow> nat \<Rightarrow> u32 \<Rightarrow> u32 option" where
  "double_loop too_many_loops 0 lpt = None"
| "double_loop too_many_loops (Suc n) lpt =
     (if \<not> too_many_loops (push_bit 1 lpt) then do {
        let lpt = push_bit 1 lpt;
        kassert (lpt \<noteq> 0);
        double_loop too_many_loops n lpt }
      else Some lpt)"

text \<open>The bits that are tried: nine of them, from the one below the high bit.\<close>

fun refine_loop :: "(u32 \<Rightarrow> bool) \<Rightarrow> nat \<Rightarrow> u32 \<Rightarrow> u32 \<Rightarrow> u32 \<Rightarrow> u32" where
  "refine_loop too_many_loops 0 high_bit test_bit lpt = lpt"
| "refine_loop too_many_loops (Suc n) high_bit test_bit lpt =
     (if test_bit \<noteq> drop_bit 10 high_bit
      then refine_loop too_many_loops n high_bit (drop_bit 1 test_bit)
        (if \<not> too_many_loops (high_bit OR test_bit) then lpt OR test_bit else lpt)
      else lpt)"

definition timer_calibrate :: "(u32 \<Rightarrow> bool) \<Rightarrow> kern \<Rightarrow> u32 option" where
  "timer_calibrate too_many_loops k = do {
     kassert (intr_get_level k = INTR_ON);
     lpt \<leftarrow> double_loop too_many_loops 23 (push_bit 10 1);
     let high_bit = lpt;
     Some (refine_loop too_many_loops 10 high_bit (drop_bit 1 high_bit) lpt) }"

section \<open>Sleeping\<close>

text \<open>
  The loop of \<^verbatim>\<open>timer_sleep\<close>.  What happens while other threads run is an argument: the values of \<^verbatim>\<open>ticks\<close> that
  the thread finds at its readings.  The result is the number of times the thread has yielded.
\<close>

partial_function (option) sleep_loop :: "(nat \<Rightarrow> u64) \<Rightarrow> u64 \<Rightarrow> u64 \<Rightarrow> nat \<Rightarrow> nat option" where
  "sleep_loop reading start tks n =
     (if sint (reading (Suc n) - start) < sint tks then sleep_loop reading start tks (Suc n) else Some n)"

definition timer_sleep :: "(nat \<Rightarrow> u64) \<Rightarrow> u64 \<Rightarrow> kern \<Rightarrow> nat option" where
  "timer_sleep reading tks k = do {
     let start = reading 0;
     kassert (intr_get_level k = INTR_ON);
     sleep_loop reading start tks 0 }"

text \<open>Signed 64-bit arithmetic: an overflow is undefined.\<close>

definition s64 :: "int \<Rightarrow> int option" where
  "s64 x = (if - (2 ^ 63) \<le> x \<and> x < 2 ^ 63 then Some x else None)"

text \<open>What \<^verbatim>\<open>real_time_sleep\<close> decides to do: sleep for ticks, or run a loop.\<close>

datatype delay = Ticks int | Loops int

definition real_time_sleep :: "u32 \<Rightarrow> int \<Rightarrow> int \<Rightarrow> kern \<Rightarrow> delay option" where
  "real_time_sleep loops_per_tick num denom k = do {
     p \<leftarrow> s64 (num * TIMER_FREQ);
     let tks = cdiv p denom;
     kassert (intr_get_level k = INTR_ON);
     if tks > 0 then Some (Ticks tks)
     else do {
       kassert (cmod denom 1000 = 0);
       l \<leftarrow> s64 (int (unat loops_per_tick) * num);
       l \<leftarrow> s64 (cdiv l 1000 * TIMER_FREQ);
       Some (Loops (cdiv l (cdiv denom 1000))) } }"

definition timer_msleep :: "u32 \<Rightarrow> int \<Rightarrow> kern \<Rightarrow> delay option" where
  "timer_msleep lpt ms k = real_time_sleep lpt ms 1000 k"

definition timer_usleep :: "u32 \<Rightarrow> int \<Rightarrow> kern \<Rightarrow> delay option" where
  "timer_usleep lpt us k = real_time_sleep lpt us (1000 * 1000) k"

definition timer_nsleep :: "u32 \<Rightarrow> int \<Rightarrow> kern \<Rightarrow> delay option" where
  "timer_nsleep lpt ns k = real_time_sleep lpt ns (1000 * 1000 * 1000) k"

section \<open>Lemmas\<close>

lemma double_loop_power:
  assumes t: "\<And>l. too l \<longleftrightarrow> N < unat l" and N: "N < 2 ^ 31" and k: "2 ^ k \<le> N" and n: "32 \<le> n + k"
  shows "\<exists>j. double_loop too n (2 ^ k) = Some (2 ^ j) \<and> 2 ^ j \<le> N \<and> N < 2 ^ Suc j"
  using k n
proof (induction n arbitrary: k)
  case 0
  have "(2::nat) ^ 31 \<le> 2 ^ k" using 0 by (intro power_increasing) auto
  then show ?case using 0 N by linarith
next
  case (Suc n)
  have k: "k < 31" using Suc.prems(1) N power_less_imp_less_exp [of "2::nat" k 31] by linarith
  have p: "unat (2 ^ Suc k :: u32) = 2 ^ Suc k" 
    using k power_strict_increasing [of "Suc k" 32 "2::nat"] unat_of_nat [of "2 ^ Suc k", where 'a = 32] by simp
  show ?case
  proof (cases "2 ^ Suc k \<le> N")
    case True
    have "(2 ^ Suc k :: u32) \<noteq> 0" using p by force
    moreover have "\<not> too (2 ^ Suc k)" unfolding t p using True by simp
    ultimately show ?thesis using Suc.IH [OF True] Suc.prems(2) by (simp add: mult.commute [of 2])
  next
    case False
    then have "too (2 ^ Suc k)" unfolding t p by simp
    then show ?thesis using False Suc.prems by (intro exI [of _ k]) (simp add: mult.commute [of 2])
  qed
qed

lemma refine_loop_high:
  assumes "bit lpt k" "\<And>i. k < i \<Longrightarrow> \<not> bit lpt i" "\<And>i. k < i \<Longrightarrow> \<not> bit tb i"
  shows "bit (refine_loop too n hb tb lpt) k \<and> (\<forall>i>k. \<not> bit (refine_loop too n hb tb lpt) i)"
  using assms
proof (induction n arbitrary: tb lpt)
  case (Suc n)
  have s: "\<not> bit (drop_bit 1 tb) i" if "k < i" for i using Suc.prems(3) [of "Suc i"] that by (simp add: bit_simps)
  show ?case
    by (simp, intro conjI impI Suc.IH s) (use Suc.prems in \<open>auto simp: bit_simps\<close>)
qed simp

lemma bit_bounds:
  fixes w :: u32
  assumes "bit w k" "\<And>i. k < i \<Longrightarrow> \<not> bit w i"
  shows "2 ^ k \<le> unat w" "unat w < 2 ^ Suc k"
proof -
  have "bit (unat w) k" using assms(1) by (simp add: bit_unsigned_iff)
  then have "odd (unat w div 2 ^ k)" by (simp add: bit_iff_odd)
  then show "2 ^ k \<le> unat w" by (metis div_less even_zero not_less)
  have "take_bit (Suc k) w = w"
    by (rule bit_word_eqI) (use assms(2) in \<open>auto simp: bit_take_bit_iff less_Suc_eq_le linorder_not_le [symmetric]\<close>)
  then have "take_bit (Suc k) (unat w) = unat w" by (metis unsigned_take_bit_eq)
  then show "unat w < 2 ^ Suc k" by (metis take_bit_nat_less_exp)
qed

section \<open>Properties\<close>

text \<open>A kernel with interrupts on, as when the timer is calibrated.\<close>

definition sample_timer :: kern where
  "sample_timer = (ks sample_mach)\<lparr>ints := INTR_ON\<rparr>"

text \<open>
  If the processor runs at most N loops in a tick, with N at least 1024 and below 2 to the 31, the calibration of the
  delay loop ends, its result has the same highest bit as N, and so it is wrong by a factor of less than two.
\<close>

theorem timer_calibrate_bounds:
  assumes on: "intr_get_level k = INTR_ON"
    and too_many_loops: "\<And>l. too_many_loops l \<longleftrightarrow> N < unat l" and N: "2 ^ 10 \<le> N" "N < 2 ^ 31"
  shows "\<exists>lpt j. timer_calibrate too_many_loops k = Some lpt \<and> 2 ^ j \<le> N \<and> N < 2 ^ Suc j \<and> 2 ^ j \<le> unat lpt \<and> unat lpt < 2 ^ Suc j
    \<and> unat lpt < 2 * N \<and> N < 2 * unat lpt"
proof -
  obtain j where j: "double_loop too_many_loops 23 (push_bit 10 1) = Some (2 ^ j)" "2 ^ j \<le> N" "N < 2 ^ Suc j"
    using double_loop_power [OF too_many_loops N(2) N(1), where n = 23] by (auto simp: push_bit_eq_mult)
  have j31: "j < 31" using j(2) N(2) power_less_imp_less_exp [of "2::nat" j 31] by linarith
  define r where "r = refine_loop too_many_loops 10 (2 ^ j) (drop_bit 1 (2 ^ j)) (2 ^ j :: u32)"
  have r: "bit r j" "\<And>i. j < i \<Longrightarrow> \<not> bit r i"
    using refine_loop_high [of "2 ^ j" j "drop_bit 1 (2 ^ j)" too_many_loops 10 "2 ^ j"] j31
    by (auto simp: r_def bit_simps)
  have "timer_calibrate too_many_loops k = Some r" using on j by (simp add: timer_calibrate_def r_def)
  then show ?thesis using bit_bounds [OF r] j by (intro exI [of _ r] exI [of _ j]) auto
qed

theorem timer_calibrate_bounds_witness:
  "\<exists>lpt j. timer_calibrate (\<lambda>l. 70000 < unat l) sample_timer = Some lpt \<and> 2 ^ j \<le> (70000 :: nat) \<and> 70000 < (2 ^ Suc j :: nat) \<and> 2 ^ j \<le> unat lpt
    \<and> unat lpt < 2 ^ Suc j \<and> unat lpt < 2 * 70000 \<and> 70000 < 2 * unat lpt"
  using timer_calibrate_bounds [of sample_timer "\<lambda>l. 70000 < unat l" 70000, OF _ refl]
  by (simp add: sample_timer_def intr_get_level_def del: power_Suc)

text \<open>
  The calibration can end above the number of loops of a tick: each lower bit is tried on its own, not together with
  the bits already set.
\<close>

theorem timer_calibrate_overshoots:
  assumes on: "intr_get_level k = INTR_ON"
  shows "\<exists>lpt. timer_calibrate (\<lambda>l. 1600 < unat l) k = Some lpt \<and> 1600 < unat lpt"
proof -
  have "double_loop (\<lambda>l. 1600 < unat l) 23 (push_bit 10 1) = Some 1024"
    by code_simp
  moreover have "refine_loop (\<lambda>l. 1600 < unat l) 10 1024 512 1024 = 2046"
    by code_simp
  ultimately show ?thesis using on by (simp add: timer_calibrate_def)
qed

theorem timer_calibrate_overshoots_witness:
  "\<exists>lpt. timer_calibrate (\<lambda>l. 1600 < unat l) sample_timer = Some lpt \<and> 1600 < unat lpt"
  by (rule timer_calibrate_overshoots) (simp add: sample_timer_def intr_get_level_def)

text \<open>
  A sleep never ends before the ticks asked for have passed, and it ends as soon as a reading of the clock shows
  that they have.
\<close>

theorem timer_sleep_waits:
  assumes on: "intr_get_level k = INTR_ON"
    and clock: "sint tks \<le> sint (reading (Suc n) - reading 0)"
  shows "\<exists>i \<le> n. timer_sleep reading tks k = Some i \<and> sint tks \<le> sint (reading (Suc i) - reading 0)
    \<and> (\<forall>j<i. sint (reading (Suc j) - reading 0) < sint tks)"
proof -
  have "\<exists>i \<ge> m. i \<le> n \<and> sleep_loop reading (reading 0) tks m = Some i \<and> sint tks \<le> sint (reading (Suc i) - reading 0)
      \<and> (\<forall>j. m \<le> j \<and> j < i \<longrightarrow> sint (reading (Suc j) - reading 0) < sint tks)" if "m \<le> n" for m
    using that
  proof (induction "n - m" arbitrary: m)
    case 0
    then show ?case using clock by (auto intro!: exI [of _ m] simp: sleep_loop.simps [of _ _ _ m])
  next
    case (Suc d)
    show ?case
    proof (cases "sint (reading (Suc m) - reading 0) < sint tks")
      case True
      have "d = n - Suc m" "Suc m \<le> n" using Suc.hyps by auto
      from Suc.hyps(1) [OF this] obtain i where i: "Suc m \<le> i" "i \<le> n" "sleep_loop reading (reading 0) tks (Suc m) = Some i"
        "sint tks \<le> sint (reading (Suc i) - reading 0)" "\<forall>j. Suc m \<le> j \<and> j < i \<longrightarrow> sint (reading (Suc j) - reading 0) < sint tks"
        by blast
      have "\<forall>j. m \<le> j \<and> j < i \<longrightarrow> sint (reading (Suc j) - reading 0) < sint tks"
        using i(5) True by (metis Suc_leI le_neq_implies_less)
      then show ?thesis using i(1-4) True by (intro exI [of _ i]) (auto simp: sleep_loop.simps [of _ _ _ m])
    next
      case False
      then show ?thesis using Suc.prems by (auto intro!: exI [of _ m] simp: sleep_loop.simps [of _ _ _ m])
    qed
  qed
  from this [of 0] show ?thesis using on by (auto simp: timer_sleep_def)
qed

theorem timer_sleep_waits_witness:
  "\<exists>i \<le> 3. timer_sleep (\<lambda>n. word_of_nat n) 4 sample_timer = Some i \<and> sint (4 :: u64) \<le> sint ((word_of_nat (Suc i) :: u64) - word_of_nat 0)
    \<and> (\<forall>j<i. sint ((word_of_nat (Suc j) :: u64) - word_of_nat 0) < sint (4 :: u64))"
  using timer_sleep_waits [of sample_timer 4 "\<lambda>n. word_of_nat n" 3] by (simp add: sample_timer_def intr_get_level_def)

end
