(* ===== verification/Thread_Create.thy ===== *)
theory Thread_Create
  imports Synch Stdlib
begin

text \<open>
  Creation of threads (\<^verbatim>\<open>threads/thread.c\<close>), with the offsets of the lists and semaphores in
  \<^verbatim>\<open>struct thread\<close>.  The frames that \<^verbatim>\<open>thread_create\<close> builds on the new stack are known by the room that they take.
  An operation that goes to sleep on a lock returns \<open>None\<close> inside, with the state of the next thread.
\<close>

section \<open>Layout\<close>

definition child_list :: "addr \<Rightarrow> addr" where "child_list t = t + 48"
definition thread_sema :: "addr \<Rightarrow> addr" where "thread_sema t = t + 64"
definition main_sema :: "addr \<Rightarrow> addr" where "main_sema t = t + 84"
definition mmf_list :: "addr \<Rightarrow> addr" where "mmf_list t = t + 188"
definition thread_size :: nat where "thread_size = 208"

definition PRI_MIN :: int where "PRI_MIN = 0"
definition PRI_DEFAULT :: int where "PRI_DEFAULT = 31"
definition PRI_MAX :: int where "PRI_MAX = 63"
definition TID_ERROR :: int where "TID_ERROR = -1"

section \<open>Creation\<close>

text \<open>\<^verbatim>\<open>memset\<close> on the structure, as far as links and semaphores are concerned.\<close>

definition zero_struct :: "addr \<Rightarrow> kern \<Rightarrow> kern" where
  "zero_struct t k = (let z = (\<lambda>a. t \<le> a \<and> a < t + thread_size) in
     k\<lparr>lnk := \<lparr>prev_of = (\<lambda>a. if z a then 0 else prev_of (lnk k) a), next_of = (\<lambda>a. if z a then 0 else next_of (lnk k) a)\<rparr>,
       sval := (\<lambda>a. if z a then 0 else sval k a), lock_holder := (\<lambda>a. if z a then 0 else lock_holder k a)\<rparr>)"

definition init_thread :: "addr \<Rightarrow> byte list \<Rightarrow> int \<Rightarrow> kern \<Rightarrow> kern option" where
  "init_thread t nm pri k = do {
     kassert (t \<noteq> NULL);
     kassert (PRI_MIN \<le> pri \<and> pri \<le> PRI_MAX);
     let th = \<lparr>stack = t + 4096, status = THREAD_BLOCKED, tid = 0, name = take 15 nm, priority = pri, pagedir = 0, parent = NULL,
       exec_file = NULL, exit_status = 0, child_num = 0, executable = 0, exec_str = NULL, stack_end = NULL, wait_num = 0,
       magic = THREAD_MAGIC, pt_ready = False, st_ready = False, esp = PHYS_BASE - 4, pwd_ptr = NULL\<rparr>;
     let k = (zero_struct t k)\<lparr>thrs := (thrs k)(t \<mapsto> th)\<rparr>;
     k \<leftarrow> on_lists (\<lambda>h. list_init h (child_list t)) k;
     k \<leftarrow> sema_init (thread_sema t) 0 k;
     k \<leftarrow> sema_init (main_sema t) 0 k;
     on_lists (\<lambda>h. list_init h (mmf_list t)) k }"

definition alloc_frame :: "addr \<Rightarrow> nat \<Rightarrow> kern \<Rightarrow> (addr \<times> kern) option" where
  "alloc_frame t sze k = do {
     kassert (is_thread k t);
     kassert (sze mod 4 = 0);
     k \<leftarrow> upd_thread t (\<lambda>th. th\<lparr>stack := stack th - sze\<rparr>) k;
     th \<leftarrow> thrs k t;
     Some (stack th, k) }"

definition allocate_tid :: "kern \<Rightarrow> (int option \<times> kern) option" where
  "allocate_tid k = do {
     (r, k) \<leftarrow> lock_acquire (tid_lock k) k;
     if r = None then do {
       k \<leftarrow> lock_set_holder (tid_lock k) k;
       let t = next_tid k;
       let k = k\<lparr>next_tid := i32 (next_tid k + 1)\<rparr>;
       k \<leftarrow> lock_release (tid_lock k) k;
       Some (Some t, k) }
     else Some (None, k) }"

definition thread_create :: "byte list \<Rightarrow> int \<Rightarrow> addr \<Rightarrow> kern \<Rightarrow> (int option \<times> kern) option" where
  "thread_create nm pri fn k = do {
     kassert (fn \<noteq> NULL);
     (page, pm') \<leftarrow> palloc_get_page PAL_ZERO (pm k);
     let k = k\<lparr>pm := pm'\<rparr>;
     if page = 0 then Some (Some TID_ERROR, k)
     else do {
       let t = unat page;
       k \<leftarrow> init_thread t nm pri k;
       (r, k) \<leftarrow> allocate_tid k;
       (case r of
         None \<Rightarrow> Some (None, k)
       | Some i \<Rightarrow> do {
           k \<leftarrow> upd_thread t (\<lambda>th. th\<lparr>tid := i\<rparr>) k;
           c \<leftarrow> thread_current k;
           k \<leftarrow> upd_thread t (\<lambda>th. th\<lparr>parent := c\<rparr>) k;
           (_, k) \<leftarrow> alloc_frame t 12 k;
           (_, k) \<leftarrow> alloc_frame t 4 k;
           (_, k) \<leftarrow> alloc_frame t 28 k;
           c \<leftarrow> thread_current k;
           k \<leftarrow> on_lists (\<lambda>h. list_push_back h (child_list c) t) k;
           k \<leftarrow> upd_thread t (\<lambda>th. th\<lparr>pt_ready := True, st_ready := True\<rparr>) k;
           th \<leftarrow> thrs k t;
           k \<leftarrow> upd_thread (parent th) (\<lambda>th. th\<lparr>child_num := i32 (child_num th + 1)\<rparr>) k;
           let k = (if nm = str ''read_ahead'' then k\<lparr>read_ahead_thread := t\<rparr> else k);
           k \<leftarrow> thread_unblock t k;
           Some (Some i, k) }) } }"

definition thread_init :: "kern \<Rightarrow> kern option" where
  "thread_init k = do {
     kassert (intr_get_level k = INTR_OFF);
     k \<leftarrow> lock_init (tid_lock k) k;
     k \<leftarrow> on_lists (\<lambda>h. list_init h (ready_list k)) k;
     let t = running_thread k;
     let k = k\<lparr>initial_thread := t\<rparr>;
     k \<leftarrow> init_thread t (str ''main'') PRI_DEFAULT k;
     k \<leftarrow> set_status t THREAD_RUNNING k;
     (r, k) \<leftarrow> allocate_tid k;
     (case r of
       None \<Rightarrow> Some k
     | Some i \<Rightarrow> upd_thread t (\<lambda>th. th\<lparr>tid := i\<rparr>) k) }"

text \<open>
  \<^verbatim>\<open>thread_start\<close>, with the addresses of its local semaphore and of \<^verbatim>\<open>idle\<close>, up to the \<^verbatim>\<open>sema_down\<close> in which it
  waits for the idle thread.
\<close>

definition thread_start :: "addr \<Rightarrow> addr \<Rightarrow> kern \<Rightarrow> (intr_level option \<times> kern) option" where
  "thread_start idle_started idle_fn k = do {
     k \<leftarrow> sema_init idle_started 0 k;
     (_, k) \<leftarrow> thread_create (str ''idle'') PRI_MIN idle_fn k;
     (_, k) \<leftarrow> intr_enable k;
     sema_down idle_started k }"

text \<open>\<^verbatim>\<open>idle\<close> up to its loop.\<close>

definition idle_start :: "addr \<Rightarrow> kern \<Rightarrow> kern option" where
  "idle_start idle_started k = do {
     t \<leftarrow> thread_current k;
     sema_up idle_started (k\<lparr>idle_thread := t\<rparr>) }"

section \<open>Effect of creation\<close>

lemma zero_struct_fields [simp]:
  "thrs (zero_struct t k) = thrs k" "ready_list (zero_struct t k) = ready_list k" "idle_thread (zero_struct t k) = idle_thread k"
  "initial_thread (zero_struct t k) = initial_thread k" "pm (zero_struct t k) = pm k" "in_external_intr (zero_struct t k) = in_external_intr k"
  "base_page_dir (zero_struct t k) = base_page_dir k" "cur (zero_struct t k) = cur k" "ints (zero_struct t k) = ints k"
  "tid_lock (zero_struct t k) = tid_lock k" "next_tid (zero_struct t k) = next_tid k" "read_ahead_thread (zero_struct t k) = read_ahead_thread k"
  by (simp_all add: zero_struct_def Let_def)

text \<open>What \<^verbatim>\<open>init_thread\<close> changes lies in the structure.\<close>

definition in_struct :: "addr \<Rightarrow> addr \<Rightarrow> bool" where
  "in_struct t a \<longleftrightarrow> t \<le> a \<and> a < t + thread_size"

lemma list_init_outside:
  assumes "l \<noteq> NULL"
  shows "\<exists>h'. list_init h l = Some h' \<and> same_outside h h' {l, l + 8}"
  using list_init_is_list [OF assms, of h] by (auto simp: cells_def head_elem_def tail_elem_def)

lemma init_thread_effect:
  assumes "t \<noteq> NULL" and "PRI_MIN \<le> pri" "pri \<le> PRI_MAX"
  shows "\<exists>th h f g. init_thread t nm pri k = Some (k\<lparr>lnk := h, sval := f, lock_holder := g, thrs := (thrs k)(t \<mapsto> th)\<rparr>)
    \<and> status th = THREAD_BLOCKED \<and> magic th = THREAD_MAGIC \<and> pagedir th = 0 \<and> stack th = t + 4096
    \<and> (\<forall>a. \<not> in_struct t a \<longrightarrow> prev_of h a = prev_of (lnk k) a \<and> next_of h a = next_of (lnk k) a \<and> f a = sval k a \<and> g a = lock_holder k a)"
proof -
  let ?z = "\<lambda>a. in_struct t a"
  define h0 where "h0 = \<lparr>prev_of = (\<lambda>a. if ?z a then 0 else prev_of (lnk k) a), next_of = (\<lambda>a. if ?z a then 0 else next_of (lnk k) a)\<rparr>"
  let ?fz = "\<lambda>a. if ?z a then 0 else sval k a"
  let ?g = "\<lambda>a. if ?z a then 0 else lock_holder k a"
  from list_init_outside [of "child_list t" h0] assms(1) obtain h1 where h1: "list_init h0 (child_list t) = Some h1" "same_outside h0 h1 {child_list t, child_list t + 8}"
    by (auto simp: child_list_def)
  from list_init_outside [of "waiters (thread_sema t)" h1] obtain h2 where
    h2: "list_init h1 (waiters (thread_sema t)) = Some h2" "same_outside h1 h2 {waiters (thread_sema t), waiters (thread_sema t) + 8}"
    by (auto simp: waiters_def)
  from list_init_outside [of "waiters (main_sema t)" h2] obtain h3 where
    h3: "list_init h2 (waiters (main_sema t)) = Some h3" "same_outside h2 h3 {waiters (main_sema t), waiters (main_sema t) + 8}"
    by (auto simp: waiters_def)
  from list_init_outside [of "mmf_list t" h3] obtain h4 where h4: "list_init h3 (mmf_list t) = Some h4" "same_outside h3 h4 {mmf_list t, mmf_list t + 8}"
    by (auto simp: mmf_list_def)
  have out: "prev_of h4 a = prev_of (lnk k) a \<and> next_of h4 a = next_of (lnk k) a" if "\<not> ?z a" for a
  proof -
    have "a \<notin> {child_list t, child_list t + 8}" "a \<notin> {waiters (thread_sema t), waiters (thread_sema t) + 8}"
      "a \<notin> {waiters (main_sema t), waiters (main_sema t) + 8}" "a \<notin> {mmf_list t, mmf_list t + 8}"
      using that by (auto simp: in_struct_def child_list_def waiters_def thread_sema_def main_sema_def mmf_list_def thread_size_def)
    then show ?thesis using h1(2) h2(2) h3(2) h4(2) that by (simp add: same_outside_def h0_def)
  qed
  let ?th = "\<lparr>stack = t + 4096, status = THREAD_BLOCKED, tid = 0, name = take 15 nm, priority = pri, pagedir = 0, parent = NULL,
       exec_file = NULL, exit_status = 0, child_num = 0, executable = 0, exec_str = NULL, stack_end = NULL, wait_num = 0,
       magic = THREAD_MAGIC, pt_ready = False, st_ready = False, esp = PHYS_BASE - 4, pwd_ptr = NULL\<rparr>"
  let ?f = "?fz(thread_sema t := 0, main_sema t := 0)"
  have sn: "thread_sema t \<noteq> NULL" "main_sema t \<noteq> NULL" by (simp_all add: thread_sema_def main_sema_def)
  have z: "zero_struct t k = k\<lparr>lnk := h0, sval := ?fz, lock_holder := ?g\<rparr>" by (simp add: zero_struct_def Let_def h0_def in_struct_def)
  have e: "init_thread t nm pri k = Some (k\<lparr>lnk := h4, sval := ?f, lock_holder := ?g, thrs := (thrs k)(t \<mapsto> ?th)\<rparr>)"
    using assms h1(1) h2(1) h3(1) h4(1) sn unfolding init_thread_def z by (simp add: sema_init_def on_lists_def Let_def)
  have fo: "?f a = sval k a" if "\<not> ?z a" for a
    using that by (auto simp: in_struct_def thread_sema_def main_sema_def thread_size_def)
  show ?thesis
    by (rule exI [of _ ?th], rule exI [of _ h4], rule exI [of _ ?f], rule exI [of _ ?g]) (use e out fo in simp)
qed

lemma intr_set_level_eq: "\<not> in_external_intr k \<Longrightarrow> intr_set_level lvl k = Some (ints k, k\<lparr>ints := lvl\<rparr>)"
  by (cases lvl) (auto simp: intr_set_level_def intr_enable_def intr_disable_def intr_get_level_def intr_context_def)

lemma thread_current_eq:
  "c = cur k \<Longrightarrow> c \<noteq> NULL \<Longrightarrow> thrs k c = Some th \<Longrightarrow> magic th = THREAD_MAGIC \<Longrightarrow> status th = THREAD_RUNNING \<Longrightarrow> thread_current k = Some c"
  by (simp add: thread_current_def running_thread_def is_thread_def)

text \<open>\<^verbatim>\<open>allocate_tid\<close> when nobody has its lock.\<close>

lemma allocate_tid_eq:
  assumes c: "cur k \<noteq> NULL" "thrs k (cur k) = Some th" "magic th = THREAD_MAGIC" "status th = THREAD_RUNNING" and x: "\<not> in_external_intr k"
    and l: "tid_lock k \<noteq> NULL" "sval k (lock_sema (tid_lock k)) = 1" "lock_holder k (tid_lock k) = NULL"
      "list_empty (lnk k) (waiters (lock_sema (tid_lock k))) = Some True"
  shows "allocate_tid k = Some (Some (next_tid k), k\<lparr>next_tid := i32 (next_tid k + 1)\<rparr>)"
proof -
  let ?l = "tid_lock k" and ?s = "lock_sema (tid_lock k)"
  have s0: "?s \<noteq> NULL" by (simp add: lock_sema_def)
  have tc: "thread_current k = Some (cur k)" by (rule thread_current_eq [OF refl c])
  let ?k1 = "k\<lparr>sval := (sval k)(?s := 0)\<rparr>"
  have a: "lock_acquire ?l k = Some (None, ?k1)"
    using tc l c(1) x s0 intr_set_level_eq [of "k\<lparr>ints := INTR_OFF, sval := (sval k)(?s := 0)\<rparr>" "ints k"]
    by (simp add: lock_acquire_def lock_held_by_current_thread_def sema_down_def sema_down_loop_def intr_context_def intr_disable_def intr_get_level_def)
  have tc1: "thread_current ?k1 = Some (cur k)" using tc by (simp add: thread_current_def running_thread_def is_thread_def)
  let ?k2 = "?k1\<lparr>lock_holder := (lock_holder k)(?l := cur k), next_tid := i32 (next_tid k + 1)\<rparr>"
  have tc2: "thread_current ?k2 = Some (cur k)" using tc by (simp add: thread_current_def running_thread_def is_thread_def)
  let ?k3 = "?k2\<lparr>lock_holder := (lock_holder k)(?l := NULL)\<rparr>"
  have "sema_up ?s ?k3 = Some (?k3\<lparr>sval := (sval k)(?s := 1)\<rparr>)"
    using s0 l(4) x intr_set_level_eq [of "?k3\<lparr>ints := INTR_OFF, sval := (sval k)(?s := 1)\<rparr>" "ints k"]
    by (simp add: sema_up_def intr_disable_def intr_get_level_def)
  then have r: "lock_release ?l ?k2 = Some (?k3\<lparr>sval := (sval k)(?s := 1)\<rparr>)"
    using l(1) tc2 by (simp add: lock_release_def lock_drop_holder_def lock_held_by_current_thread_def)
  have "(sval k)(?s := 1) = sval k" "(lock_holder k)(?l := NULL) = lock_holder k" using l by (auto simp: fun_eq_iff)
  then show ?thesis using a tc1 r by (simp add: allocate_tid_def lock_set_holder_def)
qed

lemma upd_thread_eq: "thrs k t = Some th \<Longrightarrow> upd_thread t f k = Some (k\<lparr>thrs := (thrs k)(t \<mapsto> f th)\<rparr>)"
  by (simp add: upd_thread_def)

lemma thread_unblock_eq:
  assumes "t \<noteq> NULL" and "thrs k t = Some th" and "magic th = THREAD_MAGIC" and "status th = THREAD_BLOCKED"
    and "list_push_back (lnk k) (ready_list k) t = Some h" and "\<not> in_external_intr k"
  shows "thread_unblock t k = Some (k\<lparr>lnk := h, thrs := (thrs k)(t \<mapsto> th\<lparr>status := THREAD_READY\<rparr>)\<rparr>)"
  using assms intr_set_level_eq [of "k\<lparr>ints := INTR_OFF, lnk := h, thrs := (thrs k)(t \<mapsto> th\<lparr>status := THREAD_READY\<rparr>)\<rparr>" "ints k"]
  by (simp add: thread_unblock_def is_thread_def intr_disable_def intr_get_level_def on_lists_def set_status_def upd_thread_def)

text \<open>A state in which a thread can be created: the page that the allocator gives, and nobody has the lock of the tids.\<close>

definition can_create :: "kern \<Rightarrow> addr \<Rightarrow> bool" where
  "can_create k b \<longleftrightarrow> b \<noteq> NULL \<and> (\<exists>pm'. palloc_get_page PAL_ZERO (pm k) = Some (of_nat b, pm')) \<and> unat (of_nat b :: u32) = b \<and> b \<noteq> cur k
     \<and> cur k \<noteq> NULL \<and> (\<exists>th. thrs k (cur k) = Some th \<and> magic th = THREAD_MAGIC \<and> status th = THREAD_RUNNING) \<and> \<not> in_external_intr k
     \<and> tid_lock k \<noteq> NULL \<and> sval k (lock_sema (tid_lock k)) = 1 \<and> lock_holder k (tid_lock k) = NULL
     \<and> list_empty (lnk k) (waiters (lock_sema (tid_lock k))) = Some True
     \<and> (\<forall>a \<in> {tid_lock k, lock_sema (tid_lock k), waiters (lock_sema (tid_lock k)), waiters (lock_sema (tid_lock k)) + 8}. \<not> in_struct b a)"

lemma thread_create_eq:
  assumes cc: "can_create k b" and fn: "fn \<noteq> NULL" and pri: "PRI_MIN \<le> pri" "pri \<le> PRI_MAX"
  shows "\<exists>h0. (\<forall>a. \<not> in_struct b a \<longrightarrow> prev_of h0 a = prev_of (lnk k) a \<and> next_of h0 a = next_of (lnk k) a)
    \<and> (\<forall>h1 h2. list_push_back h0 (child_list (cur k)) b = Some h1 \<longrightarrow> list_push_back h1 (ready_list k) b = Some h2 \<longrightarrow>
        (\<exists>k'. thread_create nm pri fn k = Some (Some (next_tid k), k') \<and> lnk k' = h2 \<and> stat k' = (stat k)(b \<mapsto> THREAD_READY)
          \<and> cur k' = cur k \<and> ready_list k' = ready_list k \<and> idle_thread k' = idle_thread k \<and> tid_lock k' = tid_lock k
          \<and> ints k' = ints k \<and> in_external_intr k' = in_external_intr k
          \<and> (\<forall>a. \<not> in_struct b a \<longrightarrow> sval k' a = sval k a \<and> lock_holder k' a = lock_holder k a)
          \<and> (\<forall>t th. t \<noteq> b \<longrightarrow> thrs k t = Some th \<longrightarrow> (\<exists>th'. thrs k' t = Some th' \<and> magic th' = magic th \<and> status th' = status th))
          \<and> (\<exists>th. thrs k' b = Some th \<and> magic th = THREAD_MAGIC) \<and> palloc_get_page PAL_ZERO (pm k) = Some (of_nat b, pm k')))"
proof -
  obtain pm' th where b0: "b \<noteq> NULL" and pg: "palloc_get_page PAL_ZERO (pm k) = Some (of_nat b, pm')" "unat (of_nat b :: u32) = b" and bc: "b \<noteq> cur k"
    and c0: "cur k \<noteq> NULL" and th: "thrs k (cur k) = Some th" "magic th = THREAD_MAGIC" "status th = THREAD_RUNNING" and x: "\<not> in_external_intr k"
    and l: "tid_lock k \<noteq> NULL" "sval k (lock_sema (tid_lock k)) = 1" "lock_holder k (tid_lock k) = NULL"
      "list_empty (lnk k) (waiters (lock_sema (tid_lock k))) = Some True"
    and ns: "\<And>a. a \<in> {tid_lock k, lock_sema (tid_lock k), waiters (lock_sema (tid_lock k)), waiters (lock_sema (tid_lock k)) + 8} \<Longrightarrow> \<not> in_struct b a"
    using cc unfolding can_create_def by blast
  have pb: "(of_nat b :: u32) \<noteq> 0" using pg(2) b0 by auto
  from init_thread_effect [OF b0 pri, of nm "k\<lparr>pm := pm'\<rparr>"] obtain nt h0 f g where
    it: "init_thread b nm pri (k\<lparr>pm := pm'\<rparr>) = Some (k\<lparr>pm := pm', lnk := h0, sval := f, lock_holder := g, thrs := (thrs k)(b \<mapsto> nt)\<rparr>)"
    and nt: "status nt = THREAD_BLOCKED" "magic nt = THREAD_MAGIC" "stack nt = b + 4096"
    and out: "\<And>a. \<not> in_struct b a \<Longrightarrow> prev_of h0 a = prev_of (lnk k) a \<and> next_of h0 a = next_of (lnk k) a \<and> f a = sval k a \<and> g a = lock_holder k a"
    by auto
  let ?k1 = "k\<lparr>pm := pm', lnk := h0, sval := f, lock_holder := g, thrs := (thrs k)(b \<mapsto> nt)\<rparr>"
  have em: "list_empty h0 (waiters (lock_sema (tid_lock k))) = Some True"
    using l(4) out [OF ns [of "waiters (lock_sema (tid_lock k))"]]
    by (auto simp: list_empty_def list_begin_def get_next_def head_elem_def split: if_splits)
  have at: "allocate_tid ?k1 = Some (Some (next_tid k), ?k1\<lparr>next_tid := i32 (next_tid k + 1)\<rparr>)"
    using allocate_tid_eq [of ?k1 th] c0 th bc x l em out [OF ns [of "tid_lock k"]] out [OF ns [of "lock_sema (tid_lock k)"]] by simp
  have "\<exists>k'. thread_create nm pri fn k = Some (Some (next_tid k), k') \<and> lnk k' = h2 \<and> stat k' = (stat k)(b \<mapsto> THREAD_READY)
          \<and> cur k' = cur k \<and> ready_list k' = ready_list k \<and> idle_thread k' = idle_thread k \<and> tid_lock k' = tid_lock k
          \<and> ints k' = ints k \<and> in_external_intr k' = in_external_intr k
          \<and> (\<forall>a. \<not> in_struct b a \<longrightarrow> sval k' a = sval k a \<and> lock_holder k' a = lock_holder k a)
          \<and> (\<forall>t th. t \<noteq> b \<longrightarrow> thrs k t = Some th \<longrightarrow> (\<exists>th'. thrs k' t = Some th' \<and> magic th' = magic th \<and> status th' = status th))
          \<and> (\<exists>th. thrs k' b = Some th \<and> magic th = THREAD_MAGIC) \<and> palloc_get_page PAL_ZERO (pm k) = Some (of_nat b, pm k')"
    if h: "list_push_back h0 (child_list (cur k)) b = Some h1" "list_push_back h1 (ready_list k) b = Some h2" for h1 h2
  proof -
    let ?nt = "nt\<lparr>tid := next_tid k, parent := cur k, stack := 4052 + b, pt_ready := True, st_ready := True\<rparr>"
    let ?ct = "th\<lparr>child_num := i32 (child_num th + 1)\<rparr>"
    let ?k2 = "k\<lparr>pm := pm', sval := f, lock_holder := g, next_tid := i32 (next_tid k + 1), lnk := h1, thrs := (thrs k)(b \<mapsto> ?nt, cur k \<mapsto> ?ct)\<rparr>"
    let ?k3 = "if nm = str ''read_ahead'' then ?k2\<lparr>read_ahead_thread := b\<rparr> else ?k2"
    have tu: "thread_unblock b ?k3 = Some (?k3\<lparr>lnk := h2, thrs := (thrs ?k3)(b \<mapsto> ?nt\<lparr>status := THREAD_READY\<rparr>)\<rparr>)"
      by (rule thread_unblock_eq) (use b0 nt h x bc in auto)
    have cur: "thread_current (k\<lparr>pm := pm', lnk := h, sval := f, lock_holder := g, next_tid := n, thrs := (thrs k)(b \<mapsto> y)\<rparr>) = Some (cur k)" for h n y
      by (rule thread_current_eq [of _ _ th]) (use c0 th bc in auto)
    have isb: "is_thread (k\<lparr>pm := pm', lnk := h, sval := f, lock_holder := g, next_tid := n, thrs := (thrs k)(b \<mapsto> y)\<rparr>) b" if "magic y = THREAD_MAGIC" for h n y
      using b0 that by (simp add: is_thread_def)
    have "thread_create nm pri fn k = Some (Some (next_tid k), ?k3\<lparr>lnk := h2, thrs := (thrs ?k3)(b \<mapsto> ?nt\<lparr>status := THREAD_READY\<rparr>)\<rparr>)"
      using fn pg pb it at nt h tu th bc unfolding thread_create_def
      by (cases "nm = str ''read_ahead''") (simp_all add: upd_thread_eq cur alloc_frame_def isb on_lists_def Let_def)
    then show ?thesis using th bc out nt pg by (auto simp: stat_def fun_eq_iff)
  qed
  then show ?thesis using out by blast
qed

section \<open>A ready thread that is lost\<close>

lemma push_back_eq:
  assumes "l \<noteq> NULL" and "e \<noteq> NULL" and "e \<noteq> l + 8" and "prev_of h (l + 8) = p" and "p \<noteq> NULL" and "next_of h (l + 8) = NULL"
  shows "list_push_back h l e = Some \<lparr>prev_of = (prev_of h)(e := p, l + 8 := e), next_of = (next_of h)(e := l + 8, p := e)\<rparr>"
  using assms by (simp add: list_push_back_def list_end_def tail_elem_def list_insert_def is_tail_def set_prev_def set_next_def)

lemma pop_front_eq:
  assumes "l \<noteq> NULL" and "next_of h l = f" and "f \<noteq> l + 8" and "f \<noteq> NULL" and "prev_of h f = p" "p \<noteq> NULL" and "next_of h f = n" "n \<noteq> NULL" and "f \<noteq> p"
  shows "list_pop_front h l = Some (f, \<lparr>prev_of = (prev_of h)(n := p), next_of = (next_of h)(p := n)\<rparr>)"
  using assms
  by (simp add: list_pop_front_def list_front_def list_empty_def list_begin_def list_end_def head_elem_def tail_elem_def get_next_def
      list_remove_def is_interior_def set_prev_def set_next_def)

lemma list_empty_eq: "l \<noteq> NULL \<Longrightarrow> list_empty h l = Some (next_of h l = l + 8)"
  by (simp add: list_empty_def list_begin_def list_end_def head_elem_def tail_elem_def get_next_def)

lemma empty_links: "is_list h l [] \<Longrightarrow> l \<noteq> NULL \<and> next_of h l = l + 8 \<and> prev_of h (l + 8) = l \<and> prev_of h l = NULL \<and> next_of h (l + 8) = NULL"
  by (simp add: is_list_def dll_def head_elem_def tail_elem_def)

text \<open>The objects that the scenario is about are apart.\<close>

definition apart :: "kern \<Rightarrow> addr \<Rightarrow> addr \<Rightarrow> addr \<Rightarrow> bool" where
  "apart k a b x \<longleftrightarrow> (let rl = ready_list k; cl = child_list (cur k); tw = waiters (lock_sema (tid_lock k)) in
     distinct [rl, rl + 8, cl, cl + 8, a, b, x, tw] \<and> x \<noteq> NULL \<and> x \<noteq> cur k
     \<and> (\<forall>q \<in> {rl, rl + 8, cl, cl + 8, x, tid_lock k, lock_sema (tid_lock k), tw, tw + 8}. \<not> in_struct a q \<and> \<not> in_struct b q)
     \<and> \<not> in_struct a b \<and> \<not> in_struct b a)"

text \<open>The links after the first creation and the wakeup.\<close>

lemma first_child_links:
  assumes rl: "is_list h rl []" and cl: "is_list h cl []" and d: "distinct [rl, rl + 8, cl, cl + 8, a, x, tw]" and nz: "a \<noteq> NULL" "x \<noteq> NULL"
    and same: "\<And>q. q \<in> {rl, rl + 8, cl, cl + 8, tw} \<Longrightarrow> prev_of h0 q = prev_of h q \<and> next_of h0 q = next_of h q"
  shows "\<exists>h1 h2 h3. list_push_back h0 cl a = Some h1 \<and> list_push_back h1 rl a = Some h2 \<and> list_push_back h2 rl x = Some h3
    \<and> next_of h3 rl = a \<and> next_of h3 a = x \<and> next_of h3 x = rl + 8 \<and> next_of h3 (rl + 8) = NULL \<and> prev_of h3 a = rl \<and> prev_of h3 x = a
    \<and> prev_of h3 (rl + 8) = x \<and> prev_of h3 (cl + 8) = a \<and> next_of h3 (cl + 8) = NULL \<and> next_of h3 tw = next_of h tw"
proof -
  note R = empty_links [OF rl] and C = empty_links [OF cl]
  have l: "prev_of h0 (cl + 8) = cl" "next_of h0 (cl + 8) = NULL" "prev_of h0 (rl + 8) = rl" "next_of h0 (rl + 8) = NULL" "next_of h0 rl = rl + 8"
    "next_of h0 tw = next_of h tw" using R C same by simp_all
  let ?h1 = "\<lparr>prev_of = (prev_of h0)(a := cl, cl + 8 := a), next_of = (next_of h0)(a := cl + 8, cl := a)\<rparr>"
  have 1: "list_push_back h0 cl a = Some ?h1" by (rule push_back_eq) (use R C l nz d in auto)
  let ?h2 = "\<lparr>prev_of = (prev_of ?h1)(a := rl, rl + 8 := a), next_of = (next_of ?h1)(a := rl + 8, rl := a)\<rparr>"
  have 2: "list_push_back ?h1 rl a = Some ?h2" by (rule push_back_eq) (use R C l nz d in auto)
  let ?h3 = "\<lparr>prev_of = (prev_of ?h2)(x := a, rl + 8 := x), next_of = (next_of ?h2)(x := rl + 8, a := x)\<rparr>"
  have 3: "list_push_back ?h2 rl x = Some ?h3" by (rule push_back_eq) (use R C l nz d in auto)
  show ?thesis by (rule exI [of _ ?h1], rule exI [of _ ?h2], rule exI [of _ ?h3]) (use 1 2 3 R C l d in auto)
qed

text \<open>The links after the second creation: the ready list skips the thread that was woken.\<close>

lemma second_child_links:
  assumes l: "next_of h rl = a" "next_of h a = x" "next_of h x = rl + 8" "next_of h (rl + 8) = NULL" "prev_of h a = rl" "prev_of h x = a"
      "prev_of h (rl + 8) = x" "prev_of h (cl + 8) = a" "next_of h (cl + 8) = NULL"
    and d: "distinct [rl, rl + 8, cl, cl + 8, a, b, x]" and nz: "a \<noteq> NULL" "b \<noteq> NULL" "x \<noteq> NULL" "rl \<noteq> NULL" "cl \<noteq> NULL"
  shows "\<exists>h1 h2. list_push_back h cl b = Some h1 \<and> list_push_back h1 rl b = Some h2 \<and> list_empty h2 rl = Some False
    \<and> (\<exists>h3. list_pop_front h2 rl = Some (a, h3) \<and> list_empty h3 rl = Some False
        \<and> (\<exists>h4. list_pop_front h3 rl = Some (b, h4) \<and> list_empty h4 rl = Some True))"
proof -
  have n: "rl \<noteq> cl" "rl \<noteq> cl + 8" "rl \<noteq> a" "rl \<noteq> b" "rl \<noteq> x" "rl + 8 \<noteq> cl" "rl + 8 \<noteq> a" "rl + 8 \<noteq> b" "rl + 8 \<noteq> x" "cl \<noteq> a" "cl \<noteq> b" "cl \<noteq> x"
    "cl + 8 \<noteq> a" "cl + 8 \<noteq> b" "cl + 8 \<noteq> x" "a \<noteq> b" "a \<noteq> x" "b \<noteq> x" using d by simp_all
  note n' = n n [symmetric]
  let ?h1 = "\<lparr>prev_of = (prev_of h)(b := a, cl + 8 := b), next_of = (next_of h)(b := cl + 8, a := b)\<rparr>"
  have 1: "list_push_back h cl b = Some ?h1" by (rule push_back_eq) (simp_all add: l nz n' del: One_nat_def)
  let ?h2 = "\<lparr>prev_of = (prev_of ?h1)(b := x, rl + 8 := b), next_of = (next_of ?h1)(b := rl + 8, x := b)\<rparr>"
  have 2: "list_push_back ?h1 rl b = Some ?h2" by (rule push_back_eq) (simp_all add: l nz n' del: One_nat_def)
  let ?h3 = "\<lparr>prev_of = (prev_of ?h2)(b := rl), next_of = (next_of ?h2)(rl := b)\<rparr>"
  have 3: "list_pop_front ?h2 rl = Some (a, ?h3)" by (rule pop_front_eq) (simp_all add: l nz n' del: One_nat_def)
  let ?h4 = "\<lparr>prev_of = (prev_of ?h3)(rl + 8 := rl), next_of = (next_of ?h3)(rl := rl + 8)\<rparr>"
  have 4: "list_pop_front ?h3 rl = Some (b, ?h4)" by (rule pop_front_eq) (simp_all add: l nz n' del: One_nat_def)
  have "list_empty ?h2 rl = Some False" "list_empty ?h3 rl = Some False" "list_empty ?h4 rl = Some True"
    by (simp_all add: list_empty_eq l nz n')
  with 1 2 3 4 show ?thesis by blast
qed

text \<open>
  C13. The element of a thread is in the list of children of its parent and in the ready list at once.  If a thread
  without children creates a thread \<open>a\<close>, wakes a blocked thread \<open>x\<close> and creates a thread \<open>b\<close>, then \<open>x\<close> is
  ready but has fallen out of the ready list: the scheduler takes \<open>a\<close>, then \<open>b\<close>, then the idle thread.
\<close>

theorem thread_create_loses_ready_thread:
  assumes rl: "is_list (lnk k) (ready_list k) []" and cl: "is_list (lnk k) (child_list (cur k)) []"
    and a: "can_create k a" and ap: "apart k a b x"
    and b: "b \<noteq> NULL" "b \<noteq> cur k" "unat (of_nat b :: u32) = b"
      "palloc_get_page PAL_ZERO (pm k) = Some (of_nat a, pm1)" "palloc_get_page PAL_ZERO pm1 = Some (of_nat b, pm2)"
    and x: "thrs k x = Some xth" "magic xth = THREAD_MAGIC" "status xth = THREAD_BLOCKED"
    and n: "fn \<noteq> NULL" "PRI_MIN \<le> pri" "pri \<le> PRI_MAX"
  shows "\<exists>i1 k1 k2 i2 k3 k4 k5. thread_create nm1 pri fn k = Some (Some i1, k1) \<and> thread_unblock x k1 = Some k2
    \<and> thread_create nm2 pri fn k2 = Some (Some i2, k3) \<and> stat k3 x = Some THREAD_READY
    \<and> next_thread_to_run k3 = Some (a, k4) \<and> next_thread_to_run k4 = Some (b, k5) \<and> next_thread_to_run k5 = Some (idle_thread k, k5)"
proof -
  let ?rl = "ready_list k" and ?cl = "child_list (cur k)" and ?tw = "waiters (lock_sema (tid_lock k))"
  have d: "distinct [?rl, ?rl + 8, ?cl, ?cl + 8, a, b, x, ?tw]" and x0: "x \<noteq> NULL" "x \<noteq> cur k"
    and out: "\<And>q. q \<in> {?rl, ?rl + 8, ?cl, ?cl + 8, x, tid_lock k, lock_sema (tid_lock k), ?tw, ?tw + 8} \<Longrightarrow> \<not> in_struct a q \<and> \<not> in_struct b q"
    and ab: "\<not> in_struct a b" "\<not> in_struct b a" using ap unfolding apart_def Let_def by blast+
  have a0: "a \<noteq> NULL" "cur k \<noteq> NULL" and tl: "tid_lock k \<noteq> NULL" "sval k (lock_sema (tid_lock k)) = 1" "lock_holder k (tid_lock k) = NULL"
    "list_empty (lnk k) ?tw = Some True" "\<not> in_external_intr k" and ca: "a \<noteq> cur k" and
    cth: "\<exists>th. thrs k (cur k) = Some th \<and> magic th = THREAD_MAGIC \<and> status th = THREAD_RUNNING" using a unfolding can_create_def by blast+
  have tw0: "?tw \<noteq> NULL" by (simp add: waiters_def)
  have twn: "next_of (lnk k) ?tw = ?tw + 8" using tl(4) list_empty_eq [OF tw0] by simp
  from thread_create_eq [OF a n, of nm1] obtain h0 where h0: "\<And>q. \<not> in_struct a q \<Longrightarrow> prev_of h0 q = prev_of (lnk k) q \<and> next_of h0 q = next_of (lnk k) q"
    and tc1: "\<And>h1 h2. list_push_back h0 ?cl a = Some h1 \<Longrightarrow> list_push_back h1 ?rl a = Some h2 \<Longrightarrow>
        (\<exists>k'. thread_create nm1 pri fn k = Some (Some (next_tid k), k') \<and> lnk k' = h2 \<and> stat k' = (stat k)(a \<mapsto> THREAD_READY)
          \<and> cur k' = cur k \<and> ready_list k' = ?rl \<and> idle_thread k' = idle_thread k \<and> tid_lock k' = tid_lock k
          \<and> ints k' = ints k \<and> in_external_intr k' = in_external_intr k
          \<and> (\<forall>q. \<not> in_struct a q \<longrightarrow> sval k' q = sval k q \<and> lock_holder k' q = lock_holder k q)
          \<and> (\<forall>t th. t \<noteq> a \<longrightarrow> thrs k t = Some th \<longrightarrow> (\<exists>th'. thrs k' t = Some th' \<and> magic th' = magic th \<and> status th' = status th))
          \<and> (\<exists>th. thrs k' a = Some th \<and> magic th = THREAD_MAGIC) \<and> palloc_get_page PAL_ZERO (pm k) = Some (of_nat a, pm k'))" by blast
  have d1: "distinct [?rl, ?rl + 8, ?cl, ?cl + 8, a, x, ?tw]" using d by auto
  have s1: "prev_of h0 q = prev_of (lnk k) q \<and> next_of h0 q = next_of (lnk k) q" if "q \<in> {?rl, ?rl + 8, ?cl, ?cl + 8, ?tw}" for q
    using h0 out [of q] that by auto
  obtain h1 h2 h3 where p1: "list_push_back h0 ?cl a = Some h1" "list_push_back h1 ?rl a = Some h2" "list_push_back h2 ?rl x = Some h3"
    and q: "next_of h3 ?rl = a" "next_of h3 a = x" "next_of h3 x = ?rl + 8" "next_of h3 (?rl + 8) = NULL" "prev_of h3 a = ?rl" "prev_of h3 x = a"
      "prev_of h3 (?rl + 8) = x" "prev_of h3 (?cl + 8) = a" "next_of h3 (?cl + 8) = NULL" "next_of h3 ?tw = next_of (lnk k) ?tw"
    using first_child_links [OF rl cl d1 a0(1) x0(1) s1] by blast
  from tc1 [OF p1(1,2)] obtain k1 where k1: "thread_create nm1 pri fn k = Some (Some (next_tid k), k1)" "lnk k1 = h2" "stat k1 = (stat k)(a \<mapsto> THREAD_READY)"
    "cur k1 = cur k" "ready_list k1 = ?rl" "idle_thread k1 = idle_thread k" "tid_lock k1 = tid_lock k" "in_external_intr k1 = in_external_intr k"
    "\<And>q. \<not> in_struct a q \<Longrightarrow> sval k1 q = sval k q \<and> lock_holder k1 q = lock_holder k q"
    "\<And>t th. t \<noteq> a \<Longrightarrow> thrs k t = Some th \<Longrightarrow> \<exists>th'. thrs k1 t = Some th' \<and> magic th' = magic th \<and> status th' = status th"
    "palloc_get_page PAL_ZERO (pm k) = Some (of_nat a, pm k1)" by blast
  have xa: "x \<noteq> a" using d by auto
  from k1(10) [OF xa x(1)] obtain xt where xt: "thrs k1 x = Some xt" "magic xt = THREAD_MAGIC" "status xt = THREAD_BLOCKED" using x by auto
  let ?k2 = "k1\<lparr>lnk := h3, thrs := (thrs k1)(x \<mapsto> xt\<lparr>status := THREAD_READY\<rparr>)\<rparr>"
  have u: "thread_unblock x k1 = Some ?k2"
    by (rule thread_unblock_eq [OF x0(1) xt]) (use p1(3) k1 tl(5) in simp_all)
  have c1: "\<exists>th. thrs k1 (cur k) = Some th \<and> magic th = THREAD_MAGIC \<and> status th = THREAD_RUNNING" using cth k1(10) ca by metis
  have cb: "can_create ?k2 b"
    unfolding can_create_def
  proof (intro conjI)
    show "\<exists>pm'. palloc_get_page PAL_ZERO (pm ?k2) = Some (of_nat b, pm')" using b(4,5) k1(11) by simp
    show "\<exists>th. thrs ?k2 (cur ?k2) = Some th \<and> magic th = THREAD_MAGIC \<and> status th = THREAD_RUNNING" using c1 k1(4) x0(2) by simp
    show "list_empty (lnk ?k2) (waiters (lock_sema (tid_lock ?k2))) = Some True" using q(10) twn k1(7) list_empty_eq [OF tw0] by simp
    show "\<forall>q \<in> {tid_lock ?k2, lock_sema (tid_lock ?k2), waiters (lock_sema (tid_lock ?k2)), waiters (lock_sema (tid_lock ?k2)) + 8}. \<not> in_struct b q"
      using out k1(7) by simp
    show "sval ?k2 (lock_sema (tid_lock ?k2)) = 1" "lock_holder ?k2 (tid_lock ?k2) = NULL"
      using tl k1(7) k1(9) [of "lock_sema (tid_lock k)"] k1(9) [of "tid_lock k"] out by simp_all
  qed (use b k1 tl a0 in simp_all)
  define k2 where "k2 = ?k2"
  have e: "cur k2 = cur k" "ready_list k2 = ?rl" "idle_thread k2 = idle_thread k" "lnk k2 = h3" by (simp_all add: k2_def k1)
  from thread_create_eq [OF cb n, of nm2, folded k2_def, unfolded e] obtain g0 where
    g0: "\<And>q. \<not> in_struct b q \<Longrightarrow> prev_of g0 q = prev_of h3 q \<and> next_of g0 q = next_of h3 q"
    and tc2: "\<And>g1 g2. list_push_back g0 ?cl b = Some g1 \<Longrightarrow> list_push_back g1 ?rl b = Some g2 \<Longrightarrow>
        (\<exists>k'. thread_create nm2 pri fn k2 = Some (Some (next_tid k2), k') \<and> lnk k' = g2 \<and> stat k' = (stat k2)(b \<mapsto> THREAD_READY)
          \<and> ready_list k' = ?rl \<and> idle_thread k' = idle_thread k)" by blast
  have o: "\<not> in_struct b q" if "q \<in> {?rl, ?rl + 8, ?cl, ?cl + 8, a, x}" for q using out ab that by auto
  have gq: "prev_of g0 q = prev_of h3 q" "next_of g0 q = next_of h3 q" if "q \<in> {?rl, ?rl + 8, ?cl, ?cl + 8, a, x}" for q
    using g0 [OF o [OF that]] by blast+
  have d2: "distinct [?rl, ?rl + 8, ?cl, ?cl + 8, a, b, x]" using d by auto
  have rc: "?rl \<noteq> NULL" "?cl \<noteq> NULL" using is_list_nonnull [OF rl] is_list_nonnull [OF cl] by blast+
  have "\<exists>g1 g2. list_push_back g0 ?cl b = Some g1 \<and> list_push_back g1 ?rl b = Some g2 \<and> list_empty g2 ?rl = Some False
    \<and> (\<exists>g3. list_pop_front g2 ?rl = Some (a, g3) \<and> list_empty g3 ?rl = Some False
        \<and> (\<exists>g4. list_pop_front g3 ?rl = Some (b, g4) \<and> list_empty g4 ?rl = Some True))"
    by (rule second_child_links [OF _ _ _ _ _ _ _ _ _ d2 a0(1) b(1) x0(1) rc]) (simp_all add: gq q)
  then obtain g1 g2 g3 g4 where g: "list_push_back g0 ?cl b = Some g1" "list_push_back g1 ?rl b = Some g2" "list_empty g2 ?rl = Some False"
    "list_pop_front g2 ?rl = Some (a, g3)" "list_empty g3 ?rl = Some False" "list_pop_front g3 ?rl = Some (b, g4)" "list_empty g4 ?rl = Some True" by blast
  from tc2 [OF g(1,2)] obtain k3 where k3: "thread_create nm2 pri fn k2 = Some (Some (next_tid k2), k3)" "lnk k3 = g2"
    "stat k3 = (stat k2)(b \<mapsto> THREAD_READY)" "ready_list k3 = ?rl" "idle_thread k3 = idle_thread k" by blast
  have "stat k3 x = Some THREAD_READY" using k3(3) d by (simp add: stat_def k2_def)
  moreover have "next_thread_to_run k3 = Some (a, k3\<lparr>lnk := g3\<rparr>)" using k3 g by (simp add: next_thread_to_run_def pop_list_def)
  moreover have "next_thread_to_run (k3\<lparr>lnk := g3\<rparr>) = Some (b, k3\<lparr>lnk := g4\<rparr>)" using k3 g by (simp add: next_thread_to_run_def pop_list_def)
  moreover have "next_thread_to_run (k3\<lparr>lnk := g4\<rparr>) = Some (idle_thread k, k3\<lparr>lnk := g4\<rparr>)" using k3 g by (simp add: next_thread_to_run_def)
  ultimately show ?thesis using k1(1) u [folded k2_def] k3(1) by blast
qed

definition boot_heap :: heap where
  "boot_heap = \<lparr>prev_of = (\<lambda>_. 0)(24 := 16, 65592 := 65584, 216 := 208), next_of = (\<lambda>_. 0)(16 := 24, 65584 := 65592, 208 := 216)\<rparr>"

definition boot_thread :: "addr \<Rightarrow> thread_status \<Rightarrow> thread" where
  "boot_thread t st = \<lparr>stack = t + 4096, status = st, tid = 1, name = [], priority = 31, pagedir = 0, parent = NULL, exec_file = NULL,
     exit_status = 0, child_num = 0, executable = 0, exec_str = NULL, stack_end = NULL, wait_num = 0, magic = THREAD_MAGIC,
     pt_ready = True, st_ready = True, esp = 0, pwd_ptr = NULL\<rparr>"

definition boot_kern :: kern where
  "boot_kern = \<lparr>lnk = boot_heap, thrs = [65536 \<mapsto> boot_thread 65536 THREAD_RUNNING, 131072 \<mapsto> boot_thread 131072 THREAD_BLOCKED],
     sval = (\<lambda>_. 0)(204 := 1), lock_holder = (\<lambda>_. NULL), ready_list = 16, tid_lock = 200, cur = 65536, ints = INTR_ON,
     in_external_intr = False, yield_on_return = False, idle_thread = 196608, initial_thread = 65536, read_ahead_thread = NULL,
     idle_ticks = 0, kernel_ticks = 0, user_ticks = 0, thread_ticks = 0, ticks = 0, next_tid = 3, pm = sample_pmem,
     base_page_dir = 0xc0001000, cr3 = 0x1000, tss_esp0 = 69632\<rparr>"

lemma sample_pages:
  obtains pm1 pm2 where "palloc_get_page PAL_ZERO sample_pmem = Some (0xc0101000, pm1)" and "palloc_get_page PAL_ZERO pm1 = Some (0xc0102000, pm2)"
proof -
  have 1: "bitmap_scan_and_flip \<lparr>bit_cnt = 4, bits = [1]\<rparr> 0 1 False = Some (1, \<lparr>bit_cnt = 4, bits = [3]\<rparr>)" by code_simp
  have 2: "bitmap_scan_and_flip \<lparr>bit_cnt = 4, bits = [3]\<rparr> 0 1 False = Some (2, \<lparr>bit_cnt = 4, bits = [7]\<rparr>)" by code_simp
  have f: "\<not> (PAL_ZERO AND PAL_USER \<noteq> 0)" "PAL_ZERO AND PAL_ZERO \<noteq> 0" "1 \<noteq> BITMAP_ERROR" "2 \<noteq> BITMAP_ERROR"
    by (simp_all add: PAL_ZERO_def PAL_USER_def BITMAP_ERROR_def)
  have z: "PAL_ZERO \<noteq> 0" by (simp add: PAL_ZERO_def)
  let ?m1 = "\<lparr>kernel_pool = \<lparr>used_map = \<lparr>bit_cnt = 4, bits = [3]\<rparr>, base = 0xc0100000\<rparr>, user_pool = user_pool sample_pmem,
     mem = mem_fill 0xc0101000 0 (sz (4096 * 1)) (mem sample_pmem)\<rparr>"
  have a: "palloc_get_page PAL_ZERO sample_pmem = Some (0xc0101000, ?m1)"
    by (simp add: palloc_get_page_def palloc_get_multiple_def sample_pmem_def the_pool_def set_pool_def f 1 z PGSIZE_eq del: One_nat_def)
  have "\<exists>m2. palloc_get_page PAL_ZERO ?m1 = Some (0xc0102000, m2)"
    by (simp add: palloc_get_page_def palloc_get_multiple_def the_pool_def set_pool_def f 2 z PGSIZE_eq del: One_nat_def)
  with a that show ?thesis by blast
qed

theorem thread_create_loses_ready_thread_witness:
  "\<exists>i1 k1 k2 i2 k3 k4 k5. thread_create (str ''a'') 31 1 boot_kern = Some (Some i1, k1) \<and> thread_unblock 131072 k1 = Some k2
    \<and> thread_create (str ''b'') 31 1 k2 = Some (Some i2, k3) \<and> stat k3 131072 = Some THREAD_READY
    \<and> next_thread_to_run k3 = Some (3222278144, k4) \<and> next_thread_to_run k4 = Some (3222282240, k5) \<and> next_thread_to_run k5 = Some (196608, k5)"
proof -
  obtain pm1 pm2 where p: "palloc_get_page PAL_ZERO sample_pmem = Some (0xc0101000, pm1)" "palloc_get_page PAL_ZERO pm1 = Some (0xc0102000, pm2)"
    by (rule sample_pages)
  have l: "is_list boot_heap l []" if "l \<in> {16, 65584, 208}" for l
    using that by (auto simp: is_list_def dll_def head_elem_def tail_elem_def boot_heap_def)
  have e: "lnk boot_kern = boot_heap" "ready_list boot_kern = 16" "cur boot_kern = 65536" "pm boot_kern = sample_pmem" "tid_lock boot_kern = 200"
    "idle_thread boot_kern = 196608" "sval boot_kern 204 = 1" "lock_holder boot_kern 200 = NULL" "\<not> in_external_intr boot_kern"
    "thrs boot_kern 65536 = Some (boot_thread 65536 THREAD_RUNNING)" "thrs boot_kern 131072 = Some (boot_thread 131072 THREAD_BLOCKED)"
    by (simp_all add: boot_kern_def)
  have cc: "can_create boot_kern 3222278144"
    using p(1) list_empty_is_list [OF l [of 208]]
    by (simp add: can_create_def e boot_thread_def lock_sema_def waiters_def in_struct_def thread_size_def)
  have ap: "apart boot_kern 3222278144 3222282240 131072"
    by (simp add: apart_def e child_list_def lock_sema_def waiters_def in_struct_def thread_size_def)
  have "\<exists>i1 k1 k2 i2 k3 k4 k5. thread_create (str ''a'') 31 1 boot_kern = Some (Some i1, k1) \<and> thread_unblock 131072 k1 = Some k2
    \<and> thread_create (str ''b'') 31 1 k2 = Some (Some i2, k3) \<and> stat k3 131072 = Some THREAD_READY
    \<and> next_thread_to_run k3 = Some (3222278144, k4) \<and> next_thread_to_run k4 = Some (3222282240, k5) \<and> next_thread_to_run k5 = Some (idle_thread boot_kern, k5)"
    by (rule thread_create_loses_ready_thread [OF _ _ cc ap, of pm1 pm2 "boot_thread 131072 THREAD_BLOCKED"])
      (use l p in \<open>simp_all add: e child_list_def boot_thread_def PRI_MIN_def PRI_MAX_def\<close>)
  then show ?thesis unfolding e .
qed

end
