(* ===== verification/Intq.thy ===== *)
theory Intq
  imports Synch
begin

text \<open>
  \<^verbatim>\<open>devices/intq.c\<close>: the queue of bytes between interrupt handlers and threads, a ring of 64 bytes of which 63 are used.
  A call that has to wait ends, in the model, where the thread goes to sleep: for the lock of the queue or for the
  condition; the thread tests the queue again when it is woken.
\<close>

section \<open>The queue\<close>

definition INTQ_BUFSIZE :: nat where
  "INTQ_BUFSIZE = 64"

record intq =
  q_lock :: addr
  not_full :: addr
  not_empty :: addr
  buf :: "byte list"
  head :: nat
  tail :: nat

datatype 'a outcome = Returns 'a | Sleeps

definition intq_init :: "intq \<Rightarrow> kern \<Rightarrow> (intq \<times> kern) option" where
  "intq_init q k = do {
     k \<leftarrow> lock_init (q_lock q) k;
     Some (q\<lparr>not_full := NULL, not_empty := NULL, head := 0, tail := 0\<rparr>, k) }"

definition next_pos :: "nat \<Rightarrow> nat" where
  "next_pos p = (p + 1) mod INTQ_BUFSIZE"

definition intq_empty :: "intq \<Rightarrow> kern \<Rightarrow> bool option" where
  "intq_empty q k = do { kassert (intr_get_level k = INTR_OFF); Some (head q = tail q) }"

definition intq_full :: "intq \<Rightarrow> kern \<Rightarrow> bool option" where
  "intq_full q k = do { kassert (intr_get_level k = INTR_OFF); Some (next_pos (head q) = tail q) }"

text \<open>\<^verbatim>\<open>wait\<close> and \<^verbatim>\<open>signal\<close> on the member \<^verbatim>\<open>not_empty\<close>, if \<open>e\<close>, or \<^verbatim>\<open>not_full\<close>.\<close>

definition intq_wait :: "bool \<Rightarrow> intq \<Rightarrow> kern \<Rightarrow> (intq \<times> kern) option" where
  "intq_wait e q k = do {
     kassert (\<not> intr_context k);
     kassert (intr_get_level k = INTR_OFF);
     ok \<leftarrow> (if e then intq_empty q k else intq_full q k);
     kassert ok;
     t \<leftarrow> thread_current k;
     k \<leftarrow> thread_block k;
     Some (if e then q\<lparr>not_empty := t\<rparr> else q\<lparr>not_full := t\<rparr>, k) }"

definition intq_signal :: "bool \<Rightarrow> intq \<Rightarrow> kern \<Rightarrow> (intq \<times> kern) option" where
  "intq_signal e q k = do {
     kassert (intr_get_level k = INTR_OFF);
     no \<leftarrow> (if e then intq_empty q k else intq_full q k);
     kassert (\<not> no);
     let waiter = (if e then not_empty q else not_full q);
     if waiter \<noteq> NULL then do {
       k \<leftarrow> thread_unblock waiter k;
       Some (if e then q\<lparr>not_empty := NULL\<rparr> else q\<lparr>not_full := NULL\<rparr>, k) }
     else Some (q, k) }"

text \<open>The body of the loops of \<^verbatim>\<open>intq_getc\<close> and \<^verbatim>\<open>intq_putc\<close>, up to where the thread sleeps.\<close>

definition intq_sleep :: "bool \<Rightarrow> intq \<Rightarrow> kern \<Rightarrow> ('a outcome \<times> intq \<times> kern) option" where
  "intq_sleep e q k = do {
     kassert (\<not> intr_context k);
     (r, k) \<leftarrow> lock_acquire (q_lock q) k;
     if r = None then do {
       k \<leftarrow> lock_set_holder (q_lock q) k;
       (q, k) \<leftarrow> intq_wait e q k;
       Some (Sleeps, q, k) }
     else Some (Sleeps, q, k) }"

definition intq_getc :: "intq \<Rightarrow> kern \<Rightarrow> (byte outcome \<times> intq \<times> kern) option" where
  "intq_getc q k = do {
     kassert (intr_get_level k = INTR_OFF);
     em \<leftarrow> intq_empty q k;
     if em then intq_sleep True q k
     else do {
       b \<leftarrow> arr_get (buf q) (tail q);
       (q, k) \<leftarrow> intq_signal False (q\<lparr>tail := next_pos (tail q)\<rparr>) k;
       Some (Returns b, q, k) } }"

definition intq_putc :: "byte \<Rightarrow> intq \<Rightarrow> kern \<Rightarrow> (unit outcome \<times> intq \<times> kern) option" where
  "intq_putc b q k = do {
     kassert (intr_get_level k = INTR_OFF);
     fu \<leftarrow> intq_full q k;
     if fu then intq_sleep False q k
     else do {
       bs \<leftarrow> arr_set (buf q) (head q) b;
       (q, k) \<leftarrow> intq_signal True (q\<lparr>buf := bs, head := next_pos (head q)\<rparr>) k;
       Some (Returns (), q, k) } }"

section \<open>The queue as a list\<close>

definition ring :: "intq \<Rightarrow> byte list \<Rightarrow> bool" where
  "ring q xs \<longleftrightarrow> length (buf q) = 64 \<and> tail q < 64 \<and> length xs < 64 \<and> head q = (tail q + length xs) mod 64
     \<and> (\<forall>i < length xs. buf q ! ((tail q + i) mod 64) = xs ! i)"

lemma ring_empty: "ring q xs \<Longrightarrow> head q = tail q \<longleftrightarrow> xs = []"
proof -
  assume r: "ring q xs"
  have t: "tail q < 64" "length xs < 64" and h: "head q = (tail q + length xs) mod 64" using r by (auto simp: ring_def)
  have "(tail q + length xs) mod 64 = tail q \<longleftrightarrow> length xs = 0" using t by (cases "tail q + length xs < 64") (auto simp: mod_if)
  then show ?thesis using h by simp
qed

lemma ring_full: "ring q xs \<Longrightarrow> next_pos (head q) = tail q \<longleftrightarrow> length xs = 63"
proof -
  assume r: "ring q xs"
  have t: "tail q < 64" "length xs < 64" and h: "head q = (tail q + length xs) mod 64" using r by (auto simp: ring_def)
  have "(tail q + length xs + 1) mod 64 = tail q \<longleftrightarrow> length xs = 63" using t by (cases "tail q + length xs + 1 < 64") (auto simp: mod_if)
  then show ?thesis using h by (simp add: next_pos_def INTQ_BUFSIZE_def mod_Suc_eq)
qed

lemma ring_put:
  assumes r: "ring q xs" and n: "length xs < 63"
  shows "ring (q\<lparr>buf := (buf q)[head q := b], head := next_pos (head q)\<rparr>) (xs @ [b])"
proof -
  have t: "tail q < 64" "length (buf q) = 64" and h: "head q = (tail q + length xs) mod 64"
    and e: "\<And>i. i < length xs \<Longrightarrow> buf q ! ((tail q + i) mod 64) = xs ! i" using r by (auto simp: ring_def)
  have inj: "(tail q + i) mod 64 \<noteq> (tail q + length xs) mod 64" if "i < length xs" for i
    using t(1) n that by (cases "tail q + i < 64"; cases "tail q + length xs < 64"; simp add: le_mod_geq)
  have "(buf q)[head q := b] ! ((tail q + i) mod 64) = (xs @ [b]) ! i" if "i < length (xs @ [b])" for i
  proof (cases "i = length xs")
    case True
    then show ?thesis using t h by simp
  next
    case False
    then have "i < length xs" using that by simp
    then show ?thesis using not_sym [OF inj] e h by (simp add: nth_append)
  qed
  then show ?thesis using t h n by (auto simp: ring_def next_pos_def INTQ_BUFSIZE_def mod_Suc_eq)
qed

lemma ring_take:
  assumes r: "ring q (x # xs)"
  shows "buf q ! tail q = x" and "ring (q\<lparr>tail := next_pos (tail q)\<rparr>) xs"
proof -
  have t: "tail q < 64" "length (buf q) = 64" "length xs < 63" and h: "head q = (tail q + length (x # xs)) mod 64"
    and e: "\<And>i. i < length (x # xs) \<Longrightarrow> buf q ! ((tail q + i) mod 64) = (x # xs) ! i" using r unfolding ring_def by auto
  show "buf q ! tail q = x" using e [of 0] t by simp
  have "buf q ! ((next_pos (tail q) + i) mod 64) = xs ! i" if "i < length xs" for i
    using e [of "Suc i"] that by (simp add: next_pos_def INTQ_BUFSIZE_def mod_add_left_eq)
  then show "ring (q\<lparr>tail := next_pos (tail q)\<rparr>) xs" using t h by (auto simp: ring_def next_pos_def INTQ_BUFSIZE_def mod_add_left_eq)
qed

text \<open>A queue that no thread waits for, in a kernel with interrupts off.\<close>

definition quiet :: "intq \<times> kern \<Rightarrow> byte list \<Rightarrow> bool" where
  "quiet s xs \<longleftrightarrow> ring (fst s) xs \<and> not_full (fst s) = NULL \<and> not_empty (fst s) = NULL \<and> ints (snd s) = INTR_OFF"

definition put_byte :: "intq \<times> kern \<Rightarrow> byte \<Rightarrow> (intq \<times> kern) option" where
  "put_byte s b = do { (r, q, k) \<leftarrow> intq_putc b (fst s) (snd s); (case r of Returns _ \<Rightarrow> Some (q, k) | Sleeps \<Rightarrow> None) }"

definition take_byte :: "intq \<times> kern \<Rightarrow> (byte \<times> intq \<times> kern) option" where
  "take_byte s = do { (r, q, k) \<leftarrow> intq_getc (fst s) (snd s); (case r of Returns b \<Rightarrow> Some (b, q, k) | Sleeps \<Rightarrow> None) }"

lemma putc_quiet:
  assumes "quiet (q, k) xs" and "length xs < 63"
  shows "intq_putc b q k = Some (Returns (), q\<lparr>buf := (buf q)[head q := b], head := next_pos (head q)\<rparr>, k)"
    and "quiet (q\<lparr>buf := (buf q)[head q := b], head := next_pos (head q)\<rparr>, k) (xs @ [b])"
proof -
  have r: "ring q xs" "not_full q = NULL" "not_empty q = NULL" "ints k = INTR_OFF" using assms(1) by (simp_all add: quiet_def)
  note r' = ring_put [OF r(1) assms(2), of b]
  have h: "head q < length (buf q)" using r(1) by (auto simp: ring_def)
  have "next_pos (head q) \<noteq> tail q" using ring_full [OF r(1)] assms(2) by simp
  then show "intq_putc b q k = Some (Returns (), q\<lparr>buf := (buf q)[head q := b], head := next_pos (head q)\<rparr>, k)"
    using r h ring_empty [OF r'] by (simp add: intq_putc_def intq_full_def intq_signal_def intq_empty_def intr_get_level_def)
  show "quiet (q\<lparr>buf := (buf q)[head q := b], head := next_pos (head q)\<rparr>, k) (xs @ [b])" using r r' by (simp add: quiet_def)
qed

lemma getc_quiet:
  assumes "quiet (q, k) (x # xs)"
  shows "intq_getc q k = Some (Returns x, q\<lparr>tail := next_pos (tail q)\<rparr>, k)" and "quiet (q\<lparr>tail := next_pos (tail q)\<rparr>, k) xs"
proof -
  have r: "ring q (x # xs)" "not_full q = NULL" "not_empty q = NULL" "ints k = INTR_OFF" using assms(1) by (simp_all add: quiet_def)
  note r' = ring_take [OF r(1)]
  have t: "tail q < length (buf q)" using r(1) by (auto simp: ring_def)
  have "length xs \<noteq> 63" using r(1) by (simp add: ring_def)
  then show "intq_getc q k = Some (Returns x, q\<lparr>tail := next_pos (tail q)\<rparr>, k)"
    using r t ring_empty [OF r(1)] ring_full [OF r'(2)] r'(1) by (simp add: intq_getc_def intq_empty_def intq_signal_def intq_full_def intr_get_level_def)
  show "quiet (q\<lparr>tail := next_pos (tail q)\<rparr>, k) xs" using r r' by (simp add: quiet_def)
qed

interpretation iq: fifo quiet "\<lambda>xs _. length xs < 63" put_byte take_byte
proof unfold_locales
  fix s xs e
  assume "quiet s xs" "length xs < 63"
  then show "\<exists>s'. put_byte s e = Some s' \<and> quiet s' (xs @ [e])"
    using putc_quiet [of "fst s" "snd s" xs e] by (simp add: put_byte_def)
next
  fix s x xs
  assume "quiet s (x # xs)"
  then show "\<exists>s'. take_byte s = Some (x, s') \<and> quiet s' xs"
    using getc_quiet [of "fst s" "snd s" x xs] by (simp add: take_byte_def)
qed

section \<open>Properties\<close>

text \<open>
  C36. The ring behaves as a queue: bytes put into it with room for them come out in the same order, behind those that
  were there before, and it is empty afterwards.
\<close>

theorem intq_fifo:
  assumes "quiet s xs" and "length xs + length es \<le> 63"
  shows "\<exists>s' s''. push_all put_byte s es = Some s' \<and> pop_n take_byte (length xs + length es) s' = Some (xs @ es, s'') \<and> quiet s'' []"
proof (rule iq.push_pop_order [OF assms(1)])
  show "rooms (\<lambda>xs _. length xs < 63) xs es" using assms(2) by (induction es arbitrary: xs) auto
qed

definition boot_intq :: intq where
  "boot_intq = \<lparr>q_lock = 100, not_full = NULL, not_empty = NULL, buf = replicate 64 0, head = 5, tail = 5\<rparr>"

definition off_kern :: kern where
  "off_kern = \<lparr>lnk = \<lparr>prev_of = \<lambda>_. 0, next_of = \<lambda>_. 0\<rparr>, thrs = (\<lambda>_. None), sval = (\<lambda>_. 0), lock_holder = (\<lambda>_. NULL), ready_list = 16, tid_lock = 200,
     cur = 65536, ints = INTR_OFF, in_external_intr = True, yield_on_return = False, idle_thread = 196608, initial_thread = 65536,
     read_ahead_thread = NULL, idle_ticks = 0, kernel_ticks = 0, user_ticks = 0, thread_ticks = 0, ticks = 0, next_tid = 3, pm = sample_pmem,
     base_page_dir = 0xc0001000, cr3 = 0x1000, tss_esp0 = 69632\<rparr>"

theorem intq_fifo_witness:
  "\<exists>s' s''. push_all put_byte (boot_intq, off_kern) [1, 2, 3] = Some s' \<and> pop_n take_byte 3 s' = Some ([1, 2, 3], s'') \<and> quiet s'' []"
proof -
  have q: "quiet (boot_intq, off_kern) []" by (simp add: quiet_def ring_def boot_intq_def off_kern_def)
  have n: "length ([] :: byte list) + length [1, 2, 3 :: byte] = 3" by simp
  have "length ([] :: byte list) + length [1, 2, 3 :: byte] \<le> 63" by simp
  from intq_fifo [OF q this, unfolded n append_Nil] show ?thesis .
qed

text \<open>
  In an interrupt handler the queue must have room: a byte put into a full queue, or taken from an empty one,
  fails an assertion instead of waiting.
\<close>

theorem intq_handler_must_not_wait:
  assumes "ring q xs" and "in_external_intr k"
  shows "(length xs = 63 \<longrightarrow> intq_putc b q k = None) \<and> (xs = [] \<longrightarrow> intq_getc q k = None)"
  using ring_full [OF assms(1)] ring_empty [OF assms(1)] assms(2)
  by (auto simp: intq_putc_def intq_getc_def intq_full_def intq_empty_def intq_sleep_def intr_context_def)

theorem intq_handler_must_not_wait_witness:
  "intq_getc boot_intq off_kern = None"
proof -
  have "ring boot_intq []" "in_external_intr off_kern" by (simp_all add: ring_def boot_intq_def off_kern_def)
  from intq_handler_must_not_wait [OF this] show ?thesis by simp
qed

end
