(* ===== verification/Palloc_Page.thy ===== *)
theory Palloc_Page
  imports Palloc
begin

unbundle bit_operations_syntax

text \<open>
  The contract of the page allocator for single pages, and pages as tables of 1024 words: what the clients of
  \<^verbatim>\<open>palloc_get_page\<close> and \<^verbatim>\<open>palloc_free_page\<close> rely on.
\<close>

text \<open>Entry \<open>i\<close> of the table at \<open>t\<close>.\<close>

definition slot :: "vaddr \<Rightarrow> nat \<Rightarrow> vaddr" where
  "slot t i = t + 4 * of_nat i"

text \<open>\<^verbatim>\<open>memcpy\<close> on kernel memory.\<close>

definition mem_copy :: "vaddr \<Rightarrow> vaddr \<Rightarrow> nat \<Rightarrow> kmem \<Rightarrow> kmem" where
  "mem_copy dst src n m = (\<lambda>x. if unat (x - dst) < n then m (src + (x - dst)) else m x)"

section \<open>Words in pages\<close>

definition aligned :: "vaddr \<Rightarrow> bool" where
  "aligned p \<longleftrightarrow> unat p mod 4096 = 0"

lemma aligned_room: "unat p + 4096 \<le> 2 ^ 32" if "aligned p"
proof -
  have "unat p < 2 ^ 32" using unsigned_less [where w = p and 'a = nat] by simp
  then show ?thesis using that by (auto simp: aligned_def)
qed

lemma unat_page_add:
  assumes "aligned p" "n < 4096"
  shows "unat (p + of_nat n) = unat p + n"
proof -
  have "unat (of_nat n :: u32) = n" using assms(2) by (simp add: unat_of_nat)
  then show ?thesis using aligned_room [OF assms(1)] assms(2) unat_add_lem [of p "of_nat n"] by simp
qed

lemma unat_slot:
  assumes "aligned p" "i < 1024" "k < 4"
  shows "unat (slot p i + of_nat k) = unat p + (4 * i + k)"
proof -
  have "slot p i + of_nat k = p + of_nat (4 * i + k)" by (simp add: slot_def)
  then show ?thesis using unat_page_add [OF assms(1), of "4 * i + k"] assms by (simp add: add.assoc)
qed

lemma page_split:
  assumes "4096 * a + x = 4096 * b + y" "x < 4096" "y < (4096 :: nat)"
  shows "a = b \<and> x = y"
proof -
  have "(4096 * a + x) div 4096 = a" "(4096 * b + y) div 4096 = b" using assms(2,3) by simp_all
  then show ?thesis using assms(1) by auto
qed

lemma quad_split:
  assumes "4 * i + k = 4 * j + l" "k < 4" "l < (4 :: nat)"
  shows "i = j \<and> k = l"
  using assms by presburger

lemma slot_eq:
  assumes "aligned p" "aligned q" "i < 1024" "j < 1024" "k < 4" "l < 4"
  shows "slot p i + of_nat k = slot q j + of_nat l \<longleftrightarrow> p = q \<and> i = j \<and> k = l"
proof
  assume "slot p i + of_nat k = slot q j + of_nat l"
  then have e: "unat p + (4 * i + k) = unat q + (4 * j + l)" using unat_slot assms by metis
  obtain a b where ab: "unat p = 4096 * a" "unat q = 4096 * b" using assms(1,2) by (auto simp: aligned_def elim!: dvdE dest!: mod_0_imp_dvd)
  from page_split [OF e [unfolded ab]] assms have "a = b" "4 * i + k = 4 * j + l" by simp_all
  with quad_split [OF this(2) assms(5,6)] ab show "p = q \<and> i = j \<and> k = l" by (simp add: word_unat_eq_iff)
qed simp

lemma load_store_slot:
  assumes "aligned p" "aligned q" "i < 1024" "j < 1024"
  shows "load32 (store32 (slot p i) v m) (slot q j) = (if p = q \<and> i = j then v else load32 m (slot q j))"
proof -
  have n: "slot q j + of_nat k \<noteq> slot p i + of_nat l" if "\<not> (p = q \<and> i = j)" "k < 4" "l < 4" for k l
    using slot_eq [OF assms(2,1) assms(4,3) that(2,3)] that(1) by auto
  show ?thesis
  proof (cases "p = q \<and> i = j")
    case True
    then show ?thesis using un_le32_le32 [of v "[]"] by (simp add: load32_def store32_def le32_def)
  next
    case False
    note n = n [OF False]
    have "store32 (slot p i) v m (slot q j + of_nat k) = m (slot q j + of_nat k)" if "k < 4" for k
      using n [OF that, of 0] n [OF that, of 1] n [OF that, of 2] n [OF that, of 3] by (simp add: store32_def)
    from this [of 0] this [of 1] this [of 2] this [of 3] show ?thesis using False by (auto simp: load32_def)
  qed
qed

section \<open>Single pages\<close>

definition bases :: "pmem \<Rightarrow> vaddr \<times> vaddr" where
  "bases m = (base (kernel_pool m), base (user_pool m))"

text \<open>Both pools lie in kernel space.\<close>

definition pools_high :: "pmem \<Rightarrow> bool" where
  "pools_high m \<longleftrightarrow> palloc_ok m \<and> PHYS_BASE \<le> base (kernel_pool m)"

text \<open>Address \<open>x\<close> is in the page at \<open>a\<close>.\<close>

definition on_page :: "vaddr \<Rightarrow> vaddr \<Rightarrow> bool" where
  "on_page a x \<longleftrightarrow> unat (x - a) < 4096"

lemma bases_set_pool [simp]: "bases (set_pool u (p\<lparr>used_map := b\<rparr>) m) = bases m" if "p = the_pool u m"
  using that by (simp add: bases_def set_pool_def the_pool_def)

lemma bases_mem [simp]: "bases (m\<lparr>mem := f\<rparr>) = bases m"
  by (simp add: bases_def)

lemma palloc_get_bases:
  assumes "palloc_get_multiple flags n m = Some (a, m')"
  shows "bases m' = bases m"
proof (cases "n = 0")
  case True
  then show ?thesis using assms by (simp add: palloc_get_multiple_def Let_def)
next
  case False
  let ?p = "the_pool (flags AND PAL_USER \<noteq> 0) m"
  obtain i b where "bitmap_scan_and_flip (used_map ?p) 0 n False = Some (i, b)"
    using assms False by (cases "bitmap_scan_and_flip (used_map ?p) 0 n False") (auto simp: palloc_get_multiple_def Let_def)
  then show ?thesis using assms False by (auto simp: palloc_get_multiple_def Let_def split: if_splits)
qed

lemma palloc_free_bases:
  assumes "palloc_free_multiple a n m = Some m'"
  shows "bases m' = bases m"
  using assms unfolding palloc_free_multiple_def Let_def
  by (auto split: if_splits option_bind_splits)

lemma in_use_page:
  assumes "pools_high m" "in_use m a"
  shows "a \<noteq> 0" "aligned a" "pg_ofs a = 0" "is_kernel_vaddr a"
proof -
  obtain u i where a: "i < bit_cnt (used_map (the_pool u m))" "a = page_at (the_pool u m) i" using assms(2) by (auto simp: in_use_def)
  have ok: "pool_ok (the_pool u m)" using the_pool_ok assms(1) by (simp add: pools_high_def)
  have i: "i \<le> bit_cnt (used_map (the_pool u m))" using a by simp
  show "a \<noteq> 0" "pg_ofs a = 0" unfolding a by (rule page_at_nonnull [OF ok i], rule page_at_aligned [OF ok i])
  then show "aligned a" using pg_ofs_mod [of a] by (simp add: aligned_def)
  have "unat PHYS_BASE \<le> unat (base (the_pool u m))"
    using assms(1) by (cases u) (auto simp: pools_high_def palloc_ok_def the_pool_def pool_end_def word_le_nat_alt)
  then show "is_kernel_vaddr a" using unat_page_at [OF ok i] by (simp add: a is_kernel_vaddr_def word_le_nat_alt)
qed

lemma palloc_get_page_cases:
  assumes hi: "pools_high m" and f: "flags AND PAL_ASSERT = 0"
  shows "(\<exists>a m'. palloc_get_page flags m = Some (a, m') \<and> a \<noteq> 0 \<and> pools_high m' \<and> \<not> in_use m a \<and> (\<forall>x. in_use m' x \<longleftrightarrow> x = a \<or> in_use m x)
      \<and> (\<forall>x. mem m' x = (if flags AND PAL_ZERO \<noteq> 0 \<and> on_page a x then 0 else mem m x)))
    \<or> palloc_get_page flags m = Some (0, m)"
proof -
  have ok: "palloc_ok m" using hi by (simp add: pools_high_def)
  let ?p = "the_pool (flags AND PAL_USER \<noteq> 0) m"
  have one: "pages_from a 1 = {a}" for a by (auto simp: pages_from_def)
  show ?thesis
  proof (cases "palloc_get_multiple flags 1 m = Some (0, m)")
    case False
    with palloc_get_cases [OF ok one_neq_zero [where 'a = nat] refl, of flags] f obtain i m' where
      i: "i + 1 \<le> bit_cnt (used_map ?p)" "palloc_get_multiple flags 1 m = Some (page_at ?p i, m')" "palloc_ok m'"
        "\<forall>k < 1. \<not> in_use m (page_at ?p (i + k))" "\<forall>x. in_use m' x \<longleftrightarrow> x \<in> pages_from (page_at ?p i) 1 \<or> in_use m x"
        "\<forall>x. mem m' x = (if flags AND PAL_ZERO \<noteq> 0 \<and> unat (x - page_at ?p i) < 4096 * 1 then 0 else mem m x)" by auto
    have "page_at ?p i \<noteq> 0" by (rule page_at_nonnull [OF the_pool_ok [OF ok]]) (use i in simp)
    moreover have "pools_high m'" using palloc_get_bases [OF i(2)] hi i(3) by (simp add: pools_high_def bases_def)
    moreover have "\<not> in_use m (page_at ?p i)" using i(4) by simp
    ultimately show ?thesis using i(2,5,6) one by (auto simp: palloc_get_page_def on_page_def)
  qed (simp add: palloc_get_page_def)
qed

lemma palloc_free_page_fills:
  assumes hi: "pools_high m" and a: "in_use m a"
  shows "\<exists>m'. palloc_free_page a m = Some m' \<and> pools_high m' \<and> (\<forall>x. in_use m' x \<longleftrightarrow> x \<noteq> a \<and> in_use m x)
    \<and> (\<forall>x. mem m' x = (if on_page a x then 0xcc else mem m x))"
proof -
  have ok: "palloc_ok m" using hi by (simp add: pools_high_def)
  obtain u i where i: "i < bit_cnt (used_map (the_pool u m))" "a = page_at (the_pool u m) i" using a by (auto simp: in_use_def)
  from palloc_free_cases [OF ok one_neq_zero [where 'a = nat] refl i(1)] i a obtain m' where
    m': "palloc_free_multiple a 1 m = Some m'" "palloc_ok m'" "\<forall>x. in_use m' x \<longleftrightarrow> x \<notin> pages_from a 1 \<and> in_use m x"
      "\<forall>x. mem m' x = (if unat (x - a) < 4096 then 0xcc else mem m x)" by auto
  have "pools_high m'" using palloc_free_bases [OF m'(1)] hi m'(2) by (simp add: pools_high_def bases_def)
  then show ?thesis using m' by (auto simp: palloc_free_page_def on_page_def pages_from_def)
qed

lemma palloc_free_page_unused:
  assumes "palloc_ok m" "\<not> in_use m a" "a \<noteq> 0"
  shows "palloc_free_page a m = None"
proof (cases "\<exists>u i. i < bit_cnt (used_map (the_pool u m)) \<and> a = page_at (the_pool u m) i")
  case True
  then obtain u i where i: "i < bit_cnt (used_map (the_pool u m))" "a = page_at (the_pool u m) i" by blast
  from palloc_free_cases [OF assms(1) one_neq_zero [where 'a = nat] refl i(1)] i assms(2) show ?thesis
    by (auto simp: palloc_free_page_def)
next
  case False
  then have "\<not> page_from_pool (the_pool u m) a" if "pg_ofs a = 0" for u
    using page_from_pool_iff [OF the_pool_ok [OF assms(1)] that, of u] by blast
  from this [of False] this [of True] show ?thesis using assms(3)
    by (auto simp: palloc_free_page_def palloc_free_multiple_def the_pool_def)
qed

section \<open>Separate pages\<close>

lemma on_page_add:
  assumes "aligned a" "aligned b" "n < 4096"
  shows "on_page a (b + of_nat n) \<longleftrightarrow> a = b"
proof
  assume o: "on_page a (b + of_nat n)"
  define r where "r = unat (b + of_nat n - a)"
  have "r < 4096" using o by (simp add: r_def on_page_def)
  moreover have "b + of_nat n = a + of_nat r" by (simp add: r_def)
  then have "unat b + n = unat a + r" using unat_page_add [OF assms(2,3)] unat_page_add [OF assms(1) \<open>r < 4096\<close>] by simp
  moreover obtain x y where xy: "unat a = 4096 * x" "unat b = 4096 * y" using assms(1,2) by (auto simp: aligned_def elim!: dvdE dest!: mod_0_imp_dvd)
  ultimately have "x = y" using page_split [of y n x r] assms(3) by simp
  then show "a = b" using xy by (simp add: word_unat_eq_iff)
qed (use assms(3) in \<open>simp add: on_page_def unat_of_nat\<close>)

lemma on_page_unique:
  assumes "aligned a" "aligned b" "on_page a x" "on_page b x"
  shows "a = b"
proof -
  define n where "n = unat (x - b)"
  have "n < 4096" "x = b + of_nat n" using assms(4) by (simp_all add: n_def on_page_def)
  then show ?thesis using on_page_add [OF assms(1,2)] assms(3) by blast
qed

lemma on_page_slot:
  assumes "aligned a" "aligned b" "i < 1024" "k < 4"
  shows "on_page a (slot b i + of_nat k) \<longleftrightarrow> a = b"
  using on_page_add [OF assms(1,2), of "4 * i + k"] assms by (simp add: slot_def add.assoc)

text \<open>A word of a table is read from its page only.\<close>

lemma load_agree:
  assumes "aligned t" "i < 1024" "\<And>x. on_page t x \<Longrightarrow> m x = m' x"
  shows "load32 m (slot t i) = load32 m' (slot t i)"
proof -
  have "m (slot t i + of_nat k) = m' (slot t i + of_nat k)" if "k < 4" for k
    by (rule assms(3)) (simp add: on_page_slot [OF assms(1,1,2) that])
  from this [of 0] this [of 1] this [of 2] this [of 3] show ?thesis by (simp add: load32_def)
qed

lemma load_zero:
  assumes "aligned t" "i < 1024" "\<And>x. on_page t x \<Longrightarrow> m x = 0"
  shows "load32 m (slot t i) = 0"
  using load_agree [of t i m "\<lambda>_. 0"] assms by (simp add: load32_def un_le32_def)

lemma load_other_page:
  assumes "aligned t" "aligned a" "t \<noteq> a" "i < 1024" "\<And>x. \<not> on_page a x \<Longrightarrow> m x = m' x"
  shows "load32 m (slot t i) = load32 m' (slot t i)"
  by (rule load_agree [OF assms(1,4)]) (use assms(3,5) on_page_unique [OF assms(2,1)] in blast)

end
