(* ===== verification/Pagedir.thy ===== *)
theory Pagedir
  imports Thread Palloc_Page
begin

unbundle bit_operations_syntax

text \<open>
  \<^verbatim>\<open>userprog/pagedir.c\<close>: two-level page tables in kernel memory.  Page directories and page tables are pages of the
  allocator, read and written as 32-bit words of memory.  \<^verbatim>\<open>base_page_dir\<close> and the register that points to the
  active directory are in the state of the kernel; the translation buffer of the processor is not modelled, so that
  \<^verbatim>\<open>invalidate_pagedir\<close> only reloads the register.
\<close>

section \<open>Operations\<close>

definition store_pte :: "vaddr \<Rightarrow> u32 \<Rightarrow> pmem \<Rightarrow> pmem" where
  "store_pte a e m = m\<lparr>mem := store32 a e (mem m)\<rparr>"

definition pagedir_create :: "kern \<Rightarrow> (vaddr \<times> kern) option" where
  "pagedir_create k = do {
     (pd, m) \<leftarrow> palloc_get_page 0 (pm k);
     let m = (if pd \<noteq> 0 then m\<lparr>mem := mem_copy pd (base_page_dir k) 4096 (mem m)\<rparr> else m);
     Some (pd, k\<lparr>pm := m\<rparr>) }"

text \<open>The loops of \<^verbatim>\<open>pagedir_destroy\<close> over the entries of a page table and over the directory.\<close>

definition free_pages_of :: "vaddr \<Rightarrow> pmem \<Rightarrow> pmem option" where
  "free_pages_of pt = for_loop 0 1024 (\<lambda>j m. (
     let pte = load32 (mem m) (slot pt j) in
     if pte AND PTE_P \<noteq> 0 then do { page \<leftarrow> pte_get_page pte; palloc_free_page page m } else Some m))"

definition free_tables_of :: "vaddr \<Rightarrow> pmem \<Rightarrow> pmem option" where
  "free_tables_of pd = for_loop 0 (unat (pd_no PHYS_BASE)) (\<lambda>i m. (
     let pde = load32 (mem m) (slot pd i) in
     if pde AND PTE_P \<noteq> 0 then do { pt \<leftarrow> pde_get_pt pde; m \<leftarrow> free_pages_of pt m; palloc_free_page pt m } else Some m))"

definition pagedir_destroy :: "vaddr \<Rightarrow> kern \<Rightarrow> kern option" where
  "pagedir_destroy pd k =
     (if pd = 0 then Some k
      else do {
        kassert (pd \<noteq> base_page_dir k);
        m \<leftarrow> free_tables_of pd (pm k);
        m \<leftarrow> palloc_free_page pd m;
        Some (k\<lparr>pm := m\<rparr>) })"

text \<open>\<^verbatim>\<open>lookup_page\<close>; address 0 is the null pointer.\<close>

definition lookup_page :: "vaddr \<Rightarrow> vaddr \<Rightarrow> bool \<Rightarrow> pmem \<Rightarrow> (vaddr \<times> pmem) option" where
  "lookup_page pd va create m = do {
     kassert (pd \<noteq> 0);
     kassert (\<not> create \<or> is_user_vaddr va);
     let pde = slot pd (unat (pd_no va));
     (found, m) \<leftarrow>
       (if load32 (mem m) pde = 0 then
          if create then do {
            (pt, m) \<leftarrow> palloc_get_page PAL_ZERO m;
            if pt = 0 then Some (False, m)
            else do { e \<leftarrow> pde_create pt; Some (True, store_pte pde e m) } }
          else Some (False, m)
        else Some (True, m));
     if found then do { pt \<leftarrow> pde_get_pt (load32 (mem m) pde); Some (slot pt (unat (pt_no va)), m) }
     else Some (0, m) }"

definition pagedir_set_page :: "u32 \<Rightarrow> vaddr \<Rightarrow> vaddr \<Rightarrow> vaddr \<Rightarrow> bool \<Rightarrow> kern \<Rightarrow> (bool \<times> kern) option" where
  "pagedir_set_page ram_pages pd upage kpage writable k = do {
     kassert (pg_ofs upage = 0);
     kassert (pg_ofs kpage = 0);
     kassert (is_user_vaddr upage);
     pa \<leftarrow> vtop kpage;
     kassert (drop_bit PGBITS pa < ram_pages);
     kassert (pd \<noteq> base_page_dir k);
     (pte, m) \<leftarrow> lookup_page pd upage True (pm k);
     if pte \<noteq> 0 then do {
       kassert (load32 (mem m) pte AND PTE_P = 0);
       e \<leftarrow> pte_create_user kpage writable;
       Some (True, k\<lparr>pm := store_pte pte e m\<rparr>) }
     else Some (False, k\<lparr>pm := m\<rparr>) }"

definition pagedir_get_page :: "vaddr \<Rightarrow> vaddr \<Rightarrow> kern \<Rightarrow> vaddr option" where
  "pagedir_get_page pd uaddr k = do {
     kassert (is_user_vaddr uaddr);
     (pte, m) \<leftarrow> lookup_page pd uaddr False (pm k);
     if pte \<noteq> 0 \<and> load32 (mem m) pte AND PTE_P \<noteq> 0
     then do { page \<leftarrow> pte_get_page (load32 (mem m) pte); Some (page + pg_ofs uaddr) }
     else Some 0 }"

definition active_pd :: "kern \<Rightarrow> vaddr option" where
  "active_pd k = ptov (cr3 k)"

definition invalidate_pagedir :: "vaddr \<Rightarrow> kern \<Rightarrow> kern option" where
  "invalidate_pagedir pd k = do {
     a \<leftarrow> active_pd k;
     if a = pd then pagedir_activate pd k else Some k }"

definition pagedir_clear_page :: "vaddr \<Rightarrow> vaddr \<Rightarrow> kern \<Rightarrow> kern option" where
  "pagedir_clear_page pd upage k = do {
     kassert (pg_ofs upage = 0);
     kassert (is_user_vaddr upage);
     (pte, m) \<leftarrow> lookup_page pd upage False (pm k);
     if pte \<noteq> 0 \<and> load32 (mem m) pte AND PTE_P \<noteq> 0
     then invalidate_pagedir pd (k\<lparr>pm := store_pte pte (load32 (mem m) pte AND NOT PTE_P) m\<rparr>)
     else Some (k\<lparr>pm := m\<rparr>) }"

definition pagedir_is_dirty :: "vaddr \<Rightarrow> vaddr \<Rightarrow> kern \<Rightarrow> bool option" where
  "pagedir_is_dirty pd vpage k = do {
     (pte, m) \<leftarrow> lookup_page pd vpage False (pm k);
     Some (pte \<noteq> 0 \<and> load32 (mem m) pte AND PTE_D \<noteq> 0) }"

definition pagedir_set_dirty :: "vaddr \<Rightarrow> vaddr \<Rightarrow> bool \<Rightarrow> kern \<Rightarrow> kern option" where
  "pagedir_set_dirty pd vpage dirty k = do {
     (pte, m) \<leftarrow> lookup_page pd vpage False (pm k);
     if pte \<noteq> 0 then
       if dirty then Some (k\<lparr>pm := store_pte pte (load32 (mem m) pte OR PTE_D) m\<rparr>)
       else invalidate_pagedir pd (k\<lparr>pm := store_pte pte (load32 (mem m) pte AND NOT PTE_D) m\<rparr>)
     else Some (k\<lparr>pm := m\<rparr>) }"

definition pagedir_is_accessed :: "vaddr \<Rightarrow> vaddr \<Rightarrow> kern \<Rightarrow> bool option" where
  "pagedir_is_accessed pd vpage k = do {
     (pte, m) \<leftarrow> lookup_page pd vpage False (pm k);
     Some (pte \<noteq> 0 \<and> load32 (mem m) pte AND PTE_A \<noteq> 0) }"

definition pagedir_set_accessed :: "vaddr \<Rightarrow> vaddr \<Rightarrow> bool \<Rightarrow> kern \<Rightarrow> kern option" where
  "pagedir_set_accessed pd vpage accessed k = do {
     (pte, m) \<leftarrow> lookup_page pd vpage False (pm k);
     if pte \<noteq> 0 then
       if accessed then Some (k\<lparr>pm := store_pte pte (load32 (mem m) pte OR PTE_A) m\<rparr>)
       else invalidate_pagedir pd (k\<lparr>pm := store_pte pte (load32 (mem m) pte AND NOT PTE_A) m\<rparr>)
     else Some (k\<lparr>pm := m\<rparr>) }"

section \<open>Page directories in memory\<close>

definition pt_addr :: "u32 \<Rightarrow> vaddr" where
  "pt_addr e = (e AND PTE_ADDR) + PHYS_BASE"

definition pde :: "pmem \<Rightarrow> vaddr \<Rightarrow> nat \<Rightarrow> u32" where
  "pde m pd i = load32 (mem m) (slot pd i)"

definition pde_of :: "pmem \<Rightarrow> vaddr \<Rightarrow> vaddr \<Rightarrow> u32" where
  "pde_of m pd va = pde m pd (unat (pd_no va))"

text \<open>The page table entry of an address, 0 if there is no page table.\<close>

definition pte_of :: "pmem \<Rightarrow> vaddr \<Rightarrow> vaddr \<Rightarrow> u32" where
  "pte_of m pd va = (if pde_of m pd va = 0 then 0 else load32 (mem m) (slot (pt_addr (pde_of m pd va)) (unat (pt_no va))))"

text \<open>
  A directory in order: it is an allocated page, and each entry in its user part is 0 or points to an allocated page,
  a different one for each entry.
\<close>

definition tables :: "pmem \<Rightarrow> vaddr \<Rightarrow> vaddr set" where
  "tables m pd = (\<lambda>i. pt_addr (pde m pd i)) ` {i. i < 768 \<and> pde m pd i \<noteq> 0}"

definition pd_ok :: "pmem \<Rightarrow> vaddr \<Rightarrow> bool" where
  "pd_ok m pd \<longleftrightarrow> pools_high m \<and> in_use m pd
     \<and> (\<forall>i < 768. pde m pd i \<noteq> 0 \<longrightarrow> pde m pd i AND PTE_P \<noteq> 0 \<and> in_use m (pt_addr (pde m pd i)) \<and> pt_addr (pde m pd i) \<noteq> pd)
     \<and> inj_on (\<lambda>i. pt_addr (pde m pd i)) {i. i < 768 \<and> pde m pd i \<noteq> 0}"

lemma pd_no_user: "is_user_vaddr va \<Longrightarrow> unat (pd_no va) < 768"
  by (simp add: is_user_vaddr_def PHYS_BASE_def pd_no_div word_less_nat_alt)

lemma pt_no_less: "unat (pt_no va) < 1024"
  by (simp add: pt_no_div_mod)

lemma same_page_iff: "pd_no va = pd_no vb \<and> pt_no va = pt_no vb \<longleftrightarrow> pg_no va = pg_no vb"
proof -
  have "unat (pd_no x) = unat (pg_no x) div 1024 \<and> unat (pt_no x) = unat (pg_no x) mod 1024" for x
    by (simp add: pd_no_div pt_no_div_mod pg_no_div flip: div_mult2_eq)
  then show ?thesis by (metis div_mult_mod_eq word_unat_eq_iff)
qed

lemma pd_okD:
  assumes "pd_ok m pd"
  shows "pools_high m" "in_use m pd" "aligned pd" "pd \<noteq> 0"
  using assms in_use_page [of m pd] by (auto simp: pd_ok_def)

lemma pd_ok_table:
  assumes "pd_ok m pd" "i < 768" "pde m pd i \<noteq> 0"
  shows "in_use m (pt_addr (pde m pd i))" "aligned (pt_addr (pde m pd i))" "pt_addr (pde m pd i) \<noteq> pd"
    and "pde_get_pt (pde m pd i) = Some (pt_addr (pde m pd i))" "pde m pd i AND PTE_P \<noteq> 0"
proof -
  show u: "in_use m (pt_addr (pde m pd i))" "pt_addr (pde m pd i) \<noteq> pd" and p: "pde m pd i AND PTE_P \<noteq> 0"
    using assms by (auto simp: pd_ok_def)
  note k = in_use_page [OF pd_okD(1) [OF assms(1)] u(1)]
  show "aligned (pt_addr (pde m pd i))" by (rule k)
  have "ptov (pt_addr (pde m pd i) - PHYS_BASE) = Some (pt_addr (pde m pd i))" by (rule ptov_kernel [OF k(4)])
  then show "pde_get_pt (pde m pd i) = Some (pt_addr (pde m pd i))" using p by (simp add: pde_get_pt_def pt_addr_def)
qed

lemma slot_nonnull:
  assumes "aligned p" "p \<noteq> 0" "i < 1024"
  shows "slot p i \<noteq> 0"
  using unat_slot [OF assms(1,3), of 0] assms(2) by (auto simp: unat_eq_0)

lemma lookup_found:
  assumes "pd_ok m pd" "is_user_vaddr va" "pde_of m pd va \<noteq> 0"
  shows "lookup_page pd va create m = Some (slot (pt_addr (pde_of m pd va)) (unat (pt_no va)), m)"
  using pd_ok_table(4) [OF assms(1) pd_no_user [OF assms(2)]] pd_okD(4) [OF assms(1)] assms(2,3)
  by (simp add: lookup_page_def pde_of_def pde_def)

lemma lookup_missing:
  assumes "pd_ok m pd" "pde_of m pd va = 0"
  shows "lookup_page pd va False m = Some (0, m)"
  using pd_okD(4) [OF assms(1)] assms(2) by (simp add: lookup_page_def pde_of_def pde_def)

lemma lookup_nonnull:
  assumes "pd_ok m pd" "is_user_vaddr va" "pde_of m pd va \<noteq> 0"
  shows "slot (pt_addr (pde_of m pd va)) (unat (pt_no va)) \<noteq> 0"
proof -
  note t = pd_ok_table [OF assms(1) pd_no_user [OF assms(2)], folded pde_of_def, OF assms(3)]
  show ?thesis by (rule slot_nonnull [OF t(2) _ pt_no_less]) (use in_use_page(1) [OF pd_okD(1) [OF assms(1)] t(1)] in simp)
qed

text \<open>A write of a page table entry.\<close>

lemma store_pte_simps [simp]:
  "in_use (store_pte a e m) x = in_use m x" "pools_high (store_pte a e m) = pools_high m" "mem (store_pte a e m) = store32 a e (mem m)"
  by (simp_all add: store_pte_def pools_high_def)

lemma store_pte_ok:
  assumes ok: "pd_ok m pd" and va: "is_user_vaddr va" and t: "pde_of m pd va \<noteq> 0"
    and m': "m' = store_pte (slot (pt_addr (pde_of m pd va)) (unat (pt_no va))) e m"
  shows "pd_ok m' pd" "tables m' pd = tables m pd"
    and "is_user_vaddr vb \<Longrightarrow> pte_of m' pd vb = (if pg_no vb = pg_no va then e else pte_of m pd vb)"
proof -
  let ?i = "unat (pd_no va)"
  have i: "?i < 768" by (rule pd_no_user [OF va])
  note T = pd_ok_table [OF ok i, folded pde_of_def, OF t]
  have mm: "mem m' = store32 (slot (pt_addr (pde_of m pd va)) (unat (pt_no va))) e (mem m)" by (simp add: m')
  have p: "pde m' pd j = pde m pd j" if "j < 768" for j
    using load_store_slot [OF T(2) pd_okD(3) [OF ok] pt_no_less [of va], of j e "mem m"] T(3) that mm by (simp add: pde_def)
  then have p1: "pde_of m' pd v = pde_of m pd v" if "is_user_vaddr v" for v using pd_no_user [OF that] by (simp add: pde_of_def)
  have s: "{j. j < 768 \<and> pde m' pd j \<noteq> 0} = {j. j < 768 \<and> pde m pd j \<noteq> 0}" using p by auto
  have inj: "inj_on (\<lambda>i. pt_addr (pde m pd i)) {i. i < 768 \<and> pde m pd i \<noteq> 0}" using ok by (simp add: pd_ok_def)
  have "inj_on (\<lambda>i. pt_addr (pde m' pd i)) {j. j < 768 \<and> pde m' pd j \<noteq> 0}" unfolding s
    using inj p by (simp add: inj_on_def)
  then show "pd_ok m' pd" using ok p by (simp add: pd_ok_def m')
  show "tables m' pd = tables m pd" unfolding tables_def s by (rule image_cong) (use p in auto)
  assume vb: "is_user_vaddr vb"
  show "pte_of m' pd vb = (if pg_no vb = pg_no va then e else pte_of m pd vb)"
  proof (cases "pde_of m pd vb = 0")
    case True
    then have "pg_no vb \<noteq> pg_no va" using t same_page_iff [of vb va] by (auto simp: pde_of_def)
    then show ?thesis using True p1 [OF vb] by (simp add: pte_of_def)
  next
    case False
    note T' = pd_ok_table [OF ok pd_no_user [OF vb], folded pde_of_def, OF False]
    have "pt_addr (pde_of m pd va) = pt_addr (pde_of m pd vb) \<longleftrightarrow> pd_no va = pd_no vb"
      using inj_onD [OF inj, of ?i "unat (pd_no vb)"] i pd_no_user [OF vb] t False
      by (auto simp: pde_of_def word_unat_eq_iff)
    then have "(pt_addr (pde_of m pd va) = pt_addr (pde_of m pd vb) \<and> unat (pt_no va) = unat (pt_no vb)) \<longleftrightarrow> pg_no vb = pg_no va"
      using same_page_iff [of va vb] by (auto simp: word_unat_eq_iff)
    then show ?thesis
      using False p1 [OF vb] load_store_slot [OF T(2) T'(2) pt_no_less [of va] pt_no_less [of vb], of e "mem m"] mm
      by (simp add: pte_of_def)
  qed
qed

lemma pde_create_ok:
  assumes "is_kernel_vaddr pt" "pg_ofs pt = 0"
  shows "\<exists>e. pde_create pt = Some e \<and> pt_addr e = pt \<and> e AND PTE_P \<noteq> 0 \<and> e \<noteq> 0"
proof -
  let ?e = "(pt - PHYS_BASE) OR (PTE_U OR PTE_P OR PTE_W)"
  have "?e AND PTE_ADDR = pt - PHYS_BASE"
    by (rule PTE_ADDR_strip [OF vtop_aligned [OF assms]]) (auto simp: bit_or_iff bit_pte_flags)
  moreover have "?e AND PTE_P \<noteq> 0" unfolding flag_test [OF bit_PTE_P] by (simp add: bit_or_iff bit_pte_flags del: bit_0)
  moreover from this have "?e \<noteq> 0" by auto
  ultimately show ?thesis using assms by (auto simp: pde_create_def vtop_def pt_addr_def or.assoc)
qed

text \<open>A new page table, cleared and entered into the directory.\<close>

lemma new_table_ok:
  assumes ok: "pd_ok m pd" and va: "is_user_vaddr va" and none: "pde_of m pd va = 0"
    and hi: "pools_high m1" and pt: "\<not> in_use m pt" and use: "\<forall>x. in_use m1 x \<longleftrightarrow> x = pt \<or> in_use m x"
    and zero: "\<forall>x. mem m1 x = (if on_page pt x then 0 else mem m x)" and e: "pt_addr e = pt" "e AND PTE_P \<noteq> 0" "e \<noteq> 0"
    and m': "m' = store_pte (slot pd (unat (pd_no va))) e m1"
  shows "pd_ok m' pd" "tables m' pd = insert pt (tables m pd)" "pde_of m' pd va = e"
    and "is_user_vaddr vb \<Longrightarrow> pte_of m' pd vb = pte_of m pd vb"
proof -
  let ?i = "unat (pd_no va)"
  have i: "?i < 768" by (rule pd_no_user [OF va])
  have al: "aligned pt" using in_use_page(2) [OF hi, of pt] use by simp
  note pd = pd_okD [OF ok]
  have neq: "pd \<noteq> pt" using pd(2) pt by auto
  have mm: "mem m' = store32 (slot pd ?i) e (mem m1)" by (simp add: m')
  have other: "load32 (mem m') (slot t j) = load32 (mem m) (slot t j)" if "in_use m t" "t \<noteq> pd \<or> j \<noteq> ?i" "j < 1024" for t j
  proof -
    have t: "aligned t" "t \<noteq> pt" using in_use_page(2) [OF pd(1) that(1)] that(1) pt by auto
    have "load32 (mem m1) (slot t j) = load32 (mem m) (slot t j)"
      by (rule load_other_page [OF t(1) al t(2) that(3)]) (use zero in simp)
    then show ?thesis using load_store_slot [OF pd(3) t(1) _ that(3), of ?i e "mem m1"] i that(2) mm by auto
  qed
  have p: "pde m' pd j = (if j = ?i then e else pde m pd j)" if "j < 768" for j
    using other [OF pd(2), of j] load_store_slot [OF pd(3) pd(3), of ?i ?i e "mem m1"] i that mm by (simp add: pde_def)
  have S: "{j. j < 768 \<and> pde m' pd j \<noteq> 0} = insert ?i {j. j < 768 \<and> pde m pd j \<noteq> 0}" using p i e by (auto split: if_splits)
  have old: "pt_addr (pde m pd j) \<noteq> pt" if "j < 768" "pde m pd j \<noteq> 0" for j using pd_ok_table(1) [OF ok that] pt by auto
  have inj: "inj_on (\<lambda>i. pt_addr (pde m pd i)) {i. i < 768 \<and> pde m pd i \<noteq> 0}" using ok by (simp add: pd_ok_def)
  have "inj_on (\<lambda>i. pt_addr (pde m' pd i)) {j. j < 768 \<and> pde m' pd j \<noteq> 0}"
  proof (rule inj_onI)
    fix x y
    assume x: "x \<in> {j. j < 768 \<and> pde m' pd j \<noteq> 0}" and y: "y \<in> {j. j < 768 \<and> pde m' pd j \<noteq> 0}"
      and eq: "pt_addr (pde m' pd x) = pt_addr (pde m' pd y)"
    show "x = y" using x y eq p old [of x] old [of y] e(1) inj_onD [OF inj, of x y] by (auto split: if_splits)
  qed
  moreover have "pde m' pd j AND PTE_P \<noteq> 0 \<and> in_use m' (pt_addr (pde m' pd j)) \<and> pt_addr (pde m' pd j) \<noteq> pd" if "j < 768" "pde m' pd j \<noteq> 0" for j
    using pd_ok_table [OF ok that(1)] p [OF that(1)] that e use neq by (auto simp: m' split: if_splits)
  ultimately show "pd_ok m' pd" using hi pd(2) use unfolding pd_ok_def by (simp add: m')
  show P: "pde_of m' pd va = e" using p [OF i] by (simp add: pde_of_def)
  have "tables m' pd = insert (pt_addr (pde m' pd ?i)) ((\<lambda>j. pt_addr (pde m' pd j)) ` {j. j < 768 \<and> pde m pd j \<noteq> 0})"
    unfolding tables_def S by simp
  also have "(\<lambda>j. pt_addr (pde m' pd j)) ` {j. j < 768 \<and> pde m pd j \<noteq> 0} = tables m pd"
    unfolding tables_def by (rule image_cong) (use p none in \<open>auto simp: pde_of_def\<close>)
  finally show "tables m' pd = insert pt (tables m pd)" using p [OF i] e(1) by simp
  assume vb: "is_user_vaddr vb"
  have j: "unat (pd_no vb) < 768" by (rule pd_no_user [OF vb])
  show "pte_of m' pd vb = pte_of m pd vb"
  proof (cases "pd_no vb = pd_no va")
    case True
    have "load32 (mem m') (slot pt (unat (pt_no vb))) = load32 (mem m1) (slot pt (unat (pt_no vb)))"
      using load_store_slot [OF pd(3) al _ pt_no_less [of vb], of ?i e "mem m1"] i neq mm by simp
    also have "\<dots> = 0" by (rule load_zero [OF al pt_no_less]) (use zero in simp)
    finally have "pte_of m' pd vb = 0" using p [OF j] True e by (simp add: pte_of_def pde_of_def)
    moreover have "pde_of m pd vb = 0" using none True by (simp add: pde_of_def)
    ultimately show ?thesis by (simp add: pte_of_def)
  next
    case False
    then have q: "pde_of m' pd vb = pde_of m pd vb" using p [OF j] by (simp add: pde_of_def word_unat_eq_iff)
    show ?thesis
    proof (cases "pde_of m pd vb = 0")
      case ne: False
      note T = pd_ok_table [OF ok j, folded pde_of_def, OF ne]
      show ?thesis using other [OF T(1), of "unat (pt_no vb)"] T(3) q ne pt_no_less [of vb] by (simp add: pte_of_def)
    qed (simp add: pte_of_def q)
  qed
qed

lemma lookup_create:
  assumes ok: "pd_ok m pd" and va: "is_user_vaddr va"
  shows "(\<exists>m'. lookup_page pd va True m = Some (slot (pt_addr (pde_of m' pd va)) (unat (pt_no va)), m') \<and> pd_ok m' pd \<and> pde_of m' pd va \<noteq> 0
      \<and> (\<forall>vb. is_user_vaddr vb \<longrightarrow> pte_of m' pd vb = pte_of m pd vb)
      \<and> tables m pd \<subseteq> tables m' pd \<and> (\<forall>t \<in> tables m' pd - tables m pd. \<not> in_use m t) \<and> (\<forall>x. in_use m' x \<longleftrightarrow> x \<in> tables m' pd \<or> in_use m x)
      \<and> (\<forall>x. (\<forall>t \<in> insert pd (tables m' pd). \<not> on_page t x) \<longrightarrow> mem m' x = mem m x))
    \<or> palloc_get_page PAL_ZERO m = Some (0, m) \<and> lookup_page pd va True m = Some (0, m)"
proof (cases "pde_of m pd va = 0")
  case False
  have "in_use m x" if "x \<in> tables m pd" for x using that pd_ok_table(1) [OF ok] by (auto simp: tables_def)
  then show ?thesis using lookup_found [OF ok va False] ok False by auto
next
  case True
  have f: "PAL_ZERO AND PAL_ASSERT = 0" "PAL_ZERO AND PAL_ZERO \<noteq> 0" by (simp_all add: PAL_ZERO_def PAL_ASSERT_def)
  note pd = pd_okD [OF ok]
  from palloc_get_page_cases [OF pd(1) f(1)] show ?thesis
  proof (elim disjE exE conjE)
    assume "palloc_get_page PAL_ZERO m = Some (0, m)"
    then show ?thesis using True va pd(4) by (simp add: lookup_page_def pde_of_def pde_def)
  next
    fix pt m1
    assume g: "palloc_get_page PAL_ZERO m = Some (pt, m1)" "pt \<noteq> 0" and hi: "pools_high m1" and free: "\<not> in_use m pt"
      and use: "\<forall>x. in_use m1 x \<longleftrightarrow> x = pt \<or> in_use m x" and mem: "\<forall>x. mem m1 x = (if PAL_ZERO AND PAL_ZERO \<noteq> 0 \<and> on_page pt x then 0 else mem m x)"
    have zero: "\<forall>x. mem m1 x = (if on_page pt x then 0 else mem m x)" using mem f(2) by simp
    have pg: "is_kernel_vaddr pt" "pg_ofs pt = 0" using in_use_page [OF hi, of pt] use by auto
    from pde_create_ok [OF this] obtain e where e: "pde_create pt = Some e" "pt_addr e = pt" "e AND PTE_P \<noteq> 0" "e \<noteq> 0" by blast
    define m' where "m' = store_pte (slot pd (unat (pd_no va))) e m1"
    note n = new_table_ok [OF ok va True hi free use zero e(2-4) m'_def]
    have i: "unat (pd_no va) < 768" by (rule pd_no_user [OF va])
    have "lookup_page pd va True m = Some (slot (pt_addr (pde_of m' pd va)) (unat (pt_no va)), m')"
      using True va pd(4) g e pd_ok_table(4) [OF n(1) i] n(3)
      by (simp add: lookup_page_def pde_of_def pde_def m'_def)
    moreover have "mem m' x = mem m x" if "\<forall>t \<in> insert pd (tables m' pd). \<not> on_page t x" for x
    proof -
      have x: "\<not> on_page pd x" "\<not> on_page pt x" using that n(2) by auto
      have "x \<noteq> slot pd (unat (pd_no va)) + of_nat k" if "k < 4" for k
        using x(1) on_page_slot [OF pd(3) pd(3) _ that, of "unat (pd_no va)"] i by auto
      from this [of 0] this [of 1] this [of 2] this [of 3] show ?thesis using x(2) zero by (simp add: m'_def store32_def)
    qed
    moreover have "in_use m' x \<longleftrightarrow> x \<in> tables m' pd \<or> in_use m x" for x
    proof -
      have "in_use m x" if "x \<in> tables m pd" for x using that pd_ok_table(1) [OF ok] by (auto simp: tables_def)
      then show ?thesis using use n(2) by (auto simp: m'_def)
    qed
    ultimately show ?thesis using n e(4) free by auto
  qed
qed

section \<open>Address spaces\<close>

text \<open>What a process sees: the kernel page behind a user page, and whether it may write to it.\<close>

definition user_map :: "pmem \<Rightarrow> vaddr \<Rightarrow> vaddr \<Rightarrow> (vaddr \<times> bool) option" where
  "user_map m pd u = (if is_user_vaddr u \<and> pg_ofs u = 0 \<and> pte_of m pd u AND PTE_P \<noteq> 0
     then Some (pt_addr (pte_of m pd u), pte_of m pd u AND PTE_W \<noteq> 0) else None)"

text \<open>Nothing but the tables of the directory changes.\<close>

definition only_tables :: "pmem \<Rightarrow> vaddr \<Rightarrow> pmem \<Rightarrow> bool" where
  "only_tables m pd m' \<longleftrightarrow> tables m pd \<subseteq> tables m' pd \<and> (\<forall>t \<in> tables m' pd - tables m pd. \<not> in_use m t) \<and> (\<forall>x. in_use m' x \<longleftrightarrow> x \<in> tables m' pd \<or> in_use m x)
     \<and> (\<forall>x. (\<forall>t \<in> insert pd (tables m' pd). \<not> on_page t x) \<longrightarrow> mem m' x = mem m x)"

lemma page_no_eq: "pg_ofs u = 0 \<Longrightarrow> pg_ofs v = 0 \<Longrightarrow> pg_no u = pg_no v \<longleftrightarrow> u = v"
proof -
  assume "pg_ofs u = 0" "pg_ofs v = 0"
  then have "unat u mod 4096 = 0" "unat v mod 4096 = 0" using pg_ofs_mod [of u] pg_ofs_mod [of v] by simp_all
  then show ?thesis by (metis pg_no_div div_mult_mod_eq word_unat_eq_iff)
qed

lemma pte_create_user_ok:
  assumes "is_kernel_vaddr page" "pg_ofs page = 0"
  shows "\<exists>e. pte_create_user page writable = Some e \<and> pt_addr e = page \<and> e AND PTE_P \<noteq> 0 \<and> (e AND PTE_W \<noteq> 0) = writable"
proof -
  let ?f = "PTE_P OR (if writable then PTE_W else 0) OR PTE_U"
  let ?e = "(page - PHYS_BASE) OR ?f"
  have "?e AND PTE_ADDR = page - PHYS_BASE"
    by (rule PTE_ADDR_strip [OF vtop_aligned [OF assms]]) (auto simp: bit_or_iff bit_pte_flags split: if_splits)
  moreover have "?e AND PTE_P \<noteq> 0" unfolding flag_test [OF bit_PTE_P] by (simp add: bit_or_iff bit_pte_flags del: bit_0)
  moreover have "(?e AND PTE_W \<noteq> 0) = writable"
    unfolding flag_test [OF bit_PTE_W] using vtop_aligned [OF assms, of 1] by (simp add: bit_or_iff bit_pte_flags)
  ultimately show ?thesis using pte_create_user_eq [OF assms] by (auto simp: pt_addr_def)
qed

lemma in_tables:
  assumes "pd_ok m pd" "is_user_vaddr va" "pde_of m pd va \<noteq> 0"
  shows "pt_addr (pde_of m pd va) \<in> tables m pd"
  using assms pd_no_user [of va] by (auto simp: tables_def pde_of_def)

lemma only_tables_store:
  assumes ok: "pd_ok m pd" and va: "is_user_vaddr va" and t: "pde_of m pd va \<noteq> 0"
    and m': "m' = store_pte (slot (pt_addr (pde_of m pd va)) (unat (pt_no va))) e m" and o: "only_tables m0 pd m"
  shows "only_tables m0 pd m'"
proof -
  note T = pd_ok_table [OF ok pd_no_user [OF va], folded pde_of_def, OF t]
  have "mem m' x = mem m x" if "\<forall>t \<in> insert pd (tables m pd). \<not> on_page t x" for x
  proof -
    have "\<not> on_page (pt_addr (pde_of m pd va)) x" using that in_tables [OF ok va t] by auto
    then have "x \<noteq> slot (pt_addr (pde_of m pd va)) (unat (pt_no va)) + of_nat k" if "k < 4" for k
      using on_page_slot [OF T(2) T(2) pt_no_less that] by auto
    from this [of 0] this [of 1] this [of 2] this [of 3] show ?thesis by (simp add: m' store32_def)
  qed
  then show ?thesis using o store_pte_ok(2) [OF ok va t m'] unfolding only_tables_def by (auto simp: m')
qed

lemma only_tables_refl: "pd_ok m pd \<Longrightarrow> only_tables m pd m"
  using pd_ok_table(1) [of m pd] by (auto simp: only_tables_def tables_def)

lemma set_page_cases:
  assumes ok: "pd_ok (pm k) pd" and u: "is_user_vaddr upage" "pg_ofs upage = 0" and free: "user_map (pm k) pd upage = None"
    and kp: "is_kernel_vaddr kpage" "pg_ofs kpage = 0" "drop_bit PGBITS (kpage - PHYS_BASE) < ram_pages" and b: "pd \<noteq> base_page_dir k"
  shows "(\<exists>k'. pagedir_set_page ram_pages pd upage kpage writable k = Some (True, k') \<and> pd_ok (pm k') pd
      \<and> user_map (pm k') pd = (user_map (pm k) pd)(upage \<mapsto> (kpage, writable)) \<and> only_tables (pm k) pd (pm k') \<and> k' = k\<lparr>pm := pm k'\<rparr>)
    \<or> palloc_get_page PAL_ZERO (pm k) = Some (0, pm k) \<and> pagedir_set_page ram_pages pd upage kpage writable k = Some (False, k)"
proof -
  have p0: "pte_of (pm k) pd upage AND PTE_P = 0" using free u by (auto simp: user_map_def split: if_splits)
  obtain e where e: "pte_create_user kpage writable = Some e" "pt_addr e = kpage" "e AND PTE_P \<noteq> 0" "(e AND PTE_W \<noteq> 0) = writable"
    using pte_create_user_ok [OF kp(1,2)] by blast
  have vt: "vtop kpage = Some (kpage - PHYS_BASE)" using kp(1) by (simp add: vtop_def)
  from lookup_create [OF ok u(1)] show ?thesis
  proof (elim disjE exE conjE)
    assume "palloc_get_page PAL_ZERO (pm k) = Some (0, pm k)" "lookup_page pd upage True (pm k) = Some (0, pm k)"
    then show ?thesis using u kp b vt by (simp add: pagedir_set_page_def)
  next
    fix m
    let ?a = "slot (pt_addr (pde_of m pd upage)) (unat (pt_no upage))"
    assume l: "lookup_page pd upage True (pm k) = Some (?a, m)" and ok': "pd_ok m pd" and t: "pde_of m pd upage \<noteq> 0"
      and same: "\<forall>vb. is_user_vaddr vb \<longrightarrow> pte_of m pd vb = pte_of (pm k) pd vb"
      and ot: "tables (pm k) pd \<subseteq> tables m pd" "\<forall>t \<in> tables m pd - tables (pm k) pd. \<not> in_use (pm k) t" "\<forall>x. in_use m x \<longleftrightarrow> x \<in> tables m pd \<or> in_use (pm k) x"
        "\<forall>x. (\<forall>t \<in> insert pd (tables m pd). \<not> on_page t x) \<longrightarrow> mem m x = mem (pm k) x"
    define m' where "m' = store_pte ?a e m"
    note s = store_pte_ok [OF ok' u(1) t m'_def]
    have "load32 (mem m) ?a = pte_of m pd upage" using t by (simp add: pte_of_def)
    then have "load32 (mem m) ?a AND PTE_P = 0" using same u p0 by simp
    then have r: "pagedir_set_page ram_pages pd upage kpage writable k = Some (True, k\<lparr>pm := m'\<rparr>)"
      using l lookup_nonnull [OF ok' u(1) t] u kp b vt e(1) by (simp add: pagedir_set_page_def m'_def)
    have "user_map m' pd = (user_map (pm k) pd)(upage \<mapsto> (kpage, writable))"
    proof
      fix v
      show "user_map m' pd v = ((user_map (pm k) pd)(upage \<mapsto> (kpage, writable))) v"
        using s(3) [of v] same u e page_no_eq [OF u(2), of v] by (auto simp: user_map_def)
    qed
    moreover have "only_tables (pm k) pd m'"
      by (rule only_tables_store [OF ok' u(1) t m'_def]) (use ot in \<open>simp add: only_tables_def\<close>)
    ultimately show ?thesis using r s(1) by (intro disjI1 exI [of _ "k\<lparr>pm := m'\<rparr>"]) simp
  qed
qed

text \<open>
  C6. Mapping a page that is not mapped: the address space of the directory changes at this page and nowhere else, or there is
  no memory for a page table and nothing changes.  Apart from the tables of the directory memory keeps its contents,
  and a page table that is added was a free page.
\<close>

theorem pagedir_set_page_correct:
  assumes ok: "pd_ok (pm k) pd" and u: "is_user_vaddr upage" "pg_ofs upage = 0" and free: "user_map (pm k) pd upage = None"
    and kp: "is_kernel_vaddr kpage" "pg_ofs kpage = 0" "drop_bit PGBITS (kpage - PHYS_BASE) < ram_pages" and b: "pd \<noteq> base_page_dir k"
  shows "(\<exists>k'. pagedir_set_page ram_pages pd upage kpage writable k = Some (True, k') \<and> pd_ok (pm k') pd
      \<and> user_map (pm k') pd = (user_map (pm k) pd)(upage \<mapsto> (kpage, writable)) \<and> only_tables (pm k) pd (pm k') \<and> k' = k\<lparr>pm := pm k'\<rparr>)
    \<or> palloc_get_page PAL_ZERO (pm k) = Some (0, pm k) \<and> pagedir_set_page ram_pages pd upage kpage writable k = Some (False, k)"
  by (rule set_page_cases [OF assms])

text \<open>An address space: a directory in order whose entries point to pages of the kernel.\<close>

definition space_ok :: "pmem \<Rightarrow> vaddr \<Rightarrow> bool" where
  "space_ok m pd \<longleftrightarrow> pd_ok m pd \<and> (\<forall>u p w. user_map m pd u = Some (p, w) \<longrightarrow> is_kernel_vaddr p)"

lemma pte_of_round: "pte_of m pd (pg_round_down u) = pte_of m pd u" "is_user_vaddr (pg_round_down u) = is_user_vaddr u" "pg_ofs (pg_round_down u) = 0"
proof -
  have r: "unat (pg_round_down u) = 4096 * (unat u div 4096)" by (simp add: unat_pg_round_down minus_mod_eq_mult_div)
  have "pg_no (pg_round_down u) = pg_no u" by (simp add: word_unat_eq_iff pg_no_div r)
  then show "pte_of m pd (pg_round_down u) = pte_of m pd u" using same_page_iff [of "pg_round_down u" u] by (simp add: pte_of_def pde_of_def)
  show "is_user_vaddr (pg_round_down u) = is_user_vaddr u"
    using div_less_iff_less_mult [of 4096 "unat u" 786432] by (simp add: is_user_vaddr_def PHYS_BASE_def word_less_nat_alt r)
  have "unat (pg_ofs (pg_round_down u)) = 0" by (simp add: pg_ofs_mod r)
  then show "pg_ofs (pg_round_down u) = 0" by (simp add: unat_eq_0)
qed

lemma kernel_entry:
  assumes "is_kernel_vaddr (pt_addr e)"
  shows "pte_get_page e = Some (pt_addr e)"
  using ptov_kernel [OF assms] by (simp add: pte_get_page_def pt_addr_def)

text \<open>
  C29. Looking a user address up: the kernel address is that of the same offset in the page that the address space has there, or
  null if there is none.
\<close>

theorem pagedir_get_page_correct:
  assumes ok: "space_ok (pm k) pd" and u: "is_user_vaddr uaddr"
  shows "pagedir_get_page pd uaddr k = Some (case user_map (pm k) pd (pg_round_down uaddr) of None \<Rightarrow> 0 | Some (p, w) \<Rightarrow> p + pg_ofs uaddr)"
proof -
  have pd: "pd_ok (pm k) pd" using ok by (simp add: space_ok_def)
  let ?m = "pm k"
  show ?thesis
  proof (cases "pde_of ?m pd uaddr = 0")
    case True
    then have "pte_of ?m pd uaddr = 0" by (simp add: pte_of_def)
    then show ?thesis using lookup_missing [OF pd True] u by (simp add: pagedir_get_page_def user_map_def pte_of_round)
  next
    case False
    have e: "load32 (mem ?m) (slot (pt_addr (pde_of ?m pd uaddr)) (unat (pt_no uaddr))) = pte_of ?m pd uaddr" using False by (simp add: pte_of_def)
    have k: "pte_get_page (pte_of ?m pd uaddr) = Some (pt_addr (pte_of ?m pd uaddr))" if "pte_of ?m pd uaddr AND PTE_P \<noteq> 0"
    proof (rule kernel_entry)
      have "user_map ?m pd (pg_round_down uaddr) = Some (pt_addr (pte_of ?m pd uaddr), pte_of ?m pd uaddr AND PTE_W \<noteq> 0)"
        using that u by (simp add: user_map_def pte_of_round)
      then show "is_kernel_vaddr (pt_addr (pte_of ?m pd uaddr))" using ok by (auto simp: space_ok_def)
    qed
    show ?thesis using lookup_found [OF pd u False, of False] lookup_nonnull [OF pd u False] u e k
      by (auto simp: pagedir_get_page_def user_map_def pte_of_round)
  qed
qed

lemma invalidate_same:
  assumes "cr3 k < PHYS_BASE" "is_kernel_vaddr pd"
  shows "invalidate_pagedir pd k = Some k"
proof (cases "cr3 k + PHYS_BASE = pd")
  case True
  have "pd \<noteq> 0" using assms(2) by (auto simp: is_kernel_vaddr_def PHYS_BASE_def)
  moreover have "pd - PHYS_BASE = cr3 k" using True by auto
  ultimately show ?thesis using assms True by (simp add: invalidate_pagedir_def active_pd_def ptov_def pagedir_activate_def vtop_def)
qed (use assms in \<open>simp add: invalidate_pagedir_def active_pd_def ptov_def\<close>)

lemma clear_P: "(e AND NOT PTE_P) AND PTE_P = 0"
  by (simp add: and.assoc)

lemma clear_page_ok:
  assumes ok: "pd_ok (pm k) pd" and u: "is_user_vaddr upage" "pg_ofs upage = 0" and c: "cr3 k < PHYS_BASE"
  shows "\<exists>k'. pagedir_clear_page pd upage k = Some k' \<and> pd_ok (pm k') pd \<and> user_map (pm k') pd = (user_map (pm k) pd)(upage := None)
    \<and> only_tables (pm k) pd (pm k') \<and> k' = k\<lparr>pm := pm k'\<rparr>"
proof -
  let ?m = "pm k"
  have kpd: "is_kernel_vaddr pd" using in_use_page(4) [OF pd_okD(1,2) [OF ok]] .
  show ?thesis
  proof (cases "pte_of ?m pd upage AND PTE_P = 0")
    case True
    have "user_map ?m pd upage = None" using True by (simp add: user_map_def)
    moreover have "pagedir_clear_page pd upage k = Some k"
      using True lookup_missing [OF ok, of upage] lookup_found [OF ok u(1), of False] u
      by (cases "pde_of ?m pd upage = 0") (auto simp: pagedir_clear_page_def pte_of_def)
    ultimately show ?thesis using ok only_tables_refl [OF ok] by (intro exI [of _ k]) (simp add: fun_upd_idem)
  next
    case False
    then have t: "pde_of ?m pd upage \<noteq> 0" by (auto simp: pte_of_def)
    let ?a = "slot (pt_addr (pde_of ?m pd upage)) (unat (pt_no upage))"
    define m' where "m' = store_pte ?a (pte_of ?m pd upage AND NOT PTE_P) ?m"
    note s = store_pte_ok [OF ok u(1) t m'_def]
    have e: "load32 (mem ?m) ?a = pte_of ?m pd upage" using t by (simp add: pte_of_def)
    have "pagedir_clear_page pd upage k = invalidate_pagedir pd (k\<lparr>pm := m'\<rparr>)"
      using lookup_found [OF ok u(1) t, of False] lookup_nonnull [OF ok u(1) t] u False e by (simp add: pagedir_clear_page_def m'_def)
    also have "\<dots> = Some (k\<lparr>pm := m'\<rparr>)" by (rule invalidate_same) (use c kpd in simp_all)
    finally have r: "pagedir_clear_page pd upage k = Some (k\<lparr>pm := m'\<rparr>)" .
    have "user_map m' pd = (user_map ?m pd)(upage := None)"
    proof
      fix v
      show "user_map m' pd v = ((user_map ?m pd)(upage := None)) v"
        using s(3) [of v] page_no_eq [OF u(2), of v] clear_P by (auto simp: user_map_def)
    qed
    moreover have "only_tables ?m pd m'" by (rule only_tables_store [OF ok u(1) t m'_def only_tables_refl [OF ok]])
    ultimately show ?thesis using r s(1) by (intro exI [of _ "k\<lparr>pm := m'\<rparr>"]) simp
  qed
qed

text \<open>
  Clearing a page removes it from the address space, and does nothing else.
\<close>

theorem pagedir_clear_page_correct:
  assumes ok: "pd_ok (pm k) pd" and u: "is_user_vaddr upage" "pg_ofs upage = 0" and c: "cr3 k < PHYS_BASE"
  shows "\<exists>k'. pagedir_clear_page pd upage k = Some k' \<and> pd_ok (pm k') pd \<and> user_map (pm k') pd = (user_map (pm k) pd)(upage := None)
    \<and> only_tables (pm k) pd (pm k') \<and> k' = k\<lparr>pm := pm k'\<rparr>"
  by (rule clear_page_ok [OF assms])

lemma bit_PTE_D: "bit PTE_D n \<longleftrightarrow> n = 6"
  using bit_exp_iff [where 'a = "32 word", of 6 n] by (auto simp: PTE_D_def)

lemma bit_PTE_A: "bit PTE_A n \<longleftrightarrow> n = 5"
  using bit_exp_iff [where 'a = "32 word", of 5 n] by (auto simp: PTE_A_def)

text \<open>Setting or clearing one flag keeps the address and the other flags.\<close>

definition put_flag :: "u32 \<Rightarrow> bool \<Rightarrow> u32 \<Rightarrow> u32" where
  "put_flag f v e = (if v then e OR f else e AND NOT f)"

lemma put_flag_same:
  assumes "\<And>n. bit f n \<longleftrightarrow> n = i"
  shows "(put_flag f v e AND f \<noteq> 0) = v"
proof -
  have b: "bit f i" using assms by simp
  then have "i < 32" using bit_imp_le_length [OF b] by simp
  then show ?thesis unfolding flag_test [OF assms] using b by (auto simp: put_flag_def bit_or_iff bit_and_iff bit_not_iff)
qed

lemma put_flag_other:
  assumes "\<And>n. bit f n \<longleftrightarrow> n = i" "\<And>n. bit g n \<Longrightarrow> n \<noteq> i"
  shows "put_flag f v e AND g = e AND g"
  by (rule bit_word_eqI) (use assms in \<open>auto simp: put_flag_def bit_or_iff bit_and_iff bit_not_iff\<close>)

lemma put_flag_view:
  assumes f: "\<And>n. bit f n \<longleftrightarrow> n = i" and i: "i \<in> {5, 6}"
  shows "pt_addr (put_flag f v e) = pt_addr e" "(put_flag f v e AND PTE_P \<noteq> 0) = (e AND PTE_P \<noteq> 0)" "(put_flag f v e AND PTE_W \<noteq> 0) = (e AND PTE_W \<noteq> 0)"
proof -
  have "n \<noteq> i" if "bit PTE_ADDR n" for n using that i by (auto simp: PTE_ADDR_mask bit_not_iff bit_mask_iff)
  then show "pt_addr (put_flag f v e) = pt_addr e" by (simp add: pt_addr_def put_flag_other [OF f])
  have "put_flag f v e AND PTE_P = e AND PTE_P" "put_flag f v e AND PTE_W = e AND PTE_W"
    by (rule put_flag_other [OF f], use i in \<open>auto simp: bit_pte_flags\<close>)+
  then show "(put_flag f v e AND PTE_P \<noteq> 0) = (e AND PTE_P \<noteq> 0)" "(put_flag f v e AND PTE_W \<noteq> 0) = (e AND PTE_W \<noteq> 0)" by simp_all
qed

text \<open>What \<^verbatim>\<open>pagedir_set_dirty\<close> and \<^verbatim>\<open>pagedir_set_accessed\<close> have in common.\<close>

lemma set_flag_ok:
  assumes ok: "pd_ok (pm k) pd" and u: "is_user_vaddr u" and c: "cr3 k < PHYS_BASE" and f: "\<And>n. bit f n \<longleftrightarrow> n = i" "i \<in> {5, 6}"
    and set: "setf = (do {
     (pte, m) \<leftarrow> lookup_page pd u False (pm k);
     if pte \<noteq> 0 then
       if v then Some (k\<lparr>pm := store_pte pte (load32 (mem m) pte OR f) m\<rparr>)
       else invalidate_pagedir pd (k\<lparr>pm := store_pte pte (load32 (mem m) pte AND NOT f) m\<rparr>)
     else Some (k\<lparr>pm := m\<rparr>) })"
  shows "\<exists>k'. setf = Some k' \<and> k' = k\<lparr>pm := pm k'\<rparr> \<and> pd_ok (pm k') pd \<and> user_map (pm k') pd = user_map (pm k) pd \<and> only_tables (pm k) pd (pm k')
    \<and> (\<forall>w. is_user_vaddr w \<longrightarrow> pte_of (pm k') pd w = (if pg_no w = pg_no u \<and> pde_of (pm k) pd u \<noteq> 0 then put_flag f v (pte_of (pm k) pd w) else pte_of (pm k) pd w))"
proof (cases "pde_of (pm k) pd u = 0")
  case True
  then have "setf = Some k" using lookup_missing [OF ok True] set by simp
  then show ?thesis using ok only_tables_refl [OF ok] True by (intro exI [of _ k]) simp
next
  case False
  let ?m = "pm k" and ?a = "slot (pt_addr (pde_of (pm k) pd u)) (unat (pt_no u))"
  have kpd: "is_kernel_vaddr pd" using in_use_page(4) [OF pd_okD(1,2) [OF ok]] .
  have e: "load32 (mem ?m) ?a = pte_of ?m pd u" using False by (simp add: pte_of_def)
  define m' where "m' = store_pte ?a (put_flag f v (pte_of ?m pd u)) ?m"
  note s = store_pte_ok [OF ok u False m'_def]
  have "invalidate_pagedir pd (k\<lparr>pm := m'\<rparr>) = Some (k\<lparr>pm := m'\<rparr>)" by (rule invalidate_same) (use c kpd in simp_all)
  then have r: "setf = Some (k\<lparr>pm := m'\<rparr>)"
    using set lookup_found [OF ok u False, of False] lookup_nonnull [OF ok u False] e by (cases v) (simp_all add: m'_def put_flag_def)
  have pu: "pte_of ?m pd w = pte_of ?m pd u" if "pg_no w = pg_no u" for w
    using that same_page_iff [of w u] by (simp add: pte_of_def pde_of_def)
  have "user_map m' pd = user_map ?m pd"
  proof
    fix w
    show "user_map m' pd w = user_map ?m pd w" using s(3) [of w] pu [of w] put_flag_view [OF f] by (auto simp: user_map_def)
  qed
  moreover have "only_tables ?m pd m'" by (rule only_tables_store [OF ok u False m'_def only_tables_refl [OF ok]])
  moreover have "pte_of m' pd w = (if pg_no w = pg_no u \<and> pde_of ?m pd u \<noteq> 0 then put_flag f v (pte_of ?m pd w) else pte_of ?m pd w)" if "is_user_vaddr w" for w
    using s(3) [OF that] pu [of w] False by simp
  ultimately show ?thesis using r s(1) by (intro exI [of _ "k\<lparr>pm := m'\<rparr>"] conjI allI impI) simp_all
qed

lemma is_flag_ok:
  assumes ok: "pd_ok m pd" and u: "is_user_vaddr u"
  shows "do { (pte, m) \<leftarrow> lookup_page pd u False m; Some (pte \<noteq> 0 \<and> load32 (mem m) pte AND f \<noteq> 0) } = Some (pte_of m pd u AND f \<noteq> 0)"
  using lookup_missing [OF ok, of u] lookup_found [OF ok u, of False] lookup_nonnull [OF ok u]
  by (cases "pde_of m pd u = 0") (simp_all add: pte_of_def)

text \<open>
  The dirty and the accessed bit: each setter makes its test return the given value for a page that has an entry,
  and changes neither the other bit nor the bits of another page nor the address space.
\<close>

theorem pagedir_flags_correct:
  assumes ok: "pd_ok (pm k) pd" and u: "is_user_vaddr u" "is_user_vaddr w" and c: "cr3 k < PHYS_BASE" and t: "user_map (pm k) pd (pg_round_down u) \<noteq> None"
  shows "(\<exists>k'. pagedir_set_dirty pd u v k = Some k' \<and> pd_ok (pm k') pd \<and> user_map (pm k') pd = user_map (pm k) pd
      \<and> pagedir_is_dirty pd w k' = (if pg_no w = pg_no u then Some v else pagedir_is_dirty pd w k) \<and> pagedir_is_accessed pd w k' = pagedir_is_accessed pd w k)
    \<and> (\<exists>k'. pagedir_set_accessed pd u v k = Some k' \<and> pd_ok (pm k') pd \<and> user_map (pm k') pd = user_map (pm k) pd
      \<and> pagedir_is_accessed pd w k' = (if pg_no w = pg_no u then Some v else pagedir_is_accessed pd w k) \<and> pagedir_is_dirty pd w k' = pagedir_is_dirty pd w k)"
proof -
  have p: "pde_of (pm k) pd u \<noteq> 0" using t by (auto simp: user_map_def pte_of_round pte_of_def [of _ _ u] split: if_splits)
  have d: "pagedir_is_dirty pd w k = Some (pte_of (pm k) pd w AND PTE_D \<noteq> 0)" "pagedir_is_accessed pd w k = Some (pte_of (pm k) pd w AND PTE_A \<noteq> 0)"
    if "pd_ok (pm k) pd" for k using is_flag_ok [OF that u(2)] by (simp_all add: pagedir_is_dirty_def pagedir_is_accessed_def)
  have o: "put_flag PTE_D v e AND PTE_A = e AND PTE_A" "put_flag PTE_A v e AND PTE_D = e AND PTE_D" for e
    by (rule put_flag_other [OF bit_PTE_D], simp add: bit_PTE_A, rule put_flag_other [OF bit_PTE_A], simp add: bit_PTE_D)
  from set_flag_ok [OF ok u(1) c bit_PTE_D _ pagedir_set_dirty_def [unfolded atomize_eq]] obtain k1 where
    k1: "pagedir_set_dirty pd u v k = Some k1" "pd_ok (pm k1) pd" "user_map (pm k1) pd = user_map (pm k) pd"
      "pte_of (pm k1) pd w = (if pg_no w = pg_no u then put_flag PTE_D v (pte_of (pm k) pd w) else pte_of (pm k) pd w)"
    using p u(2) by auto
  from set_flag_ok [OF ok u(1) c bit_PTE_A _ pagedir_set_accessed_def [unfolded atomize_eq]] obtain k2 where
    k2: "pagedir_set_accessed pd u v k = Some k2" "pd_ok (pm k2) pd" "user_map (pm k2) pd = user_map (pm k) pd"
      "pte_of (pm k2) pd w = (if pg_no w = pg_no u then put_flag PTE_A v (pte_of (pm k) pd w) else pte_of (pm k) pd w)"
    using p u(2) by auto
  have "pagedir_is_dirty pd w k1 = (if pg_no w = pg_no u then Some v else pagedir_is_dirty pd w k)" "pagedir_is_accessed pd w k1 = pagedir_is_accessed pd w k"
    using d [OF k1(2)] d [OF ok] k1(4) put_flag_same [OF bit_PTE_D] o by (auto split: if_splits)
  moreover have "pagedir_is_accessed pd w k2 = (if pg_no w = pg_no u then Some v else pagedir_is_accessed pd w k)" "pagedir_is_dirty pd w k2 = pagedir_is_dirty pd w k"
    using d [OF k2(2)] d [OF ok] k2(4) put_flag_same [OF bit_PTE_A] o by (auto split: if_splits)
  ultimately show ?thesis using k1 k2 by blast
qed

section \<open>Creating and destroying\<close>

lemma mem_copy_load:
  assumes "aligned d" "aligned s" "i < 1024"
  shows "load32 (mem_copy d s 4096 m) (slot d i) = load32 m (slot s i)"
proof -
  have "mem_copy d s 4096 m (slot d i + of_nat k) = m (slot s i + of_nat k)" if "k < 4" for k
  proof -
    have "on_page d (slot d i + of_nat k)" using on_page_slot [OF assms(1,1,3) that] by simp
    then show ?thesis by (simp add: mem_copy_def on_page_def) (simp add: slot_def algebra_simps)
  qed
  from this [of 0] this [of 1] this [of 2] this [of 3] show ?thesis by (simp add: load32_def)
qed

text \<open>
  A new directory is a page that was free; it maps no user page and has the kernel mappings of the base directory.  Without
  memory the result is null.
\<close>

theorem pagedir_create_correct:
  assumes hi: "pools_high (pm k)" and b: "aligned (base_page_dir k)" "\<And>i. i < 768 \<Longrightarrow> pde (pm k) (base_page_dir k) i = 0"
  shows "\<exists>pd k'. pagedir_create k = Some (pd, k') \<and> (if pd = 0 then k' = k else
      space_ok (pm k') pd \<and> \<not> in_use (pm k) pd \<and> (\<forall>u. user_map (pm k') pd u = None)
      \<and> (\<forall>i. 768 \<le> i \<and> i < 1024 \<longrightarrow> pde (pm k') pd i = pde (pm k) (base_page_dir k) i))"
proof -
  have f: "(0 :: u32) AND PAL_ASSERT = 0" by simp
  from palloc_get_page_cases [OF hi f] show ?thesis
  proof (elim disjE exE conjE)
    assume "palloc_get_page 0 (pm k) = Some (0, pm k)"
    then show ?thesis by (simp add: pagedir_create_def)
  next
    fix pd m
    assume g: "palloc_get_page 0 (pm k) = Some (pd, m)" "pd \<noteq> 0" and hi': "pools_high m" and free: "\<not> in_use (pm k) pd"
      and use: "\<forall>x. in_use m x \<longleftrightarrow> x = pd \<or> in_use (pm k) x" and mm: "\<forall>x. mem m x = (if 0 AND PAL_ZERO \<noteq> 0 \<and> on_page pd x then 0 else mem (pm k) x)"
    define m' where "m' = m\<lparr>mem := mem_copy pd (base_page_dir k) 4096 (mem m)\<rparr>"
    have r: "pagedir_create k = Some (pd, k\<lparr>pm := m'\<rparr>)" using g by (simp add: pagedir_create_def m'_def)
    have al: "aligned pd" using in_use_page(2) [OF hi'] use by simp
    have "mem m = mem (pm k)" using mm by auto
    then have p: "pde m' pd i = pde (pm k) (base_page_dir k) i" if "i < 1024" for i
      using mem_copy_load [OF al b(1) that, of "mem m"] by (simp add: pde_def m'_def)
    have z: "{i. i < 768 \<and> pde m' pd i \<noteq> 0} = {}" using p b(2) by auto
    have "pools_high m'" "in_use m' pd" using hi' use by (simp_all add: m'_def pools_high_def)
    then have "pd_ok m' pd" unfolding pd_ok_def z using z by auto
    moreover have "user_map m' pd u = None" for u
      using p [of "unat (pd_no u)"] b(2) pd_no_user [of u] by (auto simp: user_map_def pte_of_def pde_of_def)
    ultimately show ?thesis using r g(2) free p by (intro exI [of _ pd] exI [of _ "k\<lparr>pm := m'\<rparr>"]) (simp add: space_ok_def)
  qed
qed

text \<open>The pages that a directory owns, in the order in which \<^verbatim>\<open>pagedir_destroy\<close> meets them.\<close>

definition mapped_upto :: "pmem \<Rightarrow> vaddr \<Rightarrow> nat \<Rightarrow> vaddr list" where
  "mapped_upto m pt n = map (\<lambda>j. pt_addr (pde m pt j)) (filter (\<lambda>j. pde m pt j AND PTE_P \<noteq> 0) [0..<n])"

definition table_pages :: "pmem \<Rightarrow> vaddr \<Rightarrow> nat \<Rightarrow> vaddr list" where
  "table_pages m pd i = (if pde m pd i AND PTE_P \<noteq> 0 then mapped_upto m (pt_addr (pde m pd i)) 1024 @ [pt_addr (pde m pd i)] else [])"

definition pages_upto :: "pmem \<Rightarrow> vaddr \<Rightarrow> nat \<Rightarrow> vaddr list" where
  "pages_upto m pd n = concat (map (table_pages m pd) [0..<n])"

definition pages_of :: "pmem \<Rightarrow> vaddr \<Rightarrow> vaddr list" where
  "pages_of m pd = pages_upto m pd 768 @ [pd]"

text \<open>The state after the pages of a list have been freed.\<close>

definition freed :: "pmem \<Rightarrow> vaddr list \<Rightarrow> pmem \<Rightarrow> bool" where
  "freed m L m' \<longleftrightarrow> pools_high m' \<and> (\<forall>x. in_use m' x \<longleftrightarrow> in_use m x \<and> x \<notin> set L) \<and> (\<forall>x. (\<forall>a \<in> set L. \<not> on_page a x) \<longrightarrow> mem m' x = mem m x)"

lemma freed_step:
  assumes "freed m L m'" "in_use m a" "a \<notin> set L"
  shows "\<exists>m''. palloc_free_page a m' = Some m'' \<and> freed m (L @ [a]) m''"
proof -
  have "in_use m' a" "pools_high m'" using assms by (auto simp: freed_def)
  from palloc_free_page_fills [OF this(2,1)] obtain m'' where "palloc_free_page a m' = Some m''" "pools_high m''"
    "\<forall>x. in_use m'' x \<longleftrightarrow> x \<noteq> a \<and> in_use m' x" "\<forall>x. mem m'' x = (if on_page a x then 0xcc else mem m' x)" by blast
  then show ?thesis using assms(1) by (auto simp: freed_def)
qed

lemma freed_pde:
  assumes hi: "pools_high m" and f: "freed m L m'" and L: "\<And>a. a \<in> set L \<Longrightarrow> in_use m a" and t: "in_use m t" "t \<notin> set L" "i < 1024"
  shows "pde m' t i = pde m t i"
  unfolding pde_def
proof (rule load_agree [OF in_use_page(2) [OF hi t(1)] t(3)])
  fix x
  assume x: "on_page t x"
  have "\<not> on_page a x" if "a \<in> set L" for a
    using on_page_unique [OF in_use_page(2) [OF hi L [OF that]] in_use_page(2) [OF hi t(1)] _ x] that t(2) by auto
  then show "mem m' x = mem m x" using f by (simp add: freed_def)
qed

lemma mapped_upto_Suc:
  "mapped_upto m pt (Suc j) = mapped_upto m pt j @ (if pde m pt j AND PTE_P \<noteq> 0 then [pt_addr (pde m pt j)] else [])"
  by (simp add: mapped_upto_def)

lemma mapped_upto_prefix: "j \<le> n \<Longrightarrow> \<exists>R. mapped_upto m pt n = mapped_upto m pt j @ R"
  using upt_add_eq_append [of 0 j "n - j"] by (simp add: mapped_upto_def)

lemma free_pages_of_ok:
  assumes hi: "pools_high m" and f: "freed m L m0" and pt: "in_use m pt" "pt \<notin> set L"
    and L: "\<And>a. a \<in> set (L @ mapped_upto m pt 1024) \<Longrightarrow> in_use m a" and d: "distinct (L @ mapped_upto m pt 1024)" "pt \<notin> set (mapped_upto m pt 1024)"
  shows "\<exists>m'. free_pages_of pt m0 = Some m' \<and> freed m (L @ mapped_upto m pt 1024) m'"
  unfolding free_pages_of_def
proof (rule for_loop_rule [where I = "\<lambda>j. freed m (L @ mapped_upto m pt j)"])
  show "freed m (L @ mapped_upto m pt 0) m0" using f by (simp add: mapped_upto_def)
  fix j m1
  assume j: "j < 1024" and f1: "freed m (L @ mapped_upto m pt j) m1"
  obtain R where R: "mapped_upto m pt 1024 = mapped_upto m pt (Suc j) @ R" using mapped_upto_prefix [of "Suc j" 1024 m pt] j by auto
  have L1: "in_use m a" if "a \<in> set (L @ mapped_upto m pt j)" for a using L [of a] that R by (auto simp: mapped_upto_Suc)
  have "pt \<notin> set (L @ mapped_upto m pt j)" using pt(2) d(2) R by (auto simp: mapped_upto_Suc)
  then have e: "load32 (mem m1) (slot pt j) = pde m pt j" using freed_pde [OF hi f1 L1 pt(1) _ j] by (simp add: pde_def)
  show "\<exists>m2. (let pte = load32 (mem m1) (slot pt j) in
     if pte AND PTE_P \<noteq> 0 then do { page \<leftarrow> pte_get_page pte; palloc_free_page page m1 } else Some m1) = Some m2 \<and> freed m (L @ mapped_upto m pt (Suc j)) m2"
  proof (cases "pde m pt j AND PTE_P = 0")
    case False
    let ?a = "pt_addr (pde m pt j)"
    have a: "?a \<in> set (mapped_upto m pt 1024)" "?a \<notin> set (L @ mapped_upto m pt j)" using R d(1) False by (auto simp: mapped_upto_Suc)
    have u: "in_use m ?a" using L a by simp
    from freed_step [OF f1 u a(2)] obtain m2 where "palloc_free_page ?a m1 = Some m2" "freed m ((L @ mapped_upto m pt j) @ [?a]) m2" by blast
    then show ?thesis using False e kernel_entry [OF in_use_page(4) [OF hi u]] by (simp add: mapped_upto_Suc)
  qed (use f1 e in \<open>simp add: mapped_upto_Suc\<close>)
qed simp

lemma pages_upto_Suc: "pages_upto m pd (Suc i) = pages_upto m pd i @ table_pages m pd i"
  by (simp add: pages_upto_def)

lemma pages_upto_prefix: "i \<le> n \<Longrightarrow> \<exists>R. pages_upto m pd n = pages_upto m pd i @ R"
  using upt_add_eq_append [of 0 i "n - i"] by (simp add: pages_upto_def)

lemma free_tables_of_ok:
  assumes hi: "pools_high m" and pd: "in_use m pd" and L: "\<And>a. a \<in> set (pages_upto m pd 768) \<Longrightarrow> in_use m a" and d: "distinct (pages_upto m pd 768)" "pd \<notin> set (pages_upto m pd 768)"
  shows "\<exists>m'. free_tables_of pd m = Some m' \<and> freed m (pages_upto m pd 768) m'"
proof -
  have n: "unat (pd_no PHYS_BASE) = 768" by (simp add: pd_no_div PHYS_BASE_def)
  show ?thesis unfolding free_tables_of_def n
  proof (rule for_loop_rule [where I = "\<lambda>i. freed m (pages_upto m pd i)"])
    show "freed m (pages_upto m pd 0) m" using hi by (simp add: freed_def pages_upto_def)
    fix i m1
    assume i: "i < 768" and f1: "freed m (pages_upto m pd i) m1"
    let ?P = "pages_upto m pd i" and ?t = "pt_addr (pde m pd i)"
    obtain R where R: "pages_upto m pd 768 = (?P @ table_pages m pd i) @ R" using pages_upto_prefix [of "Suc i" 768 m pd] i by (auto simp: pages_upto_Suc)
    have L1: "in_use m a" if "a \<in> set (?P @ table_pages m pd i)" for a using L [of a] that R by auto
    have "load32 (mem m1) (slot pd i) = pde m pd i"
      using freed_pde [OF hi f1 L1 pd, of i] d(2) R i by (auto simp: pde_def)
    moreover have "\<exists>m2. (do { pt \<leftarrow> pde_get_pt (pde m pd i); m \<leftarrow> free_pages_of pt m1; palloc_free_page pt m }) = Some m2 \<and> freed m (pages_upto m pd (Suc i)) m2"
      if p: "pde m pd i AND PTE_P \<noteq> 0"
    proof -
      let ?M = "mapped_upto m ?t 1024"
      have T: "table_pages m pd i = ?M @ [?t]" using p by (simp add: table_pages_def)
      have D: "distinct (?P @ ?M @ [?t])" using d(1) R T by (metis append_assoc distinct_append)
      have u: "in_use m ?t" using L1 T by simp
      have g: "pde_get_pt (pde m pd i) = Some ?t" using kernel_entry [OF in_use_page(4) [OF hi u]] p by (simp add: pde_get_pt_def pte_get_page_def)
      from free_pages_of_ok [OF hi f1 u] D L1 T obtain m2 where m2: "free_pages_of ?t m1 = Some m2" "freed m (?P @ ?M) m2" by auto
      from freed_step [OF m2(2) u] D obtain m3 where m3: "palloc_free_page ?t m2 = Some m3" "freed m ((?P @ ?M) @ [?t]) m3" by auto
      show ?thesis using g m2 m3 T by (simp add: pages_upto_Suc)
    qed
    moreover have "pages_upto m pd (Suc i) = ?P" if "pde m pd i AND PTE_P = 0" using that by (simp add: pages_upto_Suc table_pages_def)
    ultimately show "\<exists>m2. (let pde = load32 (mem m1) (slot pd i) in
       if pde AND PTE_P \<noteq> 0 then do { pt \<leftarrow> pde_get_pt pde; m \<leftarrow> free_pages_of pt m1; palloc_free_page pt m } else Some m1) = Some m2
       \<and> freed m (pages_upto m pd (Suc i)) m2" using f1 by (cases "pde m pd i AND PTE_P = 0") auto
  qed simp
qed

text \<open>
  C17. If the directory, its page tables and the pages it maps are distinct allocated pages, destroying it frees exactly these
  pages, each once, and no other memory changes.
\<close>

theorem pagedir_destroy_frees:
  assumes hi: "pools_high (pm k)" and b: "pd \<noteq> base_page_dir k"
    and own: "distinct (pages_of (pm k) pd)" "\<And>a. a \<in> set (pages_of (pm k) pd) \<Longrightarrow> in_use (pm k) a"
  shows "\<exists>m'. pagedir_destroy pd k = Some (k\<lparr>pm := m'\<rparr>) \<and> (\<forall>x. in_use m' x \<longleftrightarrow> in_use (pm k) x \<and> x \<notin> set (pages_of (pm k) pd))
    \<and> (\<forall>x. (\<forall>a \<in> set (pages_of (pm k) pd). \<not> on_page a x) \<longrightarrow> mem m' x = mem (pm k) x)"
proof -
  let ?m = "pm k"
  have pd: "in_use ?m pd" "pd \<notin> set (pages_upto ?m pd 768)" "distinct (pages_upto ?m pd 768)" "\<And>a. a \<in> set (pages_upto ?m pd 768) \<Longrightarrow> in_use ?m a"
    using own by (auto simp: pages_of_def)
  from free_tables_of_ok [OF hi pd(1,4,3,2)] obtain m1 where m1: "free_tables_of pd ?m = Some m1" "freed ?m (pages_upto ?m pd 768) m1" by blast
  from freed_step [OF m1(2) pd(1,2)] obtain m2 where m2: "palloc_free_page pd m1 = Some m2" "freed ?m (pages_of ?m pd) m2" by (auto simp: pages_of_def)
  have "pd \<noteq> 0" by (rule in_use_page(1) [OF hi pd(1)])
  then show ?thesis using b m1 m2 by (auto simp: pagedir_destroy_def freed_def)
qed

section \<open>Isolation\<close>

text \<open>Two directories without common tables.\<close>

definition separate :: "pmem \<Rightarrow> vaddr \<Rightarrow> vaddr \<Rightarrow> bool" where
  "separate m pd pd' \<longleftrightarrow> insert pd (tables m pd) \<inter> insert pd' (tables m pd') = {}"

lemma other_space_kept:
  assumes ok: "pd_ok m pd" "pd_ok m pd'" and s: "separate m pd pd'" and o: "only_tables m pd m'" and ok': "pd_ok m' pd"
  shows "user_map m' pd' = user_map m pd'" "pd_ok m' pd'" "separate m' pd pd'"
proof -
  note hi = pd_okD(1) [OF ok(1)] and hi' = pd_okD(1) [OF ok'] and pd' = pd_okD [OF ok(2)]
  have use: "in_use m t" if "t \<in> insert pd' (tables m pd')" for t using that pd'(2) pd_ok_table(1) [OF ok(2)] by (auto simp: tables_def)
  have ne: "t \<notin> insert pd (tables m' pd)" if "t \<in> insert pd' (tables m pd')" for t
  proof -
    have "t \<notin> insert pd (tables m pd)" using that s by (auto simp: separate_def)
    moreover have "in_use m t" by (rule use [OF that])
    ultimately show ?thesis using o by (auto simp: only_tables_def)
  qed
  have ld: "load32 (mem m') (slot t i) = load32 (mem m) (slot t i)" if t: "t \<in> insert pd' (tables m pd')" "i < 1024" for t i
  proof (rule load_agree [OF in_use_page(2) [OF hi use [OF t(1)]] t(2)])
    fix x
    assume x: "on_page t x"
    have "\<not> on_page a x" if a: "a \<in> insert pd (tables m' pd)" for a
    proof
      assume ax: "on_page a x"
      have "aligned a" using a pd_okD(3) [OF ok'] pd_ok_table(2) [OF ok'] by (auto simp: tables_def)
      then have "a = t" using on_page_unique [OF _ in_use_page(2) [OF hi use [OF t(1)]] ax x] by blast
      then show False using ne [OF t(1)] a by simp
    qed
    then show "mem m' x = mem m x" using o by (auto simp: only_tables_def)
  qed
  have p: "pde m' pd' i = pde m pd' i" if "i < 768" for i using ld [of pd' i] that by (simp add: pde_def)
  have q: "pte_of m' pd' u = pte_of m pd' u" if "is_user_vaddr u" for u
  proof -
    have i: "unat (pd_no u) < 768" by (rule pd_no_user [OF that])
    show ?thesis using p [OF i] ld [of "pt_addr (pde_of m pd' u)" "unat (pt_no u)"] in_tables [OF ok(2) that] pt_no_less [of u]
      by (cases "pde_of m pd' u = 0") (simp_all add: pte_of_def pde_of_def)
  qed
  show "user_map m' pd' = user_map m pd'" using q by (auto simp: user_map_def fun_eq_iff)
  have S: "{i. i < 768 \<and> pde m' pd' i \<noteq> 0} = {i. i < 768 \<and> pde m pd' i \<noteq> 0}" using p by auto
  have T: "tables m' pd' = tables m pd'" unfolding tables_def S by (rule image_cong) (use p in auto)
  show "separate m' pd pd'" using ne T by (auto simp: separate_def)
  have "inj_on (\<lambda>i. pt_addr (pde m' pd' i)) {i. i < 768 \<and> pde m' pd' i \<noteq> 0}" unfolding S
    using ok(2) p by (simp add: pd_ok_def inj_on_def)
  moreover have "in_use m' x" if "in_use m x" for x using o that by (auto simp: only_tables_def)
  ultimately show "pd_ok m' pd'" using ok(2) hi' p by (auto simp: pd_ok_def)
qed


section \<open>A small memory\<close>

definition sample_space :: kern where
  "sample_space = \<lparr>lnk = \<lparr>prev_of = \<lambda>_. 0, next_of = \<lambda>_. 0\<rparr>, thrs = (\<lambda>_. None), sval = (\<lambda>_. 0), lock_holder = (\<lambda>_. NULL), ready_list = 16, tid_lock = 200,
     cur = 65536, ints = INTR_ON, in_external_intr = False, yield_on_return = False, idle_thread = 196608, initial_thread = 65536,
     read_ahead_thread = NULL, idle_ticks = 0, kernel_ticks = 0, user_ticks = 0, thread_ticks = 0, ticks = 0, next_tid = 3,
     pm = \<lparr>kernel_pool = \<lparr>used_map = \<lparr>bit_cnt = 8, bits = [3]\<rparr>, base = 0xc0100000\<rparr>,
       user_pool = \<lparr>used_map = \<lparr>bit_cnt = 4, bits = [1]\<rparr>, base = 0xc0200000\<rparr>, mem = (\<lambda>_. 0)\<rparr>,
     base_page_dir = 0xc0003000, cr3 = 0x3000, tss_esp0 = 69632\<rparr>"

lemma sample_zero: "load32 (mem (pm sample_space)) a = 0"
  by (simp add: sample_space_def load32_def un_le32_def)

lemma sample_high: "pools_high (pm sample_space)"
  by (simp add: pools_high_def palloc_ok_def pool_ok_def pool_end_def bm_wf_def sample_space_def PHYS_BASE_def elem_cnt_def ELEM_BITS_def DIV_ROUND_UP_def
    pg_ofs_def PGMASK_def BITMASK_def PGBITS_def)

lemma sample_used: "in_use (pm sample_space) 0xc0100000" "in_use (pm sample_space) 0xc0101000" "in_use (pm sample_space) 0xc0200000"
proof -
  have ok: "palloc_ok (pm sample_space)" using sample_high by (simp add: pools_high_def)
  have a: "0xc0100000 = page_at (the_pool False (pm sample_space)) 0" "0xc0101000 = page_at (the_pool False (pm sample_space)) 1"
    "0xc0200000 = page_at (the_pool True (pm sample_space)) 0"
    by (simp_all add: page_at_def the_pool_def sample_space_def)
  show "in_use (pm sample_space) 0xc0100000" unfolding a
    by (subst in_use_page_at [OF ok]) (simp_all add: the_pool_def sample_space_def bm_bit_def)
  show "in_use (pm sample_space) 0xc0101000" unfolding a
    by (subst in_use_page_at [OF ok]) (simp_all add: the_pool_def sample_space_def bm_bit_def bit_iff_odd_drop_bit)
  show "in_use (pm sample_space) 0xc0200000" unfolding a
    by (subst in_use_page_at [OF ok]) (simp_all add: the_pool_def sample_space_def bm_bit_def)
qed

lemma sample_get: "palloc_get_page PAL_ZERO (pm sample_space) \<noteq> Some (0, pm sample_space)"
proof -
  have ok: "palloc_ok (pm sample_space)" using sample_high by (simp add: pools_high_def)
  let ?p = "the_pool False (pm sample_space)"
  have u: "(PAL_ZERO AND PAL_USER \<noteq> 0) = False" by (simp add: PAL_ZERO_def PAL_USER_def)
  have c: "bit_cnt (used_map ?p) = 8" by (simp add: the_pool_def sample_space_def)
  have free: "\<not> in_use (pm sample_space) (page_at ?p 2)"
    using in_use_page_at [OF ok, of 2 False] c by (simp add: the_pool_def sample_space_def bm_bit_def bit_iff_odd_drop_bit)
  have nz: "page_at ?p i \<noteq> 0" if "i + 1 \<le> bit_cnt (used_map ?p)" for i
    using page_at_nonnull [OF the_pool_ok [OF ok]] that by simp
  from palloc_get_cases [OF ok one_neq_zero refl, of PAL_ZERO, unfolded u] show ?thesis
  proof (elim disjE exE conjE)
    assume "\<forall>i. i + 1 \<le> bit_cnt (used_map ?p) \<longrightarrow> (\<exists>k < 1. in_use (pm sample_space) (page_at ?p (i + k)))"
    from this [rule_format, of 2] c free show ?thesis by (simp add: numeral_2_eq_2)
  qed (use nz in \<open>simp add: palloc_get_page_def\<close>)
qed

lemma sample_pde: "pde (pm sample_space) pd i = 0" "user_map (pm sample_space) pd u = None" "tables (pm sample_space) pd = {}"
  by (simp_all add: pde_def sample_zero user_map_def pte_of_def pde_of_def tables_def)

lemma sample_pd_ok: "pd_ok (pm sample_space) 0xc0100000" "pd_ok (pm sample_space) 0xc0101000"
  using sample_high sample_used by (simp_all add: pd_ok_def sample_pde)

lemma sample_frame: "is_user_vaddr 0x8048000" "pg_ofs 0x8048000 = 0" "is_kernel_vaddr 0xc0200000" "pg_ofs 0xc0200000 = 0"
    "drop_bit PGBITS (0xc0200000 - PHYS_BASE) < 1024" "0xc0100000 \<noteq> base_page_dir sample_space" "cr3 sample_space < PHYS_BASE"
  by (simp_all add: is_user_vaddr_def is_kernel_vaddr_def PHYS_BASE_def PGBITS_def sample_space_def pg_ofs_def PGMASK_def BITMASK_def)

theorem pagedir_set_page_correct_witness:
  "\<exists>k'. pagedir_set_page 1024 0xc0100000 0x8048000 0xc0200000 True sample_space = Some (True, k') \<and> user_map (pm k') 0xc0100000 0x8048000 = Some (0xc0200000, True)"
proof -
  from sample_get pagedir_set_page_correct [OF sample_pd_ok(1) sample_frame(1,2) sample_pde(2) sample_frame(3-6), of True] show ?thesis by auto
qed

lemma sample_space_ok: "space_ok (pm sample_space) 0xc0100000"
  using sample_pd_ok by (simp add: space_ok_def sample_pde)

theorem pagedir_get_page_correct_witness: "pagedir_get_page 0xc0100000 0x8048000 sample_space = Some 0"
  using pagedir_get_page_correct [OF sample_space_ok sample_frame(1)] by (simp add: sample_pde)

theorem pagedir_clear_page_correct_witness:
  "\<exists>k'. pagedir_clear_page 0xc0100000 0x8048000 sample_space = Some k' \<and> user_map (pm k') 0xc0100000 0x8048000 = None"
  using pagedir_clear_page_correct [OF sample_pd_ok(1) sample_frame(1,2,7)] by auto

lemma sample_mapped: obtains k :: kern where "pd_ok (pm k) 0xc0100000" "user_map (pm k) 0xc0100000 0x8048000 \<noteq> None" "cr3 k < PHYS_BASE"
proof -
  from sample_get set_page_cases [OF sample_pd_ok(1) sample_frame(1,2) sample_pde(2) sample_frame(3-6), of True] obtain k where
    k: "pd_ok (pm k) 0xc0100000" "user_map (pm k) 0xc0100000 = (user_map (pm sample_space) 0xc0100000)(0x8048000 \<mapsto> (0xc0200000, True))"
      "k = sample_space\<lparr>pm := pm k\<rparr>" by auto
  have "cr3 k = cr3 (sample_space\<lparr>pm := pm k\<rparr>)" by (rule arg_cong [OF k(3)])
  then have "cr3 k < PHYS_BASE" using sample_frame(7) by simp
  moreover have "user_map (pm k) 0xc0100000 0x8048000 \<noteq> None" using k(2) by simp
  ultimately show ?thesis using that k(1) by blast
qed

theorem pagedir_flags_correct_witness:
  "\<exists>k k'. pagedir_set_dirty 0xc0100000 0x8048000 True k = Some k' \<and> pagedir_is_dirty 0xc0100000 0x8048000 k' = Some True"
proof -
  obtain k :: kern where k: "pd_ok (pm k) 0xc0100000" "user_map (pm k) 0xc0100000 0x8048000 \<noteq> None" "cr3 k < PHYS_BASE" by (rule sample_mapped)
  have "pg_round_down 0x8048000 = 0x8048000" by (simp add: pg_round_down_def PGMASK_def BITMASK_def PGBITS_def)
  with pagedir_flags_correct [OF k(1) sample_frame(1,1) k(3), of True] k(2) show ?thesis by auto
qed

theorem pagedir_create_correct_witness:
  "\<exists>pd k'. pagedir_create sample_space = Some (pd, k') \<and> (pd = 0 \<or> user_map (pm k') pd 0x8048000 = None)"
proof -
  have "aligned (base_page_dir sample_space)" by (simp add: sample_space_def aligned_def)
  from pagedir_create_correct [OF sample_high this sample_pde(1)] obtain pd k' where
    "pagedir_create sample_space = Some (pd, k')" "pd \<noteq> 0 \<longrightarrow> (\<forall>u. user_map (pm k') pd u = None)" by metis
  then show ?thesis by blast
qed

lemma sample_owns: "pages_of (pm sample_space) pd = [pd]"
proof -
  have "pages_upto (pm sample_space) pd n = []" for n
    by (induction n) (simp_all add: pages_upto_Suc table_pages_def sample_pde, simp add: pages_upto_def)
  then show ?thesis by (simp add: pages_of_def)
qed

theorem pagedir_destroy_frees_witness:
  "\<exists>m'. pagedir_destroy 0xc0100000 sample_space = Some (sample_space\<lparr>pm := m'\<rparr>) \<and> \<not> in_use m' 0xc0100000 \<and> in_use m' 0xc0101000"
proof -
  have d: "distinct (pages_of (pm sample_space) 0xc0100000)" by (simp add: sample_owns)
  have o: "in_use (pm sample_space) a" if "a \<in> set (pages_of (pm sample_space) 0xc0100000)" for a using that sample_used(1) by (simp add: sample_owns)
  from pagedir_destroy_frees [OF sample_high sample_frame(6) d o] obtain m' where
    m': "pagedir_destroy 0xc0100000 sample_space = Some (sample_space\<lparr>pm := m'\<rparr>)" "\<forall>x. in_use m' x \<longleftrightarrow> in_use (pm sample_space) x \<and> x \<notin> set (pages_of (pm sample_space) 0xc0100000)" by blast
  then show ?thesis using sample_used(2) by (intro exI [of _ m']) (simp add: sample_owns)
qed

lemma sample_separate: "separate (pm sample_space) 0xc0100000 0xc0101000"
  by (simp add: separate_def sample_pde)


end
