(* ===== verification/Malloc.thy ===== *)
theory Malloc
  imports Palloc_Page
begin

unbundle bit_operations_syntax

text \<open>
  \<^verbatim>\<open>threads/malloc.c\<close>: blocks of seven sizes in one-page arenas, and big blocks of whole pages.  The headers of the arenas
  are kept by address, apart from the bytes of memory, and vanish when their page is given back; a free list is the
  list of its blocks.  The lock of a descriptor only serialises the operations on it, and is not part of this state.
\<close>

section \<open>State\<close>

record desc =
  d_block_size :: nat
  blocks_per_arena :: nat
  free_list :: "vaddr list"

definition ARENA_MAGIC :: u32 where
  "ARENA_MAGIC = 0x9a548eed"

text \<open>The owner of an arena is the index of a descriptor, \<open>None\<close> for a big block.\<close>

record arena =
  magic :: u32
  a_desc :: "nat option"
  free_cnt :: nat

record mstate =
  pages :: pmem
  descs :: "desc list"
  arenas :: "vaddr \<Rightarrow> arena option"

definition sizeof_arena :: nat where
  "sizeof_arena = 12"

function init_loop :: "nat \<Rightarrow> desc list \<Rightarrow> desc list option" where
  "init_loop bs ds =
     (if 0 < bs \<and> bs < 4096 div 2 then do {
        kassert (length ds + 1 \<le> 10);
        init_loop (bs * 2) (ds @ [\<lparr>d_block_size = bs, blocks_per_arena = (4096 - sizeof_arena) div bs, free_list = []\<rparr>]) }
      else Some ds)"
  by pat_completeness auto
termination
  by (relation "measure (\<lambda>(bs, ds). 2048 - bs)") auto

declare init_loop.simps [simp del]

definition malloc_init :: "pmem \<Rightarrow> mstate option" where
  "malloc_init m = do { ds \<leftarrow> init_loop 16 []; Some \<lparr>pages = m, descs = ds, arenas = (\<lambda>_. None)\<rparr> }"

section \<open>Blocks and arenas\<close>

definition desc_at :: "mstate \<Rightarrow> nat \<Rightarrow> desc option" where
  "desc_at s k = arr_get (descs s) k"

definition upd_desc :: "nat \<Rightarrow> (vaddr list \<Rightarrow> vaddr list) \<Rightarrow> mstate \<Rightarrow> mstate" where
  "upd_desc k f s = s\<lparr>descs := (descs s)[k := (descs s ! k)\<lparr>free_list := f (free_list (descs s ! k))\<rparr>]\<rparr>"

definition set_free_cnt :: "vaddr \<Rightarrow> nat \<Rightarrow> mstate \<Rightarrow> mstate option" where
  "set_free_cnt a n s = do { ar \<leftarrow> arenas s a; Some (s\<lparr>arenas := (arenas s)(a \<mapsto> ar\<lparr>free_cnt := n\<rparr>)\<rparr>) }"

text \<open>\<^verbatim>\<open>block_to_arena\<close>; where there is no header the test of the magic number fails.\<close>

definition block_to_arena :: "vaddr \<Rightarrow> mstate \<Rightarrow> (vaddr \<times> arena) option" where
  "block_to_arena b s = do {
     let a = pg_round_down b;
     kassert (a \<noteq> 0);
     ar \<leftarrow> arenas s a;
     kassert (magic ar = ARENA_MAGIC);
     (case a_desc ar of
        None \<Rightarrow> kassert (pg_ofs b = of_nat sizeof_arena)
      | Some k \<Rightarrow> do { d \<leftarrow> desc_at s k; kassert (unat (pg_ofs b - of_nat sizeof_arena) mod d_block_size d = 0) });
     Some (a, ar) }"

definition arena_to_block :: "vaddr \<Rightarrow> nat \<Rightarrow> mstate \<Rightarrow> vaddr option" where
  "arena_to_block a idx s = do {
     kassert (a \<noteq> 0);
     ar \<leftarrow> arenas s a;
     kassert (magic ar = ARENA_MAGIC);
     k \<leftarrow> a_desc ar;
     d \<leftarrow> desc_at s k;
     kassert (idx < blocks_per_arena d);
     Some (a + of_nat sizeof_arena + of_nat (idx * d_block_size d)) }"

section \<open>Allocation\<close>

fun find_desc :: "desc list \<Rightarrow> u32 \<Rightarrow> nat option" where
  "find_desc [] sze = None"
| "find_desc (d # ds) sze = (if d_block_size d \<ge> unat sze then Some 0 else map_option Suc (find_desc ds sze))"

definition new_arena :: "nat \<Rightarrow> desc \<Rightarrow> vaddr \<Rightarrow> mstate \<Rightarrow> mstate option" where
  "new_arena k d a s =
     for_loop 0 (blocks_per_arena d) (\<lambda>i s. do { b \<leftarrow> arena_to_block a i s; Some (upd_desc k (\<lambda>l. l @ [b]) s) })
       (s\<lparr>arenas := (arenas s)(a \<mapsto> \<lparr>magic = ARENA_MAGIC, a_desc = Some k, free_cnt = blocks_per_arena d\<rparr>)\<rparr>)"

definition take_block :: "nat \<Rightarrow> mstate \<Rightarrow> (vaddr \<times> mstate) option" where
  "take_block k s = do {
     d \<leftarrow> desc_at s k;
     (case free_list d of
        [] \<Rightarrow> None
      | b # bs \<Rightarrow> do {
          let s = upd_desc k (\<lambda>_. bs) s;
          (a, ar) \<leftarrow> block_to_arena b s;
          s \<leftarrow> set_free_cnt a (sz (free_cnt ar + (2 ^ 32 - 1))) s;
          Some (b, s) }) }"

definition malloc :: "u32 \<Rightarrow> mstate \<Rightarrow> (vaddr \<times> mstate) option" where
  "malloc sze s =
     (if sze = 0 then Some (0, s)
      else case find_desc (descs s) sze of
        None \<Rightarrow> do {
          let page_cnt = (sze + of_nat sizeof_arena + 4096 - 1) div 4096;
          (a, m) \<leftarrow> palloc_get_multiple 0 (unat page_cnt) (pages s);
          let s = s\<lparr>pages := m\<rparr>;
          if a = 0 then Some (0, s)
          else Some (a + of_nat sizeof_arena, s\<lparr>arenas := (arenas s)(a \<mapsto> \<lparr>magic = ARENA_MAGIC, a_desc = None, free_cnt = unat page_cnt\<rparr>)\<rparr>) }
      | Some k \<Rightarrow> do {
          d \<leftarrow> desc_at s k;
          (ok, s) \<leftarrow>
            (if free_list d = [] then do {
               (a, m) \<leftarrow> palloc_get_page 0 (pages s);
               let s = s\<lparr>pages := m\<rparr>;
               if a = 0 then Some (False, s)
               else do { s \<leftarrow> new_arena k d a s; Some (True, s) } }
             else Some (True, s));
          if \<not> ok then Some (0, s)
          else take_block k s })"

definition calloc :: "u32 \<Rightarrow> u32 \<Rightarrow> mstate \<Rightarrow> (vaddr \<times> mstate) option" where
  "calloc a b s = (let sze = a * b in
     if sze < a \<or> sze < b then Some (0, s)
     else do {
       (p, s) \<leftarrow> malloc sze s;
       Some (p, if p \<noteq> 0 then s\<lparr>pages := (pages s)\<lparr>mem := mem_fill p 0 (unat sze) (mem (pages s))\<rparr>\<rparr> else s) })"

section \<open>Freeing\<close>

text \<open>Unlinking a block that is on no list is undefined, and so is linking one that is on a list already.\<close>

definition unlink :: "nat \<Rightarrow> vaddr \<Rightarrow> mstate \<Rightarrow> mstate option" where
  "unlink k b s = do { d \<leftarrow> desc_at s k; kassert (b \<in> set (free_list d)); Some (upd_desc k (remove1 b) s) }"

definition free :: "vaddr \<Rightarrow> mstate \<Rightarrow> mstate option" where
  "free p s =
     (if p = 0 then Some s
      else do {
        (a, ar) \<leftarrow> block_to_arena p s;
        (case a_desc ar of
           Some k \<Rightarrow> do {
             d \<leftarrow> desc_at s k;
             let s = s\<lparr>pages := (pages s)\<lparr>mem := mem_fill p 0xcc (d_block_size d) (mem (pages s))\<rparr>\<rparr>;
             kassert (p \<notin> set (free_list d));
             let s = upd_desc k (\<lambda>l. p # l) s;
             let n = sz (free_cnt ar + 1);
             s \<leftarrow> set_free_cnt a n s;
             if n \<ge> blocks_per_arena d then do {
               kassert (n = blocks_per_arena d);
               s \<leftarrow> for_loop 0 (blocks_per_arena d) (\<lambda>i s. do { b \<leftarrow> arena_to_block a i s; unlink k b s }) s;
               m \<leftarrow> palloc_free_page a (pages s);
               Some (s\<lparr>pages := m, arenas := (arenas s)(a := None)\<rparr>) }
             else Some s }
         | None \<Rightarrow> do {
             m \<leftarrow> palloc_free_multiple a (free_cnt ar) (pages s);
             Some (s\<lparr>pages := m, arenas := (arenas s)(a := None)\<rparr>) }) })"

definition block_size :: "vaddr \<Rightarrow> mstate \<Rightarrow> nat option" where
  "block_size b s = do {
     (a, ar) \<leftarrow> block_to_arena b s;
     (case a_desc ar of
        Some k \<Rightarrow> do { d \<leftarrow> desc_at s k; Some (d_block_size d) }
      | None \<Rightarrow> Some (unat (4096 * of_nat (free_cnt ar) - pg_ofs b))) }"

definition realloc :: "vaddr \<Rightarrow> u32 \<Rightarrow> mstate \<Rightarrow> (vaddr \<times> mstate) option" where
  "realloc old_block new_size s =
     (if new_size = 0 then do { s \<leftarrow> free old_block s; Some (0, s) }
      else do {
        (new_block, s) \<leftarrow> malloc new_size s;
        if old_block \<noteq> 0 \<and> new_block \<noteq> 0 then do {
          old_size \<leftarrow> block_size old_block s;
          let min_size = (if unat new_size < old_size then unat new_size else old_size);
          let s = s\<lparr>pages := (pages s)\<lparr>mem := mem_copy new_block old_block min_size (mem (pages s))\<rparr>\<rparr>;
          s \<leftarrow> free old_block s;
          Some (new_block, s) }
        else Some (new_block, s) })"

section \<open>Pages of the allocator\<close>

text \<open>What the allocations of pages never change: where the kernel pool is, and its number of pages.\<close>

definition kshape :: "pmem \<Rightarrow> vaddr \<times> nat" where
  "kshape m = (base (kernel_pool m), bit_cnt (used_map (kernel_pool m)))"

definition krun :: "pmem \<Rightarrow> vaddr \<Rightarrow> nat \<Rightarrow> bool" where
  "krun m a n \<longleftrightarrow> n \<noteq> 0 \<and> (\<exists>i. i + n \<le> bit_cnt (used_map (kernel_pool m)) \<and> a = page_at (kernel_pool m) i)
     \<and> (\<forall>x \<in> pages_from a n. in_use m x)"

lemma kshape_mem [simp]: "kshape (m\<lparr>mem := f\<rparr>) = kshape m"
  by (simp add: kshape_def)

lemma krun_keep:
  assumes "krun m a n" "kshape m' = kshape m" "\<forall>x \<in> pages_from a n. in_use m x \<longrightarrow> in_use m' x"
  shows "krun m' a n"
  using assms by (auto simp: krun_def kshape_def page_at_def)

lemma palloc_get_kshape:
  assumes ok: "palloc_ok m" and g: "palloc_get_multiple flags n m = Some (a, m')"
  shows "kshape m' = kshape m"
proof (cases "n = 0")
  case True
  then show ?thesis using g by (simp add: palloc_get_multiple_def Let_def)
next
  case False
  let ?u = "flags AND PAL_USER \<noteq> 0"
  let ?p = "the_pool ?u m"
  have wf: "bm_wf (used_map ?p)" using the_pool_ok [OF ok, of ?u] by (simp add: pool_ok_def)
  from bitmap_scan_and_flip_first [OF wf, of 0 n False] obtain i b where
    s: "bitmap_scan_and_flip (used_map ?p) 0 n False = Some (i, b)" and c: "bit_cnt b = bit_cnt (used_map ?p)"
    by (auto simp: bm_becomes_def split: if_splits)
  have "kshape (set_pool ?u (?p\<lparr>used_map := b\<rparr>) m) = kshape m" using c by (auto simp: kshape_def set_pool_def the_pool_def)
  then show ?thesis using g False s by (auto simp: palloc_get_multiple_def Let_def split: if_splits)
qed

lemma bitmap_set_cnt: "bitmap_set b i v = Some b' \<Longrightarrow> bit_cnt b' = bit_cnt b"
  by (auto simp: bitmap_set_def bitmap_mark_def bitmap_reset_def split: if_splits option_bind_splits)

lemma bitmap_set_multiple_cnt:
  assumes "bitmap_set_multiple b i n v = Some b'"
  shows "bit_cnt b' = bit_cnt b"
proof -
  have f: "for_loop 0 n (\<lambda>j b. bitmap_set b (sz (i + j)) v) b = Some b'"
    using assms by (auto simp: bitmap_set_multiple_def split: if_splits option_bind_splits)
  show ?thesis by (rule for_loop_partial_rule [where I = "\<lambda>_ c. bit_cnt c = bit_cnt b", OF f]) (auto dest: bitmap_set_cnt)
qed

lemma palloc_free_kshape:
  assumes "palloc_free_multiple a n m = Some m'"
  shows "kshape m' = kshape m"
proof (cases "a = 0 \<or> n = 0")
  case True
  then show ?thesis using assms by (simp add: palloc_free_multiple_def split: if_splits option_bind_splits)
next
  case False
  have "\<exists>u b i. m' = set_pool u ((the_pool u m)\<lparr>used_map := b\<rparr>) (m\<lparr>mem := mem_fill a 0xcc (sz (4096 * n)) (mem m)\<rparr>)
      \<and> bitmap_set_multiple (used_map (the_pool u m)) i n False = Some b"
    using assms False unfolding palloc_free_multiple_def Let_def
    by (simp only: the_pool_mem kassert_def if_False if_True) (auto split: option_bind_splits if_splits)
  then obtain u b i where "m' = set_pool u ((the_pool u m)\<lparr>used_map := b\<rparr>) (m\<lparr>mem := mem_fill a 0xcc (sz (4096 * n)) (mem m)\<rparr>)"
    "bit_cnt b = bit_cnt (used_map (the_pool u m))" using bitmap_set_multiple_cnt by blast
  then show ?thesis by (cases u) (simp_all add: kshape_def set_pool_def the_pool_def)
qed

text \<open>A run of pages of the kernel pool, taken and given back.\<close>

lemma get_krun:
  assumes hi: "pools_high m"
  shows "(\<exists>a m'. palloc_get_multiple 0 n m = Some (a, m') \<and> a \<noteq> 0 \<and> pools_high m' \<and> kshape m' = kshape m \<and> krun m' a n
      \<and> (\<forall>x \<in> pages_from a n. \<not> in_use m x) \<and> (\<forall>x. in_use m' x \<longleftrightarrow> x \<in> pages_from a n \<or> in_use m x) \<and> mem m' = mem m)
    \<or> palloc_get_multiple 0 n m = Some (0, m)"
proof (cases "n = 0 \<or> palloc_get_multiple 0 n m = Some (0, m)")
  case True
  then show ?thesis by (auto simp: palloc_get_multiple_def Let_def)
next
  case False
  have ok: "palloc_ok m" using hi by (simp add: pools_high_def)
  let ?p = "kernel_pool m"
  have p: "?p = the_pool (0 AND PAL_USER \<noteq> 0) m" by (simp add: the_pool_def)
  from palloc_get_cases [OF ok _ p, of n] False obtain i m' where
    r: "i + n \<le> bit_cnt (used_map ?p)" "palloc_get_multiple 0 n m = Some (page_at ?p i, m')" "palloc_ok m'"
       "\<forall>k < n. \<not> in_use m (page_at ?p (i + k))" "\<forall>x. in_use m' x \<longleftrightarrow> x \<in> pages_from (page_at ?p i) n \<or> in_use m x"
       "\<forall>x. mem m' x = mem m x" by auto
  note sh = palloc_get_kshape [OF ok r(2)]
  have pk: "pool_ok ?p" using ok by (simp add: palloc_ok_def)
  have "page_at ?p i \<noteq> 0" by (rule page_at_nonnull [OF pk]) (use r(1) in simp)
  moreover have "pools_high m'" using hi r(3) sh by (simp add: pools_high_def kshape_def)
  moreover have "krun m' (page_at ?p i) n" using r(1,5) False sh by (auto simp: krun_def kshape_def page_at_def)
  moreover have "\<forall>x \<in> pages_from (page_at ?p i) n. \<not> in_use m x" using r(4) by (auto simp: pages_from_page_at)
  moreover have "mem m' = mem m" using r(6) by blast
  ultimately show ?thesis using r(2,5) sh by blast
qed

lemma free_krun:
  assumes hi: "pools_high m" and a: "krun m a n"
  shows "\<exists>m'. palloc_free_multiple a n m = Some m' \<and> pools_high m' \<and> kshape m' = kshape m
    \<and> (\<forall>x. in_use m' x \<longleftrightarrow> x \<notin> pages_from a n \<and> in_use m x)
    \<and> (\<forall>x. mem m' x = (if unat (x - a) < 4096 * n then 0xcc else mem m x))"
proof -
  have ok: "palloc_ok m" using hi by (simp add: pools_high_def)
  let ?p = "kernel_pool m"
  obtain i where n: "n \<noteq> 0" and i: "i + n \<le> bit_cnt (used_map ?p)" "a = page_at ?p i" and u: "\<forall>x \<in> pages_from a n. in_use m x"
    using a by (auto simp: krun_def)
  have p: "?p = the_pool False m" by (simp add: the_pool_def)
  have il: "i < bit_cnt (used_map ?p)" using n i(1) by simp
  have all: "\<forall>k < n. in_use m (page_at ?p (i + k))" using u by (auto simp: i pages_from_page_at)
  from palloc_free_cases [OF ok n p il i(1)] all obtain m' where
    r: "palloc_free_multiple a n m = Some m'" "palloc_ok m'" "\<forall>x. in_use m' x \<longleftrightarrow> x \<notin> pages_from a n \<and> in_use m x"
      "\<forall>x. mem m' x = (if unat (x - a) < 4096 * n then 0xcc else mem m x)" by (auto simp: i(2))
  note palloc_free_kshape [OF r(1)]
  moreover have "pools_high m'" using palloc_free_bases [OF r(1)] hi r(2) by (simp add: pools_high_def bases_def)
  ultimately show ?thesis using r by blast
qed

section \<open>Blocks as ranges of bytes\<close>

definition bsz :: "nat \<Rightarrow> nat" where
  "bsz k = 16 * 2 ^ k"

definition bpa :: "nat \<Rightarrow> nat" where
  "bpa k = 4084 div bsz k"

definition blk :: "vaddr \<Rightarrow> nat \<Rightarrow> nat \<Rightarrow> vaddr" where
  "blk a k i = a + of_nat (12 + i * bsz k)"

definition bytes :: "vaddr \<Rightarrow> nat \<Rightarrow> vaddr set" where
  "bytes b n = {x. unat (x - b) < n}"

lemma bsz_pos [simp]: "0 < bsz k"
  by (simp add: bsz_def)

lemma bpa_room:
  assumes "i < bpa k"
  shows "12 + i * bsz k + bsz k \<le> 4096"
proof -
  have "Suc i * bsz k \<le> 4084 div bsz k * bsz k" using assms by (intro mult_le_mono1) (simp add: bpa_def)
  also have "\<dots> \<le> 4084" by simp
  finally show ?thesis by simp
qed

lemma u32_small: "n < 2 ^ 32 \<Longrightarrow> unat (of_nat n :: u32) = n"
  by (simp add: unat_of_nat)

lemma blk_ofs:
  assumes "i < bpa k" "x \<in> bytes (blk a k i) (bsz k)"
  shows "unat (x - a) = 12 + i * bsz k + unat (x - blk a k i)"
proof -
  define r where "r = unat (x - blk a k i)"
  have r: "r < bsz k" using assms(2) by (simp add: r_def bytes_def)
  have "x - a = (x - blk a k i) + of_nat (12 + i * bsz k)" by (simp add: blk_def)
  also have "\<dots> = of_nat (12 + i * bsz k + r)" by (simp add: r_def)
  finally have "unat (x - a) = unat (of_nat (12 + i * bsz k + r) :: u32)" by (rule arg_cong)
  moreover have "12 + i * bsz k + r < 2 ^ 32" using bpa_room [OF assms(1)] r by simp
  ultimately show ?thesis unfolding r_def [symmetric] by (simp only: u32_small)
qed

lemma blk_self: "blk a k i \<in> bytes (blk a k i) (bsz k)"
  by (simp add: bytes_def)

lemma blk_on_page: "i < bpa k \<Longrightarrow> x \<in> bytes (blk a k i) (bsz k) \<Longrightarrow> on_page a x"
  using blk_ofs [of i k x a] bpa_room [of i k] by (auto simp: on_page_def bytes_def)

lemma row_unique:
  assumes "i * n + r = j * n + t" "r < n" "t < (n :: nat)"
  shows "i = j"
proof -
  have "(i * n + r) div n = i" "(j * n + t) div n = j" using assms(2,3) by simp_all
  then show ?thesis unfolding assms(1) by simp
qed

lemma blk_disjoint:
  assumes "i < bpa k" "j < bpa k" "x \<in> bytes (blk a k i) (bsz k)" "x \<in> bytes (blk a k j) (bsz k)"
  shows "i = j"
proof -
  have e: "i * bsz k + unat (x - blk a k i) = j * bsz k + unat (x - blk a k j)"
    using blk_ofs [OF assms(1,3)] blk_ofs [OF assms(2,4)] by simp
  show ?thesis by (rule row_unique [OF e]) (use assms(3,4) in \<open>simp_all add: bytes_def\<close>)
qed

lemma blk_inj:
  assumes "aligned a" "aligned a'" "i < bpa k" "j < bpa k" "blk a k i = blk a' k j"
  shows "a = a' \<and> i = j"
proof -
  have "a = a'" using on_page_unique [OF assms(1,2)] blk_on_page [OF assms(3) blk_self [of a k i]]
      blk_on_page [OF assms(4) blk_self [of a' k j]] assms(5) by simp
  moreover from this assms(5) have "blk a k i \<in> bytes (blk a k j) (bsz k)" using blk_self by simp
  ultimately show ?thesis using blk_disjoint [OF assms(3,4) blk_self] by blast
qed

lemma blk_nonnull:
  assumes "aligned a" "i < bpa k"
  shows "blk a k i \<noteq> 0"
proof -
  have "12 + i * bsz k < 4096" using bpa_room [OF assms(2)] bsz_pos [of k] by linarith
  from unat_page_add [OF assms(1) this] have "unat (blk a k i) = unat a + (12 + i * bsz k)" unfolding blk_def .
  then show ?thesis by (intro notI) simp
qed

lemma page_part:
  assumes "aligned a" "n < 4096"
  shows "pg_round_down (a + of_nat n) = a" "unat (pg_ofs (a + of_nat n)) = n"
proof -
  have e: "unat (a + of_nat n) = unat a + n" by (rule unat_page_add [OF assms])
  have m: "unat a mod 4096 = 0" using assms(1) by (simp add: aligned_def)
  show o: "unat (pg_ofs (a + of_nat n)) = n" unfolding pg_ofs_mod e using m assms(2) by (simp add: mod_add_eq [symmetric])
  have "unat (pg_round_down (a + of_nat n)) = unat a" unfolding unat_pg_round_down using o e by (simp add: pg_ofs_mod)
  then show "pg_round_down (a + of_nat n) = a" by (rule word_unat_eq_iff [THEN iffD2])
qed

lemma blk_page:
  assumes "aligned a" "i < bpa k"
  shows "pg_round_down (blk a k i) = a" "unat (pg_ofs (blk a k i)) = 12 + i * bsz k"
proof -
  have "12 + i * bsz k < 4096" using bpa_room [OF assms(2)] bsz_pos [of k] by linarith
  from page_part [OF assms(1) this] show "pg_round_down (blk a k i) = a" "unat (pg_ofs (blk a k i)) = 12 + i * bsz k"
    by (simp_all only: blk_def)
qed

section \<open>The invariant of the heap\<close>

type_synonym lists = "nat \<Rightarrow> vaddr list"
type_synonym headers = "vaddr \<Rightarrow> arena option"

definition apages :: "arena \<Rightarrow> nat" where
  "apages ar = (case a_desc ar of None \<Rightarrow> free_cnt ar | Some k \<Rightarrow> 1)"

text \<open>The free blocks of an arena, by their index, and the blocks of it that are handed out, with their sizes.\<close>

definition fidx :: "lists \<Rightarrow> vaddr \<Rightarrow> nat \<Rightarrow> nat set" where
  "fidx F a k = {i. i < bpa k \<and> blk a k i \<in> set (F k)}"

definition ablocks :: "lists \<Rightarrow> vaddr \<Rightarrow> arena \<Rightarrow> (vaddr \<times> nat) set" where
  "ablocks F a ar = (case a_desc ar of
      None \<Rightarrow> {(a + 12, 4096 * free_cnt ar - 12)}
    | Some k \<Rightarrow> (\<lambda>i. (blk a k i, bsz k)) ` ({..<bpa k} - fidx F a k))"

definition arenas_ok :: "pmem \<Rightarrow> headers \<Rightarrow> bool" where
  "arenas_ok m A \<longleftrightarrow> (\<forall>a ar. A a = Some ar \<longrightarrow> magic ar = ARENA_MAGIC \<and> krun m a (apages ar) \<and> (\<forall>k. a_desc ar = Some k \<longrightarrow> k < 7))
     \<and> (\<forall>a b ar br. A a = Some ar \<longrightarrow> A b = Some br \<longrightarrow> a \<noteq> b \<longrightarrow> pages_from a (apages ar) \<inter> pages_from b (apages br) = {})"

definition lists_ok :: "headers \<Rightarrow> lists \<Rightarrow> bool" where
  "lists_ok A F \<longleftrightarrow> (\<forall>k < 7. distinct (F k)
        \<and> (\<forall>b \<in> set (F k). \<exists>a ar i. A a = Some ar \<and> a_desc ar = Some k \<and> i < bpa k \<and> b = blk a k i))
     \<and> (\<forall>a ar k. A a = Some ar \<longrightarrow> a_desc ar = Some k \<longrightarrow> free_cnt ar = card (fidx F a k))"

lemma page_self: "0 < n \<Longrightarrow> a \<in> pages_from a n"
  by (auto simp: pages_from_def intro: image_eqI [where x = 0])

lemma arenas_okD:
  assumes "arenas_ok m A" "A a = Some ar"
  shows "magic ar = ARENA_MAGIC" "krun m a (apages ar)" "a_desc ar = Some k \<Longrightarrow> k < 7" "in_use m a"
proof -
  show "magic ar = ARENA_MAGIC" "a_desc ar = Some k \<Longrightarrow> k < 7" and r: "krun m a (apages ar)" using assms by (auto simp: arenas_ok_def)
  then show "in_use m a" using page_self [of "apages ar" a] by (auto simp: krun_def)
qed

lemma arenas_sep:
  "arenas_ok m A \<Longrightarrow> A a = Some ar \<Longrightarrow> A b = Some br \<Longrightarrow> a \<noteq> b \<Longrightarrow> pages_from a (apages ar) \<inter> pages_from b (apages br) = {}"
  unfolding arenas_ok_def by blast

lemma extent_page:
  assumes "x \<in> bytes a (4096 * n)"
  shows "\<exists>q \<in> pages_from a n. on_page q x"
proof -
  define d where "d = unat (x - a)"
  have d: "d < 4096 * n" using assms by (simp add: d_def bytes_def)
  define q where "q = a + 4096 * of_nat (d div 4096)"
  have "x - q = of_nat d - of_nat (4096 * (d div 4096))" by (simp add: q_def d_def)
  also have "\<dots> = of_nat (d mod 4096)" by (simp only: of_nat_diff [symmetric, OF times_div_less_eq_dividend] minus_mult_div_eq_mod)
  finally have "unat (x - q) = unat (of_nat (d mod 4096) :: u32)" by (rule arg_cong)
  then have "on_page q x" unfolding on_page_def by (subst (asm) u32_small) simp_all
  moreover have "d div 4096 < n" using d by (simp add: less_mult_imp_div_less mult.commute)
  then have "q \<in> pages_from a n" by (auto simp: q_def pages_from_def)
  ultimately show ?thesis by blast
qed

lemma extents_disjoint:
  assumes hi: "pools_high m" and ok: "arenas_ok m A" and a: "A a = Some ar" "x \<in> bytes a (4096 * apages ar)"
    and b: "A b = Some br" "x \<in> bytes b (4096 * apages br)"
  shows "a = b"
proof (rule ccontr)
  assume n: "a \<noteq> b"
  obtain q r where qr: "q \<in> pages_from a (apages ar)" "on_page q x" "r \<in> pages_from b (apages br)" "on_page r x"
    using extent_page [OF a(2)] extent_page [OF b(2)] by blast
  then have "in_use m q" "in_use m r" using arenas_okD(2) [OF ok a(1)] arenas_okD(2) [OF ok b(1)] by (auto simp: krun_def)
  then have "q = r" using in_use_page(2) [OF hi] on_page_unique qr by blast
  then show False using qr arenas_sep [OF ok a(1) b(1) n] by blast
qed

lemma ablocks_extent:
  assumes "(p, n) \<in> ablocks F a ar" "krun m a (apages ar)" "palloc_ok m"
  shows "bytes p n \<subseteq> bytes a (4096 * apages ar)" "p \<in> bytes p n" "0 < n"
proof -
  have "bytes p n \<subseteq> bytes a (4096 * apages ar) \<and> 0 < n"
  proof (cases "a_desc ar")
    case (Some k)
    then obtain i where i: "i < bpa k" "p = blk a k i" "n = bsz k" using assms(1) by (auto simp: ablocks_def)
    then show ?thesis using blk_on_page [OF i(1)] Some by (auto simp: apages_def on_page_def bytes_def)
  next
    case None
    then have pn: "p = a + 12" "n = 4096 * free_cnt ar - 12" and ap: "apages ar = free_cnt ar"
      using assms(1) by (auto simp: ablocks_def apages_def)
    have lim: "0 < free_cnt ar" "4096 * free_cnt ar < 2 ^ 32"
      using assms(2,3) by (auto simp: krun_def ap palloc_ok_def pool_ok_def)
    have "unat (x - a) < 4096 * free_cnt ar" if x: "unat (x - p) < n" for x
    proof -
      have "x - a = of_nat (unat (x - p) + 12)" by (simp add: pn)
      then have "unat (x - a) = unat (of_nat (unat (x - p) + 12) :: u32)" by (rule arg_cong)
      also have "\<dots> = unat (x - p) + 12" by (rule u32_small) (use x pn(2) lim in simp)
      finally show ?thesis using x pn(2) by simp
    qed
    then show ?thesis using lim pn(2) by (auto simp: bytes_def ap)
  qed
  then show "bytes p n \<subseteq> bytes a (4096 * apages ar)" "0 < n" by auto
  then show "p \<in> bytes p n" by (simp add: bytes_def)
qed

section \<open>The blocks that are handed out\<close>

definition blocks :: "headers \<Rightarrow> lists \<Rightarrow> (vaddr \<times> nat) set" where
  "blocks A F = {x. \<exists>a ar. A a = Some ar \<and> x \<in> ablocks F a ar}"

definition rest :: "headers \<Rightarrow> lists \<Rightarrow> vaddr \<Rightarrow> (vaddr \<times> nat) set" where
  "rest A F a = {x. \<exists>b br. b \<noteq> a \<and> A b = Some br \<and> x \<in> ablocks F b br}"

lemma blocks_split: "A a = Some ar \<Longrightarrow> blocks A F = ablocks F a ar \<union> rest A F a"
  unfolding blocks_def rest_def by (intro set_eqI iffI) (auto, metis option.inject)

lemma blocks_split_None: "A a = None \<Longrightarrow> blocks A F = rest A F a"
  unfolding blocks_def rest_def by (intro set_eqI iffI) (auto, metis option.distinct(1))

lemma rest_upd [simp]: "rest (A(a := z)) F a = rest A F a"
  by (auto simp: rest_def)

lemma rest_cong: "(\<And>b br. b \<noteq> a \<Longrightarrow> A b = Some br \<Longrightarrow> ablocks F' b br = ablocks F b br) \<Longrightarrow> rest A F' a = rest A F a"
  by (auto simp: rest_def)

lemma rest_extent:
  assumes hi: "pools_high m" and ok: "arenas_ok m A" and a: "A a = Some ar" "x \<in> bytes a (4096 * apages ar)" and p: "(p, n) \<in> rest A F a"
  shows "x \<notin> bytes p n"
proof
  assume x: "x \<in> bytes p n"
  obtain b br where b: "b \<noteq> a" "A b = Some br" "(p, n) \<in> ablocks F b br" using p by (auto simp: rest_def)
  have "x \<in> bytes b (4096 * apages br)"
    using ablocks_extent(1) [OF b(3) arenas_okD(2) [OF ok b(2)]] hi x by (auto simp: pools_high_def)
  then show False using extents_disjoint [OF hi ok a b(2)] b(1) by simp
qed

lemma rest_not_ablocks:
  assumes hi: "pools_high m" and ok: "arenas_ok m A" and a: "A a = Some ar" and p: "(p, n) \<in> ablocks F a ar"
  shows "(p, n') \<notin> rest A F a"
proof
  assume r: "(p, n') \<in> rest A F a"
  obtain b br where b: "b \<noteq> a" "A b = Some br" "(p, n') \<in> ablocks F b br" using r by (auto simp: rest_def)
  have po: "palloc_ok m" using hi by (simp add: pools_high_def)
  have "p \<in> bytes p n'" using ablocks_extent(2) [OF b(3) arenas_okD(2) [OF ok b(2)] po] .
  moreover have "p \<in> bytes a (4096 * apages ar)"
    using ablocks_extent(1,2) [OF p arenas_okD(2) [OF ok a] po] by blast
  ultimately show False using rest_extent [OF hi ok a _ r] by blast
qed

text \<open>Blocks that are handed out do not overlap.\<close>

lemma blocks_disjoint:
  assumes hi: "pools_high m" and ok: "arenas_ok m A" and p: "(p, n) \<in> blocks A F" and q: "(q, l) \<in> blocks A F" and ne: "(p, n) \<noteq> (q, l)"
  shows "bytes p n \<inter> bytes q l = {}"
proof -
  obtain a ar where a: "A a = Some ar" "(p, n) \<in> ablocks F a ar" using p by (auto simp: blocks_def)
  have po: "palloc_ok m" using hi by (simp add: pools_high_def)
  from q blocks_split [of A a ar F, OF a(1)] consider "(q, l) \<in> rest A F a" | "(q, l) \<in> ablocks F a ar" by blast
  then show ?thesis
  proof cases
    case 1
    then show ?thesis using ablocks_extent(1) [OF a(2) arenas_okD(2) [OF ok a(1)] po] rest_extent [OF hi ok a(1) _ 1] by blast
  next
    case 2
    then obtain k i j where k: "i < bpa k" "j < bpa k" "i \<noteq> j" "p = blk a k i" "q = blk a k j" "n = bsz k" "l = bsz k"
      using a(2) ne by (auto simp: ablocks_def split: option.splits)
    then show ?thesis using blk_disjoint [OF k(1,2)] by blast
  qed
qed

section \<open>Changes of the heap\<close>

lemma arenas_ok_pages:
  assumes "arenas_ok m A" "kshape m' = kshape m" "\<And>x a ar. A a = Some ar \<Longrightarrow> x \<in> pages_from a (apages ar) \<Longrightarrow> in_use m x \<Longrightarrow> in_use m' x"
  shows "arenas_ok m' A"
  using assms(1) krun_keep [OF _ assms(2)] assms(3) unfolding arenas_ok_def by blast

lemma arenas_ok_drop: "arenas_ok m A \<Longrightarrow> arenas_ok m (A(a := None))"
  unfolding arenas_ok_def by (simp add: fun_upd_def)

lemma arenas_ok_add:
  assumes ok: "arenas_ok m A" and ar: "magic ar = ARENA_MAGIC" "krun m a (apages ar)" "\<And>k. a_desc ar = Some k \<Longrightarrow> k < 7"
    and d: "\<And>b br. A b = Some br \<Longrightarrow> b \<noteq> a \<Longrightarrow> pages_from a (apages ar) \<inter> pages_from b (apages br) = {}"
  shows "arenas_ok m (A(a \<mapsto> ar))"
  unfolding arenas_ok_def
proof (intro conjI allI impI)
  fix b c br cr assume bc: "(A(a \<mapsto> ar)) b = Some br" "(A(a \<mapsto> ar)) c = Some cr" "b \<noteq> c"
  consider "b = a" "c \<noteq> a" | "c = a" "b \<noteq> a" | "b \<noteq> a" "c \<noteq> a" using bc(3) by blast
  then show "pages_from b (apages br) \<inter> pages_from c (apages cr) = {}"
  proof cases
    case 1
    then show ?thesis using d [of c cr] bc by simp
  next
    case 2
    then show ?thesis using d [of b br] bc by (simp add: Int_commute)
  next
    case 3
    then show ?thesis using ok bc unfolding arenas_ok_def by simp
  qed
qed (use ok ar in \<open>auto simp: arenas_ok_def split: if_splits\<close>)

lemma arenas_ok_cnt:
  assumes ok: "arenas_ok m A" and a: "A a = Some ar" "a_desc ar = Some k"
  shows "arenas_ok m (A(a \<mapsto> ar\<lparr>free_cnt := n\<rparr>))"
proof (rule arenas_ok_add [OF ok])
  show "magic (ar\<lparr>free_cnt := n\<rparr>) = ARENA_MAGIC" "krun m a (apages (ar\<lparr>free_cnt := n\<rparr>))"
    using arenas_okD(1,2) [OF ok a(1)] a(2) by (simp_all add: apages_def)
  show "j < 7" if "a_desc (ar\<lparr>free_cnt := n\<rparr>) = Some j" for j using arenas_okD(3) [OF ok a(1)] that by simp
  show "pages_from a (apages (ar\<lparr>free_cnt := n\<rparr>)) \<inter> pages_from b (apages br) = {}" if "A b = Some br" "b \<noteq> a" for b br
    using arenas_sep [OF ok a(1) that(1)] that(2) a(2) by (simp add: apages_def)
qed

text \<open>A change of one block of an arena between free and handed out.\<close>

lemma fidx_upd: "fidx (F(k := L)) a j = (if j = k then {i. i < bpa k \<and> blk a k i \<in> set L} else fidx F a j)"
  by (simp add: fidx_def)

lemma fidx_finite [simp]: "finite (fidx F a k)"
  by (simp add: fidx_def)

lemma ablocks_upd_other:
  assumes "aligned a" "aligned b" "b \<noteq> a" "i < bpa k" "set L - {blk a k i} = set (F k) - {blk a k i}"
  shows "fidx (F(k := L)) b j = fidx F b j" "ablocks (F(k := L)) b br = ablocks F b br"
proof -
  have "blk b k l \<noteq> blk a k i" if "l < bpa k" for l using blk_inj [OF assms(2,1) that assms(4)] assms(3) by blast
  then show "fidx (F(k := L)) b j = fidx F b j" for j using assms(5) unfolding fidx_upd by (auto simp: fidx_def)
  then show "ablocks (F(k := L)) b br = ablocks F b br" by (simp add: ablocks_def split: option.splits)
qed

lemma fidx_upd_same:
  assumes "aligned a" "i < bpa k" "set L - {blk a k i} = set (F k) - {blk a k i}"
  shows "fidx (F(k := L)) a k = (if blk a k i \<in> set L then insert i (fidx F a k) else fidx F a k - {i})"
proof (rule set_eqI)
  fix l
  have "l = i" if "l < bpa k" "blk a k l = blk a k i" using blk_inj [OF assms(1,1) that(1) assms(2) that(2)] by blast
  moreover have "x \<in> set L \<longleftrightarrow> x \<in> set (F k)" if "x \<noteq> blk a k i" for x using assms(3) that by blast
  ultimately show "l \<in> fidx (F(k := L)) a k \<longleftrightarrow> l \<in> (if blk a k i \<in> set L then insert i (fidx F a k) else fidx F a k - {i})"
    using assms(2) unfolding fidx_upd by (cases "l = i") (simp_all add: fidx_def, blast)
qed

lemma lists_ok_change:
  assumes ok: "lists_ok A F" and al: "\<And>b br. A b = Some br \<Longrightarrow> aligned b" and a: "A a = Some ar" "a_desc ar = Some k" "i < bpa k"
    and L: "set L - {blk a k i} = set (F k) - {blk a k i}" "distinct L" and n: "n = card (fidx (F(k := L)) a k)"
  shows "lists_ok (A(a \<mapsto> ar\<lparr>free_cnt := n\<rparr>)) (F(k := L))"
proof -
  let ?A = "A(a \<mapsto> ar\<lparr>free_cnt := n\<rparr>)"
  have h: "\<exists>b br. ?A b = Some br \<and> a_desc br = Some j \<and> (\<exists>i. i < bpa j \<and> x = blk b j i)"
    if ex: "\<exists>b br i. A b = Some br \<and> a_desc br = Some j \<and> i < bpa j \<and> x = blk b j i" for j x
  proof -
    obtain b br i where b: "A b = Some br" "a_desc br = Some j" "i < bpa j" "x = blk b j i" using ex by blast
    show ?thesis
      using b a(1) by (cases "b = a") (auto intro!: exI [of _ b])
  qed
  have "distinct ((F(k := L)) j)" if "j < 7" for j using ok L that by (simp add: lists_ok_def)
  moreover have "\<exists>b br i. ?A b = Some br \<and> a_desc br = Some j \<and> i < bpa j \<and> x = blk b j i" if "j < 7" "x \<in> set ((F(k := L)) j)" for j x
  proof (cases "x = blk a k i \<and> j = k")
    case True
    then show ?thesis using a by (intro exI [of _ a] exI [of _ "ar\<lparr>free_cnt := n\<rparr>"] exI [of _ i]) simp
  next
    case False
    then have "x \<in> set (F j)" using that L(1) by (auto split: if_splits)
    then show ?thesis using h [of j x] ok that(1) unfolding lists_ok_def by blast
  qed
  moreover have "free_cnt br = card (fidx (F(k := L)) b j)" if b: "?A b = Some br" "a_desc br = Some j" for b br j
  proof (cases "b = a")
    case True
    then show ?thesis using b a n by auto
  next
    case False
    then show ?thesis using b ok ablocks_upd_other(1) [where F = F and L = L, OF al [OF a(1)] al False a(3) L(1)] by (simp add: lists_ok_def)
  qed
  ultimately show ?thesis unfolding lists_ok_def by blast
qed

section \<open>The invariant on states\<close>

definition fl :: "mstate \<Rightarrow> lists" where
  "fl s k = free_list (descs s ! k)"

definition sizes_ok :: "desc list \<Rightarrow> bool" where
  "sizes_ok ds \<longleftrightarrow> length ds = 7 \<and> (\<forall>k < 7. d_block_size (ds ! k) = bsz k \<and> blocks_per_arena (ds ! k) = bpa k)"

definition heap_inv :: "mstate \<Rightarrow> bool" where
  "heap_inv s \<longleftrightarrow> sizes_ok (descs s) \<and> pools_high (pages s) \<and> arenas_ok (pages s) (arenas s) \<and> lists_ok (arenas s) (fl s)"

text \<open>Between operations no arena of small blocks is wholly free.\<close>

definition heap_ok :: "mstate \<Rightarrow> bool" where
  "heap_ok s \<longleftrightarrow> heap_inv s \<and> (\<forall>a ar k. arenas s a = Some ar \<longrightarrow> a_desc ar = Some k \<longrightarrow> free_cnt ar < bpa k)"

definition live :: "mstate \<Rightarrow> (vaddr \<times> nat) set" where
  "live s = blocks (arenas s) (fl s)"

lemma heap_invD:
  assumes "heap_inv s"
  shows "sizes_ok (descs s)" "pools_high (pages s)" "arenas_ok (pages s) (arenas s)" "lists_ok (arenas s) (fl s)"
  using assms by (simp_all add: heap_inv_def)

lemma arena_aligned: "heap_inv s \<Longrightarrow> arenas s a = Some ar \<Longrightarrow> aligned a \<and> a \<noteq> 0"
  using in_use_page(1,2) arenas_okD(4) by (metis heap_invD(2,3))

lemma desc_at_ok: "sizes_ok (descs s) \<Longrightarrow> k < 7 \<Longrightarrow> desc_at s k = Some (descs s ! k)"
  by (simp add: desc_at_def arr_get_def sizes_ok_def)

lemma sizes_okD: "sizes_ok ds \<Longrightarrow> k < 7 \<Longrightarrow> d_block_size (ds ! k) = bsz k \<and> blocks_per_arena (ds ! k) = bpa k"
  by (simp add: sizes_ok_def)

lemma upd_desc_fields [simp]:
  "pages (upd_desc k f s) = pages s" "arenas (upd_desc k f s) = arenas s"
  by (simp_all add: upd_desc_def)

lemma upd_desc_sizes [simp]: "sizes_ok (descs s) \<Longrightarrow> sizes_ok (descs (upd_desc k f s))"
  by (cases "k < 7") (auto simp: sizes_ok_def upd_desc_def nth_list_update)

lemma upd_desc_fl: "sizes_ok (descs s) \<Longrightarrow> k < 7 \<Longrightarrow> fl (upd_desc k f s) = (fl s)(k := f (fl s k))"
  by (rule ext) (simp add: fl_def upd_desc_def sizes_ok_def nth_list_update)

lemma fl_fields [simp]: "fl (s\<lparr>arenas := x\<rparr>) = fl s" "fl (s\<lparr>pages := y\<rparr>) = fl s"
  by (simp_all add: fl_def fun_eq_iff)

lemma bpa_small: "bpa k \<le> 255"
proof -
  have "(1 :: nat) \<le> 2 ^ k" by simp
  then have "16 \<le> bsz k" unfolding bsz_def by linarith
  then have "4084 div bsz k \<le> 4084 div 16" by (rule div_le_mono2 [rotated]) simp
  then show ?thesis by (simp add: bpa_def)
qed

lemma bpa_pos: "k < 7 \<Longrightarrow> 0 < bpa k"
proof -
  assume "k < 7"
  then have "(2 :: nat) ^ k \<le> 2 ^ 6" by (intro power_increasing) simp_all
  then have "bsz k \<le> 1024" by (simp add: bsz_def)
  then show "0 < bpa k" by (simp add: bpa_def div_greater_zero_iff)
qed

lemma fidx_card: "card (fidx F a k) \<le> bpa k"
proof -
  have "card (fidx F a k) \<le> card {..<bpa k}" by (rule card_mono) (auto simp: fidx_def)
  then show ?thesis by simp
qed

lemma arena_cnt:
  assumes "heap_inv s" "arenas s a = Some ar" "a_desc ar = Some k"
  shows "free_cnt ar = card (fidx (fl s) a k)" "k < 7"
  using heap_invD(4) [OF assms(1)] arenas_okD(3) [OF heap_invD(3) [OF assms(1)] assms(2)] assms by (auto simp: lists_ok_def)

lemma block_to_arena_blk:
  assumes "sizes_ok (descs s)" "k < 7" "aligned a" "a \<noteq> 0" "arenas s a = Some ar" "magic ar = ARENA_MAGIC" "a_desc ar = Some k" "i < bpa k"
  shows "block_to_arena (blk a k i) s = Some (a, ar)"
proof -
  note bp = blk_page [OF assms(3,8)]
  have "of_nat sizeof_arena \<le> pg_ofs (blk a k i)" by (simp add: word_le_nat_alt bp(2) sizeof_arena_def)
  then have "unat (pg_ofs (blk a k i) - of_nat sizeof_arena) = i * bsz k"
    by (simp add: unat_sub bp(2)) (simp add: sizeof_arena_def)
  then show ?thesis using assms sizes_okD [OF assms(1,2)]
    by (simp add: block_to_arena_def bp(1) desc_at_ok)
qed

lemma arena_to_block_blk:
  assumes "sizes_ok (descs s)" "k < 7" "a \<noteq> 0" "arenas s a = Some ar" "magic ar = ARENA_MAGIC" "a_desc ar = Some k" "i < bpa k"
  shows "arena_to_block a i s = Some (blk a k i)"
  using assms sizes_okD [OF assms(1,2)] by (simp add: arena_to_block_def desc_at_ok blk_def sizeof_arena_def)

section \<open>Handing out and taking back one block\<close>

lemma krun_mem [simp]: "krun (m\<lparr>mem := f\<rparr>) a n = krun m a n"
  by (simp add: krun_def page_at_def)

lemma arenas_ok_mem [simp]: "arenas_ok (m\<lparr>mem := f\<rparr>) A = arenas_ok m A"
  by (simp add: arenas_ok_def)

lemma pools_high_mem [simp]: "pools_high (m\<lparr>mem := f\<rparr>) = pools_high m"
  by (simp add: pools_high_def)

lemma live_small:
  assumes "arenas s a = Some ar" "a_desc ar = Some k"
  shows "live s = (\<lambda>i. (blk a k i, bsz k)) ` ({..<bpa k} - fidx (fl s) a k) \<union> rest (arenas s) (fl s) a"
  using blocks_split [where A = "arenas s", OF assms(1), of "fl s"] assms(2) by (simp add: live_def ablocks_def)

lemma flip_block:
  assumes inv: "heap_inv s" and a: "arenas s a = Some ar" "a_desc ar = Some k" "i < bpa k"
    and L: "set L - {blk a k i} = set (fl s k) - {blk a k i}" "distinct L" and n: "n = card (fidx ((fl s)(k := L)) a k)"
    and s': "sizes_ok (descs s')" "fl s' = (fl s)(k := L)" "arenas s' = (arenas s)(a \<mapsto> ar\<lparr>free_cnt := n\<rparr>)" "pages s' = (pages s)\<lparr>mem := f\<rparr>"
  shows "heap_inv s'" "live s' = (\<lambda>i. (blk a k i, bsz k)) ` ({..<bpa k} - fidx ((fl s)(k := L)) a k) \<union> rest (arenas s) (fl s) a"
proof -
  note H = heap_invD [OF inv] and al = arena_aligned [OF inv, THEN conjunct1]
  have "lists_ok (arenas s') (fl s')" unfolding s'(2,3) by (rule lists_ok_change [OF H(4) al a L n])
  then show "heap_inv s'" using H s'(1) arenas_ok_cnt [OF H(3) a(1,2)] by (simp add: heap_inv_def s'(3,4))
  have r: "rest (arenas s) ((fl s)(k := L)) a = rest (arenas s) (fl s) a"
    by (rule rest_cong) (use ablocks_upd_other(2) [where F = "fl s" and L = L, OF al [OF a(1)] _ _ a(3) L(1)] al in blast)
  show "live s' = (\<lambda>i. (blk a k i, bsz k)) ` ({..<bpa k} - fidx ((fl s)(k := L)) a k) \<union> rest (arenas s) (fl s) a"
    using live_small [of s' a "ar\<lparr>free_cnt := n\<rparr>" k] a(2) r by (simp add: s'(2,3))
qed

lemma blk_rest:
  assumes inv: "heap_inv s" and a: "arenas s a = Some ar" "a_desc ar = Some k" "i < bpa k"
  shows "(blk a k i, n) \<notin> rest (arenas s) (fl s) a"
proof -
  let ?F = "\<lambda>_. []"
  note H = heap_invD [OF inv]
  have f: "(blk a k i, bsz k) \<in> ablocks ?F a ar" using a by (auto simp: ablocks_def fidx_def)
  have e: "blk a k i \<in> bytes a (4096 * apages ar)"
    using ablocks_extent(1,2) [OF f arenas_okD(2) [OF H(3) a(1)]] H(2) by (auto simp: pools_high_def)
  show ?thesis
  proof
    assume r: "(blk a k i, n) \<in> rest (arenas s) (fl s) a"
    obtain b br where b: "arenas s b = Some br" "(blk a k i, n) \<in> ablocks (fl s) b br" using r by (auto simp: rest_def)
    have "blk a k i \<in> bytes (blk a k i) n"
      using ablocks_extent(2) [OF b(2) arenas_okD(2) [OF H(3) b(1)]] H(2) by (simp add: pools_high_def)
    then show False using rest_extent [OF H(2,3) a(1) e r] by blast
  qed
qed

lemma image_blk_iff:
  assumes "aligned a" "i < bpa k" "I \<subseteq> {..<bpa k}"
  shows "(blk a k i, n) \<in> (\<lambda>i. (blk a k i, bsz k)) ` I \<longleftrightarrow> i \<in> I \<and> n = bsz k"
  using blk_inj [OF assms(1,1,2)] assms(3) by auto

lemma live_blk:
  assumes inv: "heap_inv s" and a: "arenas s a = Some ar" "a_desc ar = Some k" "i < bpa k"
  shows "(blk a k i, n) \<in> live s \<longleftrightarrow> i \<notin> fidx (fl s) a k \<and> n = bsz k"
  using image_blk_iff [OF arena_aligned [OF inv a(1), THEN conjunct1] a(3), of "{..<bpa k} - fidx (fl s) a k" n] blk_rest [OF assms, of n] a(3)
  by (simp add: live_small [OF a(1,2)])

text \<open>The first block of a list leaves it.\<close>

lemma sz_pred: "0 < n \<Longrightarrow> n \<le> 255 \<Longrightarrow> sz (n + (2 ^ 32 - 1)) = n - 1"
proof -
  assume n: "0 < n" "n \<le> 255"
  then have "n + (2 ^ 32 - 1) = (n - 1) + 2 ^ 32" by simp
  then have "sz (n + (2 ^ 32 - 1)) = (n - 1) mod 2 ^ 32" unfolding sz_def by (simp only: mod_add_self2)
  then show ?thesis using n by simp
qed

lemma take_block_ok:
  assumes inv: "heap_inv s" and k: "k < 7" and F: "fl s k = b # L"
  shows "\<exists>a ar s'. take_block k s = Some (b, s') \<and> heap_inv s' \<and> arenas s a = Some ar \<and> a_desc ar = Some k
    \<and> arenas s' = (arenas s)(a \<mapsto> ar\<lparr>free_cnt := free_cnt ar - 1\<rparr>) \<and> 0 < free_cnt ar \<and> pages s' = pages s
    \<and> live s' = insert (b, bsz k) (live s) \<and> (b, bsz k) \<notin> live s \<and> b \<noteq> 0 \<and> on_page a b"
proof -
  note H = heap_invD [OF inv]
  have dL: "distinct (b # L)" using H(4) k F unfolding lists_ok_def by metis
  obtain a ar i where a: "arenas s a = Some ar" "a_desc ar = Some k" "i < bpa k" and b: "b = blk a k i"
    using H(4) k F unfolding lists_ok_def by (metis list.set_intros(1))
  have al: "aligned a" "a \<noteq> 0" using arena_aligned [OF inv a(1)] by auto
  have i: "i \<in> fidx (fl s) a k" using a F b by (simp add: fidx_def)
  note c = arena_cnt(1) [OF inv a(1,2)]
  have pos: "0 < free_cnt ar" using i by (auto simp: c card_gt_0_iff)
  have szc: "sz (free_cnt ar + (2 ^ 32 - 1)) = free_cnt ar - 1"
    using fidx_card [of "fl s" a k] bpa_small [of k] c by (intro sz_pred [OF pos]) simp
  let ?s = "upd_desc k (\<lambda>_. L) s"
  define s' where "s' = ?s\<lparr>arenas := (arenas s)(a \<mapsto> ar\<lparr>free_cnt := free_cnt ar - 1\<rparr>)\<rparr>"
  have L: "set L - {blk a k i} = set (fl s k) - {blk a k i}" "distinct L" "blk a k i \<notin> set L" using F b dL by auto
  have fx: "fidx ((fl s)(k := L)) a k = fidx (fl s) a k - {i}" using fidx_upd_same [where F = "fl s", OF al(1) a(3) L(1)] L(3) by simp
  have n: "free_cnt ar - 1 = card (fidx ((fl s)(k := L)) a k)" using i c by (simp add: fx)
  have s'f: "sizes_ok (descs s')" "fl s' = (fl s)(k := L)" "pages s' = (pages s)\<lparr>mem := mem (pages s)\<rparr>"
    using H(1) upd_desc_fl [OF H(1) k, of "\<lambda>_. L"] F by (simp_all add: s'_def)
  have ar': "arenas s' = (arenas s)(a \<mapsto> ar\<lparr>free_cnt := free_cnt ar - 1\<rparr>)" by (simp add: s'_def)
  have "block_to_arena b ?s = Some (a, ar)" unfolding b
    by (rule block_to_arena_blk [OF upd_desc_sizes [OF H(1)] k al _ _ a(2,3)]) (use a(1) arenas_okD(1) [OF H(3) a(1)] in simp_all)
  then have tk: "take_block k s = Some (b, s')"
    using a(1) szc F desc_at_ok [OF H(1) k] unfolding take_block_def set_free_cnt_def s'_def Let_def fl_def by simp
  note fb = flip_block [OF inv a L(1,2) n s'f(1,2) ar' s'f(3)]
  have "{..<bpa k} - fidx ((fl s)(k := L)) a k = insert i ({..<bpa k} - fidx (fl s) a k)" using i a(3) by (auto simp: fx)
  then have "live s' = insert (b, bsz k) (live s)" unfolding fb(2) live_small [OF a(1,2)] by (simp add: b)
  moreover have "(b, bsz k) \<notin> live s" using i unfolding b live_blk [OF inv a] by simp
  moreover have "b \<noteq> 0" unfolding b by (rule blk_nonnull [OF al(1) a(3)])
  moreover have "on_page a b" unfolding b by (rule blk_on_page [OF a(3) blk_self])
  ultimately show ?thesis using tk fb(1) a(1,2) ar' pos s'f(3) by (intro exI [of _ a] exI [of _ ar] exI [of _ s']) simp
qed

lemma take_block_heap_ok:
  assumes inv: "heap_inv s" and k: "k < 7" and F: "fl s k = b # L"
    and st: "\<forall>a ar j. arenas s a = Some ar \<longrightarrow> a_desc ar = Some j \<longrightarrow> \<not> on_page a b \<longrightarrow> free_cnt ar < bpa j"
  shows "\<exists>s'. take_block k s = Some (b, s') \<and> heap_ok s' \<and> pages s' = pages s \<and> live s' = insert (b, bsz k) (live s) \<and> (b, bsz k) \<notin> live s \<and> b \<noteq> 0"
proof -
  from take_block_ok [OF inv k F] obtain a ar s' where r: "take_block k s = Some (b, s')" "heap_inv s'" "arenas s a = Some ar" "a_desc ar = Some k"
    "arenas s' = (arenas s)(a \<mapsto> ar\<lparr>free_cnt := free_cnt ar - 1\<rparr>)" "0 < free_cnt ar" "pages s' = pages s"
    "live s' = insert (b, bsz k) (live s)" "(b, bsz k) \<notin> live s" "b \<noteq> 0" "on_page a b" by blast
  have "free_cnt ar \<le> bpa k" using arena_cnt(1) [OF inv r(3,4)] fidx_card by simp
  then have "free_cnt ar - 1 < bpa k" using r(6) by simp
  moreover have "\<not> on_page c b" if "arenas s c = Some cr" "c \<noteq> a" for c cr
    using on_page_unique [OF _ _ _ r(11)] arena_aligned [OF inv that(1)] arena_aligned [OF inv r(3)] that(2) by blast
  ultimately have "heap_ok s'" using r(2,4) st by (auto simp: heap_ok_def r(5) split: if_splits)
  then show ?thesis using r by blast
qed

section \<open>Allocation is correct\<close>

lemma upd_desc_twice: "k < length (descs s) \<Longrightarrow> upd_desc k f (upd_desc k g s) = upd_desc k (\<lambda>l. f (g l)) s"
  by (simp add: upd_desc_def)

lemma new_arena_run:
  assumes sz: "sizes_ok (descs s)" and k: "k < 7" and a: "a \<noteq> 0" and d: "blocks_per_arena d = bpa k"
  shows "new_arena k d a s = Some (upd_desc k (\<lambda>l. l @ map (blk a k) [0..<bpa k])
    (s\<lparr>arenas := (arenas s)(a \<mapsto> \<lparr>magic = ARENA_MAGIC, a_desc = Some k, free_cnt = bpa k\<rparr>)\<rparr>))"
proof -
  let ?s = "s\<lparr>arenas := (arenas s)(a \<mapsto> \<lparr>magic = ARENA_MAGIC, a_desc = Some k, free_cnt = bpa k\<rparr>)\<rparr>"
  let ?body = "\<lambda>i s. Option.bind (arena_to_block a i s) (\<lambda>b. Some (upd_desc k (\<lambda>l. l @ [b]) s))"
  have len: "k < length (descs ?s)" "sizes_ok (descs ?s)" using sz k by (simp_all add: sizes_ok_def)
  have "\<exists>t. for_loop 0 (bpa k) ?body ?s = Some t \<and> t = upd_desc k (\<lambda>l. l @ map (blk a k) [0..<bpa k]) ?s"
  proof (rule for_loop_rule [where I = "\<lambda>i t. t = upd_desc k (\<lambda>l. l @ map (blk a k) [0..<i]) ?s"])
    show "?s = upd_desc k (\<lambda>l. l @ map (blk a k) [0..<0]) ?s" using len by (simp add: upd_desc_def)
    fix i t assume i: "i < bpa k" and t: "t = upd_desc k (\<lambda>l. l @ map (blk a k) [0..<i]) ?s"
    have "arena_to_block a i t = Some (blk a k i)"
      by (rule arena_to_block_blk [OF _ k a _ _ _ i, where ar = "\<lparr>magic = ARENA_MAGIC, a_desc = Some k, free_cnt = bpa k\<rparr>"])
         (use upd_desc_sizes [OF len(2)] in \<open>simp_all add: t\<close>)
    then show "\<exists>u. ?body i t = Some u \<and> u = upd_desc k (\<lambda>l. l @ map (blk a k) [0..<Suc i]) ?s"
      using len by (simp add: t upd_desc_twice)
  qed simp
  then show ?thesis by (simp add: new_arena_def d)
qed

lemma fresh_arena:
  assumes inv: "heap_inv s" and u: "\<forall>x \<in> pages_from a n. \<not> in_use (pages s) x" and n: "0 < n"
  shows "arenas s a = None" "arenas s b = Some br \<Longrightarrow> pages_from a n \<inter> pages_from b (apages br) = {}"
proof -
  note H = heap_invD [OF inv]
  show "arenas s a = None"
  proof (cases "arenas s a")
    case (Some ar)
    then show ?thesis using arenas_okD(4) [OF H(3) Some] u page_self [OF n, of a] by blast
  qed
  show "arenas s b = Some br \<Longrightarrow> pages_from a n \<inter> pages_from b (apages br) = {}"
    using arenas_okD(2) [OF H(3), of b br] u by (auto simp: krun_def)
qed

lemma add_arena_ok:
  assumes inv: "heap_inv s" and m: "pools_high m" "kshape m = kshape (pages s)" "krun m a (apages ar)"
    and u: "\<forall>x \<in> pages_from a (apages ar). \<not> in_use (pages s) x" "\<forall>x. in_use m x \<longleftrightarrow> x \<in> pages_from a (apages ar) \<or> in_use (pages s) x"
    and ar: "magic ar = ARENA_MAGIC" "\<And>k. a_desc ar = Some k \<Longrightarrow> k < 7"
  shows "arenas_ok m ((arenas s)(a \<mapsto> ar))"
proof (rule arenas_ok_add [OF _ ar(1) m(3) ar(2)])
  note H = heap_invD [OF inv]
  show "arenas_ok m (arenas s)" by (rule arenas_ok_pages [OF H(3) m(2)]) (use u(2) in simp)
  have "0 < apages ar" using m(3) by (simp add: krun_def)
  then show "pages_from a (apages ar) \<inter> pages_from b (apages br) = {}" if "arenas s b = Some br" for b br
    using fresh_arena(2) [OF inv u(1)] that by blast
qed

lemma lists_new:
  assumes ok: "lists_ok A F" and al: "\<And>b br. A b = Some br \<Longrightarrow> aligned b" and a: "aligned a" "A a = None"
    and k: "k < 7" "F k = []" and G: "G = F(k := map (blk a k) [0..<bpa k])"
  shows "lists_ok (A(a \<mapsto> \<lparr>magic = ARENA_MAGIC, a_desc = Some k, free_cnt = bpa k\<rparr>)) G"
    "fidx G a k = {..<bpa k}" "A b = Some br \<Longrightarrow> fidx G b j = fidx F b j"
proof -
  let ?A = "A(a \<mapsto> \<lparr>magic = ARENA_MAGIC, a_desc = Some k, free_cnt = bpa k\<rparr>)"
  let ?F = "F(k := map (blk a k) [0..<bpa k])"
  show fa: "fidx G a k = {..<bpa k}" by (auto simp: fidx_def G)
  show fo: "fidx G b j = fidx F b j" if b: "A b = Some br" for b j br
  proof -
    have "b \<noteq> a" using b a(2) by auto
    then have "blk b k i \<noteq> blk a k l" if "i < bpa k" "l < bpa k" for i l using blk_inj [OF al [OF b] a(1) that] by blast
    then show ?thesis using k(2) by (auto simp: fidx_def G)
  qed
  have "distinct (?F j)" if "j < 7" for j
  proof (cases "j = k")
    case True
    have "inj_on (blk a k) (set [0..<bpa k])" by (rule inj_onI) (use blk_inj [OF a(1,1)] in auto)
    then show ?thesis using True by (simp add: distinct_map)
  qed (use ok that in \<open>simp add: lists_ok_def\<close>)
  moreover have "\<exists>b br i. ?A b = Some br \<and> a_desc br = Some j \<and> i < bpa j \<and> x = blk b j i" if x: "j < 7" "x \<in> set (?F j)" for j x
  proof (cases "j = k")
    case True
    then show ?thesis using x by (auto intro!: exI [of _ a])
  next
    case False
    then have "x \<in> set (F j)" using x(2) by simp
    then obtain b br i where b: "A b = Some br" "a_desc br = Some j" "i < bpa j" "x = blk b j i"
      using ok x(1) unfolding lists_ok_def by blast
    then have "b \<noteq> a" using a(2) by auto
    then show ?thesis using b by (intro exI [of _ b] exI [of _ br] exI [of _ i]) simp
  qed
  moreover have "free_cnt br = card (fidx G b j)" if b: "?A b = Some br" "a_desc br = Some j" for b br j
    using b ok fa fo [of b br j] by (cases "b = a") (auto simp: lists_ok_def)
  ultimately show "lists_ok ?A G" unfolding lists_ok_def G by blast
qed

text \<open>A new arena of small blocks: nothing is handed out yet.\<close>

lemma new_arena_ok:
  assumes inv: "heap_inv s" and k: "k < 7" "fl s k = []" and a: "a \<noteq> 0" and m: "pools_high m" "kshape m = kshape (pages s)" "krun m a 1"
    and u: "\<forall>x \<in> pages_from a 1. \<not> in_use (pages s) x" "\<forall>x. in_use m x \<longleftrightarrow> x \<in> pages_from a 1 \<or> in_use (pages s) x"
  shows "\<exists>s'. new_arena k (descs s ! k) a (s\<lparr>pages := m\<rparr>) = Some s' \<and> heap_inv s' \<and> live s' = live s \<and> pages s' = m
    \<and> arenas s' = (arenas s)(a \<mapsto> \<lparr>magic = ARENA_MAGIC, a_desc = Some k, free_cnt = bpa k\<rparr>) \<and> fl s' k = map (blk a k) [0..<bpa k]
    \<and> arenas s a = None"
proof -
  note H = heap_invD [OF inv] and al = arena_aligned [OF inv, THEN conjunct1]
  let ?ar = "\<lparr>magic = ARENA_MAGIC, a_desc = Some k, free_cnt = bpa k\<rparr>"
  let ?s = "s\<lparr>pages := m, arenas := (arenas s)(a \<mapsto> ?ar)\<rparr>"
  define s' where "s' = upd_desc k (\<lambda>l. l @ map (blk a k) [0..<bpa k]) ?s"
  have r: "new_arena k (descs s ! k) a (s\<lparr>pages := m\<rparr>) = Some s'"
    using new_arena_run [of "s\<lparr>pages := m\<rparr>" k a "descs s ! k"] H(1) k(1) a sizes_okD [OF H(1) k(1)] by (simp add: s'_def)
  have ap: "apages ?ar = 1" by (simp add: apages_def)
  have fl': "fl s' = (fl s)(k := map (blk a k) [0..<bpa k])" using upd_desc_fl [of ?s k] H(1) k by (simp add: s'_def)
  have ar': "arenas s' = (arenas s)(a \<mapsto> ?ar)" "pages s' = m" by (simp_all add: s'_def)
  note fr = fresh_arena(1) [OF inv u(1) zero_less_one]
  have "in_use m a" using u(2) page_self [of 1 a] by simp
  then have aa: "aligned a" using in_use_page(2) m(1) by blast
  have ok: "arenas_ok m (arenas s')" unfolding ar'
    by (rule add_arena_ok [OF inv m(1,2)]) (use m(3) u k(1) in \<open>simp_all add: ap\<close>)
  note ln = lists_new [where A = "arenas s" and F = "fl s", OF H(4) al aa fr k fl']
  have "lists_ok (arenas s') (fl s')" unfolding ar' by (rule ln(1))
  then have inv': "heap_inv s'" using H(1) ok m(1) by (simp add: heap_inv_def ar' s'_def)
  have "rest (arenas s) (fl s') a = rest (arenas s) (fl s) a"
    by (rule rest_cong) (simp add: ablocks_def ln(3) split: option.splits)
  then have "live s' = live s"
    using live_small [of s' a ?ar k] ln(2) blocks_split_None [where A = "arenas s" and a = a, OF fr] by (simp add: ar' live_def)
  then show ?thesis using r inv' ar' fr by (intro exI [of _ s']) (simp add: fl')
qed

lemma find_desc_Some:
  "find_desc ds x = Some k \<Longrightarrow> k < length ds \<and> unat x \<le> d_block_size (ds ! k)"
  by (induction ds arbitrary: k) (auto split: if_splits)

lemma malloc_new_arena:
  assumes ok: "heap_ok s" and k7: "k < 7" and nil: "fl s k = []" and a: "palloc_get_multiple 0 1 (pages s) = Some (a, m)" "a \<noteq> 0" "pools_high m"
    "kshape m = kshape (pages s)" "krun m a 1" "\<forall>x \<in> pages_from a 1. \<not> in_use (pages s) x"
    "\<forall>x. in_use m x \<longleftrightarrow> x \<in> pages_from a 1 \<or> in_use (pages s) x"
  shows "\<exists>t b s'. new_arena k (descs s ! k) a (s\<lparr>pages := m\<rparr>) = Some t \<and> take_block k t = Some (b, s') \<and> heap_ok s' \<and> pages s' = m
    \<and> live s' = insert (b, bsz k) (live s) \<and> (b, bsz k) \<notin> live s \<and> b \<noteq> 0"
proof -
  have inv: "heap_inv s" and st: "\<And>a ar j. arenas s a = Some ar \<Longrightarrow> a_desc ar = Some j \<Longrightarrow> free_cnt ar < bpa j"
    using ok by (auto simp: heap_ok_def)
  from new_arena_ok [OF inv k7 nil a(2-7)] obtain t where t: "new_arena k (descs s ! k) a (s\<lparr>pages := m\<rparr>) = Some t" "heap_inv t"
    "live t = live s" "pages t = m" "arenas t = (arenas s)(a \<mapsto> \<lparr>magic = ARENA_MAGIC, a_desc = Some k, free_cnt = bpa k\<rparr>)"
    "fl t k = map (blk a k) [0..<bpa k]" by blast
  have p: "0 < bpa k" by (rule bpa_pos [OF k7])
  then have ft: "fl t k = blk a k 0 # map (blk a k) [1..<bpa k]" by (simp add: t(6) upt_conv_Cons)
  have on: "on_page a (blk a k 0)" by (rule blk_on_page [OF p blk_self])
  have "free_cnt cr < bpa j" if "arenas t c = Some cr" "a_desc cr = Some j" "\<not> on_page c (blk a k 0)" for c cr j
    using that st on by (auto simp: t(5) split: if_splits)
  then have "\<forall>c cr j. arenas t c = Some cr \<longrightarrow> a_desc cr = Some j \<longrightarrow> \<not> on_page c (blk a k 0) \<longrightarrow> free_cnt cr < bpa j" by blast
  from take_block_heap_ok [OF t(2) k7 ft this] show ?thesis using t(1,3,4) by auto
qed

lemma malloc_small:
  assumes ok: "heap_ok s" and x: "x \<noteq> 0" and k: "find_desc (descs s) x = Some k"
  shows "\<exists>p s'. malloc x s = Some (p, s') \<and> heap_ok s' \<and> mem (pages s') = mem (pages s)
    \<and> (p = 0 \<and> s' = s \<or> p \<noteq> 0 \<and> live s' = insert (p, bsz k) (live s) \<and> (p, bsz k) \<notin> live s)"
proof -
  have inv: "heap_inv s" and st: "\<forall>a ar j. arenas s a = Some ar \<longrightarrow> a_desc ar = Some j \<longrightarrow> \<not> on_page a b \<longrightarrow> free_cnt ar < bpa j" for b
    using ok by (auto simp: heap_ok_def)
  note H = heap_invD [OF inv]
  have k7: "k < 7" using find_desc_Some [OF k] H(1) by (simp add: sizes_ok_def)
  note d = desc_at_ok [OF H(1) k7]
  consider b L where "fl s k = b # L" | "fl s k = []" "palloc_get_multiple 0 1 (pages s) = Some (0, pages s)"
    | "fl s k = []" "palloc_get_multiple 0 1 (pages s) \<noteq> Some (0, pages s)" by (cases "fl s k") auto
  then show ?thesis
  proof cases
    case 1
    from take_block_heap_ok [OF inv k7 1 st] obtain s' where r: "take_block k s = Some (b, s')" "heap_ok s'" "pages s' = pages s"
      "live s' = insert (b, bsz k) (live s)" "(b, bsz k) \<notin> live s" "b \<noteq> 0" by blast
    then have "malloc x s = Some (b, s')" using x k d 1 by (simp add: malloc_def fl_def)
    then show ?thesis using r by auto
  next
    case 2
    then have "malloc x s = Some (0, s)" using x k d by (simp add: malloc_def fl_def palloc_get_page_def)
    then show ?thesis using ok by simp
  next
    case 3
    with get_krun [OF H(2), of 1] obtain a m where a: "palloc_get_multiple 0 1 (pages s) = Some (a, m)" "a \<noteq> 0" "pools_high m"
      "kshape m = kshape (pages s)" "krun m a 1" "\<forall>x \<in> pages_from a 1. \<not> in_use (pages s) x"
      "\<forall>x. in_use m x \<longleftrightarrow> x \<in> pages_from a 1 \<or> in_use (pages s) x" "mem m = mem (pages s)" by blast
    from malloc_new_arena [OF ok k7 3(1) a(1-7)] obtain t b s' where t: "new_arena k (descs s ! k) a (s\<lparr>pages := m\<rparr>) = Some t"
      "take_block k t = Some (b, s')" "heap_ok s'" "pages s' = m" "live s' = insert (b, bsz k) (live s)" "(b, bsz k) \<notin> live s" "b \<noteq> 0" by blast
    have "malloc x s = Some (b, s')" using x k d 3(1) a(1,2) t(1,2) by (simp add: malloc_def fl_def palloc_get_page_def)
    then show ?thesis using t a(8) by auto
  qed
qed

text \<open>The lists depend on the arenas of small blocks only.\<close>

lemma lists_ok_frame:
  assumes "lists_ok A F" "\<And>b br k. a_desc br = Some k \<Longrightarrow> A' b = Some br \<longleftrightarrow> A b = Some br"
  shows "lists_ok A' F"
proof -
  have "\<exists>a ar i. A' a = Some ar \<and> a_desc ar = Some k \<and> i < bpa k \<and> x = blk a k i" if x: "k < 7" "x \<in> set (F k)" for k x
  proof -
    obtain b br i where "A b = Some br" "a_desc br = Some k" "i < bpa k" "x = blk b k i" using assms(1) x unfolding lists_ok_def by blast
    then show ?thesis using assms(2) by blast
  qed
  then show ?thesis using assms unfolding lists_ok_def by blast
qed

lemma big_block_ok:
  assumes ok: "heap_ok s" and a: "pools_high m" "kshape m = kshape (pages s)" "krun m a n" "\<forall>x \<in> pages_from a n. \<not> in_use (pages s) x"
    "\<forall>x. in_use m x \<longleftrightarrow> x \<in> pages_from a n \<or> in_use (pages s) x"
    and s': "s' = s\<lparr>pages := m, arenas := (arenas s)(a \<mapsto> \<lparr>magic = ARENA_MAGIC, a_desc = None, free_cnt = n\<rparr>)\<rparr>"
  shows "heap_ok s' \<and> live s' = insert (a + 12, 4096 * n - 12) (live s) \<and> (a + 12, 4096 * n - 12) \<notin> live s"
proof -
  have inv: "heap_inv s" and st: "\<And>a ar j. arenas s a = Some ar \<Longrightarrow> a_desc ar = Some j \<Longrightarrow> free_cnt ar < bpa j"
    using ok by (auto simp: heap_ok_def)
  note H = heap_invD [OF inv]
  let ?ar = "\<lparr>magic = ARENA_MAGIC, a_desc = None, free_cnt = n\<rparr>"
  have ap: "apages ?ar = n" by (simp add: apages_def)
  have "0 < n" using a(3) by (simp add: krun_def)
  note fr = fresh_arena(1) [OF inv a(4) this]
  have ok': "arenas_ok m ((arenas s)(a \<mapsto> ?ar))" by (rule add_arena_ok [OF inv a(1,2)]) (use a in \<open>simp_all add: ap\<close>)
  have fl': "fl s' = fl s" by (simp add: s' fl_def fun_eq_iff)
  have "lists_ok ((arenas s)(a \<mapsto> ?ar)) (fl s)" by (rule lists_ok_frame [OF H(4)]) (use fr in auto)
  then have "heap_inv s'" using H(1) a(1) ok' unfolding heap_inv_def fl' by (simp add: s')
  moreover have lv: "live s' = insert (a + 12, 4096 * n - 12) (live s)"
    unfolding live_def fl' blocks_split_None [where A = "arenas s" and a = a, OF fr]
    using blocks_split [of "arenas s'" a ?ar "fl s"] by (simp add: s' ablocks_def)
  moreover have "(a + 12, 4096 * n - 12) \<notin> live s"
    using rest_not_ablocks [of m "(arenas s)(a \<mapsto> ?ar)" a ?ar "a + 12" "4096 * n - 12" "fl s"] a(1) ok'
    unfolding live_def blocks_split_None [where A = "arenas s" and a = a, OF fr] by (simp add: ablocks_def)
  ultimately show ?thesis using st by (auto simp: heap_ok_def s' split: if_splits)
qed

lemma big_page_cnt:
  assumes "unat x < 2 ^ 32 - 11"
  shows "unat ((x + of_nat sizeof_arena + 4096 - 1) div 4096 :: u32) = 0 \<or> unat x + 12 \<le> 4096 * unat ((x + of_nat sizeof_arena + 4096 - 1) div 4096)"
proof -
  let ?y = "x + of_nat sizeof_arena + 4096 - 1"
  have e: "?y = x + 4107" by (simp add: sizeof_arena_def)
  have d: "unat (?y div 4096) = unat ?y div 4096" by (simp add: unat_div)
  show ?thesis
  proof (cases "unat x + 4107 < 2 ^ 32")
    case True
    then have "unat ?y = unat x + 4107" unfolding e using unat_add_lem [of x 4107] by simp
    then show ?thesis unfolding d by linarith
  next
    case False
    have "unat ?y = (unat x + 4107) mod 2 ^ 32" unfolding e by (simp add: unat_word_ariths)
    also have "\<dots> = unat x + 4107 - 2 ^ 32" using False assms by (simp add: mod_if)
    finally have "unat ?y div 4096 = 0" using assms by simp
    then show ?thesis unfolding d by blast
  qed
qed

lemma malloc_big:
  assumes ok: "heap_ok s" and x: "x \<noteq> 0" and k: "find_desc (descs s) x = None"
    and n: "n = unat ((x + of_nat sizeof_arena + 4096 - 1) div 4096)"
  shows "malloc x s = Some (0, s) \<or> (\<exists>a s'. malloc x s = Some (a + 12, s') \<and> a + 12 \<noteq> 0 \<and> n \<noteq> 0 \<and> heap_ok s' \<and> mem (pages s') = mem (pages s)
    \<and> live s' = insert (a + 12, 4096 * n - 12) (live s) \<and> (a + 12, 4096 * n - 12) \<notin> live s)"
proof (cases "palloc_get_multiple 0 n (pages s) = Some (0, pages s)")
  case True
  then have "malloc x s = Some (0, s)" using x k unfolding malloc_def Let_def n [symmetric] by simp
  then show ?thesis by (rule disjI1)
next
  case False
  have hi: "pools_high (pages s)" using ok by (simp add: heap_ok_def heap_inv_def)
  from get_krun [OF hi, of n] False obtain a m where a: "palloc_get_multiple 0 n (pages s) = Some (a, m)" "a \<noteq> 0" "pools_high m"
    "kshape m = kshape (pages s)" "krun m a n" "\<forall>x \<in> pages_from a n. \<not> in_use (pages s) x"
    "\<forall>x. in_use m x \<longleftrightarrow> x \<in> pages_from a n \<or> in_use (pages s) x" "mem m = mem (pages s)" by blast
  define s' where "s' = s\<lparr>pages := m, arenas := (arenas s)(a \<mapsto> \<lparr>magic = ARENA_MAGIC, a_desc = None, free_cnt = n\<rparr>)\<rparr>"
  have n0: "n \<noteq> 0" using a(5) by (simp add: krun_def)
  have "malloc x s = Some (a + 12, s')" using x k a(1,2) unfolding malloc_def Let_def n [symmetric] s'_def by (simp add: sizeof_arena_def)
  moreover have "in_use m a" using a(7) page_self [of n a] n0 by simp
  then have "aligned a" using in_use_page(2) a(3) by blast
  then have "a + 12 \<noteq> 0" using unat_page_add [of a 12] by (intro notI) simp
  ultimately show ?thesis using big_block_ok [OF ok a(3-7) s'_def] a(8) n0 by (auto simp: s'_def)
qed

text \<open>What an allocation of \<open>x\<close> bytes does, if it returns \<open>p\<close>.\<close>

definition allocated :: "u32 \<Rightarrow> vaddr \<Rightarrow> mstate \<Rightarrow> mstate \<Rightarrow> bool" where
  "allocated x p s s' \<longleftrightarrow> heap_ok s' \<and> (p = 0 \<and> s' = s \<or> p \<noteq> 0 \<and> x \<noteq> 0 \<and>
     (\<exists>n. live s' = insert (p, n) (live s) \<and> (\<forall>q l. (q, l) \<in> live s \<longrightarrow> bytes p n \<inter> bytes q l = {})
        \<and> (unat x < 2 ^ 32 - 11 \<longrightarrow> unat x \<le> n)))"

lemma live_disjoint:
  assumes "heap_inv s" "(p, n) \<in> live s" "(q, l) \<in> live s" "(p, n) \<noteq> (q, l)"
  shows "bytes p n \<inter> bytes q l = {}"
  by (rule blocks_disjoint [OF heap_invD(2,3) [OF assms(1)] assms(2-4) [unfolded live_def]])

lemma allocated_by:
  assumes "heap_ok s'" "p \<noteq> 0" "x \<noteq> 0" "live s' = insert (p, n) (live s)" "(p, n) \<notin> live s" "unat x < 2 ^ 32 - 11 \<longrightarrow> unat x \<le> n"
  shows "allocated x p s s'"
proof -
  have "bytes p n \<inter> bytes q l = {}" if "(q, l) \<in> live s" for q l
    by (rule live_disjoint [of s']) (use assms(1,4,5) that in \<open>auto simp: heap_ok_def\<close>)
  then show ?thesis using assms unfolding allocated_def by blast
qed

lemma malloc_cases:
  assumes ok: "heap_ok s"
  shows "\<exists>p s'. malloc x s = Some (p, s') \<and> allocated x p s s' \<and> mem (pages s') = mem (pages s)"
proof (cases "x = 0")
  case True
  then show ?thesis using ok by (simp add: malloc_def allocated_def)
next
  case x: False
  show ?thesis
  proof (cases "find_desc (descs s) x")
    case (Some k)
    have "k < length (descs s)" "unat x \<le> d_block_size (descs s ! k)" using find_desc_Some [OF Some] by simp_all
    then have "unat x \<le> bsz k" using ok by (simp add: heap_ok_def heap_inv_def sizes_ok_def)
    then have al: "heap_ok s' \<Longrightarrow> p \<noteq> 0 \<Longrightarrow> live s' = insert (p, bsz k) (live s) \<Longrightarrow> (p, bsz k) \<notin> live s \<Longrightarrow> allocated x p s s'" for p s'
      using allocated_by [of s' p x "bsz k" s] x by simp
    from malloc_small [OF ok x Some] obtain p s' where "malloc x s = Some (p, s')" "heap_ok s'" "mem (pages s') = mem (pages s)"
      "p = 0 \<and> s' = s \<or> p \<noteq> 0 \<and> live s' = insert (p, bsz k) (live s) \<and> (p, bsz k) \<notin> live s" by blast
    then show ?thesis using al [of s' p] by (auto simp: allocated_def)
  next
    case None
    define n where "n = unat ((x + of_nat sizeof_arena + 4096 - 1) div 4096)"
    from malloc_big [OF ok x None n_def] show ?thesis
    proof
      assume "malloc x s = Some (0, s)"
      then show ?thesis using ok by (simp add: allocated_def)
    next
      assume "\<exists>a s'. malloc x s = Some (a + 12, s') \<and> a + 12 \<noteq> 0 \<and> n \<noteq> 0 \<and> heap_ok s' \<and> mem (pages s') = mem (pages s)
        \<and> live s' = insert (a + 12, 4096 * n - 12) (live s) \<and> (a + 12, 4096 * n - 12) \<notin> live s"
      then obtain a s' where r: "malloc x s = Some (a + 12, s')" "a + 12 \<noteq> 0" "n \<noteq> 0" "heap_ok s'" "mem (pages s') = mem (pages s)"
        "live s' = insert (a + 12, 4096 * n - 12) (live s)" "(a + 12, 4096 * n - 12) \<notin> live s" by blast
      have "unat x < 2 ^ 32 - 11 \<longrightarrow> unat x \<le> 4096 * n - 12" using big_page_cnt [of x] r(3) unfolding n_def by auto
      then show ?thesis using allocated_by [OF r(4,2) x r(6,7)] r(1,5) by blast
    qed
  qed
qed

end
