(* ===== verification/Malloc_Free.thy ===== *)
theory Malloc_Free
  imports Malloc
begin

unbundle bit_operations_syntax

text \<open>
  Freeing and resizing blocks of the heap of \<^verbatim>\<open>threads/malloc.c\<close>: the lemmas on \<^verbatim>\<open>free\<close>, \<^verbatim>\<open>calloc\<close> and
  \<^verbatim>\<open>realloc\<close>, and the properties of the component.
\<close>

section \<open>Giving back an arena\<close>

lemma drop_arena_ok:
  assumes inv: "heap_inv s" and a: "arenas s a = Some ar" and m: "kshape m = kshape (pages s)"
    "\<forall>x. in_use m x \<longleftrightarrow> x \<notin> pages_from a (apages ar) \<and> in_use (pages s) x"
  shows "arenas_ok m ((arenas s)(a := None))"
proof (rule arenas_ok_pages [OF arenas_ok_drop [OF heap_invD(3) [OF inv]] m(1)])
  fix x b br assume b: "((arenas s)(a := None)) b = Some br" "x \<in> pages_from b (apages br)" "in_use (pages s) x"
  then have "b \<noteq> a" "arenas s b = Some br" by (auto split: if_splits)
  then show "in_use m x" using arenas_sep [OF heap_invD(3) [OF inv] a] b(2,3) m(2) by blast
qed

text \<open>The list without the blocks of the arena.\<close>

definition without :: "vaddr \<Rightarrow> nat \<Rightarrow> nat \<Rightarrow> vaddr list \<Rightarrow> vaddr list" where
  "without a k n l = filter (\<lambda>b. b \<notin> blk a k ` {..<n}) l"

lemma lists_drop:
  assumes ok: "lists_ok A F" and al: "\<And>b br. A b = Some br \<Longrightarrow> aligned b" and a: "A a = Some ar" "a_desc ar = Some k"
    and G: "G = F(k := without a k (bpa k) (F k))"
  shows "lists_ok (A(a := None)) G" "b \<noteq> a \<Longrightarrow> A b = Some br \<Longrightarrow> fidx G b j = fidx F b j"
proof -
  show fo: "fidx G b j = fidx F b j" if b: "b \<noteq> a" "A b = Some br" for b br j
  proof -
    have "blk b k i \<notin> blk a k ` {..<bpa k}" if "i < bpa k" for i using blk_inj [OF al [OF b(2)] al [OF a(1)] that] b(1) by auto
    then show ?thesis by (auto simp: fidx_def G without_def)
  qed
  have "distinct (G j)" if "j < 7" for j using ok that by (auto simp: lists_ok_def G without_def)
  moreover have "\<exists>b br i. (A(a := None)) b = Some br \<and> a_desc br = Some j \<and> i < bpa j \<and> x = blk b j i" if x: "j < 7" "x \<in> set (G j)" for j x
  proof -
    have "x \<in> set (F j)" using x(2) by (auto simp: G without_def split: if_splits)
    then obtain b br i where b: "A b = Some br" "a_desc br = Some j" "i < bpa j" "x = blk b j i" using ok x(1) unfolding lists_ok_def by blast
    then have "b \<noteq> a" using x(2) a by (auto simp: G without_def split: if_splits)
    then show ?thesis using b by (intro exI [of _ b] exI [of _ br] exI [of _ i]) simp
  qed
  moreover have "free_cnt br = card (fidx G b j)" if "(A(a := None)) b = Some br" "a_desc br = Some j" for b br j
    using that ok fo [of b br j] by (auto simp: lists_ok_def split: if_splits)
  ultimately show "lists_ok (A(a := None)) G" unfolding lists_ok_def by blast
qed

lemma drop_small_ok:
  assumes inv: "heap_inv s" and a: "arenas s a = Some ar" "a_desc ar = Some k" and all: "fidx (fl s) a k = {..<bpa k}"
    and m: "pools_high m" "kshape m = kshape (pages s)" "\<forall>x. in_use m x \<longleftrightarrow> x \<noteq> a \<and> in_use (pages s) x"
    and s': "sizes_ok (descs s')" "fl s' = (fl s)(k := without a k (bpa k) (fl s k))" "arenas s' = (arenas s)(a := None)" "pages s' = m"
  shows "heap_inv s'" "live s' = live s" "live s = rest (arenas s) (fl s) a"
proof -
  note H = heap_invD [OF inv] and al = arena_aligned [OF inv, THEN conjunct1]
  have ap: "apages ar = 1" using a(2) by (simp add: apages_def)
  have one: "pages_from a (Suc 0) = {a}" by (auto simp: pages_from_def)
  have "arenas_ok m (arenas s')" unfolding s'(3) by (rule drop_arena_ok [OF inv a(1) m(2)]) (use m(3) in \<open>simp add: ap one\<close>)
  note ld = lists_drop [where A = "arenas s" and F = "fl s", OF H(4) al a s'(2)]
  have "lists_ok (arenas s') (fl s')" unfolding s'(3) by (rule ld(1))
  then show "heap_inv s'" using s'(1,4) m(1) \<open>arenas_ok m (arenas s')\<close> by (simp add: heap_inv_def)
  have "rest (arenas s) (fl s') a = rest (arenas s) (fl s) a"
    by (rule rest_cong) (simp add: ablocks_def ld(2) split: option.splits)
  moreover show l: "live s = rest (arenas s) (fl s) a" unfolding live_small [OF a] all by simp
  moreover have "live s' = rest (arenas s) (fl s') a"
    unfolding live_def s'(3) using blocks_split_None [of "(arenas s)(a := None)" a "fl s'"] by simp
  ultimately show "live s' = live s" by simp
qed

section \<open>Unlinking the blocks of an arena\<close>

lemma upd_desc_cong: "f (fl s k) = g (fl s k) \<Longrightarrow> upd_desc k f s = upd_desc k g s"
  by (simp add: upd_desc_def fl_def)

lemma without_Suc: "distinct l \<Longrightarrow> remove1 (blk a k n) (without a k n l) = without a k (Suc n) l"
proof -
  assume d: "distinct l"
  have "remove1 (blk a k n) (without a k n l) = filter (\<lambda>b. blk a k n \<noteq> b) (without a k n l)"
    using d by (simp add: without_def distinct_remove1_removeAll removeAll_filter_not_eq)
  also have "\<dots> = filter (\<lambda>b. b \<noteq> blk a k n \<and> b \<notin> blk a k ` {..<n}) l" unfolding without_def filter_filter by (rule filter_cong) auto
  finally show ?thesis by (simp add: without_def lessThan_Suc)
qed

lemma unlink_all:
  assumes inv: "heap_inv s" and a: "arenas s a = Some ar" "a_desc ar = Some k" and all: "fidx (fl s) a k = {..<bpa k}"
  shows "for_loop 0 (bpa k) (\<lambda>i s. Option.bind (arena_to_block a i s) (\<lambda>b. unlink k b s)) s = Some (upd_desc k (without a k (bpa k)) s)"
proof -
  note H = heap_invD [OF inv]
  have k: "k < 7" "k < length (descs s)" using arena_cnt(2) [OF inv a] H(1) by (auto simp: sizes_ok_def)
  have al: "aligned a" "a \<noteq> 0" using arena_aligned [OF inv a(1)] by auto
  let ?body = "\<lambda>i s. Option.bind (arena_to_block a i s) (\<lambda>b. unlink k b s)"
  have dl: "distinct (fl s k)" using H(4) k(1) by (simp add: lists_ok_def)
  have "\<exists>t. for_loop 0 (bpa k) ?body s = Some t \<and> t = upd_desc k (without a k (bpa k)) s"
  proof (rule for_loop_rule [where I = "\<lambda>i t. t = upd_desc k (without a k i) s"])
    show "s = upd_desc k (without a k 0) s" using k by (simp add: upd_desc_def without_def)
    fix i t assume i: "i < bpa k" and t: "t = upd_desc k (without a k i) s"
    have st: "sizes_ok (descs t)" using H(1) by (simp add: t)
    have bk: "arena_to_block a i t = Some (blk a k i)"
      by (rule arena_to_block_blk [OF st k(1) al(2) _ _ a(2) i]) (use a(1) arenas_okD(1) [OF H(3) a(1)] in \<open>simp_all add: t\<close>)
    have ft: "fl t k = without a k i (fl s k)" unfolding t upd_desc_fl [OF H(1) k(1)] by simp
    have "blk a k i \<in> set (fl s k)" using i all by (auto simp: fidx_def)
    moreover have "blk a k i \<notin> blk a k ` {..<i}"
    proof
      assume "blk a k i \<in> blk a k ` {..<i}"
      then obtain j where j: "j < i" "blk a k i = blk a k j" by blast
      then show False using blk_inj [OF al(1,1) i _ j(2)] i by simp
    qed
    ultimately have "blk a k i \<in> set (free_list (descs t ! k))" using ft by (simp add: fl_def without_def)
    moreover have "upd_desc k (remove1 (blk a k i)) t = upd_desc k (without a k (Suc i)) s"
      unfolding t upd_desc_twice [OF k(2)] by (rule upd_desc_cong) (rule without_Suc [OF dl])
    ultimately show "\<exists>u. ?body i t = Some u \<and> u = upd_desc k (without a k (Suc i)) s"
      by (simp add: bk unlink_def desc_at_ok [OF st k(1)])
  qed simp
  then show ?thesis by blast
qed

section \<open>Freeing a block\<close>

text \<open>What freeing a block does.\<close>

definition freed :: "vaddr \<Rightarrow> nat \<Rightarrow> mstate \<Rightarrow> mstate \<Rightarrow> bool" where
  "freed p n s s' \<longleftrightarrow> heap_ok s' \<and> live s' = live s - {(p, n)}
     \<and> (\<forall>q l. \<forall>x \<in> bytes q l. (q, l) \<in> live s' \<longrightarrow> mem (pages s') x = mem (pages s) x)"

lemma heap_ok_arenas:
  assumes "heap_ok s" "heap_inv s'" "\<And>b br j. arenas s' b = Some br \<Longrightarrow> a_desc br = Some j \<Longrightarrow> arenas s b = Some br \<or> free_cnt br < bpa j"
  shows "heap_ok s'"
  using assms unfolding heap_ok_def by blast

lemma free_big:
  assumes ok: "heap_ok s" and a: "arenas s a = Some ar" "a_desc ar = None"
  shows "\<exists>s'. free (a + 12) s = Some s' \<and> freed (a + 12) (4096 * free_cnt ar - 12) s s'"
proof -
  have inv: "heap_inv s" using ok by (simp add: heap_ok_def)
  note H = heap_invD [OF inv]
  have al: "aligned a" "a \<noteq> 0" using arena_aligned [OF inv a(1)] by auto
  have ap: "apages ar = free_cnt ar" using a(2) by (simp add: apages_def)
  note run = arenas_okD(2) [OF H(3) a(1), unfolded ap]
  from free_krun [OF H(2) run] obtain m where m: "palloc_free_multiple a (free_cnt ar) (pages s) = Some m" "pools_high m" "kshape m = kshape (pages s)"
    "\<forall>x. in_use m x \<longleftrightarrow> x \<notin> pages_from a (free_cnt ar) \<and> in_use (pages s) x"
    "\<forall>x. mem m x = (if unat (x - a) < 4096 * free_cnt ar then 0xcc else mem (pages s) x)" by blast
  define s' where "s' = s\<lparr>pages := m, arenas := (arenas s)(a := None)\<rparr>"
  have pp: "pg_round_down (a + 12) = a" "unat (pg_ofs (a + 12)) = 12" using page_part [OF al(1), of 12] by simp_all
  then have "pg_ofs (a + 12) = of_nat sizeof_arena" by (simp add: word_unat_eq_iff sizeof_arena_def)
  then have ba: "block_to_arena (a + 12) s = Some (a, ar)" using al(2) a arenas_okD(1) [OF H(3) a(1)] pp(1) by (simp add: block_to_arena_def)
  have nz: "a + 12 \<noteq> 0" using unat_page_add [OF al(1), of 12] by (intro notI) simp
  have fr: "free (a + 12) s = Some s'" using nz ba a(2) m(1) by (simp add: free_def s'_def)
  have fl': "fl s' = fl s" by (simp add: s'_def fl_def fun_eq_iff)
  have lo: "lists_ok ((arenas s)(a := None)) (fl s)" by (rule lists_ok_frame [OF H(4)]) (use a in auto)
  have "arenas_ok m ((arenas s)(a := None))" by (rule drop_arena_ok [OF inv a(1) m(3)]) (use m(4) ap in simp)
  then have inv': "heap_inv s'" using H(1) m(2) lo unfolding heap_inv_def fl' by (simp add: s'_def)
  have lv: "live s' = rest (arenas s) (fl s) a" unfolding live_def fl' using blocks_split_None [of "arenas s'" a "fl s"] by (simp add: s'_def)
  have ab: "ablocks (fl s) a ar = {(a + 12, 4096 * free_cnt ar - 12)}" using a(2) by (simp add: ablocks_def)
  have "live s = insert (a + 12, 4096 * free_cnt ar - 12) (rest (arenas s) (fl s) a)"
    unfolding live_def blocks_split [where A = "arenas s", OF a(1)] ab by simp
  moreover have "(a + 12, 4096 * free_cnt ar - 12) \<notin> rest (arenas s) (fl s) a"
    by (rule rest_not_ablocks [OF H(2,3) a(1), where n = "4096 * free_cnt ar - 12"]) (simp add: ab)
  ultimately have "live s' = live s - {(a + 12, 4096 * free_cnt ar - 12)}" by (simp add: lv)
  moreover have "heap_ok s'" by (rule heap_ok_arenas [OF ok inv']) (auto simp: s'_def split: if_splits)
  moreover have "mem (pages s') x = mem (pages s) x" if "x \<in> bytes q l" "(q, l) \<in> live s'" for q l x
    using rest_extent [OF H(2,3) a(1), of x q l "fl s"] that unfolding lv ap by (auto simp: s'_def m(5) bytes_def)
  ultimately show ?thesis using fr unfolding freed_def by blast
qed

text \<open>A small block goes back to its list; the arena follows if that was its last block.\<close>

lemma push_block_ok:
  assumes inv: "heap_inv s" and a: "arenas s a = Some ar" "a_desc ar = Some k" "i < bpa k" and i: "i \<notin> fidx (fl s) a k"
    and t: "t = (upd_desc k (\<lambda>l. blk a k i # l) (s\<lparr>pages := (pages s)\<lparr>mem := f\<rparr>\<rparr>))\<lparr>arenas := (arenas s)(a \<mapsto> ar\<lparr>free_cnt := free_cnt ar + 1\<rparr>)\<rparr>"
  shows "heap_inv t" "live t = live s - {(blk a k i, bsz k)}" "fidx (fl t) a k = insert i (fidx (fl s) a k)" "blk a k i \<notin> set (fl s k)"
proof -
  note H = heap_invD [OF inv]
  have k: "k < 7" by (rule arena_cnt(2) [OF inv a(1,2)])
  have al: "aligned a" using arena_aligned [OF inv a(1)] by simp
  show nb: "blk a k i \<notin> set (fl s k)" using i a(3) by (simp add: fidx_def)
  let ?L = "blk a k i # fl s k"
  have L: "set ?L - {blk a k i} = set (fl s k) - {blk a k i}" "distinct ?L" using nb H(4) k by (auto simp: lists_ok_def)
  have fx: "fidx ((fl s)(k := ?L)) a k = insert i (fidx (fl s) a k)" using fidx_upd_same [where F = "fl s", OF al a(3) L(1)] by simp
  have n: "free_cnt ar + 1 = card (fidx ((fl s)(k := ?L)) a k)" using i arena_cnt(1) [OF inv a(1,2)] by (simp add: fx)
  have t': "sizes_ok (descs t)" "fl t = (fl s)(k := ?L)" "arenas t = (arenas s)(a \<mapsto> ar\<lparr>free_cnt := free_cnt ar + 1\<rparr>)" "pages t = (pages s)\<lparr>mem := f\<rparr>"
    using H(1) upd_desc_fl [of "s\<lparr>pages := (pages s)\<lparr>mem := f\<rparr>\<rparr>" k] k by (simp_all add: t)
  note fb = flip_block [OF inv a L n t']
  show inv': "heap_inv t" by (rule fb(1))
  show fi: "fidx (fl t) a k = insert i (fidx (fl s) a k)" by (simp add: t'(2) fx)
  have "live s = insert (blk a k i, bsz k) (live t)"
  proof -
    have "{..<bpa k} - fidx (fl s) a k = insert i ({..<bpa k} - insert i (fidx (fl s) a k))" using i a(3) by auto
    then show ?thesis unfolding live_small [OF a(1,2)] fb(2) fx by (metis (no_types, lifting) Un_insert_left image_insert)
  qed
  moreover have "(blk a k i, bsz k) \<notin> live t"
    using live_blk [OF inv', of a "ar\<lparr>free_cnt := free_cnt ar + 1\<rparr>" k i "bsz k"] a fi by (simp add: t'(3))
  ultimately show "live t = live s - {(blk a k i, bsz k)}" by simp
qed

lemma fidx_full:
  assumes "bpa k \<le> card (fidx F a k)"
  shows "fidx F a k = {..<bpa k}"
  by (rule card_subset_eq) (use assms fidx_card [of F a k] in \<open>auto simp: fidx_def\<close>)

lemma drop_arena_run:
  assumes inv: "heap_inv t" and a: "arenas t a = Some ar" "a_desc ar = Some k" and all: "fidx (fl t) a k = {..<bpa k}"
  shows "\<exists>m s'. palloc_free_page a (pages t) = Some m \<and> s' = (upd_desc k (without a k (bpa k)) t)\<lparr>pages := m, arenas := (arenas t)(a := None)\<rparr>
    \<and> heap_inv s' \<and> live s' = live t \<and> (\<forall>q l. \<forall>x \<in> bytes q l. (q, l) \<in> live t \<longrightarrow> mem m x = mem (pages t) x)"
proof -
  note H = heap_invD [OF inv]
  have ap: "apages ar = 1" using a(2) by (simp add: apages_def)
  have one: "pages_from a 1 = {a}" by (auto simp: pages_from_def)
  from free_krun [OF H(2) arenas_okD(2) [OF H(3) a(1), unfolded ap]] obtain m where m: "palloc_free_multiple a 1 (pages t) = Some m" "pools_high m"
    "kshape m = kshape (pages t)" "\<forall>x. in_use m x \<longleftrightarrow> x \<notin> pages_from a 1 \<and> in_use (pages t) x"
    "\<forall>x. mem m x = (if unat (x - a) < 4096 * 1 then 0xcc else mem (pages t) x)" by blast
  have u: "\<forall>x. in_use m x \<longleftrightarrow> x \<noteq> a \<and> in_use (pages t) x" using m(4) unfolding one by simp
  have k: "k < 7" by (rule arena_cnt(2) [OF inv a])
  let ?s = "(upd_desc k (without a k (bpa k)) t)\<lparr>pages := m, arenas := (arenas t)(a := None)\<rparr>"
  have s': "sizes_ok (descs ?s)" "fl ?s = (fl t)(k := without a k (bpa k) (fl t k))" "arenas ?s = (arenas t)(a := None)" "pages ?s = m"
    using upd_desc_sizes [OF H(1), of k] upd_desc_fl [OF H(1) k, of "without a k (bpa k)"] by simp_all
  note dr = drop_small_ok [OF inv a all m(2,3) u s']
  have "mem m x = mem (pages t) x" if "x \<in> bytes q l" "(q, l) \<in> live t" for q l x
    using rest_extent [OF H(2,3) a(1), of x q l "fl t"] that m(5) unfolding dr(3) ap by (auto simp: bytes_def)
  then show ?thesis using m(1) dr(1,2) unfolding palloc_free_page_def by blast
qed

lemma free_small:
  assumes ok: "heap_ok s" and a: "arenas s a = Some ar" "a_desc ar = Some k" "i < bpa k" and i: "i \<notin> fidx (fl s) a k"
  shows "\<exists>s'. free (blk a k i) s = Some s' \<and> freed (blk a k i) (bsz k) s s'"
proof -
  have inv: "heap_inv s" using ok by (simp add: heap_ok_def)
  note H = heap_invD [OF inv]
  have k: "k < 7" by (rule arena_cnt(2) [OF inv a(1,2)])
  have al: "aligned a" "a \<noteq> 0" using arena_aligned [OF inv a(1)] by auto
  let ?p = "blk a k i" and ?f = "mem_fill (blk a k i) 0xcc (bsz k) (mem (pages s))"
  define u where "u = upd_desc k (\<lambda>l. ?p # l) (s\<lparr>pages := (pages s)\<lparr>mem := ?f\<rparr>\<rparr>)"
  define t where "t = u\<lparr>arenas := (arenas s)(a \<mapsto> ar\<lparr>free_cnt := free_cnt ar + 1\<rparr>)\<rparr>"
  have td: "t = (upd_desc k (\<lambda>l. ?p # l) (s\<lparr>pages := (pages s)\<lparr>mem := ?f\<rparr>\<rparr>))\<lparr>arenas := (arenas s)(a \<mapsto> ar\<lparr>free_cnt := free_cnt ar + 1\<rparr>)\<rparr>"
    by (simp add: t_def u_def)
  note pb = push_block_ok [OF inv a i td]
  have at: "arenas t a = Some (ar\<lparr>free_cnt := free_cnt ar + 1\<rparr>)" "a_desc (ar\<lparr>free_cnt := free_cnt ar + 1\<rparr>) = Some k" using a(2) by (simp_all add: t_def)
  have nc: "free_cnt ar + 1 = card (fidx (fl t) a k)" using arena_cnt(1) [OF pb(1) at] by simp
  then have le: "free_cnt ar + 1 \<le> bpa k" using fidx_card by simp
  then have szc: "sz (free_cnt ar + 1) = free_cnt ar + 1" using bpa_small [of k] by (intro sz_id) simp
  have ba: "block_to_arena ?p s = Some (a, ar)" by (rule block_to_arena_blk [OF H(1) k al a(1) arenas_okD(1) [OF H(3) a(1)] a(2,3)])
  have nn: "?p \<noteq> 0" by (rule blk_nonnull [OF al(1) a(3)])
  have sc: "set_free_cnt a (free_cnt ar + 1) u = Some t" using a(1) by (simp add: set_free_cnt_def t_def u_def)
  note d = desc_at_ok [OF H(1) k] and sz = sizes_okD [OF H(1) k]
  have run: "free ?p s = (if bpa k \<le> free_cnt ar + 1 then
      Option.bind (for_loop 0 (bpa k) (\<lambda>i s. Option.bind (arena_to_block a i s) (\<lambda>b. unlink k b s)) t)
        (\<lambda>s. Option.bind (palloc_free_page a (pages s)) (\<lambda>m. Some (s\<lparr>pages := m, arenas := (arenas s)(a := None)\<rparr>)))
      else Some t)"
    using nn ba a(2) d sz pb(4) sc le szc unfolding free_def Let_def fl_def u_def by simp
  have mt: "mem (pages t) x = mem (pages s) x" if "x \<in> bytes q l" "(q, l) \<in> live t" for q l x
  proof -
    have "(?p, bsz k) \<in> live s" using live_blk [OF inv a, of "bsz k"] i by simp
    then have "bytes ?p (bsz k) \<inter> bytes q l = {}" using live_disjoint [OF inv, of ?p "bsz k" q l] that(2) unfolding pb(2) by auto
    then show ?thesis using that(1) by (auto simp: td mem_fill_def bytes_def)
  qed
  show ?thesis
  proof (cases "bpa k \<le> free_cnt ar + 1")
    case False
    then have "heap_ok t" by (intro heap_ok_arenas [OF ok pb(1)]) (use a(2) in \<open>auto simp: t_def split: if_splits\<close>)
    then show ?thesis using False run pb(2) mt by (auto simp: freed_def)
  next
    case True
    then have all: "fidx (fl t) a k = {..<bpa k}" using nc by (intro fidx_full) simp
    from drop_arena_run [OF pb(1) at all] obtain m s' where m: "palloc_free_page a (pages t) = Some m"
      and s': "s' = (upd_desc k (without a k (bpa k)) t)\<lparr>pages := m, arenas := (arenas t)(a := None)\<rparr>" and r: "heap_inv s'" "live s' = live t"
      "\<forall>q l. \<forall>x \<in> bytes q l. (q, l) \<in> live t \<longrightarrow> mem m x = mem (pages t) x" by blast
    have "free ?p s = Some s'" using run True unlink_all [OF pb(1) at all] m by (simp add: s')
    moreover have "heap_ok s'" by (rule heap_ok_arenas [OF ok r(1)]) (auto simp: t_def s' split: if_splits)
    moreover have "pages s' = m" by (simp add: s')
    ultimately show ?thesis using r(2,3) pb(2) mt by (auto simp: freed_def)
  qed
qed

lemma free_cases:
  assumes ok: "heap_ok s" and p: "(p, n) \<in> live s"
  shows "\<exists>s'. free p s = Some s' \<and> freed p n s s'"
proof -
  obtain a ar where a: "arenas s a = Some ar" "(p, n) \<in> ablocks (fl s) a ar" using p by (auto simp: live_def blocks_def)
  show ?thesis
  proof (cases "a_desc ar")
    case None
    then show ?thesis using free_big [OF ok a(1)] a(2) by (auto simp: ablocks_def)
  next
    case (Some k)
    then obtain i where "i < bpa k" "i \<notin> fidx (fl s) a k" "p = blk a k i" "n = bsz k" using a(2) by (auto simp: ablocks_def)
    then show ?thesis using free_small [OF ok a(1) Some] by blast
  qed
qed

section \<open>Initialisation, sizes, zeroing and resizing\<close>

lemma malloc_init_cases:
  assumes "pools_high m"
  shows "\<exists>s. malloc_init m = Some s \<and> heap_ok s \<and> live s = {} \<and> pages s = m"
proof -
  let ?d = "\<lambda>k. \<lparr>d_block_size = 16 * 2 ^ k, blocks_per_arena = (4096 - sizeof_arena) div (16 * 2 ^ k), free_list = []\<rparr>"
  have e: "init_loop 16 [] = Some [?d 0, ?d 1, ?d 2, ?d 3, ?d 4, ?d 5, ?d 6]" by (simp add: init_loop.simps)
  let ?s = "\<lparr>pages = m, descs = [?d 0, ?d 1, ?d 2, ?d 3, ?d 4, ?d 5, ?d 6], arenas = (\<lambda>_. None)\<rparr>"
  have k: "k = 0 \<or> k = 1 \<or> k = 2 \<or> k = 3 \<or> k = 4 \<or> k = 5 \<or> k = 6" if "k < 7" for k :: nat using that by linarith
  have "sizes_ok (descs ?s)" unfolding sizes_ok_def by (auto dest!: k simp: bsz_def bpa_def sizeof_arena_def)
  moreover have "lists_ok (arenas ?s) (fl ?s)" unfolding lists_ok_def by (auto dest!: k simp: fl_def)
  ultimately have "heap_ok ?s" using assms by (simp add: heap_ok_def heap_inv_def arenas_ok_def)
  moreover have "live ?s = {}" by (simp add: live_def blocks_def)
  ultimately show ?thesis using e by (simp add: malloc_init_def)
qed

lemma heap_ok_mem [simp]: "heap_ok (s\<lparr>pages := (pages s)\<lparr>mem := f\<rparr>\<rparr>) = heap_ok s"
  by (simp add: heap_ok_def heap_inv_def)

lemma live_pages [simp]: "live (s\<lparr>pages := m\<rparr>) = live s"
  by (simp add: live_def)

lemma block_size_live:
  assumes ok: "heap_ok s" and p: "(p, n) \<in> live s"
  shows "block_size p s = Some n" "p \<noteq> 0"
proof -
  have inv: "heap_inv s" using ok by (simp add: heap_ok_def)
  note H = heap_invD [OF inv]
  obtain a ar where a: "arenas s a = Some ar" "(p, n) \<in> ablocks (fl s) a ar" using p by (auto simp: live_def blocks_def)
  have al: "aligned a" "a \<noteq> 0" using arena_aligned [OF inv a(1)] by auto
  note mg = arenas_okD(1) [OF H(3) a(1)]
  have "block_size p s = Some n \<and> p \<noteq> 0"
  proof (cases "a_desc ar")
    case (Some k)
    then obtain i where i: "i < bpa k" "p = blk a k i" "n = bsz k" using a(2) by (auto simp: ablocks_def)
    have k: "k < 7" by (rule arena_cnt(2) [OF inv a(1) Some])
    show ?thesis using block_to_arena_blk [OF H(1) k al a(1) mg Some i(1)] desc_at_ok [OF H(1) k] sizes_okD [OF H(1) k] Some blk_nonnull [OF al(1) i(1)]
      by (simp add: block_size_def i(2,3))
  next
    case None
    then have pn: "p = a + 12" "n = 4096 * free_cnt ar - 12" using a(2) by (auto simp: ablocks_def)
    have ap: "apages ar = free_cnt ar" using None by (simp add: apages_def)
    have lim: "0 < free_cnt ar" "4096 * free_cnt ar < 2 ^ 32"
      using arenas_okD(2) [OF H(3) a(1)] H(2) by (auto simp: krun_def ap pools_high_def palloc_ok_def pool_ok_def)
    have pp: "pg_round_down p = a" "unat (pg_ofs p) = 12" using page_part [OF al(1), of 12] by (simp_all add: pn)
    then have po: "pg_ofs p = of_nat sizeof_arena" by (simp add: word_unat_eq_iff sizeof_arena_def)
    then have ba: "block_to_arena p s = Some (a, ar)" using al(2) a(1) mg None pp(1) by (simp add: block_to_arena_def)
    have "unat (of_nat (4096 * free_cnt ar) :: u32) = 4096 * free_cnt ar" by (rule u32_small [OF lim(2)])
    then have "unat (4096 * of_nat (free_cnt ar) - pg_ofs p) = n"
      using pp(2) lim(1) by (simp add: pn(2) unat_sub word_le_nat_alt)
    moreover have "p \<noteq> 0" using unat_page_add [OF al(1), of 12] by (intro notI) (simp add: pn)
    ultimately show ?thesis using ba None by (simp add: block_size_def)
  qed
  then show "block_size p s = Some n" "p \<noteq> 0" by auto
qed

section \<open>The contract of an allocator\<close>

text \<open>What the clients of an allocator rely on, and what follows for them.\<close>

locale block_allocator =
  fixes ok :: "'s \<Rightarrow> bool"
    and held :: "'s \<Rightarrow> (vaddr \<times> nat) set"
    and alloc :: "u32 \<Rightarrow> 's \<Rightarrow> (vaddr \<times> 's) option"
    and dealloc :: "vaddr \<Rightarrow> 's \<Rightarrow> 's option"
  assumes alloc_ok: "ok s \<Longrightarrow> \<exists>p s'. alloc x s = Some (p, s') \<and> ok s' \<and> (p = 0 \<and> s' = s \<or> p \<noteq> 0 \<and> (\<exists>n. (p, n) \<notin> held s \<and> held s' = insert (p, n) (held s)))"
    and dealloc_ok: "ok s \<Longrightarrow> (p, n) \<in> held s \<Longrightarrow> \<exists>s'. dealloc p s = Some s' \<and> ok s' \<and> held s' = held s - {(p, n)}"
begin

text \<open>A block that is handed back leaves the others as they were.\<close>

lemma alloc_dealloc:
  assumes "ok s" "alloc x s = Some (p, s')" "p \<noteq> 0"
  shows "\<exists>t. dealloc p s' = Some t \<and> ok t \<and> held t = held s"
proof -
  from alloc_ok [OF assms(1), of x] assms(2,3) obtain n where n: "ok s'" "(p, n) \<notin> held s" "held s' = insert (p, n) (held s)" by auto
  from dealloc_ok [OF n(1), of p n] n(3) obtain t where "dealloc p s' = Some t" "ok t" "held t = held s' - {(p, n)}" by auto
  then show ?thesis using n(2,3) by auto
qed

text \<open>A list of blocks that are all held can be given back, in any order and without fail.\<close>

primrec dealloc_all :: "vaddr list \<Rightarrow> 's \<Rightarrow> 's option" where
  "dealloc_all [] s = Some s"
| "dealloc_all (p # ps) s = Option.bind (dealloc p s) (dealloc_all ps)"

lemma dealloc_all_ok:
  assumes "ok s" "set bs \<subseteq> held s" "distinct bs"
  shows "\<exists>t. dealloc_all (map fst bs) s = Some t \<and> ok t \<and> held t = held s - set bs"
  using assms
proof (induction bs arbitrary: s)
  case (Cons b bs)
  obtain p n where b: "b = (p, n)" by (cases b)
  from dealloc_ok [OF Cons.prems(1), of p n] Cons.prems(2) b obtain u where u: "dealloc p s = Some u" "ok u" "held u = held s - {(p, n)}" by auto
  have "set bs \<subseteq> held u" "distinct bs" using Cons.prems(2,3) u(3) b by auto
  from Cons.IH [OF u(2) this] u b show ?case by auto
qed simp

end

lemma malloc_law:
  assumes "heap_ok s"
  shows "\<exists>p s'. malloc x s = Some (p, s') \<and> heap_ok s' \<and> (p = 0 \<and> s' = s \<or> p \<noteq> 0 \<and> (\<exists>n. (p, n) \<notin> live s \<and> live s' = insert (p, n) (live s)))"
proof -
  from malloc_cases [OF assms, of x] obtain p s' where r: "malloc x s = Some (p, s')" "allocated x p s s'" by blast
  have "(p, n) \<notin> live s" if n: "live s' = insert (p, n) (live s)" "\<forall>q l. (q, l) \<in> live s \<longrightarrow> bytes p n \<inter> bytes q l = {}" for n
  proof
    assume c: "(p, n) \<in> live s"
    then obtain a ar where a: "arenas s a = Some ar" "(p, n) \<in> ablocks (fl s) a ar" by (auto simp: live_def blocks_def)
    have inv: "heap_inv s" using assms by (simp add: heap_ok_def)
    have "p \<in> bytes p n" by (rule ablocks_extent(2) [OF a(2) arenas_okD(2) [OF heap_invD(3) [OF inv] a(1)]]) (use heap_invD(2) [OF inv] in \<open>simp add: pools_high_def\<close>)
    then show False using n(2) c by blast
  qed
  then show ?thesis using r unfolding allocated_def by blast
qed

lemma free_law:
  assumes "heap_ok s" "(p, n) \<in> live s"
  shows "\<exists>s'. free p s = Some s' \<and> heap_ok s' \<and> live s' = live s - {(p, n)}"
  using free_cases [OF assms] unfolding freed_def by blast

interpretation ha: block_allocator heap_ok live malloc free
  by unfold_locales (erule malloc_law, erule (1) free_law)

lemma in_bytes: "j < n \<Longrightarrow> n \<le> 2 ^ 32 \<Longrightarrow> p + of_nat j \<in> bytes p n"
  using u32_small [of j] by (simp add: bytes_def)

text \<open>The old contents are copied to the new block, and the old block is freed.\<close>

lemma realloc_move:
  assumes ok: "heap_ok s1" and l: "live s1 = insert (q, l) B" "\<forall>r k. (r, k) \<in> B \<longrightarrow> bytes q l \<inter> bytes r k = {}" "0 < l" "l < 2 ^ 32"
    and p: "(p, n) \<in> B" and c: "c \<le> l" and s2: "s2 = s1\<lparr>pages := (pages s1)\<lparr>mem := mem_copy q p c (mem (pages s1))\<rparr>\<rparr>"
  shows "\<exists>s'. free p s2 = Some s' \<and> heap_ok s' \<and> live s' = insert (q, l) (B - {(p, n)})
    \<and> (\<forall>j < c. mem (pages s') (q + of_nat j) = mem (pages s1) (p + of_nat j))
    \<and> (\<forall>r k. \<forall>y \<in> bytes r k. (r, k) \<in> B - {(p, n)} \<longrightarrow> mem (pages s') y = mem (pages s1) y)"
proof -
  have ok2: "heap_ok s2" and lv2: "live s2 = live s1" using ok by (simp_all add: s2)
  from free_cases [OF ok2, of p n] p lv2 l(1) obtain s' where f: "free p s2 = Some s'" "freed p n s2 s'" by auto
  have "q \<in> bytes q l" using l(3) by (simp add: bytes_def)
  then have "(q, l) \<noteq> (p, n)" using l(2) p by blast
  then have lv: "live s' = insert (q, l) (B - {(p, n)})" using f(2) lv2 l(1) by (auto simp: freed_def)
  have keep: "mem (pages s') y = mem (pages s2) y" if "(a, k) \<in> live s'" "y \<in> bytes a k" for a k y using f(2) that unfolding freed_def by blast
  have "mem (pages s') (q + of_nat j) = mem (pages s1) (p + of_nat j)" if j: "j < c" for j
  proof -
    have "unat (of_nat j :: u32) = j" by (rule u32_small) (use j c l(4) in simp)
    moreover have "q + of_nat j \<in> bytes q l" by (rule in_bytes) (use j c l(4) in simp_all)
    then have "mem (pages s') (q + of_nat j) = mem (pages s2) (q + of_nat j)" using keep lv by blast
    ultimately show ?thesis using j by (simp add: s2 mem_copy_def)
  qed
  moreover have "mem (pages s') y = mem (pages s1) y" if y: "y \<in> bytes a k" "(a, k) \<in> B - {(p, n)}" for a k y
  proof -
    have "y \<notin> bytes q l" using l(2) y by blast
    then have "mem (pages s2) y = mem (pages s1) y" using c by (simp add: bytes_def s2 mem_copy_def)
    moreover have "(a, k) \<in> live s'" using y(2) lv by blast
    ultimately show ?thesis using keep [OF _ y(1)] by simp
  qed
  moreover have "heap_ok s'" using f(2) by (simp add: freed_def)
  ultimately show ?thesis using f(1) lv by blast
qed

lemma live_bound:
  assumes "heap_ok s" "(p, n) \<in> live s"
  shows "0 < n" "n < 2 ^ 32"
proof -
  have inv: "heap_inv s" using assms(1) by (simp add: heap_ok_def)
  obtain a ar where a: "arenas s a = Some ar" "(p, n) \<in> ablocks (fl s) a ar" using assms(2) by (auto simp: live_def blocks_def)
  have po: "palloc_ok (pages s)" using heap_invD(2) [OF inv] by (simp add: pools_high_def)
  note run = arenas_okD(2) [OF heap_invD(3) [OF inv] a(1)]
  show "0 < n" by (rule ablocks_extent(3) [OF a(2) run po])
  have "4096 * apages ar < 2 ^ 32" using run po by (auto simp: krun_def palloc_ok_def pool_ok_def)
  moreover have "n \<le> 4096 * apages ar"
  proof (cases "a_desc ar")
    case (Some k)
    then obtain i where "i < bpa k" "n = bsz k" using a(2) by (auto simp: ablocks_def)
    then show ?thesis using bpa_room [of i k] Some by (simp add: apages_def)
  qed (use a(2) in \<open>auto simp: ablocks_def apages_def\<close>)
  ultimately show "n < 2 ^ 32" by simp
qed

lemma realloc_cases:
  assumes ok: "heap_ok s" and p: "(p, n) \<in> live s" and x: "x \<noteq> 0" "unat x < 2 ^ 32 - 11"
  shows "\<exists>q s'. realloc p x s = Some (q, s') \<and> heap_ok s' \<and> (q = 0 \<and> s' = s \<or> q \<noteq> 0 \<and>
     (\<exists>l. unat x \<le> l \<and> live s' = insert (q, l) (live s - {(p, n)})
        \<and> (\<forall>j < min (unat x) n. mem (pages s') (q + of_nat j) = mem (pages s) (p + of_nat j))
        \<and> (\<forall>r k. \<forall>y \<in> bytes r k. (r, k) \<in> live s - {(p, n)} \<longrightarrow> mem (pages s') y = mem (pages s) y)))"
proof -
  from malloc_cases [OF ok, of x] obtain q s1 where q: "malloc x s = Some (q, s1)" "allocated x q s s1" "mem (pages s1) = mem (pages s)" by blast
  show ?thesis
  proof (cases "q = 0")
    case True
    then have "s1 = s" using q(2) by (simp add: allocated_def)
    then have "realloc p x s = Some (0, s)" using x(1) q(1) True by (simp add: realloc_def)
    then show ?thesis using ok by simp
  next
    case False
    with q(2) x(2) obtain l where l: "heap_ok s1" "live s1 = insert (q, l) (live s)" "\<forall>r k. (r, k) \<in> live s \<longrightarrow> bytes q l \<inter> bytes r k = {}" "unat x \<le> l"
      unfolding allocated_def by blast
    have "(p, n) \<in> live s1" using p l(2) by simp
    note bs = block_size_live [OF l(1) this]
    define c where "c = (if unat x < n then unat x else n)"
    have c: "c = min (unat x) n" "c \<le> l" using l(4) by (auto simp: c_def)
    define s2 where "s2 = s1\<lparr>pages := (pages s1)\<lparr>mem := mem_copy q p c (mem (pages s1))\<rparr>\<rparr>"
    have "(q, l) \<in> live s1" using l(2) by simp
    note lb = live_bound [OF l(1) this]
    from realloc_move [OF l(1-3) lb p c(2) s2_def] obtain s' where f: "free p s2 = Some s'" "heap_ok s'" "live s' = insert (q, l) (live s - {(p, n)})"
      "\<forall>j < c. mem (pages s') (q + of_nat j) = mem (pages s1) (p + of_nat j)"
      "\<forall>r k. \<forall>y \<in> bytes r k. (r, k) \<in> live s - {(p, n)} \<longrightarrow> mem (pages s') y = mem (pages s1) y" by blast
    have r: "realloc p x s = Some (q, s')" using x(1) q(1) False bs f(1) unfolding realloc_def s2_def c_def Let_def by simp
    then show ?thesis using False f(2-5) l(4) unfolding c(1) q(3) by blast
  qed
qed

section \<open>Requests that overflow\<close>

lemma find_desc_big:
  assumes "heap_ok s" "1024 < unat x"
  shows "find_desc (descs s) x = None"
proof (cases "find_desc (descs s) x")
  case (Some k)
  have sz: "sizes_ok (descs s)" using assms(1) by (simp add: heap_ok_def heap_inv_def)
  have "k < 7" "unat x \<le> bsz k" using find_desc_Some [OF Some] sz by (auto simp: sizes_ok_def)
  moreover from this have "(2 :: nat) ^ k \<le> 2 ^ 6" by (intro power_increasing) simp_all
  ultimately show ?thesis using assms(2) by (simp add: bsz_def)
qed simp

lemma malloc_big_size:
  assumes "heap_ok s" "1024 < unat x" "malloc x s = Some (p, s')" "p \<noteq> 0"
  shows "(p, 4096 * unat ((x + of_nat sizeof_arena + 4096 - 1) div 4096) - 12) \<in> live s'"
proof -
  have "x \<noteq> 0" using assms(2) by auto
  from malloc_big [OF assms(1) this find_desc_big [OF assms(1,2)] refl] show ?thesis using assms(3,4) by auto
qed

text \<open>Of the largest sizes, the sum with the header wraps round, and a block of one page is returned.\<close>

lemma malloc_wraps:
  assumes "heap_ok s" "2 ^ 32 - 11 \<le> unat x" "malloc x s = Some (p, s')" "p \<noteq> 0"
  shows "(p, 4084) \<in> live s'"
proof -
  have "unat (x + 4107) = (unat x + 4107) mod 2 ^ 32" by (simp add: unat_word_ariths)
  moreover have "unat x < 2 ^ 32" using unsigned_less [where w = x and 'a = nat] by simp
  ultimately have "unat (x + 4107) = unat x + 4107 - 2 ^ 32" using assms(2) by (simp add: mod_if)
  then have "unat (x + 4107) div 4096 = 1" using assms(2) \<open>unat x < 2 ^ 32\<close> by simp
  moreover have "x + of_nat sizeof_arena + 4096 - 1 = x + 4107" by (simp add: sizeof_arena_def)
  ultimately have "unat ((x + of_nat sizeof_arena + 4096 - 1) div 4096) = 1" by (simp only: unat_div) simp
  then show ?thesis using malloc_big_size [OF assms(1) _ assms(3,4)] assms(2) by simp
qed

text \<open>A product that wraps round to more than its factors passes the test of \<^verbatim>\<open>calloc\<close>.\<close>

lemma calloc_overflows:
  assumes "heap_ok s" "calloc 0x10001 0x10001 s = Some (p, s')" "p \<noteq> 0"
  shows "(p, 135156) \<in> live s'"
proof -
  have w: "(0x10001 :: u32) * 0x10001 = 0x20001" "\<not> (0x20001 :: u32) < 0x10001" by simp_all
  obtain s1 where s1: "malloc 0x20001 s = Some (p, s1)" "live s' = live s1"
    using assms(2,3) unfolding calloc_def Let_def w by (auto split: option_bind_splits)
  from malloc_big_size [OF assms(1) _ s1(1) assms(3)] show ?thesis by (simp add: s1(2) sizeof_arena_def)
qed

section \<open>A heap\<close>

definition small_pmem :: pmem where
  "small_pmem = \<lparr>kernel_pool = \<lparr>used_map = \<lparr>bit_cnt = 64, bits = [0, 0]\<rparr>, base = 0xc0100000\<rparr>,
     user_pool = \<lparr>used_map = \<lparr>bit_cnt = 4, bits = [0]\<rparr>, base = 0xc0200000\<rparr>, mem = (\<lambda>_. 7)\<rparr>"

lemma small_pmem_high: "pools_high small_pmem"
  by (simp add: small_pmem_def pools_high_def palloc_ok_def pool_ok_def pool_end_def bm_wf_def elem_cnt_def ELEM_BITS_def DIV_ROUND_UP_def pg_ofs_def PGMASK_def BITMASK_def PGBITS_def PHYS_BASE_def)

lemma get_aligned:
  assumes hi: "pools_high m" and g: "palloc_get_multiple 0 n m = Some (a, m')" "a \<noteq> 0"
  shows "aligned a"
proof -
  from get_krun [OF hi, of n] g have "krun m' a n" "pools_high m'" by auto
  then show ?thesis using in_use_page(2) [of m' a] page_self [of n a] by (auto simp: krun_def)
qed

lemma get_finds:
  assumes hi: "pools_high m" and n: "n \<noteq> 0" "n \<le> bit_cnt (used_map (kernel_pool m))" and z: "\<And>k. k < n \<Longrightarrow> \<not> bm_bit (used_map (kernel_pool m)) k"
  shows "\<exists>a m'. palloc_get_multiple 0 n m = Some (a, m') \<and> a \<noteq> 0"
proof -
  let ?p = "kernel_pool m"
  have ok: "palloc_ok m" using hi by (simp add: pools_high_def)
  have p: "?p = the_pool (0 AND PAL_USER \<noteq> 0) m" by (simp add: the_pool_def)
  have "\<not> in_use m (page_at ?p (0 + k))" if "k < n" for k
    using in_use_page_at [OF ok, of k False] n(2) that z by (simp add: the_pool_def)
  then have "\<not> (\<forall>i. i + n \<le> bit_cnt (used_map ?p) \<longrightarrow> (\<exists>k < n. in_use m (page_at ?p (i + k))))" using n(2) by (metis add_0)
  with palloc_get_cases [OF ok n(1) p] obtain i m' where i: "i + n \<le> bit_cnt (used_map ?p)" "palloc_get_multiple 0 n m = Some (page_at ?p i, m')" by blast
  have "page_at ?p i \<noteq> 0" by (rule page_at_nonnull) (use ok i(1) in \<open>auto simp: palloc_ok_def\<close>)
  then show ?thesis using i(2) by blast
qed

text \<open>The heap after \<^verbatim>\<open>malloc_init\<close> with 64 free pages, and a first block.\<close>

lemma big_request:
  assumes "heap_ok s" "pages s = small_pmem" "1024 < unat x" "unat x \<le> 64 * 4096 - 12"
  shows "\<exists>p s'. malloc x s = Some (p, s') \<and> p \<noteq> 0"
proof -
  define n where "n = unat ((x + of_nat sizeof_arena + 4096 - 1) div 4096)"
  have "x + of_nat sizeof_arena + 4096 - 1 = x + 4107" by (simp add: sizeof_arena_def)
  moreover have "unat (x + 4107) = unat x + 4107" using unat_add_lem [of x 4107] assms(4) by simp
  ultimately have n: "n = (unat x + 4107) div 4096" unfolding n_def by (simp only: unat_div) simp
  have "\<not> bm_bit (used_map (kernel_pool small_pmem)) k" if "k < n" for k
  proof -
    have "k < 64" using n assms(4) that by linarith
    then show ?thesis by (auto simp: small_pmem_def bm_bit_def nth_Cons' split: if_splits)
  qed
  moreover have "n \<noteq> 0" "n \<le> 64" using n assms(4) by linarith+
  ultimately obtain a m where a: "palloc_get_multiple 0 n small_pmem = Some (a, m)" "a \<noteq> 0"
    using get_finds [OF small_pmem_high, of n] by (auto simp: small_pmem_def)
  have x: "x \<noteq> 0" using assms(3) by auto
  have "malloc x s = Some (a + of_nat sizeof_arena, s\<lparr>pages := m, arenas := (arenas s)(a \<mapsto> \<lparr>magic = ARENA_MAGIC, a_desc = None, free_cnt = n\<rparr>)\<rparr>)"
    using x find_desc_big [OF assms(1,3)] a unfolding malloc_def Let_def n_def [symmetric] assms(2) by simp
  moreover have "a + of_nat sizeof_arena \<noteq> 0"
    using unat_page_add [OF get_aligned [OF small_pmem_high a], of 12] by (intro notI) (simp add: sizeof_arena_def)
  ultimately show ?thesis by blast
qed

lemma first_block:
  obtains s p s' n where "malloc_init small_pmem = Some s" "heap_ok s" "live s = {}" "malloc 5000 s = Some (p, s')" "p \<noteq> 0"
    "heap_ok s'" "live s' = {(p, n)}" "5000 \<le> n"
proof -
  obtain s where s: "malloc_init small_pmem = Some s" "heap_ok s" "live s = {}" "pages s = small_pmem" using malloc_init_cases [OF small_pmem_high] by blast
  obtain p s' where p: "malloc 5000 s = Some (p, s')" "p \<noteq> 0" using big_request [OF s(2,4), of 5000] by auto
  from malloc_cases [OF s(2), of 5000] p have a: "allocated 5000 p s s'" by auto
  then obtain n where "heap_ok s'" "live s' = insert (p, n) {}" "5000 \<le> n" using p(2) s(3) unfolding allocated_def by auto
  then show thesis using that s p by blast
qed

section \<open>Properties\<close>







text \<open>
  C4. \<^verbatim>\<open>calloc\<close> of \<open>a\<close> times \<open>b\<close> bytes, where the product fits, returns null or a block of that size whose bytes are zero.
\<close>

theorem calloc_correct:
  assumes ok: "heap_ok s" and ab: "unat a * unat b < 2 ^ 32 - 11" "a \<noteq> 0" "b \<noteq> 0"
  shows "\<exists>p s'. calloc a b s = Some (p, s') \<and> heap_ok s' \<and> (p = 0 \<and> s' = s \<or> p \<noteq> 0 \<and>
     (\<exists>n. unat a * unat b \<le> n \<and> live s' = insert (p, n) (live s) \<and> (\<forall>j < unat a * unat b. mem (pages s') (p + of_nat j) = 0)
        \<and> (\<forall>r k. \<forall>y \<in> bytes r k. (r, k) \<in> live s \<longrightarrow> mem (pages s') y = mem (pages s) y)))"
proof -
  have u: "unat (a * b) = unat a * unat b" using ab(1) unat_mult_lem [of a b] by simp
  have "0 < unat a" "0 < unat b" using ab(2,3) by (simp_all add: word_unat_eq_iff)
  then have "unat a \<le> unat a * unat b" "unat b \<le> unat a * unat b" by simp_all
  then have nl: "\<not> (a * b < a \<or> a * b < b)" unfolding word_less_nat_alt u by linarith
  from malloc_cases [OF ok, of "a * b"] obtain p s1 where q: "malloc (a * b) s = Some (p, s1)" "allocated (a * b) p s s1" "mem (pages s1) = mem (pages s)" by blast
  show ?thesis
  proof (cases "p = 0")
    case True
    then have "s1 = s" using q(2) by (simp add: allocated_def)
    then show ?thesis using True q(1) nl ok by (simp add: calloc_def Let_def)
  next
    case False
    with q(2) ab(1) obtain n where n: "heap_ok s1" "live s1 = insert (p, n) (live s)" "\<forall>r k. (r, k) \<in> live s \<longrightarrow> bytes p n \<inter> bytes r k = {}" "unat a * unat b \<le> n"
      unfolding allocated_def u by blast
    let ?s = "s1\<lparr>pages := (pages s1)\<lparr>mem := mem_fill p 0 (unat (a * b)) (mem (pages s1))\<rparr>\<rparr>"
    have r: "calloc a b s = Some (p, ?s)" using q(1) nl False by (simp add: calloc_def Let_def)
    have z: "mem (pages ?s) (p + of_nat j) = 0" if "j < unat a * unat b" for j
      using that u32_small [of j] ab(1) by (simp add: mem_fill_def u)
    have "mem (pages ?s) y = mem (pages s) y" if y: "y \<in> bytes t k" "(t, k) \<in> live s" for t k y
    proof -
      have "y \<notin> bytes p n" using n(3) y by blast
      then show ?thesis using n(4) q(3) by (simp add: mem_fill_def bytes_def u)
    qed
    moreover have "heap_ok ?s" "live ?s = insert (p, n) (live s)" using n(1,2) by simp_all
    ultimately show ?thesis using r False z n(4) by blast
  qed
qed

theorem calloc_correct_witness:
  "\<exists>s p s'. malloc_init small_pmem = Some s \<and> heap_ok s \<and> calloc 1000 5 s = Some (p, s') \<and> heap_ok s'"
proof -
  obtain s p s' n where r: "malloc_init small_pmem = Some s" "heap_ok s" by (rule first_block)
  from calloc_correct [OF r(2), of 1000 5] obtain p s' where "calloc 1000 5 s = Some (p, s')" "heap_ok s'" by auto
  then show ?thesis using r by blast
qed

text \<open>
  Allocating a block and freeing it gives back the blocks that were in use before.
\<close>

theorem malloc_then_free:
  assumes "heap_ok s" "malloc x s = Some (p, s')" "p \<noteq> 0"
  shows "\<exists>t. free p s' = Some t \<and> heap_ok t \<and> live t = live s"
  by (rule ha.alloc_dealloc [OF assms])

theorem malloc_then_free_witness:
  "\<exists>s p s' t. malloc_init small_pmem = Some s \<and> malloc 5000 s = Some (p, s') \<and> p \<noteq> 0 \<and> free p s' = Some t \<and> live t = {}"
proof -
  obtain s p s' n where r: "malloc_init small_pmem = Some s" "heap_ok s" "live s = {}" "malloc 5000 s = Some (p, s')" "p \<noteq> 0" by (rule first_block)
  from malloc_then_free [OF r(2,4,5)] r show ?thesis by auto
qed

end
