(* ===== verification/Stdio.thy ===== *)
theory Stdio
  imports Stdlib
begin

unbundle bit_operations_syntax

text \<open>
  \<^verbatim>\<open>lib/stdio.c\<close>: formatted output.  A C string is the list of its bytes in front of the terminator, an output function
  maps a byte and a state to a state, and a variable argument is a 32-bit word, a 64-bit word or a string (\<open>None\<close> is
  the null pointer); an argument of another type than the conversion asks for is undefined.
\<close>

section \<open>Arguments and conversions\<close>

datatype vararg = Arg32 u32 | Arg64 u64 | Arg_str "byte list option"

fun va_arg32 :: "vararg list \<Rightarrow> (u32 \<times> vararg list) option" where
  "va_arg32 (Arg32 w # as) = Some (w, as)"
| "va_arg32 _ = None"

fun va_arg64 :: "vararg list \<Rightarrow> (u64 \<times> vararg list) option" where
  "va_arg64 (Arg64 w # as) = Some (w, as)"
| "va_arg64 _ = None"

fun va_arg_str :: "vararg list \<Rightarrow> (byte list option \<times> vararg list) option" where
  "va_arg_str (Arg_str s # as) = Some (s, as)"
| "va_arg_str _ = None"

datatype conv_type = T_CHAR | T_SHORT | T_INT | T_INTMAX | T_LONG | T_LONGLONG | T_PTRDIFFT | T_SIZET

definition MINUS :: u32 where "MINUS = 1"
definition PLUS :: u32 where "PLUS = 2"
definition SPACE :: u32 where "SPACE = 4"
definition POUND :: u32 where "POUND = 8"
definition ZERO :: u32 where "ZERO = 16"
definition GROUP :: u32 where "GROUP = 32"

lemmas flag_defs = MINUS_def PLUS_def SPACE_def POUND_def ZERO_def GROUP_def

record printf_conversion =
  flags :: u32
  width :: int
  precision :: int
  type :: conv_type

record integer_base =
  ib_base :: u64
  ib_digits :: "byte list"
  ib_x :: byte
  ib_group :: nat

text \<open>The byte of a character constant.\<close>

abbreviation ch :: "char \<Rightarrow> byte" where
  "ch c \<equiv> of_char c"

definition base_d :: integer_base where
  "base_d = \<lparr>ib_base = 10, ib_digits = str ''0123456789'', ib_x = 0, ib_group = 3\<rparr>"

definition base_o :: integer_base where
  "base_o = \<lparr>ib_base = 8, ib_digits = str ''01234567'', ib_x = 0, ib_group = 3\<rparr>"

definition base_x :: integer_base where
  "base_x = \<lparr>ib_base = 16, ib_digits = str ''0123456789abcdef'', ib_x = ch (CHR ''x''), ib_group = 4\<rparr>"

definition base_X :: integer_base where
  "base_X = \<lparr>ib_base = 16, ib_digits = str ''0123456789ABCDEF'', ib_x = ch (CHR ''X''), ib_group = 4\<rparr>"

section \<open>Parsing a conversion\<close>

text \<open>Arithmetic on \<^verbatim>\<open>int\<close>: an overflow is undefined.\<close>

definition s32 :: "int \<Rightarrow> int option" where
  "s32 x = (if - (2 ^ 31) \<le> x \<and> x < 2 ^ 31 then Some x else None)"

text \<open>The byte that a pointer into a string points to; at the end it is the terminator.\<close>

fun cur_ch :: "byte list \<Rightarrow> byte" where
  "cur_ch [] = 0"
| "cur_ch (c # cs) = c"

fun parse_flags :: "byte list \<Rightarrow> u32 \<Rightarrow> byte list \<times> u32" where
  "parse_flags [] f = ([], f)"
| "parse_flags (c # cs) f =
     (if c = ch (CHR ''-'') then parse_flags cs (f OR MINUS)
      else if c = ch (CHR ''+'') then parse_flags cs (f OR PLUS)
      else if c = ch (CHR '' '') then parse_flags cs (f OR SPACE)
      else if c = ch (CHR ''#'') then parse_flags cs (f OR POUND)
      else if c = ch (CHR ''0'') then parse_flags cs (f OR ZERO)
      else if c = ch (CHR 0x27) then parse_flags cs (f OR GROUP)
      else (c # cs, f))"

fun parse_digits :: "byte list \<Rightarrow> int \<Rightarrow> (byte list \<times> int) option" where
  "parse_digits [] v = Some ([], v)"
| "parse_digits (c # cs) v =
     (if isdigit c then do {
        v \<leftarrow> s32 (v * 10);
        v \<leftarrow> s32 (v + int (unat c));
        parse_digits cs (v - 48) }
      else Some (c # cs, v))"

definition parse_width :: "byte list \<Rightarrow> u32 \<Rightarrow> vararg list \<Rightarrow> (byte list \<times> u32 \<times> int \<times> vararg list) option" where
  "parse_width format fl args = do {
     (format, w, args) \<leftarrow>
       (if cur_ch format = ch (CHR ''*'') then do { (a, args) \<leftarrow> va_arg32 args; Some (tl format, sint a, args) }
        else do { (format, w) \<leftarrow> parse_digits format 0; Some (format, w, args) });
     if w < 0 then do { w \<leftarrow> s32 (- w); Some (format, fl OR MINUS, w, args) }
     else Some (format, fl, w, args) }"

definition parse_precision :: "byte list \<Rightarrow> vararg list \<Rightarrow> (byte list \<times> int \<times> vararg list) option" where
  "parse_precision format args =
     (if cur_ch format = ch (CHR ''.'') then do {
        let format = tl format;
        (format, p, args) \<leftarrow>
          (if cur_ch format = ch (CHR ''*'') then do { (a, args) \<leftarrow> va_arg32 args; Some (tl format, sint a, args) }
           else do { (format, p) \<leftarrow> parse_digits format 0; Some (format, p, args) });
        Some (format, if p < 0 then - 1 else p, args) }
      else Some (format, - 1, args))"

definition parse_type :: "byte list \<Rightarrow> byte list \<times> conv_type" where
  "parse_type format =
     (if cur_ch format = ch (CHR ''h'') then
        if cur_ch (tl format) = ch (CHR ''h'') then (tl (tl format), T_CHAR) else (tl format, T_SHORT)
      else if cur_ch format = ch (CHR ''j'') then (tl format, T_INTMAX)
      else if cur_ch format = ch (CHR ''l'') then
        if cur_ch (tl format) = ch (CHR ''l'') then (tl (tl format), T_LONGLONG) else (tl format, T_LONG)
      else if cur_ch format = ch (CHR ''t'') then (tl format, T_PTRDIFFT)
      else if cur_ch format = ch (CHR ''z'') then (tl format, T_SIZET)
      else (format, T_INT))"

definition parse_conversion :: "byte list \<Rightarrow> vararg list \<Rightarrow> (byte list \<times> printf_conversion \<times> vararg list) option" where
  "parse_conversion format args = do {
     let (format, fl) = parse_flags format 0;
     let fl = (if fl AND MINUS \<noteq> 0 then fl AND NOT ZERO else fl);
     let fl = (if fl AND PLUS \<noteq> 0 then fl AND NOT SPACE else fl);
     (format, fl, w, args) \<leftarrow> parse_width format fl args;
     (format, p, args) \<leftarrow> parse_precision format args;
     let fl = (if p \<ge> 0 then fl AND NOT ZERO else fl);
     let (format, t) = parse_type format;
     Some (format, \<lparr>flags = fl, width = w, precision = p, type = t\<rparr>, args) }"

section \<open>Output\<close>

type_synonym 's out = "byte \<Rightarrow> 's \<Rightarrow> 's option"

primrec output_dup :: "byte \<Rightarrow> nat \<Rightarrow> 's out \<Rightarrow> 's \<Rightarrow> 's option" where
  "output_dup c 0 out s = Some s"
| "output_dup c (Suc cnt) out s = do { s \<leftarrow> out c s; output_dup c cnt out s }"

text \<open>A write at the current position of the buffer of 64 bytes.\<close>

definition put :: "byte \<Rightarrow> byte list \<Rightarrow> byte list option" where
  "put c buf = (if length buf < 64 then Some (buf @ [c]) else None)"

text \<open>The loop that accumulates digits; a base below 2 would not end it.\<close>

function digit_loop :: "bool \<Rightarrow> integer_base \<Rightarrow> nat \<Rightarrow> u64 \<Rightarrow> byte list \<Rightarrow> byte list option" where
  "digit_loop gr b digit_cnt v buf =
     (if v > 0 \<and> ib_base b > 1 then do {
        buf \<leftarrow> (if gr \<and> digit_cnt > 0 \<and> digit_cnt mod ib_group b = 0 then put (ch (CHR '','')) buf else Some buf);
        d \<leftarrow> arr_get (ib_digits b) (unat (v mod ib_base b));
        buf \<leftarrow> put d buf;
        digit_loop gr b (Suc digit_cnt) (v div ib_base b) buf }
      else if v > 0 then None else Some buf)"
  by pat_completeness auto
termination
  by (relation "measure (\<lambda>(g, b, n, v, buf). unat v)") (auto simp: unat_div word_less_nat_alt intro!: div_less_dividend)

declare digit_loop.simps [simp del]

function zero_loop :: "int \<Rightarrow> byte list \<Rightarrow> byte list" where
  "zero_loop prec buf =
     (if int (length buf) < prec \<and> length buf < 63 then zero_loop prec (buf @ [ch (CHR ''0'')]) else buf)"
  by pat_completeness auto
termination
  by (relation "measure (\<lambda>(p, buf). 63 - length buf)") auto

declare zero_loop.simps [simp del]

primrec output_all :: "byte list \<Rightarrow> 's out \<Rightarrow> 's \<Rightarrow> 's option" where
  "output_all [] out s = Some s"
| "output_all (c # cs) out s = do { s \<leftarrow> out c s; output_all cs out s }"

text \<open>The sign, 0 if there is none.\<close>

definition sign_ch :: "bool \<Rightarrow> bool \<Rightarrow> u32 \<Rightarrow> byte" where
  "sign_ch is_signed negative fl =
     (if is_signed then
        if fl AND PLUS \<noteq> 0 then (if negative then ch (CHR ''-'') else ch (CHR ''+''))
        else if fl AND SPACE \<noteq> 0 then (if negative then ch (CHR ''-'') else ch (CHR '' ''))
        else if negative then ch (CHR ''-'') else 0
      else 0)"

definition format_integer :: "u64 \<Rightarrow> bool \<Rightarrow> bool \<Rightarrow> integer_base \<Rightarrow> printf_conversion \<Rightarrow> 's out \<Rightarrow> 's \<Rightarrow> 's option" where
  "format_integer v is_signed negative b c out s = do {
     let sign = sign_ch is_signed negative (flags c);
     let x = (if flags c AND POUND \<noteq> 0 \<and> v \<noteq> 0 then ib_x b else 0);
     buf \<leftarrow> digit_loop (flags c AND GROUP \<noteq> 0) b 0 v [];
     let prec = (if precision c < 0 then 1 else precision c);
     let buf = zero_loop prec buf;
     buf \<leftarrow> (if flags c AND POUND \<noteq> 0 \<and> ib_base b = 8 \<and> (buf = [] \<or> last buf \<noteq> ch (CHR ''0'')) then put (ch (CHR ''0'')) buf else Some buf);
     let pad_cnt = nat (width c - int (length buf) - (if x \<noteq> 0 then 2 else 0) - (if sign \<noteq> 0 then 1 else 0));
     s \<leftarrow> (if flags c AND (MINUS OR ZERO) = 0 then output_dup (ch (CHR '' '')) pad_cnt out s else Some s);
     s \<leftarrow> (if sign \<noteq> 0 then out sign s else Some s);
     s \<leftarrow> (if x \<noteq> 0 then do { s \<leftarrow> out (ch (CHR ''0'')) s; out x s } else Some s);
     s \<leftarrow> (if flags c AND ZERO \<noteq> 0 then output_dup (ch (CHR ''0'')) pad_cnt out s else Some s);
     s \<leftarrow> output_all (rev buf) out s;
     if flags c AND MINUS \<noteq> 0 then output_dup (ch (CHR '' '')) pad_cnt out s else Some s }"

definition format_string :: "byte list \<Rightarrow> int \<Rightarrow> printf_conversion \<Rightarrow> 's out \<Rightarrow> 's \<Rightarrow> 's option" where
  "format_string string len c out s = do {
     s \<leftarrow> (if width c > len \<and> flags c AND MINUS = 0 then output_dup (ch (CHR '' '')) (nat (width c - len)) out s else Some s);
     s \<leftarrow> for_loop 0 (nat len) (\<lambda>i s. do { x \<leftarrow> arr_get string i; out x s }) s;
     if width c > len \<and> flags c AND MINUS \<noteq> 0 then output_dup (ch (CHR '' '')) (nat (width c - len)) out s else Some s }"

text \<open>The arguments of the integer conversions.\<close>

fun signed_arg :: "conv_type \<Rightarrow> vararg list \<Rightarrow> (int \<times> vararg list) option" where
  "signed_arg T_CHAR args = do { (w, args) \<leftarrow> va_arg32 args; Some (sint (ucast w :: byte), args) }"
| "signed_arg T_SHORT args = do { (w, args) \<leftarrow> va_arg32 args; Some (sint (ucast w :: u16), args) }"
| "signed_arg T_INT args = do { (w, args) \<leftarrow> va_arg32 args; Some (sint w, args) }"
| "signed_arg T_INTMAX args = do { (w, args) \<leftarrow> va_arg64 args; Some (sint w, args) }"
| "signed_arg T_LONG args = do { (w, args) \<leftarrow> va_arg32 args; Some (sint w, args) }"
| "signed_arg T_LONGLONG args = do { (w, args) \<leftarrow> va_arg64 args; Some (sint w, args) }"
| "signed_arg T_PTRDIFFT args = do { (w, args) \<leftarrow> va_arg32 args; Some (sint w, args) }"
| "signed_arg T_SIZET args = do {
     (w, args) \<leftarrow> va_arg32 args;
     let v = int (unat w);
     Some (if v > 4294967295 div 2 then v - 4294967295 - 1 else v, args) }"

fun unsigned_arg :: "conv_type \<Rightarrow> vararg list \<Rightarrow> (u64 \<times> vararg list) option" where
  "unsigned_arg T_CHAR args = do { (w, args) \<leftarrow> va_arg32 args; Some (ucast (ucast w :: byte), args) }"
| "unsigned_arg T_SHORT args = do { (w, args) \<leftarrow> va_arg32 args; Some (ucast (ucast w :: u16), args) }"
| "unsigned_arg T_INT args = do { (w, args) \<leftarrow> va_arg32 args; Some (ucast w, args) }"
| "unsigned_arg T_INTMAX args = do { (w, args) \<leftarrow> va_arg64 args; Some (w, args) }"
| "unsigned_arg T_LONG args = do { (w, args) \<leftarrow> va_arg32 args; Some (ucast w, args) }"
| "unsigned_arg T_LONGLONG args = do { (w, args) \<leftarrow> va_arg64 args; Some (w, args) }"
| "unsigned_arg T_PTRDIFFT args = do { (w, args) \<leftarrow> va_arg32 args; Some (scast w AND 0xffffffff, args) }"
| "unsigned_arg T_SIZET args = do { (w, args) \<leftarrow> va_arg32 args; Some (ucast w, args) }"

text \<open>The switch on the conversion character; \<open>bad\<close> reports a conversion that is not supported, or not known.\<close>

definition convert :: "(bool \<Rightarrow> byte \<Rightarrow> 's \<Rightarrow> 's option) \<Rightarrow> byte \<Rightarrow> printf_conversion \<Rightarrow> vararg list \<Rightarrow> 's out \<Rightarrow> 's \<Rightarrow> (vararg list \<times> 's) option" where
  "convert bad k c args out s =
     (if k \<in> {ch (CHR ''d''), ch (CHR ''i'')} then do {
        (v, args) \<leftarrow> signed_arg (type c) args;
        v' \<leftarrow> (if v < 0 then if v = - (2 ^ 63) then None else Some (- v) else Some v);
        s \<leftarrow> format_integer (of_int v') True (v < 0) base_d c out s;
        Some (args, s) }
      else if k \<in> {ch (CHR ''o''), ch (CHR ''u''), ch (CHR ''x''), ch (CHR ''X'')} then do {
        (v, args) \<leftarrow> unsigned_arg (type c) args;
        let b = (if k = ch (CHR ''o'') then base_o else if k = ch (CHR ''u'') then base_d else if k = ch (CHR ''x'') then base_x else base_X);
        s \<leftarrow> format_integer v False False b c out s;
        Some (args, s) }
      else if k = ch (CHR ''c'') then do {
        (w, args) \<leftarrow> va_arg32 args;
        s \<leftarrow> format_string [ucast w] 1 c out s;
        Some (args, s) }
      else if k = ch (CHR ''s'') then do {
        (p, args) \<leftarrow> va_arg_str args;
        let string = (case p of None \<Rightarrow> str ''(null)'' | Some string \<Rightarrow> string);
        let len = i32 (int (if precision c = - 1 then length string else min (length string) (nat (precision c))));
        s \<leftarrow> format_string string len c out s;
        Some (args, s) }
      else if k = ch (CHR ''p'') then do {
        (w, args) \<leftarrow> va_arg32 args;
        s \<leftarrow> format_integer (ucast w) False False base_x (c\<lparr>flags := POUND\<rparr>) out s;
        Some (args, s) }
      else do {
        s \<leftarrow> bad (k \<in> {ch (CHR ''f''), ch (CHR ''e''), ch (CHR ''E''), ch (CHR ''g''), ch (CHR ''G''), ch (CHR ''n'')}) k s;
        Some (args, s) })"

text \<open>Parsing never goes back.\<close>

lemma parse_flags_length: "length (fst (parse_flags cs f)) \<le> length cs"
  by (induction cs f rule: parse_flags.induct) auto

lemma parse_digits_length: "parse_digits cs v = Some (cs', w) \<Longrightarrow> length cs' \<le> length cs"
  by (induction cs arbitrary: v) (force split: option_bind_splits if_splits intro: le_SucI)+

lemma parse_width_length: "parse_width cs f as = Some (cs', f', w, as') \<Longrightarrow> length cs' \<le> length cs"
  by (auto simp: parse_width_def split: option_bind_splits if_splits prod.splits dest!: parse_digits_length)

lemma parse_precision_length: "parse_precision cs as = Some (cs', p, as') \<Longrightarrow> length cs' \<le> length cs"
  by (auto simp: parse_precision_def Let_def split: option_bind_splits if_splits prod.splits dest!: parse_digits_length)

lemma parse_type_length: "length (fst (parse_type cs)) \<le> length cs"
  by (auto simp: parse_type_def)

lemma parse_conversion_length: "parse_conversion cs as = Some (cs', c, as') \<Longrightarrow> length cs' \<le> length cs"
  using parse_flags_length [of cs 0]
  by (auto simp: parse_conversion_def Let_def split: option_bind_splits prod.splits
    dest!: parse_width_length parse_precision_length) (metis fst_conv le_trans parse_type_length)+

text \<open>
  The loop of \<^verbatim>\<open>__vprintf\<close>.  If a format ends inside a conversion, the loop steps over the terminator and reads on
  behind the string, which is undefined.
\<close>

function vprintf_loop :: "(bool \<Rightarrow> byte \<Rightarrow> 's \<Rightarrow> 's option) \<Rightarrow> byte list \<Rightarrow> vararg list \<Rightarrow> 's out \<Rightarrow> 's \<Rightarrow> 's option" where
  "vprintf_loop bad [] args out s = Some s"
| "vprintf_loop bad (c # format) args out s =
     (if c \<noteq> ch (CHR ''%'') then do { s \<leftarrow> out c s; vprintf_loop bad format args out s }
      else if cur_ch format = ch (CHR ''%'') then do { s \<leftarrow> out (ch (CHR ''%'')) s; vprintf_loop bad (tl format) args out s }
      else do {
        (rest, cv, args) \<leftarrow> parse_conversion format args;
        (case rest of
           [] \<Rightarrow> None
         | k # rest \<Rightarrow> do {
             (args, s) \<leftarrow> convert bad k cv args out s;
             vprintf_loop bad rest args out s }) })"
  by pat_completeness auto
termination
  by (relation "measure (\<lambda>(bad, fmt, args, out, s). length fmt)") (auto dest: parse_conversion_length)

declare vprintf_loop.simps(2) [simp del]

text \<open>
  \<^verbatim>\<open>__vprintf\<close>; its own error messages are printed with \<^verbatim>\<open>__printf\<close>, whose formats have only
  conversions that are known.
\<close>

definition no_conversion :: "'s out \<Rightarrow> bool \<Rightarrow> byte \<Rightarrow> 's \<Rightarrow> 's option" where
  "no_conversion out known k s =
     vprintf_loop (\<lambda>_ _ _. None) (if known then str ''<<no %%%c in kernel>>'' else str ''<<no %%%c conversion>>'') [Arg32 (scast k)] out s"

definition vprintf :: "byte list \<Rightarrow> vararg list \<Rightarrow> 's out \<Rightarrow> 's \<Rightarrow> 's option" where
  "vprintf format args out s = vprintf_loop (no_conversion out) format args out s"

section \<open>Output to a buffer\<close>

record vsnprintf_aux =
  aux_buf :: "byte list"
  aux_p :: nat
  aux_length :: int
  aux_max_length :: int

definition vsnprintf_helper :: "vsnprintf_aux out" where
  "vsnprintf_helper c aux = do {
     l \<leftarrow> s32 (aux_length aux + 1);
     let full = (aux_length aux \<ge> aux_max_length aux);
     let aux = aux\<lparr>aux_length := l\<rparr>;
     if \<not> full then do { bs \<leftarrow> arr_set (aux_buf aux) (aux_p aux) c; Some (aux\<lparr>aux_buf := bs, aux_p := aux_p aux + 1\<rparr>) }
     else Some aux }"

definition vsnprintf :: "byte list \<Rightarrow> u32 \<Rightarrow> byte list \<Rightarrow> vararg list \<Rightarrow> (int \<times> byte list) option" where
  "vsnprintf buffer buf_size format args = do {
     let aux = \<lparr>aux_buf = buffer, aux_p = 0, aux_length = 0, aux_max_length = (if buf_size > 0 then sint (buf_size - 1) else 0)\<rparr>;
     aux \<leftarrow> vprintf format args vsnprintf_helper aux;
     bs \<leftarrow> (if buf_size > 0 then arr_set (aux_buf aux) (aux_p aux) 0 else Some (aux_buf aux));
     Some (aux_length aux, bs) }"

definition snprintf :: "byte list \<Rightarrow> u32 \<Rightarrow> byte list \<Rightarrow> vararg list \<Rightarrow> (int \<times> byte list) option" where
  "snprintf buffer buf_size format args = vsnprintf buffer buf_size format args"

section \<open>Hexadecimal dumps\<close>

definition isprint :: "byte \<Rightarrow> bool" where
  "isprint c \<longleftrightarrow> 32 \<le> c \<and> c < 127"

text \<open>One line of \<^verbatim>\<open>hex_dump\<close>, for the bytes \<open>bs\<close> at offset \<open>ofs\<close>; \<open>i\<close> runs over the columns.\<close>

definition dump_line :: "u32 \<Rightarrow> byte list \<Rightarrow> nat \<Rightarrow> nat \<Rightarrow> bool \<Rightarrow> 's out \<Rightarrow> 's \<Rightarrow> 's option" where
  "dump_line ofs buf start fin ascii out s = do {
     s \<leftarrow> vprintf (str ''%08jx  '') [Arg64 (ucast (ofs - ofs mod 16))] out s;
     s \<leftarrow> for_loop 0 start (\<lambda>_. vprintf (str ''   '') [] out) s;
     s \<leftarrow> for_loop start fin (\<lambda>i s. do {
       x \<leftarrow> arr_get buf (i - start);
       vprintf (str ''%02hhx%c'') [Arg32 (ucast x), Arg32 (if i = 7 then ucast (ch (CHR ''-'')) else ucast (ch (CHR '' '')))] out s }) s;
     s \<leftarrow> (if ascii then do {
       s \<leftarrow> for_loop fin 16 (\<lambda>_. vprintf (str ''   '') [] out) s;
       s \<leftarrow> vprintf (str ''|'') [] out s;
       s \<leftarrow> for_loop 0 start (\<lambda>_. vprintf (str '' '') [] out) s;
       s \<leftarrow> for_loop start fin (\<lambda>i s. do {
         x \<leftarrow> arr_get buf (i - start);
         vprintf (str ''%c'') [Arg32 (ucast (if isprint x then x else ch (CHR ''.'')))] out s }) s;
       s \<leftarrow> for_loop fin 16 (\<lambda>_. vprintf (str '' '') [] out) s;
       vprintf (str ''|'') [] out s }
     else Some s);
     vprintf [10] [] out s }"

function hex_dump :: "u32 \<Rightarrow> byte list \<Rightarrow> nat \<Rightarrow> bool \<Rightarrow> 's out \<Rightarrow> 's \<Rightarrow> 's option" where
  "hex_dump ofs buf sze ascii out s =
     (if sze > 0 then do {
        let start = unat (ofs mod 16);
        let fin = (if 16 - start > sze then start + sze else 16);
        let n = fin - start;
        s \<leftarrow> dump_line ofs buf start fin ascii out s;
        hex_dump (ofs + of_nat n) (drop n buf) (sze - n) ascii out s }
      else Some s)"
  by pat_completeness auto
termination
proof (relation "measure (\<lambda>(ofs, buf, sze, ascii, out, s). sze)", goal_cases)
  case (2 ofs buf sze ascii out s start fin n)
  have "unat (ofs mod 16) < 16" by (simp add: unat_mod)
  then show ?case using 2 by auto
qed simp

declare hex_dump.simps [simp del]

section \<open>The text that is printed\<close>

lemma output_dup_all: "output_dup c n out s = output_all (replicate n c) out s"
  by (induction n arbitrary: s) simp_all

lemma output_all_append: "output_all (xs @ ys) out s = Option.bind (output_all xs out s) (output_all ys out)"
  by (induction xs arbitrary: s) (auto split: option_bind_splits)

lemma output_all_single [simp]: "output_all [c] out s = out c s"
  by (cases "out c s") simp_all

text \<open>A function that prints a fixed text, whatever the output function is.\<close>

definition prints :: "('s out \<Rightarrow> 's \<Rightarrow> 's option) \<Rightarrow> byte list option \<Rightarrow> bool" where
  "prints f t \<longleftrightarrow> (\<forall>out s. f out s = Option.bind t (\<lambda>xs. output_all xs out s))"

text \<open>The digits of \<^verbatim>\<open>format_integer\<close>, least significant first, as they are put into its buffer.\<close>

definition int_digits :: "u64 \<Rightarrow> integer_base \<Rightarrow> printf_conversion \<Rightarrow> byte list option" where
  "int_digits v b c = do {
     buf \<leftarrow> digit_loop (flags c AND GROUP \<noteq> 0) b 0 v [];
     let buf = zero_loop (if precision c < 0 then 1 else precision c) buf;
     if flags c AND POUND \<noteq> 0 \<and> ib_base b = 8 \<and> (buf = [] \<or> last buf \<noteq> ch (CHR ''0'')) then put (ch (CHR ''0'')) buf else Some buf }"

definition int_prefix :: "u64 \<Rightarrow> bool \<Rightarrow> bool \<Rightarrow> integer_base \<Rightarrow> printf_conversion \<Rightarrow> byte list" where
  "int_prefix v is_signed negative b c = (let sign = sign_ch is_signed negative (flags c); x = (if flags c AND POUND \<noteq> 0 \<and> v \<noteq> 0 then ib_x b else 0) in
     (if sign \<noteq> 0 then [sign] else []) @ (if x \<noteq> 0 then [ch (CHR ''0''), x] else []))"

text \<open>A text in a field: blanks in front, zeros behind the prefix, or blanks at the end.\<close>

definition field :: "u32 \<Rightarrow> int \<Rightarrow> byte list \<Rightarrow> byte list \<Rightarrow> byte list" where
  "field fl w pre ds = (let n = nat (w - int (length pre + length ds)) in
     (if fl AND MINUS = 0 \<and> fl AND ZERO = 0 then replicate n (ch (CHR '' '')) else []) @ pre
     @ (if fl AND ZERO \<noteq> 0 then replicate n (ch (CHR ''0'')) else []) @ ds @ (if fl AND MINUS \<noteq> 0 then replicate n (ch (CHR '' '')) else []))"

lemma flags_or: "(w :: u32) AND (a OR b) = 0 \<longleftrightarrow> w AND a = 0 \<and> w AND b = 0"
  by (simp add: bit.conj_disj_distrib or_eq_0_iff)

lemma output_if: "(if c then output_all xs out s else Some s) = output_all (if c then xs else []) out s"
  by simp

lemma output_two: "Option.bind (out a s) (out b) = output_all [a, b] out s"
  by (auto split: option_bind_splits)

lemma output_bind: "Option.bind (output_all a out s) (\<lambda>s. output_all b out s) = output_all (a @ b) out s"
  by (simp add: output_all_append)

text \<open>The part of \<^verbatim>\<open>format_integer\<close> that does the output.\<close>

lemma output_stage:
  assumes "n = nat (w - int (length ds) - (if x \<noteq> 0 then 2 else 0) - (if sign \<noteq> 0 then 1 else 0))"
    and "pre = (if sign \<noteq> 0 then [sign] else []) @ (if x \<noteq> 0 then [ch (CHR ''0''), x] else [])"
  shows "do {
     s \<leftarrow> (if fl AND (MINUS OR ZERO) = 0 then output_dup (ch (CHR '' '')) n out s else Some s);
     s \<leftarrow> (if sign \<noteq> 0 then out sign s else Some s);
     s \<leftarrow> (if x \<noteq> 0 then do { s \<leftarrow> out (ch (CHR ''0'')) s; out x s } else Some s);
     s \<leftarrow> (if fl AND ZERO \<noteq> 0 then output_dup (ch (CHR ''0'')) n out s else Some s);
     s \<leftarrow> output_all (rev ds) out s;
     if fl AND MINUS \<noteq> 0 then output_dup (ch (CHR '' '')) n out s else Some s } = output_all (field fl w pre (rev ds)) out s"
proof -
  have n: "n = nat (w - int (length pre + length (rev ds)))" using assms by (simp add: algebra_simps)
  have o1: "out sign s = output_all [sign] out s" for s by simp
  show ?thesis unfolding output_dup_all o1 output_two output_if output_bind field_def Let_def flags_or n [symmetric]
    unfolding assms(2) by (simp only: append_assoc append_Nil2 append_Nil)
qed

lemma format_integer_text:
  "format_integer v is_signed negative b c out s =
     Option.bind (int_digits v b c) (\<lambda>ds. output_all (field (flags c) (width c) (int_prefix v is_signed negative b c) (rev ds)) out s)"
proof -
  show ?thesis
    unfolding format_integer_def int_digits_def Let_def int_prefix_def output_stage [OF refl refl]
    by (cases "digit_loop (flags c AND GROUP \<noteq> 0) b 0 v []") simp_all
qed

definition string_text :: "byte list \<Rightarrow> int \<Rightarrow> printf_conversion \<Rightarrow> byte list option" where
  "string_text string len c = (if nat len \<le> length string
     then Some ((if width c > len \<and> flags c AND MINUS = 0 then replicate (nat (width c - len)) (ch (CHR '' '')) else [])
       @ take (nat len) string @ (if width c > len \<and> flags c AND MINUS \<noteq> 0 then replicate (nat (width c - len)) (ch (CHR '' '')) else []))
     else None)"

lemma copy_loop:
  "for_loop i n (\<lambda>i s. do { x \<leftarrow> arr_get xs i; out x s }) s =
     (if i < n \<and> length xs < n then None else output_all (take (n - i) (drop i xs)) out s)"
proof (induction "n - i" arbitrary: i s)
  case 0
  then show ?case by simp
next
  case (Suc d)
  then have i: "i < n" and d: "d = n - Suc i" by auto
  show ?case
  proof (cases "i < length xs")
    case False
    then show ?thesis using i by (simp add: for_loop_step arr_get_def)
  next
    case True
    have "take (n - i) (drop i xs) = xs ! i # take (n - Suc i) (drop (Suc i) xs)"
      using i True by (simp add: Cons_nth_drop_Suc [symmetric] Suc_diff_Suc [symmetric])
    then show ?thesis using i True Suc.hyps(1) [OF d]
      by (cases "out (xs ! i) s") (auto simp: for_loop_step arr_get_def)
  qed
qed

lemma format_string_text: "format_string string len c out s = Option.bind (string_text string len c) (\<lambda>xs. output_all xs out s)"
proof (cases "nat len \<le> length string")
  case True
  then have F: "for_loop 0 (nat len) (\<lambda>i s. do { x \<leftarrow> arr_get string i; out x s }) s = output_all (take (nat len) string) out s" for s
    by (simp add: copy_loop)
  show ?thesis unfolding format_string_def F output_dup_all output_if output_bind string_text_def using True by simp
next
  case False
  then have "for_loop 0 (nat len) (\<lambda>i s. do { x \<leftarrow> arr_get string i; out x s }) s = None" for s
    by (simp add: copy_loop)
  then show ?thesis using False
    unfolding format_string_def output_dup_all output_if string_text_def by (simp split: option_bind_splits)
qed

text \<open>The text of one conversion, and the arguments that are left.\<close>

definition conv_text :: "(bool \<Rightarrow> byte \<Rightarrow> byte list option) \<Rightarrow> byte \<Rightarrow> printf_conversion \<Rightarrow> vararg list \<Rightarrow> (vararg list \<times> byte list) option" where
  "conv_text bad k c args =
     (let int_text = (\<lambda>v is_signed negative b c. map_option (\<lambda>ds. field (flags c) (width c) (int_prefix v is_signed negative b c) (rev ds)) (int_digits v b c)) in
      if k \<in> {ch (CHR ''d''), ch (CHR ''i'')} then do {
        (v, args) \<leftarrow> signed_arg (type c) args;
        kassert (v \<noteq> - (2 ^ 63));
        t \<leftarrow> int_text (of_int \<bar>v\<bar>) True (v < 0) base_d c;
        Some (args, t) }
      else if k \<in> {ch (CHR ''o''), ch (CHR ''u''), ch (CHR ''x''), ch (CHR ''X'')} then do {
        (v, args) \<leftarrow> unsigned_arg (type c) args;
        t \<leftarrow> int_text v False False (if k = ch (CHR ''o'') then base_o else if k = ch (CHR ''u'') then base_d else if k = ch (CHR ''x'') then base_x else base_X) c;
        Some (args, t) }
      else if k = ch (CHR ''c'') then do { (w, args) \<leftarrow> va_arg32 args; t \<leftarrow> string_text [ucast w] 1 c; Some (args, t) }
      else if k = ch (CHR ''s'') then do {
        (p, args) \<leftarrow> va_arg_str args;
        let string = (case p of None \<Rightarrow> str ''(null)'' | Some string \<Rightarrow> string);
        t \<leftarrow> string_text string (i32 (int (if precision c = - 1 then length string else min (length string) (nat (precision c))))) c;
        Some (args, t) }
      else if k = ch (CHR ''p'') then do { (w, args) \<leftarrow> va_arg32 args; t \<leftarrow> int_text (ucast w) False False base_x (c\<lparr>flags := POUND\<rparr>); Some (args, t) }
      else do {
        t \<leftarrow> bad (k \<in> {ch (CHR ''f''), ch (CHR ''e''), ch (CHR ''E''), ch (CHR ''g''), ch (CHR ''G''), ch (CHR ''n'')}) k;
        Some (args, t) })"

lemma bind_text: "Option.bind (Option.bind m (\<lambda>t. output_all (f t) out s)) (\<lambda>s. Some (args, s)) =
    Option.bind (map_option f m) (\<lambda>t. map_option (Pair args) (output_all t out s))"
  by (cases m) (auto simp: map_option_case split: option.splits option_bind_splits)

lemma convert_text:
  assumes "\<And>kn k s. bad kn k s = Option.bind (badt kn k) (\<lambda>t. output_all t out s)"
  shows "convert bad k c args out s = Option.bind (conv_text badt k c args) (\<lambda>(args, t). map_option (Pair args) (output_all t out s))"
proof -
  note tx = format_integer_text format_string_text assms bind_text bind_text [where f = "\<lambda>t. t", unfolded option.map_ident]
  let ?d = "k \<in> {ch (CHR ''d''), ch (CHR ''i'')}" and ?u = "k \<in> {ch (CHR ''o''), ch (CHR ''u''), ch (CHR ''x''), ch (CHR ''X'')}"
    and ?c = "k = ch (CHR ''c'')" and ?s = "k = ch (CHR ''s'')" and ?p = "k = ch (CHR ''p'')"
  have n: "Option.bind (Option.bind m (\<lambda>t. Some (as, t))) (\<lambda>(args, t). map_option (Pair args) (output_all t out s))
    = Option.bind m (\<lambda>t. map_option (Pair as) (output_all t out s))" for as m by (cases m) simp_all
  consider (d) ?d | (u) "\<not> ?d" ?u | (c) "\<not> ?d" "\<not> ?u" ?c | (s) "\<not> ?d" "\<not> ?u" "\<not> ?c" ?s | (p) "\<not> ?d" "\<not> ?u" "\<not> ?c" "\<not> ?s" ?p
    | (b) "\<not> ?d" "\<not> ?u" "\<not> ?c" "\<not> ?s" "\<not> ?p" by blast
  then show ?thesis
  proof cases
    case d
    show ?thesis
    proof (cases "signed_arg (type c) args")
      case (Some p)
      obtain v as where p: "p = (v, as)" by force
      consider "v = - (2 ^ 63)" | "v < 0" "v \<noteq> - (2 ^ 63)" | "\<not> v < 0" by blast
      then show ?thesis
        by cases (simp_all only: convert_def conv_text_def Let_def d if_True Some p Option.bind.simps prod.case if_False tx n simp_thms abs_of_neg abs_of_nonneg not_less, simp_all)
    qed (simp only: convert_def conv_text_def Let_def d if_True Option.bind.simps)
  next
    case u
    show ?thesis
      by (cases "unsigned_arg (type c) args") (simp_all only: convert_def conv_text_def Let_def u if_True if_False Option.bind.simps tx n case_prod_beta)
  next
    case c
    show ?thesis
      by (cases "va_arg32 args") (simp_all only: convert_def conv_text_def Let_def c(1-2) c(3) [THEN eqTrueI] if_True if_False Option.bind.simps tx n case_prod_beta option.map_ident)
  next
    case s
    show ?thesis
      by (cases "va_arg_str args") (simp_all only: convert_def conv_text_def Let_def s(1-3) s(4) [THEN eqTrueI] if_True if_False Option.bind.simps tx n case_prod_beta option.map_ident)
  next
    case p
    show ?thesis
      by (cases "va_arg32 args") (simp_all only: convert_def conv_text_def Let_def p(1-4) p(5) [THEN eqTrueI] if_True if_False Option.bind.simps tx n case_prod_beta option.map_ident)
  next
    case b
    show ?thesis
      by (simp only: convert_def conv_text_def Let_def b if_False tx n option.map_ident)
  qed
qed

text \<open>The text of a format; \<open>None\<close> where the behaviour is undefined.\<close>

function text_loop :: "(bool \<Rightarrow> byte \<Rightarrow> byte list option) \<Rightarrow> byte list \<Rightarrow> vararg list \<Rightarrow> byte list option" where
  "text_loop bad [] args = Some []"
| "text_loop bad (c # format) args =
     (if c \<noteq> ch (CHR ''%'') then map_option (Cons c) (text_loop bad format args)
      else if cur_ch format = ch (CHR ''%'') then map_option (Cons (ch (CHR ''%''))) (text_loop bad (tl format) args)
      else do {
        (rest, cv, args) \<leftarrow> parse_conversion format args;
        (case rest of
           [] \<Rightarrow> None
         | k # rest \<Rightarrow> do {
             (args, t) \<leftarrow> conv_text bad k cv args;
             ts \<leftarrow> text_loop bad rest args;
             Some (t @ ts) }) })"
  by pat_completeness auto
termination
  by (relation "measure (\<lambda>(bad, fmt, args). length fmt)") (auto dest: parse_conversion_length)

declare text_loop.simps(2) [simp del]

definition message :: "bool \<Rightarrow> byte \<Rightarrow> byte list" where
  "message known k = str ''<<no %'' @ [k] @ (if known then str '' in kernel>>'' else str '' conversion>>'')"

definition text_of :: "byte list \<Rightarrow> vararg list \<Rightarrow> byte list option" where
  "text_of format args = text_loop (\<lambda>known k. Some (message known k)) format args"

lemma vprintf_loop_text:
  assumes "\<And>kn k s. bad kn k s = Option.bind (badt kn k) (\<lambda>t. output_all t out s)"
  shows "vprintf_loop bad format args out s = Option.bind (text_loop badt format args) (\<lambda>t. output_all t out s)"
proof (induction "length format" arbitrary: format args s rule: less_induct)
  case less
  show ?case
  proof (cases format)
    case (Cons c cs)
    have cons: "Option.bind (out x s) (\<lambda>s. Option.bind m (\<lambda>t. output_all t out s)) = Option.bind (map_option (Cons x) m) (\<lambda>t. output_all t out s)" for x m s
      by (cases m) auto
    have e: "vprintf_loop bad xs as out = (\<lambda>s. Option.bind (text_loop badt xs as) (\<lambda>t. output_all t out s))" if "length xs < length format" for xs as
      using less that by auto
    consider "c \<noteq> ch (CHR ''%'')" | "c = ch (CHR ''%'')" "cur_ch cs = ch (CHR ''%'')" | (cv) "c = ch (CHR ''%'')" "cur_ch cs \<noteq> ch (CHR ''%'')" by blast
    then show ?thesis
    proof cases
      case cv
      show ?thesis
      proof (cases "parse_conversion cs args")
        case (Some p)
        obtain rest c' args' where p: "p = (rest, c', args')" by (cases p) auto
        have len: "length rest \<le> length cs" using parse_conversion_length Some p by auto
        show ?thesis
        proof (cases rest)
          case r: (Cons k rest')
          have IH: "vprintf_loop bad rest' as out s = Option.bind (text_loop badt rest' as) (\<lambda>t. output_all t out s)" for as s
            using less [of rest'] len Cons r by simp
          have "Option.bind (map_option (Pair as) (output_all t out s)) (\<lambda>(args, s). vprintf_loop bad rest' args out s)
            = Option.bind (Option.bind (text_loop badt rest' as) (\<lambda>ts. Some (t @ ts))) (\<lambda>t. output_all t out s)" for as t
            unfolding IH by (cases "text_loop badt rest' as"; cases "output_all t out s") (simp_all add: output_all_append)
          then show ?thesis using cv Cons Some p r
            by (cases "conv_text badt k c' args'") (auto simp: vprintf_loop.simps(2) text_loop.simps(2) convert_text [OF assms] simp del: bind_assoc)
        qed (use cv Cons Some p in \<open>simp add: vprintf_loop.simps(2) text_loop.simps(2)\<close>)
      qed (use cv Cons in \<open>simp add: vprintf_loop.simps(2) text_loop.simps(2)\<close>)
    qed (use Cons e [of cs] e [of "tl cs"] cons in \<open>simp_all add: vprintf_loop.simps(2) text_loop.simps(2)\<close>)
  qed simp
qed

lemma message_text: "text_loop badt (if known then str ''<<no %%%c in kernel>>'' else str ''<<no %%%c conversion>>'') [Arg32 (scast k)] = Some (message known k)"
proof -
  have k: "(ucast (scast k :: u32) :: byte) = k" by (rule bit_word_eqI) (simp add: bit_simps)
  have c: "conv_text badt 99 \<lparr>flags = 0, width = 0, precision = - 1, type = T_INT\<rparr> [Arg32 (scast k)] = Some ([], [k])"
    by (simp add: conv_text_def string_text_def k)
  have p: "parse_conversion (99 # cs) as = Some (99 # cs, \<lparr>flags = 0, width = 0, precision = - 1, type = T_INT\<rparr>, as)" for cs as
    by (simp add: parse_conversion_def parse_width_def parse_precision_def parse_type_def isdigit_def MINUS_def PLUS_def)
  show ?thesis by (cases known) (simp_all add: str_def text_loop.simps(2) p c message_def)
qed

lemma no_conversion_text: "no_conversion out known k s = output_all (message known k) out s"
  unfolding no_conversion_def
  by (subst vprintf_loop_text [where badt = "\<lambda>_ _. None"]) (simp_all only: Option.bind.simps message_text)

lemma vprintf_prints: "vprintf format args out s = Option.bind (text_of format args) (\<lambda>t. output_all t out s)"
  unfolding vprintf_def text_of_def by (rule vprintf_loop_text) (simp add: no_conversion_text)

section \<open>Digits\<close>

fun digs :: "nat \<Rightarrow> nat \<Rightarrow> nat list" where
  "digs b n = (if n = 0 \<or> b < 2 then [] else n mod b # digs b (n div b))"

declare digs.simps [simp del]

lemma digs_0 [simp]: "digs b 0 = []"
  by (simp add: digs.simps)

lemma digs_step: "0 < n \<Longrightarrow> 2 \<le> b \<Longrightarrow> digs b n = n mod b # digs b (n div b)"
  by (simp add: digs.simps)

lemma digs_length:
  assumes "2 \<le> b" "n < b ^ k"
  shows "length (digs b n) \<le> k"
  using assms(2)
proof (induction k arbitrary: n)
  case (Suc k)
  have "n div b < b ^ k" using Suc.prems assms(1) by (simp add: less_mult_imp_div_less mult.commute)
  then show ?case using Suc.IH [of "n div b"] assms(1) by (cases "n = 0") (simp_all add: digs_step)
qed simp

text \<open>A base in order: at least 8, and a digit for each remainder.\<close>

definition base_ok :: "integer_base \<Rightarrow> bool" where
  "base_ok b \<longleftrightarrow> 8 \<le> unat (ib_base b) \<and> length (ib_digits b) = unat (ib_base b)"

lemma bases_ok: "base_ok base_d" "base_ok base_o" "base_ok base_x" "base_ok base_X"
  by (simp_all add: base_ok_def base_d_def base_o_def base_x_def base_X_def str_def)

lemma digs_length_64:
  assumes "base_ok b"
  shows "length (digs (unat (ib_base b)) (unat (v :: u64))) \<le> 22"
proof (rule digs_length)
  show "2 \<le> unat (ib_base b)" using assms by (simp add: base_ok_def)
  have "unat v < 2 ^ 64" using unsigned_less [where w = v and 'a = nat] by simp
  also have "(2 :: nat) ^ 64 \<le> 8 ^ 22" by simp
  also have "\<dots> \<le> unat (ib_base b) ^ 22" using assms by (intro power_mono) (simp_all add: base_ok_def)
  finally show "unat v < unat (ib_base b) ^ 22" .
qed

lemma digit_loop_total:
  assumes b: "base_ok b" and "length buf + 2 * length (digs (unat (ib_base b)) (unat v)) \<le> 64"
  shows "\<exists>ds. digit_loop gr b n v buf = Some (buf @ ds) \<and> length ds \<le> 2 * length (digs (unat (ib_base b)) (unat v))
    \<and> (\<not> gr \<longrightarrow> ds = map (\<lambda>i. ib_digits b ! i) (digs (unat (ib_base b)) (unat v)))"
  using assms(2)
proof (induction "unat v" arbitrary: v n buf rule: less_induct)
  case less
  have b1: "ib_base b > 1" "2 \<le> unat (ib_base b)" using b by (auto simp: base_ok_def word_less_nat_alt)
  show ?case
  proof (cases "v = 0")
    case False
    then have v: "v > 0" "0 < unat v" by (simp_all add: word_neq_0_conv unat_gt_0)
    let ?B = "unat (ib_base b)" and ?c = "gr \<and> 0 < n \<and> n mod ib_group b = 0"
    have D: "digs ?B (unat v) = unat v mod ?B # digs ?B (unat (v div ib_base b))" using v b1 by (simp add: digs_step unat_div)
    have lt: "unat (v div ib_base b) < unat v" using v b1 by (simp add: unat_div)
    let ?pre = "(if ?c then [ch (CHR '','')] else []) @ [ib_digits b ! (unat v mod ?B)]"
    have "arr_get (ib_digits b) (unat (v mod ib_base b)) = Some (ib_digits b ! (unat v mod ?B))" using b by (simp add: arr_get_def base_ok_def unat_mod)
    then have step: "digit_loop gr b n v buf = digit_loop gr b (Suc n) (v div ib_base b) (buf @ ?pre)"
      using v b1 less.prems D by (subst digit_loop.simps) (auto simp: put_def)
    have "length (buf @ ?pre) + 2 * length (digs ?B (unat (v div ib_base b))) \<le> 64" using less.prems D by (auto split: if_splits)
    from less.hyps [OF lt this, of "Suc n"] obtain ds where
      "digit_loop gr b (Suc n) (v div ib_base b) (buf @ ?pre) = Some ((buf @ ?pre) @ ds)" "length ds \<le> 2 * length (digs ?B (unat (v div ib_base b)))"
      "\<not> gr \<longrightarrow> ds = map (\<lambda>i. ib_digits b ! i) (digs ?B (unat (v div ib_base b)))" by blast
    then show ?thesis using step D by (intro exI [of _ "?pre @ ds"]) auto
  qed (simp add: digit_loop.simps)
qed

lemma zero_loop_eq: "zero_loop p buf = buf @ replicate (nat (min p 63) - length buf) (ch (CHR ''0''))"
proof (induction "63 - length buf" arbitrary: buf)
  case 0
  then show ?case by (simp add: zero_loop.simps)
next
  case (Suc d)
  show ?case
  proof (cases "int (length buf) < p")
    case True
    have "nat (min p 63) - length buf = Suc (nat (min p 63) - Suc (length buf))" using True Suc.hyps(2) by linarith
    then show ?thesis using True Suc.hyps by (subst zero_loop.simps) (simp add: replicate_app_Cons_same)
  next
    case False
    then show ?thesis by (subst zero_loop.simps) simp
  qed
qed

lemma int_digits_total:
  assumes "base_ok b"
  shows "\<exists>ds. int_digits v b c = Some ds \<and> length ds \<le> 64"
proof -
  let ?n = "length (digs (unat (ib_base b)) (unat v))"
  have n: "?n \<le> 22" by (rule digs_length_64 [OF assms])
  obtain ds where ds: "digit_loop (flags c AND GROUP \<noteq> 0) b 0 v [] = Some ds" "length ds \<le> 44"
    using digit_loop_total [OF assms, of "[]" v "flags c AND GROUP \<noteq> 0" 0] n by auto
  let ?z = "zero_loop (if precision c < 0 then 1 else precision c) ds"
  have "length ?z \<le> 63" using ds(2) by (simp add: zero_loop_eq)
  then show ?thesis using ds by (simp add: int_digits_def Let_def put_def)
qed

lemma digs_decimal:
  assumes "n < 10 ^ k"
  shows "decimal (rev (map (\<lambda>i. str ''0123456789'' ! i) (digs 10 n))) = int n" "\<forall>c \<in> set (map (\<lambda>i. str ''0123456789'' ! i) (digs 10 n)). isdigit c"
proof -
  have d: "unat (str ''0123456789'' ! i) - 48 = i \<and> isdigit (str ''0123456789'' ! i)" if "i < 10" for i
  proof -
    have "i \<in> {0, 1, 2, 3, 4, 5, 6, 7, 8, 9}" using that by auto
    then show ?thesis by (auto simp: str_def isdigit_def)
  qed
  show "decimal (rev (map (\<lambda>i. str ''0123456789'' ! i) (digs 10 n))) = int n" "\<forall>c \<in> set (map (\<lambda>i. str ''0123456789'' ! i) (digs 10 n)). isdigit c"
  proof (induction n rule: less_induct)
    case (less n)
    have m: "n mod 10 < 10" by simp
    {
      case 1
      show ?case
      proof (cases "n = 0")
        case False
        have "int n = int (n div 10) * 10 + int (n mod 10)" by (simp add: zdiv_int zmod_int)
        then show ?thesis using False less(1) [of "n div 10"] d [OF m] by (simp add: digs_step decimal_def)
      qed (simp add: decimal_def)
    next
      case 2
      show ?case using less(2) [of "n div 10"] d [OF m] by (cases "n = 0") (simp_all add: digs_step)
    }
  qed
qed


end
