(* ===== verification/Stdio_Spec.thy ===== *)
theory Stdio_Spec
  imports Stdio
begin

unbundle bit_operations_syntax

text \<open>
  What formatted output prints: the text of a format, numbers and fields, and output to a buffer.
\<close>

section \<open>Properties\<close>


definition plain :: printf_conversion where
  "plain = \<lparr>flags = 0, width = 0, precision = - 1, type = T_INT\<rparr>"

lemma parse_plain: "\<not> isdigit k \<Longrightarrow> k \<notin> set (str ''-+ #0*.hjltz'') \<Longrightarrow> k \<noteq> ch (CHR 0x27) \<Longrightarrow> parse_conversion (k # cs) as = Some (k # cs, plain, as)"
  by (simp add: parse_conversion_def parse_width_def parse_precision_def parse_type_def MINUS_def PLUS_def plain_def str_def)

lemma int_digits_plain:
  assumes "base_ok b"
  shows "int_digits v b plain = Some (if v = 0 then [ch (CHR ''0'')] else map (\<lambda>i. ib_digits b ! i) (digs (unat (ib_base b)) (unat v)))"
proof -
  have "digit_loop False b 0 v [] = Some (map (\<lambda>i. ib_digits b ! i) (digs (unat (ib_base b)) (unat v)))"
    using digit_loop_total [OF assms, of "[]" v False 0] digs_length_64 [OF assms, of v] by auto
  moreover have "digs (unat (ib_base b)) (unat v) \<noteq> []" if "v \<noteq> 0"
    using that assms by (subst digs_step) (simp_all add: base_ok_def unat_gt_0)
  ultimately show ?thesis by (auto simp: int_digits_def plain_def zero_loop_eq Suc_le_eq)
qed

lemma field_plain: "field 0 0 pre ds = pre @ ds"
  by (simp add: field_def)

lemma sint_zero: "sint w = 0 \<longleftrightarrow> w = 0" for w :: u32
proof
  assume a: "sint w = 0"
  have "word_of_int (sint w) = (word_of_int 0 :: u32)" by (rule arg_cong [OF a])
  then show "w = 0" by simp
qed simp

lemma text_d:
  "text_of (str ''%d'') [Arg32 w] = Some ((if sint w < 0 then [ch (CHR ''-'')] else [])
     @ (if w = 0 then [ch (CHR ''0'')] else rev (map (\<lambda>i. str ''0123456789'' ! i) (digs 10 (nat \<bar>sint w\<bar>)))))"
proof -
  let ?v = "of_int \<bar>sint w\<bar> :: u64"
  have r: "- (2 ^ 31) \<le> sint w" "sint w < 2 ^ 31" using sint_range_size [of w] by (simp_all add: word_size)
  then have u: "unat ?v = nat \<bar>sint w\<bar>" by (simp add: unat_eq_nat_uint uint_word_of_int take_bit_int_eq_self)
  have z: "?v = 0 \<longleftrightarrow> w = 0" using u unat_eq_0 [of ?v] sint_zero [of w] by auto
  have I: "int_digits ?v base_d plain = Some (if w = 0 then [48] else map (\<lambda>i. str ''0123456789'' ! i) (digs 10 (nat \<bar>sint w\<bar>)))"
    unfolding int_digits_plain [OF bases_ok(1)] z u by (simp add: base_d_def)
  have f: "flags plain = 0" "width plain = 0" "type plain = T_INT" by (simp_all add: plain_def)
  have "conv_text badt 100 plain [Arg32 w] = Some ([], (if sint w < 0 then [45] else []) @ (if w = 0 then [48] else rev (map (\<lambda>i. str ''0123456789'' ! i) (digs 10 (nat \<bar>sint w\<bar>)))))" for badt
    using r I by (cases "sint w < 0") (simp_all add: conv_text_def f int_prefix_def sign_ch_def field_plain)
  then show ?thesis by (simp add: text_of_def str_def [of "''%d''"] text_loop.simps(2) parse_plain isdigit_def str_def [of "''-+ #0*.hjltz''"])
qed

text \<open>
  C31. What \<^verbatim>\<open>%d\<close> prints \<^verbatim>\<open>atoi\<close> reads: for every \<^verbatim>\<open>int\<close>, reading the printed text gives the number back.
\<close>

theorem printf_atoi: "\<exists>t. text_of (str ''%d'') [Arg32 w] = Some t \<and> atoi t = sint w"
proof (cases "w = 0")
  case True
  then show ?thesis by (simp add: text_d) (simp add: atoi_def isspace_def isdigit_def i32_def)
next
  case False
  let ?ds = "rev (map (\<lambda>i. str ''0123456789'' ! i) (digs 10 (nat \<bar>sint w\<bar>)))"
  have r: "- (2 ^ 31) \<le> sint w" "sint w < 2 ^ 31" using sint_range_size [of w] by (simp_all add: word_size)
  have n: "nat \<bar>sint w\<bar> < 10 ^ 10" using r by simp
  note D = digs_decimal [OF n]
  have dec: "decimal ?ds = \<bar>sint w\<bar>" using D(1) by simp
  have "sint w \<noteq> 0" using False by (simp add: sint_zero)
  then have ne: "?ds \<noteq> []" by (simp add: digs_step)
  have dg: "\<forall>c \<in> set ?ds. isdigit c" using D(2) by simp
  show ?thesis
    using atoi_reads [OF _ ne dg, of "[]" "[]"] dec r False by (auto simp: text_d)
qed

lemma field_length:
  assumes "fl AND MINUS = 0 \<or> fl AND ZERO = 0"
  shows "int (length (field fl w pre ds)) = max w (int (length pre + length ds))"
  using assms by (auto simp: field_def Let_def)



lemma helper_all:
  assumes "m < length buffer"
  shows "length xs < 2 ^ 31 \<Longrightarrow> output_all xs vsnprintf_helper \<lparr>aux_buf = buffer, aux_p = 0, aux_length = 0, aux_max_length = int m\<rparr>
    = Some \<lparr>aux_buf = take m xs @ drop (min (length xs) m) buffer, aux_p = min (length xs) m, aux_length = int (length xs), aux_max_length = int m\<rparr>"
proof (induction xs rule: rev_induct)
  case (snoc x xs)
  have s: "s32 (int (length xs) + 1) = Some (int (length xs) + 1)" using snoc.prems by (simp add: s32_def)
  show ?case
  proof (cases "length xs < m")
    case True
    have "drop (length xs) buffer = buffer ! length xs # drop (Suc (length xs)) buffer" using True assms by (simp add: Cons_nth_drop_Suc)
    then show ?thesis using snoc s True assms
      by (simp add: output_all_append vsnprintf_helper_def [of x] arr_set_def list_update_append min_def Suc_le_eq add.commute Let_def)
  next
    case False
    then show ?thesis using snoc s assms by (simp add: output_all_append vsnprintf_helper_def [of x] add.commute Let_def)
  qed
qed simp

text \<open>
  C34. \<^verbatim>\<open>snprintf\<close> stores the text if it fits, else as much of it as there is room for, always with a terminator, writes nothing
  behind it, and returns the length of the whole text.
\<close>

theorem snprintf_truncates:
  assumes t: "text_of format args = Some t" "length t < 2 ^ 31" and n: "0 < n" "n \<le> 2 ^ 31" "unat n \<le> length buffer"
  shows "snprintf buffer n format args = Some (int (length t), take (unat n - 1) t @ 0 # drop (Suc (min (length t) (unat n - 1))) buffer)"
proof -
  let ?m = "unat n - 1"
  have m: "?m < length buffer" using n by (simp add: word_less_nat_alt)
  have "unat n \<le> 2 ^ 31" using n(2) by (simp add: word_le_nat_alt)
  then have "unat (n - 1) = ?m" "unat (n - 1) < 2 ^ 31" using n(1) by (auto simp: unat_minus_one word_neq_0_conv word_less_nat_alt)
  then have "uint (n - 1) = int ?m" "int ?m < 2 ^ 31" by (simp_all add: uint_nat)
  then have s: "sint (n - 1) = int ?m" by (simp add: sint_uint signed_take_bit_int_eq_self)
  have d: "drop (min (length t) ?m) buffer = buffer ! min (length t) ?m # drop (Suc (min (length t) ?m)) buffer" using m by (simp add: Cons_nth_drop_Suc)
  show ?thesis
    using helper_all [OF m t(2)] t(1) n(1) m s d
    by (simp add: snprintf_def vsnprintf_def vprintf_prints arr_set_def list_update_append)
qed

theorem snprintf_truncates_witness:
  "snprintf [7, 7, 7, 7, 7, 7] 4 (str ''%d'') [Arg32 12345] = Some (5, [49, 50, 51, 0, 7, 7])"
proof -
  have "text_of (str ''%d'') [Arg32 12345] = Some [49, 50, 51, 52, 53]" unfolding text_d by (simp add: str_def digs.simps)
  from snprintf_truncates [OF this, of 4 "[7, 7, 7, 7, 7, 7]"] show ?thesis by simp
qed

text \<open>
  A format that ends in the middle of a conversion runs past the end of its string.
\<close>

theorem printf_trailing_percent:
  assumes "ch (CHR ''%'') \<notin> set xs"
  shows "vprintf (xs @ str ''%'') args out s = None"
proof -
  have "text_loop badt (xs @ str ''%'') args = None" for badt
    using assms
  proof (induction xs)
    case Nil
    show ?case by (simp add: str_def text_loop.simps(2) parse_conversion_def parse_width_def parse_precision_def parse_type_def split: option_bind_splits)
  qed (simp add: text_loop.simps(2))
  then show ?thesis by (simp add: vprintf_prints text_of_def)
qed

theorem printf_trailing_percent_witness: "vprintf (str ''100%'') [] (\<lambda>c t. Some (t @ [c])) [] = None"
  using printf_trailing_percent [of "str ''100''"] by (simp add: str_def)

text \<open>
  A negative width given as an argument asks for left adjustment, but a zero flag stays in force: the number is padded twice
  and the field is wider than the width.
\<close>

theorem printf_zero_star_pads_twice: "text_of (str ''%0*d'') [Arg32 (- 5), Arg32 42] = Some (str ''00042   '')"
  by code_simp

end
