(* ===== verification/Spec2Isabelle.thy ===== *)
theory Spec2Isabelle
  imports Prelude Vaddr Bitmap Klist_Sort Hash Cache Inode_Grow File Kstring Filesys Arith64 Stdlib Prng Timer Thread_Create Intq Pagedir Malloc_Free Stdio_Spec
begin

text \<open>
  A verification library for the Pintos kernel in \<^verbatim>\<open>src/src\<close>.
\<close>

end
